(* ===== verification/Prelude.thy ===== *)
theory Prelude
  imports Main "HOL-Library.Word" "HOL-Library.Multiset"
begin

unbundle bit_operations_syntax

text \<open>
  Shared vocabulary of the development: the machine integers of the Rust sources, the
  crate's error codes (\<^verbatim>\<open>src/src/error.rs\<close>), the result-and-state monad in which a
  \<^verbatim>\<open>&mut self\<close> method that returns a \<^verbatim>\<open>Result\<close> is written, the saturating and checked
  arithmetic of the standard library, fixed-capacity vectors (\<^verbatim>\<open>heapless::Vec\<close>), and
  little-endian byte strings.  The lemmas here are generic; every component theory uses
  them through the simpset or through the named collections below.
\<close>

named_theorems keeps_rules \<open>a method keeps a predicate of its receiver\<close>
named_theorems int_simps \<open>saturating and checked machine arithmetic\<close>

type_synonym u8 = "8 word"
type_synonym u16 = "16 word"
type_synonym u32 = "32 word"
type_synonym u64 = "64 word"
type_synonym i64 = "64 word" \<comment> \<open>two's complement, read by \<open>sint\<close>\<close>
type_synonym bytes = "u8 list"

section \<open>Error codes\<close>

text \<open>\<^verbatim>\<open>ErrorCode\<close> of \<^verbatim>\<open>error.rs\<close>, in the order of the source.\<close>

datatype ErrorCode =
    TlvTruncated | TlvInvalidControl | TlvContainerMismatch | TlvWrongType
  | TlvInvalidUtf8 | TlvInvalidTag | TlvDepthExceeded | TlvOutOfRange | TlvNotFound
  | TlvDuplicateTag | MessageTruncated | UnsupportedVersion | MessageReserved
  | DuplicateMessage | IntegrityCheckFailed | NoExchange | NoSession
  | MrpRetransmitExhausted | NoSpace | Busy | BufferTooSmall | InvalidArgument
  | InvalidState | AlreadyExists | InvalidAction | ReportWouldChunk | CertInvalid
  | CertPathInvalid | CertExpired | Unsupported | DerMalformed | AttestationFailed
  | CommissioningFailed | DnsTruncated | DnsMalformed | MessageTooLarge | BdxAborted
  | BtpMalformed | BtpSequence | BtpTimeout | Platform

type_synonym 'a result = "ErrorCode + 'a"

section \<open>Methods on a mutable receiver\<close>

text \<open>
  A method \<^verbatim>\<open>fn m(&mut self, ..) -> Result<A>\<close> is a function of type \<open>('s, 'a) mutator\<close>:
  it always returns the receiver's new state, because what the code did to the receiver
  before it bailed out is visible to the caller.
\<close>

type_synonym ('s, 'a) mutator = "'s \<Rightarrow> 'a result \<times> 's"

definition retE :: "'a \<Rightarrow> ('s, 'a) mutator" where
  "retE a s = (Inr a, s)"

definition failE :: "ErrorCode \<Rightarrow> ('s, 'a) mutator" where
  "failE e s = (Inl e, s)"

text \<open>The \<^verbatim>\<open>?\<close> operator: run \<open>m\<close>, and continue with its value unless it failed.\<close>

definition bindE :: "('s, 'a) mutator \<Rightarrow> ('a \<Rightarrow> ('s, 'b) mutator) \<Rightarrow> ('s, 'b) mutator" where
  "bindE m f s = (case m s of (Inl e, s') \<Rightarrow> (Inl e, s') | (Inr a, s') \<Rightarrow> f a s')"

definition getE :: "('s, 's) mutator" where
  "getE s = (Inr s, s)"

definition modifyE :: "('s \<Rightarrow> 's) \<Rightarrow> ('s, unit) mutator" where
  "modifyE f s = (Inr (), f s)"

text \<open>\<^verbatim>\<open>if !cond { bail!(e) }\<close>.\<close>

definition ensureE :: "ErrorCode \<Rightarrow> bool \<Rightarrow> ('s, unit) mutator" where
  "ensureE e c = (if c then retE () else failE e)"

text \<open>A pure \<^verbatim>\<open>Result\<close> inside a method.\<close>

definition liftE :: "'a result \<Rightarrow> ('s, 'a) mutator" where
  "liftE r s = (r, s)"

text \<open>\<^verbatim>\<open>and_then\<close> on a pure \<^verbatim>\<open>Result\<close>.\<close>

definition bindR :: "'a result \<Rightarrow> ('a \<Rightarrow> 'b result) \<Rightarrow> 'b result" where
  "bindR r f = (case r of Inl e \<Rightarrow> Inl e | Inr a \<Rightarrow> f a)"

definition ok_or :: "ErrorCode \<Rightarrow> 'a option \<Rightarrow> 'a result" where
  "ok_or e x = (case x of None \<Rightarrow> Inl e | Some a \<Rightarrow> Inr a)"

lemmas method_defs = retE_def failE_def getE_def modifyE_def ensureE_def liftE_def

lemma retE_apply [simp]: "retE a s = (Inr a, s)"
  and failE_apply [simp]: "failE e s = (Inl e, s)"
  and getE_apply [simp]: "getE s = (Inr s, s)"
  and modifyE_apply [simp]: "modifyE f s = (Inr (), f s)"
  and liftE_apply [simp]: "liftE r s = (r, s)"
  and ensureE_apply [simp]: "ensureE e c s = (if c then (Inr (), s) else (Inl e, s))"
  by (simp_all add: method_defs)

lemma bindE_simps [simp]:
  "m s = (Inl e, s') \<Longrightarrow> bindE m f s = (Inl e, s')"
  "m s = (Inr a, s') \<Longrightarrow> bindE m f s = f a s'"
  by (simp_all add: bindE_def)

lemma bindE_apply [simp]:
  "bindE (retE a) f s = f a s"
  "bindE (failE e) f s = (Inl e, s)"
  "bindE getE f s = f s s"
  "bindE (modifyE g) h s = h () (g s)"
  "bindE (ensureE e c) h s = (if c then h () s else (Inl e, s))"
  "bindE (liftE r) f s = (case r of Inl e \<Rightarrow> (Inl e, s) | Inr a \<Rightarrow> f a s)"
  by (simp_all add: bindE_def split: sum.splits)

lemma bindE_ok_iff:
  "bindE m f s = (Inr b, s'') \<longleftrightarrow> (\<exists>a s'. m s = (Inr a, s') \<and> f a s' = (Inr b, s''))"
  by (auto simp: bindE_def split: prod.splits sum.splits)

lemma bindE_okE:
  assumes "bindE m f s = (Inr b, s'')"
  obtains a s' where "m s = (Inr a, s')" and "f a s' = (Inr b, s'')"
  using assms by (auto simp: bindE_ok_iff)

text \<open>A method that keeps a predicate of its receiver, whether it succeeds or fails.\<close>

definition keeps :: "('s \<Rightarrow> bool) \<Rightarrow> ('s, 'a) mutator \<Rightarrow> bool" where
  "keeps P m \<longleftrightarrow> (\<forall>s. P s \<longrightarrow> P (snd (m s)))"

lemma keepsI [intro]: "(\<And>s. P s \<Longrightarrow> P (snd (m s))) \<Longrightarrow> keeps P m"
  by (simp add: keeps_def)

lemma keepsD [dest]: "keeps P m \<Longrightarrow> P s \<Longrightarrow> P (snd (m s))"
  by (simp add: keeps_def)

lemma keeps_bindE [keeps_rules]: "keeps P m \<Longrightarrow> (\<And>a. keeps P (f a)) \<Longrightarrow> keeps P (bindE m f)"
  by (auto simp: keeps_def bindE_def case_prod_beta split: sum.split)

lemma keeps_pure [keeps_rules]:
  "keeps P (retE a)" "keeps P (failE e)" "keeps P (liftE r)" "keeps P (ensureE e c)" "keeps P getE"
  by (simp_all add: keeps_def)

lemma keeps_if [keeps_rules]: "(c \<Longrightarrow> keeps P m) \<Longrightarrow> (\<not> c \<Longrightarrow> keeps P n) \<Longrightarrow> keeps P (if c then m else n)"
  by simp

lemma bindR_simps [simp]:
  "bindR (Inl e) f = Inl e" "bindR (Inr a) f = f a"
  by (simp_all add: bindR_def)

lemma bindR_ok_iff: "bindR r f = Inr b \<longleftrightarrow> (\<exists>a. r = Inr a \<and> f a = Inr b)"
  by (cases r) auto

lemma ok_or_simps [simp]: "ok_or e None = Inl e" "ok_or e (Some a) = Inr a"
  by (simp_all add: ok_or_def)

section \<open>\<^verbatim>\<open>usize\<close>\<close>

text \<open>
  Lengths and positions are natural numbers; the additions the sources check are checked
  here against the 64-bit \<^verbatim>\<open>usize\<close>.  A Rust slice is never longer than
  \<^verbatim>\<open>isize::MAX\<close>, so \<open>length buf \<le> USIZE_MAX\<close> holds of every buffer.
\<close>

definition USIZE_MAX :: nat where
  "USIZE_MAX = 2 ^ 64 - 1"

definition usize_checked_add :: "nat \<Rightarrow> nat \<Rightarrow> nat option" where
  "usize_checked_add a b = (if a + b \<le> USIZE_MAX then Some (a + b) else None)"

definition checked_sub :: "nat \<Rightarrow> nat \<Rightarrow> nat option" where
  "checked_sub a b = (if b \<le> a then Some (a - b) else None)"

text \<open>\<^verbatim>\<open>slice.get(a..b)\<close> and \<^verbatim>\<open>slice.get(a..)\<close>.\<close>

definition slice_get :: "'a list \<Rightarrow> nat \<Rightarrow> nat \<Rightarrow> 'a list option" where
  "slice_get xs a b = (if a \<le> b \<and> b \<le> length xs then Some (take (b - a) (drop a xs)) else None)"

definition slice_from :: "'a list \<Rightarrow> nat \<Rightarrow> 'a list option" where
  "slice_from xs a = (if a \<le> length xs then Some (drop a xs) else None)"

text \<open>\<^verbatim>\<open>slice[a..a + new.len()].copy_from_slice(new)\<close>, for a range inside the slice.\<close>

definition overwrite :: "'a list \<Rightarrow> nat \<Rightarrow> 'a list \<Rightarrow> 'a list" where
  "overwrite xs a new = take a xs @ new @ drop (a + length new) xs"

lemma checked_sub_simps [simp]: "checked_sub n 0 = Some n" "checked_sub (Suc n) 1 = Some n"
  "checked_sub (Suc n) (Suc 0) = Some n" "checked_sub 0 (Suc m) = None" "checked_sub 0 1 = None"
  by (simp_all add: checked_sub_def)

lemma length_overwrite [simp]: "a + length new \<le> length xs \<Longrightarrow> length (overwrite xs a new) = length xs"
  by (simp add: overwrite_def)

lemma take_overwrite: "a + length new \<le> length xs \<Longrightarrow> take (a + length new) (overwrite xs a new) = take a xs @ new"
  by (cases new) (auto simp: overwrite_def min_def)

lemma take_overwrite_le [simp]: "n \<le> a \<Longrightarrow> a \<le> length xs \<Longrightarrow> take n (overwrite xs a new) = take n xs"
  by (simp add: overwrite_def min_def)

section \<open>Machine arithmetic\<close>

definition saturating_add :: "'a::len word \<Rightarrow> 'a word \<Rightarrow> 'a word" where
  "saturating_add a b = (if unat a + unat b < 2 ^ LENGTH('a) then a + b else (- 1))"

definition saturating_sub :: "'a::len word \<Rightarrow> 'a word \<Rightarrow> 'a word" where
  "saturating_sub a b = (if b \<le> a then a - b else 0)"

definition saturating_mul :: "'a::len word \<Rightarrow> 'a word \<Rightarrow> 'a word" where
  "saturating_mul a b = (if unat a * unat b < 2 ^ LENGTH('a) then a * b else (- 1))"

definition checked_add :: "'a::len word \<Rightarrow> 'a word \<Rightarrow> 'a word option" where
  "checked_add a b = (if unat a + unat b < 2 ^ LENGTH('a) then Some (a + b) else None)"

definition checked_div :: "'a::len word \<Rightarrow> 'a word \<Rightarrow> 'a word option" where
  "checked_div a b = (if b = 0 then None else Some (a div b))"

definition checked_rem :: "'a::len word \<Rightarrow> 'a word \<Rightarrow> 'a word option" where
  "checked_rem a b = (if b = 0 then None else Some (a mod b))"

text \<open>\<^verbatim>\<open>u32::checked_shl\<close>: \<open>None\<close> when the shift is not less than the width.\<close>

definition checked_shl :: "'a::len word \<Rightarrow> u32 \<Rightarrow> 'a word option" where
  "checked_shl a n = (if unat n < LENGTH('a) then Some (push_bit (unat n) a) else None)"

lemma unat_max_word: "unat (- 1 :: 'a::len word) = 2 ^ LENGTH('a) - 1"
  by (simp add: unsigned_minus_1_eq_mask mask_eq_exp_minus_1)

lemma unat_lt_len: "unat (a :: 'a::len word) < 2 ^ LENGTH('a)"
  by (rule unsigned_less)

lemma unat_of_nat_small:
  "n < 2 ^ LENGTH('a) \<Longrightarrow> unat (word_of_nat n :: 'a::len word) = n"
  by (simp add: unsigned_of_nat take_bit_nat_eq_self)

lemma bit_word_of_nat_iff:
  "bit (word_of_nat k :: 'a::len word) n \<longleftrightarrow> n < LENGTH('a) \<and> bit k n"
proof -
  have "bit (unat (word_of_nat k :: 'a word)) n \<longleftrightarrow> bit (word_of_nat k :: 'a word) n"
    by (simp add: bit_unsigned_iff)
  then show ?thesis by (simp add: unsigned_of_nat bit_take_bit_iff)
qed

lemma unat_saturating_add [int_simps]:
  "unat (saturating_add a b) = min (unat a + unat b) (2 ^ LENGTH('a) - 1)"
  for a b :: "'a::len word"
  using unat_lt_len [of a] unat_lt_len [of b]
  by (auto simp: saturating_add_def unat_max_word unat_word_ariths)

lemma unat_saturating_sub [int_simps]:
  "unat (saturating_sub a b) = unat a - unat b"
  for a b :: "'a::len word"
  by (auto simp: saturating_sub_def unat_sub word_le_nat_alt)

lemma unat_saturating_mul [int_simps]:
  "unat (saturating_mul a b) = min (unat a * unat b) (2 ^ LENGTH('a) - 1)"
  for a b :: "'a::len word"
  by (auto simp: saturating_mul_def unat_max_word unat_word_ariths)

lemma checked_add_Some [int_simps]:
  "checked_add a b = Some c \<longleftrightarrow> unat a + unat b < 2 ^ LENGTH('a) \<and> c = a + b"
  for a b c :: "'a::len word"
  by (auto simp: checked_add_def)

section \<open>Fixed-capacity vectors\<close>

text \<open>\<^verbatim>\<open>heapless::Vec<T, N>\<close>: \<^verbatim>\<open>push\<close> fails when full, \<^verbatim>\<open>swap_remove\<close> moves the last
  element into the hole.\<close>

definition vec_push :: "nat \<Rightarrow> 'a list \<Rightarrow> 'a \<Rightarrow> 'a list option" where
  "vec_push cap xs x = (if length xs < cap then Some (xs @ [x]) else None)"

definition swap_remove :: "nat \<Rightarrow> 'a list \<Rightarrow> 'a list" where
  "swap_remove i xs = (if i < length xs - 1 then butlast (xs[i := last xs]) else butlast xs)"

text \<open>\<^verbatim>\<open>iter().position(p)\<close>.\<close>

fun position :: "('a \<Rightarrow> bool) \<Rightarrow> 'a list \<Rightarrow> nat option" where
  "position p [] = None"
| "position p (x # xs) = (if p x then Some 0 else map_option Suc (position p xs))"

lemma vec_push_Some [simp]: "vec_push cap xs x = Some ys \<longleftrightarrow> length xs < cap \<and> ys = xs @ [x]"
  by (auto simp: vec_push_def)

lemma vec_push_None [simp]: "vec_push cap xs x = None \<longleftrightarrow> cap \<le> length xs"
  by (auto simp: vec_push_def)

lemma position_Some:
  "position p xs = Some i \<Longrightarrow> i < length xs \<and> p (xs ! i) \<and> (\<forall>j < i. \<not> p (xs ! j))"
proof (induction xs arbitrary: i)
  case Nil
  then show ?case by simp
next
  case (Cons x xs)
  then show ?case
    by (cases i) (auto split: if_splits simp: less_Suc_eq_0_disj nth_Cons')
qed

lemma position_None: "position p xs = None \<longleftrightarrow> (\<forall>x \<in> set xs. \<not> p x)"
  by (induction xs) auto

lemma find_None: "List.find p xs = None \<longleftrightarrow> (\<forall>x \<in> set xs. \<not> p x)"
  by (auto simp: find_None_iff)

lemma find_append: "List.find p (xs @ ys) =
    (case List.find p xs of None \<Rightarrow> List.find p ys | Some x \<Rightarrow> Some x)"
  by (induction xs) auto

lemma find_SomeD: "List.find p xs = Some x \<Longrightarrow> x \<in> set xs \<and> p x"
  by (auto simp: find_Some_iff)

lemma find_unique:
  assumes "distinct (map k xs)" and "x \<in> set xs"
  shows "List.find (\<lambda>y. k y = k x) xs = Some x"
  using assms by (induction xs) (auto simp: image_iff)

lemma swap_remove_snoc:
  "swap_remove i (ys @ [l]) = (if i < length ys then ys[i := l] else ys)"
  by (simp add: swap_remove_def list_update_append)

lemma snoc_of_nth:
  assumes "i < length xs"
  obtains ys l where "xs = ys @ [l]"
  using assms by (cases xs rule: rev_cases) auto

lemma mset_swap_remove:
  assumes "i < length xs"
  shows "mset (swap_remove i xs) = mset xs - {#xs ! i#}"
proof -
  obtain ys l where xs: "xs = ys @ [l]" using assms by (rule snoc_of_nth)
  show ?thesis
    using assms unfolding xs swap_remove_snoc
    by (auto simp: mset_update nth_append not_less less_Suc_eq)
qed

lemma length_swap_remove [simp]: "length (swap_remove i xs) = length xs - 1"
  by (simp add: swap_remove_def)

lemma set_swap_remove_subset: "i < length xs \<Longrightarrow> set (swap_remove i xs) \<subseteq> set xs"
  by (metis mset_swap_remove diff_subset_eq_self set_mset_mono set_mset_mset)

lemma distinct_swap_remove:
  assumes "distinct (map f xs)" and "i < length xs"
  shows "distinct (map f (swap_remove i xs))"
proof -
  obtain ys l where xs: "xs = ys @ [l]" using assms(2) by (rule snoc_of_nth)
  show ?thesis
    using assms unfolding xs swap_remove_snoc
    by (auto simp: map_update distinct_list_update)
qed

lemma set_swap_remove:
  assumes "distinct (map f xs)" and "i < length xs"
  shows "set (swap_remove i xs) = {x \<in> set xs. f x \<noteq> f (xs ! i)}"
proof -
  have "distinct xs" using assms(1) by (simp add: distinct_map)
  then have "set (swap_remove i xs) = set xs - {xs ! i}"
    using assms(2) by (metis mset_swap_remove mset_remove1 set_mset_mset set_remove1_eq)
  then show ?thesis
    using assms by (auto simp: distinct_map inj_on_def)
qed

end
