(* ===== verification/Bytes.thy ===== *)
theory Bytes
  imports Prelude
begin

text \<open>
  Little-endian byte strings and the bounds-checked cursor of \<^verbatim>\<open>src/src/bytes.rs\<close>, through
  which every message header is read and written.  A cursor keeps an optional buffer to
  write into, a slice to read from, a position that may run past the end, and the error
  code a short read is reported with.  The lemmas say what a sequence of writes leaves in
  the buffer (\<open>emits\<close>) and what a sequence of reads takes from it, so that a header's
  encoder and decoder are each characterised by one composition of such facts.

  The locale \<open>wire_codec\<close> is the contract between an encoder and a decoder; its lemmas
  (injectivity, unambiguous framing, decoding of a sequence) hold of every wire format
  that is interpreted in it.
\<close>

section \<open>Little-endian integers\<close>

fun to_le :: "nat \<Rightarrow> nat \<Rightarrow> bytes" where
  "to_le 0 v = []"
| "to_le (Suc n) v = word_of_nat v # to_le n (v div 256)"

fun from_le :: "bytes \<Rightarrow> nat" where
  "from_le [] = 0"
| "from_le (b # bs) = unat b + 256 * from_le bs"

definition u16_bytes :: "u16 \<Rightarrow> bytes" where "u16_bytes v = to_le 2 (unat v)"
definition u32_bytes :: "u32 \<Rightarrow> bytes" where "u32_bytes v = to_le 4 (unat v)"
definition u64_bytes :: "u64 \<Rightarrow> bytes" where "u64_bytes v = to_le 8 (unat v)"

definition u16_from :: "bytes \<Rightarrow> u16" where "u16_from bs = word_of_nat (from_le bs)"
definition u32_from :: "bytes \<Rightarrow> u32" where "u32_from bs = word_of_nat (from_le bs)"
definition u64_from :: "bytes \<Rightarrow> u64" where "u64_from bs = word_of_nat (from_le bs)"

lemma length_to_le [simp]: "length (to_le n v) = n"
  by (induction n arbitrary: v) auto

lemma take_to_le: "n \<le> m \<Longrightarrow> take n (to_le m v) = to_le n v"
proof (induction m arbitrary: n v)
  case (Suc m)
  then show ?case by (cases n) auto
qed simp

lemma unat_word_of_nat_u8: "unat (word_of_nat v :: u8) = v mod 256"
  by (simp add: unsigned_of_nat take_bit_eq_mod)

lemma from_le_to_le: "from_le (to_le n v) = v mod 256 ^ n"
proof (induction n arbitrary: v)
  case 0
  then show ?case by simp
next
  case (Suc n)
  have "v mod 256 ^ Suc n = 256 * (v div 256 mod 256 ^ n) + v mod 256"
    using mod_mult2_eq [of v 256 "256 ^ n"] by simp
  then show ?case
    by (simp add: Suc unat_word_of_nat_u8)
qed

lemma from_le_to_le_id: "v < 256 ^ n \<Longrightarrow> from_le (to_le n v) = v"
  by (simp add: from_le_to_le)

lemma from_le_bound: "from_le bs < 256 ^ length bs"
proof (induction bs)
  case Nil
  then show ?case by simp
next
  case (Cons b bs)
  have "unat b < 256" using unsigned_less [of b] by simp
  then show ?case using Cons by simp
qed

lemma to_le_from_le: "to_le (length bs) (from_le bs) = bs"
proof (induction bs)
  case Nil
  then show ?case by simp
next
  case (Cons b bs)
  have "unat b < 256" using unsigned_less [of b] by simp
  moreover have "(word_of_nat (unat b + 256 * from_le bs) :: u8) = b"
    using \<open>unat b < 256\<close> unat_word_of_nat_u8 [of "unat b + 256 * from_le bs"]
    by (simp only: word_unat_eq_iff) simp
  ultimately show ?case
    using Cons by simp
qed

lemma from_le_append: "from_le (xs @ ys) = from_le xs + 256 ^ length xs * from_le ys"
  by (induction xs) (auto simp: algebra_simps)

lemma length_uN_bytes [simp]:
  "length (u16_bytes a) = 2" "length (u32_bytes b) = 4" "length (u64_bytes c) = 8"
  by (simp_all add: u16_bytes_def u32_bytes_def u64_bytes_def)

lemma uN_from_bytes [simp]:
  "u16_from (u16_bytes a) = a" "u32_from (u32_bytes b) = b" "u64_from (u64_bytes c) = c"
  using unat_lt_len [of a] unat_lt_len [of b] unat_lt_len [of c]
  by (simp_all add: u16_bytes_def u32_bytes_def u64_bytes_def
      u16_from_def u32_from_def u64_from_def from_le_to_le)

section \<open>The cursor\<close>

record Cursor =
  cur_write :: "bytes option"
  cur_read :: bytes
  cur_pos :: nat
  cur_truncated :: ErrorCode

definition cursor_writer :: "bytes \<Rightarrow> Cursor" where
  "cursor_writer out =
     \<lparr>cur_write = Some out, cur_read = [], cur_pos = 0, cur_truncated = BufferTooSmall\<rparr>"

definition cursor_reader :: "bytes \<Rightarrow> ErrorCode \<Rightarrow> Cursor" where
  "cursor_reader buf e = \<lparr>cur_write = None, cur_read = buf, cur_pos = 0, cur_truncated = e\<rparr>"

definition cursor_position :: "Cursor \<Rightarrow> nat" where
  "cursor_position c = cur_pos c"

definition cursor_rest :: "Cursor \<Rightarrow> bytes" where
  "cursor_rest c = (case slice_from (cur_read c) (cur_pos c) of None \<Rightarrow> [] | Some r \<Rightarrow> r)"

definition cursor_advance :: "nat \<Rightarrow> (Cursor, nat) mutator" where
  "cursor_advance n c =
     (case usize_checked_add (cur_pos c) n of
        None \<Rightarrow> (Inl (cur_truncated c), c)
      | Some p \<Rightarrow> (Inr (cur_pos c), c\<lparr>cur_pos := p\<rparr>))"

definition cursor_skip :: "nat \<Rightarrow> (Cursor, unit) mutator" where
  "cursor_skip n =
     bindE (cursor_advance n) (\<lambda>start c.
       if slice_get (cur_read c) start (cur_pos c) = None then (Inl (cur_truncated c), c)
       else (Inr (), c))"

definition cursor_put :: "bytes \<Rightarrow> (Cursor, unit) mutator" where
  "cursor_put bs =
     bindE (cursor_advance (length bs)) (\<lambda>start c.
       case cur_write c of
         None \<Rightarrow> (Inl InvalidState, c)
       | Some buf \<Rightarrow>
           if slice_get buf start (cur_pos c) = None then (Inl BufferTooSmall, c)
           else (Inr (), c\<lparr>cur_write := Some (overwrite buf start bs)\<rparr>))"

definition cursor_take :: "nat \<Rightarrow> (Cursor, bytes) mutator" where
  "cursor_take n =
     bindE (cursor_advance n) (\<lambda>start c.
       (ok_or (cur_truncated c) (slice_get (cur_read c) start (cur_pos c)), c))"

definition cursor_u8 :: "u8 \<Rightarrow> (Cursor, unit) mutator" where
  "cursor_u8 v = cursor_put [v]"

definition cursor_u16 :: "u16 \<Rightarrow> (Cursor, unit) mutator" where
  "cursor_u16 v = cursor_put (u16_bytes v)"

definition cursor_u32 :: "u32 \<Rightarrow> (Cursor, unit) mutator" where
  "cursor_u32 v = cursor_put (u32_bytes v)"

definition cursor_u64 :: "u64 \<Rightarrow> (Cursor, unit) mutator" where
  "cursor_u64 v = cursor_put (u64_bytes v)"

definition cursor_read_u8 :: "(Cursor, u8) mutator" where
  "cursor_read_u8 =
     bindE (cursor_take 1) (\<lambda>b c. case b of [] \<Rightarrow> (Inl (cur_truncated c), c) | x # _ \<Rightarrow> (Inr x, c))"

text \<open>\<^verbatim>\<open>take(n)?.try_into()\<close> into an array of \<open>n\<close> octets, then \<^verbatim>\<open>from_le_bytes\<close>.\<close>

definition cursor_array :: "nat \<Rightarrow> (Cursor, bytes) mutator" where
  "cursor_array n =
     bindE (cursor_take n) (\<lambda>b c. if length b = n then (Inr b, c) else (Inl (cur_truncated c), c))"

definition cursor_read_u16 :: "(Cursor, u16) mutator" where
  "cursor_read_u16 = bindE (cursor_array 2) (\<lambda>b. retE (u16_from b))"

definition cursor_read_u32 :: "(Cursor, u32) mutator" where
  "cursor_read_u32 = bindE (cursor_array 4) (\<lambda>b. retE (u32_from b))"

definition cursor_read_u64 :: "(Cursor, u64) mutator" where
  "cursor_read_u64 = bindE (cursor_array 8) (\<lambda>b. retE (u64_from b))"

section \<open>The contract of a sink of octets\<close>

text \<open>What the writers of the crate have in common: room for octets, and what a successful write leaves.  A method that writes \<open>bs\<close> does so
  when they fit and is refused with \<open>BufferTooSmall\<close> when they do not; such methods compose.\<close>

locale byte_sink =
  fixes room :: "'s \<Rightarrow> nat" and wrote :: "bytes \<Rightarrow> 's \<Rightarrow> 's" and ready :: "'s \<Rightarrow> bool"
  assumes wrote_ready: "ready s \<Longrightarrow> length bs \<le> room s \<Longrightarrow> ready (wrote bs s) \<and> room (wrote bs s) = room s - length bs"
    and wrote_wrote: "ready s \<Longrightarrow> length bs + length bs' \<le> room s \<Longrightarrow> wrote bs' (wrote bs s) = wrote (bs @ bs') s"
    and wrote_nil: "ready s \<Longrightarrow> wrote [] s = s"
begin

definition writes :: "('s, unit) mutator \<Rightarrow> bytes \<Rightarrow> bool" where
  "writes m bs \<longleftrightarrow> (\<forall>s. ready s \<longrightarrow>
     (if length bs \<le> room s then m s = (Inr (), wrote bs s) else fst (m s) = Inl BufferTooSmall))"

lemma writes_ret: "writes (retE ()) []"
  by (simp add: writes_def wrote_nil)

lemma writes_seq:
  assumes "writes m bs" and "writes m' bs'"
  shows "writes (bindE m (\<lambda>_. m')) (bs @ bs')"
  unfolding writes_def
proof (intro allI impI)
  fix s
  assume s: "ready s"
  show "if length (bs @ bs') \<le> room s then bindE m (\<lambda>_. m') s = (Inr (), wrote (bs @ bs') s)
        else fst (bindE m (\<lambda>_. m') s) = Inl BufferTooSmall"
  proof (cases "length bs \<le> room s")
    case True
    then have m: "m s = (Inr (), wrote bs s)" using assms(1) s by (simp add: writes_def)
    note w = wrote_ready [OF s True]
    then have "if length bs' \<le> room s - length bs then m' (wrote bs s) = (Inr (), wrote bs' (wrote bs s))
        else fst (m' (wrote bs s)) = Inl BufferTooSmall" using assms(2) by (simp add: writes_def)
    then show ?thesis using m True wrote_wrote [OF s, of bs bs'] by (auto split: if_splits)
  next
    case False
    then have "fst (m s) = Inl BufferTooSmall" using assms(1) s by (simp add: writes_def)
    then show ?thesis using False by (auto simp: bindE_def split: prod.splits sum.splits)
  qed
qed

end

section \<open>What a sequence of writes leaves behind\<close>

definition writing :: "Cursor \<Rightarrow> bytes \<Rightarrow> bool" where
  "writing c buf \<longleftrightarrow> cur_write c = Some buf \<and> cur_pos c \<le> length buf \<and> length buf \<le> USIZE_MAX
     \<and> cur_truncated c = BufferTooSmall"

text \<open>
  \<open>emits m bs\<close>: on a writing cursor, \<open>m\<close> appends exactly \<open>bs\<close> when they fit, and is
  refused with \<open>BufferTooSmall\<close> when they do not.
\<close>

definition emits :: "(Cursor, unit) mutator \<Rightarrow> bytes \<Rightarrow> bool" where
  "emits m bs \<longleftrightarrow> (\<forall>c buf. writing c buf \<longrightarrow>
     (if cur_pos c + length bs \<le> length buf
      then m c = (Inr (), c\<lparr>cur_pos := cur_pos c + length bs,
                            cur_write := Some (overwrite buf (cur_pos c) bs)\<rparr>)
      else fst (m c) = Inl BufferTooSmall))"

lemma overwrite_nil [simp]: "a \<le> length xs \<Longrightarrow> overwrite xs a [] = xs"
  by (simp add: overwrite_def)

lemma overwrite_overwrite:
  "a + length bs + length bs' \<le> length xs \<Longrightarrow>
   overwrite (overwrite xs a bs) (a + length bs) bs' = overwrite xs a (bs @ bs')"
  by (cases bs) (auto simp: overwrite_def min_def ac_simps)

lemma emits_put: "emits (cursor_put bs) bs"
  by (auto simp: emits_def cursor_put_def cursor_advance_def bindE_def writing_def
      usize_checked_add_def slice_get_def)

lemma emits_uN:
  "emits (cursor_u8 v) [v]" "emits (cursor_u16 a) (u16_bytes a)"
  "emits (cursor_u32 b) (u32_bytes b)" "emits (cursor_u64 d) (u64_bytes d)"
  by (simp_all add: cursor_u8_def cursor_u16_def cursor_u32_def cursor_u64_def emits_put)

lemma emits_ret: "emits (retE ()) []"
  by (auto simp: emits_def writing_def)

interpretation csink: byte_sink "\<lambda>c. case cur_write c of None \<Rightarrow> 0 | Some buf \<Rightarrow> length buf - cur_pos c"
    "\<lambda>bs c. c\<lparr>cur_pos := cur_pos c + length bs, cur_write := map_option (\<lambda>buf. overwrite buf (cur_pos c) bs) (cur_write c)\<rparr>"
    "\<lambda>c. \<exists>buf. writing c buf"
  by unfold_locales (auto simp: writing_def overwrite_overwrite add.assoc)

lemma emits_writes: "emits m bs \<longleftrightarrow> csink.writes m bs"
proof -
  have "(if cur_pos c + length bs \<le> length buf
      then m c = (Inr (), c\<lparr>cur_pos := cur_pos c + length bs, cur_write := Some (overwrite buf (cur_pos c) bs)\<rparr>)
      else fst (m c) = Inl BufferTooSmall)
    = (if length bs \<le> (case cur_write c of None \<Rightarrow> 0 | Some buf \<Rightarrow> length buf - cur_pos c)
       then m c = (Inr (), c\<lparr>cur_pos := cur_pos c + length bs,
              cur_write := map_option (\<lambda>buf. overwrite buf (cur_pos c) bs) (cur_write c)\<rparr>)
       else fst (m c) = Inl BufferTooSmall)" if "writing c buf" for c buf
    using that by (auto simp: writing_def)
  then show ?thesis unfolding emits_def csink.writes_def by blast
qed

lemma emits_seq: "emits m bs \<Longrightarrow> emits m' bs' \<Longrightarrow> emits (bindE m (\<lambda>_. m')) (bs @ bs')"
  unfolding emits_writes by (rule csink.writes_seq)

lemma emits_cond:
  "emits m bs \<Longrightarrow> emits m' bs' \<Longrightarrow> emits (if b then m else m') (if b then bs else bs')"
  by simp

lemma emits_writer:
  assumes "emits m bs" and "length out \<le> USIZE_MAX"
  shows "length bs \<le> length out \<Longrightarrow>
      m (cursor_writer out) = (Inr (), (cursor_writer out)\<lparr>cur_pos := length bs,
          cur_write := Some (bs @ drop (length bs) out)\<rparr>)"
    and "length out < length bs \<Longrightarrow> fst (m (cursor_writer out)) = Inl BufferTooSmall"
proof -
  have "writing (cursor_writer out) out"
    using assms(2) by (simp add: writing_def cursor_writer_def)
  then show "length bs \<le> length out \<Longrightarrow>
      m (cursor_writer out) = (Inr (), (cursor_writer out)\<lparr>cur_pos := length bs,
          cur_write := Some (bs @ drop (length bs) out)\<rparr>)"
    and "length out < length bs \<Longrightarrow> fst (m (cursor_writer out)) = Inl BufferTooSmall"
    using assms(1) by (auto simp: emits_def overwrite_def cursor_writer_def)
qed

section \<open>What a sequence of reads takes\<close>

definition reading :: "Cursor \<Rightarrow> bool" where
  "reading c \<longleftrightarrow> cur_pos c \<le> length (cur_read c) \<and> length (cur_read c) \<le> USIZE_MAX"

text \<open>The cursor after reading a prefix of what is left, given that what is left.\<close>

definition skipped :: "Cursor \<Rightarrow> nat \<Rightarrow> Cursor" where
  "skipped c n = c\<lparr>cur_pos := cur_pos c + n\<rparr>"

lemma cursor_rest_reading: "reading c \<Longrightarrow> cursor_rest c = drop (cur_pos c) (cur_read c)"
  by (simp add: cursor_rest_def slice_from_def reading_def)

lemma reading_skipped [simp]:
  "reading c \<Longrightarrow> n \<le> length (cursor_rest c) \<Longrightarrow> reading (skipped c n)"
  by (auto simp: reading_def skipped_def cursor_rest_def slice_from_def)

lemma rest_skipped [simp]:
  "reading c \<Longrightarrow> n \<le> length (cursor_rest c) \<Longrightarrow> cursor_rest (skipped c n) = drop n (cursor_rest c)"
  by (auto simp: reading_def skipped_def cursor_rest_def slice_from_def add.commute)

lemma skipped_skipped: "skipped (skipped c m) n = skipped c (m + n)"
  by (simp add: skipped_def add.assoc)

lemma skipped_0 [simp]: "skipped c 0 = c"
  by (simp add: skipped_def)

lemma truncated_skipped [simp]: "cur_truncated (skipped c n) = cur_truncated c"
  by (simp add: skipped_def)

lemma cursor_take_ok [simp]:
  assumes "reading c" and "n \<le> length (cursor_rest c)"
  shows "cursor_take n c = (Inr (take n (cursor_rest c)), skipped c n)"
  using assms
  by (auto simp: cursor_take_def cursor_advance_def bindE_def usize_checked_add_def slice_get_def
      reading_def cursor_rest_def slice_from_def skipped_def)

lemma cursor_take_short [simp]:
  assumes "reading c" and "length (cursor_rest c) < n"
  shows "fst (cursor_take n c) = Inl (cur_truncated c)"
  using assms
  by (auto simp: cursor_take_def cursor_advance_def bindE_def usize_checked_add_def slice_get_def
      reading_def cursor_rest_def slice_from_def)

lemma cursor_skip_ok [simp]:
  assumes "reading c" and "n \<le> length (cursor_rest c)"
  shows "cursor_skip n c = (Inr (), skipped c n)"
  using assms
  by (auto simp: cursor_skip_def cursor_advance_def bindE_def usize_checked_add_def slice_get_def
      reading_def cursor_rest_def slice_from_def skipped_def)

lemma cursor_read_ok [simp]:
  assumes "reading c"
  shows "1 \<le> length (cursor_rest c) \<Longrightarrow> cursor_read_u8 c = (Inr (hd (cursor_rest c)), skipped c 1)"
    and "2 \<le> length (cursor_rest c) \<Longrightarrow>
      cursor_read_u16 c = (Inr (u16_from (take 2 (cursor_rest c))), skipped c 2)"
    and "4 \<le> length (cursor_rest c) \<Longrightarrow>
      cursor_read_u32 c = (Inr (u32_from (take 4 (cursor_rest c))), skipped c 4)"
    and "8 \<le> length (cursor_rest c) \<Longrightarrow>
      cursor_read_u64 c = (Inr (u64_from (take 8 (cursor_rest c))), skipped c 8)"
  using assms
  by (cases "cursor_rest c";
      simp add: cursor_read_u8_def cursor_read_u16_def cursor_read_u32_def cursor_read_u64_def
        cursor_array_def bindE_def)+

lemma cursor_reader_reading [simp]:
  "length buf \<le> USIZE_MAX \<Longrightarrow> reading (cursor_reader buf e)"
  "cursor_rest (cursor_reader buf e) = buf" "cur_truncated (cursor_reader buf e) = e"
  by (simp_all add: reading_def cursor_reader_def cursor_rest_def slice_from_def)

section \<open>The contract between an encoder and a decoder\<close>

locale wire_codec =
  fixes enc :: "'a \<Rightarrow> bytes"
    and dec :: "bytes \<Rightarrow> ('a \<times> bytes) result"
    and valid :: "'a \<Rightarrow> bool"
  assumes dec_enc: "valid a \<Longrightarrow> length (enc a @ rest) \<le> USIZE_MAX \<Longrightarrow> dec (enc a @ rest) = Inr (a, rest)"
begin

text \<open>A decoder that undoes the encoder makes the encoding unambiguous, whatever follows.\<close>

lemma enc_prefix_free:
  assumes "valid a" and "valid b" and "length (enc a @ r) \<le> USIZE_MAX"
    and "enc a @ r = enc b @ r'"
  shows "a = b \<and> r = r'"
  using dec_enc [OF assms(1,3)] dec_enc [of b r'] assms by simp

lemma enc_inj:
  "valid a \<Longrightarrow> valid b \<Longrightarrow> length (enc a) \<le> USIZE_MAX \<Longrightarrow> enc a = enc b \<Longrightarrow> a = b"
  using enc_prefix_free [of a b "[]" "[]"] by simp

end

text \<open>Two formats laid end to end: the outer one hands what it did not read to the inner.\<close>

locale framed_codec = outer: wire_codec enc1 dec1 valid1 + inner: wire_codec enc2 dec2 valid2
  for enc1 :: "'a \<Rightarrow> bytes" and dec1 valid1 and enc2 :: "'b \<Rightarrow> bytes" and dec2 valid2
begin

definition enc_frame :: "'a \<times> 'b \<Rightarrow> bytes" where
  "enc_frame p = enc1 (fst p) @ enc2 (snd p)"

definition dec_frame :: "bytes \<Rightarrow> (('a \<times> 'b) \<times> bytes) result" where
  "dec_frame bs = bindR (dec1 bs) (\<lambda>(a, r). bindR (dec2 r) (\<lambda>(b, r'). Inr ((a, b), r')))"

sublocale pair: wire_codec enc_frame dec_frame "\<lambda>p. valid1 (fst p) \<and> valid2 (snd p)"
proof
  fix p :: "'a \<times> 'b" and rest
  assume v: "valid1 (fst p) \<and> valid2 (snd p)" and l: "length (enc_frame p @ rest) \<le> USIZE_MAX"
  obtain a b where p: "p = (a, b)" by (cases p)
  have "dec1 (enc1 a @ enc2 b @ rest) = Inr (a, enc2 b @ rest)"
    using outer.dec_enc [of a "enc2 b @ rest"] v l p by (simp add: enc_frame_def)
  moreover have "dec2 (enc2 b @ rest) = Inr (b, rest)"
    using inner.dec_enc [of b rest] v l p by (simp add: enc_frame_def)
  ultimately show "dec_frame (enc_frame p @ rest) = Inr (p, rest)"
    using p by (simp add: dec_frame_def enc_frame_def)
qed

end

end
