(* ===== verification/Msg_Counter.thy ===== *)
theory Msg_Counter
  imports Prelude
begin

text \<open>
  Message counters and duplicate detection (\<^verbatim>\<open>src/src/msg/counter.rs\<close>): the receiver's
  lossy history \<^verbatim>\<open>CounterWindow\<close> (the largest counter seen and a 32-bit bitmap of the 32
  before it), its two rules (\<^verbatim>\<open>SecureUnicast\<close> and \<^verbatim>\<open>Rollover\<close>), and the sender's
  \<^verbatim>\<open>MessageCounter\<close>.

  The window is related to the set of counters actually offered to it (\<open>represents\<close>), which
  gives the refinement theorem: the verdict on the next counter is exactly the one the
  full history would give, restricted to the 32 counters below the maximum.  The locale
  \<open>duplicate_filter\<close> states what a receiver needs of a filter (a counter judged once is never
  new again) and derives from it that no run hands the same counter up twice.
\<close>

section \<open>The receiver\<close>

definition MSG_COUNTER_WINDOW_SIZE :: u32 where
  "MSG_COUNTER_WINDOW_SIZE = 32"

datatype CounterKind = SecureUnicast | Rollover

datatype Verdict = New | Duplicate

record CounterWindow =
  cw_kind :: CounterKind
  cw_max :: u32
  cw_bitmap :: u32
  cw_primed :: bool

definition cw_new :: "CounterKind \<Rightarrow> CounterWindow" where
  "cw_new k = \<lparr>cw_kind = k, cw_max = 0, cw_bitmap = 0, cw_primed = False\<rparr>"

definition cw_primed_at :: "CounterKind \<Rightarrow> u32 \<Rightarrow> CounterWindow" where
  "cw_primed_at k m = \<lparr>cw_kind = k, cw_max = m, cw_bitmap = - 1, cw_primed = True\<rparr>"

definition unwrap_or0 :: "u32 option \<Rightarrow> u32" where
  "unwrap_or0 x = (case x of None \<Rightarrow> 0 | Some v \<Rightarrow> v)"

definition cw_ahead :: "CounterWindow \<Rightarrow> u32 \<Rightarrow> bool" where
  "cw_ahead w counter =
     (case cw_kind w of
        SecureUnicast \<Rightarrow> counter > cw_max w
      | Rollover \<Rightarrow> (let delta = counter - cw_max w in delta \<noteq> 0 \<and> delta < 0x80000000))"

definition cw_shifted :: "u32 \<Rightarrow> u32 \<Rightarrow> u32" where
  "cw_shifted bitmap shift =
     (if shift \<ge> MSG_COUNTER_WINDOW_SIZE then
        (if shift = MSG_COUNTER_WINDOW_SIZE
         then unwrap_or0 (checked_shl 1 (saturating_sub MSG_COUNTER_WINDOW_SIZE 1))
         else 0)
      else unwrap_or0 (checked_shl bitmap shift)
             OR unwrap_or0 (checked_shl 1 (saturating_sub shift 1)))"

definition cw_accept :: "CounterWindow \<Rightarrow> u32 \<Rightarrow> Verdict \<times> CounterWindow" where
  "cw_accept w counter =
     (if \<not> cw_primed w then (New, w\<lparr>cw_primed := True, cw_max := counter, cw_bitmap := 0\<rparr>)
      else if counter = cw_max w then (Duplicate, w)
      else if cw_ahead w counter then
        (New, w\<lparr>cw_bitmap := cw_shifted (cw_bitmap w) (counter - cw_max w), cw_max := counter\<rparr>)
      else
        let behind = cw_max w - counter in
        if behind = 0 \<or> behind > MSG_COUNTER_WINDOW_SIZE then (Duplicate, w)
        else (case checked_shl 1 (saturating_sub behind 1) of
                None \<Rightarrow> (Duplicate, w)
              | Some b \<Rightarrow>
                  if cw_bitmap w AND b \<noteq> 0 then (Duplicate, w)
                  else (New, w\<lparr>cw_bitmap := cw_bitmap w OR b\<rparr>)))"

definition cw_would_accept :: "CounterWindow \<Rightarrow> u32 \<Rightarrow> Verdict" where
  "cw_would_accept w counter = fst (cw_accept w counter)"

fun cw_run :: "CounterWindow \<Rightarrow> u32 list \<Rightarrow> CounterWindow" where
  "cw_run w [] = w"
| "cw_run w (c # cs) = cw_run (snd (cw_accept w c)) cs"

text \<open>The counters a receiver hands up: those of the run that were judged new.\<close>

fun cw_delivered :: "CounterWindow \<Rightarrow> u32 list \<Rightarrow> u32 list" where
  "cw_delivered w [] = []"
| "cw_delivered w (c # cs) =
     (if fst (cw_accept w c) = New then [c] else []) @ cw_delivered (snd (cw_accept w c)) cs"

section \<open>The sender\<close>

definition initial_counter :: "u32 \<Rightarrow> u32" where
  "initial_counter randomness = saturating_add (randomness AND 0x0FFFFFFF) 1"

record MessageCounter =
  mc_next :: u32
  mc_exhausted :: bool

definition mc_at :: "u32 \<Rightarrow> MessageCounter" where
  "mc_at value = \<lparr>mc_next = value, mc_exhausted = False\<rparr>"

definition mc_new :: "u32 \<Rightarrow> MessageCounter" where
  "mc_new randomness = mc_at (initial_counter randomness)"

definition mc_peek :: "MessageCounter \<Rightarrow> u32" where
  "mc_peek c = mc_next c"

definition mc_take :: "(MessageCounter, u32) mutator" where
  "mc_take c =
     (if mc_exhausted c then (Inl InvalidState, c)
      else (Inr (mc_next c),
        case checked_add (mc_next c) 1 of
          Some n \<Rightarrow> c\<lparr>mc_next := n\<rparr>
        | None \<Rightarrow> c\<lparr>mc_exhausted := True\<rparr>))"

definition mc_take_with_rollover :: "MessageCounter \<Rightarrow> u32 \<times> MessageCounter" where
  "mc_take_with_rollover c = (mc_next c, c\<lparr>mc_next := mc_next c + 1, mc_exhausted := False\<rparr>)"

text \<open>The results of \<open>n\<close> successive calls of \<^verbatim>\<open>take\<close>.\<close>

fun mc_takes :: "nat \<Rightarrow> MessageCounter \<Rightarrow> u32 result list" where
  "mc_takes 0 c = []"
| "mc_takes (Suc n) c = (let (r, c') = mc_take c in r # mc_takes n c')"

section \<open>Bit-level facts\<close>

lemma unat_sub_le: "b \<le> a \<Longrightarrow> unat (a - b) = unat a - unat b" for a b :: u32
  by (rule unat_sub)

lemma shl1_bit [simp]:
  "unat n < 32 \<Longrightarrow> unwrap_or0 (checked_shl (x :: u32) n) = push_bit (unat n) x"
  by (simp add: unwrap_or0_def checked_shl_def)

lemma bit_one_shl: "bit (push_bit k (1 :: u32)) i \<longleftrightarrow> i = k \<and> i < 32"
  by (auto simp: bit_simps)

text \<open>The shifted history: bit \<open>i\<close> of the new bitmap is the old bit \<open>shift\<close> places lower, and
  the old maximum itself lands on bit \<open>shift - 1\<close>.\<close>

lemma cw_shifted_bit:
  assumes "0 < unat d" and "i < 32"
  shows "bit (cw_shifted bm d) i \<longleftrightarrow> (unat d \<le> i \<and> bit bm (i - unat d)) \<or> i = unat d - 1"
proof -
  have sub: "unat (saturating_sub d 1) = unat d - 1"
    by (simp add: unat_saturating_sub)
  consider "unat d < 32" | "unat d = 32" | "unat d > 32" by linarith
  then show ?thesis
  proof cases
    case 1
    then have "\<not> d \<ge> MSG_COUNTER_WINDOW_SIZE"
      by (simp add: MSG_COUNTER_WINDOW_SIZE_def word_le_nat_alt)
    then show ?thesis
      using assms 1 by (auto simp: cw_shifted_def sub bit_simps)
  next
    case 2
    then have d: "d = 32" by (simp add: word_unat_eq_iff)
    have "cw_shifted bm d = push_bit (unat (saturating_sub d 1)) 1"
      by (simp add: cw_shifted_def d MSG_COUNTER_WINDOW_SIZE_def unwrap_or0_def checked_shl_def
          saturating_sub_def)
    then show ?thesis
      using assms 2 by (simp only: sub bit_one_shl) auto
  next
    case 3
    then have "d > MSG_COUNTER_WINDOW_SIZE"
      by (simp add: MSG_COUNTER_WINDOW_SIZE_def word_less_nat_alt)
    then show ?thesis using assms 3 by (auto simp: cw_shifted_def)
  qed
qed

lemma cw_accept_fresh [simp]:
  "\<not> cw_primed w \<Longrightarrow> cw_accept w c = (New, w\<lparr>cw_primed := True, cw_max := c, cw_bitmap := 0\<rparr>)"
  by (simp add: cw_accept_def)

lemma cw_accept_ahead:
  "cw_primed w \<Longrightarrow> c \<noteq> cw_max w \<Longrightarrow> cw_ahead w c \<Longrightarrow>
   cw_accept w c = (New, w\<lparr>cw_bitmap := cw_shifted (cw_bitmap w) (c - cw_max w), cw_max := c\<rparr>)"
  by (simp add: cw_accept_def)

lemma cw_accept_behind:
  assumes "cw_primed w" and "c \<noteq> cw_max w" and "\<not> cw_ahead w c"
  shows "cw_accept w c =
    (if unat (cw_max w - c) > 32 \<or> bit (cw_bitmap w) (unat (cw_max w - c) - 1) then (Duplicate, w)
     else (New, w\<lparr>cw_bitmap := cw_bitmap w OR 2 ^ (unat (cw_max w - c) - 1)\<rparr>))"
proof -
  let ?b = "cw_max w - c"
  have nz: "?b \<noteq> 0" using assms(2) by auto
  then have pos: "0 < unat ?b" by (simp add: unat_gt_0)
  show ?thesis
  proof (cases "unat ?b > 32")
    case True
    then have "?b > MSG_COUNTER_WINDOW_SIZE"
      by (simp add: MSG_COUNTER_WINDOW_SIZE_def word_less_nat_alt)
    then show ?thesis using assms True by (simp add: cw_accept_def Let_def)
  next
    case False
    then have "\<not> ?b > MSG_COUNTER_WINDOW_SIZE"
      by (simp add: MSG_COUNTER_WINDOW_SIZE_def word_less_nat_alt)
    moreover have "checked_shl 1 (saturating_sub ?b 1) = Some (2 ^ (unat ?b - 1) :: u32)"
      using False pos by (simp add: checked_shl_def unat_saturating_sub)
    ultimately show ?thesis
      using assms nz False pos by (simp add: cw_accept_def Let_def and_exp_eq_0_iff_not_bit)
  qed
qed

lemma cw_accept_kind [simp]: "cw_kind (snd (cw_accept w c)) = cw_kind w"
  by (simp add: cw_accept_def Let_def split: option.splits)

lemma cw_accept_primed [simp]: "cw_primed (snd (cw_accept w c))"
  by (simp add: cw_accept_def Let_def split: option.splits)

lemma cw_run_append: "cw_run w (cs @ ds) = cw_run (cw_run w cs) ds"
  by (induction cs arbitrary: w) auto

lemma cw_run_kind [simp]: "cw_kind (cw_run w cs) = cw_kind w"
  by (induction cs arbitrary: w) auto

section \<open>The window represents the history\<close>

text \<open>
  Counters are followed as natural numbers (the logical counter, before it is reduced to
  32 bits).  A primed window represents a maximum \<open>M\<close> and a set \<open>S\<close> of counters offered so far
  when its bitmap says, for each of the 32 counters below \<open>M\<close>, whether it is in \<open>S\<close>.
\<close>

definition represents :: "CounterWindow \<Rightarrow> nat \<Rightarrow> nat set \<Rightarrow> bool" where
  "represents w M S \<longleftrightarrow> cw_primed w \<and> cw_max w = word_of_nat M \<and> M \<in> S \<and> (\<forall>n \<in> S. n \<le> M) \<and>
     (\<forall>i < 32. bit (cw_bitmap w) i \<longleftrightarrow> (\<exists>n \<in> S. n + (i + 1) = M))"

text \<open>Which logical counters a window of the given kind can compare with its maximum.\<close>

definition comparable :: "CounterKind \<Rightarrow> nat \<Rightarrow> nat \<Rightarrow> bool" where
  "comparable k M n = (case k of SecureUnicast \<Rightarrow> M < 2 ^ 32 \<and> n < 2 ^ 32
     | Rollover \<Rightarrow> n < M + 2 ^ 31 \<and> M \<le> n + 2 ^ 31)"

lemma unat_of_nat_diff:
  assumes "n \<le> M" and "M - n < 2 ^ 32"
  shows "unat ((word_of_nat M :: u32) - word_of_nat n) = M - n"
proof -
  have "(word_of_nat M :: u32) - word_of_nat n = word_of_nat (M - n)"
    using assms(1) by simp
  then show ?thesis using assms(2) by (simp add: unat_of_nat_small del: of_nat_diff)
qed

lemma comparable_facts:
  assumes "comparable (cw_kind w) M n" and "cw_max w = word_of_nat M"
  shows "n \<noteq> M \<Longrightarrow> word_of_nat n \<noteq> cw_max w"
    and "cw_ahead w (word_of_nat n) \<longleftrightarrow> M < n"
    and "M < n \<Longrightarrow> unat (word_of_nat n - cw_max w) = n - M"
    and "n < M \<Longrightarrow> unat (cw_max w - word_of_nat n) = M - n"
proof -
  have bound: "M < n \<Longrightarrow> n - M < 2 ^ 32" "n \<le> M \<Longrightarrow> M - n < 2 ^ 32"
    using assms(1) by (auto simp: comparable_def split: CounterKind.splits)
  show up: "M < n \<Longrightarrow> unat (word_of_nat n - cw_max w) = n - M"
    using unat_of_nat_diff [of M n] bound(1) assms(2) by simp
  show down: "n < M \<Longrightarrow> unat (cw_max w - word_of_nat n) = M - n"
    using unat_of_nat_diff [of n M] bound(2) assms(2) by simp
  show "n \<noteq> M \<Longrightarrow> word_of_nat n \<noteq> cw_max w"
    using up down by (metis diff_is_0_eq linorder_neq_iff not_le right_minus_eq unat_0)
  show "cw_ahead w (word_of_nat n) \<longleftrightarrow> M < n"
  proof (cases "cw_kind w")
    case SecureUnicast
    then show ?thesis
      using assms by (simp add: cw_ahead_def comparable_def word_less_nat_alt unat_of_nat_small)
  next
    case Rollover
    have "M < n \<Longrightarrow> word_of_nat n - cw_max w \<noteq> 0 \<and> word_of_nat n - cw_max w < (0x80000000 :: u32)"
      using up assms(1) Rollover by (auto simp: comparable_def word_less_nat_alt unat_eq_0)
    moreover have "\<not> word_of_nat n - cw_max w < (0x80000000 :: u32)" if "n < M"
    proof -
      have "word_of_nat n - cw_max w = (word_of_nat (2 ^ 32 - (M - n)) :: u32)"
        using \<open>n < M\<close> bound(2) assms(2) by (simp add: of_nat_diff)
      moreover have "2 ^ 31 \<le> 2 ^ 32 - (M - n)" and "2 ^ 32 - (M - n) < 2 ^ 32"
        using assms(1) Rollover \<open>n < M\<close> by (simp_all add: comparable_def)
      ultimately show ?thesis
        by (simp add: word_less_nat_alt unat_of_nat_small del: of_nat_diff)
    qed
    moreover have "n = M \<Longrightarrow> word_of_nat n - cw_max w = 0" using assms(2) by simp
    ultimately show ?thesis
      using Rollover by (cases n M rule: linorder_cases) (auto simp: cw_ahead_def)
  qed
qed

text \<open>One step: the verdict is the one the history gives, and the history grows by the counter
  offered, whatever the verdict.\<close>

lemma represents_step:
  assumes rep: "represents w M S" and cmp: "comparable (cw_kind w) M n"
  defines "r \<equiv> cw_accept w (word_of_nat n)"
  shows "fst r = New \<longleftrightarrow> n \<notin> S \<and> M \<le> n + 32"
    and "represents (snd r) (max M n) (insert n S)"
proof -
  note cf = comparable_facts [OF cmp, of]
  have mx: "cw_max w = word_of_nat M" and pr: "cw_primed w"
    using rep by (simp_all add: represents_def)
  have bits: "bit (cw_bitmap w) i \<longleftrightarrow> (\<exists>n \<in> S. n + (i + 1) = M)" if "i < 32" for i
    using rep that by (simp add: represents_def)
  have le: "k \<in> S \<Longrightarrow> k \<le> M" for k using rep by (simp add: represents_def)
  consider (ahead) "M < n" | (same) "n = M" | (behind) "n < M" by linarith
  then have "(fst r = New \<longleftrightarrow> n \<notin> S \<and> M \<le> n + 32) \<and> represents (snd r) (max M n) (insert n S)"
  proof cases
    case ahead
    then have ne: "word_of_nat n \<noteq> cw_max w" and ah: "cw_ahead w (word_of_nat n)"
      and d: "unat (word_of_nat n - cw_max w) = n - M"
      using cf [OF mx] by auto
    have r: "r = (New, w\<lparr>cw_bitmap := cw_shifted (cw_bitmap w) (word_of_nat n - cw_max w),
        cw_max := word_of_nat n\<rparr>)"
      unfolding r_def using cw_accept_ahead [OF pr ne ah] .
    have "bit (cw_shifted (cw_bitmap w) (word_of_nat n - cw_max w)) i
        \<longleftrightarrow> (\<exists>k \<in> insert n S. k + (i + 1) = n)" if "i < 32" for i
    proof -
      have "bit (cw_shifted (cw_bitmap w) (word_of_nat n - cw_max w)) i
          \<longleftrightarrow> (n - M \<le> i \<and> (\<exists>k \<in> S. k + (i - (n - M) + 1) = M)) \<or> i = n - M - 1"
        using cw_shifted_bit [of "word_of_nat n - cw_max w" i "cw_bitmap w"] that ahead
        by (simp add: d bits)
      also have "\<dots> \<longleftrightarrow> (\<exists>k \<in> S. k + (i + 1) = n)"
      proof
        assume "\<exists>k \<in> S. k + (i + 1) = n"
        then obtain k where "k \<in> S" and "k + (i + 1) = n" by blast
        moreover from this have "k \<le> M" using le by blast
        ultimately show "(n - M \<le> i \<and> (\<exists>k \<in> S. k + (i - (n - M) + 1) = M)) \<or> i = n - M - 1"
          using ahead by (cases "k = M") (auto intro!: bexI [of _ k])
      next
        assume "(n - M \<le> i \<and> (\<exists>k \<in> S. k + (i - (n - M) + 1) = M)) \<or> i = n - M - 1"
        then show "\<exists>k \<in> S. k + (i + 1) = n"
        proof
          assume "n - M \<le> i \<and> (\<exists>k \<in> S. k + (i - (n - M) + 1) = M)"
          then obtain k where "k \<in> S" and "n - M \<le> i" and "k + (i - (n - M) + 1) = M" by blast
          then have "k + (i + 1) = n" using ahead by linarith
          then show ?thesis using \<open>k \<in> S\<close> by blast
        next
          assume "i = n - M - 1"
          then have "M + (i + 1) = n" using ahead by simp
          then show ?thesis using rep unfolding represents_def by blast
        qed
      qed
      finally show ?thesis by auto
    qed
    then show ?thesis
      using ahead le pr by (auto simp: r represents_def dest: le less_imp_le)
  next
    case same
    then have "r = (Duplicate, w)" using pr mx by (simp add: r_def cw_accept_def)
    then show ?thesis using same rep by (auto simp: represents_def insert_absorb)
  next
    case behind
    then have ne: "word_of_nat n \<noteq> cw_max w" and ah: "\<not> cw_ahead w (word_of_nat n)"
      and d: "unat (cw_max w - word_of_nat n) = M - n"
      using cf [OF mx] by auto
    have r: "r = (if M - n > 32 \<or> bit (cw_bitmap w) (M - n - 1) then (Duplicate, w)
        else (New, w\<lparr>cw_bitmap := cw_bitmap w OR 2 ^ (M - n - 1)\<rparr>))"
      unfolding r_def using cw_accept_behind [OF pr ne ah] by (simp add: d)
    have "M - n \<le> 32 \<Longrightarrow> bit (cw_bitmap w) (M - n - 1) \<longleftrightarrow> n \<in> S"
    proof -
      assume "M - n \<le> 32"
      moreover have "k + (M - n - 1 + 1) = M \<longleftrightarrow> k = n" for k using behind by linarith
      ultimately show ?thesis using bits [of "M - n - 1"] behind by simp
    qed
    then show ?thesis
      using behind rep by (auto simp: r represents_def bit_simps)
  qed
  then show "fst r = New \<longleftrightarrow> n \<notin> S \<and> M \<le> n + 32"
    and "represents (snd r) (max M n) (insert n S)" by simp_all
qed

text \<open>A window after a run of logical counters: the maximum and the set of all of them.\<close>

fun within_reach :: "CounterKind \<Rightarrow> nat \<Rightarrow> nat list \<Rightarrow> bool" where
  "within_reach k M [] = True"
| "within_reach k M (n # ns) = (comparable k M n \<and> within_reach k (max M n) ns)"

lemma represents_run:
  "represents w M S \<Longrightarrow> within_reach (cw_kind w) M ns \<Longrightarrow>
   represents (cw_run w (map word_of_nat ns)) (foldl max M ns) (S \<union> set ns)"
proof (induction ns arbitrary: w M S)
  case Nil
  then show ?case by simp
next
  case (Cons n ns)
  then have "represents (snd (cw_accept w (word_of_nat n))) (max M n) (insert n S)"
    using represents_step(2) by simp
  from Cons.IH [OF this] Cons.prems(2) show ?case by simp
qed

lemma represents_first: "represents (snd (cw_accept (cw_new k) (word_of_nat n))) n {n}"
  by (auto simp: represents_def cw_new_def)

lemma foldl_max_Max: "foldl max M ns = Max (insert M (set ns))" for M :: nat
proof (induction ns arbitrary: M)
  case Nil
  then show ?case by simp
next
  case (Cons n ns)
  have "Max (insert (max M n) (set ns)) = Max (insert M (insert n (set ns)))"
    by (cases "ns = []") (simp_all add: max.assoc)
  then show ?case using Cons by simp
qed

lemma within_reach_unicast: "M < 2 ^ 32 \<Longrightarrow> \<forall>n \<in> set ns. n < 2 ^ 32 \<Longrightarrow> within_reach SecureUnicast M ns"
  by (induction ns arbitrary: M) (auto simp: comparable_def)

section \<open>Receiving without replays\<close>

locale duplicate_filter =
  fixes accept :: "'s \<Rightarrow> 'c \<Rightarrow> Verdict \<times> 's"
    and inv :: "'s \<Rightarrow> bool"
  assumes inv_accept: "inv s \<Longrightarrow> inv (snd (accept s c))"
    and recorded: "inv s \<Longrightarrow> fst (accept (snd (accept s c)) c) = Duplicate"
    and stays_duplicate: "inv s \<Longrightarrow> fst (accept s c) = Duplicate \<Longrightarrow>
      fst (accept (snd (accept s d)) c) = Duplicate"
begin

text \<open>The counters a run hands to the layer above: those judged new, in order.\<close>

fun delivered :: "'s \<Rightarrow> 'c list \<Rightarrow> 'c list" where
  "delivered s [] = []"
| "delivered s (c # cs) =
     (if fst (accept s c) = New then [c] else []) @ delivered (snd (accept s c)) cs"

lemma duplicate_never_delivered:
  "inv s \<Longrightarrow> fst (accept s c) = Duplicate \<Longrightarrow> c \<notin> set (delivered s cs)"
proof (induction cs arbitrary: s)
  case Nil
  then show ?case by simp
next
  case (Cons d cs)
  have "c \<notin> set (delivered (snd (accept s d)) cs)"
    by (rule Cons.IH) (simp_all add: inv_accept stays_duplicate Cons.prems)
  then show ?case using Cons.prems by auto
qed

lemma delivered_distinct: "inv s \<Longrightarrow> distinct (delivered s cs)"
proof (induction cs arbitrary: s)
  case Nil
  then show ?case by simp
next
  case (Cons c cs)
  have i: "inv (snd (accept s c))" using Cons.prems by (rule inv_accept)
  have "c \<notin> set (delivered (snd (accept s c)) cs)"
    by (rule duplicate_never_delivered [OF i recorded [OF Cons.prems]])
  then show ?case using Cons.IH [OF i] by auto
qed

lemma delivered_subset: "set (delivered s cs) \<subseteq> set cs"
  by (induction cs arbitrary: s) (auto split: if_splits)

end

text \<open>The set of counters a secure-unicast window refuses.\<close>

lemma unicast_duplicate_iff:
  assumes "cw_kind w = SecureUnicast" and "cw_primed w"
  shows "fst (cw_accept w c) = Duplicate \<longleftrightarrow>
    c = cw_max w \<or> (c < cw_max w \<and>
      (unat (cw_max w) - unat c > 32 \<or> bit (cw_bitmap w) (unat (cw_max w) - unat c - 1)))"
proof (cases c "cw_max w" rule: linorder_cases)
  case less
  then have "\<not> cw_ahead w c" and "unat (cw_max w - c) = unat (cw_max w) - unat c"
    using assms by (auto simp: cw_ahead_def unat_sub_le)
  then show ?thesis using less assms by (auto simp: cw_accept_behind)
next
  case equal
  then show ?thesis using assms by (simp add: cw_accept_def)
next
  case greater
  then have "cw_ahead w c" using assms by (simp add: cw_ahead_def)
  then show ?thesis using greater assms by (auto simp: cw_accept_ahead)
qed

lemma unicast_stays_duplicate:
  assumes "cw_kind w = SecureUnicast" and "fst (cw_accept w c) = Duplicate"
  shows "fst (cw_accept (snd (cw_accept w d)) c) = Duplicate"
proof -
  have pr: "cw_primed w" using assms(2) by (cases "cw_primed w") auto
  note iff = unicast_duplicate_iff [OF assms(1) pr]
  let ?w = "snd (cw_accept w d)"
  have iff': "fst (cw_accept ?w c) = Duplicate \<longleftrightarrow>
    c = cw_max ?w \<or> (c < cw_max ?w \<and>
      (unat (cw_max ?w) - unat c > 32 \<or> bit (cw_bitmap ?w) (unat (cw_max ?w) - unat c - 1)))"
    by (rule unicast_duplicate_iff) (simp_all add: assms(1))
  show ?thesis
  proof (cases "d > cw_max w")
    case True
    then have "cw_ahead w d" using assms by (simp add: cw_ahead_def)
    then have w': "?w = w\<lparr>cw_bitmap := cw_shifted (cw_bitmap w) (d - cw_max w), cw_max := d\<rparr>"
      using True pr by (simp add: cw_accept_ahead)
    have d: "unat (d - cw_max w) = unat d - unat (cw_max w)" and lt: "unat (cw_max w) < unat d"
      using True unat_sub_le [of "cw_max w" d] by (simp_all add: word_less_nat_alt word_le_nat_alt)
    have le: "unat c \<le> unat (cw_max w)" using iff assms(2) by (auto simp: word_less_nat_alt)
    then have cd: "c < d" using lt by (simp add: word_less_nat_alt)
    show ?thesis
    proof (cases "unat d - unat c > 32")
      case True
      then show ?thesis using iff' w' cd by simp
    next
      case False
      then have "bit (cw_shifted (cw_bitmap w) (d - cw_max w)) (unat d - unat c - 1)"
        using cw_shifted_bit [of "d - cw_max w" "unat d - unat c - 1" "cw_bitmap w"] lt le d
          iff assms(2) by (auto simp: word_less_nat_alt)
      then show ?thesis using iff' w' cd by simp
    qed
  next
    case False
    then have na: "\<not> cw_ahead w d" using assms by (simp add: cw_ahead_def)
    show ?thesis
    proof (cases "d = cw_max w")
      case True
      then show ?thesis using assms pr by (simp add: cw_accept_def)
    next
      case False
      then show ?thesis
        using iff iff' assms(2) pr na by (auto simp: cw_accept_behind bit_simps split: if_splits)
    qed
  qed
qed

lemma unicast_recorded:
  assumes "cw_kind w = SecureUnicast"
  shows "fst (cw_accept (snd (cw_accept w c)) c) = Duplicate"
proof (cases "fst (cw_accept w c) = Duplicate")
  case True
  then show ?thesis using assms by (simp add: unicast_stays_duplicate)
next
  case False
  show ?thesis
  proof (cases "cw_primed w \<and> c \<noteq> cw_max w \<and> \<not> cw_ahead w c")
    case True
    then have b: "unat (cw_max w - c) \<le> 32" "0 < unat (cw_max w - c)"
      using False by (auto simp: cw_accept_behind unat_gt_0 split: if_splits)
    have "\<not> cw_ahead (w\<lparr>cw_bitmap := x\<rparr>) c" for x
      using True assms by (simp add: cw_ahead_def)
    then show ?thesis using True False b by (auto simp: cw_accept_behind bit_simps)
  next
    case c: False
    then have "cw_max (snd (cw_accept w c)) = c"
      by (auto simp: cw_accept_def Let_def)
    then show ?thesis by (simp add: cw_accept_def [of "snd (cw_accept w c)"])
  qed
qed

interpretation cwf: duplicate_filter cw_accept "\<lambda>w. cw_kind w = SecureUnicast"
  by unfold_locales (simp_all add: unicast_recorded unicast_stays_duplicate)

lemma cw_delivered_eq: "cw_delivered w cs = cwf.delivered w cs"
  by (induction cs arbitrary: w) auto

section \<open>The sender's supply\<close>

lemma mc_take_live:
  "mc_take (mc_at v) = (Inr v, if v = - 1 then \<lparr>mc_next = v, mc_exhausted = True\<rparr> else mc_at (v + 1))"
proof -
  have "unat v + 1 < 2 ^ 32 \<longleftrightarrow> v \<noteq> - 1"
    using unat_lt_len [of v] by (auto simp: word_unat_eq_iff unat_max_word)
  then show ?thesis
    by (auto simp: mc_take_def mc_at_def checked_add_def)
qed

lemma mc_takes_exhausted:
  "mc_exhausted c \<Longrightarrow> mc_takes n c = replicate n (Inl InvalidState)"
  by (induction n) (auto simp: mc_take_def)

lemma mc_takes_at:
  "mc_takes n (mc_at v) =
     map (\<lambda>i. if unat v + i < 2 ^ 32 then Inr (v + word_of_nat i) else Inl InvalidState) [0..<n]"
proof (induction n arbitrary: v)
  case 0
  then show ?case by simp
next
  case (Suc n)
  have shift: "[0..<Suc n] = 0 # map Suc [0..<n]" by (simp add: map_Suc_upt upt_conv_Cons del: upt_Suc)
  show ?case
  proof (cases "v = - 1")
    case True
    then have "unat v + Suc i < 2 ^ 32 \<longleftrightarrow> False" for i by (simp add: unat_max_word)
    then show ?thesis
      unfolding shift using True unat_lt_len [of v]
      by (simp add: mc_take_live mc_takes_exhausted unat_max_word map_replicate_const o_def del: upt_Suc)
  next
    case False
    then have "unat v + 1 < 2 ^ 32"
      using unat_lt_len [of v] by (auto simp: word_unat_eq_iff unat_max_word)
    then have "unat (v + 1) = unat v + 1" by (simp add: unat_word_ariths)
    then show ?thesis
      unfolding shift using False unat_lt_len [of v]
      by (simp add: mc_take_live Suc add.assoc del: upt_Suc)
  qed
qed

lemma initial_counter_range: "1 \<le> unat (initial_counter r)" "unat (initial_counter r) \<le> 2 ^ 28"
proof -
  have "(r AND 0x0FFFFFFF) \<le> (0x0FFFFFFF :: u32)" by (rule word_and_le1)
  then have "unat (r AND 0x0FFFFFFF) \<le> 0x0FFFFFFF" by (simp add: word_le_nat_alt)
  then show "1 \<le> unat (initial_counter r)" "unat (initial_counter r) \<le> 2 ^ 28"
    by (simp_all add: initial_counter_def unat_saturating_add)
qed

lemma verdict_if: "(v = New \<longleftrightarrow> \<not> P) \<Longrightarrow> v = (if P then Duplicate else New)"
  by (cases v) auto

section \<open>Properties\<close>

text \<open>C3: the receiver's verdict on the next counter of a secure-unicast session is exactly
  what the complete history gives.  After any sequence of arrivals, a counter is new unless
  it has been offered before or lies more than 32 below the largest one offered; the eight
  octets of window state lose nothing else.\<close>

theorem unicast_verdict_is_history:
  "cw_would_accept (cw_run (cw_new SecureUnicast) cs) c =
     (if cs = [] then New
      else if c \<in> set cs \<or> unat c + 32 < unat (Max (set cs)) then Duplicate else New)"
proof (cases cs)
  case Nil
  then show ?thesis by (simp add: cw_would_accept_def cw_new_def)
next
  case (Cons a as)
  let ?ns = "map unat as" and ?w = "snd (cw_accept (cw_new SecureUnicast) a)"
  let ?M = "foldl max (unat a) ?ns" and ?r = "cw_run ?w as"
  have k: "cw_kind ?w = SecureUnicast" by (simp add: cw_new_def)
  have as: "map word_of_nat ?ns = as" by (simp add: o_def)
  have "represents ?w (unat a) {unat a}" using represents_first [of SecureUnicast "unat a"] by simp
  moreover have "within_reach (cw_kind ?w) (unat a) ?ns"
    unfolding k by (rule within_reach_unicast) (auto simp: unat_lt_len [where 'a = 32, simplified])
  ultimately have rep: "represents ?r ?M ({unat a} \<union> set ?ns)"
    using represents_run as by fastforce
  have "?M = Max (unat ` set cs)" by (simp add: Cons foldl_max_Max)
  also have "\<dots> = unat (Max (set cs))"
    using Cons by (intro mono_Max_commute [symmetric]) (auto simp: mono_def word_le_nat_alt)
  finally have M: "?M = unat (Max (set cs))" .
  have "comparable (cw_kind ?r) ?M (unat c)"
    using k unat_lt_len [of c] unat_lt_len [of "Max (set cs)"] by (simp add: comparable_def M)
  from represents_step(1) [OF rep this]
  have "cw_would_accept ?r c = New \<longleftrightarrow> unat c \<notin> {unat a} \<union> set ?ns \<and> ?M \<le> unat c + 32"
    by (simp add: cw_would_accept_def)
  moreover have "unat c \<in> {unat a} \<union> set ?ns \<longleftrightarrow> c \<in> set cs"
    by (auto simp: Cons word_unat_eq_iff [symmetric])
  ultimately have "cw_would_accept ?r c =
      (if c \<in> set cs \<or> unat c + 32 < unat (Max (set cs)) then Duplicate else New)"
    unfolding M by (intro verdict_if) (simp only: not_less de_Morgan_disj)
  moreover have "cw_run (cw_new SecureUnicast) cs = ?r" and "cs \<noteq> []" by (simp_all only: Cons cw_run.simps list.distinct not_False_eq_True)
  ultimately show ?thesis by (simp only: if_False)
qed

text \<open>the same for a group counter, which rolls over.  As long as each logical counter is
  less than half the counter space away from the largest so far, reducing the counters modulo
  two to the thirty-second does not change any verdict.\<close>

theorem rollover_verdict_is_history:
  assumes "within_reach Rollover n0 ns" and "comparable Rollover (Max (set (n0 # ns))) n"
  shows "cw_would_accept (cw_run (cw_new Rollover) (map word_of_nat (n0 # ns))) (word_of_nat n) =
     (if n \<in> set (n0 # ns) \<or> n + 32 < Max (set (n0 # ns)) then Duplicate else New)"
proof -
  let ?w = "snd (cw_accept (cw_new Rollover) (word_of_nat n0))"
  let ?r = "cw_run ?w (map word_of_nat ns)"
  have k: "cw_kind ?w = Rollover" by (simp add: cw_new_def)
  have M: "foldl max n0 ns = Max (set (n0 # ns))" by (simp add: foldl_max_Max)
  have rep: "represents ?r (Max (set (n0 # ns))) (set (n0 # ns))"
    using represents_run [OF represents_first [of Rollover n0], of ns] assms(1) k M by simp
  have "cw_would_accept ?r (word_of_nat n) = New \<longleftrightarrow>
      n \<notin> set (n0 # ns) \<and> Max (set (n0 # ns)) \<le> n + 32"
    using represents_step(1) [OF rep] assms(2) k by (simp add: cw_would_accept_def)
  then have "cw_would_accept ?r (word_of_nat n) =
      (if n \<in> set (n0 # ns) \<or> n + 32 < Max (set (n0 # ns)) then Duplicate else New)"
    by (intro verdict_if) (simp only: not_less de_Morgan_disj)
  then show ?thesis by (simp only: list.map cw_run.simps)
qed

theorem rollover_verdict_is_history_witness:
  "cw_would_accept (cw_run (cw_new Rollover) (map word_of_nat [4294967295, 4294967296 :: nat]))
     (word_of_nat (4294967297 :: nat)) = New"
  using rollover_verdict_is_history [of 4294967295 "[4294967296]" 4294967297]
  by (simp add: comparable_def)

text \<open>a secure-unicast receiver hands no counter up twice, whatever arrives and in
  whatever order, also when the window was restored from storage.\<close>

theorem unicast_delivers_once:
  assumes "cw_kind w = SecureUnicast"
  shows "distinct (cw_delivered w cs) \<and> set (cw_delivered w cs) \<subseteq> set cs"
  using cwf.delivered_distinct [OF assms] cwf.delivered_subset by (simp add: cw_delivered_eq)

theorem unicast_delivers_once_witness:
  "distinct (cw_delivered (cw_primed_at SecureUnicast 5000) [5001, 5001, 4999])"
  using unicast_delivers_once [of "cw_primed_at SecureUnicast 5000" "[5001, 5001, 4999]"]
  by (simp add: cw_primed_at_def del: cw_delivered.simps)

text \<open>a sender's counter is never used twice and starts with its promised supply.
  Successive calls of \<^verbatim>\<open>take\<close> on a counter that stands at \<open>v\<close> return \<open>v\<close>, \<open>v + 1\<close>, ... up to the
  last 32-bit value and are refused ever after; a freshly seeded counter stands between 1 and
  \<open>2 ^ 28\<close>.\<close>

theorem message_counter_supply:
  "mc_takes n (mc_at v) =
     map (\<lambda>i. if unat v + i < 2 ^ 32 then Inr (v + word_of_nat i) else Inl InvalidState) [0..<n]
   \<and> distinct (filter (\<lambda>r. \<exists>x. r = Inr x) (mc_takes n (mc_at v)))
   \<and> 1 \<le> unat (mc_peek (mc_new r)) \<and> unat (mc_peek (mc_new r)) \<le> 2 ^ 28"
proof -
  let ?f = "\<lambda>i. if unat v + i < 2 ^ 32 then Inr (v + word_of_nat i) else Inl InvalidState"
  have "inj_on ?f {i. unat v + i < 2 ^ 32}"
  proof (rule inj_onI)
    fix i j
    assume *: "i \<in> {i. unat v + i < 2 ^ 32}" "j \<in> {i. unat v + i < 2 ^ 32}" "?f i = ?f j"
    then have "(word_of_nat i :: u32) = word_of_nat j" by simp
    then have "unat (word_of_nat i :: u32) = unat (word_of_nat j :: u32)" by simp
    moreover have "unat (word_of_nat i :: u32) = i" "unat (word_of_nat j :: u32) = j"
      using *(1,2) by (auto intro!: unat_of_nat_small)
    ultimately show "i = j" by simp
  qed
  moreover have "filter (\<lambda>r. \<exists>x. r = Inr x) (map ?f [0..<n]) = map ?f (filter (\<lambda>i. unat v + i < 2 ^ 32) [0..<n])"
    by (simp add: filter_map o_def)
  moreover have "inj_on ?f (set (filter (\<lambda>i. unat v + i < 2 ^ 32) [0..<n]))"
    by (rule inj_on_subset [OF \<open>inj_on ?f {i. unat v + i < 2 ^ 32}\<close>]) auto
  ultimately have "distinct (filter (\<lambda>r. \<exists>x. r = Inr x) (mc_takes n (mc_at v)))"
    by (simp only: mc_takes_at distinct_map distinct_filter distinct_upt simp_thms)
  then show ?thesis
    using initial_counter_range [of r] mc_takes_at [of n v]
    by (simp add: mc_peek_def mc_new_def mc_at_def)
qed

end
