(* ===== verification/Msg_Ids.thy ===== *)
theory Msg_Ids
  imports Prelude
begin

text \<open>
  The identifiers of \<^verbatim>\<open>src/src/msg/ids.rs\<close>: node identifiers and the ranges they fall into,
  CASE authenticated tags, group, fabric, session, exchange, vendor and protocol
  identifiers.  The Rust newtypes over machine integers are type synonyms here.
\<close>

type_synonym NodeId = u64
type_synonym GroupId = u16
type_synonym FabricIndex = u8
type_synonym SessionId = u16
type_synonym ExchangeId = u16
type_synonym VendorId = u16
type_synonym CaseAuthenticatedTag = u32

datatype NodeIdKind =
    KindUnspecified | KindOperational | KindPakeKeyIdentifier | KindCaseAuthenticatedTag
  | KindTemporaryLocal | KindGroup | KindReserved

definition NodeId_UNSPECIFIED :: NodeId where "NodeId_UNSPECIFIED = 0"
definition OPERATIONAL_MIN :: u64 where "OPERATIONAL_MIN = 0x0000000000000001"
definition OPERATIONAL_MAX :: u64 where "OPERATIONAL_MAX = 0xFFFFFFEFFFFFFFFF"

definition node_id_kind :: "NodeId \<Rightarrow> NodeIdKind" where
  "node_id_kind n =
     (if n = 0 then KindUnspecified
      else if OPERATIONAL_MIN \<le> n \<and> n \<le> OPERATIONAL_MAX then KindOperational
      else if 0xFFFFFFFB00000000 \<le> n \<and> n \<le> 0xFFFFFFFBFFFFFFFF then KindPakeKeyIdentifier
      else if 0xFFFFFFFD00000000 \<le> n \<and> n \<le> 0xFFFFFFFDFFFFFFFF then KindCaseAuthenticatedTag
      else if 0xFFFFFFFE00000000 \<le> n \<and> n \<le> 0xFFFFFFFEFFFFFFFF then KindTemporaryLocal
      else if 0xFFFFFFFFFFFF0000 \<le> n \<and> n \<le> 0xFFFFFFFFFFFFFFFF then KindGroup
      else KindReserved)"

definition node_id_is_operational :: "NodeId \<Rightarrow> bool" where
  "node_id_is_operational n \<longleftrightarrow> node_id_kind n = KindOperational"

definition node_id_ephemeral :: "u64 \<Rightarrow> NodeId" where
  "node_id_ephemeral randomness = (randomness AND 0x0FFFFFFFFFFFFFFF) OR 1"

definition node_id_group :: "NodeId \<Rightarrow> GroupId option" where
  "node_id_group n = (case node_id_kind n of KindGroup \<Rightarrow> Some (ucast n) | _ \<Rightarrow> None)"

definition node_id_from_group :: "GroupId \<Rightarrow> NodeId" where
  "node_id_from_group g = 0xFFFFFFFFFFFF0000 OR ucast g"

definition cat_new :: "u16 \<Rightarrow> u16 \<Rightarrow> CaseAuthenticatedTag" where
  "cat_new identifier version = push_bit 16 (ucast identifier) OR ucast version"

definition cat_identifier :: "CaseAuthenticatedTag \<Rightarrow> u16" where
  "cat_identifier c = ucast (drop_bit 16 c)"

definition cat_version :: "CaseAuthenticatedTag \<Rightarrow> u16" where
  "cat_version c = ucast c"

definition cat_is_valid :: "CaseAuthenticatedTag \<Rightarrow> bool" where
  "cat_is_valid c \<longleftrightarrow> cat_version c \<noteq> 0"

definition cat_to_node_id :: "CaseAuthenticatedTag \<Rightarrow> NodeId" where
  "cat_to_node_id c = 0xFFFFFFFD00000000 OR ucast c"

definition cat_from_node_id :: "NodeId \<Rightarrow> CaseAuthenticatedTag option" where
  "cat_from_node_id n =
     (case node_id_kind n of KindCaseAuthenticatedTag \<Rightarrow> Some (ucast n) | _ \<Rightarrow> None)"

definition fabric_index_is_some :: "FabricIndex \<Rightarrow> bool" where
  "fabric_index_is_some f \<longleftrightarrow> f \<noteq> 0"

definition FabricIndex_NONE :: FabricIndex where "FabricIndex_NONE = 0"
definition SessionId_UNSECURED :: SessionId where "SessionId_UNSECURED = 0"
definition VendorId_COMMON :: VendorId where "VendorId_COMMON = 0"

record ProtocolId =
  proto_vendor :: VendorId
  proto_id :: u16

definition protocol_common :: "u16 \<Rightarrow> ProtocolId" where
  "protocol_common i = \<lparr>proto_vendor = VendorId_COMMON, proto_id = i\<rparr>"

definition protocol_is_common :: "ProtocolId \<Rightarrow> bool" where
  "protocol_is_common p \<longleftrightarrow> proto_vendor p = 0"

section \<open>The two tagged ranges\<close>

text \<open>A prefix with 32 or 16 clear low bits, combined with a value that fits them, is their sum.\<close>

lemma or_low_sum:
  assumes "p AND ucast c = (0 :: u64)"
  shows "p OR ucast c = p + ucast c"
  using assms by (metis disjunctive_add bit_and_iff bit_0_eq bot_apply bot_bool_def)

lemma bit_push_bit_ge: "bit (push_bit k (x :: int)) n \<Longrightarrow> k \<le> n"
  by (simp add: bit_push_bit_iff)

lemma cat_prefix_bit: "bit (0xFFFFFFFD00000000 :: int) n \<Longrightarrow> 32 \<le> n"
  using bit_push_bit_ge [of 32 "0xFFFFFFFD" n] by simp

lemma cat_node_id_value: "cat_to_node_id c = 0xFFFFFFFD00000000 + ucast c"
proof -
  have "(0xFFFFFFFD00000000 :: u64) AND ucast c = 0"
    using cat_prefix_bit bit_imp_le_length [of c] by (intro bit_word_eqI) (fastforce simp: bit_simps)
  then show ?thesis by (simp add: cat_to_node_id_def or_low_sum)
qed

lemma unat_cat_node_id: "unat (cat_to_node_id c) = 0xFFFFFFFD00000000 + unat c"
proof -
  have "unat c < 2 ^ 32" using unat_lt_len [of c] by simp
  then show ?thesis
    by (simp add: cat_node_id_value unat_word_ariths unsigned_ucast_eq take_bit_nat_eq_self)
qed

lemma cat_node_id_kind [simp]: "node_id_kind (cat_to_node_id c) = KindCaseAuthenticatedTag"
proof -
  have "unat c < 2 ^ 32" using unat_lt_len [of c] by simp
  then show ?thesis
    by (simp add: node_id_kind_def OPERATIONAL_MIN_def OPERATIONAL_MAX_def
        word_le_nat_alt unat_cat_node_id word_unat_eq_iff)
qed

lemma cat_node_id_roundtrip [simp]: "cat_from_node_id (cat_to_node_id c) = Some c"
proof -
  have "(ucast (cat_to_node_id c) :: u32) = c"
    unfolding cat_to_node_id_def
    by (intro bit_word_eqI) (auto simp: bit_simps dest: cat_prefix_bit)
  then show ?thesis by (simp add: cat_from_node_id_def)
qed

lemma cat_parts [simp]:
  "cat_identifier (cat_new i v) = i" "cat_version (cat_new i v) = v"
  unfolding cat_identifier_def cat_version_def cat_new_def
  by (intro bit_word_eqI; auto simp: bit_simps dest: bit_imp_le_length)+

end
