(* ===== verification/Msg_Header.thy ===== *)
theory Msg_Header
  imports Bytes Msg_Ids
begin

text \<open>
  The plain-text message frame (\<^verbatim>\<open>src/src/msg/header.rs\<close>): the message header and the
  protocol header, each with its encoder (writing through a cursor into a caller's buffer)
  and its decoder (returning the header and what follows it).  Both are interpreted as a
  \<open>wire_codec\<close>, and the pair as a \<open>framed_codec\<close>.
\<close>

definition MESSAGE_FORMAT_VERSION :: u8 where "MESSAGE_FORMAT_VERSION = 0"

definition SOURCE_PRESENT :: u8 where "SOURCE_PRESENT = 0x04"
definition VERSION_MASK :: u8 where "VERSION_MASK = 0xF0"
definition PRIVACY :: u8 where "PRIVACY = 0x80"
definition CONTROL :: u8 where "CONTROL = 0x40"
definition MESSAGE_EXTENSIONS :: u8 where "MESSAGE_EXTENSIONS = 0x20"
definition INITIATOR :: u8 where "INITIATOR = 0x01"
definition ACKNOWLEDGEMENT :: u8 where "ACKNOWLEDGEMENT = 0x02"
definition RELIABILITY :: u8 where "RELIABILITY = 0x04"
definition SECURED_EXTENSIONS :: u8 where "SECURED_EXTENSIONS = 0x08"
definition VENDOR :: u8 where "VENDOR = 0x10"

lemmas flag_defs = MESSAGE_FORMAT_VERSION_def SOURCE_PRESENT_def VERSION_MASK_def PRIVACY_def
  CONTROL_def MESSAGE_EXTENSIONS_def INITIATOR_def ACKNOWLEDGEMENT_def RELIABILITY_def
  SECURED_EXTENSIONS_def VENDOR_def

definition contains :: "u8 \<Rightarrow> u8 \<Rightarrow> bool" where
  "contains flags f \<longleftrightarrow> flags AND f = f"

datatype SessionType = Unicast | GroupSession

fun session_type_bits :: "SessionType \<Rightarrow> u8" where
  "session_type_bits Unicast = 0"
| "session_type_bits GroupSession = 1"

definition session_type_from_bits :: "u8 \<Rightarrow> SessionType result" where
  "session_type_from_bits bits =
     (if bits AND 3 = 0 then Inr Unicast
      else if bits AND 3 = 1 then Inr GroupSession
      else Inl MessageReserved)"

datatype Destination = NoDestination | ToNode NodeId | ToGroup GroupId

fun dest_dsiz :: "Destination \<Rightarrow> u8" where
  "dest_dsiz NoDestination = 0"
| "dest_dsiz (ToNode _) = 1"
| "dest_dsiz (ToGroup _) = 2"

fun dest_encoded_len :: "Destination \<Rightarrow> nat" where
  "dest_encoded_len NoDestination = 0"
| "dest_encoded_len (ToNode _) = 8"
| "dest_encoded_len (ToGroup _) = 2"

record MessageHeader =
  mh_session_id :: SessionId
  mh_session_type :: SessionType
  mh_privacy :: bool
  mh_control :: bool
  mh_message_counter :: u32
  mh_source :: "NodeId option"
  mh_destination :: Destination

definition mh_default :: MessageHeader where
  "mh_default = \<lparr>mh_session_id = SessionId_UNSECURED, mh_session_type = Unicast,
     mh_privacy = False, mh_control = False, mh_message_counter = 0, mh_source = None,
     mh_destination = NoDestination\<rparr>"

definition mh_is_unsecured :: "MessageHeader \<Rightarrow> bool" where
  "mh_is_unsecured h \<longleftrightarrow> mh_session_type h = Unicast \<and> mh_session_id h = 0"

definition mh_encoded_len :: "MessageHeader \<Rightarrow> nat" where
  "mh_encoded_len h =
     8 + (if mh_source h \<noteq> None then 8 else 0) + dest_encoded_len (mh_destination h)"

definition mh_flags :: "MessageHeader \<Rightarrow> u8" where
  "mh_flags h =
     (push_bit 4 MESSAGE_FORMAT_VERSION OR (if mh_source h \<noteq> None then SOURCE_PRESENT else 0))
     OR dest_dsiz (mh_destination h)"

definition mh_security :: "MessageHeader \<Rightarrow> u8" where
  "mh_security h =
     (session_type_bits (mh_session_type h) OR (if mh_privacy h then PRIVACY else 0))
     OR (if mh_control h then CONTROL else 0)"

definition mh_write :: "MessageHeader \<Rightarrow> (Cursor, unit) mutator" where
  "mh_write h =
     bindE (cursor_u8 (mh_flags h)) (\<lambda>_.
     bindE (cursor_u16 (mh_session_id h)) (\<lambda>_.
     bindE (cursor_u8 (mh_security h)) (\<lambda>_.
     bindE (cursor_u32 (mh_message_counter h)) (\<lambda>_.
     bindE (case mh_source h of None \<Rightarrow> retE () | Some n \<Rightarrow> cursor_u64 n) (\<lambda>_.
       case mh_destination h of
         NoDestination \<Rightarrow> retE ()
       | ToNode n \<Rightarrow> cursor_u64 n
       | ToGroup g \<Rightarrow> cursor_u16 g)))))"

text \<open>Running a writer over a caller's buffer: the octets produced, and the buffer after.\<close>

definition encode_into :: "(Cursor, unit) mutator \<Rightarrow> (bytes, nat) mutator" where
  "encode_into m out =
     (let (r, c) = m (cursor_writer out) in
      (map_sum id (\<lambda>_. cursor_position c) r,
       case cur_write c of None \<Rightarrow> out | Some buf \<Rightarrow> buf))"

definition mh_encode :: "MessageHeader \<Rightarrow> (bytes, nat) mutator" where
  "mh_encode h = encode_into (mh_write h)"

text \<open>Skipping an extension block: a two-octet length and that many octets.\<close>

definition skip_extensions :: "bool \<Rightarrow> (Cursor, unit) mutator" where
  "skip_extensions present =
     (if present then bindE cursor_read_u16 (\<lambda>len. cursor_skip (unat len)) else retE ())"

definition mh_read_destination :: "u8 \<Rightarrow> (Cursor, Destination) mutator" where
  "mh_read_destination flags =
     (let dsiz = flags AND 3 in
      if dsiz = 0 then retE NoDestination
      else if dsiz = 1 then bindE cursor_read_u64 (\<lambda>n. retE (ToNode n))
      else if dsiz = 2 then bindE cursor_read_u16 (\<lambda>g. retE (ToGroup g))
      else failE MessageReserved)"

definition mh_read :: "(Cursor, MessageHeader) mutator" where
  "mh_read =
     bindE cursor_read_u8 (\<lambda>flags.
     bindE (ensureE UnsupportedVersion (drop_bit 4 (flags AND VERSION_MASK) = MESSAGE_FORMAT_VERSION)) (\<lambda>_.
     bindE cursor_read_u16 (\<lambda>session_id.
     bindE cursor_read_u8 (\<lambda>security.
     bindE (liftE (session_type_from_bits security)) (\<lambda>session_type.
     bindE cursor_read_u32 (\<lambda>counter.
     bindE (if contains flags SOURCE_PRESENT then bindE cursor_read_u64 (\<lambda>n. retE (Some n))
            else retE None) (\<lambda>source.
     bindE (mh_read_destination flags) (\<lambda>destination.
     bindE (skip_extensions (contains security MESSAGE_EXTENSIONS)) (\<lambda>_.
       retE \<lparr>mh_session_id = session_id, mh_session_type = session_type,
             mh_privacy = contains security PRIVACY, mh_control = contains security CONTROL,
             mh_message_counter = counter, mh_source = source,
             mh_destination = destination\<rparr>)))))))))"

definition decode_from :: "(Cursor, 'a) mutator \<Rightarrow> bytes \<Rightarrow> ('a \<times> bytes) result" where
  "decode_from m buf =
     (let (r, c) = m (cursor_reader buf MessageTruncated) in map_sum id (\<lambda>h. (h, cursor_rest c)) r)"

definition mh_decode :: "bytes \<Rightarrow> (MessageHeader \<times> bytes) result" where
  "mh_decode buf = decode_from mh_read buf"

record ProtocolHeader =
  ph_initiator :: bool
  ph_acknowledged_counter :: "u32 option"
  ph_reliability :: bool
  ph_exchange_id :: ExchangeId
  ph_protocol :: ProtocolId
  ph_opcode :: u8

definition ph_default :: ProtocolHeader where
  "ph_default = \<lparr>ph_initiator = False, ph_acknowledged_counter = None, ph_reliability = False,
     ph_exchange_id = 0, ph_protocol = protocol_common 0, ph_opcode = 0\<rparr>"

definition ph_encoded_len :: "ProtocolHeader \<Rightarrow> nat" where
  "ph_encoded_len h =
     6 + (if protocol_is_common (ph_protocol h) then 0 else 2)
       + (if ph_acknowledged_counter h \<noteq> None then 4 else 0)"

definition ph_flags :: "ProtocolHeader \<Rightarrow> u8" where
  "ph_flags h =
     (((if ph_initiator h then INITIATOR else 0)
       OR (if ph_acknowledged_counter h \<noteq> None then ACKNOWLEDGEMENT else 0))
      OR (if ph_reliability h then RELIABILITY else 0))
     OR (if protocol_is_common (ph_protocol h) then 0 else VENDOR)"

definition ph_write :: "ProtocolHeader \<Rightarrow> (Cursor, unit) mutator" where
  "ph_write h =
     bindE (cursor_u8 (ph_flags h)) (\<lambda>_.
     bindE (cursor_u8 (ph_opcode h)) (\<lambda>_.
     bindE (cursor_u16 (ph_exchange_id h)) (\<lambda>_.
     bindE (if protocol_is_common (ph_protocol h) then retE ()
            else cursor_u16 (proto_vendor (ph_protocol h))) (\<lambda>_.
     bindE (cursor_u16 (proto_id (ph_protocol h))) (\<lambda>_.
       case ph_acknowledged_counter h of None \<Rightarrow> retE () | Some ack \<Rightarrow> cursor_u32 ack)))))"

definition ph_encode :: "ProtocolHeader \<Rightarrow> (bytes, nat) mutator" where
  "ph_encode h = encode_into (ph_write h)"

definition ph_read :: "(Cursor, ProtocolHeader) mutator" where
  "ph_read =
     bindE cursor_read_u8 (\<lambda>flags.
     bindE cursor_read_u8 (\<lambda>opcode.
     bindE cursor_read_u16 (\<lambda>exchange_id.
     bindE (if contains flags VENDOR then cursor_read_u16 else retE VendorId_COMMON) (\<lambda>vendor.
     bindE cursor_read_u16 (\<lambda>pid.
     bindE (if contains flags ACKNOWLEDGEMENT then bindE cursor_read_u32 (\<lambda>a. retE (Some a))
            else retE None) (\<lambda>ack.
     bindE (skip_extensions (contains flags SECURED_EXTENSIONS)) (\<lambda>_.
       retE \<lparr>ph_initiator = contains flags INITIATOR, ph_acknowledged_counter = ack,
             ph_reliability = contains flags RELIABILITY, ph_exchange_id = exchange_id,
             ph_protocol = \<lparr>proto_vendor = vendor, proto_id = pid\<rparr>, ph_opcode = opcode\<rparr>)))))))"

definition ph_decode :: "bytes \<Rightarrow> (ProtocolHeader \<times> bytes) result" where
  "ph_decode buf = decode_from ph_read buf"

section \<open>The octets of a header\<close>

definition mh_bytes :: "MessageHeader \<Rightarrow> bytes" where
  "mh_bytes h = [mh_flags h] @ u16_bytes (mh_session_id h) @ [mh_security h]
     @ u32_bytes (mh_message_counter h)
     @ (case mh_source h of None \<Rightarrow> [] | Some n \<Rightarrow> u64_bytes n)
     @ (case mh_destination h of NoDestination \<Rightarrow> [] | ToNode n \<Rightarrow> u64_bytes n
        | ToGroup g \<Rightarrow> u16_bytes g)"

definition ph_bytes :: "ProtocolHeader \<Rightarrow> bytes" where
  "ph_bytes h = [ph_flags h] @ [ph_opcode h] @ u16_bytes (ph_exchange_id h)
     @ (if protocol_is_common (ph_protocol h) then [] else u16_bytes (proto_vendor (ph_protocol h)))
     @ u16_bytes (proto_id (ph_protocol h))
     @ (case ph_acknowledged_counter h of None \<Rightarrow> [] | Some a \<Rightarrow> u32_bytes a)"

lemma length_mh_bytes: "length (mh_bytes h) = mh_encoded_len h"
  by (auto simp: mh_bytes_def mh_encoded_len_def split: option.splits Destination.splits)

lemma length_ph_bytes: "length (ph_bytes h) = ph_encoded_len h"
  by (auto simp: ph_bytes_def ph_encoded_len_def split: option.splits)

lemma mh_write_emits: "emits (mh_write h) (mh_bytes h)"
  unfolding mh_write_def mh_bytes_def
  by (intro emits_seq emits_uN) (auto intro: emits_ret emits_uN split: option.split Destination.split)

lemma ph_write_emits: "emits (ph_write h) (ph_bytes h)"
  unfolding ph_write_def ph_bytes_def
  by (intro emits_seq emits_uN emits_cond emits_ret) (auto intro: emits_ret emits_uN split: option.split)

lemma encode_into_emits:
  assumes "emits m bs" and "length out \<le> USIZE_MAX"
  shows "length bs \<le> length out \<Longrightarrow>
      encode_into m out = (Inr (length bs), bs @ drop (length bs) out)"
    and "length out < length bs \<Longrightarrow> fst (encode_into m out) = Inl BufferTooSmall"
  using emits_writer [OF assms]
  by (auto simp: encode_into_def cursor_position_def split: prod.splits)

lemma mh_read_bytes:
  assumes "reading c" and "cursor_rest c = mh_bytes h @ rest"
  shows "mh_read c = (Inr h, skipped c (length (mh_bytes h)))"
proof (cases h)
  case (fields sid st pr ct ctr src dst)
  show ?thesis
    using assms
    by (cases src; cases dst; cases st; cases pr; cases ct)
      (simp_all add: fields mh_read_def mh_bytes_def bindE_def mh_flags_def mh_security_def
        flag_defs session_type_from_bits_def contains_def mh_read_destination_def
        skip_extensions_def skipped_skipped)
qed

lemma ph_read_bytes:
  assumes "reading c" and "cursor_rest c = ph_bytes h @ rest"
  shows "ph_read c = (Inr h, skipped c (length (ph_bytes h)))"
proof (cases h)
  case (fields ini ack rel xid proto opc)
  obtain v i where proto: "proto = \<lparr>proto_vendor = v, proto_id = i\<rparr>" by (cases proto)
  show ?thesis
    using assms
    by (cases ack; cases ini; cases rel; cases "v = 0";
        simp add: fields proto ph_read_def ph_bytes_def bindE_def ph_flags_def flag_defs
          contains_def protocol_is_common_def skip_extensions_def VendorId_COMMON_def skipped_skipped;
        simp add: numeral_eq_Suc)
qed

lemma decode_from_read:
  assumes "length (bs @ rest) \<le> USIZE_MAX"
    and "\<And>c. reading c \<Longrightarrow> cursor_rest c = bs @ rest \<Longrightarrow> m c = (Inr h, skipped c (length bs))"
  shows "decode_from m (bs @ rest) = Inr (h, rest)"
  using assms(2) [of "cursor_reader (bs @ rest) MessageTruncated"] assms(1)
  by (simp add: decode_from_def)

interpretation mhc: wire_codec mh_bytes mh_decode "\<lambda>_. True"
  by unfold_locales (simp only: mh_decode_def decode_from_read mh_read_bytes)

interpretation phc: wire_codec ph_bytes ph_decode "\<lambda>_. True"
  by unfold_locales (simp only: ph_decode_def decode_from_read ph_read_bytes)

interpretation frame: framed_codec mh_bytes mh_decode "\<lambda>_. True" ph_bytes ph_decode "\<lambda>_. True"
  by unfold_locales

section \<open>Errors of the decoder\<close>

text \<open>What a reading method can do to a cursor: nothing but move it forwards.\<close>

definition only_moves :: "(Cursor, 'a) mutator \<Rightarrow> ErrorCode set \<Rightarrow> bool" where
  "only_moves m E \<longleftrightarrow> (\<forall>c. reading c \<longrightarrow>
     (case m c of
        (Inl e, c') \<Rightarrow> e \<in> insert (cur_truncated c) E
      | (Inr _, c') \<Rightarrow> (\<exists>n \<le> length (cursor_rest c). c' = skipped c n)))"

lemma only_movesD:
  assumes "only_moves m E" and "reading c"
  shows "m c = (Inl e, c') \<Longrightarrow> e \<in> insert (cur_truncated c) E"
    and "m c = (Inr a, c') \<Longrightarrow> \<exists>n \<le> length (cursor_rest c). c' = skipped c n"
  using assms(1) [unfolded only_moves_def, THEN spec, THEN mp, OF assms(2)] by auto

lemma only_moves_bind:
  assumes "only_moves m E" and "\<And>a. only_moves (f a) E"
  shows "only_moves (bindE m f) E"
  unfolding only_moves_def
proof (intro allI impI)
  fix c assume c: "reading c"
  show "case bindE m f c of (Inl e, c') \<Rightarrow> e \<in> insert (cur_truncated c) E
      | (Inr _, c') \<Rightarrow> (\<exists>n \<le> length (cursor_rest c). c' = skipped c n)"
  proof (cases "m c")
    case (Pair r c')
    show ?thesis
    proof (cases r)
      case (Inl e)
      then show ?thesis using assms(1) c Pair by (auto simp: only_moves_def bindE_def)
    next
      case (Inr a)
      then obtain n where n: "n \<le> length (cursor_rest c)" "c' = skipped c n"
        using assms(1) c Pair by (fastforce simp: only_moves_def)
      then have r: "reading c'" and rest: "length (cursor_rest c') = length (cursor_rest c) - n"
        and tr: "cur_truncated c' = cur_truncated c"
        using c by simp_all
      have b: "bindE m f c = f a c'" using Pair Inr by simp
      show ?thesis
      proof (cases "f a c'")
        case p: (Pair r' c'')
        show ?thesis
        proof (cases r')
          case (Inl e)
          then show ?thesis
            using only_movesD(1) [OF assms(2) r] p b tr by auto
        next
          case (Inr x)
          then obtain k where "k \<le> length (cursor_rest c')" "c'' = skipped c' k"
            using only_movesD(2) [OF assms(2) r] p by blast
          then have "n + k \<le> length (cursor_rest c)" "c'' = skipped c (n + k)"
            using n rest by (simp_all add: skipped_skipped)
          then show ?thesis using Inr p b by auto
        qed
      qed
    qed
  qed
qed

lemma only_moves_take: "only_moves (cursor_take n) E"
  unfolding only_moves_def
proof (intro allI impI)
  fix c assume c: "reading c"
  show "case cursor_take n c of (Inl e, c') \<Rightarrow> e \<in> insert (cur_truncated c) E
      | (Inr _, c') \<Rightarrow> (\<exists>k \<le> length (cursor_rest c). c' = skipped c k)"
  proof (cases "n \<le> length (cursor_rest c)")
    case True
    then show ?thesis using c by auto
  next
    case False
    then have "fst (cursor_take n c) = Inl (cur_truncated c)" using c by simp
    then show ?thesis by (auto split: prod.splits sum.splits)
  qed
qed

lemma only_moves_skip: "only_moves (cursor_skip n) E"
proof -
  have "case cursor_skip n c of (Inl e, c') \<Rightarrow> e \<in> insert (cur_truncated c) E
      | (Inr _, c') \<Rightarrow> (\<exists>k \<le> length (cursor_rest c). c' = skipped c k)" if c: "reading c" for c
  proof (cases "n \<le> length (cursor_rest c)")
    case True
    then show ?thesis using c by auto
  next
    case False
    then show ?thesis using c
      by (auto simp: cursor_skip_def cursor_advance_def bindE_def slice_get_def reading_def
          cursor_rest_def slice_from_def usize_checked_add_def split: option.splits)
  qed
  then show ?thesis by (simp add: only_moves_def)
qed

lemma only_moves_pure:
  "only_moves (retE a) E" "e \<in> E \<Longrightarrow> only_moves (failE e) E" "e \<in> E \<Longrightarrow> only_moves (ensureE e b) E"
  "(\<And>e. r = Inl e \<Longrightarrow> e \<in> E) \<Longrightarrow> only_moves (liftE r) E"
  by (auto simp: only_moves_def split: sum.splits intro!: exI [of _ 0])

lemma only_moves_read:
  "only_moves cursor_read_u8 E" "only_moves cursor_read_u16 E" "only_moves cursor_read_u32 E"
  "only_moves cursor_read_u64 E"
proof -
  have pick: "only_moves (\<lambda>c. case b of [] \<Rightarrow> (Inl (cur_truncated c), c) | x # _ \<Rightarrow> (Inr x, c)) E"
    and arr: "only_moves (\<lambda>c. if length b = n then (Inr b, c) else (Inl (cur_truncated c), c)) E"
    for b :: bytes and n
    by (auto simp: only_moves_def split: list.splits intro!: exI [of _ 0])
  show "only_moves cursor_read_u8 E" "only_moves cursor_read_u16 E" "only_moves cursor_read_u32 E"
    "only_moves cursor_read_u64 E"
    unfolding cursor_read_u8_def cursor_read_u16_def cursor_read_u32_def cursor_read_u64_def
      cursor_array_def
    by (intro only_moves_bind only_moves_take pick arr only_moves_pure)+
qed

lemma only_moves_skip_extensions: "only_moves (skip_extensions b) E"
  unfolding skip_extensions_def
  by (auto intro: only_moves_bind only_moves_read only_moves_skip only_moves_pure)

lemma mh_read_moves: "only_moves mh_read {UnsupportedVersion, MessageReserved}"
proof -
  have dst: "only_moves (mh_read_destination flags) {UnsupportedVersion, MessageReserved}" for flags
    by (auto simp: mh_read_destination_def Let_def
        intro: only_moves_bind only_moves_read only_moves_pure)
  have src: "only_moves (if b then bindE cursor_read_u64 (\<lambda>n. retE (Some n)) else retE None)
      {UnsupportedVersion, MessageReserved}" for b
    by (auto intro: only_moves_bind only_moves_read only_moves_pure)
  have st: "only_moves (liftE (session_type_from_bits s)) {UnsupportedVersion, MessageReserved}" for s
    by (rule only_moves_pure) (auto simp: session_type_from_bits_def split: if_splits)
  show ?thesis
    unfolding mh_read_def
    by (intro only_moves_bind only_moves_read only_moves_pure only_moves_skip_extensions dst src st)
      auto
qed

lemma decode_from_moves:
  assumes "only_moves m E" and "length buf \<le> USIZE_MAX"
  shows "case decode_from m buf of
      Inl e \<Rightarrow> e \<in> insert MessageTruncated E
    | Inr (h, rest) \<Rightarrow> (\<exists>n \<le> length buf. rest = drop n buf)"
proof -
  let ?c = "cursor_reader buf MessageTruncated"
  have c: "reading ?c" using assms(2) by simp
  obtain r c' where m: "m ?c = (r, c')" by (cases "m ?c")
  have "case m ?c of (Inl e, c') \<Rightarrow> e \<in> insert (cur_truncated ?c) E
      | (Inr _, c') \<Rightarrow> (\<exists>n \<le> length (cursor_rest ?c). c' = skipped ?c n)"
    using assms(1) [unfolded only_moves_def, THEN spec, THEN mp, OF c] .
  then show ?thesis
    using c m by (auto simp: decode_from_def split: sum.splits)
qed

section \<open>Properties\<close>

text \<open>the message header survives the wire.  Encoding into a buffer that is long enough
  writes exactly \<^verbatim>\<open>encoded_len\<close> octets and leaves the rest of the buffer alone; encoding into a
  shorter one is refused; and decoding those octets, with any payload behind them, gives back
  the header and the payload.\<close>

theorem message_header_roundtrip:
  assumes "length out \<le> USIZE_MAX" and "length (mh_bytes h @ payload) \<le> USIZE_MAX"
  shows "(if mh_encoded_len h \<le> length out
          then mh_encode h out = (Inr (mh_encoded_len h), mh_bytes h @ drop (mh_encoded_len h) out)
          else fst (mh_encode h out) = Inl BufferTooSmall)
       \<and> mh_decode (mh_bytes h @ payload) = Inr (h, payload)"
  using encode_into_emits [OF mh_write_emits assms(1), of h] mhc.dec_enc [OF TrueI assms(2)]
  by (auto simp: mh_encode_def length_mh_bytes)

theorem message_header_roundtrip_witness:
  "mh_decode (mh_bytes (mh_default\<lparr>mh_source := Some 7, mh_destination := ToGroup 9\<rparr>) @ [1, 2])
     = Inr (mh_default\<lparr>mh_source := Some 7, mh_destination := ToGroup 9\<rparr>, [1, 2])"
  using message_header_roundtrip
    [of "[]" "mh_default\<lparr>mh_source := Some 7, mh_destination := ToGroup 9\<rparr>" "[1, 2]"]
  by (simp add: USIZE_MAX_def length_mh_bytes mh_encoded_len_def)

text \<open>the decoder of the message header is total and never reads past its input: on any
  octets whatever it either returns one of its three documented errors or a header together
  with a suffix of the input.\<close>

theorem message_header_decode_total:
  assumes "length buf \<le> USIZE_MAX"
  shows "case mh_decode buf of
      Inl e \<Rightarrow> e \<in> {MessageTruncated, UnsupportedVersion, MessageReserved}
    | Inr (h, rest) \<Rightarrow> (\<exists>n \<le> length buf. rest = drop n buf)"
  unfolding mh_decode_def by (rule decode_from_moves [OF mh_read_moves assms])

theorem message_header_decode_total_witness:
  "case mh_decode [0, 1] of
      Inl e \<Rightarrow> e \<in> {MessageTruncated, UnsupportedVersion, MessageReserved}
    | Inr (h, rest) \<Rightarrow> (\<exists>n \<le> length [0, 1 :: u8]. rest = drop n [0, 1])"
  by (rule message_header_decode_total) (simp add: USIZE_MAX_def)

text \<open>a whole unsecured frame is unambiguous: a message header, a protocol header and a
  payload laid end to end are recovered exactly by the two decoders in turn, and two frames
  with the same octets are the same frame.\<close>

theorem frame_roundtrip:
  assumes "length (mh_bytes h @ ph_bytes p @ payload) \<le> USIZE_MAX"
  shows "bindR (mh_decode (mh_bytes h @ ph_bytes p @ payload)) (\<lambda>(h', r).
           bindR (ph_decode r) (\<lambda>(p', r'). Inr (h', p', r'))) = Inr (h, p, payload)
       \<and> (mh_bytes h @ ph_bytes p @ payload = mh_bytes h2 @ ph_bytes p2 @ payload2 \<longrightarrow>
            h = h2 \<and> p = p2 \<and> payload = payload2)"
proof -
  have "mh_decode (mh_bytes h @ ph_bytes p @ payload) = Inr (h, ph_bytes p @ payload)"
    using assms by (intro mhc.dec_enc) auto
  moreover have "ph_decode (ph_bytes p @ payload) = Inr (p, payload)"
    using assms by (intro phc.dec_enc) auto
  ultimately show ?thesis
    using frame.pair.enc_prefix_free [where a = "(h, p)" and b = "(h2, p2)" and r = payload and r' = payload2] assms
    by (auto simp: frame.enc_frame_def)
qed

theorem frame_roundtrip_witness:
  "bindR (mh_decode (mh_bytes mh_default @ ph_bytes (ph_default\<lparr>ph_acknowledged_counter := Some 5\<rparr>)
       @ [42])) (\<lambda>(h', r). bindR (ph_decode r) (\<lambda>(p', r'). Inr (h', p', r')))
   = Inr (mh_default, ph_default\<lparr>ph_acknowledged_counter := Some 5\<rparr>, [42])"
  using frame_roundtrip [of mh_default "ph_default\<lparr>ph_acknowledged_counter := Some 5\<rparr>" "[42]"]
  by (simp add: USIZE_MAX_def length_mh_bytes length_ph_bytes mh_encoded_len_def ph_encoded_len_def
      mh_default_def ph_default_def)

end
