(* ===== verification/Tlv_Types.thy ===== *)
theory Tlv_Types
  imports Bytes "HOL-Library.Product_Lexorder"
begin

text \<open>
  The vocabulary of Matter TLV (\<^verbatim>\<open>src/src/tlv/types.rs\<close>): field widths, element types, the
  tag forms and their control bits, and the little-endian reads and writes they are laid
  out with.  The lemmas show that control octets and tags survive encoding, that the width
  chosen for an integer holds it, and that the loop-by-loop reads and writes agree with the
  arithmetic of little-endian numbers.
\<close>

section \<open>Widths and element types\<close>

datatype Width = WOne | WTwo | WFour | WEight

fun width_octets :: "Width \<Rightarrow> nat" where
  "width_octets WOne = 1"
| "width_octets WTwo = 2"
| "width_octets WFour = 4"
| "width_octets WEight = 8"

fun width_bits :: "Width \<Rightarrow> u8" where
  "width_bits WOne = 0"
| "width_bits WTwo = 1"
| "width_bits WFour = 2"
| "width_bits WEight = 3"

definition width_from_bits :: "u8 \<Rightarrow> Width" where
  "width_from_bits bits =
     (let b = bits AND 3 in
      if b = 0 then WOne else if b = 1 then WTwo else if b = 2 then WFour else WEight)"

definition width_for_unsigned :: "u64 \<Rightarrow> Width" where
  "width_for_unsigned value =
     (if value \<le> 0xFF then WOne
      else if value \<le> 0xFFFF then WTwo
      else if value \<le> 0xFFFFFFFF then WFour
      else WEight)"

definition width_for_signed :: "i64 \<Rightarrow> Width" where
  "width_for_signed value =
     (if - 0x80 \<le> sint value \<and> sint value \<le> 0x7F then WOne
      else if - 0x8000 \<le> sint value \<and> sint value \<le> 0x7FFF then WTwo
      else if - 0x80000000 \<le> sint value \<and> sint value \<le> 0x7FFFFFFF then WFour
      else WEight)"

datatype ElementType =
    SignedInt Width | UnsignedInt Width | BoolElt bool | FloatElt | DoubleElt | Utf8Elt Width
  | OctetsElt Width | NullElt | StructureElt | ArrayElt | ListElt | EndOfContainerElt

definition element_type_from_bits :: "u8 \<Rightarrow> ElementType result" where
  "element_type_from_bits bits =
     (let t = bits AND 0x1F in
      if t \<le> 0x03 then Inr (SignedInt (width_from_bits t))
      else if t \<le> 0x07 then Inr (UnsignedInt (width_from_bits t))
      else if t = 0x08 then Inr (BoolElt False)
      else if t = 0x09 then Inr (BoolElt True)
      else if t = 0x0A then Inr FloatElt
      else if t = 0x0B then Inr DoubleElt
      else if t \<le> 0x0F then Inr (Utf8Elt (width_from_bits t))
      else if t \<le> 0x13 then Inr (OctetsElt (width_from_bits t))
      else if t = 0x14 then Inr NullElt
      else if t = 0x15 then Inr StructureElt
      else if t = 0x16 then Inr ArrayElt
      else if t = 0x17 then Inr ListElt
      else if t = 0x18 then Inr EndOfContainerElt
      else Inl TlvInvalidControl)"

fun element_type_bits :: "ElementType \<Rightarrow> u8" where
  "element_type_bits (SignedInt w) = width_bits w"
| "element_type_bits (UnsignedInt w) = 0x04 OR width_bits w"
| "element_type_bits (BoolElt b) = (if b then 0x09 else 0x08)"
| "element_type_bits FloatElt = 0x0A"
| "element_type_bits DoubleElt = 0x0B"
| "element_type_bits (Utf8Elt w) = 0x0C OR width_bits w"
| "element_type_bits (OctetsElt w) = 0x10 OR width_bits w"
| "element_type_bits NullElt = 0x14"
| "element_type_bits StructureElt = 0x15"
| "element_type_bits ArrayElt = 0x16"
| "element_type_bits ListElt = 0x17"
| "element_type_bits EndOfContainerElt = 0x18"

datatype ContainerKind = Structure | Array | List

fun container_element_type :: "ContainerKind \<Rightarrow> ElementType" where
  "container_element_type Structure = StructureElt"
| "container_element_type Array = ArrayElt"
| "container_element_type List = ListElt"

section \<open>Octet-level reads and writes\<close>

text \<open>\<^verbatim>\<open>out.get_mut(a..b)\<close> and what a method does to that sub-slice.\<close>

definition on_slice :: "nat \<Rightarrow> nat \<Rightarrow> (bytes, 'a) mutator \<Rightarrow> (bytes, 'a) mutator" where
  "on_slice a b m out =
     (case slice_get out a b of
        None \<Rightarrow> (Inl BufferTooSmall, out)
      | Some sl \<Rightarrow> (let (r, sl') = m sl in (r, overwrite out a sl')))"

text \<open>The copy loop: one octet of the value for each slot, failing when the value runs out.\<close>

fun write_le_loop :: "bytes \<Rightarrow> (bytes, unit) mutator" where
  "write_le_loop vs [] = (Inr (), [])"
| "write_le_loop [] (d # ds) = (Inl BufferTooSmall, d # ds)"
| "write_le_loop (v # vs) (d # ds) = (let (r, ds') = write_le_loop vs ds in (r, v # ds'))"

definition write_le :: "u64 \<Rightarrow> nat \<Rightarrow> (bytes, unit) mutator" where
  "write_le value n = on_slice 0 n (write_le_loop (u64_bytes value))"

text \<open>The accumulation loop of \<^verbatim>\<open>read_le_u64\<close>: octet \<open>i\<close> is or-ed in at bit \<open>8 * i\<close>.\<close>

fun read_le_loop :: "nat \<Rightarrow> bytes \<Rightarrow> u64 \<Rightarrow> u64" where
  "read_le_loop i [] out = out"
| "read_le_loop i (b # bs) out = read_le_loop (Suc i) bs (out OR push_bit (8 * i) (ucast b))"

definition read_le_u64 :: "bytes \<Rightarrow> u64 result" where
  "read_le_u64 src = (if length src > 8 then Inl TlvOutOfRange else Inr (read_le_loop 0 src 0))"

definition read_le_u32 :: "bytes \<Rightarrow> u32 result" where
  "read_le_u32 src =
     bindR (read_le_u64 src) (\<lambda>v. if v \<le> 0xFFFFFFFF then Inr (ucast v) else Inl TlvOutOfRange)"

definition read_le_i64 :: "bytes \<Rightarrow> i64 result" where
  "read_le_i64 src =
     bindR (read_le_u64 src) (\<lambda>raw.
       let bits = 8 * length src in
       if bits = 0 \<or> bits \<ge> 64 then Inr raw
       else Inr (signed_drop_bit (64 - bits) (push_bit (64 - bits) raw)))"

section \<open>Tags\<close>

datatype TagControl =
    CtlAnonymous | CtlContextSpecific | CtlCommonProfile2 | CtlCommonProfile4
  | CtlImplicitProfile2 | CtlImplicitProfile4 | CtlFullyQualified6 | CtlFullyQualified8

definition tag_control_from_bits :: "u8 \<Rightarrow> TagControl" where
  "tag_control_from_bits bits =
     (let b = drop_bit 5 bits in
      if b = 0 then CtlAnonymous
      else if b = 1 then CtlContextSpecific
      else if b = 2 then CtlCommonProfile2
      else if b = 3 then CtlCommonProfile4
      else if b = 4 then CtlImplicitProfile2
      else if b = 5 then CtlImplicitProfile4
      else if b = 6 then CtlFullyQualified6
      else CtlFullyQualified8)"

fun tag_control_octets :: "TagControl \<Rightarrow> nat" where
  "tag_control_octets CtlAnonymous = 0"
| "tag_control_octets CtlContextSpecific = 1"
| "tag_control_octets CtlCommonProfile2 = 2"
| "tag_control_octets CtlImplicitProfile2 = 2"
| "tag_control_octets CtlCommonProfile4 = 4"
| "tag_control_octets CtlImplicitProfile4 = 4"
| "tag_control_octets CtlFullyQualified6 = 6"
| "tag_control_octets CtlFullyQualified8 = 8"

fun tag_control_value :: "TagControl \<Rightarrow> u8" where
  "tag_control_value CtlAnonymous = 0"
| "tag_control_value CtlContextSpecific = 1"
| "tag_control_value CtlCommonProfile2 = 2"
| "tag_control_value CtlCommonProfile4 = 3"
| "tag_control_value CtlImplicitProfile2 = 4"
| "tag_control_value CtlImplicitProfile4 = 5"
| "tag_control_value CtlFullyQualified6 = 6"
| "tag_control_value CtlFullyQualified8 = 7"

datatype Tag =
    Anonymous | Context u8 | Common u32 | Implicit u32 | FullyQualified u16 u16 u32

definition tag_is_anonymous :: "Tag \<Rightarrow> bool" where
  "tag_is_anonymous t = (case t of Anonymous \<Rightarrow> True | _ \<Rightarrow> False)"

definition tag_context :: "Tag \<Rightarrow> u8 option" where
  "tag_context t = (case t of Context n \<Rightarrow> Some n | _ \<Rightarrow> None)"

fun tag_control :: "Tag \<Rightarrow> TagControl" where
  "tag_control Anonymous = CtlAnonymous"
| "tag_control (Context _) = CtlContextSpecific"
| "tag_control (Common n) = (if n < 0x10000 then CtlCommonProfile2 else CtlCommonProfile4)"
| "tag_control (Implicit n) = (if n < 0x10000 then CtlImplicitProfile2 else CtlImplicitProfile4)"
| "tag_control (FullyQualified v p n) =
     (if n < 0x10000 then CtlFullyQualified6 else CtlFullyQualified8)"

definition tag_encoded_len :: "Tag \<Rightarrow> nat" where
  "tag_encoded_len t = tag_control_octets (tag_control t)"

definition tag_control_bits :: "Tag \<Rightarrow> u8" where
  "tag_control_bits t = push_bit 5 (tag_control_value (tag_control t))"

definition tag_encode :: "Tag \<Rightarrow> (bytes, nat) mutator" where
  "tag_encode t =
     (let n = tag_encoded_len t in
      bindE (on_slice 0 n
        (case t of
           Anonymous \<Rightarrow> retE ()
         | Context b \<Rightarrow> on_slice 0 1 (\<lambda>_. (Inr (), [b]))
         | Common number \<Rightarrow> write_le (ucast number) n
         | Implicit number \<Rightarrow> write_le (ucast number) n
         | FullyQualified vendor profile number \<Rightarrow>
             bindE (on_slice 0 4
               (bindE (write_le (ucast vendor) 2) (\<lambda>_. on_slice 2 4 (write_le (ucast profile) 2))))
             (\<lambda>_ dst. on_slice 4 (length dst) (write_le (ucast number) (n - 4)) dst)))
      (\<lambda>_. retE n))"

definition slice_of :: "bytes \<Rightarrow> nat \<Rightarrow> nat \<Rightarrow> bytes result" where
  "slice_of bs a b = ok_or TlvTruncated (slice_get bs a b)"

definition tag_decode :: "u8 \<Rightarrow> bytes \<Rightarrow> (Tag \<times> nat) result" where
  "tag_decode control_bits buf =
     (let control = tag_control_from_bits control_bits; n = tag_control_octets control in
      bindR (slice_of buf 0 n) (\<lambda>src.
      bindR (case control of
          CtlAnonymous \<Rightarrow> Inr Anonymous
        | CtlContextSpecific \<Rightarrow> (case src of [] \<Rightarrow> Inl TlvTruncated | b # _ \<Rightarrow> Inr (Context b))
        | CtlCommonProfile2 \<Rightarrow> bindR (read_le_u32 src) (\<lambda>v. Inr (Common v))
        | CtlCommonProfile4 \<Rightarrow> bindR (read_le_u32 src) (\<lambda>v. Inr (Common v))
        | CtlImplicitProfile2 \<Rightarrow> bindR (read_le_u32 src) (\<lambda>v. Inr (Implicit v))
        | CtlImplicitProfile4 \<Rightarrow> bindR (read_le_u32 src) (\<lambda>v. Inr (Implicit v))
        | _ \<Rightarrow>
            bindR (slice_of src 0 2) (\<lambda>vendor.
            bindR (slice_of src 2 4) (\<lambda>profile.
            bindR (ok_or TlvTruncated (slice_from src 4)) (\<lambda>number.
            bindR (read_le_u32 vendor) (\<lambda>v.
            bindR (read_le_u32 profile) (\<lambda>p.
            bindR (read_le_u32 number) (\<lambda>k.
              Inr (FullyQualified (ucast v) (ucast p) k)))))))) (\<lambda>tag.
        Inr (tag, n))))"

fun tag_key :: "Tag \<Rightarrow> u8 \<times> u16 \<times> u16 \<times> u32" where
  "tag_key Anonymous = (0, 0, 0, 0)"
| "tag_key (Context n) = (1, 0, 0, ucast n)"
| "tag_key (Common n) = (2, 0, 0, n)"
| "tag_key (Implicit n) = (3, 0, 0, n)"
| "tag_key (FullyQualified v p n) = (4, v, p, n)"

datatype Ordering = Less | Equal | Greater

definition tag_canonical_cmp :: "Tag \<Rightarrow> Tag \<Rightarrow> Ordering" where
  "tag_canonical_cmp a b =
     (if tag_key a < tag_key b then Less else if tag_key a = tag_key b then Equal else Greater)"

section \<open>Control octets\<close>

lemma width_from_width_bits:
  "width_from_bits (width_bits w) = w" "width_from_bits (4 OR width_bits w) = w"
  "width_from_bits (12 OR width_bits w) = w" "width_from_bits (16 OR width_bits w) = w"
  by (cases w; simp add: width_from_bits_def)+

lemma element_type_bits_roundtrip [simp]:
  "element_type_from_bits (element_type_bits t) = Inr t"
proof (cases t)
  case (SignedInt w) then show ?thesis by (cases w) (simp_all add: element_type_from_bits_def width_from_bits_def)
next
  case (UnsignedInt w) then show ?thesis by (cases w) (simp_all add: element_type_from_bits_def width_from_bits_def)
next
  case (Utf8Elt w) then show ?thesis by (cases w) (simp_all add: element_type_from_bits_def width_from_bits_def)
next
  case (OctetsElt w) then show ?thesis by (cases w) (simp_all add: element_type_from_bits_def width_from_bits_def)
qed (auto simp: element_type_from_bits_def width_from_bits_def)

lemma element_type_bits_low:
  "element_type_bits t AND 0x1F = element_type_bits t \<and> drop_bit 5 (element_type_bits t) = 0"
proof (cases t)
  case (SignedInt w) then show ?thesis by (cases w) simp_all
next
  case (UnsignedInt w) then show ?thesis by (cases w) simp_all
next
  case (Utf8Elt w) then show ?thesis by (cases w) simp_all
next
  case (OctetsElt w) then show ?thesis by (cases w) simp_all
qed auto

text \<open>A control octet is the tag form in the top three bits and the element type below.\<close>

lemma control_octet [simp]:
  "(push_bit 5 (tag_control_value c) OR element_type_bits t) AND 0x1F = element_type_bits t"
  "tag_control_from_bits (push_bit 5 (tag_control_value c) OR element_type_bits t) = c"
proof -
  note low = element_type_bits_low [of t]
  show "(push_bit 5 (tag_control_value c) OR element_type_bits t) AND 0x1F = element_type_bits t"
    using low by (cases c) (simp_all add: bit.conj_disj_distrib2)
  show "tag_control_from_bits (push_bit 5 (tag_control_value c) OR element_type_bits t) = c"
    using low by (cases c) (simp_all add: tag_control_from_bits_def drop_bit_or)
qed

lemma element_type_from_bits_masked:
  "element_type_from_bits (x AND 0x1F) = element_type_from_bits x"
  by (simp add: element_type_from_bits_def and.assoc)

lemma element_type_of_control [simp]:
  "element_type_from_bits (push_bit 5 (tag_control_value c) OR element_type_bits t) = Inr t"
  using element_type_from_bits_masked [of "push_bit 5 (tag_control_value c) OR element_type_bits t"]
  by (simp only: control_octet element_type_bits_roundtrip)

lemma control_of_tag [simp]:
  "tag_control_from_bits (tag_control_bits t OR element_type_bits e) = tag_control t"
  "element_type_from_bits (tag_control_bits t OR element_type_bits e) = Inr e"
  "(tag_control_bits t OR element_type_bits e) AND 0x1F = element_type_bits e"
  by (simp_all only: tag_control_bits_def control_octet element_type_of_control)

section \<open>Little-endian reads and writes\<close>

lemma write_le_loop_ok:
  "length ds \<le> length vs \<Longrightarrow> write_le_loop vs ds = (Inr (), take (length ds) vs)"
  by (induction vs ds rule: write_le_loop.induct) auto

lemma on_slice_ok:
  "a \<le> b \<Longrightarrow> b \<le> length out \<Longrightarrow> m (take (b - a) (drop a out)) = (r, sl) \<Longrightarrow>
   on_slice a b m out = (r, overwrite out a sl)"
  by (simp add: on_slice_def slice_get_def)

lemma write_le_ok:
  "n \<le> 8 \<Longrightarrow> n \<le> length out \<Longrightarrow> write_le v n out = (Inr (), to_le n (unat v) @ drop n out)"
  unfolding write_le_def
  by (subst on_slice_ok [OF _ _ write_le_loop_ok])
    (simp_all add: u64_bytes_def take_to_le min_def overwrite_def)

lemma bit_from_le_Cons:
  "bit (from_le (b # bs)) n \<longleftrightarrow> bit b n \<or> (8 \<le> n \<and> bit (from_le bs) (n - 8))"
proof -
  have "unat b + push_bit 8 (from_le bs) = unat b OR push_bit 8 (from_le bs)"
    by (rule disjunctive_add) (auto simp: bit_simps dest: bit_imp_le_length)
  then have "from_le (b # bs) = unat b OR push_bit 8 (from_le bs)"
    by (simp add: push_bit_eq_mult mult.commute)
  then show ?thesis by (auto simp: bit_simps dest: bit_imp_le_length)
qed

lemma bit_read_le_loop:
  "bit (read_le_loop i bs out) n \<longleftrightarrow>
     bit out n \<or> (8 * i \<le> n \<and> n < 64 \<and> bit (from_le bs) (n - 8 * i))"
proof (induction i bs out rule: read_le_loop.induct)
  case (1 i out)
  then show ?case by simp
next
  case (2 i b bs out)
  have "bit (ucast b :: u64) (n - 8 * i) \<longleftrightarrow> bit b (n - 8 * i)" if "n < 64"
    using that by (auto simp: bit_simps dest: bit_imp_le_length)
  then show ?case
    unfolding read_le_loop.simps 2 bit_from_le_Cons
    by (auto simp: bit_or_iff bit_push_bit_iff add.commute)
qed

lemma read_le_u64_eq: "length src \<le> 8 \<Longrightarrow> read_le_u64 src = Inr (word_of_nat (from_le src))"
  unfolding read_le_u64_def
  by (auto intro!: bit_word_eqI simp: bit_read_le_loop bit_word_of_nat_iff)

lemma read_le_to_le:
  "n \<le> 8 \<Longrightarrow> read_le_u64 (to_le n (unat v)) = Inr (take_bit (8 * n) (v :: u64))"
proof -
  assume n: "n \<le> 8"
  have "unat v mod 256 ^ n = take_bit (8 * n) (unat v)"
    by (simp add: take_bit_eq_mod power_mult)
  then have "(word_of_nat (from_le (to_le n (unat v))) :: u64) = take_bit (8 * n) v"
    by (intro bit_word_eqI) (simp add: from_le_to_le bit_word_of_nat_iff bit_simps)
  then show ?thesis using n by (simp add: read_le_u64_eq)
qed

lemma width_unsigned_holds:
  "take_bit (8 * width_octets (width_for_unsigned v)) v = v"
proof -
  have "unat v < 2 ^ (8 * width_octets (width_for_unsigned v))"
    using unat_lt_len [of v] by (auto simp: width_for_unsigned_def word_le_nat_alt)
  then show ?thesis
    by (intro word_unat_eq_iff [THEN iffD2]) (simp add: unsigned_take_bit_eq take_bit_nat_eq_self)
qed

lemma read_le_unsigned [simp]:
  "read_le_u64 (to_le (width_octets (width_for_unsigned v)) (unat v)) = Inr v"
  using width_unsigned_holds [of v]
  by (subst read_le_to_le) (simp_all add: width_for_unsigned_def)

lemma sign_extension:
  assumes "0 < n" and "n < 8" and "- (2 ^ (8 * n - 1)) \<le> sint v" and "sint v < 2 ^ (8 * n - 1)"
  shows "signed_drop_bit (64 - 8 * n) (push_bit (64 - 8 * n) (take_bit (8 * n) v)) = (v :: i64)"
proof (rule bit_word_eqI)
  fix k assume k: "k < LENGTH(64)"
  have "signed_take_bit (8 * n - 1) (sint v) = sint v"
    using assms(3,4) by (rule signed_take_bit_int_eq_self)
  then have sgn: "bit (sint v) m \<longleftrightarrow> bit (sint v) (min m (8 * n - 1))" for m
    by (metis (no_types) bit_signed_take_bit_iff min.commute possible_bit_int)
  have ext: "bit v m \<longleftrightarrow> bit v (8 * n - 1)" if "8 * n - 1 \<le> m" "m < 64" for m
  proof -
    have "bit (sint v) j \<longleftrightarrow> bit v (min j 63)" for j by (simp add: bit_signed_iff min.commute)
    moreover have "min m 63 = m" and "min (min m (8 * n - 1)) 63 = 8 * n - 1"
      using that assms(1,2) by auto
    ultimately show ?thesis using sgn [of m] by (simp only:)
  qed
  let ?s = "64 - 8 * n" and ?x = "push_bit (64 - 8 * n) (take_bit (8 * n) v)"
  have s: "64 - ?s = 8 * n" "?s \<le> 63" "63 - ?s = 8 * n - 1" using assms(1,2) by auto
  have x: "bit ?x j \<longleftrightarrow> ?s \<le> j \<and> j < 64 \<and> j - ?s < 8 * n \<and> bit v (j - ?s)" for j
    by (auto simp: bit_push_bit_iff bit_take_bit_iff)
  show "bit (signed_drop_bit ?s ?x) k \<longleftrightarrow> bit v k"
  proof (cases "8 * n \<le> k")
    case True
    then have "bit (signed_drop_bit ?s ?x) k \<longleftrightarrow> bit ?x 63"
      using k s by (simp add: bit_signed_drop_bit_iff)
    also have "\<dots> \<longleftrightarrow> bit v (8 * n - 1)" unfolding x using s assms(1) by auto
    also have "\<dots> \<longleftrightarrow> bit v k" using ext [of k] True k by simp
    finally show ?thesis .
  next
    case False
    then have "bit (signed_drop_bit ?s ?x) k \<longleftrightarrow> bit ?x (?s + k)"
      using s by (simp add: bit_signed_drop_bit_iff)
    then show ?thesis unfolding x using False s by auto
  qed
qed

lemma read_le_signed [simp]:
  "read_le_i64 (to_le (width_octets (width_for_signed v)) (unat v)) = Inr v"
proof (cases "width_for_signed v = WEight")
  case True
  moreover have "take_bit 64 v = v" by (intro bit_word_eqI) (simp add: bit_simps)
  ultimately show ?thesis by (simp add: read_le_i64_def read_le_to_le)
next
  case False
  let ?n = "width_octets (width_for_signed v)"
  have n: "0 < ?n" "?n < 8" using False by (cases "width_for_signed v"; simp)+
  have "- (2 ^ (8 * ?n - 1)) \<le> sint v \<and> sint v < 2 ^ (8 * ?n - 1)"
    using False by (auto simp: width_for_signed_def split: if_splits)
  then show ?thesis
    using n sign_extension [of ?n v] by (simp add: read_le_i64_def read_le_to_le Let_def)
qed

lemma unat_ucast_word:
  "unat (ucast (x :: u16) :: u64) = unat x" "unat (ucast (y :: u32) :: u64) = unat y"
  using unat_lt_len [of x] unat_lt_len [of y]
  by (simp_all add: unsigned_ucast_eq take_bit_nat_eq_self)

lemma read_le_u32_ok:
  assumes "n \<le> 8" and "x < 256 ^ n" and "x < 2 ^ 32"
  shows "read_le_u32 (to_le n x) = Inr (word_of_nat x)"
proof -
  have "unat (word_of_nat x :: u64) = x" using assms(3) by (intro unat_of_nat_small) simp
  moreover have "(ucast (word_of_nat x :: u64) :: u32) = word_of_nat x"
    by (intro bit_word_eqI) (simp add: bit_simps bit_word_of_nat_iff)
  ultimately show ?thesis
    using assms by (simp add: read_le_u32_def read_le_u64_eq from_le_to_le word_le_nat_alt)
qed

section \<open>Tags on the wire\<close>

fun tag_bytes :: "Tag \<Rightarrow> bytes" where
  "tag_bytes Anonymous = []"
| "tag_bytes (Context b) = [b]"
| "tag_bytes (Common n) = to_le (tag_encoded_len (Common n)) (unat n)"
| "tag_bytes (Implicit n) = to_le (tag_encoded_len (Implicit n)) (unat n)"
| "tag_bytes (FullyQualified v p n) =
     to_le 2 (unat v) @ to_le 2 (unat p) @ to_le (tag_encoded_len (FullyQualified v p n) - 4) (unat n)"

lemma length_tag_bytes [simp]: "length (tag_bytes t) = tag_encoded_len t"
  by (cases t) (auto simp: tag_encoded_len_def)

lemma tag_encoded_len_le: "tag_encoded_len t \<le> 8"
  by (cases t) (auto simp: tag_encoded_len_def)

lemma fq_write:
  assumes "length dst = n" and "n = 6 \<or> n = 8"
  shows "bindE (on_slice 0 4
       (bindE (write_le (ucast (v :: u16)) 2) (\<lambda>_. on_slice 2 4 (write_le (ucast (p :: u16)) 2))))
     (\<lambda>_ dst. on_slice 4 (length dst) (write_le (ucast (k :: u32)) (n - 4)) dst) dst
   = (Inr (), to_le 2 (unat v) @ to_le 2 (unat p) @ to_le (n - 4) (unat k))"
proof -
  have prof: "on_slice 2 4 (write_le (ucast p) 2) (to_le 2 (unat v) @ drop 2 (take 4 dst))
      = (Inr (), to_le 2 (unat v) @ to_le 2 (unat p))"
    using assms by (subst on_slice_ok [OF _ _ write_le_ok])
      (auto simp: overwrite_def unat_ucast_word min_def)
  have head: "on_slice 0 4
       (bindE (write_le (ucast v) 2) (\<lambda>_. on_slice 2 4 (write_le (ucast p) 2))) dst
      = (Inr (), to_le 2 (unat v) @ to_le 2 (unat p) @ drop 4 dst)"
  proof -
    have "bindE (write_le (ucast v) 2) (\<lambda>_. on_slice 2 4 (write_le (ucast p) 2)) (take 4 dst)
        = (Inr (), to_le 2 (unat v) @ to_le 2 (unat p))"
    proof -
      have "write_le (ucast v) 2 (take 4 dst) = (Inr (), to_le 2 (unat v) @ drop 2 (take 4 dst))"
        using assms by (subst write_le_ok) (auto simp: unat_ucast_word)
      then show ?thesis using prof by simp
    qed
    then show ?thesis using assms by (subst on_slice_ok) (auto simp: overwrite_def)
  qed
  let ?d = "to_le 2 (unat v) @ to_le 2 (unat p) @ drop 4 dst"
  have "on_slice 4 (length ?d) (write_le (ucast k) (n - 4)) ?d
      = (Inr (), to_le 2 (unat v) @ to_le 2 (unat p) @ to_le (n - 4) (unat k))"
    using assms by (subst on_slice_ok [OF _ _ write_le_ok])
      (auto simp: overwrite_def unat_ucast_word)
  then show ?thesis using head by simp
qed

lemma tag_encode_ok:
  assumes "tag_encoded_len t \<le> length out"
  shows "tag_encode t out = (Inr (tag_encoded_len t), tag_bytes t @ drop (tag_encoded_len t) out)"
proof -
  let ?n = "tag_encoded_len t" and ?dst = "take (tag_encoded_len t) out"
  have "(case t of Anonymous \<Rightarrow> retE ()
      | Context b \<Rightarrow> on_slice 0 1 (\<lambda>_. (Inr (), [b]))
      | Common number \<Rightarrow> write_le (ucast number) ?n
      | Implicit number \<Rightarrow> write_le (ucast number) ?n
      | FullyQualified vendor profile number \<Rightarrow>
          bindE (on_slice 0 4
            (bindE (write_le (ucast vendor) 2) (\<lambda>_. on_slice 2 4 (write_le (ucast profile) 2))))
          (\<lambda>_ dst. on_slice 4 (length dst) (write_le (ucast number) (?n - 4)) dst)) ?dst
      = (Inr (), tag_bytes t)"
  proof (cases t)
    case (Context b)
    then show ?thesis using assms
      by (simp add: on_slice_def slice_get_def overwrite_def tag_encoded_len_def)
  next
    case (FullyQualified v p k)
    have n: "?n = 6 \<or> ?n = 8" by (simp add: FullyQualified tag_encoded_len_def)
    have l: "length ?dst = ?n" using assms by simp
    show ?thesis unfolding FullyQualified
      using fq_write [OF l n, of v p k] by (simp only: Tag.case tag_bytes.simps FullyQualified)
  qed (use assms tag_encoded_len_le [of t] in \<open>auto simp: write_le_ok unat_ucast_word tag_encoded_len_def\<close>)
  then show ?thesis
    using assms by (simp add: tag_encode_def Let_def on_slice_ok overwrite_def bindE_def)
qed

lemma tag_decode_ok:
  "tag_decode (tag_control_bits t OR element_type_bits e) (tag_bytes t @ rest)
     = Inr (t, tag_encoded_len t)"
proof (cases t)
  case (Common n)
  have "unat n < 2 ^ 32" using unat_lt_len [of n] by simp
  then show ?thesis
    by (auto simp: tag_decode_def Common Let_def slice_of_def slice_get_def
        tag_encoded_len_def read_le_u32_ok word_less_nat_alt)
next
  case (Implicit n)
  have "unat n < 2 ^ 32" using unat_lt_len [of n] by simp
  then show ?thesis
    by (auto simp: tag_decode_def Implicit Let_def slice_of_def slice_get_def
        tag_encoded_len_def read_le_u32_ok word_less_nat_alt)
next
  case (FullyQualified v p n)
  have b: "unat n < 2 ^ 32" "unat v < 2 ^ 16" "unat p < 2 ^ 16"
    using unat_lt_len [of n] unat_lt_len [of v] unat_lt_len [of p] by simp_all
  have c: "(ucast (ucast v :: u32) :: u16) = v" "(ucast (ucast p :: u32) :: u16) = p"
    by (intro bit_word_eqI; simp add: bit_simps)+
  show ?thesis
    using b by (auto simp: tag_decode_def FullyQualified Let_def slice_of_def
        slice_get_def slice_from_def tag_encoded_len_def read_le_u32_ok word_less_nat_alt c)
qed (auto simp: tag_decode_def Let_def slice_of_def slice_get_def tag_encoded_len_def)

section \<open>The canonical order of tags\<close>

lemma tag_key_inj: "tag_key a = tag_key b \<longleftrightarrow> a = b"
proof -
  have "(ucast (ucast x :: u32) :: u8) = x" for x :: u8
    by (intro bit_word_eqI) (simp add: bit_simps)
  then have "(ucast (x :: u8) :: u32) = ucast y \<Longrightarrow> x = y" for x y by metis
  then show ?thesis by (cases a; cases b) auto
qed

instantiation Tag :: linorder
begin

definition less_eq_Tag :: "Tag \<Rightarrow> Tag \<Rightarrow> bool" where
  "less_eq_Tag a b \<longleftrightarrow> tag_canonical_cmp a b \<noteq> Greater"

definition less_Tag :: "Tag \<Rightarrow> Tag \<Rightarrow> bool" where
  "less_Tag a b \<longleftrightarrow> tag_canonical_cmp a b = Less"

lemma le_Tag_key: "a \<le> b \<longleftrightarrow> tag_key a \<le> tag_key b" and lt_Tag_key: "a < b \<longleftrightarrow> tag_key a < tag_key b"
  by (auto simp: less_eq_Tag_def less_Tag_def tag_canonical_cmp_def)

instance
proof
  fix x y z :: Tag
  show "x < y \<longleftrightarrow> x \<le> y \<and> \<not> y \<le> x" by (auto simp: le_Tag_key lt_Tag_key)
  show "x \<le> x" by (simp add: le_Tag_key)
  show "x \<le> y \<Longrightarrow> y \<le> z \<Longrightarrow> x \<le> z" by (auto simp: le_Tag_key)
  show "x \<le> y \<Longrightarrow> y \<le> x \<Longrightarrow> x = y" by (auto simp: le_Tag_key tag_key_inj [symmetric])
  show "x \<le> y \<or> y \<le> x" by (auto simp: le_Tag_key)
qed

end

end
