(* ===== verification/Tlv_Reader.thy ===== *)
theory Tlv_Reader
  imports Tlv_Types
begin

text \<open>
  The pull reader of \<^verbatim>\<open>src/src/tlv/reader.rs\<close>: a position in a buffer, a stack of the
  containers that are open, and the flags that decide where a document ends.  Floating
  point values are carried as their bit patterns (the code only moves \<^verbatim>\<open>to_bits\<close> and
  \<^verbatim>\<open>from_bits\<close>), strings as their octets, which \<open>from_utf8\<close> checks.

  Shown here: every call keeps the position inside the buffer and the depth inside the
  stack, a returned element consumes at least one octet (so that the loops over elements
  end), and the octets of one element are read back as that element.
\<close>

definition MAX_DEPTH :: nat where "MAX_DEPTH = 16"

datatype Value =
    Signed i64 | Unsigned u64 | Bool bool | Float u32 | Double u64 | Utf8 bytes | Octets bytes
  | Null | Container ContainerKind | EndOfContainer

record Element =
  el_tag :: Tag
  el_value :: Value

fun value_container :: "Value \<Rightarrow> ContainerKind option" where
  "value_container (Container k) = Some k"
| "value_container _ = None"

definition value_is_null :: "Value \<Rightarrow> bool" where
  "value_is_null v = (case v of Null \<Rightarrow> True | _ \<Rightarrow> False)"

definition element_unsigned :: "Element \<Rightarrow> u64 result" where
  "element_unsigned e = (case el_value e of Unsigned v \<Rightarrow> Inr v | _ \<Rightarrow> Inl TlvWrongType)"

definition element_signed :: "Element \<Rightarrow> i64 result" where
  "element_signed e = (case el_value e of Signed v \<Rightarrow> Inr v | _ \<Rightarrow> Inl TlvWrongType)"

definition element_bool :: "Element \<Rightarrow> bool result" where
  "element_bool e = (case el_value e of Bool v \<Rightarrow> Inr v | _ \<Rightarrow> Inl TlvWrongType)"

definition element_utf8 :: "Element \<Rightarrow> bytes result" where
  "element_utf8 e = (case el_value e of Utf8 v \<Rightarrow> Inr v | _ \<Rightarrow> Inl TlvWrongType)"

definition element_octets :: "Element \<Rightarrow> bytes result" where
  "element_octets e = (case el_value e of Octets v \<Rightarrow> Inr v | _ \<Rightarrow> Inl TlvWrongType)"

text \<open>\<^verbatim>\<open>core::str::from_utf8\<close>: the well-formed byte sequences of the Unicode standard.\<close>

definition cont_in :: "u8 \<Rightarrow> u8 \<Rightarrow> u8 \<Rightarrow> bool" where
  "cont_in lo hi b \<longleftrightarrow> lo \<le> b \<and> b \<le> hi"

fun from_utf8 :: "bytes \<Rightarrow> bool" where
  "from_utf8 [] = True"
| "from_utf8 (a # bs) =
     (if a \<le> 0x7F then from_utf8 bs
      else if cont_in 0xC2 0xDF a then
        (case bs of b # rest \<Rightarrow> cont_in 0x80 0xBF b \<and> from_utf8 rest | _ \<Rightarrow> False)
      else if cont_in 0xE0 0xEF a then
        (case bs of b # c # rest \<Rightarrow>
           (if a = 0xE0 then cont_in 0xA0 0xBF b
            else if a = 0xED then cont_in 0x80 0x9F b
            else cont_in 0x80 0xBF b) \<and> cont_in 0x80 0xBF c \<and> from_utf8 rest
         | _ \<Rightarrow> False)
      else if cont_in 0xF0 0xF4 a then
        (case bs of b # c # d # rest \<Rightarrow>
           (if a = 0xF0 then cont_in 0x90 0xBF b
            else if a = 0xF4 then cont_in 0x80 0x8F b
            else cont_in 0x80 0xBF b) \<and> cont_in 0x80 0xBF c \<and> cont_in 0x80 0xBF d \<and> from_utf8 rest
         | _ \<Rightarrow> False)
      else False)"

record TlvReader =
  rd_buf :: bytes
  rd_pos :: nat
  rd_stack :: "ContainerKind list"
  rd_depth :: nat
  rd_top_level_done :: bool
  rd_many :: bool
  rd_started_inside :: bool

definition reader_new :: "bytes \<Rightarrow> TlvReader" where
  "reader_new buf = \<lparr>rd_buf = buf, rd_pos = 0, rd_stack = replicate MAX_DEPTH Structure,
     rd_depth = 0, rd_top_level_done = False, rd_many = False, rd_started_inside = False\<rparr>"

definition reader_new_in :: "bytes \<Rightarrow> ContainerKind \<Rightarrow> TlvReader" where
  "reader_new_in buf k = \<lparr>rd_buf = buf, rd_pos = 0, rd_stack = replicate MAX_DEPTH k,
     rd_depth = 1, rd_top_level_done = False, rd_many = False, rd_started_inside = True\<rparr>"

definition reader_new_members :: "bytes \<Rightarrow> ContainerKind \<Rightarrow> TlvReader" where
  "reader_new_members buf k = \<lparr>rd_buf = buf, rd_pos = 0, rd_stack = replicate MAX_DEPTH k,
     rd_depth = 1, rd_top_level_done = False, rd_many = True, rd_started_inside = True\<rparr>"

definition rd_remaining :: "TlvReader \<Rightarrow> bytes" where
  "rd_remaining r = (case slice_from (rd_buf r) (rd_pos r) of None \<Rightarrow> [] | Some s \<Rightarrow> s)"

definition rd_is_empty :: "TlvReader \<Rightarrow> bool" where
  "rd_is_empty r \<longleftrightarrow> rd_pos r \<ge> length (rd_buf r)"

definition rd_take :: "nat \<Rightarrow> (TlvReader, bytes) mutator" where
  "rd_take n r =
     (case usize_checked_add (rd_pos r) n of
        None \<Rightarrow> (Inl TlvTruncated, r)
      | Some e \<Rightarrow>
          (case slice_get (rd_buf r) (rd_pos r) e of
             None \<Rightarrow> (Inl TlvTruncated, r)
           | Some s \<Rightarrow> (Inr s, r\<lparr>rd_pos := e\<rparr>)))"

definition rd_base_depth :: "TlvReader \<Rightarrow> nat" where
  "rd_base_depth r = (if rd_started_inside r then 1 else 0)"

definition current_container :: "nat \<Rightarrow> ContainerKind list \<Rightarrow> ContainerKind option" where
  "current_container depth stack =
     (case checked_sub depth 1 of
        None \<Rightarrow> None
      | Some i \<Rightarrow> if i < length stack then Some (stack ! i) else None)"

text \<open>The tag rule both halves of the codec apply: no context tag at the top level, no
  anonymous tag in a structure, only anonymous tags in an array.\<close>

definition tag_allowed :: "ContainerKind option \<Rightarrow> Tag \<Rightarrow> bool" where
  "tag_allowed c tag =
     (case c of
        None \<Rightarrow> tag_context tag = None
      | Some Structure \<Rightarrow> \<not> tag_is_anonymous tag
      | Some Array \<Rightarrow> tag_is_anonymous tag
      | Some List \<Rightarrow> True)"

definition rd_check_tag :: "Tag \<Rightarrow> (TlvReader, unit) mutator" where
  "rd_check_tag tag r =
     ensureE TlvInvalidTag (tag_allowed (current_container (rd_depth r) (rd_stack r)) tag) r"

definition rd_mark_done :: "TlvReader \<Rightarrow> TlvReader" where
  "rd_mark_done r = (if rd_depth r = rd_base_depth r then r\<lparr>rd_top_level_done := True\<rparr> else r)"

definition rd_take_string :: "Width \<Rightarrow> (TlvReader, bytes) mutator" where
  "rd_take_string w =
     bindE (rd_take (width_octets w)) (\<lambda>l.
     bindE (liftE (read_le_u64 l)) (\<lambda>len. rd_take (unat len)))"

definition rd_open :: "ContainerKind \<Rightarrow> (TlvReader, Value) mutator" where
  "rd_open kind r =
     (if rd_depth r < length (rd_stack r)
      then (Inr (Container kind),
            r\<lparr>rd_stack := (rd_stack r)[rd_depth r := kind], rd_depth := rd_depth r + 1\<rparr>)
      else (Inl TlvDepthExceeded, r))"

fun rd_value :: "ElementType \<Rightarrow> (TlvReader, Value) mutator" where
  "rd_value (SignedInt w) =
     bindE (rd_take (width_octets w)) (\<lambda>s. bindE (liftE (read_le_i64 s)) (\<lambda>v. retE (Signed v)))"
| "rd_value (UnsignedInt w) =
     bindE (rd_take (width_octets w)) (\<lambda>s. bindE (liftE (read_le_u64 s)) (\<lambda>v. retE (Unsigned v)))"
| "rd_value (BoolElt v) = retE (Bool v)"
| "rd_value FloatElt =
     bindE (rd_take 4) (\<lambda>s. bindE (liftE (read_le_u64 s)) (\<lambda>raw.
       if raw \<le> 0xFFFFFFFF then retE (Float (ucast raw)) else failE TlvOutOfRange))"
| "rd_value DoubleElt =
     bindE (rd_take 8) (\<lambda>s. bindE (liftE (read_le_u64 s)) (\<lambda>raw. retE (Double raw)))"
| "rd_value (Utf8Elt w) =
     bindE (rd_take_string w) (\<lambda>s. if from_utf8 s then retE (Utf8 s) else failE TlvInvalidUtf8)"
| "rd_value (OctetsElt w) = bindE (rd_take_string w) (\<lambda>s. retE (Octets s))"
| "rd_value NullElt = retE Null"
| "rd_value StructureElt = rd_open Structure"
| "rd_value ArrayElt = rd_open Array"
| "rd_value ListElt = rd_open List"
| "rd_value EndOfContainerElt = failE TlvInvalidControl"

definition rd_end :: "u8 \<Rightarrow> (TlvReader, Element option) mutator" where
  "rd_end control =
     bindE (ensureE TlvInvalidControl (control = 0x18)) (\<lambda>_ r.
       case checked_sub (rd_depth r) 1 of
         None \<Rightarrow> (Inl TlvContainerMismatch, r)
       | Some d \<Rightarrow>
           if d < rd_base_depth r then (Inl TlvContainerMismatch, r)
           else (Inr (Some \<lparr>el_tag = Anonymous, el_value = EndOfContainer\<rparr>),
                 rd_mark_done (r\<lparr>rd_depth := d\<rparr>)))"

definition rd_advance :: "nat \<Rightarrow> (TlvReader, unit) mutator" where
  "rd_advance n r =
     (case usize_checked_add (rd_pos r) n of
        None \<Rightarrow> (Inl TlvTruncated, r)
      | Some p \<Rightarrow> (Inr (), r\<lparr>rd_pos := p\<rparr>))"

definition rd_tagged :: "u8 \<Rightarrow> ElementType \<Rightarrow> (TlvReader, Element option) mutator" where
  "rd_tagged control et =
     bindE getE (\<lambda>r.
     bindE (liftE (tag_decode control (rd_remaining r))) (\<lambda>(tag, tag_len).
     bindE (rd_advance tag_len) (\<lambda>_.
     bindE (rd_check_tag tag) (\<lambda>_.
     bindE (rd_value et) (\<lambda>value.
     bindE (modifyE rd_mark_done) (\<lambda>_.
       retE (Some \<lparr>el_tag = tag, el_value = value\<rparr>)))))))"

definition rd_element :: "bytes \<Rightarrow> (TlvReader, Element option) mutator" where
  "rd_element b =
     (case b of
        [] \<Rightarrow> failE TlvTruncated
      | control # _ \<Rightarrow>
          bindE (liftE (element_type_from_bits control)) (\<lambda>et.
            if et = EndOfContainerElt then rd_end control else rd_tagged control et))"

definition next_element :: "(TlvReader, Element option) mutator" where
  "next_element r =
     (if rd_is_empty r then (Inr None, r)
      else if rd_top_level_done r \<and> \<not> rd_many r \<and> rd_depth r = rd_base_depth r
        then (Inl TlvContainerMismatch, r)
      else
        bindE (rd_take 1) rd_element r)"

section \<open>The reader's invariant\<close>

definition rd_inv :: "TlvReader \<Rightarrow> bool" where
  "rd_inv r \<longleftrightarrow> rd_pos r \<le> length (rd_buf r) \<and> length (rd_buf r) \<le> USIZE_MAX
     \<and> length (rd_stack r) = MAX_DEPTH \<and> rd_base_depth r \<le> rd_depth r \<and> rd_depth r \<le> MAX_DEPTH"

text \<open>What any method of the reader does to it, whether it succeeds or fails.\<close>

definition rd_steps :: "TlvReader \<Rightarrow> TlvReader \<Rightarrow> bool" where
  "rd_steps r r' \<longleftrightarrow> rd_buf r' = rd_buf r \<and> rd_pos r \<le> rd_pos r'
     \<and> rd_many r' = rd_many r \<and> rd_started_inside r' = rd_started_inside r \<and> (rd_inv r \<longrightarrow> rd_inv r')"

definition rd_safe :: "(TlvReader, 'a) mutator \<Rightarrow> bool" where
  "rd_safe m \<longleftrightarrow> (\<forall>r. rd_steps r (snd (m r)))"

lemma rd_steps_refl [simp]: "rd_steps r r"
  by (simp add: rd_steps_def)

lemma rd_steps_trans: "rd_steps a b \<Longrightarrow> rd_steps b c \<Longrightarrow> rd_steps a c"
  by (auto simp: rd_steps_def)

lemma rd_safe_bind: "rd_safe m \<Longrightarrow> (\<And>a. rd_safe (f a)) \<Longrightarrow> rd_safe (bindE m f)"
  unfolding rd_safe_def
proof
  fix r
  assume m: "\<forall>r. rd_steps r (snd (m r))" and f: "\<And>a. \<forall>r. rd_steps r (snd (f a r))"
  obtain x r' where p: "m r = (x, r')" by (cases "m r")
  then have "rd_steps r r'" using m by (metis snd_conv)
  then show "rd_steps r (snd (bindE m f r))"
    using f rd_steps_trans p by (cases x) (auto simp: bindE_def)
qed

lemma rd_safeD: "rd_safe m \<Longrightarrow> m r = (x, r') \<Longrightarrow> rd_steps r r'"
  unfolding rd_safe_def by (metis snd_conv)

lemma rd_safe_pure:
  "rd_safe (retE a)" "rd_safe (failE e)" "rd_safe (liftE x)" "rd_safe getE" "rd_safe (ensureE e b)"
  by (simp_all add: rd_safe_def)

lemma rd_safe_if: "rd_safe m \<Longrightarrow> rd_safe m' \<Longrightarrow> rd_safe (if b then m else m')"
  by simp

lemma rd_safe_take: "rd_safe (rd_take n)"
  by (auto simp: rd_safe_def rd_take_def rd_steps_def rd_inv_def rd_base_depth_def slice_get_def
      usize_checked_add_def split: option.splits)

lemma rd_safe_open: "rd_safe (rd_open k)"
  by (auto simp: rd_safe_def rd_open_def rd_steps_def rd_inv_def rd_base_depth_def)

lemma rd_safe_check_tag: "rd_safe (rd_check_tag t)"
  by (simp add: rd_safe_def rd_check_tag_def)

lemma rd_safe_mark_done: "rd_safe (modifyE rd_mark_done)"
  by (auto simp: rd_safe_def rd_mark_done_def rd_steps_def rd_inv_def rd_base_depth_def)

lemma rd_safe_take_string: "rd_safe (rd_take_string w)"
  unfolding rd_take_string_def by (intro rd_safe_bind rd_safe_take rd_safe_pure)

lemma rd_safe_value: "rd_safe (rd_value et)"
  by (cases et)
    (auto intro!: rd_safe_bind rd_safe_take rd_safe_pure rd_safe_open rd_safe_take_string)

lemma tag_decode_len: "tag_decode c buf = Inr (t, n) \<Longrightarrow> n \<le> length buf"
  by (auto simp: tag_decode_def Let_def bindR_ok_iff slice_of_def slice_get_def split: if_splits)

lemma rd_safe_tagged: "rd_safe (rd_tagged control et)"
  unfolding rd_safe_def
proof
  fix r
  let ?rest = "\<lambda>tag n. bindE (rd_check_tag tag) (\<lambda>_. bindE (rd_value et) (\<lambda>value.
     bindE (modifyE rd_mark_done) (\<lambda>_. retE (Some \<lparr>el_tag = tag, el_value = value\<rparr>))))"
  have rest: "rd_safe (?rest tag n)" for tag n
    by (intro rd_safe_bind rd_safe_check_tag rd_safe_value rd_safe_mark_done rd_safe_pure)
  show "rd_steps r (snd (rd_tagged control et r))"
  proof (cases "tag_decode control (rd_remaining r)")
    case (Inl e)
    then show ?thesis by (simp add: rd_tagged_def)
  next
    case (Inr p)
    obtain tag n where p: "p = (tag, n)" by (cases p)
    have n: "n \<le> length (rd_remaining r)" using tag_decode_len Inr p by blast
    have t: "rd_tagged control et r = bindE (rd_advance n) (\<lambda>_. ?rest tag n) r"
      using Inr p by (simp add: rd_tagged_def)
    show ?thesis
    proof (cases "usize_checked_add (rd_pos r) n")
      case None
      then show ?thesis using t by (simp add: rd_advance_def bindE_def)
    next
      case (Some q)
      have "rd_steps r (r\<lparr>rd_pos := q\<rparr>)"
        using Some n by (auto simp: rd_steps_def rd_inv_def rd_base_depth_def usize_checked_add_def
            rd_remaining_def slice_from_def split: if_splits)
      moreover have "rd_steps (r\<lparr>rd_pos := q\<rparr>) (snd (?rest tag n (r\<lparr>rd_pos := q\<rparr>)))"
        using rest by (simp add: rd_safe_def)
      ultimately have steps: "rd_steps r (snd (?rest tag n (r\<lparr>rd_pos := q\<rparr>)))"
        by (rule rd_steps_trans)
      have "rd_advance n r = (Inr (), r\<lparr>rd_pos := q\<rparr>)" using Some by (simp add: rd_advance_def)
      then have "bindE (rd_advance n) (\<lambda>_. ?rest tag n) r = ?rest tag n (r\<lparr>rd_pos := q\<rparr>)"
        by (rule bindE_simps(2))
      then show ?thesis unfolding t using steps by (rule ssubst)
    qed
  qed
qed

lemma rd_safe_end: "rd_safe (rd_end control)"
  by (auto simp: rd_safe_def rd_end_def rd_mark_done_def rd_steps_def rd_inv_def rd_base_depth_def
      checked_sub_def split: option.splits)

lemma rd_after_take:
  assumes "rd_take 1 r = (Inr b, r')" shows "rd_pos r' = rd_pos r + 1" and "length b = 1"
  using assms by (auto simp: rd_take_def usize_checked_add_def slice_get_def split: option.splits if_splits)

lemma rd_safe_element: "rd_safe (rd_element b)"
  by (cases b)
    (auto simp: rd_element_def intro!: rd_safe_bind rd_safe_pure rd_safe_end rd_safe_tagged)

lemma rd_safe_next_element: "rd_safe next_element"
  using rd_safe_bind [OF rd_safe_take rd_safe_element]
  by (simp add: next_element_def rd_safe_def)

lemma next_element_progress:
  assumes "next_element r = (Inr (Some e), r')"
  shows "rd_pos r < rd_pos r'" and "rd_buf r' = rd_buf r" and "rd_pos r < length (rd_buf r)"
proof -
  show "rd_buf r' = rd_buf r"
    using rd_safeD [OF rd_safe_next_element assms] by (simp add: rd_steps_def)
  show "rd_pos r < length (rd_buf r)"
    using assms by (auto simp: next_element_def rd_is_empty_def split: if_splits)
  obtain b r1 where t: "rd_take 1 r = (Inr b, r1)" and k: "rd_element b r1 = (Inr (Some e), r')"
    using assms by (auto simp: next_element_def bindE_ok_iff split: if_splits)
  show "rd_pos r < rd_pos r'"
    using rd_safeD [OF rd_safe_element k] rd_after_take(1) [OF t] by (simp add: rd_steps_def)
qed

lemma next_element_decreases:
  "next_element r = (Inr (Some e), r') \<Longrightarrow>
   length (rd_buf r') - rd_pos r' < length (rd_buf r) - rd_pos r"
  using next_element_progress [of r e r'] by simp

section \<open>Loops over elements\<close>

text \<open>Each loop ends because every element it takes consumes at least one octet of the buffer.\<close>

function skip_to :: "nat \<Rightarrow> (TlvReader, unit) mutator" where
  "skip_to target r =
     (if rd_depth r > target then
        (case next_element r of
           (Inl e, r') \<Rightarrow> (Inl e, r')
         | (Inr None, r') \<Rightarrow> (Inl TlvContainerMismatch, r')
         | (Inr (Some _), r') \<Rightarrow> skip_to target r')
      else (Inr (), r))"
  by pat_completeness auto

termination
  by (relation "measure (\<lambda>(_, r). length (rd_buf r) - rd_pos r)")
    (auto dest!: next_element_decreases [OF sym])

definition skip_container :: "(TlvReader, unit) mutator" where
  "skip_container r =
     (case checked_sub (rd_depth r) 1 of
        None \<Rightarrow> (Inl TlvContainerMismatch, r)
      | Some target \<Rightarrow> skip_to target r)"

definition rd_slice_from :: "nat \<Rightarrow> TlvReader \<Rightarrow> bytes result" where
  "rd_slice_from start r = ok_or TlvTruncated (slice_get (rd_buf r) start (rd_pos r))"

definition skip_value :: "Element \<Rightarrow> (TlvReader, unit) mutator" where
  "skip_value e = (if value_container (el_value e) \<noteq> None then skip_container else retE ())"

definition rd_finish :: "TlvReader \<Rightarrow> unit result" where
  "rd_finish r =
     (if rd_depth r \<noteq> rd_base_depth r then Inl TlvContainerMismatch
      else if \<not> rd_top_level_done r then Inl TlvTruncated
      else if \<not> rd_is_empty r then Inl TlvContainerMismatch
      else Inr ())"

function validate_loop :: "nat \<Rightarrow> (TlvReader, nat) mutator" where
  "validate_loop n r =
     (case next_element r of
        (Inl e, r') \<Rightarrow> (Inl e, r')
      | (Inr None, r') \<Rightarrow> (Inr n, r')
      | (Inr (Some _), r') \<Rightarrow> validate_loop (min (n + 1) USIZE_MAX) r')"
  by pat_completeness auto

termination
  by (relation "measure (\<lambda>(_, r). length (rd_buf r) - rd_pos r)")
    (auto dest!: next_element_decreases [OF sym])

definition validate :: "bytes \<Rightarrow> nat result" where
  "validate buf =
     (case validate_loop 0 (reader_new buf) of
        (Inl e, _) \<Rightarrow> Inl e
      | (Inr n, r) \<Rightarrow> bindR (rd_finish r) (\<lambda>_. Inr n))"

text \<open>The containers that are open, innermost first: tag, whether a member was seen, kind.\<close>

type_synonym open_containers = "(Tag \<times> bool \<times> ContainerKind) list"

fun mark_seen :: "open_containers \<Rightarrow> open_containers" where
  "mark_seen [] = []"
| "mark_seen ((t, _, k) # os) = (t, True, k) # os"

text \<open>One turn of the loop body: an early return, or the new stack.\<close>

definition empty_optional_step ::
    "Element \<Rightarrow> open_containers \<Rightarrow> (Tag + open_containers) result" where
  "empty_optional_step e os =
     (case el_value e of
        Container k \<Rightarrow>
          (if length os < 16 then Inr (Inr ((el_tag e, False, k) # mark_seen os))
           else Inl TlvContainerMismatch)
      | EndOfContainer \<Rightarrow>
          (case os of
             [] \<Rightarrow> Inl TlvContainerMismatch
           | (tag, seen, k) # os' \<Rightarrow>
               if (\<not> seen \<and> k = Structure) \<and> tag_context tag \<noteq> None then Inr (Inl tag)
               else Inr (Inr os'))
      | _ \<Rightarrow> Inr (Inr (mark_seen os)))"

function empty_optional_loop :: "open_containers \<Rightarrow> TlvReader \<Rightarrow> Tag option result" where
  "empty_optional_loop os r =
     (case next_element r of
        (Inl e, r') \<Rightarrow> Inl e
      | (Inr None, r') \<Rightarrow> bindR (rd_finish r') (\<lambda>_. Inr None)
      | (Inr (Some e), r') \<Rightarrow>
          (case empty_optional_step e os of
             Inl err \<Rightarrow> Inl err
           | Inr (Inl tag) \<Rightarrow> Inr (Some tag)
           | Inr (Inr os') \<Rightarrow> empty_optional_loop os' r'))"
  by pat_completeness auto

termination
  by (relation "measure (\<lambda>(_, r). length (rd_buf r) - rd_pos r)")
    (auto dest!: next_element_decreases [OF sym])

definition first_empty_optional :: "bytes \<Rightarrow> Tag option result" where
  "first_empty_optional buf = empty_optional_loop [] (reader_new buf)"

text \<open>All the elements a reader has left, for the statements below.\<close>

function rd_elements :: "TlvReader \<Rightarrow> Element list result \<times> TlvReader" where
  "rd_elements r =
     (case next_element r of
        (Inl e, r') \<Rightarrow> (Inl e, r')
      | (Inr None, r') \<Rightarrow> (Inr [], r')
      | (Inr (Some e), r') \<Rightarrow>
          (case rd_elements r' of
             (Inl err, r'') \<Rightarrow> (Inl err, r'')
           | (Inr es, r'') \<Rightarrow> (Inr (e # es), r'')))"
  by pat_completeness auto

termination
  by (relation "measure (\<lambda>r. length (rd_buf r) - rd_pos r)")
    (auto dest!: next_element_decreases [OF sym])

declare skip_to.simps [simp del] validate_loop.simps [simp del]
  empty_optional_loop.simps [simp del] rd_elements.simps [simp del]

section \<open>The grammar of a document\<close>

text \<open>
  What a sequence of elements may look like, said once for both halves of the codec: the
  containers that are open, outermost first, and whether the document is over.
\<close>

type_synonym grammar_state = "ContainerKind list \<times> bool"

definition innermost :: "ContainerKind list \<Rightarrow> ContainerKind option" where
  "innermost ks = (if ks = [] then None else Some (last ks))"

fun grammar_step :: "Element \<Rightarrow> grammar_state \<Rightarrow> grammar_state option" where
  "grammar_step e (ks, over) =
     (if over then None
      else case el_value e of
        EndOfContainer \<Rightarrow>
          (if ks \<noteq> [] \<and> el_tag e = Anonymous then Some (butlast ks, butlast ks = []) else None)
      | Container k \<Rightarrow>
          (if tag_allowed (innermost ks) (el_tag e) \<and> length ks < MAX_DEPTH
           then Some (ks @ [k], False) else None)
      | _ \<Rightarrow> (if tag_allowed (innermost ks) (el_tag e) then Some (ks, ks = []) else None))"

text \<open>A run of elements that never closes the container the codec started inside.\<close>

fun grammar_run :: "nat \<Rightarrow> Element list \<Rightarrow> grammar_state \<Rightarrow> grammar_state option" where
  "grammar_run base [] g = Some g"
| "grammar_run base (e # es) g =
     (case grammar_step e g of
        None \<Rightarrow> None
      | Some g' \<Rightarrow> if length (fst g') < base then None else grammar_run base es g')"

text \<open>The octets of an element in the form the writer chooses.\<close>

fun value_type :: "Value \<Rightarrow> ElementType" where
  "value_type (Signed v) = SignedInt (width_for_signed v)"
| "value_type (Unsigned v) = UnsignedInt (width_for_unsigned v)"
| "value_type (Bool b) = BoolElt b"
| "value_type (Float _) = FloatElt"
| "value_type (Double _) = DoubleElt"
| "value_type (Utf8 s) = Utf8Elt (width_for_unsigned (word_of_nat (length s)))"
| "value_type (Octets s) = OctetsElt (width_for_unsigned (word_of_nat (length s)))"
| "value_type Null = NullElt"
| "value_type (Container k) = container_element_type k"
| "value_type EndOfContainer = EndOfContainerElt"

definition string_bytes :: "bytes \<Rightarrow> bytes" where
  "string_bytes s =
     to_le (width_octets (width_for_unsigned (word_of_nat (length s)))) (length s) @ s"

fun value_bytes :: "Value \<Rightarrow> bytes" where
  "value_bytes (Signed v) = to_le (width_octets (width_for_signed v)) (unat v)"
| "value_bytes (Unsigned v) = to_le (width_octets (width_for_unsigned v)) (unat v)"
| "value_bytes (Float b) = to_le 4 (unat b)"
| "value_bytes (Double b) = to_le 8 (unat b)"
| "value_bytes (Utf8 s) = string_bytes s"
| "value_bytes (Octets s) = string_bytes s"
| "value_bytes _ = []"

definition element_bytes :: "Element \<Rightarrow> bytes" where
  "element_bytes e =
     (if el_value e = EndOfContainer then [0x18]
      else (tag_control_bits (el_tag e) OR element_type_bits (value_type (el_value e)))
        # tag_bytes (el_tag e) @ value_bytes (el_value e))"

text \<open>The values the sources can hold: a \<^verbatim>\<open>&str\<close> is valid UTF-8, the length of a slice is a
  \<^verbatim>\<open>usize\<close>, and an end of container has no tag.\<close>

definition element_ok :: "Element \<Rightarrow> bool" where
  "element_ok e \<longleftrightarrow>
     (case el_value e of
        Utf8 s \<Rightarrow> from_utf8 s \<and> length s \<le> USIZE_MAX
      | Octets s \<Rightarrow> length s \<le> USIZE_MAX
      | EndOfContainer \<Rightarrow> el_tag e = Anonymous
      | _ \<Rightarrow> True)"

text \<open>Where a reader stands in the grammar.\<close>

definition rd_grammar :: "TlvReader \<Rightarrow> grammar_state" where
  "rd_grammar r = (take (rd_depth r) (rd_stack r), rd_depth r = 0 \<and> rd_top_level_done r)"

lemma current_container_innermost:
  "depth \<le> length stack \<Longrightarrow> current_container depth stack = innermost (take depth stack)"
  by (auto simp: current_container_def innermost_def checked_sub_def last_conv_nth split: option.splits)

section \<open>One element is read back\<close>

text \<open>A reader standing before \<open>bs\<close>, and the reader after them.\<close>

definition rd_before :: "bytes \<Rightarrow> TlvReader \<Rightarrow> bool" where
  "rd_before bs r \<longleftrightarrow> rd_inv r \<and> (\<exists>rest. drop (rd_pos r) (rd_buf r) = bs @ rest)"

definition rd_past :: "nat \<Rightarrow> TlvReader \<Rightarrow> TlvReader" where
  "rd_past n r = r\<lparr>rd_pos := rd_pos r + n\<rparr>"

lemma rd_past_simps [simp]:
  "rd_buf (rd_past n r) = rd_buf r" "rd_pos (rd_past n r) = rd_pos r + n"
  "rd_stack (rd_past n r) = rd_stack r" "rd_depth (rd_past n r) = rd_depth r"
  "rd_top_level_done (rd_past n r) = rd_top_level_done r" "rd_many (rd_past n r) = rd_many r"
  "rd_started_inside (rd_past n r) = rd_started_inside r"
  "rd_past m (rd_past n r) = rd_past (n + m) r"
  by (simp_all add: rd_past_def)

lemma rd_before_append:
  assumes "rd_before (as @ bs) r"
  shows "rd_before as r" and "rd_before bs (rd_past (length as) r)"
proof -
  obtain rest where r: "drop (rd_pos r) (rd_buf r) = as @ bs @ rest" and i: "rd_inv r"
    using assms by (auto simp: rd_before_def)
  then show "rd_before as r" by (auto simp: rd_before_def)
  have "length as \<le> length (rd_buf r) - rd_pos r" using arg_cong [OF r, of length] by simp
  moreover have "drop (rd_pos r + length as) (rd_buf r) = bs @ rest"
    using arg_cong [OF r, of "drop (length as)"] by (simp add: add.commute)
  ultimately show "rd_before bs (rd_past (length as) r)"
    using i by (auto simp: rd_before_def rd_inv_def rd_base_depth_def)
qed

lemma rd_take_before:
  assumes "rd_before bs r" and "n = length bs"
  shows "rd_take n r = (Inr bs, rd_past n r)"
proof -
  obtain rest where r: "drop (rd_pos r) (rd_buf r) = bs @ rest" and i: "rd_inv r"
    using assms by (auto simp: rd_before_def)
  have "n \<le> length (rd_buf r) - rd_pos r" using assms(2) arg_cong [OF r, of length] by simp
  then show ?thesis
    using i r assms(2) by (auto simp: rd_take_def usize_checked_add_def slice_get_def rd_past_def rd_inv_def)
qed

lemma rd_take_string_before:
  assumes "rd_before (string_bytes s) r" and "length s \<le> USIZE_MAX"
  shows "rd_take_string (width_for_unsigned (word_of_nat (length s))) r
       = (Inr s, rd_past (length (string_bytes s)) r)"
proof -
  let ?w = "width_for_unsigned (word_of_nat (length s))"
  let ?l = "to_le (width_octets ?w) (length s)"
  have u: "unat (word_of_nat (length s) :: u64) = length s"
    using assms(2) by (intro unat_of_nat_small) (simp add: USIZE_MAX_def)
  have l: "read_le_u64 ?l = Inr (word_of_nat (length s))"
    using read_le_unsigned [of "word_of_nat (length s)"] by (simp only: u)
  note b = rd_before_append [OF assms(1) [unfolded string_bytes_def]]
  have "rd_take (width_octets ?w) r = (Inr ?l, rd_past (width_octets ?w) r)"
    using rd_take_before [OF b(1)] by simp
  moreover have "rd_take (length s) (rd_past (width_octets ?w) r)
      = (Inr s, rd_past (width_octets ?w + length s) r)"
    using rd_take_before [OF b(2) refl] by simp
  ultimately show ?thesis by (simp add: rd_take_string_def l u string_bytes_def)
qed

lemma rd_before_length: "rd_before bs r \<Longrightarrow> length bs \<le> USIZE_MAX"
proof -
  assume "rd_before bs r"
  then obtain rest where "drop (rd_pos r) (rd_buf r) = bs @ rest" and "rd_inv r"
    by (auto simp: rd_before_def)
  moreover from this(1) have "length (rd_buf r) - rd_pos r = length bs + length rest"
    by (metis length_append length_drop)
  ultimately show ?thesis unfolding rd_inv_def by linarith
qed

fun rd_entered :: "Value \<Rightarrow> TlvReader \<Rightarrow> TlvReader" where
  "rd_entered (Container k) r =
     r\<lparr>rd_stack := (rd_stack r)[rd_depth r := k], rd_depth := rd_depth r + 1\<rparr>"
| "rd_entered _ r = r"

lemma rd_value_before:
  assumes "rd_before (value_bytes v) r" and "v \<noteq> EndOfContainer"
    and "\<And>s. v = Utf8 s \<Longrightarrow> from_utf8 s" and "\<And>k. v = Container k \<Longrightarrow> rd_depth r < MAX_DEPTH"
  shows "rd_value (value_type v) r = (Inr v, rd_entered v (rd_past (length (value_bytes v)) r))"
proof (cases v)
  case (Signed x)
  then show ?thesis using rd_take_before [OF assms(1) refl] by simp
next
  case (Unsigned x)
  then show ?thesis using rd_take_before [OF assms(1) refl] by simp
next
  case (Float x)
  have "read_le_u64 (to_le 4 (unat x)) = Inr (word_of_nat (unat x))"
    using unat_lt_len [of x] by (simp add: read_le_u64_eq from_le_to_le)
  moreover have "(word_of_nat (unat x) :: u64) \<le> 0xFFFFFFFF"
    using unat_lt_len [of x] by (simp add: word_le_nat_alt unat_ucast_word)
  moreover have "(ucast (word_of_nat (unat x) :: u64) :: u32) = x"
    by (intro bit_word_eqI) (simp add: bit_simps bit_word_of_nat_iff)
  ultimately show ?thesis using Float rd_take_before [OF assms(1), of 4] by simp
next
  case (Double x)
  have "read_le_u64 (to_le 8 (unat x)) = Inr (take_bit 64 x)" by (simp add: read_le_to_le)
  moreover have "take_bit 64 x = x" by (intro bit_word_eqI) (simp add: bit_simps)
  ultimately show ?thesis using Double rd_take_before [OF assms(1), of 8] by simp
next
  case (Utf8 s)
  have "length s \<le> USIZE_MAX" using rd_before_length [OF assms(1)] Utf8 by (simp add: string_bytes_def)
  then show ?thesis using Utf8 rd_take_string_before [of s r] assms(1,3) by simp
next
  case (Octets s)
  have "length s \<le> USIZE_MAX" using rd_before_length [OF assms(1)] Octets by (simp add: string_bytes_def)
  then show ?thesis using Octets rd_take_string_before [of s r] assms(1) by simp
next
  case (Container k)
  have "rd_depth r < length (rd_stack r)"
    using assms(1,4) Container by (auto simp: rd_before_def rd_inv_def)
  then show ?thesis using Container by (cases k) (simp_all add: rd_open_def rd_past_def)
qed (use assms(2) in \<open>simp_all add: rd_past_def\<close>)

lemma rd_before_rest: "rd_before bs r \<Longrightarrow> \<exists>rest. rd_remaining r = bs @ rest"
  by (auto simp: rd_before_def rd_remaining_def slice_from_def rd_inv_def)

lemma rd_tagged_before:
  assumes "rd_before (tag_bytes t @ value_bytes v) r" and "v \<noteq> EndOfContainer"
    and "\<And>s. v = Utf8 s \<Longrightarrow> from_utf8 s" and "\<And>k. v = Container k \<Longrightarrow> rd_depth r < MAX_DEPTH"
    and allowed: "tag_allowed (current_container (rd_depth r) (rd_stack r)) t"
  shows "rd_tagged (tag_control_bits t OR element_type_bits (value_type v)) (value_type v) r
       = (Inr (Some \<lparr>el_tag = t, el_value = v\<rparr>),
          rd_mark_done (rd_entered v (rd_past (length (tag_bytes t @ value_bytes v)) r)))"
proof -
  let ?r = "rd_past (tag_encoded_len t) r"
  note b = rd_before_append [OF assms(1), unfolded length_tag_bytes]
  obtain rest where "rd_remaining r = tag_bytes t @ rest" using rd_before_rest [OF b(1)] by blast
  then have dec: "tag_decode (tag_control_bits t OR element_type_bits (value_type v)) (rd_remaining r)
      = Inr (t, tag_encoded_len t)" by (simp only: tag_decode_ok)
  have adv: "rd_advance (tag_encoded_len t) r = (Inr (), ?r)"
    using b(2) by (auto simp: rd_advance_def usize_checked_add_def rd_past_def rd_before_def rd_inv_def)
  have val: "rd_value (value_type v) ?r = (Inr v, rd_entered v (rd_past (length (value_bytes v)) ?r))"
    using b(2) assms(2-4) by (intro rd_value_before) simp_all
  have chk: "rd_check_tag t ?r = (Inr (), ?r)" using allowed by (simp add: rd_check_tag_def)
  show ?thesis
    unfolding rd_tagged_def by (simp add: dec adv chk val add.commute)
qed

lemma rd_after_control:
  assumes "rd_before (c # bs) r"
    and "\<not> (rd_top_level_done r \<and> \<not> rd_many r \<and> rd_depth r = rd_base_depth r)"
  shows "next_element r = rd_element [c] (rd_past 1 r)" and "rd_before bs (rd_past 1 r)"
proof -
  have b: "rd_before ([c] @ bs) r" using assms(1) by simp
  have "\<not> rd_is_empty r" using assms(1) by (auto simp: rd_is_empty_def rd_before_def)
  moreover have "rd_take 1 r = (Inr [c], rd_past 1 r)"
    using rd_take_before [OF rd_before_append(1) [OF b]] by simp
  ultimately show "next_element r = rd_element [c] (rd_past 1 r)"
    using assms(2) by (auto simp: next_element_def)
  show "rd_before bs (rd_past 1 r)" using rd_before_append(2) [OF b] by simp
qed

lemma rd_grammar_entered:
  assumes "rd_inv r" and "v \<noteq> EndOfContainer" and "value_container v \<noteq> None \<Longrightarrow> rd_depth r < MAX_DEPTH"
  shows "rd_grammar (rd_mark_done (rd_entered v r)) =
     (case value_container v of
        None \<Rightarrow> (fst (rd_grammar r), fst (rd_grammar r) = [])
      | Some k \<Rightarrow> (fst (rd_grammar r) @ [k], False))"
proof (cases "value_container v")
  case None
  then have "rd_entered v r = r" by (cases v) auto
  then show ?thesis
    using None assms(1)
    by (auto simp: rd_grammar_def rd_mark_done_def rd_base_depth_def rd_inv_def MAX_DEPTH_def split: if_splits)
next
  case (Some k)
  then have "v = Container k" by (cases v) auto
  then show ?thesis
    using assms by (simp add: rd_grammar_def rd_mark_done_def rd_inv_def take_Suc_conv_app_nth)
qed

lemma grammar_step_value:
  "el_value e \<noteq> EndOfContainer \<Longrightarrow> grammar_step e (ks, over) =
     (if \<not> over \<and> tag_allowed (innermost ks) (el_tag e)
        \<and> (value_container (el_value e) \<noteq> None \<longrightarrow> length ks < MAX_DEPTH)
      then Some (case value_container (el_value e) of None \<Rightarrow> (ks, ks = []) | Some k \<Rightarrow> (ks @ [k], False))
      else None)"
  by (cases "el_value e") auto

lemma rd_open_end_count:
  "rd_inv r \<Longrightarrow> length (fst (rd_grammar r)) = rd_depth r"
  by (simp add: rd_grammar_def rd_inv_def)

text \<open>Whether a reader may still take an element: either it reads members, or no top-level
  element is behind it.\<close>

definition rd_live :: "TlvReader \<Rightarrow> bool" where
  "rd_live r \<longleftrightarrow> (if rd_started_inside r then rd_many r else \<not> rd_many r)"

lemma rd_live_guard:
  "rd_live r \<Longrightarrow> \<not> snd (rd_grammar r) \<Longrightarrow>
   \<not> (rd_top_level_done r \<and> \<not> rd_many r \<and> rd_depth r = rd_base_depth r)"
  by (auto simp: rd_live_def rd_grammar_def rd_base_depth_def split: if_splits)

lemma rd_end_before:
  assumes "rd_inv r" and "rd_base_depth r < rd_depth r"
  shows "rd_end 0x18 r = (Inr (Some \<lparr>el_tag = Anonymous, el_value = EndOfContainer\<rparr>),
      rd_mark_done (r\<lparr>rd_depth := rd_depth r - 1\<rparr>))"
  using assms by (auto simp: rd_end_def checked_sub_def rd_base_depth_def)

lemma next_element_reads_back:
  assumes b: "rd_before (element_bytes e) r" and ok: "element_ok e"
    and guard: "\<not> (rd_top_level_done r \<and> \<not> rd_many r \<and> rd_depth r = rd_base_depth r)"
    and step: "grammar_step e (rd_grammar r) = Some g" and base: "rd_base_depth r \<le> length (fst g)"
  shows "\<exists>r'. next_element r = (Inr (Some e), r') \<and> rd_grammar r' = g
     \<and> rd_pos r' = rd_pos r + length (element_bytes e)
     \<and> (rd_depth r' = rd_base_depth r' \<longrightarrow> rd_top_level_done r')"
proof -
  obtain ks over where g: "rd_grammar r = (ks, over)" by fastforce
  have inv: "rd_inv r" using b by (simp add: rd_before_def)
  have n: "length ks = rd_depth r" using rd_open_end_count [OF inv] g by simp
  have past: "rd_inv (rd_past k r) \<Longrightarrow> rd_grammar (rd_past k r) = (ks, over)" for k
    using g by (simp add: rd_grammar_def)
  show ?thesis
  proof (cases "el_value e = EndOfContainer")
    case True
    have e: "e = \<lparr>el_tag = Anonymous, el_value = EndOfContainer\<rparr>"
      using True ok by (simp add: element_ok_def)
    have bytes: "element_bytes e = [0x18]" using True by (simp add: element_bytes_def)
    note c = rd_after_control [OF b [unfolded bytes] guard]
    have g': "g = (butlast ks, butlast ks = [])" and "ks \<noteq> []" using step g True by (auto split: if_splits)
    then have d: "rd_base_depth r < rd_depth r" using base n by (cases ks rule: rev_cases) auto
    have "element_type_from_bits 0x18 = Inr EndOfContainerElt" by (simp add: element_type_from_bits_def)
    then have "next_element r = (Inr (Some e), rd_mark_done ((rd_past 1 r)\<lparr>rd_depth := rd_depth r - 1\<rparr>))"
      using c d rd_end_before [of "rd_past 1 r"] unfolding e
      by (simp add: rd_element_def rd_before_def rd_base_depth_def)
    moreover have "take (rd_depth r - 1) (rd_stack r) = butlast ks"
      using g inv by (auto simp: rd_grammar_def butlast_take rd_inv_def)
    ultimately show ?thesis
      unfolding g' bytes using d n
      by (auto simp: rd_mark_done_def rd_grammar_def rd_base_depth_def length_0_conv [symmetric]
          simp del: length_0_conv split: if_splits)
  next
    case False
    let ?c = "tag_control_bits (el_tag e) OR element_type_bits (value_type (el_value e))"
    let ?bs = "tag_bytes (el_tag e) @ value_bytes (el_value e)" and ?v = "el_value e"
    have bytes: "element_bytes e = ?c # ?bs" using False by (simp add: element_bytes_def)
    note c = rd_after_control [OF b [unfolded bytes] guard]
    have st: "tag_allowed (innermost ks) (el_tag e)"
      "value_container ?v \<noteq> None \<Longrightarrow> rd_depth r < MAX_DEPTH"
      "g = (case value_container ?v of None \<Rightarrow> (ks, ks = []) | Some k \<Rightarrow> (ks @ [k], False))"
      using step grammar_step_value [OF False, of ks over] unfolding g n [symmetric]
      by (auto split: if_splits)
    have "tag_allowed (current_container (rd_depth r) (rd_stack r)) (el_tag e)"
      using st(1) inv g by (simp add: current_container_innermost rd_inv_def rd_grammar_def)
    moreover have "\<And>s. ?v = Utf8 s \<Longrightarrow> from_utf8 s" using ok by (simp add: element_ok_def)
    moreover have "\<And>k. ?v = Container k \<Longrightarrow> rd_depth r < MAX_DEPTH" using st(2) by simp
    ultimately have "rd_tagged ?c (value_type ?v) (rd_past 1 r)
        = (Inr (Some e), rd_mark_done (rd_entered ?v (rd_past (1 + length ?bs) r)))"
      using rd_tagged_before [OF c(2) False] by simp
    moreover have "value_type ?v \<noteq> EndOfContainerElt"
      using False by (cases ?v) (auto elim: container_element_type.elims)
    ultimately have nx: "next_element r
        = (Inr (Some e), rd_mark_done (rd_entered ?v (rd_past (1 + length ?bs) r)))"
      using c(1) by (simp add: rd_element_def)
    have inv': "rd_inv (rd_past (1 + length ?bs) r)"
      using rd_before_append(2) [of "element_bytes e" "[]" r] b bytes by (simp add: rd_before_def)
    have "rd_grammar (rd_mark_done (rd_entered ?v (rd_past (1 + length ?bs) r))) = g"
      using rd_grammar_entered [OF inv' False] st(2) unfolding st(3) past [OF inv'] fst_conv rd_past_simps
      by blast
    moreover have "rd_pos (rd_mark_done (rd_entered ?v r')) = rd_pos r'" for r'
      by (cases ?v) (simp_all add: rd_mark_done_def)
    ultimately show ?thesis
      unfolding nx bytes by (auto simp: rd_mark_done_def rd_base_depth_def)
  qed
qed

lemma rd_elements_reads_back:
  "rd_before (concat (map element_bytes es)) r \<Longrightarrow>
   length (rd_buf r) = rd_pos r + length (concat (map element_bytes es)) \<Longrightarrow>
   \<forall>e \<in> set es. element_ok e \<Longrightarrow> rd_live r \<Longrightarrow>
   grammar_run (rd_base_depth r) es (rd_grammar r) = Some g \<Longrightarrow>
   \<exists>r'. rd_elements r = (Inr es, r') \<and> rd_grammar r' = g \<and> rd_is_empty r' \<and> rd_inv r'
     \<and> rd_base_depth r' = rd_base_depth r
     \<and> (es \<noteq> [] \<longrightarrow> rd_depth r' = rd_base_depth r' \<longrightarrow> rd_top_level_done r')"
proof (induction es arbitrary: r)
  case Nil
  then show ?case
    by (subst rd_elements.simps) (auto simp: next_element_def rd_is_empty_def rd_before_def)
next
  case (Cons e es)
  let ?bs = "concat (map element_bytes es)"
  have b: "rd_before (element_bytes e @ ?bs) r" using Cons.prems(1) by simp
  obtain g' where g': "grammar_step e (rd_grammar r) = Some g'" "rd_base_depth r \<le> length (fst g')"
    "grammar_run (rd_base_depth r) es g' = Some g"
    using Cons.prems(5) by (auto split: option.splits if_splits)
  have "\<not> snd (rd_grammar r)" using g'(1) by (cases "rd_grammar r") (auto split: if_splits)
  then have guard: "\<not> (rd_top_level_done r \<and> \<not> rd_many r \<and> rd_depth r = rd_base_depth r)"
    by (rule rd_live_guard [OF Cons.prems(4)])
  obtain r1 where r1: "next_element r = (Inr (Some e), r1)" "rd_grammar r1 = g'"
    "rd_pos r1 = rd_pos r + length (element_bytes e)"
    "rd_depth r1 = rd_base_depth r1 \<longrightarrow> rd_top_level_done r1"
    using next_element_reads_back [OF rd_before_append(1) [OF b] _ guard g'(1,2)] Cons.prems(3)
    by auto
  have st: "rd_buf r1 = rd_buf r" "rd_many r1 = rd_many r" "rd_started_inside r1 = rd_started_inside r"
    "rd_inv r1"
    using rd_safeD [OF rd_safe_next_element r1(1)] b by (auto simp: rd_steps_def rd_before_def)
  have base: "rd_base_depth r1 = rd_base_depth r" and live: "rd_live r1"
    using st Cons.prems(4) by (simp_all add: rd_base_depth_def rd_live_def)
  have b1: "rd_before ?bs r1"
    using rd_before_append(2) [OF b] st(1,4) r1(3) by (auto simp: rd_before_def)
  obtain r2 where r2: "rd_elements r1 = (Inr es, r2)" "rd_grammar r2 = g" "rd_is_empty r2" "rd_inv r2"
    "rd_base_depth r2 = rd_base_depth r1"
    "es \<noteq> [] \<longrightarrow> rd_depth r2 = rd_base_depth r2 \<longrightarrow> rd_top_level_done r2"
    using Cons.IH [OF b1] Cons.prems(2,3) st(1) r1(2,3) live g'(3) base by auto
  have "rd_elements r = (Inr (e # es), r2)" using r1(1) r2(1) by (subst rd_elements.simps) simp
  moreover have "r2 = r1" if "es = []"
    using r2(1) that r1(3) st(1) Cons.prems(2)
    by (subst (asm) rd_elements.simps) (simp add: next_element_def rd_is_empty_def)
  ultimately show ?case using r1(4) r2 base by (cases "es = []") auto
qed

section \<open>What is read obeys the grammar\<close>

lemma rd_take_ok: "rd_take n r = (Inr s, r') \<Longrightarrow> r' = rd_past n r"
  by (auto simp: rd_take_def usize_checked_add_def rd_past_def split: option.splits if_splits)

lemma rd_take_string_ok: "rd_take_string w r = (Inr s, r') \<Longrightarrow> \<exists>n. r' = rd_past n r"
  by (auto simp: rd_take_string_def bindE_ok_iff dest!: rd_take_ok split: sum.splits)

lemma rd_past_0: "r = rd_past 0 r"
  by (simp add: rd_past_def)

lemma rd_past_ex [simp]: "\<exists>n. r = rd_past n r"
  using rd_past_0 by blast

lemma rd_open_ok:
  "rd_open k r = (Inr v, r') \<Longrightarrow> v = Container k \<and> r' = rd_entered v r \<and> rd_depth r < length (rd_stack r)"
  by (auto simp: rd_open_def split: if_splits)

lemma rd_value_ok:
  assumes "rd_value et r = (Inr v, r')"
  shows "v \<noteq> EndOfContainer \<and> (\<exists>n. r' = rd_entered v (rd_past n r))
     \<and> (value_container v \<noteq> None \<longrightarrow> rd_depth r < length (rd_stack r))"
proof -
  have s: "\<exists>n. r' = rd_past n r" if "rd_take_string w r = (Inr s, r')" for w s
    using that by (rule rd_take_string_ok)
  have o: "v \<noteq> EndOfContainer \<and> (\<exists>n. r' = rd_entered v (rd_past n r))
     \<and> (value_container v \<noteq> None \<longrightarrow> rd_depth r < length (rd_stack r))"
    if "rd_open k r = (Inr v, r')" for k
    using rd_open_ok [OF that] rd_past_0 [of r] by (metis Value.distinct(89) value_container.simps(1))
  show ?thesis
  proof (cases et)
    case FloatElt
    then show ?thesis using assms
      by (auto simp: bindE_ok_iff dest!: rd_take_ok split: sum.splits if_splits)
  next
    case (Utf8Elt w)
    then show ?thesis using assms by (auto simp: bindE_ok_iff dest!: s split: if_splits)
  next
    case (OctetsElt w)
    then show ?thesis using assms by (auto simp: bindE_ok_iff dest!: s)
  qed (use assms o rd_past_0 [of r] in \<open>auto simp: bindE_ok_iff dest!: rd_take_ok split: sum.splits\<close>)
qed

lemma rd_tagged_ok:
  assumes "rd_tagged c et r = (Inr x, r')"
  shows "\<exists>t v n. x = Some \<lparr>el_tag = t, el_value = v\<rparr> \<and> v \<noteq> EndOfContainer
     \<and> r' = rd_mark_done (rd_entered v (rd_past n r))
     \<and> tag_allowed (current_container (rd_depth r) (rd_stack r)) t
     \<and> (value_container v \<noteq> None \<longrightarrow> rd_depth r < length (rd_stack r))"
proof -
  obtain t n where "tag_decode c (rd_remaining r) = Inr (t, n)"
    using assms by (cases "tag_decode c (rd_remaining r)") (auto simp: rd_tagged_def)
  then obtain r1 v r2 where a: "rd_advance n r = (Inr (), r1)"
    and t: "rd_check_tag t r1 = (Inr (), r1)" and v: "rd_value et r1 = (Inr v, r2)"
    and x: "x = Some \<lparr>el_tag = t, el_value = v\<rparr>" "r' = rd_mark_done r2"
    using assms by (auto simp: rd_tagged_def bindE_ok_iff rd_check_tag_def split: if_splits)
  have "r1 = rd_past n r" using a by (auto simp: rd_advance_def usize_checked_add_def rd_past_def split: if_splits)
  then show ?thesis
    using rd_value_ok [OF v] t x by (auto simp: rd_check_tag_def split: if_splits)
qed

lemma next_element_grammar:
  assumes nx: "next_element r = (Inr (Some e), r')" and inv: "rd_inv r" and live: "rd_started_inside r \<or> \<not> rd_many r"
  shows "grammar_step e (rd_grammar r) = Some (rd_grammar r')"
proof -
  obtain b where r1: "rd_take 1 r = (Inr b, rd_past 1 r)" and el: "rd_element b (rd_past 1 r) = (Inr (Some e), r')"
    using nx by (auto simp: next_element_def bindE_ok_iff split: if_splits dest: rd_take_ok)
  have inv1: "rd_inv (rd_past 1 r)" using rd_safeD [OF rd_safe_take r1] inv by (simp add: rd_steps_def)
  have guard: "\<not> (rd_top_level_done r \<and> \<not> rd_many r \<and> rd_depth r = rd_base_depth r)"
    using nx by (auto simp: next_element_def split: if_splits)
  have over: "\<not> snd (rd_grammar r)"
    using guard live inv by (auto simp: rd_grammar_def rd_base_depth_def rd_inv_def split: if_splits)
  have gr: "rd_grammar (rd_past n r) = rd_grammar r" for n by (simp add: rd_grammar_def)
  obtain c et where b: "b = [c]" and et: "element_type_from_bits c = Inr et"
    using el rd_after_take(2) [OF r1] by (cases b) (auto simp: rd_element_def bindE_ok_iff)
  show ?thesis
  proof (cases "et = EndOfContainerElt")
    case True
    then have "rd_end c (rd_past 1 r) = (Inr (Some e), r')" using el b et by (simp add: rd_element_def)
    then have "e = \<lparr>el_tag = Anonymous, el_value = EndOfContainer\<rparr>"
      and r': "r' = rd_mark_done ((rd_past 1 r)\<lparr>rd_depth := rd_depth r - 1\<rparr>)"
      and "rd_base_depth r < rd_depth r"
      by (auto simp: rd_end_def checked_sub_def rd_base_depth_def split: if_splits option.splits)
    moreover have "take (rd_depth r - 1) (rd_stack r) = butlast (take (rd_depth r) (rd_stack r))"
      using inv by (simp add: butlast_take rd_inv_def)
    moreover have "butlast (take (rd_depth r) (rd_stack r)) = [] \<longleftrightarrow> rd_depth r - 1 = 0"
      using inv by (auto simp: rd_inv_def MAX_DEPTH_def length_0_conv [symmetric] simp del: length_0_conv)
    ultimately show ?thesis
      using over inv by (auto simp: rd_grammar_def rd_mark_done_def rd_base_depth_def rd_inv_def MAX_DEPTH_def
          split: if_splits)
  next
    case False
    then have "rd_tagged c et (rd_past 1 r) = (Inr (Some e), r')" using el b et by (simp add: rd_element_def)
    then obtain t v n where e: "e = \<lparr>el_tag = t, el_value = v\<rparr>" and v: "v \<noteq> EndOfContainer"
      and r': "r' = rd_mark_done (rd_entered v (rd_past n r))"
      and t: "tag_allowed (current_container (rd_depth r) (rd_stack r)) t"
      and d: "value_container v \<noteq> None \<Longrightarrow> rd_depth r < MAX_DEPTH"
      using rd_tagged_ok [of c et "rd_past 1 r" "Some e" r'] inv by (auto simp: rd_inv_def)
    have "rd_inv r'" using rd_safeD [OF rd_safe_next_element nx] inv by (simp add: rd_steps_def)
    moreover have "rd_pos r' = rd_pos r + n" "rd_buf r' = rd_buf r"
      using r' by (cases v; simp add: rd_mark_done_def)+
    ultimately have "rd_inv (rd_past n r)" using inv by (simp add: rd_inv_def rd_base_depth_def)
    then have "rd_grammar r' = (case value_container v of
        None \<Rightarrow> (fst (rd_grammar r), fst (rd_grammar r) = [])
      | Some k \<Rightarrow> (fst (rd_grammar r) @ [k], False))"
      using rd_grammar_entered [of "rd_past n r" v] v d unfolding r' gr by simp
    moreover have "tag_allowed (innermost (fst (rd_grammar r))) t"
      using t inv by (simp add: current_container_innermost rd_inv_def rd_grammar_def)
    moreover have "rd_grammar r = (fst (rd_grammar r), False)" using over by (cases "rd_grammar r") simp
    ultimately show ?thesis
      using grammar_step_value [of e "fst (rd_grammar r)" False] v d e rd_open_end_count [OF inv]
      by simp
  qed
qed

lemma next_element_obeys_grammar:
  "next_element r = (Inr (Some e), r') \<Longrightarrow> rd_inv r \<Longrightarrow> rd_live r \<Longrightarrow> grammar_step e (rd_grammar r) = Some (rd_grammar r')"
  by (rule next_element_grammar) (auto simp: rd_live_def split: if_splits)

lemma rd_elements_step:
  "next_element r = (Inl e, r') \<Longrightarrow> rd_elements r = (Inl e, r')"
  "next_element r = (Inr None, r') \<Longrightarrow> rd_elements r = (Inr [], r')"
  "next_element r = (Inr (Some x), r') \<Longrightarrow> rd_elements r = (case rd_elements r' of
     (Inl err, r'') \<Rightarrow> (Inl err, r'') | (Inr es, r'') \<Rightarrow> (Inr (x # es), r''))"
  by (subst rd_elements.simps, simp)+

lemma next_element_none:
  "next_element r = (Inr None, r') \<longleftrightarrow> rd_is_empty r \<and> r' = r"
  by (auto simp: next_element_def bindE_ok_iff rd_element_def rd_end_def rd_tagged_def
      split: if_splits list.splits option.splits prod.splits)

lemma rd_elements_obeys_grammar:
  "rd_elements r = (Inr es, r') \<Longrightarrow> rd_inv r \<Longrightarrow> rd_live r \<Longrightarrow>
   grammar_run (rd_base_depth r) es (rd_grammar r) = Some (rd_grammar r') \<and> rd_inv r' \<and> rd_is_empty r'
     \<and> rd_base_depth r' = rd_base_depth r"
proof (induction r arbitrary: es r' rule: rd_elements.induct)
  case (1 r)
  obtain x r1 where nx: "next_element r = (x, r1)" by fastforce
  have st: "rd_inv r1" "rd_live r1" "rd_base_depth r1 = rd_base_depth r"
    using rd_safeD [OF rd_safe_next_element nx] 1(3,4) by (simp_all add: rd_steps_def rd_live_def rd_base_depth_def)
  show ?case
  proof (cases x)
    case (Inl e)
    then show ?thesis using 1(2) nx rd_elements_step(1) by simp
  next
    case (Inr o')
    show ?thesis
    proof (cases o')
      case None
      then have "rd_is_empty r \<and> r1 = r" using nx Inr next_element_none by simp
      then show ?thesis using 1(2-) nx Inr None rd_elements_step(2) [of r r1] by simp
    next
      case (Some e)
      then obtain es' where es: "es = e # es'" "rd_elements r1 = (Inr es', r')"
        using 1(2) nx Inr rd_elements_step(3) [of r e r1] by (auto split: prod.splits sum.splits)
      have nx': "next_element r = (Inr (Some e), r1)" using nx Inr Some by simp
      have "length (fst (rd_grammar r1)) \<ge> rd_base_depth r"
        using rd_open_end_count [OF st(1)] st(1,3) by (simp add: rd_inv_def)
      then show ?thesis
        using 1(1) [OF nx'[symmetric] refl refl es(2) st(1,2)] next_element_obeys_grammar [OF nx' 1(3,4)]
          es(1) st(3) by simp
    qed
  qed
qed

lemma validate_loop_elements:
  "validate_loop n r = (case rd_elements r of
      (Inl e, r') \<Rightarrow> (Inl e, r')
    | (Inr es, r') \<Rightarrow> (Inr (min (n + length es) USIZE_MAX), r'))" if "n \<le> USIZE_MAX"
  using that
proof (induction n r rule: validate_loop.induct)
  case (1 n r)
  show ?case
    by (subst validate_loop.simps, subst rd_elements.simps)
      (use 1 in \<open>auto split: prod.splits sum.splits option.splits\<close>)
qed

lemma rd_elements_progress:
  "rd_elements r = (Inr es, r') \<Longrightarrow> length es \<le> length (rd_buf r) - rd_pos r"
proof (induction r arbitrary: es r' rule: rd_elements.induct)
  case (1 r)
  obtain x r1 where nx: "next_element r = (x, r1)" by fastforce
  consider e where "x = Inl e" | "x = Inr None" | e where "x = Inr (Some e)"
    by (metis old.sum.exhaust option.exhaust)
  then show ?case
  proof cases
    case (3 e)
    then obtain es' where "es = e # es'" "rd_elements r1 = (Inr es', r')"
      using 1(2) nx rd_elements_step(3) [of r e r1] by (auto split: prod.splits sum.splits)
    then show ?thesis
      using 1(1) [OF nx [symmetric] 3 refl] nx 3 next_element_decreases [of r e r1] by fastforce
  qed (use 1(2) nx rd_elements_step(1,2) in auto)
qed

section \<open>Empty optional structures\<close>

text \<open>What \<^verbatim>\<open>first_empty_optional\<close> looks for, without a stack: a structure opened under a
  context tag and closed by the very next element.\<close>

fun empty_pair :: "Element list \<Rightarrow> Tag option" where
  "empty_pair (a # b # es) =
     (if el_value a = Container Structure \<and> tag_context (el_tag a) \<noteq> None \<and> el_value b = EndOfContainer
      then Some (el_tag a) else empty_pair (b # es))"
| "empty_pair _ = None"

definition opens :: "Element option \<Rightarrow> Tag \<Rightarrow> ContainerKind \<Rightarrow> bool" where
  "opens prev t k \<longleftrightarrow> prev = Some \<lparr>el_tag = t, el_value = Container k\<rparr>"

text \<open>The stack after \<open>prev\<close>: only the container \<open>prev\<close> opened can be still empty.\<close>

definition stack_tracks :: "Element option \<Rightarrow> open_containers \<Rightarrow> bool" where
  "stack_tracks prev os \<longleftrightarrow>
     (case os of
        [] \<Rightarrow> \<forall>t k. \<not> opens prev t k
      | (t, seen, k) # os' \<Rightarrow>
          (if seen then \<forall>t k. \<not> opens prev t k else opens prev t k) \<and> (\<forall>(_, seen', _) \<in> set os'. seen'))"

definition with_prev :: "Element option \<Rightarrow> Element list \<Rightarrow> Element list" where
  "with_prev prev es = (case prev of None \<Rightarrow> es | Some e \<Rightarrow> e # es)"

lemma length_mark_seen [simp]: "length (mark_seen os) = length os"
  by (cases os rule: mark_seen.cases) auto

lemma stack_tracks_step:
  assumes "empty_optional_step e os = Inr (Inr os')" and "stack_tracks prev os"
  shows "stack_tracks (Some e) os'"
proof (cases "el_value e")
  case (Container k)
  have "e = \<lparr>el_tag = el_tag e, el_value = Container k\<rparr>" using Container by (simp flip: Container)
  then show ?thesis
    using assms Container
    by (cases os rule: mark_seen.cases)
      (auto simp: empty_optional_step_def stack_tracks_def opens_def split: if_splits)
next
  case EndOfContainer
  then show ?thesis
    using assms
    by (cases os rule: mark_seen.cases; cases os')
      (auto simp: empty_optional_step_def stack_tracks_def opens_def split: if_splits)
qed (use assms in \<open>cases os rule: mark_seen.cases;
      force simp: empty_optional_step_def stack_tracks_def opens_def split: if_splits\<close>)+

lemma empty_optional_step_hit:
  assumes "empty_optional_step e os = Inr (Inl t)" and "stack_tracks prev os"
  shows "empty_pair (with_prev prev (e # es)) = Some t"
  using assms by (auto simp: empty_optional_step_def stack_tracks_def with_prev_def opens_def
      split: Value.splits list.splits if_splits)

lemma empty_optional_step_miss:
  assumes "empty_optional_step e os = Inr (Inr os')" and "stack_tracks prev os"
  shows "empty_pair (with_prev prev (e # es)) = empty_pair (e # es)"
proof -
  have "os' = tl os" and "\<not> (\<exists>t. opens prev t Structure \<and> tag_context t \<noteq> None)"
    if "el_value e = EndOfContainer"
    using that assms
    by (auto simp: empty_optional_step_def stack_tracks_def opens_def split: list.splits if_splits)
  then show ?thesis
    by (cases prev) (auto simp: with_prev_def opens_def)
qed

lemma empty_optional_step_ok:
  assumes "grammar_step e (ks, over) = Some (ks', over')" and "length os = length ks"
  shows "(\<exists>t. empty_optional_step e os = Inr (Inl t)) \<or>
    (\<exists>os'. empty_optional_step e os = Inr (Inr os') \<and> length os' = length ks')"
  using assms by (cases "el_value e"; cases os; cases ks rule: rev_cases)
    (auto simp: empty_optional_step_def MAX_DEPTH_def split: if_splits prod.splits)

lemma empty_optional_loop_pair:
  "rd_elements r = (Inr es, r') \<Longrightarrow> rd_finish r' = Inr () \<Longrightarrow> rd_inv r \<Longrightarrow> rd_live r \<Longrightarrow>
   length os = rd_depth r \<Longrightarrow> stack_tracks prev os \<Longrightarrow>
   empty_optional_loop os r = Inr (empty_pair (with_prev prev es))"
proof (induction es arbitrary: r os prev)
  case Nil
  have "next_element r = (Inr None, r')"
    using Nil(1) by (subst (asm) rd_elements.simps) (auto split: prod.splits sum.splits option.splits)
  moreover have "empty_pair (with_prev prev []) = None" by (cases prev) (simp_all add: with_prev_def)
  ultimately show ?case using Nil(2) by (subst empty_optional_loop.simps) simp
next
  case (Cons e es)
  obtain r1 where nx: "next_element r = (Inr (Some e), r1)" and es: "rd_elements r1 = (Inr es, r')"
    using Cons(2) by (subst (asm) rd_elements.simps) (auto split: prod.splits sum.splits option.splits)
  have st: "rd_inv r1" "rd_live r1"
    using rd_safeD [OF rd_safe_next_element nx] Cons(4,5) by (simp_all add: rd_steps_def rd_live_def)
  obtain ks over ks' over' where g: "rd_grammar r = (ks, over)" "rd_grammar r1 = (ks', over')" by fastforce
  have d: "length ks = rd_depth r" "length ks' = rd_depth r1"
    using rd_open_end_count [OF Cons(4)] rd_open_end_count [OF st(1)] g by simp_all
  have "grammar_step e (ks, over) = Some (ks', over')"
    using next_element_obeys_grammar [OF nx Cons(4,5)] g by simp
  then consider t where "empty_optional_step e os = Inr (Inl t)"
    | os' where "empty_optional_step e os = Inr (Inr os')" "length os' = rd_depth r1"
    using empty_optional_step_ok [of e ks over ks' over' os] Cons(6) d by fastforce
  then show ?case
  proof cases
    case (1 t)
    then show ?thesis
      using nx empty_optional_step_hit [OF 1 Cons(7)] by (subst empty_optional_loop.simps) simp
  next
    case (2 os')
    have "empty_optional_loop os' r1 = Inr (empty_pair (with_prev (Some e) es))"
      by (rule Cons.IH [OF es Cons(3) st 2(2) stack_tracks_step [OF 2(1) Cons(7)]])
    then show ?thesis
      using nx 2(1) empty_optional_step_miss [OF 2(1) Cons(7)]
      by (subst empty_optional_loop.simps) (simp add: with_prev_def)
  qed
qed

section \<open>Properties\<close>

lemma reader_new_state:
  "length buf \<le> USIZE_MAX \<Longrightarrow> rd_inv (reader_new buf)" "rd_live (reader_new buf)"
  "rd_base_depth (reader_new buf) = 0" "rd_grammar (reader_new buf) = ([], False)"
  by (simp_all add: reader_new_def rd_inv_def rd_base_depth_def rd_live_def rd_grammar_def MAX_DEPTH_def)

lemma document_reads_back:
  assumes "\<forall>e \<in> set es. element_ok e" and "grammar_run 0 es ([], False) = Some ([], True)"
    and "buf = concat (map element_bytes es)" and "length buf \<le> USIZE_MAX"
  shows "\<exists>r. rd_elements (reader_new buf) = (Inr es, r) \<and> rd_finish r = Inr ()"
proof -
  note s = reader_new_state(1) [OF assms(4)] reader_new_state(2-)
  have "rd_before (concat (map element_bytes es)) (reader_new buf)"
    using s(1) assms(3) by (simp add: rd_before_def reader_new_def)
  moreover have "length (rd_buf (reader_new buf))
      = rd_pos (reader_new buf) + length (concat (map element_bytes es))"
    using assms(3) by (simp add: reader_new_def)
  moreover have "es \<noteq> []" using assms(2) by auto
  ultimately obtain r where "rd_elements (reader_new buf) = (Inr es, r)" "rd_grammar r = ([], True)"
    "rd_is_empty r" "rd_inv r" "rd_base_depth r = 0"
    using rd_elements_reads_back [of es "reader_new buf" "([], True)"] assms(1,2) s by auto
  then show ?thesis by (auto simp: rd_finish_def rd_grammar_def rd_inv_def MAX_DEPTH_def)
qed

lemma document_validates:
  assumes "\<forall>e \<in> set es. element_ok e" and "grammar_run 0 es ([], False) = Some ([], True)"
    and "buf = concat (map element_bytes es)" and "length buf \<le> USIZE_MAX"
  shows "validate buf = Inr (length es)"
proof -
  obtain r where r: "rd_elements (reader_new buf) = (Inr es, r)" "rd_finish r = Inr ()"
    using document_reads_back [OF assms] by blast
  have "length es \<le> USIZE_MAX" using rd_elements_progress [OF r(1)] assms(4) by (simp add: reader_new_def)
  then show ?thesis using r by (simp add: validate_def validate_loop_elements)
qed

text \<open>A small document: a structure holding one number and one empty optional structure.\<close>

definition sample_document :: "Element list" where
  "sample_document =
     [\<lparr>el_tag = Anonymous, el_value = Container Structure\<rparr>,
      \<lparr>el_tag = Context 1, el_value = Unsigned 42\<rparr>,
      \<lparr>el_tag = Context 4, el_value = Container Structure\<rparr>,
      \<lparr>el_tag = Anonymous, el_value = EndOfContainer\<rparr>, \<lparr>el_tag = Anonymous, el_value = EndOfContainer\<rparr>]"

lemma sample_document_octets:
  "concat (map element_bytes sample_document) = [0x15, 0x24, 0x01, 0x2A, 0x35, 0x04, 0x18, 0x18]"
  by (simp add: sample_document_def element_bytes_def tag_control_bits_def width_for_unsigned_def)

lemma sample_document_ok:
  "\<forall>e \<in> set sample_document. element_ok e"
  "grammar_run 0 sample_document ([], False) = Some ([], True)"
  by (simp_all add: sample_document_def element_ok_def tag_allowed_def innermost_def tag_context_def
      tag_is_anonymous_def MAX_DEPTH_def)

text \<open>C11: \<^verbatim>\<open>TlvReader::validate\<close> is total, and it accepts a buffer exactly when its octets are one
  complete document of the grammar: every element is read, the tags are legal where they
  stand, containers nest and close, and nothing follows the top-level element; the count it
  returns is the number of elements.\<close>

theorem validate_iff_document:
  assumes "length buf \<le> USIZE_MAX"
  shows "validate buf = Inr n \<longleftrightarrow>
    (\<exists>es r. rd_elements (reader_new buf) = (Inr es, r) \<and> grammar_run 0 es ([], False) = Some ([], True)
      \<and> n = length es)"
proof (cases "rd_elements (reader_new buf)")
  case (Pair x r)
  note s = reader_new_state(1) [OF assms] reader_new_state(2-)
  show ?thesis
  proof (cases x)
    case (Inl e)
    then show ?thesis using Pair by (simp add: validate_def validate_loop_elements)
  next
    case (Inr es)
    have es: "rd_elements (reader_new buf) = (Inr es, r)" using Pair Inr by simp
    have "length es \<le> USIZE_MAX"
      using rd_elements_progress [OF es] assms by (simp add: reader_new_def)
    then have v: "validate buf = bindR (rd_finish r) (\<lambda>_. Inr (length es))"
      using es by (simp add: validate_def validate_loop_elements)
    note g = rd_elements_obeys_grammar [OF es s(1,2), unfolded s(3,4)]
    have "rd_finish r = Inr () \<longleftrightarrow> rd_grammar r = ([], True)"
      using g by (auto simp: rd_finish_def rd_grammar_def rd_inv_def MAX_DEPTH_def)
    then show ?thesis using g es by (auto simp: v bindR_ok_iff)
  qed
qed

theorem validate_iff_document_witness:
  "\<exists>es r. rd_elements (reader_new [0x15, 0x24, 0x01, 0x2A, 0x35, 0x04, 0x18, 0x18]) = (Inr es, r)
     \<and> grammar_run 0 es ([], False) = Some ([], True) \<and> 5 = length es"
proof -
  let ?buf = "[0x15, 0x24, 0x01, 0x2A, 0x35, 0x04, 0x18, 0x18] :: bytes"
  have "validate ?buf = Inr 5"
    using document_validates [OF sample_document_ok sample_document_octets [symmetric]]
    by (simp add: USIZE_MAX_def sample_document_def)
  then show ?thesis using validate_iff_document [of ?buf 5] by (simp add: USIZE_MAX_def)
qed

text \<open>On a document that \<^verbatim>\<open>validate\<close> accepts, \<^verbatim>\<open>first_empty_optional\<close> never errs, and its
  stack of open containers finds the first structure under a context tag that is closed by
  the element right after its opening, or \<open>None\<close> when there is none.\<close>

theorem first_empty_optional_is_adjacent:
  assumes "length buf \<le> USIZE_MAX" and "validate buf = Inr n"
    and "rd_elements (reader_new buf) = (Inr es, r)"
  shows "first_empty_optional buf = Inr (empty_pair es)"
proof -
  have "rd_finish r = Inr ()"
    using assms(2,3) by (auto simp: validate_def validate_loop_elements bindR_ok_iff)
  then have "empty_optional_loop [] (reader_new buf) = Inr (empty_pair (with_prev None es))"
    using assms(3) reader_new_state [of buf] assms(1)
    by (intro empty_optional_loop_pair) (simp_all add: reader_new_def stack_tracks_def opens_def)
  then show ?thesis by (simp add: first_empty_optional_def with_prev_def)
qed

theorem first_empty_optional_is_adjacent_witness:
  "first_empty_optional [0x15, 0x24, 0x01, 0x2A, 0x35, 0x04, 0x18, 0x18] = Inr (Some (Context 4))"
proof -
  let ?buf = "[0x15, 0x24, 0x01, 0x2A, 0x35, 0x04, 0x18, 0x18] :: bytes"
  note d = sample_document_ok sample_document_octets [symmetric]
  have l: "length ?buf \<le> USIZE_MAX" by (simp add: USIZE_MAX_def)
  have v: "validate ?buf = Inr 5"
    using document_validates [OF d l] by (simp add: sample_document_def)
  obtain r where r: "rd_elements (reader_new ?buf) = (Inr sample_document, r)"
    using document_reads_back [OF d l] by blast
  show ?thesis
    using first_empty_optional_is_adjacent [OF l v r] by (simp add: sample_document_def tag_context_def)
qed

end
