(* ===== verification/Tlv_Writer.thy ===== *)
theory Tlv_Writer
  imports Tlv_Reader
begin

text \<open>
  The push writer of \<^verbatim>\<open>src/src/tlv/writer.rs\<close>: every call that emits an element, the raw
  copies of elements encoded elsewhere, and the checkpoints that take a refused fragment
  back.  Each call is written with its partial effects: a string whose head fits and whose
  body does not leaves the head in the buffer, as the code does.

  Shown here: the writer refines the document grammar of \<^verbatim>\<open>Tlv_Reader\<close>, what it has written is
  read back element for element, and a rollback undoes any calls made since the checkpoint,
  the failed ones included.
\<close>

record TlvWriter =
  wr_buf :: bytes
  wr_pos :: nat
  wr_stack :: "ContainerKind list"
  wr_depth :: nat
  wr_top_level_done :: bool
  wr_started_inside :: bool

record Checkpoint =
  cp_pos :: nat
  cp_stack :: "ContainerKind list"
  cp_depth :: nat
  cp_top_level_done :: bool

definition writer_new :: "bytes \<Rightarrow> TlvWriter" where
  "writer_new buf = \<lparr>wr_buf = buf, wr_pos = 0, wr_stack = replicate MAX_DEPTH Structure,
     wr_depth = 0, wr_top_level_done = False, wr_started_inside = False\<rparr>"

definition writer_new_in :: "bytes \<Rightarrow> ContainerKind \<Rightarrow> TlvWriter" where
  "writer_new_in buf k = \<lparr>wr_buf = buf, wr_pos = 0, wr_stack = replicate MAX_DEPTH k,
     wr_depth = 1, wr_top_level_done = False, wr_started_inside = True\<rparr>"

definition wr_written :: "TlvWriter \<Rightarrow> bytes" where
  "wr_written w = (case slice_get (wr_buf w) 0 (wr_pos w) of None \<Rightarrow> [] | Some s \<Rightarrow> s)"

definition wr_checkpoint :: "TlvWriter \<Rightarrow> Checkpoint" where
  "wr_checkpoint w = \<lparr>cp_pos = wr_pos w, cp_stack = wr_stack w, cp_depth = wr_depth w,
     cp_top_level_done = wr_top_level_done w\<rparr>"

definition wr_rollback :: "Checkpoint \<Rightarrow> TlvWriter \<Rightarrow> TlvWriter" where
  "wr_rollback c w = w\<lparr>wr_pos := cp_pos c, wr_stack := cp_stack c, wr_depth := cp_depth c,
     wr_top_level_done := cp_top_level_done c\<rparr>"

definition wr_remaining :: "TlvWriter \<Rightarrow> nat" where
  "wr_remaining w = length (wr_buf w) - wr_pos w"

definition wr_finish :: "TlvWriter \<Rightarrow> bytes result" where
  "wr_finish w =
     (let base = (if wr_started_inside w then 1 else 0) in
      if wr_depth w \<noteq> base then Inl TlvContainerMismatch
      else if wr_started_inside w \<and> wr_pos w = 0 then Inl InvalidState
      else if \<not> wr_started_inside w \<and> \<not> wr_top_level_done w then Inl InvalidState
      else ok_or BufferTooSmall (slice_get (wr_buf w) 0 (wr_pos w)))"

text \<open>\<^verbatim>\<open>room(n)\<close>: the next \<open>n\<close> octets of the buffer, and what \<open>m\<close> does to them.\<close>

definition wr_room :: "nat \<Rightarrow> (bytes, 'a) mutator \<Rightarrow> (TlvWriter, 'a) mutator" where
  "wr_room n m w =
     (case usize_checked_add (wr_pos w) n of
        None \<Rightarrow> (Inl BufferTooSmall, w)
      | Some e \<Rightarrow>
          (case slice_get (wr_buf w) (wr_pos w) e of
             None \<Rightarrow> (Inl BufferTooSmall, w)
           | Some sl \<Rightarrow>
               (let (r, sl') = m sl in (r, w\<lparr>wr_buf := overwrite (wr_buf w) (wr_pos w) sl'\<rparr>))))"

definition wr_advance :: "nat \<Rightarrow> (TlvWriter, unit) mutator" where
  "wr_advance n w =
     (case usize_checked_add (wr_pos w) n of
        None \<Rightarrow> (Inl BufferTooSmall, w)
      | Some p \<Rightarrow> (Inr (), w\<lparr>wr_pos := p\<rparr>))"

definition wr_current :: "TlvWriter \<Rightarrow> ContainerKind option" where
  "wr_current w = current_container (wr_depth w) (wr_stack w)"

definition wr_check_tag :: "Tag \<Rightarrow> (TlvWriter, unit) mutator" where
  "wr_check_tag tag w =
     (if wr_depth w = 0 \<and> wr_top_level_done w then (Inl InvalidState, w)
      else ensureE TlvInvalidTag (tag_allowed (wr_current w) tag) w)"

definition wr_mark_done :: "TlvWriter \<Rightarrow> TlvWriter" where
  "wr_mark_done w = (if wr_depth w = 0 then w\<lparr>wr_top_level_done := True\<rparr> else w)"

text \<open>\<^verbatim>\<open>slot.first_mut()\<close> set to the control octet and the tag encoded into the rest.\<close>

definition head_slot :: "u8 \<Rightarrow> Tag \<Rightarrow> (bytes, unit) mutator" where
  "head_slot control tag sl =
     (case sl of
        [] \<Rightarrow> (Inl BufferTooSmall, sl)
      | _ # rest \<Rightarrow>
          (case tag_encode tag rest of
             (Inl e, rest') \<Rightarrow> (Inl e, control # rest')
           | (Inr _, rest') \<Rightarrow> (Inr (), control # rest')))"

definition wr_head :: "Tag \<Rightarrow> ElementType \<Rightarrow> (TlvWriter, unit) mutator" where
  "wr_head tag ty =
     bindE (wr_check_tag tag) (\<lambda>_.
     bindE (liftE (ok_or BufferTooSmall (usize_checked_add (tag_encoded_len tag) 1))) (\<lambda>total.
     bindE (wr_room total (head_slot (tag_control_bits tag OR element_type_bits ty) tag)) (\<lambda>_.
     bindE (wr_advance total) (\<lambda>_. modifyE wr_mark_done))))"

text \<open>\<^verbatim>\<open>let slot = self.room(n)?; write_le(slot, value, n)?; self.advance(n)\<close>\<close>

definition wr_le :: "u64 \<Rightarrow> nat \<Rightarrow> (TlvWriter, unit) mutator" where
  "wr_le value n = bindE (wr_room n (write_le value n)) (\<lambda>_. wr_advance n)"

text \<open>\<^verbatim>\<open>dst.get_mut(..n)\<close> replaced by \<open>n\<close> given octets.\<close>

definition wr_copy :: "bytes \<Rightarrow> (TlvWriter, unit) mutator" where
  "wr_copy bs = wr_room (length bs) (on_slice 0 (length bs) (\<lambda>_. (Inr (), bs)))"

definition wr_signed :: "Tag \<Rightarrow> i64 \<Rightarrow> (TlvWriter, unit) mutator" where
  "wr_signed tag v =
     (let w = width_for_signed v in
      bindE (wr_head tag (SignedInt w)) (\<lambda>_. wr_le v (width_octets w)))"

definition wr_unsigned :: "Tag \<Rightarrow> u64 \<Rightarrow> (TlvWriter, unit) mutator" where
  "wr_unsigned tag v =
     (let w = width_for_unsigned v in
      bindE (wr_head tag (UnsignedInt w)) (\<lambda>_. wr_le v (width_octets w)))"

definition wr_bool :: "Tag \<Rightarrow> bool \<Rightarrow> (TlvWriter, unit) mutator" where
  "wr_bool tag v = wr_head tag (BoolElt v)"

definition wr_null :: "Tag \<Rightarrow> (TlvWriter, unit) mutator" where
  "wr_null tag = wr_head tag NullElt"

definition wr_float :: "Tag \<Rightarrow> u32 \<Rightarrow> (TlvWriter, unit) mutator" where
  "wr_float tag v = bindE (wr_head tag FloatElt) (\<lambda>_. wr_le (ucast v) 4)"

definition wr_double :: "Tag \<Rightarrow> u64 \<Rightarrow> (TlvWriter, unit) mutator" where
  "wr_double tag v = bindE (wr_head tag DoubleElt) (\<lambda>_. wr_le v 8)"

definition wr_string :: "Tag \<Rightarrow> bytes \<Rightarrow> bool \<Rightarrow> (TlvWriter, unit) mutator" where
  "wr_string tag v utf8 =
     (let len = word_of_nat (length v) :: u64;
          w = width_for_unsigned len;
          ty = (if utf8 then Utf8Elt w else OctetsElt w) in
      bindE (wr_head tag ty) (\<lambda>_.
      bindE (wr_le len (width_octets w)) (\<lambda>_.
      bindE (wr_copy v) (\<lambda>_. wr_advance (length v)))))"

definition wr_utf8 :: "Tag \<Rightarrow> bytes \<Rightarrow> (TlvWriter, unit) mutator" where
  "wr_utf8 tag v = wr_string tag v True"

definition wr_octets :: "Tag \<Rightarrow> bytes \<Rightarrow> (TlvWriter, unit) mutator" where
  "wr_octets tag v = wr_string tag v False"

definition wr_octets_fill :: "Tag \<Rightarrow> nat \<Rightarrow> u8 \<Rightarrow> (TlvWriter, unit) mutator" where
  "wr_octets_fill tag len byte =
     (let length' = word_of_nat len :: u64;
          w = width_for_unsigned length' in
      bindE (wr_head tag (OctetsElt w)) (\<lambda>_.
      bindE (wr_le length' (width_octets w)) (\<lambda>_.
      bindE (wr_copy (replicate len byte)) (\<lambda>_. wr_advance len))))"

definition wr_start :: "Tag \<Rightarrow> ContainerKind \<Rightarrow> (TlvWriter, unit) mutator" where
  "wr_start tag kind =
     bindE getE (\<lambda>w.
     bindE (ensureE TlvDepthExceeded (wr_depth w < MAX_DEPTH)) (\<lambda>_.
     bindE (wr_head tag (container_element_type kind)) (\<lambda>_ w.
       if wr_depth w < length (wr_stack w)
       then (Inr (), w\<lparr>wr_stack := (wr_stack w)[wr_depth w := kind], wr_depth := wr_depth w + 1,
              wr_top_level_done := False\<rparr>)
       else (Inl TlvDepthExceeded, w))))"

definition wr_end_container :: "(TlvWriter, unit) mutator" where
  "wr_end_container w =
     (case checked_sub (wr_depth w) 1 of
        None \<Rightarrow> (Inl TlvContainerMismatch, w)
      | Some new_depth \<Rightarrow>
          bindE (wr_room 1 (\<lambda>sl. case sl of [] \<Rightarrow> (Inl BufferTooSmall, sl) | _ # r \<Rightarrow> (Inr (), 0x18 # r)))
            (\<lambda>_. bindE (wr_advance 1) (\<lambda>_. modifyE (\<lambda>w. wr_mark_done (w\<lparr>wr_depth := new_depth\<rparr>)))) w)"

text \<open>The validation both raw copies start with: exactly one element, its octets all read.\<close>

definition one_element :: "TlvReader \<Rightarrow> Element result" where
  "one_element r =
     (case next_element r of
        (Inl e, _) \<Rightarrow> Inl e
      | (Inr None, _) \<Rightarrow> Inl InvalidArgument
      | (Inr (Some first), r') \<Rightarrow>
          (case skip_value first r' of
             (Inl e, _) \<Rightarrow> Inl e
           | (Inr _, r'') \<Rightarrow> bindR (rd_finish r'') (\<lambda>_. Inr first)))"

text \<open>The slot \<^verbatim>\<open>raw_element_retagged\<close> fills: control octet, new tag, old value.\<close>

definition retag_slot :: "u8 \<Rightarrow> Tag \<Rightarrow> nat \<Rightarrow> bytes \<Rightarrow> (bytes, unit) mutator" where
  "retag_slot control tag hd_len val =
     bindE (head_slot control tag) (\<lambda>_.
       on_slice hd_len (hd_len + length val) (\<lambda>_. (Inr (), val)))"

definition wr_raw_element_retagged :: "bytes \<Rightarrow> Tag \<Rightarrow> (TlvWriter, unit) mutator" where
  "wr_raw_element_retagged bs tag =
     bindE (liftE (one_element (reader_new_in bs List))) (\<lambda>first.
     bindE (liftE (ok_or InvalidArgument (case bs of [] \<Rightarrow> None | c # _ \<Rightarrow> Some c))) (\<lambda>control.
     bindE (liftE (ok_or InvalidArgument (usize_checked_add (tag_encoded_len (el_tag first)) 1)))
       (\<lambda>value_start.
     bindE (liftE (ok_or InvalidArgument (slice_from bs value_start))) (\<lambda>val.
     bindE (wr_check_tag tag) (\<lambda>_.
     bindE (liftE (ok_or BufferTooSmall (usize_checked_add (tag_encoded_len tag) 1))) (\<lambda>head.
     bindE (liftE (ok_or BufferTooSmall (usize_checked_add head (length val)))) (\<lambda>total.
     bindE (wr_room total
       (retag_slot (tag_control_bits tag OR (control AND 0x1F)) tag head val)) (\<lambda>_.
     bindE (wr_advance total) (\<lambda>_. modifyE wr_mark_done)))))))))"

definition wr_raw_element :: "bytes \<Rightarrow> (TlvWriter, unit) mutator" where
  "wr_raw_element bs =
     bindE getE (\<lambda>w.
     bindE (liftE (one_element (case wr_current w of
         Some kind \<Rightarrow> reader_new_in bs kind | None \<Rightarrow> reader_new bs))) (\<lambda>first.
     bindE (wr_check_tag (el_tag first)) (\<lambda>_.
     bindE (wr_copy bs) (\<lambda>_.
     bindE (wr_advance (length bs)) (\<lambda>_. modifyE wr_mark_done)))))"

text \<open>One call per element, chosen by its value.\<close>

definition wr_element :: "Element \<Rightarrow> (TlvWriter, unit) mutator" where
  "wr_element e =
     (case el_value e of
        Signed v \<Rightarrow> wr_signed (el_tag e) v
      | Unsigned v \<Rightarrow> wr_unsigned (el_tag e) v
      | Bool v \<Rightarrow> wr_bool (el_tag e) v
      | Float v \<Rightarrow> wr_float (el_tag e) v
      | Double v \<Rightarrow> wr_double (el_tag e) v
      | Utf8 v \<Rightarrow> wr_utf8 (el_tag e) v
      | Octets v \<Rightarrow> wr_octets (el_tag e) v
      | Null \<Rightarrow> wr_null (el_tag e)
      | Container k \<Rightarrow> wr_start (el_tag e) k
      | EndOfContainer \<Rightarrow> wr_end_container)"

fun wr_elements :: "Element list \<Rightarrow> (TlvWriter, unit) mutator" where
  "wr_elements [] = retE ()"
| "wr_elements (e # es) = bindE (wr_element e) (\<lambda>_. wr_elements es)"

section \<open>What a successful call writes\<close>

definition wr_fits :: "bytes \<Rightarrow> TlvWriter \<Rightarrow> bool" where
  "wr_fits bs w \<longleftrightarrow> wr_pos w + length bs \<le> length (wr_buf w)"

definition wr_put :: "bytes \<Rightarrow> TlvWriter \<Rightarrow> TlvWriter" where
  "wr_put bs w = w\<lparr>wr_buf := overwrite (wr_buf w) (wr_pos w) bs, wr_pos := wr_pos w + length bs\<rparr>"

lemma wr_put_simps [simp]:
  "wr_pos (wr_put bs w) = wr_pos w + length bs" "wr_stack (wr_put bs w) = wr_stack w"
  "wr_depth (wr_put bs w) = wr_depth w" "wr_top_level_done (wr_put bs w) = wr_top_level_done w"
  "wr_started_inside (wr_put bs w) = wr_started_inside w"
  "wr_buf (wr_put bs w) = overwrite (wr_buf w) (wr_pos w) bs"
  by (simp_all add: wr_put_def)

lemma wr_put_put: "wr_fits (as @ bs) w \<Longrightarrow> wr_put bs (wr_put as w) = wr_put (as @ bs) w"
  using overwrite_overwrite [of "wr_pos w" as bs "wr_buf w"]
  by (simp add: wr_put_def wr_fits_def add.assoc)

lemma wr_fits_put: "wr_fits as w \<Longrightarrow> wr_fits bs (wr_put as w) \<longleftrightarrow> wr_fits (as @ bs) w"
  by (simp add: wr_fits_def add.assoc)

lemma wr_written_put:
  "wr_fits bs w \<Longrightarrow> wr_written (wr_put bs w) = wr_written w @ bs"
  by (simp add: wr_written_def wr_fits_def slice_get_def take_overwrite)

definition wr_sane :: "TlvWriter \<Rightarrow> bool" where
  "wr_sane w \<longleftrightarrow> wr_pos w \<le> length (wr_buf w) \<and> length (wr_buf w) \<le> USIZE_MAX"

text \<open>A step of a writer that puts exactly \<open>bs\<close>, or is refused for want of room.\<close>

definition puts :: "(TlvWriter, unit) mutator \<Rightarrow> bytes \<Rightarrow> bool" where
  "puts m bs \<longleftrightarrow> (\<forall>w. wr_sane w \<longrightarrow>
     (if wr_fits bs w then m w = (Inr (), wr_put bs w) else fst (m w) = Inl BufferTooSmall))"

lemma putsD:
  assumes "puts m bs" and "wr_sane w"
  shows "wr_fits bs w \<Longrightarrow> m w = (Inr (), wr_put bs w)"
    and "\<not> wr_fits bs w \<Longrightarrow> fst (m w) = Inl BufferTooSmall"
  using assms by (auto simp: puts_def)

lemma bindE_failed: "fst (m w) = Inl e \<Longrightarrow> fst (bindE m f w) = Inl e"
  by (cases "m w") (simp add: bindE_def)

lemma puts_seq:
  assumes "puts m as" and "puts m' bs" shows "puts (bindE m (\<lambda>_. m')) (as @ bs)"
  unfolding puts_def
proof (intro allI impI)
  fix w :: TlvWriter
  assume l: "wr_sane w"
  show "if wr_fits (as @ bs) w then bindE m (\<lambda>_. m') w = (Inr (), wr_put (as @ bs) w)
    else fst (bindE m (\<lambda>_. m') w) = Inl BufferTooSmall"
  proof (cases "wr_fits as w")
    case True
    have l': "wr_sane (wr_put as w)" using l True by (simp add: wr_fits_def wr_sane_def)
    show ?thesis
      using putsD(1) [OF assms(1) l True] putsD [OF assms(2) l'] wr_fits_put [OF True] wr_put_put by simp
  next
    case False
    then have "\<not> wr_fits (as @ bs) w" by (simp add: wr_fits_def wr_sane_def)
    then show ?thesis using bindE_failed putsD(2) [OF assms(1) l False] by fastforce
  qed
qed

text \<open>A room that is filled by octets that do not depend on what it held, and then passed.\<close>

lemma puts_room:
  assumes fill: "\<And>sl. length sl = n \<Longrightarrow> m sl = (Inr x, bs)" and "length bs = n"
  shows "puts (bindE (wr_room n m) (\<lambda>_. wr_advance n)) bs"
  unfolding puts_def
proof (intro allI impI)
  fix w :: TlvWriter
  assume l: "wr_sane w"
  show "if wr_fits bs w then bindE (wr_room n m) (\<lambda>_. wr_advance n) w = (Inr (), wr_put bs w)
    else fst (bindE (wr_room n m) (\<lambda>_. wr_advance n) w) = Inl BufferTooSmall"
  proof (cases "wr_fits bs w")
    case True
    then have "wr_room n m w = (Inr x, w\<lparr>wr_buf := overwrite (wr_buf w) (wr_pos w) bs\<rparr>)"
      using l fill assms(2) by (simp add: wr_room_def usize_checked_add_def slice_get_def wr_fits_def wr_sane_def)
    then show ?thesis
      using True l assms(2) by (simp add: wr_advance_def usize_checked_add_def wr_fits_def wr_sane_def wr_put_def)
  next
    case False
    then have "fst (wr_room n m w) = Inl BufferTooSmall"
      using assms(2) by (auto simp: wr_room_def usize_checked_add_def slice_get_def wr_fits_def wr_sane_def)
    then show ?thesis using False bindE_failed by fastforce
  qed
qed

lemma puts_ret: "puts (retE ()) []"
  by (simp add: puts_def wr_fits_def wr_put_def wr_sane_def overwrite_def)

lemma puts_le: "n \<le> 8 \<Longrightarrow> puts (wr_le v n) (to_le n (unat v))"
  unfolding wr_le_def by (rule puts_room) (simp_all add: write_le_ok)

lemma puts_copy: "puts (bindE (wr_copy bs) (\<lambda>_. wr_advance (length bs))) bs"
  unfolding wr_copy_def
  by (rule puts_room) (simp_all add: on_slice_def slice_get_def overwrite_def)

lemma puts_string:
  assumes "length v \<le> USIZE_MAX"
  shows "puts (bindE (wr_le (word_of_nat (length v))
       (width_octets (width_for_unsigned (word_of_nat (length v)))))
     (\<lambda>_. bindE (wr_copy v) (\<lambda>_. wr_advance (length v)))) (string_bytes v)"
proof -
  let ?len = "word_of_nat (length v) :: u64"
  have "width_octets (width_for_unsigned ?len) \<le> 8" by (simp add: width_for_unsigned_def)
  note p = puts_seq [OF puts_le [OF this, of ?len] puts_copy [of v]]
  have "unat ?len = length v" using assms by (intro unat_of_nat_small) (simp add: USIZE_MAX_def)
  then show ?thesis using p by (simp only: string_bytes_def)
qed

lemma head_slot_fill:
  "length sl = tag_encoded_len t + 1 \<Longrightarrow> head_slot c t sl = (Inr (), c # tag_bytes t)"
  by (cases sl) (simp_all add: head_slot_def tag_encode_ok)

text \<open>Why a position refuses a tag.\<close>

definition tag_refusal :: "Tag \<Rightarrow> TlvWriter \<Rightarrow> ErrorCode option" where
  "tag_refusal t w =
     (if wr_depth w = 0 \<and> wr_top_level_done w then Some InvalidState
      else if \<not> tag_allowed (wr_current w) t then Some TlvInvalidTag else None)"

lemma wr_check_tag_eq:
  "wr_check_tag t w = ((case tag_refusal t w of None \<Rightarrow> Inr () | Some e \<Rightarrow> Inl e), w)"
  by (simp add: wr_check_tag_def tag_refusal_def)

lemma wr_mark_done_put: "wr_put bs (wr_mark_done w) = wr_mark_done (wr_put bs w)"
  "wr_fits bs (wr_mark_done w) = wr_fits bs w" "wr_buf (wr_mark_done w) = wr_buf w"
  "wr_pos (wr_mark_done w) = wr_pos w"
  by (simp_all add: wr_mark_done_def wr_put_def wr_fits_def wr_sane_def)

text \<open>Checking a tag, putting \<open>as\<close>, marking, and going on to put \<open>bs\<close>.\<close>

lemma marked_outcome:
  assumes "puts p as" and "puts m bs" and "wr_sane w"
  shows "wr_fits (as @ bs) w \<Longrightarrow> bindE (bindE p (\<lambda>_. modifyE wr_mark_done)) (\<lambda>_. m) w
      = (Inr (), wr_mark_done (wr_put (as @ bs) w))"
    and "\<not> wr_fits (as @ bs) w \<Longrightarrow>
      fst (bindE (bindE p (\<lambda>_. modifyE wr_mark_done)) (\<lambda>_. m) w) = Inl BufferTooSmall"
proof -
  have l': "wr_fits as w \<Longrightarrow> wr_sane (wr_mark_done (wr_put as w))"
    using assms(3) by (simp add: wr_fits_def wr_sane_def wr_mark_done_put)
  have f: "wr_fits (as @ bs) w \<Longrightarrow> wr_fits as w" by (simp add: wr_fits_def wr_sane_def)
  show "wr_fits (as @ bs) w \<Longrightarrow> bindE (bindE p (\<lambda>_. modifyE wr_mark_done)) (\<lambda>_. m) w
      = (Inr (), wr_mark_done (wr_put (as @ bs) w))"
    using putsD(1) [OF assms(1,3) f] putsD(1) [OF assms(2) l' [OF f]] f wr_fits_put
    by (simp add: wr_mark_done_put wr_put_put)
  show "\<not> wr_fits (as @ bs) w \<Longrightarrow>
      fst (bindE (bindE p (\<lambda>_. modifyE wr_mark_done)) (\<lambda>_. m) w) = Inl BufferTooSmall"
  proof (cases "wr_fits as w")
    case True
    assume "\<not> wr_fits (as @ bs) w"
    then show ?thesis
      using putsD(1) [OF assms(1,3) True] putsD(2) [OF assms(2) l' [OF True]] True wr_fits_put
      by (simp add: wr_mark_done_put)
  next
    case False
    then show ?thesis using bindE_failed putsD(2) [OF assms(1,3) False] by metis
  qed
qed

definition head_bytes :: "Tag \<Rightarrow> ElementType \<Rightarrow> bytes" where
  "head_bytes t ty = (tag_control_bits t OR element_type_bits ty) # tag_bytes t"

lemma bindE_assoc: "bindE (bindE m f) g = bindE m (\<lambda>a. bindE (f a) g)"
  by (rule ext) (auto simp: bindE_def split: prod.splits sum.splits)

lemma wr_head_outcome:
  assumes "puts m bs" and "wr_sane w"
  shows "tag_refusal t w = Some e \<Longrightarrow> bindE (wr_head t ty) (\<lambda>_. m) w = (Inl e, w)"
    and "tag_refusal t w = None \<Longrightarrow> wr_fits (head_bytes t ty @ bs) w \<Longrightarrow>
      bindE (wr_head t ty) (\<lambda>_. m) w = (Inr (), wr_mark_done (wr_put (head_bytes t ty @ bs) w))"
    and "tag_refusal t w = None \<Longrightarrow> \<not> wr_fits (head_bytes t ty @ bs) w \<Longrightarrow>
      fst (bindE (wr_head t ty) (\<lambda>_. m) w) = Inl BufferTooSmall"
proof -
  let ?n = "tag_encoded_len t + 1" and ?c = "tag_control_bits t OR element_type_bits ty"
  let ?p = "bindE (wr_room ?n (head_slot ?c t)) (\<lambda>_. wr_advance ?n)"
  have "usize_checked_add (tag_encoded_len t) 1 = Some ?n"
    using tag_encoded_len_le [of t] by (simp add: usize_checked_add_def USIZE_MAX_def)
  then have h: "wr_head t ty = bindE (wr_check_tag t) (\<lambda>_. bindE ?p (\<lambda>_. modifyE wr_mark_done))"
    by (intro ext) (simp add: wr_head_def bindE_assoc, simp add: bindE_def split: prod.splits sum.splits)
  have "puts ?p (head_bytes t ty)"
    by (rule puts_room) (simp_all add: head_slot_fill head_bytes_def)
  note o = marked_outcome [OF this assms]
  show "tag_refusal t w = Some e \<Longrightarrow> bindE (wr_head t ty) (\<lambda>_. m) w = (Inl e, w)"
    by (simp add: h bindE_assoc wr_check_tag_eq)
  have ok: "bindE (wr_head t ty) (\<lambda>_. m) w = bindE (bindE ?p (\<lambda>_. modifyE wr_mark_done)) (\<lambda>_. m) w"
    if "tag_refusal t w = None"
    using that by (simp add: h bindE_assoc wr_check_tag_eq)
  show "tag_refusal t w = None \<Longrightarrow> wr_fits (head_bytes t ty @ bs) w \<Longrightarrow>
      bindE (wr_head t ty) (\<lambda>_. m) w = (Inr (), wr_mark_done (wr_put (head_bytes t ty @ bs) w))"
    using ok o(1) by metis
  show "tag_refusal t w = None \<Longrightarrow> \<not> wr_fits (head_bytes t ty @ bs) w \<Longrightarrow>
      fst (bindE (wr_head t ty) (\<lambda>_. m) w) = Inl BufferTooSmall"
    using ok o(2) by metis
qed

section \<open>The writer refines the grammar\<close>

definition wr_inv :: "TlvWriter \<Rightarrow> bool" where
  "wr_inv w \<longleftrightarrow> wr_sane w \<and> length (wr_stack w) = MAX_DEPTH \<and> wr_depth w \<le> MAX_DEPTH"

definition wr_grammar :: "TlvWriter \<Rightarrow> grammar_state" where
  "wr_grammar w = (take (wr_depth w) (wr_stack w), wr_depth w = 0 \<and> wr_top_level_done w)"

text \<open>What one successful call did: it appended the element's octets and took one step of
  the grammar.\<close>

definition wr_did :: "Element \<Rightarrow> TlvWriter \<Rightarrow> TlvWriter \<Rightarrow> bool" where
  "wr_did e w w' \<longleftrightarrow> wr_written w' = wr_written w @ element_bytes e
     \<and> wr_pos w' = wr_pos w + length (element_bytes e)
     \<and> grammar_step e (wr_grammar w) = Some (wr_grammar w') \<and> wr_inv w'
     \<and> wr_started_inside w' = wr_started_inside w"

lemma wr_written_cong: "wr_buf w = wr_buf w' \<Longrightarrow> wr_pos w = wr_pos w' \<Longrightarrow> wr_written w = wr_written w'"
  by (simp add: wr_written_def)

lemma wr_did_leaf:
  assumes "wr_inv w" and "value_container (el_value e) = None" and "el_value e \<noteq> EndOfContainer"
    and ok: "tag_refusal (el_tag e) w = None" and f: "wr_fits (element_bytes e) w" and w': "w' = wr_mark_done (wr_put (element_bytes e) w)"
  shows "wr_did e w w'"
proof -
  have "wr_written w' = wr_written w @ element_bytes e"
    unfolding w' wr_written_put [OF f, symmetric] by (rule wr_written_cong) (simp_all add: wr_mark_done_def)
  moreover have "tag_allowed (innermost (take (wr_depth w) (wr_stack w))) (el_tag e)"
    using assms(1) ok
    by (simp add: tag_refusal_def wr_current_def current_container_innermost wr_inv_def split: if_splits)
  moreover have "take (wr_depth w) (wr_stack w) = [] \<longleftrightarrow> wr_depth w = 0"
    using assms(1) by (auto simp: wr_inv_def MAX_DEPTH_def)
  ultimately show ?thesis
    using assms(1-3) ok f
    by (auto simp: wr_did_def w' wr_grammar_def grammar_step_value wr_mark_done_def wr_inv_def wr_fits_def wr_sane_def
        tag_refusal_def
        split: if_splits simp del: grammar_step.simps)
qed

text \<open>Why a call is refused, in the order the code decides it.\<close>

definition wr_refusal :: "Element \<Rightarrow> TlvWriter \<Rightarrow> ErrorCode option" where
  "wr_refusal e w =
     (let room = (if wr_fits (element_bytes e) w then None else Some BufferTooSmall) in
      if el_value e = EndOfContainer
      then (if wr_depth w = 0 then Some TlvContainerMismatch else room)
      else if value_container (el_value e) \<noteq> None \<and> \<not> wr_depth w < MAX_DEPTH then Some TlvDepthExceeded
      else case tag_refusal (el_tag e) w of Some err \<Rightarrow> Some err | None \<Rightarrow> room)"

definition wr_outcome :: "Element \<Rightarrow> TlvWriter \<Rightarrow> (TlvWriter, unit) mutator \<Rightarrow> bool" where
  "wr_outcome e w m \<longleftrightarrow>
     (case wr_refusal e w of
        Some err \<Rightarrow> fst (m w) = Inl err
      | None \<Rightarrow> (\<exists>w'. m w = (Inr (), w') \<and> wr_did e w w'))"

lemma head_bytes_element:
  "el_value e \<noteq> EndOfContainer \<Longrightarrow>
   head_bytes (el_tag e) (value_type (el_value e)) @ value_bytes (el_value e) = element_bytes e"
  by (simp add: head_bytes_def element_bytes_def)

lemma wr_outcome_leaf:
  assumes "wr_inv w" and "puts m (value_bytes (el_value e))"
    and v: "value_container (el_value e) = None" "el_value e \<noteq> EndOfContainer"
  shows "wr_outcome e w (bindE (wr_head (el_tag e) (value_type (el_value e))) (\<lambda>_. m))"
proof -
  have "wr_sane w" using assms(1) by (simp add: wr_inv_def)
  note o = wr_head_outcome [OF assms(2) this, where t = "el_tag e" and ty = "value_type (el_value e)",
      unfolded head_bytes_element [OF v(2)]]
  show ?thesis
  proof (cases "tag_refusal (el_tag e) w")
    case (Some err)
    then show ?thesis using o(1) v by (simp add: wr_outcome_def wr_refusal_def Let_def)
  next
    case None
    then show ?thesis
      using o(2,3) v wr_did_leaf [OF assms(1) v None]
      by (simp add: wr_outcome_def wr_refusal_def Let_def)
  qed
qed

lemma wr_outcome_bare:
  assumes "wr_inv w" and "value_bytes (el_value e) = []"
    and "value_container (el_value e) = None" "el_value e \<noteq> EndOfContainer"
  shows "wr_outcome e w (wr_head (el_tag e) (value_type (el_value e)))"
proof -
  have "bindE m (\<lambda>_. retE ()) = m" for m :: "(TlvWriter, unit) mutator"
    by (rule ext) (simp add: bindE_def split: prod.splits sum.splits)
  then show ?thesis
    using wr_outcome_leaf [OF assms(1) _ assms(3,4), of "retE ()"] puts_ret assms(2) by simp
qed

lemma wr_outcome_start:
  assumes "wr_inv w"
  shows "wr_outcome \<lparr>el_tag = t, el_value = Container k\<rparr> w (wr_start t k)"
proof -
  let ?e = "\<lparr>el_tag = t, el_value = Container k\<rparr>"
  let ?h = "bindE (wr_head t (container_element_type k)) (\<lambda>_. retE ())"
  have b: "head_bytes t (container_element_type k) @ [] = element_bytes ?e"
    using head_bytes_element [of ?e] by simp
  have "bindE m (\<lambda>_. retE ()) = m" for m :: "(TlvWriter, unit) mutator"
    by (rule ext) (simp add: bindE_def split: prod.splits sum.splits)
  note o = wr_head_outcome [OF puts_ret, where w = w and t = t and ty = "container_element_type k",
      unfolded b this]
  have s: "wr_sane w" using assms by (simp add: wr_inv_def)
  consider "\<not> wr_depth w < MAX_DEPTH" | err where "wr_depth w < MAX_DEPTH" "tag_refusal t w = Some err"
    | "wr_depth w < MAX_DEPTH" "tag_refusal t w = None" "\<not> wr_fits (element_bytes ?e) w"
    | "wr_depth w < MAX_DEPTH" "tag_refusal t w = None" "wr_fits (element_bytes ?e) w"
    by fastforce
  then show ?thesis
  proof cases
    case 1
    then show ?thesis by (simp add: wr_outcome_def wr_refusal_def wr_start_def)
  next
    case (2 err)
    then show ?thesis using o(1) [OF s] by (simp add: wr_outcome_def wr_refusal_def wr_start_def)
  next
    case 3
    then have "fst (wr_start t k w) = Inl BufferTooSmall"
      using o(3) [OF s] by (simp add: wr_start_def bindE_failed)
    then show ?thesis using 3 by (simp add: wr_outcome_def wr_refusal_def)
  next
    case 4
    let ?w1 = "wr_mark_done (wr_put (element_bytes ?e) w)"
    let ?w' = "?w1\<lparr>wr_stack := (wr_stack w)[wr_depth w := k], wr_depth := wr_depth w + 1, wr_top_level_done := False\<rparr>"
    have st: "wr_stack ?w1 = wr_stack w" "wr_depth ?w1 = wr_depth w" by (simp_all add: wr_mark_done_def)
    have "wr_start t k w = (Inr (), ?w')"
      using 4 o(2) [OF s] assms by (simp add: wr_start_def st wr_inv_def)
    moreover have "wr_written ?w' = wr_written w @ element_bytes ?e"
      unfolding wr_written_put [OF 4(3), symmetric] by (rule wr_written_cong) (simp_all add: wr_mark_done_def)
    moreover have "tag_allowed (innermost (take (wr_depth w) (wr_stack w))) t" "\<not> (wr_depth w = 0 \<and> wr_top_level_done w)"
      using assms 4(2)
      by (auto simp: tag_refusal_def wr_current_def current_container_innermost wr_inv_def split: if_splits)
    ultimately show ?thesis
      using 4 assms
      by (auto simp: wr_outcome_def wr_refusal_def wr_did_def wr_grammar_def wr_mark_done_def wr_inv_def
          wr_fits_def wr_sane_def take_Suc_conv_app_nth)
  qed
qed

lemma wr_outcome_end:
  assumes "wr_inv w"
  shows "wr_outcome \<lparr>el_tag = Anonymous, el_value = EndOfContainer\<rparr> w wr_end_container"
proof (cases "wr_depth w")
  case 0
  then show ?thesis by (simp add: wr_outcome_def wr_refusal_def wr_end_container_def)
next
  case (Suc d)
  let ?e = "\<lparr>el_tag = Anonymous, el_value = EndOfContainer\<rparr>"
  let ?m = "\<lambda>sl :: bytes. case sl of [] \<Rightarrow> (Inl BufferTooSmall, sl) | _ # r \<Rightarrow> (Inr (), 0x18 # r)"
  let ?p = "bindE (wr_room 1 ?m) (\<lambda>_. wr_advance 1)"
  have b: "element_bytes ?e = [0x18]" by (simp add: element_bytes_def)
  have "?m sl = (Inr (), [0x18])" if "length sl = 1" for sl using that by (cases sl) auto
  then have p: "puts ?p [0x18]" by (rule puts_room) simp_all
  have s: "wr_sane w" using assms by (simp add: wr_inv_def)
  have e: "wr_end_container w = bindE ?p (\<lambda>_. modifyE (\<lambda>w. wr_mark_done (w\<lparr>wr_depth := d\<rparr>))) w"
    using Suc by (simp add: wr_end_container_def bindE_assoc)
  show ?thesis
  proof (cases "wr_fits [0x18] w")
    case False
    then have "fst (wr_end_container w) = Inl BufferTooSmall"
      unfolding e by (intro bindE_failed putsD(2) [OF p s])
    then show ?thesis using False Suc by (simp add: wr_outcome_def wr_refusal_def b)
  next
    case True
    let ?w' = "wr_mark_done ((wr_put [0x18] w)\<lparr>wr_depth := d\<rparr>)"
    have "wr_end_container w = (Inr (), ?w')" unfolding e using putsD(1) [OF p s True] by simp
    moreover have "wr_written ?w' = wr_written w @ [0x18]"
      unfolding wr_written_put [OF True, symmetric] by (rule wr_written_cong) (simp_all add: wr_mark_done_def)
    moreover have "take d (wr_stack w) = butlast (take (wr_depth w) (wr_stack w))"
      using assms Suc by (simp add: butlast_take wr_inv_def)
    moreover have "butlast (take (wr_depth w) (wr_stack w)) = [] \<longleftrightarrow> d = 0"
      using assms Suc by (auto simp: wr_inv_def MAX_DEPTH_def length_0_conv [symmetric] simp del: length_0_conv)
    ultimately show ?thesis
      using assms Suc True
      by (auto simp: wr_outcome_def wr_refusal_def b wr_did_def wr_grammar_def wr_mark_done_def wr_inv_def
          wr_fits_def wr_sane_def)
  qed
qed

lemma wr_element_outcome:
  assumes "wr_inv w" and "element_ok e"
  shows "wr_outcome e w (wr_element e)"
proof (cases "el_value e")
  case (Signed v)
  have "width_octets (width_for_signed v) \<le> 8" by (cases "width_for_signed v") simp_all
  then show ?thesis
    using wr_outcome_leaf [OF assms(1), of _ e] puts_le [of _ v] Signed
    by (simp add: wr_element_def wr_signed_def Let_def wr_outcome_def)
next
  case (Unsigned v)
  have "width_octets (width_for_unsigned v) \<le> 8" by (cases "width_for_unsigned v") simp_all
  then show ?thesis
    using wr_outcome_leaf [OF assms(1), of _ e] puts_le [of _ v] Unsigned
    by (simp add: wr_element_def wr_unsigned_def Let_def wr_outcome_def)
next
  case (Bool v)
  then show ?thesis
    using wr_outcome_bare [OF assms(1), of e] by (simp add: wr_element_def wr_bool_def wr_outcome_def)
next
  case (Float v)
  then show ?thesis
    using wr_outcome_leaf [OF assms(1), of "wr_le (ucast v) 4" e] puts_le [of 4 "ucast v"]
    by (simp add: wr_element_def wr_float_def wr_outcome_def unat_ucast_word)
next
  case (Double v)
  then show ?thesis
    using wr_outcome_leaf [OF assms(1), of "wr_le v 8" e] puts_le [of 8 v]
    by (simp add: wr_element_def wr_double_def wr_outcome_def)
next
  case (Utf8 v)
  then show ?thesis
    using wr_outcome_leaf [OF assms(1), of _ e] puts_string [of v] assms(2)
    by (simp add: wr_element_def wr_utf8_def wr_string_def Let_def wr_outcome_def element_ok_def)
next
  case (Octets v)
  then show ?thesis
    using wr_outcome_leaf [OF assms(1), of _ e] puts_string [of v] assms(2)
    by (simp add: wr_element_def wr_octets_def wr_string_def Let_def wr_outcome_def element_ok_def)
next
  case Null
  then show ?thesis
    using wr_outcome_bare [OF assms(1), of e] by (simp add: wr_element_def wr_null_def wr_outcome_def)
next
  case (Container k)
  then obtain t where "e = \<lparr>el_tag = t, el_value = Container k\<rparr>" by (cases e) auto
  then show ?thesis using wr_outcome_start [OF assms(1), of t k] by (simp add: wr_element_def wr_outcome_def)
next
  case EndOfContainer
  then have "e = \<lparr>el_tag = Anonymous, el_value = EndOfContainer\<rparr>" using assms(2) by (simp add: element_ok_def)
  then show ?thesis using wr_outcome_end [OF assms(1)] by (simp add: wr_element_def wr_outcome_def)
qed

lemma wr_element_did:
  "wr_inv w \<Longrightarrow> wr_element e w = (Inr (), w') \<Longrightarrow> element_ok e \<Longrightarrow> wr_did e w w'"
  using wr_element_outcome [of w e] by (auto simp: wr_outcome_def split: option.splits)

lemma wr_elements_did:
  "wr_elements es w = (Inr (), w') \<Longrightarrow> wr_inv w \<Longrightarrow> \<forall>e \<in> set es. element_ok e \<Longrightarrow>
   wr_written w' = wr_written w @ concat (map element_bytes es)
     \<and> grammar_run 0 es (wr_grammar w) = Some (wr_grammar w') \<and> wr_inv w'
     \<and> wr_started_inside w' = wr_started_inside w"
proof (induction es arbitrary: w)
  case Nil
  then show ?case by simp
next
  case (Cons e es)
  then obtain w1 where w1: "wr_element e w = (Inr (), w1)" and es: "wr_elements es w1 = (Inr (), w')"
    by (auto elim: bindE_okE)
  have "wr_did e w w1" using wr_element_did [OF Cons(3) w1] Cons(4) by simp
  then show ?case using Cons.IH [OF es] Cons(4) by (auto simp: wr_did_def)
qed

text \<open>Closing the container a writer started inside ends the document: nothing can reopen it.\<close>

lemma grammar_step_closed: "grammar_step e g = Some ([], over) \<Longrightarrow> over"
  by (cases g; cases "el_value e") (auto split: if_splits)

lemma grammar_run_over: "grammar_run 0 es (ks, True) = Some g \<Longrightarrow> es = [] \<and> g = (ks, True)"
  by (cases es) auto

lemma grammar_run_stays_inside:
  "grammar_run 0 es g = Some g' \<Longrightarrow> fst g' \<noteq> [] \<Longrightarrow> grammar_run 1 es g = Some g'"
proof (induction es arbitrary: g)
  case Nil
  then show ?case by simp
next
  case (Cons e es)
  obtain g1 where g1: "grammar_step e g = Some g1" and r: "grammar_run 0 es g1 = Some g'"
    using Cons(2) by (auto split: option.splits)
  have "fst g1 \<noteq> []"
  proof
    assume "fst g1 = []"
    then have "g1 = ([], True)" using grammar_step_closed [of e g "snd g1"] g1 by (cases g1) simp
    then have "g' = ([], True)" using grammar_run_over [of es "[]" g'] r by simp
    then show False using Cons(3) by simp
  qed
  then show ?case using Cons.IH [OF r Cons(3)] g1 by (cases "fst g1") auto
qed

lemma writer_new_state:
  "length buf \<le> USIZE_MAX \<Longrightarrow> wr_inv (writer_new buf)" "wr_grammar (writer_new buf) = ([], False)"
  "length buf \<le> USIZE_MAX \<Longrightarrow> wr_inv (writer_new_in buf k)" "wr_grammar (writer_new_in buf k) = ([k], False)"
  "wr_written (writer_new buf) = []" "wr_written (writer_new_in buf k) = []"
  by (simp_all add: writer_new_def writer_new_in_def wr_inv_def wr_sane_def wr_grammar_def MAX_DEPTH_def
      wr_written_def slice_get_def)

lemma wr_stack_hd: "wr_inv w \<Longrightarrow> take (Suc 0) (wr_stack w) = [hd (wr_stack w)]"
  by (cases "wr_stack w") (auto simp: wr_inv_def MAX_DEPTH_def)

lemma wr_finish_ok:
  assumes "wr_finish w = Inr out" and "wr_inv w"
  shows "out = wr_written w" and "length out \<le> USIZE_MAX"
    and "wr_grammar w = (if wr_started_inside w then ([hd (wr_stack w)], False) else ([], True))"
    and "wr_started_inside w \<Longrightarrow> out \<noteq> []"
  using assms wr_stack_hd [OF assms(2)] by (auto simp: wr_finish_def Let_def wr_written_def ok_or_def wr_grammar_def wr_inv_def wr_sane_def
      slice_get_def MAX_DEPTH_def split: option.splits if_splits)

lemma wr_refusal_None_iff:
  assumes "wr_inv w" and "element_ok e"
  shows "wr_refusal e w = None \<longleftrightarrow>
    grammar_step e (wr_grammar w) \<noteq> None \<and> wr_fits (element_bytes e) w"
proof -
  have c: "current_container (wr_depth w) (wr_stack w) = innermost (take (wr_depth w) (wr_stack w))"
    and n: "take (wr_depth w) (wr_stack w) = [] \<longleftrightarrow> wr_depth w = 0"
    and l: "length (take (wr_depth w) (wr_stack w)) = wr_depth w"
    using assms(1) by (auto simp: current_container_innermost wr_inv_def MAX_DEPTH_def)
  show ?thesis
  proof (cases "el_value e = EndOfContainer")
    case True
    then show ?thesis
      using n assms(2) by (auto simp: wr_refusal_def Let_def wr_grammar_def element_ok_def split: if_splits)
  next
    case False
    then show ?thesis
      using c l by (auto simp: wr_refusal_def Let_def wr_grammar_def grammar_step_value tag_refusal_def
          wr_current_def simp del: grammar_step.simps split: option.splits)
  qed
qed

section \<open>What a call leaves alone\<close>

text \<open>Every call, refused or not, keeps the octets already written and the invariant.\<close>

definition wr_steps :: "TlvWriter \<Rightarrow> TlvWriter \<Rightarrow> bool" where
  "wr_steps w w' \<longleftrightarrow> length (wr_buf w') = length (wr_buf w) \<and> wr_pos w \<le> wr_pos w'
     \<and> take (wr_pos w) (wr_buf w') = take (wr_pos w) (wr_buf w)
     \<and> wr_started_inside w' = wr_started_inside w \<and> wr_inv w'"

definition wr_safe :: "(TlvWriter, 'a) mutator \<Rightarrow> bool" where
  "wr_safe m \<longleftrightarrow> (\<forall>w. wr_inv w \<longrightarrow> wr_steps w (snd (m w)))"

lemma wr_steps_refl: "wr_inv w \<Longrightarrow> wr_steps w w"
  by (simp add: wr_steps_def)

lemma wr_steps_trans: "wr_steps a b \<Longrightarrow> wr_steps b c \<Longrightarrow> wr_steps a c"
  unfolding wr_steps_def by (metis le_trans min.absorb1 take_take)

lemma wr_safe_bind: "wr_safe m \<Longrightarrow> (\<And>a. wr_safe (f a)) \<Longrightarrow> wr_safe (bindE m f)"
  unfolding wr_safe_def
proof (intro allI impI)
  fix w
  assume m: "\<forall>w. wr_inv w \<longrightarrow> wr_steps w (snd (m w))"
    and f: "\<And>a. \<forall>w. wr_inv w \<longrightarrow> wr_steps w (snd (f a w))" and i: "wr_inv w"
  obtain x w1 where p: "m w = (x, w1)" by (cases "m w")
  then have s: "wr_steps w w1" using m i by (metis snd_conv)
  then have "wr_inv w1" by (simp add: wr_steps_def)
  then show "wr_steps w (snd (bindE m f w))"
    using f s p wr_steps_trans by (cases x) (auto simp: bindE_def)
qed

lemma wr_safe_pure:
  "wr_safe (retE a)" "wr_safe (failE e)" "wr_safe (liftE x)" "wr_safe getE" "wr_safe (ensureE e b)"
  "wr_safe (wr_check_tag t)"
  by (simp_all add: wr_safe_def wr_steps_refl wr_check_tag_def)

lemma wr_safe_mark: "wr_safe (modifyE wr_mark_done)"
  by (simp add: wr_safe_def wr_steps_def wr_mark_done_def wr_inv_def wr_sane_def)

text \<open>What \<open>m\<close> does to a slice keeps its length, as every write through a Rust slice does.\<close>

definition in_place :: "(bytes, 'a) mutator \<Rightarrow> bool" where
  "in_place m \<longleftrightarrow> (\<forall>sl. length (snd (m sl)) = length sl)"

lemma in_place_bind: "in_place m \<Longrightarrow> (\<And>a. in_place (f a)) \<Longrightarrow> in_place (bindE m f)"
  unfolding in_place_def bindE_def by (auto split: prod.splits sum.splits) (metis snd_conv)+

lemma in_place_ret: "in_place (retE a)"
  by (simp add: in_place_def)

lemma in_place_slice:
  assumes "\<And>sl. length sl = b - a \<Longrightarrow> length (snd (m sl)) = b - a"
  shows "in_place (on_slice a b m)"
  unfolding in_place_def on_slice_def slice_get_def
proof
  fix out :: bytes
  have "length (snd (m (take (b - a) (drop a out)))) = b - a" if "a \<le> b" "b \<le> length out"
    using that by (intro assms) simp
  then show "length (snd (case if a \<le> b \<and> b \<le> length out then Some (take (b - a) (drop a out)) else None of
      None \<Rightarrow> (Inl BufferTooSmall, out)
    | Some sl \<Rightarrow> (let (r, sl') = m sl in (r, overwrite out a sl')))) = length out"
    by (auto simp: Let_def split: prod.splits)
qed

lemma in_place_inner: "in_place m \<Longrightarrow> in_place (on_slice a b m)"
  by (rule in_place_slice) (simp add: in_place_def)

lemma in_place_write_le: "in_place (write_le v n)"
proof -
  have "length (snd (write_le_loop vs ds)) = length ds" for vs ds
    by (induction vs ds rule: write_le_loop.induct) (auto simp: Let_def split: prod.splits)
  then show ?thesis unfolding write_le_def by (intro in_place_slice) simp
qed

lemma in_place_tag_encode: "in_place (tag_encode t)"
proof -
  have rest: "in_place (\<lambda>dst. on_slice 4 (length dst) (write_le v n) dst)" for v n
    using in_place_inner [OF in_place_write_le] by (simp add: in_place_def)
  have fq: "in_place (on_slice 0 4 (bindE (write_le v 2) (\<lambda>_. on_slice 2 4 (write_le p 2))))" for v p
    by (intro in_place_inner in_place_bind in_place_write_le)
  show ?thesis
    unfolding tag_encode_def Let_def
    by (intro in_place_bind in_place_inner in_place_ret; cases t)
      (auto intro!: in_place_bind fq in_place_ret in_place_write_le rest in_place_slice)
qed

lemma in_place_head_slot: "in_place (head_slot c t)"
  unfolding in_place_def
proof
  fix sl :: bytes
  show "length (snd (head_slot c t sl)) = length sl"
  proof (cases sl)
    case (Cons x rest)
    then show ?thesis
      using in_place_tag_encode [of t] unfolding in_place_def
      by (auto simp: head_slot_def split: prod.splits sum.splits) (metis snd_conv)+
  qed (simp add: head_slot_def)
qed

lemma wr_safe_room:
  assumes "in_place m"
  shows "wr_safe (bindE (wr_room n m) (\<lambda>_. wr_advance n))"
  unfolding wr_safe_def
proof (intro allI impI)
  fix w
  assume i: "wr_inv w"
  obtain r sl' where m: "m (take n (drop (wr_pos w) (wr_buf w))) = (r, sl')" by fastforce
  show "wr_steps w (snd (bindE (wr_room n m) (\<lambda>_. wr_advance n) w))"
  proof (cases "wr_pos w + n \<le> length (wr_buf w)")
    case True
    then have "length sl' = n" using assms m unfolding in_place_def by (metis length_drop length_take min.absorb2 nat_add_left_cancel_le le_add_diff_inverse i snd_conv wr_inv_def wr_sane_def)
    then show ?thesis
      using True i m by (cases r) (auto simp: bindE_def wr_room_def wr_advance_def usize_checked_add_def
          slice_get_def wr_steps_def wr_inv_def wr_sane_def)
  next
    case False
    then show ?thesis
      using i by (auto simp: bindE_def wr_room_def usize_checked_add_def slice_get_def wr_steps_refl)
  qed
qed

lemma wr_safe_then:
  assumes "in_place m" and "\<And>a. wr_safe (g a)"
  shows "wr_safe (bindE (wr_room n m) (\<lambda>_. bindE (wr_advance n) g))"
  using wr_safe_bind [OF wr_safe_room [OF assms(1), of n] assms(2)] by (simp add: bindE_assoc)

lemma wr_safe_le: "wr_safe (wr_le v n)"
  unfolding wr_le_def by (rule wr_safe_room [OF in_place_write_le])

lemma wr_safe_head: "wr_safe (wr_head t ty)"
  unfolding wr_head_def
  by (intro wr_safe_bind [OF wr_safe_pure(6)] wr_safe_bind [OF wr_safe_pure(3)]
      wr_safe_then in_place_head_slot wr_safe_mark)

lemma in_place_copy: "in_place (on_slice 0 (length bs) (\<lambda>_. (Inr (), bs)))"
  by (rule in_place_slice) simp

lemma wr_safe_copy: "wr_safe (bindE (wr_copy bs) (\<lambda>_. wr_advance (length bs)))"
  unfolding wr_copy_def by (rule wr_safe_room [OF in_place_copy])

lemma wr_safe_copy_then:
  "(\<And>a. wr_safe (g a)) \<Longrightarrow> wr_safe (bindE (wr_copy bs) (\<lambda>_. bindE (wr_advance (length bs)) g))"
  unfolding wr_copy_def by (rule wr_safe_then [OF in_place_copy])

lemma wr_safe_string: "wr_safe (wr_string t v u)"
  unfolding wr_string_def Let_def by (intro wr_safe_bind wr_safe_head wr_safe_le wr_safe_copy)

lemma wr_safe_octets_fill: "wr_safe (wr_octets_fill t n b)"
  unfolding wr_octets_fill_def Let_def
  using wr_safe_copy [of "replicate n b"] by (auto intro!: wr_safe_bind wr_safe_head wr_safe_le)

lemma wr_safe_start: "wr_safe (wr_start t k)"
proof -
  have "wr_safe (\<lambda>w. if wr_depth w < length (wr_stack w)
       then (Inr (), w\<lparr>wr_stack := (wr_stack w)[wr_depth w := k], wr_depth := wr_depth w + 1,
              wr_top_level_done := False\<rparr>)
       else (Inl TlvDepthExceeded, w))"
    by (auto simp: wr_safe_def wr_steps_def wr_inv_def wr_sane_def)
  then show ?thesis
    unfolding wr_start_def by (intro wr_safe_bind wr_safe_pure wr_safe_head)
qed

lemma wr_safe_end: "wr_safe wr_end_container"
proof -
  have p: "in_place (\<lambda>sl :: bytes. case sl of [] \<Rightarrow> (Inl BufferTooSmall, sl) | _ # r \<Rightarrow> (Inr (), 0x18 # r))"
    by (auto simp: in_place_def split: list.splits)
  have "wr_safe (modifyE (\<lambda>w. wr_mark_done (w\<lparr>wr_depth := d\<rparr>)))" if "d \<le> MAX_DEPTH" for d
    using that by (simp add: wr_safe_def wr_steps_def wr_mark_done_def wr_inv_def wr_sane_def)
  then have q: "wr_safe (bindE (wr_room 1 (\<lambda>sl. case sl of [] \<Rightarrow> (Inl BufferTooSmall, sl) | _ # r \<Rightarrow> (Inr (), 0x18 # r)))
      (\<lambda>_. bindE (wr_advance 1) (\<lambda>_. modifyE (\<lambda>w. wr_mark_done (w\<lparr>wr_depth := d\<rparr>)))))" if "d \<le> MAX_DEPTH" for d
    using that by (intro wr_safe_then p) blast
  show ?thesis
    unfolding wr_safe_def
  proof (intro allI impI)
    fix w
    assume i: "wr_inv w"
    show "wr_steps w (snd (wr_end_container w))"
    proof (cases "wr_depth w")
      case 0
      then show ?thesis using i by (simp add: wr_end_container_def wr_steps_refl)
    next
      case (Suc d)
      then have "d \<le> MAX_DEPTH" using i by (simp add: wr_inv_def)
      then show ?thesis using q [of d] i Suc by (simp add: wr_end_container_def wr_safe_def)
    qed
  qed
qed

lemma wr_safe_element: "wr_safe (wr_element e)"
  unfolding wr_element_def
  by (cases "el_value e")
    (auto simp: wr_signed_def wr_unsigned_def wr_bool_def wr_null_def wr_float_def wr_double_def
      wr_utf8_def wr_octets_def Let_def
      intro!: wr_safe_bind wr_safe_head wr_safe_le wr_safe_string wr_safe_start wr_safe_end)

lemma wr_safe_raw_element: "wr_safe (wr_raw_element bs)"
  unfolding wr_raw_element_def
  by (intro wr_safe_bind [OF wr_safe_pure(4)] wr_safe_bind [OF wr_safe_pure(3)]
      wr_safe_bind [OF wr_safe_pure(6)] wr_safe_copy_then wr_safe_mark)

lemma in_place_retag_slot: "in_place (retag_slot c t n val)"
  unfolding retag_slot_def by (intro in_place_bind in_place_head_slot in_place_slice) simp

lemma wr_safe_retagged: "wr_safe (wr_raw_element_retagged bs t)"
  unfolding wr_raw_element_retagged_def
  by (intro wr_safe_bind [OF wr_safe_pure(3)] wr_safe_bind [OF wr_safe_pure(6)]
      wr_safe_then in_place_retag_slot wr_safe_mark)

lemma wr_elements_complete:
  "grammar_run 0 es (wr_grammar w) = Some g \<Longrightarrow> wr_fits (concat (map element_bytes es)) w \<Longrightarrow>
   wr_inv w \<Longrightarrow> \<forall>e \<in> set es. element_ok e \<Longrightarrow> \<exists>w'. wr_elements es w = (Inr (), w')"
proof (induction es arbitrary: w)
  case Nil
  then show ?case by simp
next
  case (Cons e es)
  obtain g1 where g1: "grammar_step e (wr_grammar w) = Some g1" "grammar_run 0 es g1 = Some g"
    using Cons(2) by (auto split: option.splits)
  have "wr_fits (element_bytes e) w" using Cons(3) by (simp add: wr_fits_def)
  then have "wr_refusal e w = None" using wr_refusal_None_iff [of w e] Cons(4,5) g1(1) by simp
  then obtain w1 where w1: "wr_element e w = (Inr (), w1)" "wr_did e w w1"
    using wr_element_outcome [of w e] Cons(4,5) by (auto simp: wr_outcome_def)
  have "length (wr_buf w1) = length (wr_buf w)"
    using wr_safe_element [of e] Cons(4) w1(1) unfolding wr_safe_def wr_steps_def by (metis snd_conv)
  then have "wr_fits (concat (map element_bytes es)) w1"
    using Cons(3) w1(2) by (simp add: wr_fits_def wr_did_def)
  then show ?case using Cons.IH [of w1] Cons(5) g1 w1 by (auto simp: wr_did_def)
qed

text \<open>A program of writer calls, run to its end or to the first refusal.\<close>

datatype WriterCall =
    CallElement Element | CallOctetsFill Tag nat u8 | CallRaw bytes | CallRawRetagged bytes Tag

fun wr_call :: "WriterCall \<Rightarrow> (TlvWriter, unit) mutator" where
  "wr_call (CallElement e) = wr_element e"
| "wr_call (CallOctetsFill t n b) = wr_octets_fill t n b"
| "wr_call (CallRaw bs) = wr_raw_element bs"
| "wr_call (CallRawRetagged bs t) = wr_raw_element_retagged bs t"

fun wr_calls :: "WriterCall list \<Rightarrow> (TlvWriter, unit) mutator" where
  "wr_calls [] = retE ()"
| "wr_calls (c # cs) = bindE (wr_call c) (\<lambda>_. wr_calls cs)"

lemma wr_safe_calls: "wr_safe (wr_calls cs)"
proof (induction cs)
  case (Cons c cs)
  have "wr_safe (wr_call c)"
    by (cases c) (simp_all add: wr_safe_element wr_safe_octets_fill wr_safe_raw_element wr_safe_retagged)
  then show ?case using Cons by (simp add: wr_safe_bind)
qed (simp only: wr_calls.simps wr_safe_pure)

section \<open>Properties\<close>

lemma sample_document_written:
  "\<exists>w. wr_elements sample_document (writer_new (replicate 8 0)) = (Inr (), w)
     \<and> wr_finish w = Inr [0x15, 0x24, 0x01, 0x2A, 0x35, 0x04, 0x18, 0x18]"
proof -
  let ?w = "writer_new (replicate 8 0)"
  have i: "wr_inv ?w" by (rule writer_new_state(1)) (simp add: USIZE_MAX_def)
  have "wr_fits (concat (map element_bytes sample_document)) ?w"
    by (simp only: sample_document_octets wr_fits_def) (simp add: writer_new_def)
  then obtain w where w: "wr_elements sample_document ?w = (Inr (), w)"
    using wr_elements_complete [of sample_document ?w] i sample_document_ok by (auto simp: writer_new_state)
  note d = wr_elements_did [OF w i sample_document_ok(1)]
  then have "wr_grammar w = ([], True)" using sample_document_ok(2) by (simp add: writer_new_state)
  then have "wr_depth w = 0" "wr_top_level_done w" using d by (auto simp: wr_grammar_def wr_inv_def MAX_DEPTH_def)
  moreover have "\<not> wr_started_inside w" using d by (simp add: writer_new_def)
  moreover have "wr_written w = [0x15, 0x24, 0x01, 0x2A, 0x35, 0x04, 0x18, 0x18]"
    using d by (simp only: sample_document_octets writer_new_state append_Nil)
  ultimately have "wr_finish w = Inr [0x15, 0x24, 0x01, 0x2A, 0x35, 0x04, 0x18, 0x18]"
    using d by (simp add: wr_finish_def wr_written_def slice_get_def wr_inv_def wr_sane_def)
  then show ?thesis using w by blast
qed

lemma sample_fragment_written:
  "\<exists>w. wr_elements [\<lparr>el_tag = Context 2, el_value = Unsigned 42\<rparr>] (writer_new_in (replicate 8 0) Structure)
       = (Inr (), w) \<and> wr_finish w = Inr [0x24, 0x02, 0x2A]"
proof -
  let ?w = "writer_new_in (replicate 8 0) Structure" and ?e = "\<lparr>el_tag = Context 2, el_value = Unsigned 42\<rparr>"
  have i: "wr_inv ?w" by (rule writer_new_state(3)) (simp add: USIZE_MAX_def)
  have b: "element_bytes ?e = [0x24, 0x02, 0x2A]"
    by (simp add: element_bytes_def tag_control_bits_def width_for_unsigned_def)
  have ok: "\<forall>e \<in> set [?e]. element_ok e" by (simp add: element_ok_def)
  have g: "grammar_run 0 [?e] (wr_grammar ?w) = Some ([Structure], False)"
    by (simp add: writer_new_state tag_allowed_def innermost_def tag_is_anonymous_def)
  have "wr_fits (concat (map element_bytes [?e])) ?w" by (simp add: b wr_fits_def writer_new_in_def)
  then obtain w where w: "wr_elements [?e] ?w = (Inr (), w)" using wr_elements_complete [OF g _ i ok] by blast
  note d = wr_elements_did [OF w i ok]
  have "wr_written w = [0x24, 0x02, 0x2A]" using d by (simp add: b writer_new_state)
  moreover from this have "wr_pos w \<noteq> 0" by (cases "wr_pos w") (auto simp: wr_written_def slice_get_def split: if_splits)
  moreover have "wr_grammar w = ([Structure], False)" using d g by simp
  then have "length (take (wr_depth w) (wr_stack w)) = 1" by (simp add: wr_grammar_def)
  then have "wr_depth w = 1" using d by (simp add: wr_inv_def)
  moreover have "wr_started_inside w" using d by (simp add: writer_new_in_def)
  ultimately have "wr_finish w = Inr [0x24, 0x02, 0x2A]"
    using d by (simp add: wr_finish_def wr_written_def slice_get_def wr_inv_def wr_sane_def)
  then show ?thesis using w by blast
qed

text \<open>What the writer finishes, the reader reads: for every sequence of element calls (values, starts and
  ends of containers) that all succeed on a fresh writer and are finished, the reader returns exactly the written
  elements, in order, with their tags and values, reports the document complete, and
  \<^verbatim>\<open>validate\<close> counts them.\<close>

theorem writer_reader_roundtrip:
  assumes "length buf \<le> USIZE_MAX" and "\<forall>e \<in> set es. element_ok e"
    and "wr_elements es (writer_new buf) = (Inr (), w)" and "wr_finish w = Inr out"
  shows "(\<exists>r. rd_elements (reader_new out) = (Inr es, r) \<and> rd_finish r = Inr ())
    \<and> validate out = Inr (length es)"
proof -
  note d = wr_elements_did [OF assms(3) writer_new_state(1) [OF assms(1)] assms(2)]
  note f = wr_finish_ok [OF assms(4)]
  have "\<not> wr_started_inside w" using d by (simp add: writer_new_def)
  then have g: "grammar_run 0 es ([], False) = Some ([], True)"
    using d f(3) by (simp add: writer_new_state)
  have b: "out = concat (map element_bytes es)" using d f(1) by (simp add: writer_new_state)
  have l: "length out \<le> USIZE_MAX" using d f(2) by simp
  show ?thesis
    using document_reads_back [OF assms(2) g b l] document_validates [OF assms(2) g b l] by blast
qed

theorem writer_reader_roundtrip_witness:
  "(\<exists>r. rd_elements (reader_new [0x15, 0x24, 0x01, 0x2A, 0x35, 0x04, 0x18, 0x18]) = (Inr sample_document, r)
       \<and> rd_finish r = Inr ())
     \<and> validate [0x15, 0x24, 0x01, 0x2A, 0x35, 0x04, 0x18, 0x18] = Inr (length sample_document)"
proof -
  have l: "length (replicate 8 0 :: bytes) \<le> USIZE_MAX" by (simp add: USIZE_MAX_def)
  show ?thesis
    using sample_document_written writer_reader_roundtrip [OF l sample_document_ok(1)] by blast
qed

text \<open>A fragment written inside a container (\<^verbatim>\<open>new_in\<close>) is read back by a reader of members of
  the same container: the same elements in the same order, and the reader finishes. In
  particular no call sequence that finishes has closed the container it started in.\<close>

theorem fragment_roundtrip:
  assumes "length buf \<le> USIZE_MAX" and "\<forall>e \<in> set es. element_ok e"
    and "wr_elements es (writer_new_in buf k) = (Inr (), w)" and "wr_finish w = Inr out"
  shows "\<exists>r. rd_elements (reader_new_members out k) = (Inr es, r) \<and> rd_finish r = Inr ()"
proof -
  let ?r = "reader_new_members out k"
  note d = wr_elements_did [OF assms(3) writer_new_state(3) [OF assms(1)] assms(2)]
  note f = wr_finish_ok [OF assms(4)]
  have i: "wr_started_inside w" using d by (simp add: writer_new_in_def)
  obtain k' where g: "grammar_run 0 es ([k], False) = Some ([k'], False)"
    using d f(3) i by (auto simp: writer_new_state)
  have b: "out = concat (map element_bytes es)" using d f(1) by (simp add: writer_new_state)
  have "rd_inv ?r" using d f(2) by (simp add: reader_new_members_def rd_inv_def rd_base_depth_def MAX_DEPTH_def)
  then have "rd_before (concat (map element_bytes es)) ?r"
    using b by (simp add: rd_before_def reader_new_members_def)
  moreover have "grammar_run (rd_base_depth ?r) es (rd_grammar ?r) = Some ([k'], False)"
    using grammar_run_stays_inside [OF g]
    by (simp add: reader_new_members_def rd_base_depth_def rd_grammar_def MAX_DEPTH_def)
  moreover have "es \<noteq> []" using f(4) d i b by auto
  ultimately obtain r where "rd_elements ?r = (Inr es, r)" "rd_grammar r = ([k'], False)"
    "rd_is_empty r" "rd_inv r" "rd_base_depth r = 1" "rd_depth r = rd_base_depth r \<longrightarrow> rd_top_level_done r"
    using rd_elements_reads_back [of es ?r "([k'], False)"] assms(2) b
    by (auto simp: reader_new_members_def rd_live_def rd_base_depth_def)
  moreover from this have "rd_depth r = 1" using rd_open_end_count [of r] by simp
  ultimately show ?thesis by (simp add: rd_finish_def)
qed

theorem fragment_roundtrip_witness:
  "\<exists>r. rd_elements (reader_new_members [0x24, 0x02, 0x2A] Structure)
       = (Inr [\<lparr>el_tag = Context 2, el_value = Unsigned 42\<rparr>], r) \<and> rd_finish r = Inr ()"
proof -
  have l: "length (replicate 8 0 :: bytes) \<le> USIZE_MAX" by (simp add: USIZE_MAX_def)
  have ok: "\<forall>e \<in> set [\<lparr>el_tag = Context 2, el_value = Unsigned 42\<rparr>]. element_ok e"
    by (simp add: element_ok_def)
  show ?thesis using sample_fragment_written fragment_roundtrip [OF l ok] by blast
qed

text \<open>Each writer call on an element returns exactly the outcome its position calls for: the
  first of depth exceeded, document over, tag not legal here, no container to close and no
  room that applies, and otherwise it appends the element's octets and takes the grammar step.\<close>

theorem writer_call_outcome:
  assumes "wr_inv w" and "element_ok e"
  shows "case wr_refusal e w of
      Some err \<Rightarrow> fst (wr_element e w) = Inl err
    | None \<Rightarrow> (\<exists>w'. wr_element e w = (Inr (), w') \<and> wr_written w' = wr_written w @ element_bytes e
        \<and> grammar_step e (wr_grammar w) = Some (wr_grammar w') \<and> wr_inv w')"
  using wr_element_outcome [OF assms] by (auto simp: wr_outcome_def wr_did_def split: option.splits)

theorem writer_call_outcome_witness:
  "fst (wr_element \<lparr>el_tag = Context 1, el_value = Null\<rparr> (writer_new [0, 0])) = Inl TlvInvalidTag"
proof -
  have "wr_inv (writer_new [0, 0])" by (rule writer_new_state(1)) (simp add: USIZE_MAX_def)
  moreover have "wr_refusal \<lparr>el_tag = Context 1, el_value = Null\<rparr> (writer_new [0, 0]) = Some TlvInvalidTag"
    by (simp add: wr_refusal_def tag_refusal_def writer_new_def wr_current_def current_container_def
        tag_allowed_def tag_context_def)
  ultimately show ?thesis
    using writer_call_outcome [of "writer_new [0, 0]" "\<lparr>el_tag = Context 1, el_value = Null\<rparr>"]
    by (simp add: element_ok_def)
qed

text \<open>A rollback to a checkpoint undoes whatever calls were made since, the refused ones and
  the raw copies included: what was written, the open containers and the position are those
  of the checkpoint.\<close>

theorem rollback_restores:
  assumes "wr_inv w"
  shows "let w' = wr_rollback (wr_checkpoint w) (snd (wr_calls cs w)) in
    wr_written w' = wr_written w \<and> wr_grammar w' = wr_grammar w \<and> wr_pos w' = wr_pos w
    \<and> wr_remaining w' = wr_remaining w \<and> wr_started_inside w' = wr_started_inside w \<and> wr_inv w'"
proof -
  have "wr_steps w (snd (wr_calls cs w))" using wr_safe_calls assms by (simp add: wr_safe_def)
  then show ?thesis
    using assms by (auto simp: wr_steps_def wr_rollback_def wr_checkpoint_def wr_written_def wr_grammar_def
        wr_remaining_def slice_get_def wr_inv_def wr_sane_def Let_def)
qed

theorem rollback_restores_witness:
  "wr_written (wr_rollback (wr_checkpoint (writer_new [7, 7, 7]))
     (snd (wr_calls [CallElement \<lparr>el_tag = Anonymous, el_value = Null\<rparr>] (writer_new [7, 7, 7])))) = []"
proof -
  have "wr_inv (writer_new [7, 7, 7])" by (rule writer_new_state(1)) (simp add: USIZE_MAX_def)
  then show ?thesis
    using rollback_restores [of "writer_new [7, 7, 7]" "[CallElement \<lparr>el_tag = Anonymous, el_value = Null\<rparr>]"]
    by (simp add: Let_def writer_new_state)
qed

lemma bindE_liftE_Inr: "bindE (liftE (Inr a)) f = f a"
  by (rule ext) simp

lemma put_mark_ok:
  assumes "puts p bs" and "bindE p (\<lambda>_. modifyE wr_mark_done) w = (Inr (), w')" and "wr_inv w"
  shows "wr_fits bs w" and "w' = wr_mark_done (wr_put bs w)"
proof -
  have s: "wr_sane w" using assms(3) by (simp add: wr_inv_def)
  obtain w1 where p: "p w = (Inr (), w1)" "w' = wr_mark_done w1"
    using assms(2) by (auto elim!: bindE_okE)
  then show f: "wr_fits bs w" using putsD(2) [OF assms(1) s] by (cases "wr_fits bs w") simp_all
  show "w' = wr_mark_done (wr_put bs w)" using putsD(1) [OF assms(1) s f] p by simp
qed

lemma wr_written_mark: "wr_fits bs w \<Longrightarrow> wr_written (wr_mark_done (wr_put bs w)) = wr_written w @ bs"
proof -
  have "wr_written (wr_mark_done x) = wr_written x" for x
    by (rule wr_written_cong) (simp_all add: wr_mark_done_def)
  then show "wr_fits bs w \<Longrightarrow> ?thesis" by (simp only: wr_written_put)
qed

lemma one_element_first:
  assumes "one_element r = Inr e"
  shows "\<exists>r' r''. next_element r = (Inr (Some e), r') \<and> skip_value e r' = (Inr (), r'') \<and> rd_finish r'' = Inr ()"
proof -
  obtain x r' where nx: "next_element r = (x, r')" by fastforce
  then obtain first where x: "x = Inr (Some first)"
    using assms by (cases x) (auto simp: one_element_def split: option.splits)
  obtain y r'' where sk: "skip_value first r' = (y, r'')" by fastforce
  have "y = Inr () \<and> rd_finish r'' = Inr () \<and> first = e"
    using assms nx x sk by (cases y; cases "rd_finish r''") (simp_all add: one_element_def)
  then show ?thesis using nx x sk by auto
qed

text \<open>\<^verbatim>\<open>raw_element\<close> copies its octets verbatim or not at all: when it succeeds they were one
  complete element, read to their last octet under the rules of the position they go to,
  with a tag that position admits, and the writer's containers are as before.\<close>

theorem raw_element_verbatim:
  assumes "wr_inv w" and "wr_raw_element bs w = (Inr (), w')"
  shows "wr_written w' = wr_written w @ bs \<and> fst (wr_grammar w') = fst (wr_grammar w)
    \<and> (\<exists>e r r'. next_element (case wr_current w of Some k \<Rightarrow> reader_new_in bs k | None \<Rightarrow> reader_new bs)
          = (Inr (Some e), r)
        \<and> skip_value e r = (Inr (), r') \<and> rd_finish r' = Inr () \<and> tag_allowed (wr_current w) (el_tag e))"
proof -
  let ?r = "case wr_current w of Some k \<Rightarrow> reader_new_in bs k | None \<Rightarrow> reader_new bs"
  obtain e where e: "one_element ?r = Inr e" and t: "tag_refusal (el_tag e) w = None"
    and c: "bindE (wr_copy bs) (\<lambda>_. bindE (wr_advance (length bs)) (\<lambda>_. modifyE wr_mark_done)) w = (Inr (), w')"
    using assms(2) unfolding wr_raw_element_def
    by (cases "one_element ?r") (auto simp: bindE_ok_iff [of "wr_check_tag _"] wr_check_tag_eq split: option.splits)
  note w' = put_mark_ok [OF puts_copy c [folded bindE_assoc] assms(1)]
  have "wr_written w' = wr_written w @ bs" using wr_written_mark [OF w'(1)] w'(2) by simp
  moreover have "fst (wr_grammar w') = fst (wr_grammar w)"
    by (simp add: w'(2) wr_grammar_def wr_mark_done_def)
  moreover have "tag_allowed (wr_current w) (el_tag e)" using t by (simp add: tag_refusal_def split: if_splits)
  ultimately show ?thesis using one_element_first [OF e] by blast
qed

lemma retag_slot_fill:
  assumes "length sl = tag_encoded_len t + 1 + length val"
  shows "retag_slot c t (tag_encoded_len t + 1) val sl = (Inr (), c # tag_bytes t @ val)"
proof -
  obtain x rest where sl: "sl = x # rest" using assms by (cases sl) auto
  have "head_slot c t sl = (Inr (), c # tag_bytes t @ drop (tag_encoded_len t) rest)"
    using assms unfolding sl by (simp add: head_slot_def tag_encode_ok)
  then show ?thesis
    using assms unfolding sl
    by (simp add: retag_slot_def on_slice_def slice_get_def overwrite_def)
qed

lemma first_element_in:
  assumes "next_element (reader_new_in (element_bytes e @ rest) List) = (Inr (Some x), r)"
    and "element_ok e" and "el_value e \<noteq> EndOfContainer" and "length (element_bytes e @ rest) \<le> USIZE_MAX"
  shows "x = e"
proof -
  let ?r = "reader_new_in (element_bytes e @ rest) List"
  have "rd_inv ?r" using assms(4) by (simp add: reader_new_in_def rd_inv_def rd_base_depth_def MAX_DEPTH_def)
  then have b: "rd_before (element_bytes e) ?r" by (auto simp: rd_before_def reader_new_in_def)
  have g: "rd_grammar ?r = ([List], False)" by (simp add: reader_new_in_def rd_grammar_def MAX_DEPTH_def)
  have "\<exists>g. grammar_step e (rd_grammar ?r) = Some g \<and> rd_base_depth ?r \<le> length (fst g)"
    unfolding g using assms(3) grammar_step_value [of e "[List]" False]
    by (auto simp: innermost_def tag_allowed_def MAX_DEPTH_def rd_base_depth_def reader_new_in_def
        simp del: grammar_step.simps split: option.splits)
  then obtain r' where "next_element ?r = (Inr (Some e), r')"
    using next_element_reads_back [OF b assms(2)] by (auto simp: reader_new_in_def)
  then show ?thesis using assms(1) by simp
qed

text \<open>Re-tagging an element this crate's writer encoded changes its tag and nothing else: the
  octets appended are those of the same element, children included, under the new tag.\<close>

theorem retagged_element:
  assumes "wr_inv w" and "element_ok e" and "el_value e \<noteq> EndOfContainer"
    and "length (element_bytes e @ rest) \<le> USIZE_MAX"
    and "wr_raw_element_retagged (element_bytes e @ rest) t w = (Inr (), w')"
  shows "wr_written w' = wr_written w @ element_bytes (e\<lparr>el_tag := t\<rparr>) @ rest"
proof -
  let ?bs = "element_bytes e @ rest" and ?c = "tag_control_bits (el_tag e) OR element_type_bits (value_type (el_value e))"
  let ?h = "tag_encoded_len t + 1"
  have b: "?bs = ?c # tag_bytes (el_tag e) @ value_bytes (el_value e) @ rest"
    using assms(3) by (simp add: element_bytes_def)
  obtain x where x: "one_element (reader_new_in ?bs List) = Inr x"
    using assms(5) by (cases "one_element (reader_new_in ?bs List)") (simp_all add: wr_raw_element_retagged_def)
  obtain r where "next_element (reader_new_in ?bs List) = (Inr (Some x), r)" using one_element_first [OF x] by blast
  then have xe: "x = e" using first_element_in assms(2-4) by blast
  have small: "usize_checked_add (tag_encoded_len u) 1 = Some (tag_encoded_len u + 1)" for u
    using tag_encoded_len_le [of u] by (simp add: usize_checked_add_def USIZE_MAX_def)
  have val: "slice_from ?bs (tag_encoded_len (el_tag e) + 1) = Some (value_bytes (el_value e) @ rest)"
    unfolding b by (simp add: slice_from_def)
  let ?val = "value_bytes (el_value e) @ rest"
  let ?c' = "tag_control_bits t OR element_type_bits (value_type (el_value e))" and ?n = "?h + length ?val"
  have c': "tag_control_bits t OR (?c AND 0x1F) = ?c'" by (simp only: control_of_tag)
  have hd: "(case ?bs of [] \<Rightarrow> None | c # _ \<Rightarrow> Some c) = Some ?c" by (simp only: b list.case)
  have "bindE (wr_check_tag t) (\<lambda>_.
     bindE (liftE (ok_or BufferTooSmall (usize_checked_add ?h (length ?val)))) (\<lambda>total.
     bindE (wr_room total (retag_slot ?c' t ?h ?val)) (\<lambda>_.
     bindE (wr_advance total) (\<lambda>_. modifyE wr_mark_done)))) w = (Inr (), w')"
    using assms(5) unfolding wr_raw_element_retagged_def x xe hd small
    by (simp only: bindE_liftE_Inr ok_or_simps val x xe hd small c')
  then have t: "tag_refusal t w = None" and "bindE (liftE (ok_or BufferTooSmall (usize_checked_add ?h (length ?val)))) (\<lambda>total.
     bindE (wr_room total (retag_slot ?c' t ?h ?val)) (\<lambda>_.
     bindE (wr_advance total) (\<lambda>_. modifyE wr_mark_done))) w = (Inr (), w')"
    by (auto simp: bindE_ok_iff [of "wr_check_tag _"] wr_check_tag_eq split: option.splits)
  then have p: "bindE (wr_room ?n (retag_slot ?c' t ?h ?val)) (\<lambda>_.
     bindE (wr_advance ?n) (\<lambda>_. modifyE wr_mark_done)) w = (Inr (), w')"
    by (auto simp: usize_checked_add_def split: if_splits)
  have "puts (bindE (wr_room ?n (retag_slot ?c' t ?h ?val)) (\<lambda>_. wr_advance ?n)) (?c' # tag_bytes t @ ?val)"
    by (rule puts_room [OF retag_slot_fill]) simp_all
  note w' = put_mark_ok [OF this p [folded bindE_assoc] assms(1)]
  show ?thesis
    using wr_written_mark [OF w'(1)] w'(2) assms(3) by (simp add: element_bytes_def)
qed

section \<open>Concrete calls\<close>

lemma usize_small: "a + b \<le> 1000 \<Longrightarrow> usize_checked_add a b = Some (a + b)"
  by (simp add: usize_checked_add_def USIZE_MAX_def)

lemmas eval_simps = usize_small slice_get_def slice_from_def overwrite_def rd_take_def rd_remaining_def
  rd_advance_def rd_check_tag_def current_container_def checked_sub_def tag_allowed_def rd_mark_done_def
  rd_base_depth_def MAX_DEPTH_def rd_is_empty_def slice_of_def tag_decode_def

lemmas write_eval_simps = writer_new_def wr_check_tag_def wr_current_def tag_encoded_len_def tag_context_def
  wr_room_def retag_slot_def head_slot_def on_slice_def wr_advance_def wr_mark_done_def tag_control_bits_def
  wr_finish_def wr_copy_def eval_simps
lemmas read_eval_simps = next_element_def reader_new_def reader_new_in_def rd_element_def element_type_from_bits_def rd_tagged_def
      width_from_bits_def tag_control_from_bits_def read_le_u64_def tag_context_def eval_simps

lemma null_element_copied:
  "\<exists>w. wr_raw_element [0x14] (writer_new [0, 0]) = (Inr (), w)"
  by (simp add: wr_raw_element_def write_eval_simps one_element_def read_eval_simps skip_value_def rd_finish_def)

lemma null_element_retagged:
  "\<exists>w. wr_raw_element_retagged [0x34, 0x01] Anonymous (writer_new [0, 0]) = (Inr (), w)"
proof -
  have "one_element (reader_new_in [0x34, 0x01] List) = Inr \<lparr>el_tag = Context 1, el_value = Null\<rparr>"
    by (simp add: one_element_def read_eval_simps skip_value_def rd_finish_def)
  moreover have "tag_encode Anonymous [] = (Inr 0, [])"
    by (subst tag_encode_ok) (simp_all add: tag_encoded_len_def)
  ultimately show ?thesis
    by (simp add: wr_raw_element_retagged_def write_eval_simps)
qed

theorem raw_element_verbatim_witness:
  "\<exists>w. wr_raw_element [0x14] (writer_new [0, 0]) = (Inr (), w) \<and> wr_written w = [0x14]"
proof -
  have i: "wr_inv (writer_new [0, 0])" by (rule writer_new_state(1)) (simp add: USIZE_MAX_def)
  obtain w where w: "wr_raw_element [0x14] (writer_new [0, 0]) = (Inr (), w)"
    using null_element_copied by blast
  then show ?thesis using raw_element_verbatim [OF i w] by (simp add: writer_new_state)
qed

theorem retagged_element_witness:
  "\<exists>w. wr_raw_element_retagged [0x34, 0x01] Anonymous (writer_new [0, 0]) = (Inr (), w)
     \<and> wr_written w = [0x14]"
proof -
  let ?e = "\<lparr>el_tag = Context 1, el_value = Null\<rparr>"
  have i: "wr_inv (writer_new [0, 0])" by (rule writer_new_state(1)) (simp add: USIZE_MAX_def)
  have b: "element_bytes ?e = [0x34, 0x01]" "element_bytes (?e\<lparr>el_tag := Anonymous\<rparr>) = [0x14]"
    by (simp_all add: element_bytes_def tag_control_bits_def)
  obtain w where w: "wr_raw_element_retagged [0x34, 0x01] Anonymous (writer_new [0, 0]) = (Inr (), w)"
    using null_element_retagged by blast
  have "wr_written w = wr_written (writer_new [0, 0]) @ element_bytes (?e\<lparr>el_tag := Anonymous\<rparr>) @ []"
    by (rule retagged_element [OF i]) (use w b in \<open>simp_all add: element_ok_def USIZE_MAX_def\<close>)
  then show ?thesis using w b(2) by (simp add: writer_new_state)
qed

lemma wide_tag_read:
  "next_element (reader_new_in [0x64, 0x01, 0x00, 0x00, 0x00, 0x05] List)
     = (Inr (Some \<lparr>el_tag = Common 1, el_value = Unsigned 5\<rparr>),
        (reader_new_in [0x64, 0x01, 0x00, 0x00, 0x00, 0x05] List)\<lparr>rd_pos := 6, rd_top_level_done := True\<rparr>)"
  by (simp add: next_element_def reader_new_in_def rd_element_def element_type_from_bits_def rd_tagged_def
      width_from_bits_def tag_control_from_bits_def read_le_u32_def read_le_u64_def eval_simps)

lemma retag_wide_tag:
  "\<exists>w. wr_raw_element_retagged [0x64, 0x01, 0x00, 0x00, 0x00, 0x05] Anonymous (writer_new (replicate 8 0))
      = (Inr (), w) \<and> wr_finish w = Inr [0x04, 0x00, 0x00, 0x05]"
proof -
  let ?bs = "[0x64, 0x01, 0x00, 0x00, 0x00, 0x05] :: bytes"
  have one: "one_element (reader_new_in ?bs List) = Inr \<lparr>el_tag = Common 1, el_value = Unsigned 5\<rparr>"
    unfolding one_element_def wide_tag_read
    by (simp add: skip_value_def rd_finish_def reader_new_in_def rd_base_depth_def rd_is_empty_def)
  have rep: "replicate 8 (0 :: u8) = [0, 0, 0, 0, 0, 0, 0, 0]" by (simp add: eval_nat_numeral)
  have "tag_encode Anonymous [0, 0, 0] = (Inr 0, [0, 0, 0])"
    by (subst tag_encode_ok) (simp_all add: tag_encoded_len_def)
  then show ?thesis
    unfolding wr_raw_element_retagged_def one rep
    by (simp add: writer_new_def wr_check_tag_def wr_current_def tag_encoded_len_def tag_context_def
        wr_room_def retag_slot_def head_slot_def on_slice_def wr_advance_def wr_mark_done_def tag_control_bits_def
        wr_finish_def eval_simps)
qed

lemma retag_reads_zero:
  "validate [0x04, 0x00, 0x00, 0x05] = Inl TlvContainerMismatch"
proof -
  let ?r = "(reader_new [0x04, 0x00, 0x00, 0x05])\<lparr>rd_pos := 2, rd_top_level_done := True\<rparr>"
  have "next_element (reader_new [0x04, 0x00, 0x00, 0x05])
      = (Inr (Some \<lparr>el_tag = Anonymous, el_value = Unsigned 0\<rparr>), ?r)"
    by (simp add: next_element_def reader_new_def rd_element_def element_type_from_bits_def rd_tagged_def
      width_from_bits_def tag_control_from_bits_def read_le_u64_def tag_context_def eval_simps)
  moreover have "next_element ?r = (Inl TlvContainerMismatch, ?r)"
    by (simp add: next_element_def reader_new_def rd_is_empty_def rd_base_depth_def)
  ultimately show ?thesis
    by (simp add: validate_def validate_loop.simps)
qed

end
