(* ===== verification/Tlv_Raw.thy ===== *)
theory Tlv_Raw
  imports Tlv_Writer
begin

text \<open>
  Documents made of every call of the writer (\<^verbatim>\<open>src/src/tlv/writer.rs\<close>), raw copies of elements encoded elsewhere and blocks taken
  back included, and \<^verbatim>\<open>put_block\<close> of the Interaction Model server, which takes them back.

  A raw copy may hold tags, numbers and lengths in a wider form than this crate's encoder writes.  The octets of an element are
  therefore described by the reader (\<open>lexeme\<close>, \<open>lexes\<close>): those it takes as that element wherever they stand.  \<open>wr_kept\<close> says of a call
  which elements it added; the lemmas \<open>wr_kept_element\<close>, \<open>wr_kept_raw\<close> and \<open>wr_kept_retagged\<close> show it for each call, and \<open>program_kept\<close> for programs.
\<close>

section \<open>Tags in either width\<close>

lemma element_type_bits_inverse:
  assumes "element_type_from_bits c = Inr et" shows "element_type_bits et = c AND 0x1F"
proof -
  have "\<forall>n \<in> set [0..<32]. case element_type_from_bits (word_of_nat n) of Inl _ \<Rightarrow> True | Inr et \<Rightarrow> element_type_bits et = word_of_nat n"
    by (simp add: upt_rec element_type_from_bits_def width_from_bits_def)
  moreover have "unat (c AND 0x1F) < 32"
    using word_and_le1 [of c "0x1F"] by (simp add: word_le_nat_alt)
  ultimately have "case element_type_from_bits (word_of_nat (unat (c AND 0x1F))) of Inl _ \<Rightarrow> True
      | Inr et \<Rightarrow> element_type_bits et = word_of_nat (unat (c AND 0x1F))" by (metis atLeast_upt lessThan_iff)
  then show ?thesis using assms by (simp add: element_type_from_bits_masked)
qed

lemma tag_decode_local:
  assumes "tag_decode c buf = Inr (t, n)"
  shows "n \<le> length buf" and "tag_decode c (take n buf @ rest) = Inr (t, n)"
proof -
  show n: "n \<le> length buf" using assms by (rule tag_decode_len)
  have "n = tag_control_octets (tag_control_from_bits c)" using assms by (auto simp: tag_decode_def Let_def bindR_ok_iff)
  then have "slice_of (take n buf @ rest) 0 (tag_control_octets (tag_control_from_bits c))
      = slice_of buf 0 (tag_control_octets (tag_control_from_bits c))"
    using n by (simp add: slice_of_def slice_get_def)
  then show "tag_decode c (take n buf @ rest) = Inr (t, n)" using assms by (simp add: tag_decode_def)
qed

lemma to_le_small:
  assumes "v < 2 ^ 16" shows "to_le 4 v = to_le 2 v @ [0, 0]"
proof -
  have "v div 256 div 256 = 0" using assms by (simp add: div_mult2_eq [symmetric])
  then have "to_le (Suc (Suc (Suc (Suc 0)))) v = to_le (Suc (Suc 0)) v @ [0, 0]" by simp
  then show ?thesis by (simp only: numeral_nat)
qed

lemma read_le_u32_inverse:
  assumes "read_le_u32 bs = Inr v" and "length bs \<le> 4"
  shows "to_le (length bs) (unat v) = bs" and "unat v = from_le bs"
proof -
  have "(256 :: nat) ^ length bs \<le> 256 ^ 4" using assms(2) by (intro power_increasing) simp_all
  then have l: "from_le bs < 2 ^ 32" using from_le_bound [of bs] by simp
  have "v = ucast (word_of_nat (from_le bs) :: u64)"
    using assms by (simp add: read_le_u32_def read_le_u64_eq split: if_splits)
  then have "v = word_of_nat (from_le bs)"
    by (intro bit_word_eqI) (simp add: bit_simps bit_word_of_nat_iff)
  then show v: "unat v = from_le bs" using l by (simp add: unat_of_nat_small)
  show "to_le (length bs) (unat v) = bs" by (simp add: v to_le_from_le)
qed


text \<open>A tag read from the wire stands there as this encoder writes it, or in the wider form, whose two further octets are zero.\<close>

definition tag_stands :: "bytes \<Rightarrow> Tag \<Rightarrow> bool" where
  "tag_stands tb t \<longleftrightarrow> tb = tag_bytes t \<or> tb = tag_bytes t @ [0, 0]"

lemma number_stands:
  assumes "read_le_u32 src = Inr v" and "length src = 2 \<or> length src = 4"
  shows "src = to_le (if v < 0x10000 then 2 else 4) (unat v) \<or> src = to_le (if v < 0x10000 then 2 else 4) (unat v) @ [0, 0]"
proof -
  note s = read_le_u32_inverse [OF assms(1)]
  have "unat v < 2 ^ 16" if "length src = 2" using from_le_bound [of src] that s(2) by simp
  then show ?thesis
    using assms(2) s(1) to_le_small [of "unat v"] by (auto simp: word_less_nat_alt)
qed

lemma part_stands:
  assumes "read_le_u32 src = Inr v" and "length src = 2"
  shows "src = to_le 2 (unat (ucast v :: u16))"
proof -
  note s = read_le_u32_inverse [OF assms(1)]
  have "unat v < 2 ^ 16" using from_le_bound [of src] assms(2) s(2) by simp
  then have "unat (ucast v :: u16) = unat v" by (simp add: unsigned_ucast_eq take_bit_nat_eq_self)
  then show ?thesis using s(1) assms(2) by simp
qed

lemma tag_decode_stands:
  assumes "tag_decode c buf = Inr (t, n)" shows "tag_stands (take n buf) t"
proof -
  let ?k = "tag_control_from_bits c"
  have n: "n = tag_control_octets ?k" "n \<le> length buf"
    using assms tag_decode_len [OF assms] by (auto simp: tag_decode_def Let_def bindR_ok_iff)
  then have src: "slice_of buf 0 (tag_control_octets ?k) = Inr (take n buf)" "length (take n buf) = n"
    by (simp_all add: slice_of_def slice_get_def)
  show ?thesis
  proof (cases "?k = CtlFullyQualified6 \<or> ?k = CtlFullyQualified8")
    case True
    let ?s = "take n buf"
    have l: "n = 6 \<or> n = 8" using True n by auto
    have parts: "slice_of ?s 0 2 = Inr (take 2 ?s)" "slice_of ?s 2 4 = Inr (take 2 (drop 2 ?s))" "slice_from ?s 4 = Some (drop 4 ?s)"
      using l src(2) by (auto simp: slice_of_def slice_get_def slice_from_def)
    obtain v p k where r: "read_le_u32 (take 2 ?s) = Inr v" "read_le_u32 (take 2 (drop 2 ?s)) = Inr p" "read_le_u32 (drop 4 ?s) = Inr k"
      and t: "t = FullyQualified (ucast v) (ucast p) k"
      using assms True src(1) parts by (auto simp: tag_decode_def Let_def bindR_ok_iff ok_or_def)
    have "take 2 ?s = to_le 2 (unat (ucast v :: u16))" "take 2 (drop 2 ?s) = to_le 2 (unat (ucast p :: u16))"
      using part_stands [OF r(1)] part_stands [OF r(2)] src(2) l by auto
    moreover have "drop 4 ?s = to_le (if k < 0x10000 then 2 else 4) (unat k) \<or> drop 4 ?s = to_le (if k < 0x10000 then 2 else 4) (unat k) @ [0, 0]"
      using number_stands [OF r(3)] src(2) l by auto
    moreover have "?s = take 2 ?s @ take 2 (drop 2 ?s) @ drop 4 ?s"
      by (metis append_take_drop_id drop_drop numeral_Bit0)
    ultimately show ?thesis
      by (auto simp: tag_stands_def t tag_encoded_len_def split: if_splits)
  next
    case False
    then show ?thesis
      using assms src n number_stands [of "take n buf"]
      by (cases ?k; cases buf) (auto simp: tag_stands_def tag_decode_def Let_def bindR_ok_iff tag_encoded_len_def split: if_splits list.splits)
  qed
qed

section \<open>The octets of one element\<close>

text \<open>A reader that stands before \<open>val\<close> takes it as the value \<open>v\<close> of the type \<open>et\<close>, whatever surrounds it.\<close>

definition value_reads :: "ElementType \<Rightarrow> bytes \<Rightarrow> Value \<Rightarrow> bool" where
  "value_reads et val v \<longleftrightarrow> v \<noteq> EndOfContainer
     \<and> (\<forall>r. rd_before val r \<and> (value_container v \<noteq> None \<longrightarrow> rd_depth r < MAX_DEPTH) \<longrightarrow>
          rd_value et r = (Inr v, rd_entered v (rd_past (length val) r)))"

text \<open>Octets that are the element \<open>e\<close>, in this encoder's form or another that the reader takes.\<close>

definition lexeme :: "bytes \<Rightarrow> Element \<Rightarrow> bool" where
  "lexeme bs e \<longleftrightarrow> bs = [0x18] \<and> e = \<lparr>el_tag = Anonymous, el_value = EndOfContainer\<rparr>
     \<or> (\<exists>c tb val et. bs = c # tb @ val \<and> element_type_from_bits c = Inr et \<and> et \<noteq> EndOfContainerElt
          \<and> (\<forall>rest. tag_decode c (tb @ rest) = Inr (el_tag e, length tb)) \<and> value_reads et val (el_value e))"

lemma lexeme_element:
  assumes "element_ok e" shows "lexeme (element_bytes e) e"
proof (cases "el_value e = EndOfContainer")
  case True
  then show ?thesis using assms by (cases e) (simp add: lexeme_def element_bytes_def element_ok_def)
next
  case False
  let ?v = "el_value e"
  have "rd_value (value_type ?v) r = (Inr ?v, rd_entered ?v (rd_past (length (value_bytes ?v)) r))"
    if "rd_before (value_bytes ?v) r" "value_container ?v \<noteq> None \<longrightarrow> rd_depth r < MAX_DEPTH" for r
    using that assms False by (intro rd_value_before) (auto simp: element_ok_def)
  then have "value_reads (value_type ?v) (value_bytes ?v) ?v" using False by (simp add: value_reads_def)
  moreover have "value_type ?v \<noteq> EndOfContainerElt" using False by (cases ?v) (auto elim: container_element_type.elims)
  ultimately show ?thesis
    using False unfolding lexeme_def element_bytes_def
    by (intro disjI2 exI [of _ "tag_control_bits (el_tag e) OR element_type_bits (value_type ?v)"]
        exI [of _ "tag_bytes (el_tag e)"] exI [of _ "value_bytes ?v"] exI [of _ "value_type ?v"]) (simp add: tag_decode_ok)
qed

text \<open>A reader in a position that admits the element takes it.\<close>

lemma rd_tagged_reads:
  assumes "rd_before (tb @ val) r" and "\<forall>rest. tag_decode c (tb @ rest) = Inr (t, length tb)" and "value_reads et val v"
    and "value_container v \<noteq> None \<longrightarrow> rd_depth r < MAX_DEPTH"
    and allowed: "tag_allowed (current_container (rd_depth r) (rd_stack r)) t"
  shows "rd_tagged c et r = (Inr (Some \<lparr>el_tag = t, el_value = v\<rparr>),
    rd_mark_done (rd_entered v (rd_past (length (tb @ val)) r)))"
proof -
  let ?r = "rd_past (length tb) r"
  note b = rd_before_append [OF assms(1)]
  obtain rest where "rd_remaining r = tb @ rest" using rd_before_rest [OF b(1)] by blast
  then have dec: "tag_decode c (rd_remaining r) = Inr (t, length tb)" using assms(2) by simp
  have adv: "rd_advance (length tb) r = (Inr (), ?r)"
    using b(2) by (auto simp: rd_advance_def usize_checked_add_def rd_past_def rd_before_def rd_inv_def)
  have val: "rd_value et ?r = (Inr v, rd_entered v (rd_past (length val) ?r))"
    using assms(3,4) b(2) by (simp add: value_reads_def)
  have chk: "rd_check_tag t ?r = (Inr (), ?r)" using allowed by (simp add: rd_check_tag_def)
  show ?thesis unfolding rd_tagged_def by (simp add: dec adv chk val add.commute)
qed

lemma lexeme_reads:
  assumes b: "rd_before bs r" and lex: "lexeme bs e"
    and guard: "\<not> (rd_top_level_done r \<and> \<not> rd_many r \<and> rd_depth r = rd_base_depth r)"
    and step: "grammar_step e (rd_grammar r) = Some g" and base: "rd_base_depth r \<le> length (fst g)"
  shows "\<exists>r'. next_element r = (Inr (Some e), r') \<and> rd_grammar r' = g \<and> rd_pos r' = rd_pos r + length bs
     \<and> (rd_depth r' = rd_base_depth r' \<longrightarrow> rd_top_level_done r')"
  using lex unfolding lexeme_def
proof (elim disjE exE conjE)
  assume "bs = [0x18]" and "e = \<lparr>el_tag = Anonymous, el_value = EndOfContainer\<rparr>"
  moreover from this have "element_bytes e = bs" "element_ok e" by (simp_all add: element_bytes_def element_ok_def)
  ultimately show ?thesis using next_element_reads_back [of e r g] b guard step base by simp
next
  fix c tb val et
  assume bs: "bs = c # tb @ val" and et: "element_type_from_bits c = Inr et" "et \<noteq> EndOfContainerElt"
    and t: "\<forall>rest. tag_decode c (tb @ rest) = Inr (el_tag e, length tb)" and v: "value_reads et val (el_value e)"
  let ?v = "el_value e" and ?r = "rd_past (1 + length (tb @ val)) r"
  have ve: "?v \<noteq> EndOfContainer" using v by (simp add: value_reads_def)
  obtain ks over where g: "rd_grammar r = (ks, over)" by fastforce
  have inv: "rd_inv r" using b by (simp add: rd_before_def)
  have n: "length ks = rd_depth r" using rd_open_end_count [OF inv] g by simp
  have st: "tag_allowed (innermost ks) (el_tag e)" "value_container ?v \<noteq> None \<Longrightarrow> rd_depth r < MAX_DEPTH"
    "g = (case value_container ?v of None \<Rightarrow> (ks, ks = []) | Some k \<Rightarrow> (ks @ [k], False))"
    using step grammar_step_value [OF ve, of ks over] unfolding g n [symmetric] by (auto split: if_splits)
  have a: "tag_allowed (current_container (rd_depth r) (rd_stack r)) (el_tag e)"
    using st(1) inv g by (simp add: current_container_innermost rd_inv_def rd_grammar_def)
  note c = rd_after_control [OF b [unfolded bs] guard]
  have "rd_tagged c et (rd_past 1 r) = (Inr (Some e), rd_mark_done (rd_entered ?v ?r))"
    using rd_tagged_reads [OF c(2) t v] st(2) a by simp
  then have nx: "next_element r = (Inr (Some e), rd_mark_done (rd_entered ?v ?r))"
    using c(1) et by (simp add: rd_element_def)
  have inv': "rd_inv ?r" using rd_before_append(2) [of bs "[]" r] b bs by (simp add: rd_before_def)
  have gks: "fst (rd_grammar ?r) = ks" using g by (simp add: rd_grammar_def)
  have "rd_grammar (rd_mark_done (rd_entered ?v ?r)) = g"
    using rd_grammar_entered [OF inv' ve, unfolded gks] st(2) unfolding st(3) by simp
  moreover have "rd_pos (rd_mark_done (rd_entered ?v r')) = rd_pos r'" for r' by (cases ?v) (simp_all add: rd_mark_done_def)
  ultimately show ?thesis unfolding nx bs by (auto simp: rd_mark_done_def rd_base_depth_def)
qed


section \<open>What the reader takes is a lexeme\<close>

definition consumed :: "TlvReader \<Rightarrow> TlvReader \<Rightarrow> bytes" where
  "consumed r r' = take (rd_pos r' - rd_pos r) (drop (rd_pos r) (rd_buf r))"

lemma rd_take_taken:
  assumes "rd_take n r = (Inr s, r')" and "rd_inv r"
  shows "s = take n (drop (rd_pos r) (rd_buf r))" and "length s = n" and "r' = rd_past n r" and "rd_inv r'"
    and "rd_pos r + n \<le> length (rd_buf r)"
  using assms by (auto simp: rd_take_def usize_checked_add_def slice_get_def rd_past_def rd_inv_def rd_base_depth_def
      split: option.splits if_splits)

lemma rd_take_string_taken:
  assumes "rd_take_string w r = (Inr s, r')" and "rd_inv r"
  shows "\<exists>n. r' = rd_past n r \<and> rd_pos r + n \<le> length (rd_buf r)
    \<and> (\<forall>r2. rd_before (take n (drop (rd_pos r) (rd_buf r))) r2 \<longrightarrow> rd_take_string w r2 = (Inr s, rd_past n r2))"
proof -
  obtain l r1 len where l: "rd_take (width_octets w) r = (Inr l, r1)" "read_le_u64 l = Inr len" "rd_take (unat len) r1 = (Inr s, r')"
    using assms(1) by (auto simp: rd_take_string_def bindE_ok_iff split: sum.splits)
  note a = rd_take_taken [OF l(1) assms(2)]
  note b = rd_take_taken [OF l(3) a(4)]
  let ?n = "width_octets w + unat len"
  have ls: "take ?n (drop (rd_pos r) (rd_buf r)) = l @ s"
    using a(1,3) b(1) by (simp add: take_add add.commute)
  have "rd_take_string w r2 = (Inr s, rd_past ?n r2)" if "rd_before (l @ s) r2" for r2
  proof -
    note c = rd_before_append [OF that]
    have "rd_take (width_octets w) r2 = (Inr l, rd_past (width_octets w) r2)" using rd_take_before [OF c(1)] a(2) by simp
    moreover have "rd_take (unat len) (rd_past (width_octets w) r2) = (Inr s, rd_past ?n r2)"
      using rd_take_before [OF c(2)] a(2) b(2) by simp
    ultimately show ?thesis by (simp add: rd_take_string_def l(2))
  qed
  then show ?thesis using a(3) b(3,5) ls by (intro exI [of _ ?n]) simp
qed

lemma value_taken_leaf:
  assumes "rd_take n r = (Inr s, r')" and "rd_inv r" and "v \<noteq> EndOfContainer" and "\<And>r. rd_entered v r = r"
    and "\<And>r2. rd_take n r2 = (Inr s, rd_past n r2) \<Longrightarrow> rd_value et r2 = (Inr v, rd_past n r2)"
  shows "\<exists>n. r' = rd_entered v (rd_past n r) \<and> rd_pos r + n \<le> length (rd_buf r)
    \<and> value_reads et (take n (drop (rd_pos r) (rd_buf r))) v"
proof -
  note a = rd_take_taken [OF assms(1,2)]
  have "rd_value et r2 = (Inr v, rd_past n r2)" if "rd_before s r2" for r2
    using assms(5) rd_take_before [OF that] a(2) by simp
  then show ?thesis using a(2,3,5) assms(3,4) unfolding a(1) by (intro exI [of _ n]) (simp add: value_reads_def)
qed

lemma value_taken_string:
  assumes "rd_take_string w r = (Inr s, r')" and "rd_inv r" and "v \<noteq> EndOfContainer" and "\<And>r. rd_entered v r = r"
    and "\<And>r2 n. rd_take_string w r2 = (Inr s, rd_past n r2) \<Longrightarrow> rd_value et r2 = (Inr v, rd_past n r2)"
  shows "\<exists>n. r' = rd_entered v (rd_past n r) \<and> rd_pos r + n \<le> length (rd_buf r)
    \<and> value_reads et (take n (drop (rd_pos r) (rd_buf r))) v"
proof -
  obtain n where n: "r' = rd_past n r" "rd_pos r + n \<le> length (rd_buf r)"
    "\<And>r2. rd_before (take n (drop (rd_pos r) (rd_buf r))) r2 \<Longrightarrow> rd_take_string w r2 = (Inr s, rd_past n r2)"
    using rd_take_string_taken [OF assms(1,2)] by blast
  moreover have "length (take n (drop (rd_pos r) (rd_buf r))) = n" using n(2) by simp
  ultimately show ?thesis using assms(3-5) by (intro exI [of _ n]) (simp add: value_reads_def)
qed

lemma value_taken_empty:
  assumes "r' = rd_entered v r" and "rd_inv r" and "v \<noteq> EndOfContainer"
    and "\<And>r2. value_container v \<noteq> None \<longrightarrow> rd_depth r2 < length (rd_stack r2) \<Longrightarrow> rd_value et r2 = (Inr v, rd_entered v r2)"
  shows "\<exists>n. r' = rd_entered v (rd_past n r) \<and> rd_pos r + n \<le> length (rd_buf r)
    \<and> value_reads et (take n (drop (rd_pos r) (rd_buf r))) v"
proof -
  have p: "rd_past 0 r2 = r2" for r2 by (simp add: rd_past_def)
  show ?thesis using assms by (intro exI [of _ 0]) (simp add: value_reads_def rd_before_def rd_inv_def p)
qed

lemma value_taken:
  assumes "rd_value et r = (Inr v, r')" and "rd_inv r"
  shows "\<exists>n. r' = rd_entered v (rd_past n r) \<and> rd_pos r + n \<le> length (rd_buf r)
    \<and> value_reads et (take n (drop (rd_pos r) (rd_buf r))) v"
proof (cases et)
  case (SignedInt w)
  then obtain s x where "rd_take (width_octets w) r = (Inr s, r')" "read_le_i64 s = Inr x" "v = Signed x"
    using assms(1) by (auto simp: bindE_ok_iff split: sum.splits)
  then show ?thesis using assms(2) SignedInt by (intro value_taken_leaf) auto
next
  case (UnsignedInt w)
  then obtain s x where "rd_take (width_octets w) r = (Inr s, r')" "read_le_u64 s = Inr x" "v = Unsigned x"
    using assms(1) by (auto simp: bindE_ok_iff split: sum.splits)
  then show ?thesis using assms(2) UnsignedInt by (intro value_taken_leaf) auto
next
  case FloatElt
  then obtain s x where "rd_take 4 r = (Inr s, r')" "read_le_u64 s = Inr x" "x \<le> 0xFFFFFFFF" "v = Float (ucast x)"
    using assms(1) by (auto simp: bindE_ok_iff split: sum.splits if_splits)
  then show ?thesis using assms(2) FloatElt by (intro value_taken_leaf) auto
next
  case DoubleElt
  then obtain s x where "rd_take 8 r = (Inr s, r')" "read_le_u64 s = Inr x" "v = Double x"
    using assms(1) by (auto simp: bindE_ok_iff split: sum.splits)
  then show ?thesis using assms(2) DoubleElt by (intro value_taken_leaf) auto
next
  case (Utf8Elt w)
  then obtain s where "rd_take_string w r = (Inr s, r')" "from_utf8 s" "v = Utf8 s"
    using assms(1) by (auto simp: bindE_ok_iff split: if_splits)
  then show ?thesis using assms(2) Utf8Elt by (intro value_taken_string) auto
next
  case (OctetsElt w)
  then obtain s where "rd_take_string w r = (Inr s, r')" "v = Octets s"
    using assms(1) by (auto simp: bindE_ok_iff)
  then show ?thesis using assms(2) OctetsElt by (intro value_taken_string) auto
next
  case (BoolElt b)
  then show ?thesis using assms by (intro value_taken_empty) auto
next
  case NullElt
  then show ?thesis using assms by (intro value_taken_empty) auto
next
  case StructureElt
  then show ?thesis using assms by (intro value_taken_empty) (auto simp: rd_open_def split: if_splits)
next
  case ArrayElt
  then show ?thesis using assms by (intro value_taken_empty) (auto simp: rd_open_def split: if_splits)
next
  case ListElt
  then show ?thesis using assms by (intro value_taken_empty) (auto simp: rd_open_def split: if_splits)
qed (use assms in simp)


lemma next_element_lexeme:
  assumes nx: "next_element r = (Inr (Some e), r')" and inv: "rd_inv r"
  shows "lexeme (consumed r r') e" and "rd_pos r' \<le> length (rd_buf r)" and "rd_pos r \<le> rd_pos r'"
proof -
  have st: "rd_steps r r'" by (rule rd_safeD [OF rd_safe_next_element nx])
  then show "rd_pos r' \<le> length (rd_buf r)" "rd_pos r \<le> rd_pos r'" using inv by (auto simp: rd_steps_def rd_inv_def)
  obtain b where r1: "rd_take 1 r = (Inr b, rd_past 1 r)" and el: "rd_element b (rd_past 1 r) = (Inr (Some e), r')"
    using nx by (auto simp: next_element_def bindE_ok_iff split: if_splits dest: rd_take_ok)
  note one = rd_take_taken [OF r1 inv]
  obtain c et where b: "b = [c]" and et: "element_type_from_bits c = Inr et"
    using el one(2) by (cases b) (auto simp: rd_element_def bindE_ok_iff)
  have d: "drop (rd_pos r) (rd_buf r) = c # drop (rd_pos r + 1) (rd_buf r)"
    using one(1,5) b Cons_nth_drop_Suc [of "rd_pos r" "rd_buf r", symmetric] by simp
  show "lexeme (consumed r r') e"
  proof (cases "et = EndOfContainerElt")
    case True
    then have "rd_end c (rd_past 1 r) = (Inr (Some e), r')" using el b et by (simp add: rd_element_def)
    then have "e = \<lparr>el_tag = Anonymous, el_value = EndOfContainer\<rparr>" "rd_pos r' = rd_pos r + 1" "c = 0x18"
      by (auto simp: rd_end_def checked_sub_def rd_mark_done_def split: if_splits option.splits)
    then show ?thesis using d by (simp add: lexeme_def consumed_def)
  next
    case False
    let ?rest = "drop (rd_pos r + 1) (rd_buf r)"
    have tg: "rd_tagged c et (rd_past 1 r) = (Inr (Some e), r')" using el b et False by (simp add: rd_element_def)
    have rem: "rd_remaining (rd_past 1 r) = ?rest" using one(5) by (simp add: rd_remaining_def slice_from_def)
    obtain t n where td: "tag_decode c ?rest = Inr (t, n)"
      using tg rem by (cases "tag_decode c ?rest") (auto simp: rd_tagged_def)
    then obtain r2 v r3 where a: "rd_advance n (rd_past 1 r) = (Inr (), r2)" and v: "rd_value et r2 = (Inr v, r3)"
      and e: "e = \<lparr>el_tag = t, el_value = v\<rparr>" "r' = rd_mark_done r3"
      using tg rem by (auto simp: rd_tagged_def bindE_ok_iff rd_check_tag_def split: if_splits)
    note loc = tag_decode_local [OF td]
    have r2: "r2 = rd_past (1 + n) r" using a by (auto simp: rd_advance_def usize_checked_add_def rd_past_def split: if_splits)
    then have "rd_inv r2" using inv loc(1) one(5) by (simp add: rd_inv_def rd_base_depth_def)
    from value_taken [OF v this] obtain m where m: "r3 = rd_entered v (rd_past m r2)" "rd_pos r2 + m \<le> length (rd_buf r2)"
      "value_reads et (take m (drop (rd_pos r2) (rd_buf r2))) v" by blast
    have "rd_pos r' = rd_pos r + (1 + n + m)" using e(2) m(1) r2 by (cases v) (simp_all add: rd_mark_done_def)
    then have "consumed r r' = c # take n ?rest @ take m (drop n ?rest)"
      using d by (simp add: consumed_def take_add)
    moreover have "take m (drop (rd_pos r2) (rd_buf r2)) = take m (drop n ?rest)" using r2 by (simp add: add.commute)
    moreover have "length (take n ?rest) = n" using loc(1) by simp
    ultimately show ?thesis
      using m(3) et False loc(2) e(1) unfolding lexeme_def
      by (intro disjI2 exI [of _ c] exI [of _ "take n ?rest"] exI [of _ "take m (drop n ?rest)"] exI [of _ et]) simp
  qed
qed

section \<open>The octets of a list of elements\<close>

primrec lexes :: "bytes \<Rightarrow> Element list \<Rightarrow> bool" where
  "lexes bs [] \<longleftrightarrow> bs = []"
| "lexes bs (e # es) \<longleftrightarrow> (\<exists>b bs'. bs = b @ bs' \<and> lexeme b e \<and> lexes bs' es)"

lemma lexes_append: "lexes as es \<Longrightarrow> lexes bs fs \<Longrightarrow> lexes (as @ bs) (es @ fs)"
  by (induction es arbitrary: as) (auto, metis append.assoc)

lemma rd_elements_lexes_back:
  "rd_before bs r \<Longrightarrow> length (rd_buf r) = rd_pos r + length bs \<Longrightarrow> lexes bs es \<Longrightarrow> rd_live r \<Longrightarrow>
   grammar_run (rd_base_depth r) es (rd_grammar r) = Some g \<Longrightarrow>
   \<exists>r'. rd_elements r = (Inr es, r') \<and> rd_grammar r' = g \<and> rd_is_empty r' \<and> rd_inv r'
     \<and> rd_base_depth r' = rd_base_depth r
     \<and> (es \<noteq> [] \<longrightarrow> rd_depth r' = rd_base_depth r' \<longrightarrow> rd_top_level_done r')"
proof (induction es arbitrary: r bs)
  case Nil
  then show ?case
    by (subst rd_elements.simps) (auto simp: next_element_def rd_is_empty_def rd_before_def)
next
  case (Cons e es)
  obtain b bs' where bs: "bs = b @ bs'" and lb: "lexeme b e" and lbs: "lexes bs' es" using Cons.prems(3) by auto
  note b = Cons.prems(1) [unfolded bs]
  obtain g' where g': "grammar_step e (rd_grammar r) = Some g'" "rd_base_depth r \<le> length (fst g')"
    "grammar_run (rd_base_depth r) es g' = Some g"
    using Cons.prems(5) by (auto split: option.splits if_splits)
  have "\<not> snd (rd_grammar r)" using g'(1) by (cases "rd_grammar r") (auto split: if_splits)
  then have guard: "\<not> (rd_top_level_done r \<and> \<not> rd_many r \<and> rd_depth r = rd_base_depth r)"
    by (rule rd_live_guard [OF Cons.prems(4)])
  obtain r1 where r1: "next_element r = (Inr (Some e), r1)" "rd_grammar r1 = g'" "rd_pos r1 = rd_pos r + length b"
    "rd_depth r1 = rd_base_depth r1 \<longrightarrow> rd_top_level_done r1"
    using lexeme_reads [OF rd_before_append(1) [OF b] lb guard g'(1,2)] by auto
  have st: "rd_buf r1 = rd_buf r" "rd_many r1 = rd_many r" "rd_started_inside r1 = rd_started_inside r" "rd_inv r1"
    using rd_safeD [OF rd_safe_next_element r1(1)] b by (auto simp: rd_steps_def rd_before_def)
  have base: "rd_base_depth r1 = rd_base_depth r" and live: "rd_live r1"
    using st Cons.prems(4) by (simp_all add: rd_base_depth_def rd_live_def)
  have b1: "rd_before bs' r1" using rd_before_append(2) [OF b] st(1,4) r1(3) by (auto simp: rd_before_def)
  obtain r2 where r2: "rd_elements r1 = (Inr es, r2)" "rd_grammar r2 = g" "rd_is_empty r2" "rd_inv r2"
    "rd_base_depth r2 = rd_base_depth r1"
    "es \<noteq> [] \<longrightarrow> rd_depth r2 = rd_base_depth r2 \<longrightarrow> rd_top_level_done r2"
    using Cons.IH [OF b1 _ lbs live] Cons.prems(2) st(1) r1(2,3) g'(3) base bs by auto
  have "rd_elements r = (Inr (e # es), r2)" using r1(1) r2(1) by (subst rd_elements.simps) simp
  moreover have "r2 = r1" if "es = []"
    using r2(1,3) that lbs r1(3) st(1) Cons.prems(2) bs
    by (subst (asm) rd_elements.simps) (simp add: next_element_def rd_is_empty_def)
  ultimately show ?case using r1(4) r2 base by (cases "es = []") auto
qed

text \<open>What a reader reads to its end is a list of lexemes that obeys the grammar.\<close>

lemma rd_elements_lexes:
  "rd_elements r = (Inr es, r') \<Longrightarrow> rd_inv r \<Longrightarrow> rd_started_inside r \<or> \<not> rd_many r \<Longrightarrow>
   lexes (drop (rd_pos r) (rd_buf r)) es \<and> grammar_run (rd_base_depth r) es (rd_grammar r) = Some (rd_grammar r')
     \<and> rd_inv r' \<and> rd_base_depth r' = rd_base_depth r"
proof (induction r arbitrary: es r' rule: rd_elements.induct)
  case (1 r)
  obtain x r1 where nx: "next_element r = (x, r1)" by fastforce
  have st: "rd_inv r1" "rd_started_inside r1 \<or> \<not> rd_many r1" "rd_base_depth r1 = rd_base_depth r" "rd_buf r1 = rd_buf r"
    using rd_safeD [OF rd_safe_next_element nx] 1(3,4) by (auto simp: rd_steps_def rd_base_depth_def)
  show ?case
  proof (cases x)
    case (Inl e)
    then show ?thesis using 1(2) nx rd_elements_step(1) by simp
  next
    case (Inr o')
    show ?thesis
    proof (cases o')
      case None
      then have "rd_is_empty r \<and> r1 = r" using nx Inr next_element_none by simp
      then show ?thesis using 1(2-) nx Inr None rd_elements_step(2) [of r r1] by (simp add: rd_is_empty_def)
    next
      case (Some e)
      then obtain es' where es: "es = e # es'" "rd_elements r1 = (Inr es', r')"
        using 1(2) nx Inr rd_elements_step(3) [of r e r1] by (auto split: prod.splits sum.splits)
      have nx': "next_element r = (Inr (Some e), r1)" using nx Inr Some by simp
      have "length (fst (rd_grammar r1)) \<ge> rd_base_depth r"
        using rd_open_end_count [OF st(1)] st(1,3) by (simp add: rd_inv_def)
      moreover note lx = next_element_lexeme [OF nx' 1(3)]
      have "drop (rd_pos r) (rd_buf r) = consumed r r1 @ drop (rd_pos r1) (rd_buf r1)"
        using lx(2,3) st(4) by (simp add: consumed_def) (metis append_take_drop_id drop_drop le_add_diff_inverse2)
      ultimately show ?thesis
        using 1(1) [OF nx'[symmetric] refl refl es(2) st(1,2)] next_element_grammar [OF nx' 1(3,4)]
          es(1) st(3) lx(1) by auto
    qed
  qed
qed

text \<open>Skipping the rest of a container reads it.\<close>

lemma skip_to_reads:
  "skip_to target r = (Inr (), r1) \<Longrightarrow> rd_elements r1 = (Inr es, r2) \<Longrightarrow> \<exists>ds. rd_elements r = (Inr (ds @ es), r2)"
proof (induction target r rule: skip_to.induct)
  case (1 target r)
  show ?case
  proof (cases "rd_depth r > target")
    case True
    then obtain e r' where nx: "next_element r = (Inr (Some e), r')" "skip_to target r' = (Inr (), r1)"
      using 1(2) by (subst (asm) skip_to.simps) (auto split: prod.splits sum.splits option.splits)
    then obtain ds where "rd_elements r' = (Inr (ds @ es), r2)" using 1(1) [OF True nx(1)[symmetric] refl refl nx(2) 1(3)] by blast
    then show ?thesis using rd_elements_step(3) [OF nx(1)] by (intro exI [of _ "e # ds"]) simp
  next
    case False
    then have "r1 = r" using 1(2) by (subst (asm) skip_to.simps) simp
    then show ?thesis using 1(3) by (intro exI [of _ "[]"]) simp
  qed
qed

lemma one_element_reads:
  assumes "one_element r = Inr e"
  shows "\<exists>es r'. rd_elements r = (Inr (e # es), r') \<and> rd_finish r' = Inr ()"
proof -
  obtain r' r'' where nx: "next_element r = (Inr (Some e), r')" and sk: "skip_value e r' = (Inr (), r'')"
    and f: "rd_finish r'' = Inr ()" using one_element_first [OF assms] by blast
  have "rd_is_empty r''" using f by (auto simp: rd_finish_def split: if_splits)
  then have nil: "rd_elements r'' = (Inr [], r'')" using rd_elements_step(2) next_element_none by blast
  have "\<exists>ds. rd_elements r' = (Inr ds, r'')"
  proof (cases "value_container (el_value e) = None")
    case True
    then show ?thesis using sk nil by (auto simp: skip_value_def)
  next
    case False
    then obtain d where "skip_to d r' = (Inr (), r'')"
      using sk by (auto simp: skip_value_def skip_container_def split: option.splits)
    then show ?thesis using skip_to_reads [OF _ nil] by simp
  qed
  then show ?thesis using rd_elements_step(3) [OF nx] f by auto
qed

section \<open>Nesting\<close>

definition depth_step :: "Element \<Rightarrow> nat \<Rightarrow> nat" where
  "depth_step e d = (case el_value e of Container _ \<Rightarrow> d + 1 | EndOfContainer \<Rightarrow> d - 1 | _ \<Rightarrow> d)"

text \<open>How many containers are open at most on the way through some elements.\<close>

primrec deepest :: "nat \<Rightarrow> Element list \<Rightarrow> nat" where
  "deepest d [] = d"
| "deepest d (e # es) = max d (deepest (depth_step e d) es)"

lemma deepest_ge: "d \<le> deepest d es"
  by (cases es) simp_all

lemma grammar_step_level:
  "grammar_step e (ks, over) = Some g \<Longrightarrow> length (fst g) = depth_step e (length ks) \<and> length (fst g) \<le> max MAX_DEPTH (length ks)"
  by (cases "el_value e") (auto simp: depth_step_def split: if_splits)

text \<open>The grammar without its limit on nesting.\<close>

fun free_step :: "Element \<Rightarrow> grammar_state \<Rightarrow> grammar_state option" where
  "free_step e (ks, over) =
     (if over then None
      else case el_value e of
        EndOfContainer \<Rightarrow> (if ks \<noteq> [] \<and> el_tag e = Anonymous then Some (butlast ks, butlast ks = []) else None)
      | Container k \<Rightarrow> (if tag_allowed (innermost ks) (el_tag e) then Some (ks @ [k], False) else None)
      | _ \<Rightarrow> (if tag_allowed (innermost ks) (el_tag e) then Some (ks, ks = []) else None))"

primrec free_run :: "Element list \<Rightarrow> grammar_state \<Rightarrow> grammar_state option" where
  "free_run [] g = Some g"
| "free_run (e # es) g = (case free_step e g of None \<Rightarrow> None | Some g' \<Rightarrow> free_run es g')"

lemma free_run_append: "free_run (es @ fs) g = (case free_run es g of None \<Rightarrow> None | Some g' \<Rightarrow> free_run fs g')"
  by (induction es arbitrary: g) (auto split: option.split)

lemma free_step_level: "free_step e g = Some g' \<Longrightarrow> length (fst g') = depth_step e (length (fst g))"
  by (cases g; cases "el_value e") (auto simp: depth_step_def split: if_splits)

lemma grammar_step_free: "grammar_step e g = Some g' \<Longrightarrow> free_step e g = Some g'"
  by (cases g; cases "el_value e") (auto split: if_splits)

lemma free_step_bounded: "free_step e g = Some g' \<Longrightarrow> length (fst g') \<le> MAX_DEPTH \<Longrightarrow> grammar_step e g = Some g'"
  by (cases g; cases "el_value e") (auto split: if_splits)

lemma free_step_deep:
  "free_step e (ks, over) = Some g' \<Longrightarrow> length ks \<le> MAX_DEPTH \<Longrightarrow> \<not> length (fst g') \<le> MAX_DEPTH \<Longrightarrow>
   \<exists>k. el_value e = Container k \<and> length ks = MAX_DEPTH \<and> tag_allowed (innermost ks) (el_tag e) \<and> \<not> over"
  by (cases "el_value e") (auto split: if_splits)

lemma grammar_run_free: "grammar_run b es g = Some g' \<Longrightarrow> free_run es g = Some g'"
proof (induction es arbitrary: g)
  case (Cons e es)
  then obtain g1 where "grammar_step e g = Some g1" "grammar_run b es g1 = Some g'"
    by (auto simp del: grammar_step.simps split: option.splits if_splits)
  then show ?case using Cons.IH grammar_step_free [of e g g1] by (simp del: free_step.simps)
qed simp

lemma free_run_bounded: "free_run es g = Some g' \<Longrightarrow> deepest (length (fst g)) es \<le> MAX_DEPTH \<Longrightarrow> grammar_run 0 es g = Some g'"
proof (induction es arbitrary: g)
  case (Cons e es)
  then obtain g1 where g1: "free_step e g = Some g1" "free_run es g1 = Some g'"
    by (auto simp del: free_step.simps split: option.splits)
  have d: "length (fst g1) = depth_step e (length (fst g))" by (rule free_step_level [OF g1(1)])
  have "deepest (length (fst g1)) es \<le> MAX_DEPTH" using Cons.prems(2) d by simp
  moreover from this have "grammar_step e g = Some g1" using free_step_bounded [OF g1(1)] deepest_ge le_trans by blast
  ultimately show ?case using Cons.IH [OF g1(2)] by (simp del: grammar_step.simps)
qed simp

text \<open>A step inside a container is the same step under more open containers.\<close>

lemma grammar_step_frame:
  assumes "grammar_step e (k # b, False) = Some g" and "1 \<le> length (fst g)"
  shows "\<exists>b'. g = (k # b', False) \<and> free_step e (p @ k # b, False) = Some (p @ k # b', False)"
proof (cases "el_value e = EndOfContainer")
  case True
  then have "g = (butlast (k # b), False)" "b \<noteq> []" "el_tag e = Anonymous"
    using assms(1,2) by (auto split: if_splits)
  then show ?thesis using True by (simp add: butlast_append)
next
  case False
  have "innermost (p @ k # b) = innermost (k # b)" by (simp add: innermost_def)
  then show ?thesis
    using assms grammar_step_value [OF False, of "k # b" False] False
    by (cases "el_value e") (auto split: if_splits)
qed

lemma grammar_run_frame:
  "grammar_run 1 es (k # b, False) = Some g \<Longrightarrow> \<exists>b'. g = (k # b', False) \<and> free_run es (p @ k # b, False) = Some (p @ k # b', False)"
proof (induction es arbitrary: b)
  case (Cons e es)
  obtain g1 where g1: "grammar_step e (k # b, False) = Some g1" "1 \<le> length (fst g1)" "grammar_run 1 es g1 = Some g"
    using Cons.prems by (auto simp: Suc_le_eq simp del: grammar_step.simps split: option.splits if_splits)
  obtain b1 where b1: "g1 = (k # b1, False)" "free_step e (p @ k # b, False) = Some (p @ k # b1, False)"
    using grammar_step_frame [OF g1(1,2)] by blast
  then show ?case using Cons.IH [of b1] g1(3) by (auto simp del: free_step.simps)
qed auto

text \<open>A list that ends as soon as no container but the outermost is open, as the element of a one-element reader does.\<close>

primrec within :: "nat \<Rightarrow> Element list \<Rightarrow> bool" where
  "within d [] \<longleftrightarrow> True"
| "within d (e # es) \<longleftrightarrow> (if depth_step e d \<le> 1 then es = [] else within (depth_step e d) es)"

lemma next_element_marks:
  assumes "next_element r = (Inr (Some e), r')" shows "rd_depth r' = rd_base_depth r' \<longrightarrow> rd_top_level_done r'"
proof -
  obtain b where "rd_take 1 r = (Inr b, rd_past 1 r)" and el: "rd_element b (rd_past 1 r) = (Inr (Some e), r')"
    using assms by (auto simp: next_element_def bindE_ok_iff split: if_splits dest: rd_take_ok)
  obtain c bs et where b: "b = c # bs" "element_type_from_bits c = Inr et"
    using el by (cases b) (auto simp: rd_element_def bindE_ok_iff)
  have "\<exists>r1. r' = rd_mark_done r1"
  proof (cases "et = EndOfContainerElt")
    case True
    then show ?thesis using el b by (auto simp: rd_element_def rd_end_def split: if_splits option.splits)
  next
    case False
    then have "rd_tagged c et (rd_past 1 r) = (Inr (Some e), r')" using el b by (simp add: rd_element_def)
    from rd_tagged_ok [OF this] show ?thesis by blast
  qed
  then show ?thesis by (auto simp: rd_mark_done_def rd_base_depth_def)
qed

lemma rd_elements_within:
  "rd_elements r = (Inr es, r') \<Longrightarrow> rd_inv r \<Longrightarrow> rd_started_inside r \<Longrightarrow> \<not> rd_many r \<Longrightarrow> within (rd_depth r) es"
proof (induction r arbitrary: es r' rule: rd_elements.induct)
  case (1 r)
  obtain x r1 where nx: "next_element r = (x, r1)" by fastforce
  consider e where "x = Inl e" | "x = Inr None" | e where "x = Inr (Some e)" by (metis old.sum.exhaust option.exhaust)
  then show ?case
  proof cases
    case (3 e)
    have nx': "next_element r = (Inr (Some e), r1)" using nx 3 by simp
    have st: "rd_inv r1" "rd_started_inside r1" "\<not> rd_many r1"
      using rd_safeD [OF rd_safe_next_element nx] 1(3-) by (auto simp: rd_steps_def)
    obtain es' where es: "es = e # es'" "rd_elements r1 = (Inr es', r')"
      using 1(2) nx 3 rd_elements_step(3) [of r e r1] by (auto split: prod.splits sum.splits)
    have d: "depth_step e (rd_depth r) = rd_depth r1"
      using next_element_grammar [OF nx' 1(3)] 1(4) rd_open_end_count [OF 1(3)] rd_open_end_count [OF st(1)]
        grammar_step_level [of e "fst (rd_grammar r)" "snd (rd_grammar r)"] by (metis prod.collapse)
    have "es' = []" if "rd_depth r1 \<le> 1"
    proof -
      have "rd_depth r1 = rd_base_depth r1" using that st(1,2) by (simp add: rd_inv_def rd_base_depth_def)
      then have "rd_top_level_done r1 \<and> \<not> rd_many r1 \<and> rd_depth r1 = rd_base_depth r1" using next_element_marks [OF nx'] st(3) by blast
      then have "next_element r1 = (if rd_is_empty r1 then Inr None else Inl TlvContainerMismatch, r1)"
        by (simp add: next_element_def)
      then show ?thesis using es(2) by (subst (asm) rd_elements.simps) (auto split: if_splits)
    qed
    then show ?thesis using 1(1) [OF nx [symmetric] 3 refl es(2) st] d es(1) by simp
  qed (use 1(2) nx rd_elements_step(1,2) in auto)
qed

text \<open>As long as an inner container is open, the kind of the outermost one makes no difference.\<close>

lemma grammar_run_bottom:
  "grammar_run 1 es (k # b, False) = Some (k # b', False) \<Longrightarrow> within (Suc (length b)) es \<Longrightarrow> b \<noteq> [] \<Longrightarrow>
   grammar_run 1 es (k' # b, False) = Some (k' # b', False)"
proof (induction es arbitrary: b)
  case (Cons e es)
  obtain g1 where g1: "grammar_step e (k # b, False) = Some g1" "1 \<le> length (fst g1)" "grammar_run 1 es g1 = Some (k # b', False)"
    using Cons.prems(1) by (auto simp: Suc_le_eq simp del: grammar_step.simps split: option.splits if_splits)
  obtain b1 where b1: "g1 = (k # b1, False)" using grammar_step_frame [OF g1(1,2)] by blast
  have "innermost (k' # b) = innermost (k # b)" using Cons.prems(3) by (simp add: innermost_def)
  then have s: "grammar_step e (k' # b, False) = Some (k' # b1, False)"
    using g1(1) b1 Cons.prems(3) by (cases "el_value e") (auto split: if_splits)
  have d: "depth_step e (Suc (length b)) = Suc (length b1)" using grammar_step_level [OF g1(1)] b1 by simp
  show ?case
  proof (cases "b1 = []")
    case True
    then have "es = []" using Cons.prems(2) d by simp
    then show ?thesis using s g1(3) b1 by (simp del: grammar_step.simps)
  next
    case False
    then have "within (Suc (length b1)) es" using Cons.prems(2) d by (simp split: if_splits)
    then show ?thesis using Cons.IH [OF _ _ False] g1(3) b1 s by (simp del: grammar_step.simps)
  qed
qed simp

section \<open>What each call keeps\<close>

text \<open>The writer went from one state to another by writing \<open>es\<close>: their octets, in whatever form, follow what was written, and the
  elements are legal where they stand but for the limit on nesting.\<close>

definition wr_kept :: "Element list \<Rightarrow> TlvWriter \<Rightarrow> TlvWriter \<Rightarrow> bool" where
  "wr_kept es w w' \<longleftrightarrow> (\<exists>bs. wr_written w' = wr_written w @ bs \<and> lexes bs es) \<and> wr_inv w'
     \<and> wr_started_inside w' = wr_started_inside w \<and> free_run es (wr_grammar w) = Some (wr_grammar w')"

lemma wr_kept_nil: "wr_inv w \<Longrightarrow> wr_kept [] w w"
  by (simp add: wr_kept_def)

lemma wr_kept_trans:
  assumes "wr_kept es w w1" and "wr_kept fs w1 w2" shows "wr_kept (es @ fs) w w2"
proof -
  obtain as where a: "wr_written w1 = wr_written w @ as" "lexes as es" using assms(1) by (auto simp: wr_kept_def)
  obtain bs where b: "wr_written w2 = wr_written w1 @ bs" "lexes bs fs" using assms(2) by (auto simp: wr_kept_def)
  have "wr_written w2 = wr_written w @ (as @ bs)" "lexes (as @ bs) (es @ fs)" using a b lexes_append by simp_all
  then show ?thesis
    using assms by (auto simp: wr_kept_def free_run_append)
qed

lemma wr_kept_element:
  assumes "wr_inv w" and "wr_element e w = (Inr (), w')" and "element_ok e"
  shows "wr_kept [e] w w'"
proof -
  note d = wr_element_did [OF assms]
  moreover have "lexes (element_bytes e) [e]" using lexeme_element [OF assms(3)] by simp
  moreover have "free_step e (wr_grammar w) = Some (wr_grammar w')" using d by (intro grammar_step_free) (simp add: wr_did_def)
  ultimately show ?thesis by (auto simp: wr_kept_def wr_did_def simp del: free_step.simps)
qed

lemma octets_fill_is_octets: "wr_octets_fill t n b = wr_element \<lparr>el_tag = t, el_value = Octets (replicate n b)\<rparr>"
  by (simp add: wr_octets_fill_def wr_element_def wr_octets_def wr_string_def Let_def)

text \<open>The reader \<^verbatim>\<open>raw_element\<close> checks the octets with, and the elements it finds.\<close>

definition raw_reader :: "bytes \<Rightarrow> TlvWriter \<Rightarrow> TlvReader" where
  "raw_reader bs w = (case wr_current w of Some kind \<Rightarrow> reader_new_in bs kind | None \<Rightarrow> reader_new bs)"

definition read_all :: "TlvReader \<Rightarrow> Element list" where
  "read_all r = (case fst (rd_elements r) of Inr es \<Rightarrow> es | Inl _ \<Rightarrow> [])"

lemma reader_new_in_state:
  "length bs \<le> USIZE_MAX \<Longrightarrow> rd_inv (reader_new_in bs k)" "rd_grammar (reader_new_in bs k) = ([k], False)"
  "rd_base_depth (reader_new_in bs k) = 1" "rd_started_inside (reader_new_in bs k)" "rd_pos (reader_new_in bs k) = 0"
  "rd_buf (reader_new_in bs k) = bs"
  by (simp_all add: reader_new_in_def rd_inv_def rd_base_depth_def rd_grammar_def MAX_DEPTH_def)

text \<open>One complete element inside a container of kind \<open>k\<close>: its lexemes, and that it may stand under any open containers that leave room
  for its own.\<close>

lemma one_element_in:
  assumes "one_element (reader_new_in bs k) = Inr e" and "length bs \<le> USIZE_MAX"
  shows "\<exists>es. read_all (reader_new_in bs k) = e # es \<and> lexes bs (e # es) \<and> grammar_run 1 (e # es) ([k], False) = Some ([k], False)
    \<and> within 1 (e # es)"
proof -
  let ?r = "reader_new_in bs k"
  note st = reader_new_in_state [of bs k]
  obtain es r' where r: "rd_elements ?r = (Inr (e # es), r')" and f: "rd_finish r' = Inr ()"
    using one_element_reads [OF assms(1)] by blast
  have l: "lexes bs (e # es)" "grammar_run 1 (e # es) ([k], False) = Some (rd_grammar r')" "rd_inv r'" "rd_base_depth r' = 1"
    using rd_elements_lexes [OF r] st assms(2) by auto
  obtain b' where b': "rd_grammar r' = (k # b', False)" using grammar_run_frame [of "e # es" k "[]"] l(2) by blast
  have "rd_depth r' = 1" using f l(4) by (auto simp: rd_finish_def split: if_splits)
  then have "b' = []" using rd_open_end_count [OF l(3)] b' by simp
  moreover have "within 1 (e # es)" using rd_elements_within [OF r] st assms(2) by (simp add: reader_new_in_def)
  ultimately show ?thesis using r l b' by (simp add: read_all_def del: grammar_run.simps within.simps lexes.simps)
qed

lemma one_element_top:
  assumes "one_element (reader_new bs) = Inr e" and "length bs \<le> USIZE_MAX"
  shows "\<exists>es. read_all (reader_new bs) = e # es \<and> lexes bs (e # es) \<and> grammar_run 0 (e # es) ([], False) = Some ([], True)"
proof -
  obtain es r' where r: "rd_elements (reader_new bs) = (Inr (e # es), r')" and f: "rd_finish r' = Inr ()"
    using one_element_reads [OF assms(1)] by blast
  have "rd_inv (reader_new bs)" "rd_grammar (reader_new bs) = ([], False)" "rd_base_depth (reader_new bs) = 0"
    using reader_new_state [of bs] assms(2) by (auto simp: rd_base_depth_def reader_new_def)
  then have l: "lexes bs (e # es)" "grammar_run 0 (e # es) ([], False) = Some (rd_grammar r')" "rd_inv r'" "rd_base_depth r' = 0"
    using rd_elements_lexes [OF r] by (auto simp: reader_new_def)
  have "rd_grammar r' = ([], True)" using f l(4) by (auto simp: rd_finish_def rd_grammar_def split: if_splits)
  then show ?thesis using r l by (simp add: read_all_def del: grammar_run.simps lexes.simps)
qed

text \<open>Copying one element after what is written, in a position that admits its first tag.\<close>

lemma wr_kept_copy:
  assumes "wr_inv w" and "tag_refusal (el_tag e) w = None" and "wr_fits bs w" and w': "w' = wr_mark_done (wr_put bs w)"
    and l: "lexes bs (e # es)"
    and inside: "\<And>k. wr_current w = Some k \<Longrightarrow> grammar_run 1 (e # es) ([k], False) = Some ([k], False)"
    and top: "wr_current w = None \<Longrightarrow> grammar_run 0 (e # es) ([], False) = Some ([], True)"
  shows "wr_kept (e # es) w w'"
proof -
  let ?ks = "take (wr_depth w) (wr_stack w)"
  have inv: "wr_inv w'" "wr_started_inside w' = wr_started_inside w" "wr_depth w' = wr_depth w" "wr_stack w' = wr_stack w"
    using assms(1,3) by (auto simp: w' wr_mark_done_def wr_inv_def wr_sane_def wr_fits_def)
  have wr: "wr_written w' = wr_written w @ bs" unfolding w' by (rule wr_written_mark [OF assms(3)])
  have c: "wr_current w = innermost ?ks" using assms(1) by (simp add: wr_current_def current_container_innermost wr_inv_def)
  have n: "length ?ks = wr_depth w" using assms(1) by (simp add: wr_inv_def)
  have "free_run (e # es) (wr_grammar w) = Some (wr_grammar w')"
  proof (cases ?ks rule: rev_cases)
    case Nil
    then have d: "wr_depth w = 0" using n by auto
    have g: "wr_grammar w = ([], False)" "wr_grammar w' = ([], True)"
      using d assms(2) by (auto simp: wr_grammar_def w' wr_mark_done_def tag_refusal_def split: if_splits)
    have "grammar_run 0 (e # es) ([], False) = Some ([], True)" using top c Nil by (simp add: innermost_def)
    then show ?thesis unfolding g by (rule grammar_run_free)
  next
    case (snoc p k)
    then have d: "wr_depth w = length p + 1" using n by (metis length_append_singleton Suc_eq_plus1)
    have g: "wr_grammar w = (p @ [k], False)" "wr_grammar w' = (p @ [k], False)"
      using d snoc by (simp_all add: wr_grammar_def inv)
    have "grammar_run 1 (e # es) ([k], False) = Some ([k], False)" using inside [of k] c snoc by (simp add: innermost_def)
    from grammar_run_frame [OF this, of p] show ?thesis unfolding g by blast
  qed
  then show ?thesis using inv wr l unfolding wr_kept_def by blast
qed

lemma wr_kept_raw:
  assumes "wr_inv w" and "wr_raw_element bs w = (Inr (), w')" and "length bs \<le> USIZE_MAX"
  shows "wr_kept (read_all (raw_reader bs w)) w w'"
proof -
  obtain e where e: "one_element (raw_reader bs w) = Inr e" and t: "tag_refusal (el_tag e) w = None"
    and c: "bindE (wr_copy bs) (\<lambda>_. bindE (wr_advance (length bs)) (\<lambda>_. modifyE wr_mark_done)) w = (Inr (), w')"
    using assms(2) unfolding wr_raw_element_def raw_reader_def [symmetric]
    by (cases "one_element (raw_reader bs w)") (auto simp: bindE_ok_iff [of "wr_check_tag _"] wr_check_tag_eq split: option.splits)
  note w' = put_mark_ok [OF puts_copy c [folded bindE_assoc] assms(1)]
  show ?thesis
  proof (cases "wr_current w")
    case None
    then have r: "raw_reader bs w = reader_new bs" by (simp add: raw_reader_def)
    obtain es where es: "read_all (raw_reader bs w) = e # es" "lexes bs (e # es)" "grammar_run 0 (e # es) ([], False) = Some ([], True)"
      using one_element_top [OF e [unfolded r] assms(3)] unfolding r by blast
    show ?thesis unfolding es(1) by (rule wr_kept_copy [OF assms(1) t w' es(2)]) (use None es(3) in \<open>simp_all del: grammar_run.simps\<close>)
  next
    case (Some k)
    then have r: "raw_reader bs w = reader_new_in bs k" by (simp add: raw_reader_def)
    obtain es where es: "read_all (raw_reader bs w) = e # es" "lexes bs (e # es)" "grammar_run 1 (e # es) ([k], False) = Some ([k], False)"
      using one_element_in [OF e [unfolded r] assms(3)] unfolding r by blast
    show ?thesis unfolding es(1) by (rule wr_kept_copy [OF assms(1) t w' es(2)]) (use Some es(3) in \<open>simp_all del: grammar_run.simps\<close>)
  qed
qed

section \<open>What re-tagging writes\<close>

text \<open>The parts of the element \<^verbatim>\<open>raw_element_retagged\<close> is given: control octet, tag and the rest.\<close>

lemma retag_parts:
  assumes "one_element (reader_new_in bs List) = Inr e" and "length bs \<le> USIZE_MAX"
  shows "\<exists>c tb val et. bs = c # tb @ val \<and> element_type_from_bits c = Inr et \<and> et \<noteq> EndOfContainerElt
    \<and> tag_decode c (tb @ val) = Inr (el_tag e, length tb) \<and> tag_stands tb (el_tag e)
    \<and> (\<exists>v es rest. val = v @ rest \<and> value_reads et v (el_value e) \<and> lexes rest es
        \<and> read_all (reader_new_in bs List) = e # es \<and> grammar_run 1 (e # es) ([List], False) = Some ([List], False)
        \<and> within 1 (e # es))"
proof -
  obtain es where es: "read_all (reader_new_in bs List) = e # es" "lexes bs (e # es)"
    "grammar_run 1 (e # es) ([List], False) = Some ([List], False)" "within 1 (e # es)" using one_element_in [OF assms] by blast
  obtain b rest where b: "bs = b @ rest" "lexeme b e" "lexes rest es" using es(2) by auto
  have "el_value e \<noteq> EndOfContainer" using es(3) by (auto split: if_splits)
  then obtain c tb v et where l: "b = c # tb @ v" "element_type_from_bits c = Inr et" "et \<noteq> EndOfContainerElt"
    "\<forall>rest. tag_decode c (tb @ rest) = Inr (el_tag e, length tb)" "value_reads et v (el_value e)"
    using b(2) by (auto simp: lexeme_def)
  have "tag_stands tb (el_tag e)" using tag_decode_stands [OF spec [OF l(4), of "[]"]] by simp
  moreover have "tag_decode c (tb @ v @ rest) = Inr (el_tag e, length tb)" using l(4) by blast
  moreover have "bs = c # tb @ v @ rest" using b(1) l(1) by simp
  ultimately show ?thesis using b(3) l(2,3,5) es(1,3,4) by blast
qed

lemma retag_checked:
  "wr_raw_element_retagged bs t w = (Inr (), w') \<Longrightarrow> \<exists>e. one_element (reader_new_in bs List) = Inr e"
  by (cases "one_element (reader_new_in bs List)") (simp_all add: wr_raw_element_retagged_def)

lemma retag_done:
  assumes "wr_inv w" and "wr_raw_element_retagged bs t w = (Inr (), w')"
    and e: "one_element (reader_new_in bs List) = Inr e" and p: "bs = c # tb @ val" "tag_stands tb (el_tag e)"
    and out: "out = (tag_control_bits t OR (c AND 0x1F)) # tag_bytes t @ drop (tag_encoded_len (el_tag e)) tb @ val"
  shows "tag_refusal t w = None" and "wr_fits out w" and "w' = wr_mark_done (wr_put out w)"
proof -
  let ?h = "tag_encoded_len t + 1" and ?val = "drop (tag_encoded_len (el_tag e)) tb @ val"
  let ?c = "tag_control_bits t OR (c AND 0x1F)" and ?n = "?h + length ?val"
  have small: "usize_checked_add (tag_encoded_len u) 1 = Some (tag_encoded_len u + 1)" for u
    using tag_encoded_len_le [of u] by (simp add: usize_checked_add_def USIZE_MAX_def)
  have "tag_encoded_len (el_tag e) \<le> length tb" using p(2) by (auto simp: tag_stands_def)
  then have val: "slice_from bs (tag_encoded_len (el_tag e) + 1) = Some ?val" unfolding p(1) by (simp add: slice_from_def)
  have hd: "(case bs of [] \<Rightarrow> None | c # _ \<Rightarrow> Some c) = Some c" by (simp add: p(1))
  have total: "bindE (wr_check_tag t) (\<lambda>_.
     bindE (liftE (ok_or BufferTooSmall (usize_checked_add ?h (length ?val)))) (\<lambda>total.
     bindE (wr_room total (retag_slot ?c t ?h ?val)) (\<lambda>_.
     bindE (wr_advance total) (\<lambda>_. modifyE wr_mark_done)))) w = (Inr (), w')"
    using assms(2) unfolding wr_raw_element_retagged_def e hd small
    by (simp only: bindE_liftE_Inr ok_or_simps val e hd small)
  then show "tag_refusal t w = None"
    by (auto simp: bindE_ok_iff [of "wr_check_tag _"] wr_check_tag_eq split: option.splits)
  from total have "bindE (liftE (ok_or BufferTooSmall (usize_checked_add ?h (length ?val)))) (\<lambda>total.
     bindE (wr_room total (retag_slot ?c t ?h ?val)) (\<lambda>_.
     bindE (wr_advance total) (\<lambda>_. modifyE wr_mark_done))) w = (Inr (), w')"
    by (auto simp: bindE_ok_iff [of "wr_check_tag _"] wr_check_tag_eq split: option.splits)
  then have r: "bindE (wr_room ?n (retag_slot ?c t ?h ?val)) (\<lambda>_.
     bindE (wr_advance ?n) (\<lambda>_. modifyE wr_mark_done)) w = (Inr (), w')"
    by (auto simp: usize_checked_add_def split: if_splits)
  have "puts (bindE (wr_room ?n (retag_slot ?c t ?h ?val)) (\<lambda>_. wr_advance ?n)) (?c # tag_bytes t @ ?val)"
    by (rule puts_room [OF retag_slot_fill]) simp_all
  note w' = put_mark_ok [OF this r [folded bindE_assoc] assms(1)]
  show "wr_fits out w" "w' = wr_mark_done (wr_put out w)" using w' by (simp_all only: out)
qed

text \<open>Whether the tag of an encoded element stands in the form this encoder writes it in.\<close>

definition narrow_tag :: "bytes \<Rightarrow> bool" where
  "narrow_tag bs = (case bs of [] \<Rightarrow> False
     | c # rest \<Rightarrow> (case tag_decode c rest of Inl _ \<Rightarrow> False | Inr (t, n) \<Rightarrow> n = tag_encoded_len t))"

definition retagged :: "Tag \<Rightarrow> Element list \<Rightarrow> Element list" where
  "retagged t es = (case es of [] \<Rightarrow> [] | e # es \<Rightarrow> e\<lparr>el_tag := t\<rparr> # es)"

text \<open>The same elements stand at the top level, once the container around them is taken away.\<close>

lemma grammar_run_unwrap:
  "grammar_run 1 es (k # b, False) = Some ([k], False) \<Longrightarrow> within (Suc (length b)) es \<Longrightarrow> b \<noteq> [] \<Longrightarrow>
   grammar_run 0 es (b, False) = Some ([], True)"
proof (induction es arbitrary: b)
  case (Cons e es)
  obtain g1 where g1: "grammar_step e (k # b, False) = Some g1" "1 \<le> length (fst g1)" "grammar_run 1 es g1 = Some ([k], False)"
    using Cons.prems(1) by (auto simp: Suc_le_eq simp del: grammar_step.simps split: option.splits if_splits)
  obtain b1 where b1: "g1 = (k # b1, False)" using grammar_step_frame [OF g1(1,2)] by blast
  have "innermost b = innermost (k # b)" using Cons.prems(3) by (simp add: innermost_def)
  then have s: "grammar_step e (b, False) = Some (b1, b1 = [])"
    using g1(1) b1 Cons.prems(3) by (cases "el_value e") (auto split: if_splits)
  have d: "depth_step e (Suc (length b)) = Suc (length b1)" using grammar_step_level [OF g1(1)] b1 by simp
  show ?case
  proof (cases "b1 = []")
    case True
    then have "es = []" using Cons.prems(2) d by simp
    then show ?thesis using s True by (simp del: grammar_step.simps)
  next
    case False
    then have "within (Suc (length b1)) es" using Cons.prems(2) d by (simp split: if_splits)
    then show ?thesis using Cons.IH [OF _ _ False] g1(3) b1 s False by (simp del: grammar_step.simps)
  qed
qed simp

lemma grammar_run_retagged:
  assumes "grammar_run 1 (e # es) ([List], False) = Some ([List], False)" and "within 1 (e # es)"
  shows "tag_allowed (Some k) t \<Longrightarrow> grammar_run 1 (e\<lparr>el_tag := t\<rparr> # es) ([k], False) = Some ([k], False)"
    and "tag_allowed None t \<Longrightarrow> grammar_run 0 (e\<lparr>el_tag := t\<rparr> # es) ([], False) = Some ([], True)"
proof -
  have v: "el_value e \<noteq> EndOfContainer" using assms(1) by (auto split: if_splits)
  have "(tag_allowed (Some k) t \<longrightarrow> grammar_run 1 (e\<lparr>el_tag := t\<rparr> # es) ([k], False) = Some ([k], False))
    \<and> (tag_allowed None t \<longrightarrow> grammar_run 0 (e\<lparr>el_tag := t\<rparr> # es) ([], False) = Some ([], True))"
  proof (cases "value_container (el_value e)")
    case None
    then have "depth_step e 1 = 1" using v by (cases "el_value e") (simp_all add: depth_step_def)
    then have "es = []" using assms(2) by simp
    then show ?thesis
      using grammar_step_value [of "e\<lparr>el_tag := t\<rparr>" "[k]" False] grammar_step_value [of "e\<lparr>el_tag := t\<rparr>" "[]" False] v None
      by (simp add: innermost_def del: grammar_step.simps)
  next
    case (Some j)
    then have j: "el_value e = Container j" by (cases "el_value e") auto
    then have "grammar_run 1 es ([List, j], False) = Some ([List], False)" "within (Suc (Suc 0)) es"
      using assms(1,2) by (auto simp: innermost_def depth_step_def split: if_splits)
    then have "grammar_run 1 es ([k, j], False) = Some ([k], False)" "grammar_run 0 es ([j], False) = Some ([], True)"
      using grammar_run_bottom [of es List "[j]" "[]" k] grammar_run_unwrap [of es List "[j]"] by simp_all
    moreover have "(1 :: nat) < MAX_DEPTH" by (simp add: MAX_DEPTH_def)
    ultimately show ?thesis using j by (simp add: innermost_def)
  qed
  then show "tag_allowed (Some k) t \<Longrightarrow> grammar_run 1 (e\<lparr>el_tag := t\<rparr> # es) ([k], False) = Some ([k], False)"
    and "tag_allowed None t \<Longrightarrow> grammar_run 0 (e\<lparr>el_tag := t\<rparr> # es) ([], False) = Some ([], True)" by blast+
qed

lemma wr_kept_retagged:
  assumes "wr_inv w" and "wr_raw_element_retagged bs t w = (Inr (), w')" and "length bs \<le> USIZE_MAX" and "narrow_tag bs"
  shows "wr_kept (retagged t (read_all (reader_new_in bs List))) w w'"
proof -
  obtain e where e: "one_element (reader_new_in bs List) = Inr e" using retag_checked [OF assms(2)] by blast
  obtain c tb val et v es rest where p: "bs = c # tb @ val" "element_type_from_bits c = Inr et" "et \<noteq> EndOfContainerElt"
      "tag_decode c (tb @ val) = Inr (el_tag e, length tb)" "tag_stands tb (el_tag e)"
    and v: "val = v @ rest" "value_reads et v (el_value e)" "lexes rest es"
    and es: "read_all (reader_new_in bs List) = e # es" "grammar_run 1 (e # es) ([List], False) = Some ([List], False)" "within 1 (e # es)"
    using retag_parts [OF e assms(3)] by blast
  let ?e = "e\<lparr>el_tag := t\<rparr>" and ?c = "tag_control_bits t OR element_type_bits et"
  have "length tb = tag_encoded_len (el_tag e)" using assms(4) p(1,4) by (simp add: narrow_tag_def)
  then have n: "drop (tag_encoded_len (el_tag e)) tb = []" by simp
  let ?out = "(?c # tag_bytes t @ v) @ rest"
  have o: "?out = (tag_control_bits t OR (c AND 0x1F)) # tag_bytes t @ drop (tag_encoded_len (el_tag e)) tb @ val"
    by (simp add: n v(1) element_type_bits_inverse [OF p(2)])
  note w' = retag_done [OF assms(1,2) e p(1,5) o]
  have "lexeme (?c # tag_bytes t @ v) ?e"
    unfolding lexeme_def using p(3) v(2)
    by (intro disjI2 exI [of _ ?c] exI [of _ "tag_bytes t"] exI [of _ v] exI [of _ et]) (simp add: tag_decode_ok)
  then have l: "lexes ?out (?e # es)" using v(3) lexes.simps(2) by blast
  have a: "tag_allowed (wr_current w) t" using w'(1) by (simp add: tag_refusal_def split: if_splits)
  have "wr_kept (?e # es) w w'"
  proof (rule wr_kept_copy [OF assms(1) _ w'(2,3) l])
    show "tag_refusal (el_tag ?e) w = None" using w'(1) by simp
    show "grammar_run 1 (?e # es) ([k], False) = Some ([k], False)" if "wr_current w = Some k" for k
      using grammar_run_retagged(1) [OF es(2,3)] a that by simp
    show "grammar_run 0 (?e # es) ([], False) = Some ([], True)" if "wr_current w = None"
      using grammar_run_retagged(2) [OF es(2,3)] a that by simp
  qed
  then show ?thesis by (simp add: retagged_def es(1))
qed

section \<open>Programs of calls\<close>

text \<open>\<^verbatim>\<open>put_block\<close> of the Interaction Model server (\<^verbatim>\<open>src/src/im/server.rs\<close>): a block of calls that runs out of room is taken back.  The
  counter of responses is an argument and a result; \<^verbatim>\<open>Ok(true)\<close> is \<open>Some\<close> of what the block returned, \<^verbatim>\<open>Ok(false)\<close> is \<open>None\<close>.\<close>

definition put_block :: "nat \<Rightarrow> nat \<Rightarrow> (TlvWriter, 'a) mutator \<Rightarrow> (TlvWriter, nat \<times> 'a option) mutator" where
  "put_block responses limit f w =
     (if responses \<ge> limit then (Inr (responses, None), w)
      else
        let checkpoint = wr_checkpoint w in
        case f w of
          (Inr a, w') \<Rightarrow> (Inr (min (responses + 1) USIZE_MAX, Some a), w')
        | (Inl e, w') \<Rightarrow>
            if e = BufferTooSmall then (Inr (responses, None), wr_rollback checkpoint w') else (Inl e, w'))"

text \<open>What a call on a writer is to write: an element, or those of the octets it copies.\<close>

fun call_writes :: "WriterCall \<Rightarrow> TlvWriter \<Rightarrow> Element list" where
  "call_writes (CallElement e) w = [e]"
| "call_writes (CallOctetsFill t n b) w = [\<lparr>el_tag = t, el_value = Octets (replicate n b)\<rparr>]"
| "call_writes (CallRaw bs) w = read_all (raw_reader bs w)"
| "call_writes (CallRawRetagged bs t) w = retagged t (read_all (reader_new_in bs List))"

datatype WriterOp = Do WriterCall | Block nat nat "WriterOp list"

text \<open>Running a program returns the elements it kept: those of its calls, less the blocks taken back.\<close>

fun op_run :: "WriterOp \<Rightarrow> (TlvWriter, Element list) mutator"
  and ops_run :: "WriterOp list \<Rightarrow> (TlvWriter, Element list) mutator" where
  "op_run (Do c) = bindE getE (\<lambda>w. bindE (wr_call c) (\<lambda>_. retE (call_writes c w)))"
| "op_run (Block responses limit ops) =
     bindE (put_block responses limit (ops_run ops)) (\<lambda>(_, kept). retE (case kept of None \<Rightarrow> [] | Some es \<Rightarrow> es))"
| "ops_run [] = retE []"
| "ops_run (x # xs) = bindE (op_run x) (\<lambda>es. bindE (ops_run xs) (\<lambda>fs. retE (es @ fs)))"

text \<open>The arguments Rust can pass, and of the octets to be re-tagged that their tag stands in the form of this encoder.\<close>

fun call_ok :: "WriterCall \<Rightarrow> bool" where
  "call_ok (CallElement e) \<longleftrightarrow> element_ok e"
| "call_ok (CallOctetsFill t n b) \<longleftrightarrow> n \<le> USIZE_MAX"
| "call_ok (CallRaw bs) \<longleftrightarrow> length bs \<le> USIZE_MAX"
| "call_ok (CallRawRetagged bs t) \<longleftrightarrow> length bs \<le> USIZE_MAX \<and> narrow_tag bs"

fun op_ok :: "WriterOp \<Rightarrow> bool" where
  "op_ok (Do c) \<longleftrightarrow> call_ok c"
| "op_ok (Block responses limit ops) \<longleftrightarrow> (\<forall>x \<in> set ops. op_ok x)"

lemma wr_safe_call: "wr_safe (wr_call c)"
  by (cases c) (simp_all add: wr_safe_element wr_safe_octets_fill wr_safe_raw_element wr_safe_retagged)

lemma rollback_steps:
  assumes "wr_inv w" and "wr_steps w w'"
  shows "wr_steps w (wr_rollback (wr_checkpoint w) w')" and "wr_kept [] w (wr_rollback (wr_checkpoint w) w')"
  using assms by (auto simp: wr_steps_def wr_rollback_def wr_checkpoint_def wr_written_def wr_grammar_def slice_get_def wr_inv_def
      wr_sane_def wr_kept_def)

lemma wr_safe_put_block:
  assumes "wr_safe f" shows "wr_safe (put_block responses limit f)"
  unfolding wr_safe_def
proof (intro allI impI)
  fix w
  assume i: "wr_inv w"
  obtain x w' where f: "f w = (x, w')" by fastforce
  then have "wr_steps w w'" using assms i unfolding wr_safe_def by (metis snd_conv)
  then show "wr_steps w (snd (put_block responses limit f w))"
    using f rollback_steps(1) [OF i] wr_steps_refl [OF i] by (cases x) (simp_all add: put_block_def Let_def)
qed

lemma wr_safe_program: "wr_safe (op_run x)" "wr_safe (ops_run xs)"
proof (induction x and xs rule: op_run_ops_run.induct)
  case (1 c)
  show ?case unfolding op_run.simps by (intro wr_safe_bind wr_safe_pure wr_safe_call)
next
  case (2 responses limit ops)
  then show ?case by (auto intro!: wr_safe_bind wr_safe_put_block wr_safe_pure split: prod.split)
next
  case 3
  then show ?case by (simp only: ops_run.simps wr_safe_pure)
next
  case (4 x xs)
  then show ?case by (auto intro!: wr_safe_bind wr_safe_pure)
qed

lemma call_kept:
  assumes "wr_inv w" and "call_ok c" and "wr_call c w = (Inr (), w')"
  shows "wr_kept (call_writes c w) w w'"
proof (cases c)
  case (CallOctetsFill t n b)
  then show ?thesis using wr_kept_element [OF assms(1)] assms by (simp add: octets_fill_is_octets element_ok_def)
qed (use assms wr_kept_element wr_kept_raw wr_kept_retagged in simp_all)

lemma program_kept:
  "wr_inv w \<Longrightarrow> op_ok x \<Longrightarrow> op_run x w = (Inr es, w') \<Longrightarrow> wr_kept es w w'"
  "wr_inv w \<Longrightarrow> \<forall>x \<in> set xs. op_ok x \<Longrightarrow> ops_run xs w = (Inr es, w') \<Longrightarrow> wr_kept es w w'"
proof (induction x and xs arbitrary: w es w' and w es w' rule: op_run_ops_run.induct)
  case (1 c)
  then show ?case using call_kept [of w c w'] by (auto simp: bindE_ok_iff)
next
  case (2 responses limit ops)
  obtain n kept where k: "put_block responses limit (ops_run ops) w = (Inr (n, kept), w')"
    and es: "es = (case kept of None \<Rightarrow> [] | Some es \<Rightarrow> es)"
    using "2.prems"(3) by (auto simp: bindE_ok_iff)
  show ?case
  proof (cases "responses \<ge> limit")
    case True
    then show ?thesis using k es wr_kept_nil [OF "2.prems"(1)] by (auto simp: put_block_def)
  next
    case False
    obtain y w1 where f: "ops_run ops w = (y, w1)" by fastforce
    then have s: "wr_steps w w1" using wr_safe_program(2) [of ops] "2.prems"(1) unfolding wr_safe_def by (metis snd_conv)
    show ?thesis
    proof (cases y)
      case (Inl e)
      then show ?thesis using k es f False rollback_steps(2) [OF "2.prems"(1) s] by (auto simp: put_block_def Let_def split: if_splits)
    next
      case (Inr fs)
      then have "es = fs" "w' = w1" using k es f False by (auto simp: put_block_def Let_def)
      then show ?thesis using "2.IH" [of w fs w1] "2.prems" f Inr by simp
    qed
  qed
next
  case 3
  then show ?case by (simp add: wr_kept_nil)
next
  case (4 x xs)
  obtain e1 w1 e2 where a: "op_run x w = (Inr e1, w1)" "ops_run xs w1 = (Inr e2, w')" "es = e1 @ e2"
    using "4.prems"(3) by (auto simp: bindE_ok_iff)
  have k: "wr_kept e1 w w1" using "4.IH"(1) "4.prems"(1,2) a(1) by simp
  then have "wr_inv w1" by (simp add: wr_kept_def)
  then show ?case using "4.IH"(2) [of w1 e2 w'] "4.prems"(2) a(2,3) wr_kept_trans [OF k] by simp
qed

section \<open>Containers nested too deep\<close>

lemma value_reads_container:
  assumes "value_reads et val (Container k)" and "length val \<le> USIZE_MAX"
  shows "et = container_element_type k"
proof -
  have "rd_before val (reader_new val)" using reader_new_state(1) [OF assms(2)] by (simp add: rd_before_def reader_new_def)
  then have "rd_value et (reader_new val) = (Inr (Container k), rd_entered (Container k) (rd_past (length val) (reader_new val)))"
    using assms(1) by (simp add: value_reads_def reader_new_def MAX_DEPTH_def)
  then show ?thesis by (cases et) (auto simp: bindE_ok_iff rd_open_def split: if_splits sum.splits)
qed

lemma lexeme_too_deep:
  assumes b: "rd_before bs r" and lex: "lexeme bs e" and k: "el_value e = Container k" and d: "rd_depth r = MAX_DEPTH"
    and guard: "\<not> (rd_top_level_done r \<and> \<not> rd_many r \<and> rd_depth r = rd_base_depth r)"
    and a: "tag_allowed (innermost (fst (rd_grammar r))) (el_tag e)"
  shows "fst (next_element r) = Inl TlvDepthExceeded"
proof -
  obtain c tb val et where bs: "bs = c # tb @ val" and et: "element_type_from_bits c = Inr et" "et \<noteq> EndOfContainerElt"
    and t: "\<forall>rest. tag_decode c (tb @ rest) = Inr (el_tag e, length tb)" and v: "value_reads et val (el_value e)"
    using lex k by (auto simp: lexeme_def)
  define r1 where "r1 = rd_past 1 r"
  have r1: "rd_depth r1 = rd_depth r" "rd_stack r1 = rd_stack r" by (simp_all add: r1_def)
  note n = rd_after_control [OF b [unfolded bs] guard, folded r1_def]
  let ?r2 = "rd_past (length tb) r1"
  note p = rd_before_append [OF n(2)]
  have "et = container_element_type k"
    using value_reads_container [OF v [unfolded k]] rd_before_length [OF p(2)] by simp
  then have val: "rd_value et ?r2 = (Inl TlvDepthExceeded, ?r2)"
    using d r1 p(2) by (cases k) (simp_all add: rd_open_def rd_before_def rd_inv_def)
  obtain rest where "rd_remaining r1 = tb @ rest" using rd_before_rest [OF p(1)] by blast
  then have dec: "tag_decode c (rd_remaining r1) = Inr (el_tag e, length tb)" using t by simp
  have adv: "rd_advance (length tb) r1 = (Inr (), ?r2)"
    using p(2) by (auto simp: rd_advance_def usize_checked_add_def rd_past_def rd_before_def rd_inv_def)
  have "tag_allowed (current_container (rd_depth r) (rd_stack r)) (el_tag e)"
    using a b by (simp add: current_container_innermost rd_before_def rd_inv_def rd_grammar_def)
  then have chk: "rd_check_tag (el_tag e) ?r2 = (Inr (), ?r2)" by (simp add: rd_check_tag_def r1)
  have "fst (rd_tagged c et r1) = Inl TlvDepthExceeded" unfolding rd_tagged_def by (simp add: dec adv chk val)
  then show ?thesis using n(1) et by (simp add: rd_element_def)
qed

lemma rd_elements_too_deep:
  "rd_before bs r \<Longrightarrow> lexes bs es \<Longrightarrow> rd_live r \<Longrightarrow> \<not> rd_started_inside r \<Longrightarrow> free_run es (rd_grammar r) = Some g \<Longrightarrow>
   \<not> deepest (rd_depth r) es \<le> MAX_DEPTH \<Longrightarrow> fst (rd_elements r) = Inl TlvDepthExceeded"
proof (induction es arbitrary: r bs)
  case Nil
  then show ?case by (simp add: rd_before_def rd_inv_def)
next
  case (Cons e es)
  obtain b bs' where bs: "bs = b @ bs'" and lb: "lexeme b e" and lbs: "lexes bs' es" using Cons.prems(2) by auto
  note b = Cons.prems(1) [unfolded bs]
  have inv: "rd_inv r" using b by (simp add: rd_before_def)
  obtain g' where g': "free_step e (rd_grammar r) = Some g'" "free_run es g' = Some g"
    using Cons.prems(5) by (auto simp del: free_step.simps split: option.splits)
  have "\<not> snd (rd_grammar r)" using g'(1) by (cases "rd_grammar r") (auto split: if_splits)
  then have guard: "\<not> (rd_top_level_done r \<and> \<not> rd_many r \<and> rd_depth r = rd_base_depth r)"
    by (rule rd_live_guard [OF Cons.prems(3)])
  have n: "length (fst (rd_grammar r)) = rd_depth r" by (rule rd_open_end_count [OF inv])
  have dl: "length (fst g') = depth_step e (rd_depth r)" using free_step_level [OF g'(1)] n by simp
  show ?case
  proof (cases "length (fst g') \<le> MAX_DEPTH")
    case True
    have base: "rd_base_depth r = 0" using Cons.prems(4) by (simp add: rd_base_depth_def)
    obtain r1 where r1: "next_element r = (Inr (Some e), r1)" "rd_grammar r1 = g'" "rd_pos r1 = rd_pos r + length b"
      using lexeme_reads [OF rd_before_append(1) [OF b] lb guard free_step_bounded [OF g'(1) True]] base by auto
    have st: "rd_buf r1 = rd_buf r" "rd_many r1 = rd_many r" "rd_started_inside r1 = rd_started_inside r" "rd_inv r1"
      using rd_safeD [OF rd_safe_next_element r1(1)] inv by (auto simp: rd_steps_def)
    have live: "rd_live r1" using st Cons.prems(3) by (simp add: rd_live_def)
    have d1: "rd_depth r1 = depth_step e (rd_depth r)" using rd_open_end_count [OF st(4)] r1(2) dl by simp
    have b1: "rd_before bs' r1" using rd_before_append(2) [OF b] st(1,4) r1(3) by (auto simp: rd_before_def)
    have "rd_depth r \<le> MAX_DEPTH" using inv by (simp add: rd_inv_def)
    then have "\<not> deepest (rd_depth r1) es \<le> MAX_DEPTH" using Cons.prems(6) d1 by simp
    then have "fst (rd_elements r1) = Inl TlvDepthExceeded"
      using Cons.IH [OF b1 lbs live] st(3) Cons.prems(4) g'(2) r1(2) by simp
    then show ?thesis using rd_elements_step(3) [OF r1(1)] by (cases "rd_elements r1") simp
  next
    case False
    obtain k where k: "el_value e = Container k" "rd_depth r = MAX_DEPTH" "tag_allowed (innermost (fst (rd_grammar r))) (el_tag e)"
      using free_step_deep [of e "fst (rd_grammar r)" "snd (rd_grammar r)" g'] g'(1) False n inv by (auto simp: rd_inv_def simp del: free_step.simps)
    have "fst (next_element r) = Inl TlvDepthExceeded"
      by (rule lexeme_too_deep [OF rd_before_append(1) [OF b] lb k(1,2) guard k(3)])
    then show ?thesis by (cases "next_element r") (simp add: rd_elements_step(1))
  qed
qed

section \<open>Properties\<close>

text \<open>A block that does not fit, taken back, and a raw copy and one re-tagged.\<close>

definition demo_program :: "WriterOp list" where
  "demo_program = [Block 0 4 [Do (CallElement \<lparr>el_tag = FullyQualified 1 1 1, el_value = Null\<rparr>)], Do (CallRawRetagged [0x34, 0x01] Anonymous)]"

lemma demo_block:
  "op_run (Block 0 4 [Do (CallElement \<lparr>el_tag = FullyQualified 1 1 1, el_value = Null\<rparr>)]) (writer_new [0, 0]) = (Inr [], writer_new [0, 0])"
  by (simp add: put_block_def wr_element_def wr_null_def wr_head_def write_eval_simps wr_rollback_def wr_checkpoint_def bindE_def)

lemma demo_retag: "\<exists>w. op_run (Do (CallRawRetagged [0x34, 0x01] Anonymous)) (writer_new [0, 0])
   = (Inr [\<lparr>el_tag = Anonymous, el_value = Null\<rparr>], w) \<and> wr_finish w = Inr [0x14]"
proof -
  have o: "one_element (reader_new_in [0x34, 0x01] List) = Inr \<lparr>el_tag = Context 1, el_value = Null\<rparr>"
    by (simp add: one_element_def read_eval_simps skip_value_def rd_finish_def)
  have t: "tag_encode Anonymous [] = (Inr 0, [])"
    by (subst tag_encode_ok) (simp_all add: tag_encoded_len_def)
  have "read_all (reader_new_in [0x34, 0x01] List) = [\<lparr>el_tag = Context 1, el_value = Null\<rparr>]"
    by (simp add: read_all_def rd_elements.simps read_eval_simps)
  with o t show ?thesis
    by (simp add: wr_raw_element_retagged_def write_eval_simps retagged_def)
qed

text \<open>C4: What the writer finishes, the reader reads.  Take any program of writer calls on a fresh writer: elements and container
  ends, \<^verbatim>\<open>octets_fill\<close>, raw copies, raw copies with a new tag, and blocks under \<^verbatim>\<open>put_block\<close>, which are taken back to their checkpoint when
  they run out of room, nested as one likes.  If it succeeds and the writer finishes, a reader of the octets returns exactly the
  elements the program kept, in order, with their tags and values, reports the document complete, and \<^verbatim>\<open>validate\<close> counts them.
  There is one exception: raw copies are not checked against the depth of the place they are put in, so a program may
  nest containers deeper than \<^verbatim>\<open>MAX_DEPTH\<close>, and exactly such a document is refused, with \<^verbatim>\<open>TlvDepthExceeded\<close>.  Octets that are re-tagged
  are assumed to carry their old tag in the form this encoder writes; what happens to others is C31.\<close>

theorem writer_program_read_back:
  assumes "length buf \<le> USIZE_MAX" and "\<forall>x \<in> set ops. op_ok x" and "ops_run ops (writer_new buf) = (Inr es, w)"
    and "wr_finish w = Inr out"
  shows "if deepest 0 es \<le> MAX_DEPTH
    then (\<exists>r. rd_elements (reader_new out) = (Inr es, r) \<and> rd_finish r = Inr ()) \<and> validate out = Inr (length es)
    else validate out = Inl TlvDepthExceeded"
proof -
  have k: "wr_kept es (writer_new buf) w" by (rule program_kept(2) [OF writer_new_state(1) [OF assms(1)] assms(2,3)])
  note f = wr_finish_ok [OF assms(4)]
  have inv: "wr_inv w" "\<not> wr_started_inside w" using k by (auto simp: wr_kept_def writer_new_def)
  have g: "free_run es ([], False) = Some ([], True)" using k f(3) inv by (simp add: wr_kept_def writer_new_state)
  have l: "lexes out es" using k f(1) inv(1) by (auto simp: wr_kept_def writer_new_state)
  have n: "length out \<le> USIZE_MAX" by (rule f(2) [OF inv(1)])
  let ?r = "reader_new out"
  note s = reader_new_state(1) [OF n] reader_new_state(2-)
  have b: "rd_before out ?r" using s(1) by (simp add: rd_before_def reader_new_def)
  show ?thesis
  proof (cases "deepest 0 es \<le> MAX_DEPTH")
    case True
    then have g0: "grammar_run 0 es ([], False) = Some ([], True)" using free_run_bounded [OF g] by simp
    then have "es \<noteq> []" by auto
    then obtain r where r: "rd_elements ?r = (Inr es, r)" "rd_grammar r = ([], True)" "rd_is_empty r" "rd_inv r" "rd_base_depth r = 0"
      using rd_elements_lexes_back [OF b _ l, of "([], True)"] g0 s by (auto simp: reader_new_def)
    then have fin: "rd_finish r = Inr ()" by (auto simp: rd_finish_def rd_grammar_def rd_inv_def MAX_DEPTH_def)
    have "length es \<le> USIZE_MAX" using rd_elements_progress [OF r(1)] n by (simp add: reader_new_def)
    then have "validate out = Inr (length es)" using r(1) fin by (simp add: validate_def validate_loop_elements)
    then show ?thesis using True r(1) fin by auto
  next
    case False
    then have "fst (rd_elements ?r) = Inl TlvDepthExceeded"
      using rd_elements_too_deep [OF b l s(2)] g s by (simp add: reader_new_def rd_grammar_def)
    then show ?thesis using False by (cases "rd_elements ?r") (simp add: validate_def validate_loop_elements)
  qed
qed

theorem writer_program_read_back_witness:
  "\<exists>w. ops_run demo_program (writer_new [0, 0]) = (Inr [\<lparr>el_tag = Anonymous, el_value = Null\<rparr>], w) \<and> wr_finish w = Inr [0x14]
     \<and> validate [0x14] = Inr 1"
proof -
  obtain w where w: "op_run (Do (CallRawRetagged [0x34, 0x01] Anonymous)) (writer_new [0, 0]) = (Inr [\<lparr>el_tag = Anonymous, el_value = Null\<rparr>], w)"
    "wr_finish w = Inr [0x14]" using demo_retag by blast
  have r: "ops_run demo_program (writer_new [0, 0]) = (Inr [\<lparr>el_tag = Anonymous, el_value = Null\<rparr>], w)"
    by (simp add: demo_program_def demo_block w(1) del: op_run.simps)
  have ok: "\<forall>x \<in> set demo_program. op_ok x"
    by (simp add: demo_program_def element_ok_def USIZE_MAX_def narrow_tag_def tag_decode_def tag_control_from_bits_def slice_of_def slice_get_def
        Let_def tag_encoded_len_def)
  have "deepest 0 [\<lparr>el_tag = Anonymous, el_value = Null\<rparr>] \<le> MAX_DEPTH" by (simp add: depth_step_def)
  then show ?thesis using writer_program_read_back [OF _ ok r w(2)] r w(2) by (simp add: USIZE_MAX_def)
qed

text \<open>C31: Exactly what \<^verbatim>\<open>raw_element_retagged\<close> writes, and its defect.  It drops as many octets of the old tag as its own encoder would have written, not
  as many as the control octet says.  Whenever the call succeeds, it appends the new control octet and tag, then the value,
  but between them two zero octets if the old tag stood in the wide form (its number in four
  octets where two are enough), which the reader accepts.  The zeros stand where a reader looks for the value.\<close>

theorem retag_keeps_wide_zeros:
  assumes "wr_inv w" and "wr_raw_element_retagged bs t w = (Inr (), w')" and "length bs \<le> USIZE_MAX"
  shows "\<exists>c tb val e r. bs = c # tb @ val \<and> next_element (reader_new_in bs List) = (Inr (Some e), r)
    \<and> tag_decode c (tb @ val) = Inr (el_tag e, length tb)
    \<and> wr_written w' = wr_written w @ (tag_control_bits t OR (c AND 0x1F)) # tag_bytes t
        @ (if length tb = tag_encoded_len (el_tag e) then [] else [0, 0]) @ val
    \<and> (length tb \<noteq> tag_encoded_len (el_tag e) \<longrightarrow> tb = tag_bytes (el_tag e) @ [0, 0])"
proof -
  obtain e where e: "one_element (reader_new_in bs List) = Inr e" using retag_checked [OF assms(2)] by blast
  obtain r where r: "next_element (reader_new_in bs List) = (Inr (Some e), r)" using one_element_first [OF e] by blast
  obtain c tb val where p: "bs = c # tb @ val" "tag_decode c (tb @ val) = Inr (el_tag e, length tb)" "tag_stands tb (el_tag e)"
    using retag_parts [OF e assms(3)] by blast
  note w' = retag_done [OF assms(1,2) e p(1,3) refl]
  have "drop (tag_encoded_len (el_tag e)) tb = (if length tb = tag_encoded_len (el_tag e) then [] else [0, 0])"
    using p(3) by (auto simp: tag_stands_def)
  moreover have "length tb \<noteq> tag_encoded_len (el_tag e) \<longrightarrow> tb = tag_bytes (el_tag e) @ [0, 0]" using p(3) by (auto simp: tag_stands_def)
  ultimately show ?thesis using p(1,2) r wr_written_mark [OF w'(2)] w'(3) by (intro exI [of _ c] exI [of _ tb] exI [of _ val] exI [of _ e] exI [of _ r]) simp
qed

text \<open>The wide form: \<open>[0x64, 1, 0, 0, 0, 5]\<close> is the number 5 under a common profile tag of four octets.\<close>

theorem retag_keeps_wide_zeros_witness:
  "\<exists>w. wr_raw_element_retagged [0x64, 0x01, 0x00, 0x00, 0x00, 0x05] Anonymous (writer_new (replicate 8 0)) = (Inr (), w)
     \<and> wr_written w = [0x04, 0x00, 0x00, 0x05] \<and> validate [0x04, 0x00, 0x00, 0x05] = Inl TlvContainerMismatch"
proof -
  let ?bs = "[0x64, 0x01, 0x00, 0x00, 0x00, 0x05] :: bytes"
  obtain w where w: "wr_raw_element_retagged ?bs Anonymous (writer_new (replicate 8 0)) = (Inr (), w)"
    using retag_wide_tag by blast
  have i: "wr_inv (writer_new (replicate 8 0))" by (rule writer_new_state(1)) (simp add: USIZE_MAX_def)
  have l: "length ?bs \<le> USIZE_MAX" by (simp add: USIZE_MAX_def)
  have td: "tag_decode 0x64 [0x01, 0x00, 0x00, 0x00, 0x05] = Inr (Common 1, 4)"
    by (simp add: tag_decode_def tag_control_from_bits_def slice_of_def slice_get_def Let_def read_le_u32_def read_le_u64_def)
  obtain c tb val e r where o: "?bs = c # tb @ val" "next_element (reader_new_in ?bs List) = (Inr (Some e), r)"
    "tag_decode c (tb @ val) = Inr (el_tag e, length tb)"
    "wr_written w = wr_written (writer_new (replicate 8 0)) @ (tag_control_bits Anonymous OR (c AND 0x1F)) # tag_bytes Anonymous
        @ (if length tb = tag_encoded_len (el_tag e) then [] else [0, 0]) @ val"
    using retag_keeps_wide_zeros [OF i w l] by blast
  have e: "el_tag e = Common 1" using o(2) wide_tag_read by auto
  have "tb @ val = [0x01, 0x00, 0x00, 0x00, 0x05]" "c = 0x64" using o(1) by auto
  moreover from this have "length tb = 4" using o(3) td by simp
  ultimately have "val = [0x05]" "c = 0x64" "length tb = 4" by (auto simp: append_eq_conv_conj)
  then show ?thesis using w o(4) e retag_reads_zero by (simp add: writer_new_state tag_encoded_len_def tag_control_bits_def)
qed

end
