(* ===== verification/Platform_Time.thy ===== *)
theory Platform_Time
  imports Prelude
begin

text \<open>
  Durations and instants (\<^verbatim>\<open>src/src/platform/time.rs\<close>): both are counts of microseconds in a
  \<^verbatim>\<open>u64\<close> and every operation saturates.  Shown here: scaling by a ratio is exact integer
  division as long as its intermediate values fit, which is what the retransmission and
  subscription timers rely on.  The transport addresses of \<^verbatim>\<open>src/src/platform/mod.rs\<close> are here too.
\<close>

type_synonym Duration = u64
type_synonym Instant = u64

definition duration_ZERO :: Duration where "duration_ZERO = 0"
definition duration_MAX :: Duration where "duration_MAX = - 1"
definition instant_MAX :: Instant where "instant_MAX = - 1"

definition from_millis :: "u64 \<Rightarrow> Duration" where
  "from_millis millis = saturating_mul millis 1000"

definition from_secs :: "u64 \<Rightarrow> Duration" where
  "from_secs secs = saturating_mul secs 1000000"

definition as_millis :: "Duration \<Rightarrow> u64" where
  "as_millis d = d div 1000"

definition as_secs :: "Duration \<Rightarrow> u64" where
  "as_secs d = d div 1000000"

definition mul_ratio :: "Duration \<Rightarrow> u64 \<Rightarrow> u64 \<Rightarrow> Duration" where
  "mul_ratio d numerator denominator =
     (case (checked_div d denominator, checked_rem d denominator) of
        (Some whole, Some rest) \<Rightarrow>
          (case checked_div (saturating_mul rest numerator) denominator of
             None \<Rightarrow> duration_MAX
           | Some fraction \<Rightarrow> saturating_add (saturating_mul whole numerator) fraction)
      | _ \<Rightarrow> duration_MAX)"

definition instant_add :: "Instant \<Rightarrow> Duration \<Rightarrow> Instant" where
  "instant_add t d = saturating_add t d"

definition instant_sub :: "Instant \<Rightarrow> Duration \<Rightarrow> Instant" where
  "instant_sub t d = saturating_sub t d"

definition duration_since :: "Instant \<Rightarrow> Instant \<Rightarrow> Duration" where
  "duration_since t earlier = saturating_sub t earlier"

definition is_elapsed_at :: "Instant \<Rightarrow> Instant \<Rightarrow> bool" where
  "is_elapsed_at t now \<longleftrightarrow> t \<le> now"

section \<open>Peers\<close>

record PeerAddr =
  pa_addr :: bytes
  pa_port :: u16
  pa_scope_id :: u32

datatype Peer = Udp PeerAddr | Ble u16 | Tcp PeerAddr u16

fun peer_is_reliable :: "Peer \<Rightarrow> bool" where
  "peer_is_reliable (Udp _) = False"
| "peer_is_reliable (Ble _) = True"
| "peer_is_reliable (Tcp _ _) = True"

section \<open>Exactness\<close>

lemma unat_div_word: "unat (a div b) = unat a div unat b" for a b :: "'a::len word"
  by (simp add: unat_div)

lemma unat_mod_word: "unat (a mod b) = unat a mod unat b" for a b :: "'a::len word"
  by (simp add: unat_mod)

lemma split_ratio: "(a div k) * n + (a mod k * n) div k = (a * n) div k" for a k n :: nat
proof (cases "k = 0")
  case False
  have "a * n = k * ((a div k) * n) + a mod k * n"
    by (metis add_mult_distrib mult.assoc mult_div_mod_eq)
  then show ?thesis using False by (simp add: add.commute)
qed simp

lemma mul_ratio_exact:
  assumes "k \<noteq> 0" and "unat (d mod k) * unat n < 2 ^ 64" and "(unat d * unat n) div unat k < 2 ^ 64"
  shows "unat (mul_ratio d n k) = (unat d * unat n) div unat k"
proof -
  let ?w = "unat d div unat k * unat n" and ?f = "(unat d mod unat k * unat n) div unat k"
  have s: "?w + ?f = (unat d * unat n) div unat k" by (rule split_ratio)
  have w: "unat (saturating_mul (d div k) n) = ?w"
    using s assms(3) by (simp add: int_simps unat_div_word)
  have "unat (saturating_mul (d mod k) n) = unat d mod unat k * unat n"
    using assms(2) by (simp add: int_simps unat_mod_word)
  then have f: "unat (saturating_mul (d mod k) n div k) = ?f" by (simp add: unat_div_word)
  have "unat (saturating_add (saturating_mul (d div k) n) (saturating_mul (d mod k) n div k)) = ?w + ?f"
    using s assms(3) unfolding unat_saturating_add w f by simp
  then show ?thesis
    using assms(1) s by (simp add: mul_ratio_def checked_div_def checked_rem_def)
qed

lemma unat_instant_add: "unat (instant_add t d) = min (unat t + unat d) (2 ^ 64 - 1)"
  by (simp add: instant_add_def int_simps)

lemma instant_add_le: "t \<le> instant_add t d"
  using unat_lt_len [of t] by (simp add: word_le_nat_alt unat_instant_add)

end
