(* ===== verification/Mrp.thy ===== *)
theory Mrp
  imports Platform_Time
begin

text \<open>
  The message reliability protocol of one exchange (\<^verbatim>\<open>src/src/exchange/mrp.rs\<close>): the one
  message that waits for an acknowledgement, the one acknowledgement that is owed, the
  retransmission ladder and its back-off.

  Shown here: a message is put on the wire at most five times, with the attempts in order
  and a give-up only after the last; a timer call does something exactly when the polled
  deadline has come; the back-off is the exact product the specification gives and the
  jitter stays inside its quarter.
\<close>

definition MRP_MAX_TRANSMISSIONS :: u32 where "MRP_MAX_TRANSMISSIONS = 5"
definition MRP_BACKOFF_BASE :: "u64 \<times> u64" where "MRP_BACKOFF_BASE = (16, 10)"
definition MRP_BACKOFF_JITTER :: "u64 \<times> u64" where "MRP_BACKOFF_JITTER = (1, 4)"
definition MRP_BACKOFF_MARGIN :: "u64 \<times> u64" where "MRP_BACKOFF_MARGIN = (11, 10)"
definition MRP_BACKOFF_THRESHOLD :: u32 where "MRP_BACKOFF_THRESHOLD = 1"
definition MRP_STANDALONE_ACK_TIMEOUT :: Duration where "MRP_STANDALONE_ACK_TIMEOUT = from_millis 200"
definition SESSION_IDLE_INTERVAL :: Duration where "SESSION_IDLE_INTERVAL = from_millis 500"
definition SESSION_ACTIVE_INTERVAL :: Duration where "SESSION_ACTIVE_INTERVAL = from_millis 300"
definition SESSION_ACTIVE_THRESHOLD :: Duration where "SESSION_ACTIVE_THRESHOLD = from_millis 4000"

record MrpParams =
  idle_interval :: Duration
  active_interval :: Duration
  active_threshold :: Duration

definition params_default :: MrpParams where
  "params_default = \<lparr>idle_interval = SESSION_IDLE_INTERVAL, active_interval = SESSION_ACTIVE_INTERVAL,
     active_threshold = SESSION_ACTIVE_THRESHOLD\<rparr>"

definition min_duration :: "Duration \<Rightarrow> Duration \<Rightarrow> Duration" where
  "min_duration a b = (if a \<le> b then a else b)"

definition params_clamped :: "MrpParams \<Rightarrow> MrpParams" where
  "params_clamped p =
     (let max_interval = from_millis 3600000; max_threshold = from_millis 65535 in
      \<lparr>idle_interval = min_duration (idle_interval p) max_interval,
       active_interval = min_duration (active_interval p) max_interval,
       active_threshold = min_duration (active_threshold p) max_threshold\<rparr>)"

definition base_interval :: "MrpParams \<Rightarrow> bool \<Rightarrow> Duration" where
  "base_interval p peer_active =
     (let i = (if peer_active then active_interval p else idle_interval p) in
      mul_ratio i (fst MRP_BACKOFF_MARGIN) (snd MRP_BACKOFF_MARGIN))"

text \<open>\<^verbatim>\<open>for _ in 0..exponent\<close>\<close>

fun backoff_loop :: "nat \<Rightarrow> Duration \<Rightarrow> Duration" where
  "backoff_loop 0 d = d"
| "backoff_loop (Suc n) d = backoff_loop n (mul_ratio d (fst MRP_BACKOFF_BASE) (snd MRP_BACKOFF_BASE))"

definition backoff :: "Duration \<Rightarrow> u32 \<Rightarrow> Duration" where
  "backoff base n = backoff_loop (unat (saturating_sub n MRP_BACKOFF_THRESHOLD)) base"

definition with_jitter :: "Duration \<Rightarrow> u32 \<Rightarrow> Duration" where
  "with_jitter b randomness =
     (let resolution = 0x10000 :: u64;
          draw = ucast randomness mod resolution;
          denominator = saturating_mul resolution (snd MRP_BACKOFF_JITTER);
          extra = mul_ratio b (saturating_mul draw (fst MRP_BACKOFF_JITTER)) denominator in
      saturating_add b extra)"

datatype OnTimeout = Retransmit u32 u32 | SendStandaloneAck u32 | GiveUp u32 | Nothing

record PendingTx =
  tx_counter :: u32
  tx_sent :: u32
  tx_deadline :: Instant

record PendingAck =
  ack_counter :: u32
  ack_deadline :: Instant

record Mrp =
  mrp_params :: MrpParams
  pending_tx :: "PendingTx option"
  pending_ack :: "PendingAck option"
  last_heard :: "Instant option"

definition mrp_new :: "MrpParams \<Rightarrow> Mrp" where
  "mrp_new p = \<lparr>mrp_params = params_clamped p, pending_tx = None, pending_ack = None, last_heard = None\<rparr>"

definition is_awaiting_ack :: "Mrp \<Rightarrow> bool" where
  "is_awaiting_ack m \<longleftrightarrow> pending_tx m \<noteq> None"

definition awaiting :: "Mrp \<Rightarrow> u32 option" where
  "awaiting m = map_option tx_counter (pending_tx m)"

definition peer_active :: "Mrp \<Rightarrow> Instant \<Rightarrow> bool" where
  "peer_active m now =
     (case last_heard m of
        Some t \<Rightarrow> duration_since now t < active_threshold (mrp_params m)
      | None \<Rightarrow> False)"

definition note_peer_activity :: "Instant \<Rightarrow> Mrp \<Rightarrow> Mrp" where
  "note_peer_activity now m = m\<lparr>last_heard := Some now\<rparr>"

definition mrp_on_send :: "u32 \<Rightarrow> Instant \<Rightarrow> u32 \<Rightarrow> (Mrp, unit) mutator" where
  "mrp_on_send counter now randomness m =
     (if pending_tx m \<noteq> None then (Inl Busy, m)
      else
        let base = base_interval (mrp_params m) (peer_active m now);
            deadline = instant_add now (with_jitter (backoff base 0) randomness) in
        (Inr (), m\<lparr>pending_tx := Some \<lparr>tx_counter = counter, tx_sent = 1, tx_deadline = deadline\<rparr>\<rparr>))"

definition take_piggyback :: "Mrp \<Rightarrow> u32 option \<times> Mrp" where
  "take_piggyback m = (map_option ack_counter (pending_ack m), m\<lparr>pending_ack := None\<rparr>)"

definition on_reliable_received :: "u32 \<Rightarrow> Instant \<Rightarrow> bool \<Rightarrow> Mrp \<Rightarrow> Mrp" where
  "on_reliable_received counter now duplicate m =
     (note_peer_activity now m)\<lparr>pending_ack :=
        Some \<lparr>ack_counter = counter, ack_deadline = instant_add now MRP_STANDALONE_ACK_TIMEOUT\<rparr>\<rparr>"

definition mrp_on_ack :: "u32 \<Rightarrow> Instant \<Rightarrow> Mrp \<Rightarrow> bool \<times> Mrp" where
  "mrp_on_ack counter now m =
     (let m = note_peer_activity now m in
      case pending_tx m of
        Some tx \<Rightarrow> if tx_counter tx = counter then (True, m\<lparr>pending_tx := None\<rparr>) else (False, m)
      | None \<Rightarrow> (False, m))"

definition min_instant :: "Instant \<Rightarrow> Instant \<Rightarrow> Instant" where
  "min_instant a b = (if a \<le> b then a else b)"

definition mrp_poll_deadline :: "Mrp \<Rightarrow> Instant option" where
  "mrp_poll_deadline m =
     (case (pending_tx m, pending_ack m) of
        (Some tx, Some ack) \<Rightarrow> Some (min_instant (tx_deadline tx) (ack_deadline ack))
      | (Some tx, None) \<Rightarrow> Some (tx_deadline tx)
      | (None, Some ack) \<Rightarrow> Some (ack_deadline ack)
      | (None, None) \<Rightarrow> None)"

definition tx_timeout :: "Instant \<Rightarrow> u32 \<Rightarrow> Mrp \<Rightarrow> OnTimeout \<times> Mrp" where
  "tx_timeout now randomness m =
     (case pending_tx m of
        None \<Rightarrow> (Nothing, m)
      | Some tx \<Rightarrow>
          if \<not> is_elapsed_at (tx_deadline tx) now then (Nothing, m)
          else if tx_sent tx \<ge> MRP_MAX_TRANSMISSIONS
            then (GiveUp (tx_counter tx), m\<lparr>pending_tx := None\<rparr>)
          else
            let base = base_interval (mrp_params m) (peer_active m now);
                wait = with_jitter (backoff base (tx_sent tx)) randomness in
            (Retransmit (tx_counter tx) (tx_sent tx),
             m\<lparr>pending_tx := Some \<lparr>tx_counter = tx_counter tx,
                 tx_sent = saturating_add (tx_sent tx) 1, tx_deadline = instant_add now wait\<rparr>\<rparr>))"

definition mrp_on_timeout :: "Instant \<Rightarrow> u32 \<Rightarrow> Mrp \<Rightarrow> OnTimeout \<times> Mrp" where
  "mrp_on_timeout now randomness m =
     (case pending_ack m of
        Some ack \<Rightarrow>
          if is_elapsed_at (ack_deadline ack) now
          then (SendStandaloneAck (ack_counter ack), m\<lparr>pending_ack := None\<rparr>)
          else tx_timeout now randomness m
      | None \<Rightarrow> tx_timeout now randomness m)"

definition mrp_close :: "Mrp \<Rightarrow> Mrp" where
  "mrp_close m = m\<lparr>pending_tx := None, pending_ack := None\<rparr>"

section \<open>Reachable states\<close>

datatype MrpEvent =
    EvSend u32 Instant u32 | EvReliable u32 Instant bool | EvAck u32 Instant | EvTimeout Instant u32
  | EvPiggyback | EvHeard Instant | EvClose

text \<open>What an event does and, for a timer, what it tells the caller to do.\<close>

fun mrp_event :: "MrpEvent \<Rightarrow> Mrp \<Rightarrow> OnTimeout \<times> Mrp" where
  "mrp_event (EvSend c now r) m = (Nothing, snd (mrp_on_send c now r m))"
| "mrp_event (EvReliable c now d) m = (Nothing, on_reliable_received c now d m)"
| "mrp_event (EvAck c now) m = (Nothing, snd (mrp_on_ack c now m))"
| "mrp_event (EvTimeout now r) m = mrp_on_timeout now r m"
| "mrp_event EvPiggyback m = (Nothing, snd (take_piggyback m))"
| "mrp_event (EvHeard now) m = (Nothing, note_peer_activity now m)"
| "mrp_event EvClose m = (Nothing, mrp_close m)"

fun mrp_run :: "MrpEvent list \<Rightarrow> Mrp \<Rightarrow> OnTimeout list \<times> Mrp" where
  "mrp_run [] m = ([], m)"
| "mrp_run (e # es) m = (let (o1, m') = mrp_event e m; (os, m'') = mrp_run es m' in (o1 # os, m''))"

inductive mrp_reachable :: "MrpParams \<Rightarrow> Mrp \<Rightarrow> bool" for p where
  fresh: "mrp_reachable p (mrp_new p)"
| event: "mrp_reachable p m \<Longrightarrow> mrp_reachable p (snd (mrp_event e m))"

text \<open>The state invariant: the parameters stay the clamped ones and the count of
  transmissions stays in range.\<close>

definition mrp_inv :: "MrpParams \<Rightarrow> Mrp \<Rightarrow> bool" where
  "mrp_inv p m \<longleftrightarrow> mrp_params m = params_clamped p
     \<and> (\<forall>tx. pending_tx m = Some tx \<longrightarrow> 1 \<le> tx_sent tx \<and> tx_sent tx \<le> MRP_MAX_TRANSMISSIONS)"

lemma sent_next: "1 \<le> s \<Longrightarrow> s < (5 :: u32) \<Longrightarrow> unat (saturating_add s 1) = unat s + 1"
  by (simp add: unat_saturating_add word_less_nat_alt)

lemmas mrp_defs = mrp_on_send_def on_reliable_received_def mrp_on_ack_def mrp_on_timeout_def tx_timeout_def
  take_piggyback_def note_peer_activity_def mrp_close_def

lemma mrp_inv_event: "mrp_inv p m \<Longrightarrow> mrp_inv p (snd (mrp_event e m))"
proof (cases e)
  case (EvTimeout now r)
  assume i: "mrp_inv p m"
  have "1 \<le> saturating_add s 1 \<and> saturating_add s 1 \<le> (5 :: u32)" if "1 \<le> s" "\<not> 5 \<le> s" for s :: u32
    using that sent_next [of s] by (simp add: word_le_nat_alt word_less_nat_alt)
  then show ?thesis
    using i EvTimeout
    by (auto simp: mrp_inv_def mrp_defs Let_def MRP_MAX_TRANSMISSIONS_def split: option.splits if_splits)
qed (auto simp: mrp_inv_def mrp_defs Let_def MRP_MAX_TRANSMISSIONS_def split: option.splits if_splits)

lemma mrp_reachable_inv: "mrp_reachable p m \<Longrightarrow> mrp_inv p m"
proof (induction rule: mrp_reachable.induct)
  case fresh
  then show ?case by (simp add: mrp_inv_def mrp_new_def)
next
  case (event m e)
  then show ?case by (simp add: mrp_inv_event)
qed

section \<open>The retransmission ladder\<close>

fun is_retransmit :: "OnTimeout \<Rightarrow> bool" where
  "is_retransmit (Retransmit _ _) = True"
| "is_retransmit _ = False"

fun is_give_up :: "OnTimeout \<Rightarrow> bool" where
  "is_give_up (GiveUp _) = True"
| "is_give_up _ = False"

fun is_send :: "MrpEvent \<Rightarrow> bool" where
  "is_send (EvSend _ _ _) = True"
| "is_send _ = False"

definition retransmits :: "OnTimeout list \<Rightarrow> OnTimeout list" where
  "retransmits os = filter is_retransmit os"

text \<open>One event other than a send, on a machine that waits and on one that does not.\<close>

lemma mrp_event_idle:
  "pending_tx m = None \<Longrightarrow> \<not> is_send e \<Longrightarrow>
   \<not> is_retransmit (fst (mrp_event e m)) \<and> \<not> is_give_up (fst (mrp_event e m))
     \<and> pending_tx (snd (mrp_event e m)) = None"
  by (cases e) (auto simp: mrp_defs Let_def split: option.splits)

lemma mrp_event_waiting:
  assumes "pending_tx m = Some tx" and "\<not> is_send e" and "mrp_event e m = (o1, m')"
  shows "(\<not> is_retransmit o1 \<and> \<not> is_give_up o1 \<and> (pending_tx m' = None \<or> pending_tx m' = Some tx))
     \<or> (o1 = Retransmit (tx_counter tx) (tx_sent tx) \<and> tx_sent tx < MRP_MAX_TRANSMISSIONS
          \<and> (\<exists>tx'. pending_tx m' = Some tx' \<and> tx_counter tx' = tx_counter tx
              \<and> tx_sent tx' = saturating_add (tx_sent tx) 1))
     \<or> (o1 = GiveUp (tx_counter tx) \<and> MRP_MAX_TRANSMISSIONS \<le> tx_sent tx \<and> pending_tx m' = None)"
  using assms by (cases e) (auto simp: mrp_defs Let_def split: option.splits if_splits)

lemma mrp_run_idle:
  "pending_tx m = None \<Longrightarrow> \<forall>e \<in> set es. \<not> is_send e \<Longrightarrow>
   retransmits (fst (mrp_run es m)) = [] \<and> \<not> (\<exists>x \<in> set (fst (mrp_run es m)). is_give_up x)"
proof (induction es arbitrary: m)
  case (Cons e es)
  obtain o1 m' where e: "mrp_event e m = (o1, m')" by fastforce
  then have "fst (mrp_run (e # es) m) = o1 # fst (mrp_run es m')" by (simp split: prod.splits)
  then show ?case using mrp_event_idle [of m e] e Cons by (auto simp: retransmits_def)
qed (simp add: retransmits_def)

text \<open>From a count \<open>s\<close> the attempts that follow are \<open>s, s + 1, ...\<close>, at most up to the fourth.\<close>

lemma mrp_run_waiting:
  "pending_tx m = Some tx \<Longrightarrow> 1 \<le> tx_sent tx \<Longrightarrow> tx_sent tx \<le> MRP_MAX_TRANSMISSIONS \<Longrightarrow>
   \<forall>e \<in> set es. \<not> is_send e \<Longrightarrow>
   \<exists>n. unat (tx_sent tx) \<le> n \<and> n \<le> 5
     \<and> retransmits (fst (mrp_run es m))
        = map (\<lambda>a. Retransmit (tx_counter tx) (word_of_nat a)) [unat (tx_sent tx) ..< n]
     \<and> ((\<exists>x \<in> set (fst (mrp_run es m)). is_give_up x) \<longrightarrow> n = 5)"
proof (induction es arbitrary: m tx)
  case Nil
  then show ?case by (intro exI [of _ "unat (tx_sent tx)"])
      (auto simp: retransmits_def MRP_MAX_TRANSMISSIONS_def word_le_nat_alt)
next
  case (Cons e es)
  obtain o1 m' where e: "mrp_event e m = (o1, m')" by fastforce
  have run: "fst (mrp_run (e # es) m) = o1 # fst (mrp_run es m')" using e by (simp split: prod.splits)
  let ?s = "unat (tx_sent tx)"
  have s5: "?s \<le> 5" using Cons(4) by (simp add: MRP_MAX_TRANSMISSIONS_def word_le_nat_alt)
  consider (quiet) "\<not> is_retransmit o1" "\<not> is_give_up o1" "pending_tx m' = None"
    | (same) "\<not> is_retransmit o1" "\<not> is_give_up o1" "pending_tx m' = Some tx"
    | (again) tx' where "o1 = Retransmit (tx_counter tx) (tx_sent tx)" "tx_sent tx < MRP_MAX_TRANSMISSIONS"
        "pending_tx m' = Some tx'" "tx_counter tx' = tx_counter tx" "tx_sent tx' = saturating_add (tx_sent tx) 1"
    | (over) "o1 = GiveUp (tx_counter tx)" "MRP_MAX_TRANSMISSIONS \<le> tx_sent tx" "pending_tx m' = None"
    using mrp_event_waiting [OF Cons(2) _ e] Cons(5) by auto
  then show ?case
  proof cases
    case quiet
    then show ?thesis
      using mrp_run_idle [of m' es] Cons(5) s5 run
      by (intro exI [of _ ?s]) (auto simp: retransmits_def)
  next
    case same
    then show ?thesis using Cons.IH [OF same(3) Cons(3,4)] Cons(5) run by (auto simp: retransmits_def)
  next
    case (again tx')
    have s: "unat (tx_sent tx') = ?s + 1" and w: "?s < 5"
      using again(2,5) sent_next [of "tx_sent tx"] Cons(3)
      by (simp_all add: MRP_MAX_TRANSMISSIONS_def word_less_nat_alt)
    then have "1 \<le> tx_sent tx'" "tx_sent tx' \<le> MRP_MAX_TRANSMISSIONS"
      by (simp_all add: word_le_nat_alt MRP_MAX_TRANSMISSIONS_def)
    then obtain n where n: "?s + 1 \<le> n" "n \<le> 5" "retransmits (fst (mrp_run es m'))
          = map (\<lambda>a. Retransmit (tx_counter tx) (word_of_nat a)) [?s + 1 ..< n]"
        "(\<exists>x \<in> set (fst (mrp_run es m')). is_give_up x) \<longrightarrow> n = 5"
      using Cons.IH [OF again(3)] Cons(5) s again(4) by auto
    moreover have "[?s ..< n] = ?s # [?s + 1 ..< n]" using n(1) by (simp add: upt_conv_Cons)
    ultimately show ?thesis
      using again(1) run by (intro exI [of _ n]) (auto simp: retransmits_def)
  next
    case over
    have "?s = 5" using over(2) s5 by (simp add: MRP_MAX_TRANSMISSIONS_def word_le_nat_alt)
    then show ?thesis
      using mrp_run_idle [of m' es] Cons(5) over run
      by (intro exI [of _ 5]) (auto simp: retransmits_def)
  qed
qed

text \<open>Timer calls that each come no earlier than the deadline then pending.\<close>

fun each_due :: "(Instant \<times> u32) list \<Rightarrow> Mrp \<Rightarrow> bool" where
  "each_due [] m = True"
| "each_due ((now, r) # ts) m =
     ((case mrp_poll_deadline m of None \<Rightarrow> True | Some d \<Rightarrow> d \<le> now) \<and> each_due ts (snd (mrp_on_timeout now r m)))"

lemma due_retransmits:
  assumes "pending_ack m = None" and "pending_tx m = Some tx" and "tx_sent tx < 5"
    and "tx_deadline tx \<le> now" and "mrp_on_timeout now r m = (o1, m')"
  shows "o1 = Retransmit (tx_counter tx) (tx_sent tx)" and "pending_ack m' = None"
    and "\<exists>tx'. pending_tx m' = Some tx' \<and> tx_counter tx' = tx_counter tx \<and> tx_sent tx' = saturating_add (tx_sent tx) 1"
  using assms(1,2,4,5) assms(3) [folded not_le]
  by (auto simp: mrp_defs Let_def MRP_MAX_TRANSMISSIONS_def is_elapsed_at_def)

lemma ladder:
  "pending_ack m = None \<Longrightarrow> pending_tx m = Some tx \<Longrightarrow> unat (tx_sent tx) + length ts = 6 \<Longrightarrow> 1 \<le> tx_sent tx \<Longrightarrow>
   each_due ts m \<Longrightarrow> ts \<noteq> [] \<Longrightarrow>
   fst (mrp_run (map (\<lambda>(now, r). EvTimeout now r) ts) m)
     = map (\<lambda>a. Retransmit (tx_counter tx) (word_of_nat a)) [unat (tx_sent tx) ..< 5] @ [GiveUp (tx_counter tx)]
   \<and> \<not> is_awaiting_ack (snd (mrp_run (map (\<lambda>(now, r). EvTimeout now r) ts) m))"
proof (induction ts arbitrary: m tx)
  case (Cons t ts)
  obtain now r where t: "t = (now, r)" by (cases t)
  obtain o1 m' where e: "mrp_on_timeout now r m = (o1, m')" by fastforce
  let ?es = "map (\<lambda>(now, r). EvTimeout now r) ts"
  have due: "tx_deadline tx \<le> now" "each_due ts m'"
    using Cons(6) t e Cons(2,3) by (auto simp: mrp_poll_deadline_def)
  have run: "fst (mrp_run (map (\<lambda>(now, r). EvTimeout now r) (t # ts)) m) = o1 # fst (mrp_run ?es m')"
    "snd (mrp_run (map (\<lambda>(now, r). EvTimeout now r) (t # ts)) m) = snd (mrp_run ?es m')"
    using t e by (simp_all split: prod.splits)
  show ?case
  proof (cases "ts = []")
    case True
    then have s: "unat (tx_sent tx) = 5" using Cons(4) by simp
    then have "\<not> tx_sent tx < 5" "5 \<le> tx_sent tx" by (simp_all add: word_less_nat_alt word_le_nat_alt)
    then have "o1 = GiveUp (tx_counter tx) \<and> pending_tx m' = None"
      using e Cons(2,3) due(1) by (auto simp: mrp_defs Let_def MRP_MAX_TRANSMISSIONS_def is_elapsed_at_def)
    then show ?thesis using run True s by (simp add: is_awaiting_ack_def)
  next
    case False
    then have s: "unat (tx_sent tx) < 5" using Cons(4) by (cases ts) auto
    then have lt: "tx_sent tx < 5" by (simp add: word_less_nat_alt)
    note d = due_retransmits [OF Cons(2,3) lt due(1) e]
    obtain tx' where tx': "pending_tx m' = Some tx'" "tx_counter tx' = tx_counter tx"
      "tx_sent tx' = saturating_add (tx_sent tx) 1" using d(3) by blast
    have n: "unat (tx_sent tx') = unat (tx_sent tx) + 1" using sent_next [OF Cons(5) lt] tx'(3) by simp
    have "1 \<le> tx_sent tx'" using n by (simp add: word_le_nat_alt)
    then have "fst (mrp_run ?es m') = map (\<lambda>a. Retransmit (tx_counter tx) (word_of_nat a)) [unat (tx_sent tx) + 1 ..< 5]
          @ [GiveUp (tx_counter tx)] \<and> \<not> is_awaiting_ack (snd (mrp_run ?es m'))"
      using Cons.IH [OF d(2) tx'(1)] Cons(4) due(2) False tx'(2) n by simp
    moreover have "[unat (tx_sent tx) ..< 5] = unat (tx_sent tx) # [unat (tx_sent tx) + 1 ..< 5]"
      using s by (simp add: upt_conv_Cons)
    ultimately show ?thesis using run d(1) by simp
  qed
qed simp

section \<open>The waits\<close>

lemma with_jitter_bounds:
  "unat b \<le> unat (with_jitter b r)" "unat (with_jitter b r) \<le> unat b + unat b div 4"
proof -
  let ?draw = "ucast r mod 0x10000 :: u64"
  have d: "unat ?draw < 0x10000" by (simp add: unat_mod_word)
  have den: "saturating_mul (0x10000 :: u64) 4 = 0x40000" by (simp add: saturating_mul_def)
  have one: "saturating_mul ?draw 1 = ?draw" using unat_lt_len [of ?draw] by (simp add: saturating_mul_def)
  have q: "(unat b * unat ?draw) div 0x40000 \<le> unat b div 4"
  proof -
    have "unat b * unat ?draw \<le> unat b * 0x10000" using d by simp
    then have "(unat b * unat ?draw) div 0x40000 \<le> (unat b * 0x10000) div 0x40000" by (rule div_le_mono)
    then show ?thesis by (simp add: div_mult2_eq [symmetric] mult.commute)
  qed
  have "unat (b mod 0x40000) * unat ?draw < 2 ^ 64"
  proof -
    have "unat (b mod 0x40000) < 0x40000" by (simp add: unat_mod_word)
    then have "unat (b mod 0x40000) * unat ?draw < 0x40000 * 0x10000" using d by (intro mult_strict_mono) auto
    then show ?thesis by simp
  qed
  then have x: "unat (mul_ratio b ?draw 0x40000) = (unat b * unat ?draw) div 0x40000"
    using q unat_lt_len [of b] by (subst mul_ratio_exact) auto
  have j: "with_jitter b r = saturating_add b (mul_ratio b ?draw 0x40000)"
    by (simp add: with_jitter_def Let_def MRP_BACKOFF_JITTER_def den one)
  show "unat b \<le> unat (with_jitter b r)" "unat (with_jitter b r) \<le> unat b + unat b div 4"
    using x q unat_lt_len [of b] unfolding j unat_saturating_add by auto
qed

text \<open>The wait after the \<open>n\<close>-th transmission in exact arithmetic, before jitter: the interval
  plus a tenth, grown by 1.6 for each transmission after the first.\<close>

definition exact_backoff :: "nat \<Rightarrow> nat \<Rightarrow> nat" where
  "exact_backoff interval n = ((\<lambda>d. (d * 16) div 10) ^^ (n - 1)) ((interval * 11) div 10)"

lemma grow_exact:
  "unat d < 2 ^ 40 \<Longrightarrow> unat (mul_ratio d 16 10) = (unat d * 16) div 10"
proof -
  assume d: "unat d < 2 ^ 40"
  have "unat (d mod 10) < 10" by (simp add: unat_mod_word)
  then show ?thesis using d by (subst mul_ratio_exact) auto
qed

lemma backoff_loop_exact:
  "n \<le> 4 \<Longrightarrow> unat d < 2 ^ (40 - n) \<Longrightarrow> unat (backoff_loop n d) = ((\<lambda>d. (d * 16) div 10) ^^ n) (unat d)"
proof (induction n arbitrary: d)
  case (Suc n)
  let ?d = "mul_ratio d (fst MRP_BACKOFF_BASE) (snd MRP_BACKOFF_BASE)"
  have "(2 :: nat) ^ (40 - Suc n) \<le> 2 ^ 40" by (intro power_increasing) auto
  then have "unat d < 2 ^ 40" using Suc.prems(2) by (rule less_le_trans [rotated])
  then have g: "unat ?d = (unat d * 16) div 10" by (simp add: MRP_BACKOFF_BASE_def grow_exact)
  have "(2 :: nat) ^ (40 - n) = 2 * 2 ^ (40 - Suc n)"
    using Suc.prems(1) by (simp flip: power_Suc add: Suc_diff_le)
  then have "unat ?d < 2 ^ (40 - n)" using Suc.prems(2) unfolding g by linarith
  then have "unat (backoff_loop n ?d) = ((\<lambda>d. (d * 16) div 10) ^^ n) (unat ?d)"
    using Suc.IH [of ?d] Suc.prems(1) by simp
  then show ?case unfolding g by (simp only: backoff_loop.simps funpow_Suc_right comp_apply)
qed simp

lemma clamped_interval:
  "unat (idle_interval (params_clamped p)) \<le> 3600000000" "unat (active_interval (params_clamped p)) \<le> 3600000000"
  by (simp_all add: params_clamped_def Let_def min_duration_def from_millis_def saturating_mul_def word_le_nat_alt)

lemma base_exact:
  assumes "unat i \<le> 3600000000" shows "unat (mul_ratio i 11 10) = (unat i * 11) div 10"
proof -
  have "unat (i mod 10) < 10" by (simp add: unat_mod_word)
  then show ?thesis using assms by (subst mul_ratio_exact) auto
qed

lemma backoff_exact:
  assumes "mrp_params m = params_clamped p" and "s \<le> 4"
  shows "unat (backoff (base_interval (mrp_params m) act) s)
    = exact_backoff (unat (if act then active_interval (mrp_params m) else idle_interval (mrp_params m))) (unat s)"
proof -
  let ?i = "if act then active_interval (mrp_params m) else idle_interval (mrp_params m)"
  have i: "unat ?i \<le> 3600000000" using clamped_interval [of p] assms(1) by simp
  have b: "unat (base_interval (mrp_params m) act) = (unat ?i * 11) div 10"
    unfolding base_interval_def Let_def MRP_BACKOFF_MARGIN_def fst_conv snd_conv by (rule base_exact [OF i])
  have "unat s \<le> 4" using assms(2) by (simp add: word_le_nat_alt)
  then have n: "unat (saturating_sub s 1) \<le> 4" by (simp add: unat_saturating_sub)
  have "(unat ?i * 11) div 10 \<le> 3960000000" using i by linarith
  also have "\<dots> < 2 ^ 36" by simp
  also have "(2 :: nat) ^ 36 \<le> 2 ^ (40 - unat (saturating_sub s 1))" using n by (intro power_increasing) auto
  finally have "unat (base_interval (mrp_params m) act) < 2 ^ (40 - unat (saturating_sub s 1))" unfolding b .
  then show ?thesis
    using backoff_loop_exact [OF n] b
    by (simp add: backoff_def exact_backoff_def MRP_BACKOFF_THRESHOLD_def unat_saturating_sub)
qed

section \<open>Properties\<close>

text \<open>C6: After a reliable message is sent, whatever happens next short of another send (timers at
  any time, acknowledgements, further receptions, closing), the message is retransmitted under
  its own counter with the attempts 1, 2, 3, 4 in order, at most those four (five
  transmissions in all), and the exchange gives it up only after the fourth.\<close>

theorem mrp_at_most_five_transmissions:
  assumes "mrp_on_send c now r m = (Inr (), m')" and "\<forall>e \<in> set es. \<not> is_send e"
  shows "\<exists>k \<le> 4. retransmits (fst (mrp_run es m')) = take k [Retransmit c 1, Retransmit c 2, Retransmit c 3, Retransmit c 4]
    \<and> ((\<exists>x \<in> set (fst (mrp_run es m')). is_give_up x) \<longrightarrow> k = 4)"
proof -
  obtain tx where tx: "pending_tx m' = Some tx" "tx_counter tx = c" "tx_sent tx = 1"
    using assms(1) by (auto simp: mrp_on_send_def Let_def split: if_splits)
  obtain n where n: "1 \<le> n" "n \<le> 5" "retransmits (fst (mrp_run es m'))
        = map (\<lambda>a. Retransmit c (word_of_nat a)) [1 ..< n]"
      "(\<exists>x \<in> set (fst (mrp_run es m')). is_give_up x) \<longrightarrow> n = 5"
    using mrp_run_waiting [OF tx(1) _ _ assms(2)] tx(2,3) by (auto simp: MRP_MAX_TRANSMISSIONS_def)
  have "[1 ..< n] = take (n - 1) [1 ..< 5]" using n(1,2) by (simp add: take_upt)
  moreover have "map (\<lambda>a. Retransmit c (word_of_nat a)) [1 ..< 5]
      = [Retransmit c 1, Retransmit c 2, Retransmit c 3, Retransmit c 4]" by (simp add: upt_rec)
  ultimately have "retransmits (fst (mrp_run es m'))
      = take (n - 1) [Retransmit c 1, Retransmit c 2, Retransmit c 3, Retransmit c 4]"
    using n(3) by (metis take_map)
  then show ?thesis using n(1,2,4) by (intro exI [of _ "n - 1"]) auto
qed

theorem mrp_at_most_five_transmissions_witness:
  "\<exists>k \<le> 4. retransmits (fst (mrp_run [EvTimeout (- 1) 0, EvAck 7 0]
      (snd (mrp_on_send 7 0 0 (mrp_new params_default)))))
    = take k [Retransmit 7 1, Retransmit 7 2, Retransmit 7 3, Retransmit 7 4]"
proof -
  have "mrp_on_send 7 0 0 (mrp_new params_default) = (Inr (), snd (mrp_on_send 7 0 0 (mrp_new params_default)))"
    by (simp add: mrp_on_send_def mrp_new_def Let_def)
  then show ?thesis
    using mrp_at_most_five_transmissions [of 7 0 0 "mrp_new params_default" _ "[EvTimeout (- 1) 0, EvAck 7 0]"]
    by auto
qed

text \<open>C24: The ladder is climbed to its end: when no acknowledgement is owed and five timer calls
  come, each no earlier than the deadline then pending, the first four retransmit and the
  fifth gives up, after which nothing is pending.\<close>

theorem mrp_ladder_ends:
  assumes "mrp_on_send c now r m = (Inr (), m')" and "pending_ack m = None"
    and "length ts = 5" and "each_due ts m'"
  shows "fst (mrp_run (map (\<lambda>(now, r). EvTimeout now r) ts) m')
      = [Retransmit c 1, Retransmit c 2, Retransmit c 3, Retransmit c 4, GiveUp c]
    \<and> \<not> is_awaiting_ack (snd (mrp_run (map (\<lambda>(now, r). EvTimeout now r) ts) m'))"
proof -
  obtain tx where tx: "pending_tx m' = Some tx" "tx_counter tx = c" "tx_sent tx = 1" "pending_ack m' = None"
    using assms(1,2) by (auto simp: mrp_on_send_def Let_def split: if_splits)
  have "map (\<lambda>a. Retransmit c (word_of_nat a)) [1 ..< 5]
      = [Retransmit c 1, Retransmit c 2, Retransmit c 3, Retransmit c 4]" by (simp add: upt_rec)
  then show ?thesis
    using ladder [OF tx(4,1), of ts] tx(2,3) assms(3,4) by (cases ts) auto
qed

theorem mrp_ladder_ends_witness:
  "fst (mrp_run (map (\<lambda>(now, r). EvTimeout now r) (replicate 5 (- 1, 0)))
      (snd (mrp_on_send 7 0 0 (mrp_new params_default))))
    = [Retransmit 7 1, Retransmit 7 2, Retransmit 7 3, Retransmit 7 4, GiveUp 7]"
proof -
  have "mrp_on_send 7 0 0 (mrp_new params_default) = (Inr (), snd (mrp_on_send 7 0 0 (mrp_new params_default)))"
    by (simp add: mrp_on_send_def mrp_new_def Let_def)
  moreover have "each_due (replicate n (- 1, 0)) m" for n m
    by (induction n arbitrary: m) (auto split: option.splits)
  ultimately show ?thesis
    using mrp_ladder_ends [of 7 0 0 "mrp_new params_default" _ "replicate 5 (- 1, 0)"]
    by (auto simp: mrp_new_def)
qed

lemma tx_timeout_due:
  "fst (tx_timeout now r m) = Nothing \<longleftrightarrow> (\<forall>tx. pending_tx m = Some tx \<longrightarrow> now < tx_deadline tx)"
  "fst (tx_timeout now r m) = Nothing \<Longrightarrow> snd (tx_timeout now r m) = m"
  by (auto simp: tx_timeout_def is_elapsed_at_def Let_def split: option.splits if_splits)

lemma mrp_timeout_due:
  "fst (mrp_on_timeout now r m) = Nothing \<longleftrightarrow>
     (case mrp_poll_deadline m of None \<Rightarrow> True | Some d \<Rightarrow> now < d)"
  using tx_timeout_due(1) [of now r m]
  by (cases "pending_ack m"; cases "pending_tx m")
    (auto simp: mrp_on_timeout_def mrp_poll_deadline_def is_elapsed_at_def min_instant_def not_le)

lemma mrp_timeout_nothing: "fst (mrp_on_timeout now r m) = Nothing \<Longrightarrow> snd (mrp_on_timeout now r m) = m"
  using tx_timeout_due(2) [of now r m]
  by (cases "pending_ack m") (auto simp: mrp_on_timeout_def split: if_splits)

text \<open>A timer call acts exactly when the deadline the caller was told to poll has come; before
  it, and when there is none, the call changes nothing.\<close>

theorem mrp_poll_deadline_exact:
  "(fst (mrp_on_timeout now r m) = Nothing \<longleftrightarrow>
      (case mrp_poll_deadline m of None \<Rightarrow> True | Some d \<Rightarrow> now < d))
   \<and> (fst (mrp_on_timeout now r m) = Nothing \<longrightarrow> snd (mrp_on_timeout now r m) = m)"
  using mrp_timeout_due [of now r m] mrp_timeout_nothing [of now r m] by (intro conjI impI)

text \<open>On every reachable machine the wait before the next retransmission is the exact
  exponential back-off of the peer's interval, plus at most a quarter of it, with no overflow:
  the clamped parameters keep all of it far below the width of the clock.\<close>

theorem mrp_retransmission_wait:
  assumes "mrp_reachable p m" and "mrp_on_timeout now r m = (Retransmit c n, m')"
  shows "\<exists>tx w. pending_tx m' = Some tx \<and> tx_deadline tx = instant_add now w
    \<and> (let b = exact_backoff (unat (if peer_active m now then active_interval (params_clamped p)
                                    else idle_interval (params_clamped p))) (unat n)
       in b \<le> unat w \<and> unat w \<le> b + b div 4)"
proof -
  note i = mrp_reachable_inv [OF assms(1)]
  obtain tx where tx: "pending_tx m = Some tx" and n: "n = tx_sent tx" "\<not> MRP_MAX_TRANSMISSIONS \<le> n"
    and m': "m' = m\<lparr>pending_tx := Some \<lparr>tx_counter = tx_counter tx, tx_sent = saturating_add (tx_sent tx) 1,
        tx_deadline = instant_add now (with_jitter (backoff (base_interval (mrp_params m) (peer_active m now)) n) r)\<rparr>\<rparr>"
    using assms(2) by (auto simp: mrp_on_timeout_def tx_timeout_def Let_def split: option.splits if_splits)
  have p: "mrp_params m = params_clamped p" using i by (simp add: mrp_inv_def)
  have "n \<le> 4" using n(2) by (simp add: MRP_MAX_TRANSMISSIONS_def word_le_nat_alt)
  note b = backoff_exact [OF p this, of "peer_active m now"]
  show ?thesis
    using with_jitter_bounds [of "backoff (base_interval (mrp_params m) (peer_active m now)) n" r] b
    unfolding p m' by (auto simp: Let_def)
qed

theorem mrp_retransmission_wait_witness:
  "\<exists>tx w. pending_tx (snd (mrp_on_timeout (- 1) 0 (snd (mrp_event (EvSend 7 0 0) (mrp_new params_default))))) = Some tx
    \<and> tx_deadline tx = instant_add (- 1) w \<and> 550000 \<le> unat w \<and> unat w \<le> 687500"
proof -
  let ?m = "snd (mrp_event (EvSend 7 0 0) (mrp_new params_default))"
  have r: "mrp_reachable params_default ?m" by (intro mrp_reachable.intros)
  have "\<not> (5 :: u32) \<le> 1" by (simp add: word_le_nat_alt)
  then have t: "mrp_on_timeout (- 1) 0 ?m = (Retransmit 7 1, snd (mrp_on_timeout (- 1) 0 ?m))"
    by (simp add: mrp_on_timeout_def tx_timeout_def mrp_on_send_def mrp_new_def Let_def is_elapsed_at_def
        MRP_MAX_TRANSMISSIONS_def)
  have "\<not> peer_active ?m (- 1)" by (simp add: peer_active_def mrp_on_send_def mrp_new_def Let_def)
  moreover have "exact_backoff (unat (idle_interval (params_clamped params_default))) (unat (1 :: u32)) = 550000"
    by (simp add: exact_backoff_def params_clamped_def params_default_def min_duration_def Let_def
        SESSION_IDLE_INTERVAL_def from_millis_def saturating_mul_def)
  ultimately show ?thesis using mrp_retransmission_wait [OF r t] by (auto simp: Let_def)
qed

end
