(* ===== verification/Keyed_Table.thy ===== *)
theory Keyed_Table
  imports Prelude
begin

text \<open>
  The interfaces the crate's fixed-capacity tables share.  \<open>keyed_table\<close> is a table whose
  entries are found and removed by a key; \<open>bounded_table\<close> adds insertion up to a capacity;
  \<open>fabric_scoped\<close> is a table from which everything of one fabric can be dropped.  The laws
  are proved once here and used through the interpretations in the component theories.
  The search for an unused 16-bit identifier, which the exchange and the session table both
  run, is here too.
\<close>

section \<open>Tables found by a key\<close>

locale keyed_table =
  fixes inv :: "'t \<Rightarrow> bool" and entries :: "'t \<Rightarrow> 'e list" and key :: "'e \<Rightarrow> 'k"
    and lookup :: "'k \<Rightarrow> 't \<Rightarrow> 'e option" and delete :: "'k \<Rightarrow> 't \<Rightarrow> 't"
  assumes inv_distinct: "inv t \<Longrightarrow> distinct (map key (entries t))"
    and lookup_entries: "inv t \<Longrightarrow> lookup k t = List.find (\<lambda>e. key e = k) (entries t)"
    and inv_delete: "inv t \<Longrightarrow> inv (delete k t)"
    and entries_delete: "inv t \<Longrightarrow> set (entries (delete k t)) = {e \<in> set (entries t). key e \<noteq> k}"
begin

lemma lookup_Some: "inv t \<Longrightarrow> lookup k t = Some e \<longleftrightarrow> e \<in> set (entries t) \<and> key e = k"
  using inv_distinct [of t] lookup_entries [of t k] find_unique [of key "entries t" e]
  by (auto dest: find_SomeD)

lemma lookup_None: "inv t \<Longrightarrow> lookup k t = None \<longleftrightarrow> (\<forall>e \<in> set (entries t). key e \<noteq> k)"
  by (simp add: lookup_entries find_None)

lemma lookup_eqI:
  assumes "inv t" and "inv t'" and "{e \<in> set (entries t'). key e = k} = {e \<in> set (entries t). key e = k}"
  shows "lookup k t' = lookup k t"
proof -
  have "lookup k t' = Some e \<longleftrightarrow> lookup k t = Some e" for e
  proof -
    have "e \<in> set (entries t') \<and> key e = k \<longleftrightarrow> e \<in> set (entries t) \<and> key e = k" using assms(3) by auto
    then show ?thesis by (simp add: lookup_Some [OF assms(1)] lookup_Some [OF assms(2)])
  qed
  then show ?thesis by (metis not_Some_eq)
qed

lemma lookup_delete: "inv t \<Longrightarrow> lookup k' (delete k t) = (if k' = k then None else lookup k' t)"
proof (cases "k' = k")
  case True
  assume "inv t"
  then show ?thesis using True by (auto simp: lookup_None inv_delete entries_delete)
next
  case False
  assume i: "inv t"
  have "{e \<in> set (entries (delete k t)). key e = k'} = {e \<in> set (entries t). key e = k'}"
    using False i by (auto simp: entries_delete)
  then show ?thesis using False lookup_eqI [OF i inv_delete [OF i]] by simp
qed

end

locale bounded_table = keyed_table +
  fixes capacity :: nat and insert_new :: "'e \<Rightarrow> 't \<Rightarrow> 't option"
  assumes inv_capacity: "inv t \<Longrightarrow> length (entries t) \<le> capacity"
    and insert_None: "inv t \<Longrightarrow> lookup (key e) t = None \<Longrightarrow> insert_new e t = None \<longleftrightarrow> length (entries t) = capacity"
    and insert_Some: "inv t \<Longrightarrow> lookup (key e) t = None \<Longrightarrow> insert_new e t = Some t' \<Longrightarrow>
      inv t' \<and> entries t' = entries t @ [e]"
begin

lemma lookup_insert:
  assumes "inv t" and "lookup (key e) t = None" and "insert_new e t = Some t'"
  shows "lookup k t' = (if k = key e then Some e else lookup k t)"
proof -
  have e: "inv t'" "entries t' = entries t @ [e]" using insert_Some [OF assms] by simp_all
  have "lookup k t' = (case lookup k t of None \<Rightarrow> if key e = k then Some e else None | Some x \<Rightarrow> Some x)"
    unfolding lookup_entries [OF e(1)] lookup_entries [OF assms(1)] e(2) find_append
    by (simp split: option.split)
  then show ?thesis using assms(2) by (auto split: option.splits)
qed

lemma insert_delete_room:
  assumes "inv t" and "e \<in> set (entries t)"
  shows "\<exists>t'. insert_new e (delete (key e) t) = Some t'"
proof -
  let ?d = "delete (key e) t"
  have i: "inv ?d" and n: "lookup (key e) ?d = None"
    using assms(1) by (simp_all add: inv_delete lookup_delete)
  have "distinct (entries ?d)" "distinct (entries t)"
    using inv_distinct [OF i] inv_distinct [OF assms(1)] by (simp_all add: distinct_map)
  then have "length (entries ?d) = card (set (entries ?d))" "length (entries t) = card (set (entries t))"
    by (simp_all add: distinct_card)
  moreover have "set (entries ?d) \<subset> set (entries t)" using assms by (auto simp: entries_delete)
  ultimately have "length (entries ?d) < length (entries t)" by (simp add: psubset_card_mono)
  then have "length (entries ?d) \<noteq> capacity" using inv_capacity [OF assms(1)] by simp
  then show ?thesis using insert_None [OF i n] by (cases "insert_new e ?d") auto
qed

end

section \<open>Tables scoped by fabric\<close>

locale fabric_scoped =
  fixes scoped :: "'t \<Rightarrow> 'e set" and fabric :: "'e \<Rightarrow> 'f" and drop_fabric :: "'f \<Rightarrow> 't \<Rightarrow> 't"
  assumes drop_fabric_entries: "scoped (drop_fabric f t) = {e \<in> scoped t. fabric e \<noteq> f}"
begin

lemma nothing_left: "\<not> (\<exists>e \<in> scoped (drop_fabric f t). fabric e = f)"
  by (simp add: drop_fabric_entries)

lemma others_kept: "g \<noteq> f \<Longrightarrow> {e \<in> scoped (drop_fabric f t). fabric e = g} = {e \<in> scoped t. fabric e = g}"
  by (auto simp: drop_fabric_entries)

lemma drop_fabric_comm: "scoped (drop_fabric f (drop_fabric g t)) = scoped (drop_fabric g (drop_fabric f t))"
  by (auto simp: drop_fabric_entries)

end

section \<open>Mutation in place\<close>

text \<open>\<^verbatim>\<open>iter_mut().find(p)\<close>: what the caller does to the first entry found.\<close>

fun update_first :: "('e \<Rightarrow> bool) \<Rightarrow> ('e \<Rightarrow> 'e) \<Rightarrow> 'e list \<Rightarrow> 'e list" where
  "update_first p f [] = []"
| "update_first p f (e # es) = (if p e then f e # es else e # update_first p f es)"

lemma map_key_update_first:
  "(\<And>e. key (f e) = key e) \<Longrightarrow> map key (update_first p f es) = map key es"
  by (induction es) auto

lemma length_update_first [simp]: "length (update_first p f es) = length es"
  by (induction es) auto

lemma find_update_first:
  "(\<And>e. key (f e) = key e) \<Longrightarrow> List.find (\<lambda>e. key e = k') (update_first (\<lambda>e. key e = k) f es)
    = (if k' = k then map_option f (List.find (\<lambda>e. key e = k) es) else List.find (\<lambda>e. key e = k') es)"
  by (induction es) auto

section \<open>The smallest element\<close>

text \<open>\<^verbatim>\<open>min_by_key\<close>: the first of the smallest.\<close>

fun min_by_key :: "('e \<Rightarrow> 'k::linorder) \<Rightarrow> 'e list \<Rightarrow> 'e option" where
  "min_by_key k [] = None"
| "min_by_key k (x # xs) =
     (case min_by_key k xs of None \<Rightarrow> Some x | Some y \<Rightarrow> if k x \<le> k y then Some x else Some y)"

lemma min_by_key_None: "min_by_key k xs = None \<longleftrightarrow> xs = []"
  by (cases xs) (auto split: option.split)

lemma min_by_key_least:
  "min_by_key k xs = Some x \<Longrightarrow> x \<in> set xs \<and> (\<forall>y \<in> set xs. k x \<le> k y)"
proof (induction xs arbitrary: x)
  case (Cons a xs)
  then show ?case
    by (cases "min_by_key k xs") (auto split: if_splits simp: min_by_key_None intro: order.trans)
qed simp

section \<open>Unused identifiers\<close>

text \<open>\<^verbatim>\<open>for _ in 0..=u16::MAX\<close>: try the next identifier, wrapping, until one is free.\<close>

fun alloc_loop :: "nat \<Rightarrow> (u16 \<Rightarrow> bool) \<Rightarrow> u16 \<Rightarrow> u16 option \<times> u16" where
  "alloc_loop 0 free n = (None, n)"
| "alloc_loop (Suc k) free n = (if free n then (Some n, n + 1) else alloc_loop k free (n + 1))"

lemma alloc_loop_free: "alloc_loop k free n = (Some i, n') \<Longrightarrow> free i"
  by (induction k arbitrary: n) (auto split: if_splits)

lemma alloc_loop_exhausted:
  "alloc_loop k free n = (None, n') \<Longrightarrow> j < k \<Longrightarrow> \<not> free (n + word_of_nat j)"
proof (induction k arbitrary: n j)
  case (Suc k)
  show ?case
  proof (cases j)
    case 0
    then show ?thesis using Suc.prems by (auto split: if_splits)
  next
    case (Suc i)
    then have "\<not> free (n + 1 + word_of_nat i)"
      using Suc.IH [of "n + 1" i] Suc.prems by (auto split: if_splits)
    then show ?thesis using Suc by (simp add: add.assoc)
  qed
qed simp

lemma alloc_loop_total:
  assumes "free i" shows "\<exists>j n'. alloc_loop 65536 free n = (Some j, n') \<and> free j"
proof (cases "alloc_loop 65536 free n")
  case (Pair x n')
  show ?thesis
  proof (cases x)
    case None
    have "unat (i - n) < 65536" using unat_lt_len [of "i - n"] by simp
    then have "\<not> free (n + word_of_nat (unat (i - n)))"
      using alloc_loop_exhausted Pair None by blast
    then show ?thesis using assms by simp
  next
    case (Some j)
    then show ?thesis using Pair alloc_loop_free [of 65536 free n j n'] by simp
  qed
qed

text \<open>Fewer entries than identifiers leave one free.\<close>

lemma exists_unused:
  fixes f :: "'e \<Rightarrow> u16"
  assumes "length es + 1 < 65536"
  shows "\<exists>i. i \<noteq> 0 \<and> (\<forall>e \<in> set es. f e \<noteq> i)"
proof (rule ccontr)
  assume "\<not> ?thesis"
  then have "UNIV \<subseteq> insert 0 (f ` set es)" by blast
  then have "card (UNIV :: u16 set) \<le> card (insert 0 (f ` set es))" by (intro card_mono) auto
  also have "\<dots> \<le> 1 + card (f ` set es)" by (simp add: card_insert_if)
  also have "\<dots> \<le> 1 + length es" by (simp add: card_image_le card_length le_trans [OF card_image_le])
  finally show False using assms by (simp add: card_word)
qed

end
