(* ===== verification/Exchange_Table.thy ===== *)
theory Exchange_Table
  imports Mrp Msg_Ids Keyed_Table
begin

text \<open>
  The table of open exchanges (\<^verbatim>\<open>src/src/exchange/table.rs\<close>): a vector of fixed capacity \<open>N\<close>,
  keyed by session, exchange identifier and role, with the next identifier an initiator
  takes.  A \<^verbatim>\<open>find_mut\<close> is an update of one exchange by the caller's function.

  Shown here: the keys stay distinct and the vector inside its capacity through every
  operation, an initiator is refused only when the table is full, lookups, closing and
  reaping do exactly what their names say, and the timer loop ends and leaves no deadline
  in the past.
\<close>

datatype Role = Initiator | Responder

fun role_peer :: "Role \<Rightarrow> Role" where
  "role_peer Initiator = Responder"
| "role_peer Responder = Initiator"

definition role_is_initiator :: "Role \<Rightarrow> bool" where
  "role_is_initiator r \<longleftrightarrow> r = Initiator"

record ExchangeKey =
  xk_session :: SessionId
  xk_id :: ExchangeId
  xk_role :: Role

record Exchange =
  ex_key :: ExchangeKey
  ex_protocol :: ProtocolId
  ex_mrp :: Mrp
  ex_peer :: "Peer option"
  ex_opened :: Instant
  ex_last_activity :: Instant
  ex_ephemeral :: bool

definition exchange_new :: "ExchangeKey \<Rightarrow> ProtocolId \<Rightarrow> MrpParams \<Rightarrow> Instant \<Rightarrow> Exchange" where
  "exchange_new k protocol params now =
     \<lparr>ex_key = k, ex_protocol = protocol, ex_mrp = mrp_new params, ex_peer = None, ex_opened = now,
      ex_last_activity = now, ex_ephemeral = False\<rparr>"

definition exchange_ephemeral :: "Exchange \<Rightarrow> Exchange" where
  "exchange_ephemeral e = e\<lparr>ex_ephemeral := True\<rparr>"

definition exchange_touch :: "Instant \<Rightarrow> Exchange \<Rightarrow> Exchange" where
  "exchange_touch now e = e\<lparr>ex_last_activity := now\<rparr>"

definition is_abandoned :: "Exchange \<Rightarrow> Instant \<Rightarrow> Duration \<Rightarrow> bool" where
  "is_abandoned e now idle =
     (if is_awaiting_ack (ex_mrp e) then False else saturating_sub now (ex_last_activity e) > idle)"

definition exchange_to_peer :: "Peer \<Rightarrow> Exchange \<Rightarrow> Exchange" where
  "exchange_to_peer p e = e\<lparr>ex_peer := Some p\<rparr>"

definition is_transport_reliable :: "Exchange \<Rightarrow> bool" where
  "is_transport_reliable e = (case ex_peer e of None \<Rightarrow> False | Some p \<Rightarrow> peer_is_reliable p)"

definition EXCHANGE_IDLE_TIMEOUT :: Duration where "EXCHANGE_IDLE_TIMEOUT = from_secs 60"

record ExchangeTable =
  et_open :: "Exchange list"
  et_next_id :: u16

definition et_new :: "u16 \<Rightarrow> ExchangeTable" where
  "et_new first_id = \<lparr>et_open = [], et_next_id = first_id\<rparr>"

definition et_find :: "ExchangeKey \<Rightarrow> ExchangeTable \<Rightarrow> Exchange option" where
  "et_find k t = List.find (\<lambda>e. ex_key e = k) (et_open t)"

definition et_find_mut :: "ExchangeKey \<Rightarrow> (Exchange \<Rightarrow> Exchange) \<Rightarrow> ExchangeTable \<Rightarrow> ExchangeTable" where
  "et_find_mut k f t = t\<lparr>et_open := update_first (\<lambda>e. ex_key e = k) f (et_open t)\<rparr>"

definition et_insert :: "nat \<Rightarrow> Exchange \<Rightarrow> (ExchangeTable, unit) mutator" where
  "et_insert N e t =
     (case vec_push N (et_open t) e of
        None \<Rightarrow> (Inl NoSpace, t)
      | Some es \<Rightarrow> (Inr (), t\<lparr>et_open := es\<rparr>))"

definition et_reap :: "Instant \<Rightarrow> Duration \<Rightarrow> ExchangeTable \<Rightarrow> nat \<times> ExchangeTable" where
  "et_reap now idle t =
     (let es = filter (\<lambda>e. \<not> is_abandoned e now idle) (et_open t) in
      (length (et_open t) - length es, t\<lparr>et_open := es\<rparr>))"

definition et_insert_under_pressure :: "nat \<Rightarrow> Exchange \<Rightarrow> Instant \<Rightarrow> (ExchangeTable, unit) mutator" where
  "et_insert_under_pressure N e now t =
     (let t = (if length (et_open t) = N then snd (et_reap now EXCHANGE_IDLE_TIMEOUT t) else t) in
      et_insert N e t)"

definition et_allocate_id :: "SessionId \<Rightarrow> (ExchangeTable, ExchangeId) mutator" where
  "et_allocate_id s t =
     (let (x, n) = alloc_loop 65536
            (\<lambda>i. et_find \<lparr>xk_session = s, xk_id = i, xk_role = Initiator\<rparr> t = None) (et_next_id t) in
      (ok_or NoSpace x, t\<lparr>et_next_id := n\<rparr>))"

definition open_initiator ::
    "nat \<Rightarrow> SessionId \<Rightarrow> ProtocolId \<Rightarrow> MrpParams \<Rightarrow> Peer option \<Rightarrow> Instant \<Rightarrow> (ExchangeTable, ExchangeKey) mutator" where
  "open_initiator N s protocol params peer now =
     bindE (et_allocate_id s) (\<lambda>xid.
       let k = \<lparr>xk_session = s, xk_id = xid, xk_role = Initiator\<rparr>;
           e = exchange_new k protocol params now in
       bindE (et_insert N (case peer of Some p \<Rightarrow> exchange_to_peer p e | None \<Rightarrow> e)) (\<lambda>_. retE k))"

definition open_responder ::
    "nat \<Rightarrow> SessionId \<Rightarrow> ExchangeId \<Rightarrow> ProtocolId \<Rightarrow> MrpParams \<Rightarrow> Instant \<Rightarrow> (ExchangeTable, ExchangeKey) mutator" where
  "open_responder N s xid protocol params now t =
     (let k = \<lparr>xk_session = s, xk_id = xid, xk_role = Responder\<rparr> in
      if et_find k t \<noteq> None then (Inl InvalidState, t)
      else bindE (et_insert_under_pressure N (exchange_new k protocol params now) now) (\<lambda>_. retE k) t)"

definition open_ephemeral ::
    "nat \<Rightarrow> SessionId \<Rightarrow> ExchangeId \<Rightarrow> ProtocolId \<Rightarrow> MrpParams \<Rightarrow> Instant \<Rightarrow> (ExchangeTable, ExchangeKey) mutator" where
  "open_ephemeral N s xid protocol params now t =
     (let k = \<lparr>xk_session = s, xk_id = xid, xk_role = Responder\<rparr> in
      case et_find k t of
        Some existing \<Rightarrow> (Inr (ex_key existing), t)
      | None \<Rightarrow>
          bindE (et_insert_under_pressure N (exchange_ephemeral (exchange_new k protocol params now)) now)
            (\<lambda>_. retE k) t)"

definition min_opt :: "Instant list \<Rightarrow> Instant option" where
  "min_opt xs = (if xs = [] then None else Some (Min (set xs)))"

definition et_reap_deadline :: "Duration \<Rightarrow> ExchangeTable \<Rightarrow> Instant option" where
  "et_reap_deadline idle t =
     min_opt (map (\<lambda>e. instant_add (ex_last_activity e) idle)
       (filter (\<lambda>e. \<not> is_awaiting_ack (ex_mrp e)) (et_open t)))"

definition find_for_message :: "SessionId \<Rightarrow> ExchangeId \<Rightarrow> bool \<Rightarrow> ExchangeTable \<Rightarrow> Exchange option" where
  "find_for_message s xid from_initiator t =
     et_find \<lparr>xk_session = s, xk_id = xid, xk_role = (if from_initiator then Responder else Initiator)\<rparr> t"

definition et_close :: "ExchangeKey \<Rightarrow> ExchangeTable \<Rightarrow> bool \<times> ExchangeTable" where
  "et_close k t =
     (case position (\<lambda>e. ex_key e = k) (et_open t) of
        None \<Rightarrow> (False, t)
      | Some i \<Rightarrow>
          let es = (et_open t)[i := (et_open t ! i)\<lparr>ex_mrp := mrp_close (ex_mrp (et_open t ! i))\<rparr>] in
          (True, t\<lparr>et_open := swap_remove i es\<rparr>))"

definition close_session :: "SessionId \<Rightarrow> ExchangeTable \<Rightarrow> nat \<times> ExchangeTable" where
  "close_session s t =
     (let es = filter (\<lambda>e. xk_session (ex_key e) \<noteq> s) (et_open t) in
      (length (et_open t) - length es, t\<lparr>et_open := es\<rparr>))"

definition et_poll_deadline :: "ExchangeTable \<Rightarrow> Instant option" where
  "et_poll_deadline t = min_opt (List.map_filter (\<lambda>e. mrp_poll_deadline (ex_mrp e)) (et_open t))"

text \<open>The inner \<^verbatim>\<open>loop\<close> of \<^verbatim>\<open>on_timeout\<close>.  It ends because each turn spends the owed acknowledgement,
  one of the five transmissions, or the message itself.\<close>

definition mrp_work :: "Mrp \<Rightarrow> nat" where
  "mrp_work m = (if pending_ack m = None then 0 else 1)
     + (case pending_tx m of None \<Rightarrow> 0 | Some tx \<Rightarrow> Suc (5 - unat (tx_sent tx)))"

lemma mrp_on_timeout_work:
  "fst (mrp_on_timeout now r m) \<noteq> Nothing \<Longrightarrow> mrp_work (snd (mrp_on_timeout now r m)) < mrp_work m"
proof -
  assume a: "fst (mrp_on_timeout now r m) \<noteq> Nothing"
  have s: "5 - unat (saturating_add s 1) < 5 - unat s" if "\<not> 5 \<le> s" for s :: u32
    using that by (simp add: word_le_nat_alt unat_saturating_add)
  show ?thesis
  proof (cases "pending_ack m")
    case None
    then show ?thesis
      using a s by (auto simp: mrp_on_timeout_def tx_timeout_def mrp_work_def Let_def MRP_MAX_TRANSMISSIONS_def
          split: option.splits if_splits)
  next
    case (Some ack)
    then show ?thesis
      using a s by (auto simp: mrp_on_timeout_def tx_timeout_def mrp_work_def Let_def MRP_MAX_TRANSMISSIONS_def
          split: option.splits if_splits)
  qed
qed

function drain_timeouts :: "Instant \<Rightarrow> u32 \<Rightarrow> Mrp \<Rightarrow> OnTimeout list \<times> Mrp" where
  "drain_timeouts now r m =
     (if fst (mrp_on_timeout now r m) = Nothing then ([], snd (mrp_on_timeout now r m))
      else
        let (actions, m'') = drain_timeouts now r (snd (mrp_on_timeout now r m)) in
        (fst (mrp_on_timeout now r m) # actions, m''))"
  by pat_completeness auto

termination
  by (relation "measure (\<lambda>(_, _, m). mrp_work m)") (auto simp: mrp_on_timeout_work)

declare drain_timeouts.simps [simp del]

text \<open>The outer loop: the actions, each with the key of its exchange, in table order.\<close>

fun timeout_loop :: "Instant \<Rightarrow> u32 \<Rightarrow> Exchange list \<Rightarrow> (ExchangeKey \<times> OnTimeout) list \<times> Exchange list" where
  "timeout_loop now r [] = ([], [])"
| "timeout_loop now r (e # es) =
     (let (as, m) = drain_timeouts now r (ex_mrp e); (bs, es') = timeout_loop now r es in
      (map (\<lambda>a. (ex_key e, a)) as @ bs, e\<lparr>ex_mrp := m\<rparr> # es'))"

definition et_on_timeout :: "Instant \<Rightarrow> u32 \<Rightarrow> ExchangeTable \<Rightarrow> (ExchangeKey \<times> OnTimeout) list \<times> ExchangeTable" where
  "et_on_timeout now r t = (let (as, es) = timeout_loop now r (et_open t) in (as, t\<lparr>et_open := es\<rparr>))"

section \<open>The table as a keyed, bounded table\<close>

definition et_inv :: "nat \<Rightarrow> ExchangeTable \<Rightarrow> bool" where
  "et_inv N t \<longleftrightarrow> distinct (map ex_key (et_open t)) \<and> length (et_open t) \<le> N"

definition et_delete :: "ExchangeKey \<Rightarrow> ExchangeTable \<Rightarrow> ExchangeTable" where
  "et_delete k t = snd (et_close k t)"

definition et_insert_new :: "nat \<Rightarrow> Exchange \<Rightarrow> ExchangeTable \<Rightarrow> ExchangeTable option" where
  "et_insert_new N e t = (case et_insert N e t of (Inl _, _) \<Rightarrow> None | (Inr _, t') \<Rightarrow> Some t')"

lemma et_close_open:
  assumes "distinct (map ex_key (et_open t))"
  shows "set (et_open (snd (et_close k t))) = {e \<in> set (et_open t). ex_key e \<noteq> k}"
    and "distinct (map ex_key (et_open (snd (et_close k t))))"
    and "length (et_open (snd (et_close k t))) \<le> length (et_open t)"
    and "et_next_id (snd (et_close k t)) = et_next_id t"
proof -
  have "set (et_open (snd (et_close k t))) = {e \<in> set (et_open t). ex_key e \<noteq> k}
      \<and> distinct (map ex_key (et_open (snd (et_close k t))))
      \<and> length (et_open (snd (et_close k t))) \<le> length (et_open t) \<and> et_next_id (snd (et_close k t)) = et_next_id t"
  proof (cases "position (\<lambda>e. ex_key e = k) (et_open t)")
    case None
    then show ?thesis using assms position_None [of "\<lambda>e. ex_key e = k" "et_open t"] by (auto simp: et_close_def)
  next
    case (Some i)
    note p = position_Some [OF Some]
    let ?e = "et_open t ! i" and ?es = "et_open t"
    let ?es' = "?es[i := ?e\<lparr>ex_mrp := mrp_close (ex_mrp ?e)\<rparr>]"
    have m: "map ex_key ?es' = map ex_key ?es" using p by (simp add: map_update list_update_same_conv)
    then have d: "distinct (map ex_key ?es')" using assms by simp
    have i: "i < length ?es'" using p by simp
    have k: "ex_key (?es' ! i) = k" using p by simp
    have "set (swap_remove i ?es') = {e \<in> set ?es'. ex_key e \<noteq> k}" using set_swap_remove [OF d i] k by simp
    also have "\<dots> = {e \<in> set ?es. ex_key e \<noteq> k}"
    proof -
      have "e \<in> set ?es' \<longleftrightarrow> e \<in> set ?es" if "ex_key e \<noteq> k" for e
        using that p by (auto simp: in_set_conv_nth nth_list_update; metis nth_list_update_neq)
      then show ?thesis by blast
    qed
    finally show ?thesis using Some distinct_swap_remove [OF d i] by (simp add: et_close_def Let_def)
  qed
  then show "set (et_open (snd (et_close k t))) = {e \<in> set (et_open t). ex_key e \<noteq> k}"
    "distinct (map ex_key (et_open (snd (et_close k t))))"
    "length (et_open (snd (et_close k t))) \<le> length (et_open t)"
    "et_next_id (snd (et_close k t)) = et_next_id t" by simp_all
qed

lemma et_insert_new_eq:
  "et_insert_new N e t = (if length (et_open t) < N then Some (t\<lparr>et_open := et_open t @ [e]\<rparr>) else None)"
  by (simp add: et_insert_new_def et_insert_def vec_push_def)

interpretation etb: bounded_table "et_inv N" et_open ex_key et_find et_delete N "et_insert_new N" for N
proof (unfold_locales, goal_cases)
  case (4 t k)
  then show ?case by (simp add: et_delete_def et_inv_def et_close_open)
next
  case (7 t e t')
  then show ?case by (auto simp: et_insert_new_eq et_inv_def et_find_def find_None split: if_splits; blast)
qed (auto simp: et_inv_def et_find_def et_delete_def et_insert_new_eq et_close_open
      intro: le_trans [OF et_close_open(3)])

section \<open>Every operation keeps the invariant\<close>

lemma et_inv_filter: "et_inv N t \<Longrightarrow> et_inv N (t\<lparr>et_open := filter p (et_open t)\<rparr>)"
  by (auto simp: et_inv_def distinct_map_filter intro: le_trans [OF length_filter_le])

lemma et_reap_inv: "et_inv N t \<Longrightarrow> et_inv N (snd (et_reap now idle t))"
  by (simp add: et_reap_def Let_def et_inv_filter)

lemma close_session_inv: "et_inv N t \<Longrightarrow> et_inv N (snd (close_session s t))"
  by (simp add: close_session_def Let_def et_inv_filter)

lemma et_close_inv: "et_inv N t \<Longrightarrow> et_inv N (snd (et_close k t))"
  using etb.inv_delete [of N t k] by (simp add: et_delete_def)

lemma et_find_mut_inv:
  "(\<And>e. ex_key (f e) = ex_key e) \<Longrightarrow> et_inv N t \<Longrightarrow> et_inv N (et_find_mut k f t)"
  using map_key_update_first [of ex_key f "\<lambda>e. ex_key e = k" "et_open t"]
  by (simp add: et_inv_def et_find_mut_def)

lemma et_insert_inv:
  "et_inv N t \<Longrightarrow> et_find (ex_key e) t = None \<Longrightarrow> et_inv N (snd (et_insert N e t))"
  using etb.insert_Some [of N t e] by (cases "length (et_open t) < N")
    (auto simp: et_insert_new_eq et_insert_def vec_push_def)

lemma et_inv_next_id [simp]: "et_inv N (t\<lparr>et_next_id := n\<rparr>) = et_inv N t" "et_find k (t\<lparr>et_next_id := n\<rparr>) = et_find k t"
  by (simp_all add: et_inv_def et_find_def)

lemma ex_key_simps [simp]:
  "ex_key (exchange_new k p m now) = k" "ex_key (exchange_ephemeral e) = ex_key e"
  "ex_key (exchange_to_peer q e) = ex_key e" "ex_key (exchange_touch now e) = ex_key e"
  by (simp_all add: exchange_new_def exchange_ephemeral_def exchange_to_peer_def exchange_touch_def)

lemma et_find_reap_None:
  "et_find k t = None \<Longrightarrow> et_find k (snd (et_reap now idle t)) = None"
  by (auto simp: et_find_def et_reap_def Let_def find_None)

lemma et_pressure_inv:
  "et_inv N t \<Longrightarrow> et_find (ex_key e) t = None \<Longrightarrow> et_inv N (snd (et_insert_under_pressure N e now t))"
  by (simp add: et_insert_under_pressure_def Let_def et_insert_inv et_reap_inv et_find_reap_None)

lemma bindE_ret_snd: "snd (bindE m (\<lambda>_. retE a) s) = snd (m s)"
  by (simp add: bindE_def split: prod.splits sum.splits)

lemma open_responder_inv: "et_inv N t \<Longrightarrow> et_inv N (snd (open_responder N s x p m now t))"
  by (auto simp: open_responder_def Let_def bindE_ret_snd intro!: et_pressure_inv)

lemma open_ephemeral_inv: "et_inv N t \<Longrightarrow> et_inv N (snd (open_ephemeral N s x p m now t))"
  by (auto simp: open_ephemeral_def Let_def bindE_ret_snd intro!: et_pressure_inv split: option.splits)

text \<open>The identifier an initiator is given is unused in its session.\<close>

lemma et_allocate_id_cases:
  obtains (fresh) i n where "et_allocate_id s t = (Inr i, t\<lparr>et_next_id := n\<rparr>)"
      "et_find \<lparr>xk_session = s, xk_id = i, xk_role = Initiator\<rparr> t = None"
    | (none) n where "et_allocate_id s t = (Inl NoSpace, t\<lparr>et_next_id := n\<rparr>)" "65536 \<le> length (et_open t) + 1"
proof -
  let ?free = "\<lambda>i. et_find \<lparr>xk_session = s, xk_id = i, xk_role = Initiator\<rparr> t = None"
  obtain x n where a: "alloc_loop 65536 ?free (et_next_id t) = (x, n)" by fastforce
  show thesis
  proof (cases x)
    case (Some i)
    then have "et_allocate_id s t = (Inr i, t\<lparr>et_next_id := n\<rparr>)" using a by (simp add: et_allocate_id_def)
    moreover have "?free i" using alloc_loop_free a Some by fast
    ultimately show thesis by (rule fresh)
  next
    case None
    then have e: "et_allocate_id s t = (Inl NoSpace, t\<lparr>et_next_id := n\<rparr>)" using a by (simp add: et_allocate_id_def)
    have "65536 \<le> length (et_open t) + 1"
    proof (rule ccontr)
      assume "\<not> ?thesis"
      then obtain i where "\<forall>e \<in> set (et_open t). xk_id (ex_key e) \<noteq> i"
        using exists_unused [of "et_open t" "\<lambda>e. xk_id (ex_key e)"] by auto
      then have "?free i" by (auto simp: et_find_def find_None)
      then show False using alloc_loop_total [of ?free i "et_next_id t"] a None by auto
    qed
    then show thesis by (rule none [OF e])
  qed
qed

lemma open_initiator_inv: "et_inv N t \<Longrightarrow> et_inv N (snd (open_initiator N s p m q now t))"
proof (cases s t rule: et_allocate_id_cases)
  case (fresh i n)
  assume "et_inv N t"
  then show ?thesis using fresh
    by (auto simp: open_initiator_def Let_def bindE_ret_snd intro!: et_insert_inv split: option.splits)
next
  case (none n)
  assume "et_inv N t"
  then show ?thesis using none by (simp add: open_initiator_def)
qed

lemma timeout_loop_keys: "map ex_key (snd (timeout_loop now r es)) = map ex_key es"
  by (induction es) (simp_all add: Let_def case_prod_beta)

lemma et_on_timeout_inv: "et_inv N t \<Longrightarrow> et_inv N (snd (et_on_timeout now r t))"
  using timeout_loop_keys [of now r "et_open t"]
  by (simp add: et_inv_def et_on_timeout_def Let_def case_prod_beta) (metis length_map)

inductive et_reachable :: "nat \<Rightarrow> ExchangeTable \<Rightarrow> bool" for N where
  new: "et_reachable N (et_new first_id)"
| initiator: "et_reachable N t \<Longrightarrow> et_reachable N (snd (open_initiator N s p m q now t))"
| responder: "et_reachable N t \<Longrightarrow> et_reachable N (snd (open_responder N s x p m now t))"
| ephemeral: "et_reachable N t \<Longrightarrow> et_reachable N (snd (open_ephemeral N s x p m now t))"
| mutate: "et_reachable N t \<Longrightarrow> (\<And>e. ex_key (f e) = ex_key e) \<Longrightarrow> et_reachable N (et_find_mut k f t)"
| reap: "et_reachable N t \<Longrightarrow> et_reachable N (snd (et_reap now idle t))"
| close: "et_reachable N t \<Longrightarrow> et_reachable N (snd (et_close k t))"
| close_session: "et_reachable N t \<Longrightarrow> et_reachable N (snd (close_session s t))"
| timeout: "et_reachable N t \<Longrightarrow> et_reachable N (snd (et_on_timeout now r t))"

lemma et_reachable_inv: "et_reachable N t \<Longrightarrow> et_inv N t"
  by (induction rule: et_reachable.induct)
    (simp_all add: open_initiator_inv open_responder_inv open_ephemeral_inv et_find_mut_inv et_reap_inv
      et_close_inv close_session_inv et_on_timeout_inv, simp add: et_inv_def et_new_def)

section \<open>The timer loop\<close>

lemma drain_quiet: "fst (mrp_on_timeout now r (snd (drain_timeouts now r m))) = Nothing"
proof (induction now r m rule: drain_timeouts.induct)
  case (1 now r m)
  show ?case
  proof (cases "fst (mrp_on_timeout now r m) = Nothing")
    case True
    then have "snd (mrp_on_timeout now r m) = m" using mrp_timeout_nothing by blast
    then show ?thesis using True by (subst drain_timeouts.simps) simp
  next
    case False
    then show ?thesis using 1 by (subst drain_timeouts.simps) (simp add: Let_def case_prod_beta)
  qed
qed

lemma drain_length: "length (fst (drain_timeouts now r m)) \<le> mrp_work m"
proof (induction now r m rule: drain_timeouts.induct)
  case (1 now r m)
  show ?case
  proof (cases "fst (mrp_on_timeout now r m) = Nothing")
    case False
    then show ?thesis
      using 1 [OF False] mrp_on_timeout_work [OF False]
      by (subst drain_timeouts.simps) (simp add: Let_def case_prod_beta)
  qed (subst drain_timeouts.simps, simp)
qed

lemma timeout_loop_entry:
  "e' \<in> set (snd (timeout_loop now r es)) \<Longrightarrow> \<exists>e \<in> set es. e' = e\<lparr>ex_mrp := snd (drain_timeouts now r (ex_mrp e))\<rparr>"
  by (induction es) (auto simp: Let_def case_prod_beta)

lemma timeout_loop_length:
  "\<forall>e \<in> set es. mrp_work (ex_mrp e) \<le> n \<Longrightarrow> length (fst (timeout_loop now r es)) \<le> n * length es"
proof (induction es)
  case (Cons e es)
  have "length (fst (drain_timeouts now r (ex_mrp e))) \<le> n"
    using drain_length [of now r "ex_mrp e"] Cons.prems by (meson le_trans list.set_intros(1))
  then show ?case using Cons by (simp add: Let_def case_prod_beta)
qed simp

lemma mrp_work_bound: "mrp_inv p m \<Longrightarrow> mrp_work m \<le> 6"
  by (auto simp: mrp_inv_def mrp_work_def word_le_nat_alt split: option.splits)

lemma min_opt_gt: "(\<forall>x \<in> set xs. now < x) \<Longrightarrow> (case min_opt xs of None \<Rightarrow> True | Some d \<Rightarrow> now < d)"
  by (simp add: min_opt_def)

section \<open>Properties\<close>

text \<open>Through any sequence of openings, lookups for mutation, reaping, closing and timer calls the
  table holds at most its capacity of exchanges and no two with the same session, identifier
  and role.\<close>

theorem exchange_table_invariant:
  assumes "et_reachable N t"
  shows "length (et_open t) \<le> N \<and> distinct (map ex_key (et_open t))
    \<and> (\<forall>e \<in> set (et_open t). et_find (ex_key e) t = Some e)"
  using et_reachable_inv [OF assms] etb.lookup_Some [of N t] by (auto simp: et_inv_def)

theorem exchange_table_invariant_witness:
  "length (et_open (snd (open_responder 4 1 7 (protocol_common 1) params_default 0 (et_new 0)))) \<le> 4
    \<and> distinct (map ex_key (et_open (snd (open_responder 4 1 7 (protocol_common 1) params_default 0 (et_new 0)))))"
proof -
  have "et_reachable 4 (snd (open_responder 4 1 7 (protocol_common 1) params_default 0 (et_new 0)))"
    by (intro et_reachable.intros)
  from exchange_table_invariant [OF this] show ?thesis by blast
qed

text \<open>An initiator's exchange is refused exactly when the table is full; otherwise it gets a key
  no open exchange has, is found under that key as opened, and no other lookup changes.\<close>

theorem open_initiator_outcome:
  assumes "et_inv N t" and "N < 65535"
  shows "if length (et_open t) = N then fst (open_initiator N s p m q now t) = Inl NoSpace
    else \<exists>k e t'. open_initiator N s p m q now t = (Inr k, t') \<and> xk_session k = s \<and> xk_role k = Initiator
      \<and> et_find k t = None \<and> et_find k t' = Some e \<and> ex_mrp e = mrp_new m \<and> ex_peer e = q \<and> ex_protocol e = p
      \<and> (\<forall>k'. k' \<noteq> k \<longrightarrow> et_find k' t' = et_find k' t)"
proof (cases s t rule: et_allocate_id_cases)
  case (none n)
  then show ?thesis using assms by (simp add: et_inv_def)
next
  case (fresh i n)
  let ?k = "\<lparr>xk_session = s, xk_id = i, xk_role = Initiator\<rparr>" and ?t = "t\<lparr>et_next_id := n\<rparr>"
  let ?e = "case q of Some a \<Rightarrow> exchange_to_peer a (exchange_new ?k p m now) | None \<Rightarrow> exchange_new ?k p m now"
  have ek: "ex_key ?e = ?k" by (simp split: option.splits)
  have ef: "ex_mrp ?e = mrp_new m" "ex_peer ?e = q" "ex_protocol ?e = p"
    by (simp_all add: exchange_new_def exchange_to_peer_def split: option.splits)
  have o: "open_initiator N s p m q now t = bindE (et_insert N ?e) (\<lambda>_. retE ?k) ?t"
    using fresh(1) by (simp add: open_initiator_def Let_def)
  show ?thesis
  proof (cases "length (et_open t) = N")
    case True
    then show ?thesis unfolding o by (simp add: et_insert_def vec_push_def)
  next
    case False
    then have l: "length (et_open ?t) < N" using assms(1) by (simp add: et_inv_def)
    let ?t' = "?t\<lparr>et_open := et_open ?t @ [?e]\<rparr>"
    have ins: "et_insert_new N ?e ?t = Some ?t'" using l by (simp add: et_insert_new_eq)
    have n: "et_find (ex_key ?e) ?t = None" using fresh(2) ek by (simp only: et_inv_next_id)
    have "et_insert N ?e ?t = (Inr (), ?t')" using l by (simp add: et_insert_def vec_push_def)
    then have r: "open_initiator N s p m q now t = (Inr ?k, ?t')" unfolding o by simp
    have i: "et_inv N ?t" using assms(1) by simp
    note f = etb.lookup_insert [OF i n ins, unfolded ek]
    have "et_find ?k ?t' = Some ?e" using f [of ?k] by simp
    moreover have "\<forall>k'. k' \<noteq> ?k \<longrightarrow> et_find k' ?t' = et_find k' t"
      using f by (simp only: et_inv_next_id if_False)  simp
    ultimately show ?thesis
      using False r ef fresh(2) by (intro if_not_P [THEN iffD2] exI [of _ ?k] exI [of _ ?e] exI [of _ ?t']) auto
  qed
qed

lemma et_new_inv: "et_inv N (et_new i)"
  by (simp add: et_inv_def et_new_def)

theorem open_initiator_outcome_witness:
  "\<exists>k e t'. open_initiator 2 5 (protocol_common 1) params_default None 0 (et_new 9) = (Inr k, t')
    \<and> et_find k t' = Some e \<and> xk_session k = 5"
  using open_initiator_outcome [OF et_new_inv, of 2 9 5 "protocol_common 1" params_default None 0]
  by (auto simp: et_new_def)

text \<open>A peer's exchange is refused as a duplicate when it is already open, and otherwise refused only
  when the table is full and none of its exchanges is abandoned; room is made by dropping
  abandoned exchanges alone, and only then.\<close>

theorem open_responder_outcome:
  assumes "et_inv N t" and "k = \<lparr>xk_session = s, xk_id = x, xk_role = Responder\<rparr>"
    and "t' = (if length (et_open t) = N then snd (et_reap now EXCHANGE_IDLE_TIMEOUT t) else t)"
  shows "open_responder N s x p m now t =
    (if et_find k t \<noteq> None then (Inl InvalidState, t)
     else if length (et_open t) = N \<and> \<not> (\<exists>e \<in> set (et_open t). is_abandoned e now EXCHANGE_IDLE_TIMEOUT)
       then (Inl NoSpace, t')
     else (Inr k, t'\<lparr>et_open := et_open t' @ [exchange_new k p m now]\<rparr>))"
proof -
  have l: "length (et_open t) \<le> N" using assms(1) by (simp add: et_inv_def)
  have "length (filter (\<lambda>e. \<not> is_abandoned e now EXCHANGE_IDLE_TIMEOUT) (et_open t)) < length (et_open t) \<longleftrightarrow>
      (\<exists>e \<in> set (et_open t). is_abandoned e now EXCHANGE_IDLE_TIMEOUT)"
    by (metis (no_types, lifting) filter_True filter_id_conv length_filter_less less_irrefl)
  then have "length (et_open t') < N \<longleftrightarrow>
      \<not> (length (et_open t) = N \<and> \<not> (\<exists>e \<in> set (et_open t). is_abandoned e now EXCHANGE_IDLE_TIMEOUT))"
    using l unfolding assms(3) by (auto simp: et_reap_def Let_def)
  then show ?thesis
    unfolding open_responder_def Let_def et_insert_under_pressure_def et_insert_def vec_push_def
      assms(2) [symmetric] bindE_def assms(3) [symmetric]
    by auto
qed

theorem open_responder_outcome_witness:
  "fst (open_responder 0 5 3 (protocol_common 1) params_default 0 (et_new 9)) = Inl NoSpace"
  using open_responder_outcome [OF et_new_inv [of 0 9] refl refl, where s = 5 and x = 3 and p = "protocol_common 1"
      and m = params_default and now = 0]
  by (simp add: et_new_def et_find_def)

text \<open>A timer call on the table always returns, after at most six actions for each exchange whose
  machine was reached by its own events, and when it returns no deadline is left at or before
  the time it was given: the deadline polled next, if any, lies in the future.\<close>

theorem exchange_timers_quiesce:
  assumes "\<forall>e \<in> set (et_open t). \<exists>p. mrp_reachable p (ex_mrp e)"
  shows "length (fst (et_on_timeout now r t)) \<le> 6 * length (et_open t)
    \<and> (case et_poll_deadline (snd (et_on_timeout now r t)) of None \<Rightarrow> True | Some d \<Rightarrow> now < d)"
proof
  have "\<forall>e \<in> set (et_open t). mrp_work (ex_mrp e) \<le> 6"
    using assms mrp_reachable_inv mrp_work_bound by blast
  then show "length (fst (et_on_timeout now r t)) \<le> 6 * length (et_open t)"
    using timeout_loop_length by (simp add: et_on_timeout_def Let_def case_prod_beta)
  have "now < d" if e: "e' \<in> set (snd (timeout_loop now r (et_open t)))" "mrp_poll_deadline (ex_mrp e') = Some d" for e' d
  proof -
    obtain m where "ex_mrp e' = snd (drain_timeouts now r m)" using timeout_loop_entry [OF e(1)] by auto
    then have "fst (mrp_on_timeout now r (ex_mrp e')) = Nothing" using drain_quiet by simp
    then show ?thesis using e(2) mrp_timeout_due [of now r "ex_mrp e'"] by simp
  qed
  then show "case et_poll_deadline (snd (et_on_timeout now r t)) of None \<Rightarrow> True | Some d \<Rightarrow> now < d"
    unfolding et_poll_deadline_def
    by (intro min_opt_gt) (auto simp: et_on_timeout_def Let_def case_prod_beta map_filter_def)
qed

theorem exchange_timers_quiesce_witness:
  "length (fst (et_on_timeout 5 0 (snd (open_responder 4 1 7 (protocol_common 1) params_default 0 (et_new 0))))) \<le> 6"
proof -
  have "et_open (snd (open_responder 4 1 7 (protocol_common 1) params_default 0 (et_new 0)))
      = [exchange_new \<lparr>xk_session = 1, xk_id = 7, xk_role = Responder\<rparr> (protocol_common 1) params_default 0]"
    by (simp add: open_responder_def et_new_def et_find_def Let_def et_insert_under_pressure_def et_insert_def
        vec_push_def bindE_def)
  moreover have "mrp_reachable params_default (ex_mrp (exchange_new k p params_default 0))" for k p
    by (simp add: exchange_new_def mrp_reachable.fresh)
  ultimately show ?thesis
    using exchange_timers_quiesce [of "snd (open_responder 4 1 7 (protocol_common 1) params_default 0 (et_new 0))" 5 0]
    by auto
qed

text \<open>Closing an exchange reports whether it was open, removes that one and leaves every other
  where lookups find it; closing a session removes all of its exchanges and no others.\<close>

theorem exchange_closing:
  assumes "et_inv N t"
  shows "et_find k' (snd (et_close k t)) = (if k' = k then None else et_find k' t)
    \<and> (fst (et_close k t) \<longleftrightarrow> et_find k t \<noteq> None)
    \<and> et_find k' (snd (close_session s t)) = (if xk_session k' = s then None else et_find k' t)"
proof (intro conjI)
  show "et_find k' (snd (et_close k t)) = (if k' = k then None else et_find k' t)"
    using etb.lookup_delete [OF assms, of k' k] by (simp add: et_delete_def)
  show "fst (et_close k t) \<longleftrightarrow> et_find k t \<noteq> None"
    using position_None [of "\<lambda>e. ex_key e = k" "et_open t"]
      find_None [of "\<lambda>e. ex_key e = k" "et_open t"]
    by (cases "position (\<lambda>e. ex_key e = k) (et_open t)") (auto simp: et_close_def et_find_def Let_def)
  show "et_find k' (snd (close_session s t)) = (if xk_session k' = s then None else et_find k' t)"
  proof (cases "xk_session k' = s")
    case True
    then show ?thesis by (auto simp: et_find_def close_session_def Let_def find_None)
  next
    case False
    have "{e \<in> set (et_open (snd (close_session s t))). ex_key e = k'} = {e \<in> set (et_open t). ex_key e = k'}"
      using False by (auto simp: close_session_def Let_def)
    then show ?thesis using False etb.lookup_eqI [OF assms close_session_inv [OF assms]] by simp
  qed
qed

theorem exchange_closing_witness:
  "et_find \<lparr>xk_session = 1, xk_id = 7, xk_role = Responder\<rparr> (snd (close_session 1
     (snd (open_responder 4 1 7 (protocol_common 1) params_default 0 (et_new 0))))) = None"
  using exchange_closing [OF open_responder_inv [OF et_new_inv], where s = 1
      and k' = "\<lparr>xk_session = 1, xk_id = 7, xk_role = Responder\<rparr>"] by simp

end
