(* ===== verification/Msg_Security.thy ===== *)
theory Msg_Security
  imports Msg_Header
begin

text \<open>
  Protection of secured messages (\<^verbatim>\<open>src/src/msg/security.rs\<close>): the nonce, the privacy
  obfuscation of the header and the authenticated encryption of the payload, with the key
  stream of \<^verbatim>\<open>privacy_xor\<close> and the two wrappers of \<^verbatim>\<open>src/src/crypto/rustcrypto.rs\<close>.  The
  ciphers themselves are crates the sources call: AES-CCM encryption and decryption and the
  AES block function are arguments of the definitions, and what is relied on of them is the
  hypothesis \<open>cipher_ok\<close>.  Shown here: a protected message is recovered exactly by a receiver
  with the same keys, and nothing is handed up that the cipher has not authenticated together
  with the header it is handed up under.
\<close>

type_synonym SymmetricKey = bytes

definition AEAD_NONCE_LENGTH_BYTES :: nat where "AEAD_NONCE_LENGTH_BYTES = 13"
definition AEAD_MIC_LENGTH_BYTES :: nat where "AEAD_MIC_LENGTH_BYTES = 16"
definition SYMMETRIC_KEY_LENGTH_BYTES :: nat where "SYMMETRIC_KEY_LENGTH_BYTES = 16"

text \<open>
  The cipher crates.  \<open>ccm_encrypt key nonce aad plain\<close> is the ciphertext and the tag, or
  \<open>None\<close> when the crate reports an error; \<open>ccm_decrypt key nonce aad buf tag\<close> says whether the
  tag is right and what the buffer then holds; \<open>aes_block key b\<close> enciphers one block.
\<close>

record Cipher =
  ccm_encrypt :: "bytes \<Rightarrow> bytes \<Rightarrow> bytes \<Rightarrow> bytes \<Rightarrow> (bytes \<times> bytes) option"
  ccm_decrypt :: "bytes \<Rightarrow> bytes \<Rightarrow> bytes \<Rightarrow> bytes \<Rightarrow> bytes \<Rightarrow> bool \<times> bytes"
  aes_block :: "bytes \<Rightarrow> bytes \<Rightarrow> bytes"

definition aead_encrypt_in_place :: "Cipher \<Rightarrow> SymmetricKey \<Rightarrow> bytes \<Rightarrow> bytes \<Rightarrow> (bytes, bytes) mutator" where
  "aead_encrypt_in_place C key n aad buf =
     (case ccm_encrypt C key n aad buf of
        None \<Rightarrow> (Inl IntegrityCheckFailed, buf)
      | Some (cipher, tag) \<Rightarrow> (Inr tag, cipher))"

definition aead_decrypt_in_place :: "Cipher \<Rightarrow> SymmetricKey \<Rightarrow> bytes \<Rightarrow> bytes \<Rightarrow> bytes \<Rightarrow> (bytes, unit) mutator" where
  "aead_decrypt_in_place C key n aad tag buf =
     (let (ok, buf') = ccm_decrypt C key n aad buf tag in
      (if ok then Inr () else Inl IntegrityCheckFailed, buf'))"

definition u16_be_bytes :: "u16 \<Rightarrow> bytes" where
  "u16_be_bytes v = rev (u16_bytes v)"

definition counter_block :: "bytes \<Rightarrow> u16 \<Rightarrow> bytes" where
  "counter_block n index = [0x01] @ n @ u16_be_bytes index"

function privacy_chunks :: "Cipher \<Rightarrow> SymmetricKey \<Rightarrow> bytes \<Rightarrow> nat \<Rightarrow> (bytes, unit) mutator" where
  "privacy_chunks C key n index buf =
     (if buf = [] then (Inr (), [])
      else if index > 65535 then (Inl InvalidArgument, buf)
      else
        let chunk = map2 (XOR) (take 16 buf) (aes_block C key (counter_block n (word_of_nat index)));
            (r, rest) = privacy_chunks C key n (Suc index) (drop 16 buf) in
        (r, chunk @ rest))"
  by pat_completeness auto

termination
  by (relation "measure (\<lambda>(_, _, _, _, buf). length buf)") auto

declare privacy_chunks.simps [simp del]

definition privacy_xor :: "Cipher \<Rightarrow> SymmetricKey \<Rightarrow> bytes \<Rightarrow> (bytes, unit) mutator" where
  "privacy_xor C key n buf =
     (if (length buf + 15) div 16 > 65535 + 1 then (Inl InvalidArgument, buf)
      else privacy_chunks C key n 0 buf)"

record SessionKeys =
  sk_encryption :: SymmetricKey
  sk_privacy :: SymmetricKey

text \<open>\<^verbatim>\<open>kdf_key\<close> is the HKDF crate's expansion to 16 octets, or \<open>None\<close> when it reports an error.\<close>

definition PRIVACY_KEY_INFO :: bytes where
  "PRIVACY_KEY_INFO = [0x50, 0x72, 0x69, 0x76, 0x61, 0x63, 0x79, 0x4B, 0x65, 0x79]"

definition privacy_key :: "(bytes \<Rightarrow> bytes \<Rightarrow> bytes \<Rightarrow> nat \<Rightarrow> bytes option) \<Rightarrow> SymmetricKey \<Rightarrow> SymmetricKey result" where
  "privacy_key hkdf key =
     ok_or IntegrityCheckFailed (hkdf key [] PRIVACY_KEY_INFO SYMMETRIC_KEY_LENGTH_BYTES)"

definition from_encryption_key ::
    "(bytes \<Rightarrow> bytes \<Rightarrow> bytes \<Rightarrow> nat \<Rightarrow> bytes option) \<Rightarrow> SymmetricKey \<Rightarrow> SessionKeys result" where
  "from_encryption_key hkdf key =
     bindR (privacy_key hkdf key) (\<lambda>p. Inr \<lparr>sk_encryption = key, sk_privacy = p\<rparr>)"

datatype NonceSource = PaseNonce | CaseNonce NodeId | GroupNonce

fun nonce_resolve :: "NonceSource \<Rightarrow> MessageHeader \<Rightarrow> NodeId result" where
  "nonce_resolve PaseNonce h = Inr NodeId_UNSPECIFIED"
| "nonce_resolve (CaseNonce n) h = Inr n"
| "nonce_resolve GroupNonce h = ok_or MessageReserved (mh_source h)"

definition nonce :: "u8 \<Rightarrow> u32 \<Rightarrow> NodeId \<Rightarrow> bytes" where
  "nonce security_flags message_counter source =
     [security_flags] @ u32_bytes message_counter @ u64_bytes source"

definition privacy_nonce :: "SessionId \<Rightarrow> bytes \<Rightarrow> bytes result" where
  "privacy_nonce session_id mic =
     bindR (ok_or BufferTooSmall (slice_get mic 5 16)) (\<lambda>src. Inr (u16_be_bytes session_id @ src))"

definition PRIVACY_OFFSET :: nat where "PRIVACY_OFFSET = 4"

definition privacy_len :: "MessageHeader \<Rightarrow> nat" where
  "privacy_len h = 4 + (if mh_source h \<noteq> None then 8 else 0)
     + (case mh_destination h of NoDestination \<Rightarrow> 0 | ToNode _ \<Rightarrow> 8 | ToGroup _ \<Rightarrow> 2)"

definition MAX_HEADER :: nat where "MAX_HEADER = 1 + 2 + 1 + 4 + 8 + 8"

definition security_flags_of :: "MessageHeader \<Rightarrow> u8" where
  "security_flags_of h =
     (case mh_session_type h of Unicast \<Rightarrow> 0 | GroupSession \<Rightarrow> 1)
     OR (if mh_privacy h then 0x80 else 0) OR (if mh_control h then 0x40 else 0)"

text \<open>What a caller does to \<^verbatim>\<open>buf[a..b]\<close>, a range outside the buffer being reported as \<open>e\<close>.\<close>

definition on_region :: "ErrorCode \<Rightarrow> nat \<Rightarrow> nat \<Rightarrow> (bytes, 'a) mutator \<Rightarrow> (bytes, 'a) mutator" where
  "on_region e a b m buf =
     (case slice_get buf a b of
        None \<Rightarrow> (Inl e, buf)
      | Some region \<Rightarrow> let (r, region') = m region in (r, overwrite buf a region'))"

definition protect :: "Cipher \<Rightarrow> MessageHeader \<Rightarrow> NonceSource \<Rightarrow> bytes \<Rightarrow> SessionKeys \<Rightarrow> (bytes, nat) mutator" where
  "protect C h ns payload keys =
     bindE (ensureE InvalidState (\<not> mh_is_unsecured h)) (\<lambda>_.
     bindE (ensureE MessageReserved (\<not> (mh_session_type h = GroupSession \<and> mh_source h = None))) (\<lambda>_.
     bindE (mh_encode h) (\<lambda>header_len.
     bindE (liftE (nonce_resolve ns h)) (\<lambda>source.
     bindE getE (\<lambda>out.
     bindE (liftE (ok_or BufferTooSmall (slice_get out 0 header_len))) (\<lambda>aad.
     bindE (ensureE BufferTooSmall (header_len \<le> MAX_HEADER)) (\<lambda>_.
     bindE (liftE (ok_or BufferTooSmall (usize_checked_add header_len (length payload)))) (\<lambda>cipher_end.
     bindE (liftE (ok_or BufferTooSmall (usize_checked_add cipher_end AEAD_MIC_LENGTH_BYTES))) (\<lambda>total.
     bindE (on_region BufferTooSmall header_len cipher_end (\<lambda>_. (Inr (), payload))) (\<lambda>_.
     bindE (on_region BufferTooSmall header_len cipher_end
         (aead_encrypt_in_place C (sk_encryption keys)
            (nonce (security_flags_of h) (mh_message_counter h) source) aad)) (\<lambda>tag.
     bindE (on_region BufferTooSmall cipher_end total (\<lambda>_. (Inr (), tag))) (\<lambda>_.
     bindE (if mh_privacy h
            then bindE (liftE (privacy_nonce (mh_session_id h) tag)) (\<lambda>pn.
                 bindE (liftE (ok_or BufferTooSmall (usize_checked_add PRIVACY_OFFSET (privacy_len h)))) (\<lambda>pend.
                 on_region BufferTooSmall PRIVACY_OFFSET pend (privacy_xor C (sk_privacy keys) pn)))
            else retE ()) (\<lambda>_.
     retE total)))))))))))))"

record Preview =
  pv_session_id :: SessionId
  pv_session_type :: SessionType
  pv_privacy :: bool
  pv_control :: bool

definition preview :: "bytes \<Rightarrow> Preview result" where
  "preview buf =
     (if length buf < 4 then Inl MessageTruncated
      else if drop_bit 4 (buf ! 0) \<noteq> MESSAGE_FORMAT_VERSION then Inl UnsupportedVersion
      else
        let security = buf ! 3 in
        bindR (if security AND 3 = 0 then Inr Unicast
               else if security AND 3 = 1 then Inr GroupSession
               else Inl MessageReserved) (\<lambda>t.
        Inr \<lparr>pv_session_id = u16_from (take 2 (drop 1 buf)), pv_session_type = t,
             pv_privacy = (security AND 0x80 \<noteq> 0), pv_control = (security AND 0x40 \<noteq> 0)\<rparr>))"

definition privacy_len_from_flags :: "u8 \<Rightarrow> nat result" where
  "privacy_len_from_flags flags =
     (let source = (if flags AND 4 \<noteq> 0 then 8 else 0) in
      if flags AND 3 = 0 then Inr (4 + source)
      else if flags AND 3 = 1 then Inr (4 + source + 8)
      else if flags AND 3 = 2 then Inr (4 + source + 2)
      else Inl MessageReserved)"

text \<open>The privacy step of \<^verbatim>\<open>unprotect\<close>.\<close>

definition deobfuscate :: "Cipher \<Rightarrow> Preview \<Rightarrow> SessionKeys \<Rightarrow> (bytes, unit) mutator" where
  "deobfuscate C head keys buf =
     (case checked_sub (length buf) AEAD_MIC_LENGTH_BYTES of
        None \<Rightarrow> (Inl MessageTruncated, buf)
      | Some mic_start \<Rightarrow>
          bindE (liftE (ok_or MessageTruncated (slice_get buf mic_start (length buf)))) (\<lambda>mic.
          bindE (liftE (privacy_nonce (pv_session_id head) mic)) (\<lambda>pn.
          bindE (liftE (case buf of [] \<Rightarrow> Inl MessageTruncated | flags # _ \<Rightarrow> privacy_len_from_flags flags)) (\<lambda>obfuscated.
          bindE (liftE (ok_or MessageTruncated (usize_checked_add PRIVACY_OFFSET obfuscated))) (\<lambda>pend.
          on_region MessageTruncated PRIVACY_OFFSET pend (privacy_xor C (sk_privacy keys) pn))))) buf)"

text \<open>The checks of a decoded header that depend on its session type.\<close>

definition session_type_checks :: "MessageHeader \<Rightarrow> bool" where
  "session_type_checks h \<longleftrightarrow>
     (case mh_session_type h of
        Unicast \<Rightarrow> (case mh_destination h of ToGroup _ \<Rightarrow> False | _ \<Rightarrow> True)
      | GroupSession \<Rightarrow> \<not> (mh_destination h = NoDestination \<or> mh_source h = None))"

definition unprotect :: "Cipher \<Rightarrow> SessionKeys \<Rightarrow> NonceSource \<Rightarrow> (bytes, MessageHeader \<times> nat \<times> nat) mutator" where
  "unprotect C keys ns =
     bindE getE (\<lambda>buf0.
     bindE (liftE (preview buf0)) (\<lambda>head.
     bindE (if pv_privacy head then deobfuscate C head keys else retE ()) (\<lambda>_.
     bindE getE (\<lambda>buf.
     bindE (liftE (mh_decode buf)) (\<lambda>(h, rest).
     bindE (ensureE InvalidState (\<not> mh_is_unsecured h)) (\<lambda>_.
     bindE (ensureE MessageReserved (session_type_checks h)) (\<lambda>_.
     let header_len = length buf - length rest in
     bindE (ensureE MessageTruncated (header_len \<le> MAX_HEADER)) (\<lambda>_.
     bindE (liftE (ok_or MessageTruncated (slice_get buf 0 header_len))) (\<lambda>aad.
     bindE (liftE (ok_or MessageTruncated (checked_sub (length buf) AEAD_MIC_LENGTH_BYTES))) (\<lambda>mic_start.
     bindE (ensureE MessageTruncated (header_len \<le> mic_start)) (\<lambda>_.
     bindE (liftE (ok_or MessageTruncated (slice_get buf mic_start (length buf)))) (\<lambda>tag.
     bindE (liftE (nonce_resolve ns h)) (\<lambda>source.
     bindE (on_region MessageTruncated header_len mic_start
         (aead_decrypt_in_place C (sk_encryption keys)
            (nonce (security_flags_of h) (mh_message_counter h) source) aad tag)) (\<lambda>_.
     retE (h, header_len, mic_start)))))))))))))))"

section \<open>The privacy key stream\<close>

definition cipher_ok :: "Cipher \<Rightarrow> bool" where
  "cipher_ok C \<longleftrightarrow>
     (\<forall>key n aad p. length key = 16 \<and> length n = 13 \<and> length aad \<le> 24 \<and> length p \<le> 65535 \<longrightarrow>
        (\<exists>c tag. ccm_encrypt C key n aad p = Some (c, tag) \<and> length c = length p \<and> length tag = 16
          \<and> ccm_decrypt C key n aad c tag = (True, p)))
   \<and> (\<forall>key n aad c tag. length (snd (ccm_decrypt C key n aad c tag)) = length c)
   \<and> (\<forall>key b. length key = 16 \<and> length b = 16 \<longrightarrow> length (aes_block C key b) = 16)"

lemma cipher_okD:
  assumes "cipher_ok C" and "length key = 16"
  shows "length n = 13 \<Longrightarrow> length aad \<le> 24 \<Longrightarrow> length p \<le> 65535 \<Longrightarrow>
      \<exists>c tag. ccm_encrypt C key n aad p = Some (c, tag) \<and> length c = length p \<and> length tag = 16
        \<and> ccm_decrypt C key n aad c tag = (True, p)"
    and "length b = 16 \<Longrightarrow> length (aes_block C key b) = 16"
  using assms by (auto simp: cipher_ok_def)

lemma length_be [simp]: "length (u16_be_bytes v) = 2"
  by (simp add: u16_be_bytes_def)

lemma map2_xor_xor: "length xs \<le> length ks \<Longrightarrow> map2 (XOR) (map2 (XOR) xs ks) ks = (xs :: u8 list)"
proof (induction xs arbitrary: ks)
  case (Cons x xs)
  then show ?case by (cases ks) (auto simp: xor.assoc)
qed simp

lemma privacy_chunks_involution:
  assumes "cipher_ok C" and "length key = 16" and "length n = 13"
    and "length buf \<le> 16 * (65536 - i)"
  shows "\<exists>buf'. privacy_chunks C key n i buf = (Inr (), buf')
    \<and> length buf' = length buf \<and> privacy_chunks C key n i buf' = (Inr (), buf)"
  using assms
proof (induction C key n i buf rule: privacy_chunks.induct)
  case (1 C key n i buf)
  show ?case
  proof (cases "buf = []")
    case True
    then show ?thesis by (simp add: privacy_chunks.simps)
  next
    case False
    let ?k = "aes_block C key (counter_block n (word_of_nat i))"
    let ?c = "map2 (XOR) (take 16 buf) ?k"
    have i: "\<not> 65535 < i" using 1(5) False by (cases buf) auto
    have k: "length ?k = 16"
      by (rule cipher_okD(2) [OF 1(2,3)]) (simp add: counter_block_def 1(4))
    have "length (drop 16 buf) \<le> 16 * (65536 - Suc i)" using 1(5) i by simp
    then obtain rest where r: "privacy_chunks C key n (Suc i) (drop 16 buf) = (Inr (), rest)"
        "length rest = length (drop 16 buf)" "privacy_chunks C key n (Suc i) rest = (Inr (), drop 16 buf)"
      using 1(1) [OF False i refl 1(2-4)] by blast
    have len: "length ?c = min 16 (length buf)" using k by simp
    have t: "take 16 (?c @ rest) = ?c" "drop 16 (?c @ rest) = rest"
      using len r(2) by (cases "length buf \<le> 16"; simp)+
    have "?c @ rest \<noteq> []" using False len by (cases buf) auto
    moreover have "map2 (XOR) ?c ?k = take 16 buf" using k by (intro map2_xor_xor) simp
    ultimately have "privacy_chunks C key n i (?c @ rest) = (Inr (), buf)"
      using i r(3) t by (subst privacy_chunks.simps) (simp only: Let_def if_False prod.case append_take_drop_id)
    moreover have "privacy_chunks C key n i buf = (Inr (), ?c @ rest)"
      using False i r(1) by (subst privacy_chunks.simps) (simp only: Let_def if_False prod.case)
    moreover have "length (?c @ rest) = length buf" using len r(2) by simp
    ultimately show ?thesis by blast
  qed
qed

lemma privacy_xor_involution:
  assumes "cipher_ok C" and "length key = 16" and "length n = 13" and "length buf \<le> 1048576"
  obtains buf' where "privacy_xor C key n buf = (Inr (), buf')" and "length buf' = length buf"
    and "privacy_xor C key n buf' = (Inr (), buf)"
proof -
  have "\<not> 65536 < (length buf + 15) div 16" using assms(4) by simp
  then show ?thesis
    using privacy_chunks_involution [OF assms(1-3), of buf 0] assms(4) that by (auto simp: privacy_xor_def)
qed

section \<open>The octets of a protected message\<close>

lemma slice_get_append:
  "a = length xs \<Longrightarrow> b = length xs + length ys \<Longrightarrow> slice_get (xs @ ys @ zs) a b = Some ys"
  by (simp add: slice_get_def)

lemma on_region_append:
  assumes "m ys = (r, ys')" and "length ys' = length ys" and "a = length xs" and "b = length xs + length ys"
  shows "on_region e a b m (xs @ ys @ zs) = (r, xs @ ys' @ zs)"
  using assms by (simp add: on_region_def slice_get_append overwrite_def)

lemma on_region_short: "length buf < b \<Longrightarrow> on_region e a b m buf = (Inl e, buf)"
  by (simp add: on_region_def slice_get_def)

lemma security_flags_of_wire: "security_flags_of h = mh_security h"
  by (cases "mh_session_type h") (simp_all add: security_flags_of_def mh_security_def PRIVACY_def CONTROL_def)

lemma length_nonce [simp]: "length (nonce s c n) = 13"
  by (simp add: nonce_def)

lemma privacy_nonce_mic: "length mic = 16 \<Longrightarrow> privacy_nonce s mic = Inr (u16_be_bytes s @ drop 5 mic)"
  by (simp add: privacy_nonce_def slice_get_def)

lemma mh_bytes_split:
  obtains x where "mh_bytes h = [mh_flags h] @ u16_bytes (mh_session_id h) @ [mh_security h] @ x"
    and "length x = privacy_len h" and "privacy_len h \<le> 20"
proof
  show "mh_bytes h = [mh_flags h] @ u16_bytes (mh_session_id h) @ [mh_security h] @ u32_bytes (mh_message_counter h)
     @ (case mh_source h of None \<Rightarrow> [] | Some n \<Rightarrow> u64_bytes n)
     @ (case mh_destination h of NoDestination \<Rightarrow> [] | ToNode n \<Rightarrow> u64_bytes n
        | ToGroup g \<Rightarrow> u16_bytes g)" by (simp only: mh_bytes_def)
qed (auto simp: privacy_len_def split: option.splits Destination.splits)

lemma privacy_len_flags: "privacy_len_from_flags (mh_flags h) = Inr (privacy_len h)"
  by (cases "mh_source h"; cases "mh_destination h")
    (simp_all add: privacy_len_from_flags_def privacy_len_def mh_flags_def flag_defs)

lemma preview_head:
  "preview ([mh_flags h] @ u16_bytes (mh_session_id h) @ [mh_security h] @ r)
    = Inr \<lparr>pv_session_id = mh_session_id h, pv_session_type = mh_session_type h,
           pv_privacy = mh_privacy h, pv_control = mh_control h\<rparr>"
proof -
  have f: "drop_bit 4 (mh_flags h) = MESSAGE_FORMAT_VERSION"
    by (cases "mh_source h"; cases "mh_destination h") (simp_all add: mh_flags_def flag_defs)
  have s: "(if mh_security h AND 3 = 0 then Inr Unicast else if mh_security h AND 3 = 1 then Inr GroupSession
      else Inl MessageReserved) = Inr (mh_session_type h)"
    "(mh_security h AND 0x80 \<noteq> 0) = mh_privacy h" "(mh_security h AND 0x40 \<noteq> 0) = mh_control h"
    by (cases "mh_session_type h"; cases "mh_privacy h"; cases "mh_control h";
        simp add: mh_security_def PRIVACY_def CONTROL_def)+
  obtain a b where ab: "u16_bytes (mh_session_id h) = [a, b]"
    by (simp add: u16_bytes_def numeral_2_eq_2)
  have "u16_from [a, b] = mh_session_id h" using uN_from_bytes(1) [of "mh_session_id h"] ab by simp
  then show ?thesis
    using f s by (simp add: preview_def ab Let_def)
qed

lemma split_buffer:
  assumes "a + b + c \<le> length (xs :: 'a list)"
  obtains as bs cs rest where "xs = as @ bs @ cs @ rest" and "length as = a" and "length bs = b" and "length cs = c"
    and "rest = drop (a + b + c) xs"
proof
  show "xs = take a xs @ take b (drop a xs) @ take c (drop (a + b) xs) @ drop (a + b + c) xs"
    by (metis add.assoc add.commute append_take_drop_id drop_drop)
qed (use assms in simp_all)

text \<open>What \<^verbatim>\<open>protect\<close> leaves in the caller's buffer.\<close>

definition sealed :: "Cipher \<Rightarrow> MessageHeader \<Rightarrow> NodeId \<Rightarrow> SessionKeys \<Rightarrow> bytes \<Rightarrow> bytes \<Rightarrow> bytes \<Rightarrow> bytes \<Rightarrow> bool" where
  "sealed C h source keys payload x ct tag \<longleftrightarrow>
     length ct = length payload \<and> length tag = 16 \<and> length x = privacy_len h
   \<and> ccm_decrypt C (sk_encryption keys) (nonce (security_flags_of h) (mh_message_counter h) source) (mh_bytes h) ct tag
       = (True, payload)
   \<and> (\<exists>y. mh_bytes h = ([mh_flags h] @ u16_bytes (mh_session_id h) @ [mh_security h]) @ y
       \<and> (if mh_privacy h
          then privacy_xor C (sk_privacy keys) (u16_be_bytes (mh_session_id h) @ drop 5 tag) x = (Inr (), y)
          else x = y))"

lemma protect_seals:
  assumes C: "cipher_ok C" and k: "length (sk_encryption keys) = 16" "length (sk_privacy keys) = 16"
    and h: "\<not> mh_is_unsecured h" "mh_session_type h = GroupSession \<longrightarrow> mh_source h \<noteq> None"
    and n: "nonce_resolve ns h = Inr source" and p: "length payload \<le> 65535"
    and out: "length out \<le> USIZE_MAX" "mh_encoded_len h + length payload + 16 \<le> length out"
  obtains x ct tag where "sealed C h source keys payload x ct tag"
    and "protect C h ns payload keys out = (Inr (mh_encoded_len h + length payload + 16),
      ([mh_flags h] @ u16_bytes (mh_session_id h) @ [mh_security h]) @ x @ ct @ tag
      @ drop (mh_encoded_len h + length payload + 16) out)"
proof -
  let ?H = "[mh_flags h] @ u16_bytes (mh_session_id h) @ [mh_security h]"
  let ?n = "nonce (security_flags_of h) (mh_message_counter h) source" and ?hl = "mh_encoded_len h"
  obtain y where y: "mh_bytes h = ?H @ y" "length y = privacy_len h" "privacy_len h \<le> 20"
    by (rule mh_bytes_split [of h]) auto
  have hl: "?hl = 4 + length y" "?hl \<le> 24" using y length_mh_bytes [of h] by auto
  obtain as bs cs R where o: "out = as @ bs @ cs @ R" "length as = ?hl" "length bs = length payload"
      "length cs = 16" "R = drop (?hl + length payload + 16) out"
    by (rule split_buffer [OF out(2)]) 
  obtain ct tag where ct: "ccm_encrypt C (sk_encryption keys) ?n (mh_bytes h) payload = Some (ct, tag)"
      "length ct = length payload" "length tag = 16"
      "ccm_decrypt C (sk_encryption keys) ?n (mh_bytes h) ct tag = (True, payload)"
    using cipher_okD(1) [OF C k(1), of ?n "mh_bytes h" payload] hl p by (auto simp: length_mh_bytes)
  let ?pn = "u16_be_bytes (mh_session_id h) @ drop 5 tag"
  obtain y' where y': "privacy_xor C (sk_privacy keys) ?pn y = (Inr (), y')" "length y' = length y"
      "privacy_xor C (sk_privacy keys) ?pn y' = (Inr (), y)"
    by (rule privacy_xor_involution [OF C k(2), of ?pn y]) (use ct y in auto)
  let ?x = "if mh_privacy h then y' else y"
  have enc: "mh_encode h out = (Inr ?hl, mh_bytes h @ bs @ cs @ R)"
    using encode_into_emits(1) [OF mh_write_emits out(1), of h] out(2) o(1,2)
    by (simp add: mh_encode_def length_mh_bytes)
  have us: "?hl + length payload + 16 \<le> USIZE_MAX" "4 + privacy_len h \<le> USIZE_MAX"
    using out y by (auto simp: USIZE_MAX_def)
  have aad: "slice_get (mh_bytes h @ bs @ cs @ R) 0 ?hl = Some (mh_bytes h)"
    using slice_get_append [of 0 "[]" ?hl "mh_bytes h"] by (simp add: length_mh_bytes)
  have s1: "on_region BufferTooSmall ?hl (?hl + length payload) (\<lambda>_. (Inr (), payload)) (mh_bytes h @ bs @ cs @ R)
      = (Inr (), mh_bytes h @ payload @ cs @ R)"
    using o by (intro on_region_append) (auto simp: length_mh_bytes)
  have s2: "on_region BufferTooSmall ?hl (?hl + length payload)
      (aead_encrypt_in_place C (sk_encryption keys) ?n (mh_bytes h)) (mh_bytes h @ payload @ cs @ R)
      = (Inr tag, mh_bytes h @ ct @ cs @ R)"
    using ct by (intro on_region_append) (auto simp: length_mh_bytes aead_encrypt_in_place_def)
  have s3: "on_region BufferTooSmall (?hl + length payload) (?hl + length payload + 16) (\<lambda>_. (Inr (), tag))
      ((mh_bytes h @ ct) @ cs @ R) = (Inr (), (mh_bytes h @ ct) @ tag @ R)"
    using ct o by (intro on_region_append) (auto simp: length_mh_bytes)
  have s4: "on_region BufferTooSmall 4 (4 + privacy_len h) (privacy_xor C (sk_privacy keys) ?pn) (?H @ y @ ct @ tag @ R)
      = (Inr (), ?H @ y' @ ct @ tag @ R)"
    using y y' by (intro on_region_append) auto
  have "protect C h ns payload keys out = (Inr (?hl + length payload + 16), ?H @ ?x @ ct @ tag @ R)"
    using h n enc us aad s1 s2 s3 s4 hl y(1) privacy_nonce_mic [OF ct(3)]
    by (auto simp: protect_def MAX_HEADER_def usize_checked_add_def AEAD_MIC_LENGTH_BYTES_def PRIVACY_OFFSET_def)
  moreover have "sealed C h source keys payload ?x ct tag"
    unfolding sealed_def using ct y y' by auto
  ultimately show ?thesis using that o(5) by auto
qed

lemma slice_get_suffix: "length tag = k \<Longrightarrow> slice_get (xs @ tag) (length (xs @ tag) - k) (length (xs @ tag)) = Some tag"
  by (simp add: slice_get_def)

lemma unprotect_opens:
  assumes s: "sealed C h source keys payload x ct tag" and n: "nonce_resolve ns h = Inr source"
    and h: "\<not> mh_is_unsecured h" "session_type_checks h"
    and l: "mh_encoded_len h + length payload + 16 \<le> USIZE_MAX"
  shows "unprotect C keys ns (([mh_flags h] @ u16_bytes (mh_session_id h) @ [mh_security h]) @ x @ ct @ tag)
    = (Inr (h, mh_encoded_len h, mh_encoded_len h + length payload), mh_bytes h @ payload @ tag)"
proof -
  let ?H = "[mh_flags h] @ u16_bytes (mh_session_id h) @ [mh_security h]" and ?hl = "mh_encoded_len h"
  let ?n = "nonce (security_flags_of h) (mh_message_counter h) source" and ?b = "(?H @ x @ ct) @ tag"
  let ?pv = "\<lparr>pv_session_id = mh_session_id h, pv_session_type = mh_session_type h, pv_privacy = mh_privacy h,
      pv_control = mh_control h\<rparr>"
  obtain y where y: "mh_bytes h = ?H @ y" "if mh_privacy h
          then privacy_xor C (sk_privacy keys) (u16_be_bytes (mh_session_id h) @ drop 5 tag) x = (Inr (), y)
          else x = y" and ct: "length ct = length payload" "length tag = 16" "length x = privacy_len h"
      "ccm_decrypt C (sk_encryption keys) ?n (mh_bytes h) ct tag = (True, payload)"
    using s unfolding sealed_def by blast
  have ly: "length y = privacy_len h" "privacy_len h \<le> 20"
    using y(1) mh_bytes_split [of h] by (metis append_same_eq append.assoc same_append_eq)+
  have hl: "?hl = 4 + length y" using y length_mh_bytes [of h] by auto
  have hl24: "?hl \<le> 24" using hl ly by simp
  have pv: "preview ?b = Inr ?pv" using preview_head [of h "x @ ct @ tag"] by simp
  have mic: "slice_get ?b (length ?b - 16) (length ?b) = Some tag"
    by (rule slice_get_suffix [OF ct(2)])
  have s4: "on_region MessageTruncated 4 (4 + privacy_len h) (privacy_xor C (sk_privacy keys)
      (u16_be_bytes (mh_session_id h) @ drop 5 tag)) (?H @ x @ ct @ tag) = (Inr (), ?H @ y @ ct @ tag)" if "mh_privacy h"
    using y(2) ct ly that by (intro on_region_append) auto
  have deob: "deobfuscate C ?pv keys ?b = (Inr (), mh_bytes h @ ct @ tag)" if "mh_privacy h"
    using s4 [OF that] mic ct(2) ly y(1) privacy_nonce_mic [OF ct(2)] privacy_len_flags [of h]
    by (simp add: deobfuscate_def checked_sub_def AEAD_MIC_LENGTH_BYTES_def PRIVACY_OFFSET_def usize_checked_add_def
        USIZE_MAX_def)
  have step: "(if mh_privacy h then deobfuscate C ?pv keys else retE ()) ?b = (Inr (), mh_bytes h @ ct @ tag)"
    using deob y by auto
  have dec: "mh_decode (mh_bytes h @ ct @ tag) = Inr (h, ct @ tag)"
    using l ct by (intro mhc.dec_enc) (auto simp: length_mh_bytes)
  have aad: "slice_get (mh_bytes h @ ct @ tag) 0 ?hl = Some (mh_bytes h)"
    using slice_get_append [of 0 "[]" ?hl "mh_bytes h"] by (simp add: length_mh_bytes)
  have mic2: "slice_get (mh_bytes h @ ct @ tag) (?hl + length payload) (?hl + (length payload + 16)) = Some tag"
    using ct by (simp add: slice_get_def length_mh_bytes)
  have op: "on_region MessageTruncated ?hl (?hl + length payload)
      (aead_decrypt_in_place C (sk_encryption keys) ?n (mh_bytes h) tag) (mh_bytes h @ ct @ tag)
      = (Inr (), mh_bytes h @ payload @ tag)"
    using ct by (intro on_region_append) (auto simp: length_mh_bytes aead_decrypt_in_place_def)
  have "unprotect C keys ns ?b = (Inr (h, ?hl, ?hl + length payload), mh_bytes h @ payload @ tag)"
    using pv step dec aad mic2 op h n ct(1,2) hl24
    by (simp add: unprotect_def MAX_HEADER_def checked_sub_def AEAD_MIC_LENGTH_BYTES_def length_mh_bytes Let_def)
  then show ?thesis by simp
qed

lemma privacy_len_from_flags_cases:
  "privacy_len_from_flags f = Inl MessageReserved \<or> (\<exists>n \<le> 20. privacy_len_from_flags f = Inr n)"
  by (auto simp: privacy_len_from_flags_def Let_def)

lemma preview_errors:
  "preview buf = Inl e \<Longrightarrow> e \<in> {MessageTruncated, UnsupportedVersion, MessageReserved}"
  by (auto simp: preview_def Let_def split: if_splits)

lemma deobfuscate_outcome:
  assumes "cipher_ok C" and "length (sk_privacy keys) = 16"
  obtains (failed) e where "deobfuscate C pv keys buf = (Inl e, buf)" and "e \<in> {MessageTruncated, MessageReserved}"
    | (opened) clear where "deobfuscate C pv keys buf = (Inr (), clear)" and "length clear = length buf"
proof (cases "16 \<le> length buf")
  case False
  then show ?thesis by (intro failed [of MessageTruncated]) (auto simp: deobfuscate_def checked_sub_def AEAD_MIC_LENGTH_BYTES_def)
next
  case True
  then obtain f fs where f: "buf = f # fs" by (cases buf) auto
  let ?m = "length buf - 16"
  have mic: "slice_get buf ?m (length buf) = Some (drop ?m buf)" "length (drop ?m buf) = 16"
    using True by (auto simp: slice_get_def)
  note pn = privacy_nonce_mic [OF mic(2)]
  have us: "n \<le> 20 \<Longrightarrow> usize_checked_add 4 n = Some (4 + n)" for n
    by (simp add: usize_checked_add_def USIZE_MAX_def)
  have deob: "deobfuscate C pv keys buf = bindE (liftE (privacy_len_from_flags f)) (\<lambda>obfuscated.
      bindE (liftE (ok_or MessageTruncated (usize_checked_add 4 obfuscated))) (\<lambda>pend.
      on_region MessageTruncated 4 pend (privacy_xor C (sk_privacy keys)
        (u16_be_bytes (pv_session_id pv) @ drop 5 (drop ?m buf))))) buf"
    using True mic(1) pn
    by (simp add: deobfuscate_def checked_sub_def AEAD_MIC_LENGTH_BYTES_def PRIVACY_OFFSET_def)
      (simp add: f)
  show ?thesis
  proof (cases "privacy_len_from_flags f")
    case (Inl e)
    then show ?thesis using deob privacy_len_from_flags_cases [of f] by (intro failed [of e]) auto
  next
    case (Inr n)
    have n: "n \<le> 20" using privacy_len_from_flags_cases [of f] Inr by auto
    show ?thesis
    proof (cases "4 + n \<le> length buf")
      case False
      then show ?thesis using deob Inr us [OF n] by (intro failed [of MessageTruncated]) (auto simp: on_region_short)
    next
      case le: True
      let ?r = "take n (drop 4 buf)"
      obtain r where r: "privacy_xor C (sk_privacy keys) (u16_be_bytes (pv_session_id pv) @ drop 5 (drop ?m buf)) ?r
          = (Inr (), r)" "length r = length ?r"
        by (rule privacy_xor_involution [OF assms, of "u16_be_bytes (pv_session_id pv) @ drop 5 (drop ?m buf)" ?r])
          (use n mic in auto)
      then show ?thesis using deob Inr us [OF n] le
        by (intro opened [of "overwrite buf 4 r"]) (auto simp: on_region_def slice_get_def)
    qed
  qed
qed

text \<open>The second half of \<^verbatim>\<open>unprotect\<close>, on the de-obfuscated octets.\<close>

definition open_clear :: "Cipher \<Rightarrow> SessionKeys \<Rightarrow> NonceSource \<Rightarrow> bytes \<Rightarrow> (MessageHeader \<times> nat \<times> nat) result \<times> bytes" where
  "open_clear C keys ns clear =
     (case mh_decode clear of
        Inl e \<Rightarrow> (Inl e, clear)
      | Inr (h, rest) \<Rightarrow>
          if mh_is_unsecured h then (Inl InvalidState, clear)
          else if \<not> session_type_checks h then (Inl MessageReserved, clear)
          else if length clear - length rest > 24 \<or> length clear < 16
              \<or> length clear - 16 < length clear - length rest then (Inl MessageTruncated, clear)
          else case nonce_resolve ns h of
            Inl e \<Rightarrow> (Inl e, clear)
          | Inr source \<Rightarrow>
              let a = length clear - length rest; b = length clear - 16;
                  (ok, plain) = ccm_decrypt C (sk_encryption keys)
                    (nonce (security_flags_of h) (mh_message_counter h) source)
                    (take a clear) (take (b - a) (drop a clear)) (drop b clear) in
              (if ok then Inr (h, a, b) else Inl IntegrityCheckFailed, overwrite clear a plain))"

lemma unprotect_open_clear:
  "unprotect C keys ns buf =
     (case preview buf of
        Inl e \<Rightarrow> (Inl e, buf)
      | Inr head \<Rightarrow> bindE (if pv_privacy head then deobfuscate C head keys else retE ()) (\<lambda>_. open_clear C keys ns) buf)"
proof -
  have rest: "bindE getE (\<lambda>buf.
     bindE (liftE (mh_decode buf)) (\<lambda>(h, rest).
     bindE (ensureE InvalidState (\<not> mh_is_unsecured h)) (\<lambda>_.
     bindE (ensureE MessageReserved (session_type_checks h)) (\<lambda>_.
     let header_len = length buf - length rest in
     bindE (ensureE MessageTruncated (header_len \<le> MAX_HEADER)) (\<lambda>_.
     bindE (liftE (ok_or MessageTruncated (slice_get buf 0 header_len))) (\<lambda>aad.
     bindE (liftE (ok_or MessageTruncated (checked_sub (length buf) AEAD_MIC_LENGTH_BYTES))) (\<lambda>mic_start.
     bindE (ensureE MessageTruncated (header_len \<le> mic_start)) (\<lambda>_.
     bindE (liftE (ok_or MessageTruncated (slice_get buf mic_start (length buf)))) (\<lambda>tag.
     bindE (liftE (nonce_resolve ns h)) (\<lambda>source.
     bindE (on_region MessageTruncated header_len mic_start
         (aead_decrypt_in_place C (sk_encryption keys)
            (nonce (security_flags_of h) (mh_message_counter h) source) aad tag)) (\<lambda>_.
     retE (h, header_len, mic_start)))))))))))) = open_clear C keys ns"
    by (rule ext) (auto simp: open_clear_def Let_def MAX_HEADER_def AEAD_MIC_LENGTH_BYTES_def checked_sub_def slice_get_def
        on_region_def aead_decrypt_in_place_def case_prod_beta bindE_def split: sum.splits)
  show ?thesis
    unfolding unprotect_def rest by (cases "preview buf") simp_all
qed

lemma open_clear_outcome:
  assumes "cipher_ok C" and "length clear \<le> USIZE_MAX"
  shows "case open_clear C keys ns clear of
      (Inl e, _) \<Rightarrow> e \<in> {MessageTruncated, UnsupportedVersion, MessageReserved, InvalidState, IntegrityCheckFailed}
    | (Inr (h, a, b), buf') \<Rightarrow> \<exists>source. a \<le> b \<and> b + 16 = length clear \<and> mh_decode clear = Inr (h, drop a clear)
        \<and> \<not> mh_is_unsecured h \<and> session_type_checks h \<and> nonce_resolve ns h = Inr source
        \<and> ccm_decrypt C (sk_encryption keys) (nonce (mh_security h) (mh_message_counter h) source)
            (take a clear) (take (b - a) (drop a clear)) (drop b clear) = (True, take (b - a) (drop a buf'))"
proof (cases "mh_decode clear")
  case (Inl e)
  then show ?thesis
    using decode_from_moves [OF mh_read_moves assms(2)] by (auto simp: open_clear_def mh_decode_def)
next
  case (Inr hr)
  then obtain h rest where d: "mh_decode clear = Inr (h, rest)" by (cases hr) auto
  let ?a = "length clear - length rest" and ?b = "length clear - 16"
  have rest: "length rest \<le> length clear" "rest = drop ?a clear"
    using decode_from_moves [OF mh_read_moves assms(2)] d by (auto simp: mh_decode_def)
  have ns: "nonce_resolve ns h = Inl e \<Longrightarrow> e = MessageReserved" for e
    by (cases ns) (auto simp: ok_or_def split: option.splits)
  show ?thesis
  proof (cases "mh_is_unsecured h \<or> \<not> session_type_checks h \<or> ?a > 24 \<or> length clear < 16 \<or> ?b < ?a
      \<or> isl (nonce_resolve ns h)")
    case True
    then show ?thesis using d ns by (auto simp: open_clear_def isl_def split: sum.splits)
  next
    case False
    then obtain source where s: "nonce_resolve ns h = Inr source" by (auto simp: isl_def) (meson sum.exhaust)
    obtain ok plain where p: "ccm_decrypt C (sk_encryption keys)
        (nonce (security_flags_of h) (mh_message_counter h) source)
        (take ?a clear) (take (?b - ?a) (drop ?a clear)) (drop ?b clear) = (ok, plain)" by (cases "ccm_decrypt C (sk_encryption keys)
        (nonce (security_flags_of h) (mh_message_counter h) source)
        (take ?a clear) (take (?b - ?a) (drop ?a clear)) (drop ?b clear)")
    have "length plain = ?b - ?a"
    proof -
      have "length (snd (ccm_decrypt C (sk_encryption keys) (nonce (security_flags_of h) (mh_message_counter h) source)
          (take ?a clear) (take (?b - ?a) (drop ?a clear)) (drop ?b clear))) = length (take (?b - ?a) (drop ?a clear))"
        using assms(1) by (simp only: cipher_ok_def)
      then show ?thesis unfolding p by simp
    qed
    then have t: "take (?b - ?a) (drop ?a (overwrite clear ?a plain)) = plain" by (simp add: overwrite_def)
    have "open_clear C keys ns clear = (if ok then Inr (h, ?a, ?b) else Inl IntegrityCheckFailed, overwrite clear ?a plain)"
      using False d s p by (simp add: open_clear_def Let_def)
    then show ?thesis
      using False d s p t rest by (auto simp: security_flags_of_wire)
  qed
qed

lemma split_at_length: "length w = n \<Longrightarrow> take n (w @ r) = w" "length w = n \<Longrightarrow> drop n (w @ r) = r"
  by auto

lemma protect_unprotect:
  assumes "cipher_ok C" and "length (sk_encryption keys) = 16" and "length (sk_privacy keys) = 16"
    and "\<not> mh_is_unsecured h" and "session_type_checks h" and "nonce_resolve ns h = Inr source"
    and "length payload \<le> 65535" and "length out \<le> USIZE_MAX"
    and "sent = mh_encoded_len h + length payload + 16" and "sent \<le> length out"
  shows "\<exists>out' buf'. protect C h ns payload keys out = (Inr sent, out') \<and> drop sent out' = drop sent out
    \<and> unprotect C keys ns (take sent out') = (Inr (h, mh_encoded_len h, mh_encoded_len h + length payload), buf')
    \<and> slice_get buf' (mh_encoded_len h) (mh_encoded_len h + length payload) = Some payload"
proof -
  have g: "mh_session_type h = GroupSession \<longrightarrow> mh_source h \<noteq> None"
    using assms(5) by (auto simp: session_type_checks_def)
  let ?H = "[mh_flags h] @ u16_bytes (mh_session_id h) @ [mh_security h]"
  obtain x ct tag where s: "sealed C h source keys payload x ct tag"
      and p: "protect C h ns payload keys out = (Inr sent, ?H @ x @ ct @ tag @ drop sent out)"
    by (rule protect_seals [OF assms(1-4) g assms(6-8) assms(10) [unfolded assms(9)]]) (simp add: assms(9))
  have l: "length (?H @ x @ ct @ tag) = sent"
    using s assms(9) length_mh_bytes [of h] by (auto simp: sealed_def privacy_len_def mh_encoded_len_def
        split: Destination.splits)
  have u: "unprotect C keys ns (?H @ x @ ct @ tag)
      = (Inr (h, mh_encoded_len h, mh_encoded_len h + length payload), mh_bytes h @ payload @ tag)"
    using unprotect_opens [OF s assms(6,4,5)] assms(8-10) by simp
  have "slice_get (mh_bytes h @ payload @ tag) (mh_encoded_len h) (mh_encoded_len h + length payload) = Some payload"
    by (intro slice_get_append) (simp_all add: length_mh_bytes)
  moreover have "take sent ((?H @ x @ ct @ tag) @ drop sent out) = ?H @ x @ ct @ tag"
      "drop sent ((?H @ x @ ct @ tag) @ drop sent out) = drop sent out" by (rule split_at_length [OF l])+
  ultimately show ?thesis using p u
    by (intro exI [of _ "?H @ x @ ct @ tag @ drop sent out"] exI [of _ "mh_bytes h @ payload @ tag"]) simp
qed

section \<open>Properties\<close>

text \<open>C2: A message that \<^verbatim>\<open>protect\<close> accepts is \<^verbatim>\<open>header || ciphertext || MIC\<close>, of exactly that length and
  with nothing else of the buffer touched, and a receiver with the same keys recovers from it
  the header and the payload, with the privacy obfuscation and without.\<close>

theorem protected_message_roundtrip:
  assumes "cipher_ok C" and "length (sk_encryption keys) = 16" and "length (sk_privacy keys) = 16"
    and "\<not> mh_is_unsecured h" and "session_type_checks h" and "nonce_resolve ns h = Inr source"
    and "length payload \<le> 65535" and "length out \<le> USIZE_MAX"
    and "sent = mh_encoded_len h + length payload + 16" and "sent \<le> length out"
  shows "\<exists>out' buf'. protect C h ns payload keys out = (Inr sent, out') \<and> drop sent out' = drop sent out
    \<and> unprotect C keys ns (take sent out') = (Inr (h, mh_encoded_len h, mh_encoded_len h + length payload), buf')
    \<and> slice_get buf' (mh_encoded_len h) (mh_encoded_len h + length payload) = Some payload"
  by (rule protect_unprotect [OF assms])

text \<open>A cipher with the laws that \<open>cipher_ok\<close> states: a fixed key stream and a checksum of the associated data.\<close>

definition demo_cipher :: Cipher where
  "demo_cipher = \<lparr>ccm_encrypt = (\<lambda>key n aad p. Some (map ((XOR) 0x5A) p, replicate 16 (sum_list aad))),
     ccm_decrypt = (\<lambda>key n aad c tag. (tag = replicate 16 (sum_list aad), map ((XOR) 0x5A) c)),
     aes_block = (\<lambda>key b. map2 (XOR) key b)\<rparr>"

lemma demo_cipher_ok: "cipher_ok demo_cipher"
proof -
  have "map ((XOR) 0x5A \<circ> (XOR) (0x5A :: u8)) p = p" for p
    by (simp add: comp_def xor.assoc [symmetric])
  then show ?thesis by (simp add: cipher_ok_def demo_cipher_def)
qed

theorem protected_message_roundtrip_witness:
  "\<exists>out' buf'. protect demo_cipher (mh_default\<lparr>mh_session_id := 5, mh_privacy := True\<rparr>) (CaseNonce 9) [1, 2, 3]
      \<lparr>sk_encryption = replicate 16 7, sk_privacy = replicate 16 8\<rparr> (replicate 30 0) = (Inr 27, out')
    \<and> unprotect demo_cipher \<lparr>sk_encryption = replicate 16 7, sk_privacy = replicate 16 8\<rparr> (CaseNonce 9) (take 27 out')
      = (Inr (mh_default\<lparr>mh_session_id := 5, mh_privacy := True\<rparr>, 8, 11), buf')
    \<and> slice_get buf' 8 11 = Some [1, 2, 3]"
  using protected_message_roundtrip [OF demo_cipher_ok,
      where keys = "\<lparr>sk_encryption = replicate 16 7, sk_privacy = replicate 16 8\<rparr>" and payload = "[1, 2, 3]"
        and h = "mh_default\<lparr>mh_session_id := 5, mh_privacy := True\<rparr>" and ns = "CaseNonce 9" and out = "replicate 30 0"
        and source = 9 and sent = 27]
  by (auto simp: mh_default_def mh_is_unsecured_def session_type_checks_def mh_encoded_len_def USIZE_MAX_def)

text \<open>C25: On any octets whatever \<^verbatim>\<open>unprotect\<close> returns one of five errors or a header and a payload range
  that the cipher has authenticated: the tag in the last 16 octets was checked over the header
  octets as they stand after the privacy step, under the nonce of that same header, and the
  range ends right before the tag.\<close>

theorem unprotect_authenticates:
  assumes "cipher_ok C" and "length (sk_privacy keys) = 16" and "length buf \<le> USIZE_MAX"
  shows "case unprotect C keys ns buf of
      (Inl e, _) \<Rightarrow> e \<in> {MessageTruncated, UnsupportedVersion, MessageReserved, InvalidState, IntegrityCheckFailed}
    | (Inr (h, a, b), buf') \<Rightarrow> \<exists>head clear source. preview buf = Inr head
        \<and> (if pv_privacy head then deobfuscate C head keys buf = (Inr (), clear) else clear = buf)
        \<and> a \<le> b \<and> b + 16 = length buf \<and> mh_decode clear = Inr (h, drop a clear)
        \<and> \<not> mh_is_unsecured h \<and> session_type_checks h \<and> nonce_resolve ns h = Inr source
        \<and> ccm_decrypt C (sk_encryption keys) (nonce (mh_security h) (mh_message_counter h) source)
            (take a clear) (take (b - a) (drop a clear)) (drop b clear) = (True, take (b - a) (drop a buf'))"
proof (cases "preview buf")
  case (Inl e)
  then show ?thesis using preview_errors [OF Inl] by (auto simp: unprotect_open_clear)
next
  case (Inr head)
  have finish: ?thesis if u: "unprotect C keys ns buf = open_clear C keys ns clear" and l: "length clear = length buf"
    and c: "if pv_privacy head then deobfuscate C head keys buf = (Inr (), clear) else clear = buf" for clear
  proof -
    obtain r buf' where o: "open_clear C keys ns clear = (r, buf')" by (cases "open_clear C keys ns clear")
    have "length clear \<le> USIZE_MAX" using assms(3) l by simp
    note out = open_clear_outcome [OF assms(1) this, where keys = keys and ns = ns, unfolded o]
    show ?thesis
    proof (cases r)
      case (Inl e)
      then show ?thesis using out by (simp add: u o)
    next
      case r: (Inr hab)
      obtain h a b where hab: "hab = (h, a, b)" by (cases hab)
      show ?thesis
        unfolding u o r hab prod.case sum.case using out [unfolded r hab prod.case sum.case] c l Inr by auto
    qed
  qed
  show ?thesis
  proof (cases "pv_privacy head")
    case False
    then show ?thesis using Inr by (intro finish [of buf]) (simp_all add: unprotect_open_clear)
  next
    case True
    from assms(1,2) show ?thesis
    proof (cases rule: deobfuscate_outcome [where pv = head and buf = buf, case_names failed opened])
      case (failed e)
      then show ?thesis using True Inr by (auto simp: unprotect_open_clear)
    next
      case (opened clear)
      then show ?thesis using True Inr by (intro finish [of clear]) (simp_all add: unprotect_open_clear)
    qed
  qed
qed

theorem unprotect_authenticates_witness:
  "fst (unprotect demo_cipher \<lparr>sk_encryption = replicate 16 7, sk_privacy = replicate 16 8\<rparr> PaseNonce [0, 5, 0])
    \<in> Inl ` {MessageTruncated, UnsupportedVersion, MessageReserved, InvalidState, IntegrityCheckFailed}"
  using unprotect_authenticates [OF demo_cipher_ok,
      of "\<lparr>sk_encryption = replicate 16 7, sk_privacy = replicate 16 8\<rparr>" "[0, 5, 0]" PaseNonce]
  by (auto simp: USIZE_MAX_def preview_def split: prod.splits sum.splits)

end
