(* ===== verification/Session.thy ===== *)
theory Session
  imports Msg_Security Msg_Counter Mrp Keyed_Table
begin

text \<open>
  Secure sessions (\<^verbatim>\<open>src/src/session.rs\<close>): the keys of a session and which of them a role
  uses in which direction, the session's counters, and the table of sessions found by the
  local identifier.  The key derivation function is the HKDF crate's and is an argument.
  Shown here: the table's invariant and the freshness of an allocated identifier, through the
  \<open>bounded_table\<close> and \<open>fabric_scoped\<close> interfaces; that the two ends of a session are mirror
  images, so that what one protects the other recovers; and that a session hands no message
  up twice, through the \<open>duplicate_filter\<close> interface.
\<close>

type_synonym Hkdf = "bytes \<Rightarrow> bytes \<Rightarrow> bytes \<Rightarrow> nat \<Rightarrow> bytes option"

definition SESSION_KEYS_INFO :: bytes where
  "SESSION_KEYS_INFO = [0x53, 0x65, 0x73, 0x73, 0x69, 0x6F, 0x6E, 0x4B, 0x65, 0x79, 0x73]"

datatype SessionKind = PaseSession | CaseSession

datatype SessionRole = SessionInitiator | SessionResponder

record EstablishedKeys =
  i2r :: SessionKeys
  r2i :: SessionKeys
  attestation_challenge :: SymmetricKey

fun keys_sending :: "EstablishedKeys \<Rightarrow> SessionRole \<Rightarrow> SessionKeys" where
  "keys_sending k SessionInitiator = i2r k"
| "keys_sending k SessionResponder = r2i k"

fun keys_receiving :: "EstablishedKeys \<Rightarrow> SessionRole \<Rightarrow> SessionKeys" where
  "keys_receiving k SessionInitiator = r2i k"
| "keys_receiving k SessionResponder = i2r k"

definition key_from_slice :: "bytes \<Rightarrow> SymmetricKey result" where
  "key_from_slice bs = ok_or InvalidArgument (slice_get bs 0 SYMMETRIC_KEY_LENGTH_BYTES)"

definition derive_with_info :: "Hkdf \<Rightarrow> bytes \<Rightarrow> bytes \<Rightarrow> bytes \<Rightarrow> EstablishedKeys result" where
  "derive_with_info hkdf shared_secret salt info =
     (let key = SYMMETRIC_KEY_LENGTH_BYTES in
      bindR (ok_or IntegrityCheckFailed (hkdf shared_secret salt info (3 * key))) (\<lambda>out.
      case (slice_get out 0 key, slice_get out key (2 * key), slice_get out (2 * key) (3 * key)) of
        (Some a, Some b, Some challenge) \<Rightarrow>
          bindR (bindR (key_from_slice a) (from_encryption_key hkdf)) (\<lambda>i.
          bindR (bindR (key_from_slice b) (from_encryption_key hkdf)) (\<lambda>r.
          bindR (key_from_slice challenge) (\<lambda>c.
          Inr \<lparr>i2r = i, r2i = r, attestation_challenge = c\<rparr>)))
      | _ \<Rightarrow> Inl Platform))"

definition keys_derive :: "Hkdf \<Rightarrow> bytes \<Rightarrow> bytes \<Rightarrow> EstablishedKeys result" where
  "keys_derive hkdf shared_secret salt = derive_with_info hkdf shared_secret salt SESSION_KEYS_INFO"

record SecureSession =
  ss_local_session_id :: SessionId
  ss_peer_session_id :: SessionId
  ss_kind :: SessionKind
  ss_role :: SessionRole
  ss_peer_node_id :: NodeId
  ss_peer_cats :: "u32 list"
  ss_local_node_id :: NodeId
  ss_fabric_index :: FabricIndex
  ss_keys :: EstablishedKeys
  ss_counter :: MessageCounter
  ss_window :: CounterWindow
  ss_mrp :: MrpParams
  ss_session_timestamp :: Instant
  ss_active_timestamp :: Instant
  ss_peer :: "Peer option"

definition session_new ::
    "SessionId \<Rightarrow> SessionId \<Rightarrow> SessionKind \<Rightarrow> SessionRole \<Rightarrow> EstablishedKeys \<Rightarrow> u32 \<Rightarrow> Instant \<Rightarrow> SecureSession" where
  "session_new local_id peer_id kind role keys initial now =
     \<lparr>ss_local_session_id = local_id, ss_peer_session_id = peer_id, ss_kind = kind, ss_role = role,
      ss_peer_node_id = NodeId_UNSPECIFIED, ss_peer_cats = [], ss_local_node_id = NodeId_UNSPECIFIED,
      ss_fabric_index = FabricIndex_NONE, ss_keys = keys, ss_counter = mc_new initial,
      ss_window = cw_new SecureUnicast, ss_mrp = params_default, ss_session_timestamp = now,
      ss_active_timestamp = now, ss_peer = None\<rparr>"

definition encrypt_keys :: "SecureSession \<Rightarrow> SessionKeys" where
  "encrypt_keys s = (case ss_role s of SessionInitiator \<Rightarrow> i2r (ss_keys s) | SessionResponder \<Rightarrow> r2i (ss_keys s))"

definition decrypt_keys :: "SecureSession \<Rightarrow> SessionKeys" where
  "decrypt_keys s = (case ss_role s of SessionInitiator \<Rightarrow> r2i (ss_keys s) | SessionResponder \<Rightarrow> i2r (ss_keys s))"

definition send_nonce_source :: "SecureSession \<Rightarrow> NonceSource" where
  "send_nonce_source s = (case ss_kind s of PaseSession \<Rightarrow> PaseNonce | CaseSession \<Rightarrow> CaseNonce (ss_local_node_id s))"

definition recv_nonce_source :: "SecureSession \<Rightarrow> NonceSource" where
  "recv_nonce_source s = (case ss_kind s of PaseSession \<Rightarrow> PaseNonce | CaseSession \<Rightarrow> CaseNonce (ss_peer_node_id s))"

definition next_counter :: "Instant \<Rightarrow> (SecureSession, u32) mutator" where
  "next_counter now s =
     (let s = s\<lparr>ss_session_timestamp := now\<rparr>; (r, c) = mc_take (ss_counter s) in (r, s\<lparr>ss_counter := c\<rparr>))"

definition accept_counter :: "u32 \<Rightarrow> Instant \<Rightarrow> SecureSession \<Rightarrow> Verdict \<times> SecureSession" where
  "accept_counter counter now s =
     (let (verdict, w) = cw_accept (ss_window s) counter in
      (verdict, s\<lparr>ss_window := w, ss_session_timestamp := now, ss_active_timestamp := now\<rparr>))"

definition session_peer_active :: "SecureSession \<Rightarrow> Instant \<Rightarrow> bool" where
  "session_peer_active s now \<longleftrightarrow> duration_since now (ss_active_timestamp s) < active_threshold (ss_mrp s)"

record SessionTable =
  st_sessions :: "SecureSession list"
  st_next_id :: u16

definition st_new :: "u16 \<Rightarrow> SessionTable" where
  "st_new first_id = \<lparr>st_sessions = [], st_next_id = first_id\<rparr>"

definition st_find :: "SessionId \<Rightarrow> SessionTable \<Rightarrow> SecureSession option" where
  "st_find i t = List.find (\<lambda>s. ss_local_session_id s = i) (st_sessions t)"

definition st_find_mut :: "SessionId \<Rightarrow> (SecureSession \<Rightarrow> SecureSession) \<Rightarrow> SessionTable \<Rightarrow> SessionTable" where
  "st_find_mut i f t = t\<lparr>st_sessions := update_first (\<lambda>s. ss_local_session_id s = i) f (st_sessions t)\<rparr>"

definition st_allocate_id :: "(SessionTable, SessionId) mutator" where
  "st_allocate_id t =
     (let (x, n) = alloc_loop 65536 (\<lambda>i. i \<noteq> 0 \<and> st_find i t = None) (st_next_id t) in
      (ok_or NoSpace x, t\<lparr>st_next_id := n\<rparr>))"

definition st_insert :: "nat \<Rightarrow> SecureSession \<Rightarrow> (SessionTable, unit) mutator" where
  "st_insert N s t =
     (if st_find (ss_local_session_id s) t \<noteq> None then (Inl InvalidState, t)
      else case vec_push N (st_sessions t) s of
             None \<Rightarrow> (Inl NoSpace, t)
           | Some ss \<Rightarrow> (Inr (), t\<lparr>st_sessions := ss\<rparr>))"

definition st_remove :: "SessionId \<Rightarrow> SessionTable \<Rightarrow> bool \<times> SessionTable" where
  "st_remove i t =
     (case position (\<lambda>s. ss_local_session_id s = i) (st_sessions t) of
        None \<Rightarrow> (False, t)
      | Some k \<Rightarrow> (True, t\<lparr>st_sessions := swap_remove k (st_sessions t)\<rparr>))"

definition st_remove_fabric :: "FabricIndex \<Rightarrow> SessionTable \<Rightarrow> nat \<times> SessionTable" where
  "st_remove_fabric f t =
     (let ss = filter (\<lambda>s. ss_fabric_index s \<noteq> f) (st_sessions t) in
      (length (st_sessions t) - length ss, t\<lparr>st_sessions := ss\<rparr>))"

definition least_recently_used :: "SessionTable \<Rightarrow> SessionId option" where
  "least_recently_used t = map_option ss_local_session_id (min_by_key ss_session_timestamp (st_sessions t))"

section \<open>The table as a keyed, bounded, fabric-scoped table\<close>

definition st_inv :: "nat \<Rightarrow> SessionTable \<Rightarrow> bool" where
  "st_inv N t \<longleftrightarrow> distinct (map ss_local_session_id (st_sessions t)) \<and> length (st_sessions t) \<le> N"

definition st_delete :: "SessionId \<Rightarrow> SessionTable \<Rightarrow> SessionTable" where
  "st_delete i t = snd (st_remove i t)"

definition st_insert_new :: "nat \<Rightarrow> SecureSession \<Rightarrow> SessionTable \<Rightarrow> SessionTable option" where
  "st_insert_new N s t = (case st_insert N s t of (Inl _, _) \<Rightarrow> None | (Inr _, t') \<Rightarrow> Some t')"

definition st_drop_fabric :: "FabricIndex \<Rightarrow> SessionTable \<Rightarrow> SessionTable" where
  "st_drop_fabric f t = snd (st_remove_fabric f t)"

lemma st_remove_sessions:
  assumes "distinct (map ss_local_session_id (st_sessions t))"
  shows "set (st_sessions (st_delete i t)) = {s \<in> set (st_sessions t). ss_local_session_id s \<noteq> i}"
    and "distinct (map ss_local_session_id (st_sessions (st_delete i t)))"
    and "length (st_sessions (st_delete i t)) \<le> length (st_sessions t)"
proof -
  have "set (st_sessions (st_delete i t)) = {s \<in> set (st_sessions t). ss_local_session_id s \<noteq> i}
    \<and> distinct (map ss_local_session_id (st_sessions (st_delete i t)))
    \<and> length (st_sessions (st_delete i t)) \<le> length (st_sessions t)"
  proof (cases "position (\<lambda>s. ss_local_session_id s = i) (st_sessions t)")
    case None
    then show ?thesis
      using assms position_None [of "\<lambda>s. ss_local_session_id s = i" "st_sessions t"]
      by (auto simp: st_delete_def st_remove_def)
  next
    case (Some k)
    note p = position_Some [OF Some]
    show ?thesis
      using Some p set_swap_remove [OF assms] distinct_swap_remove [OF assms]
      by (auto simp: st_delete_def st_remove_def)
  qed
  then show "set (st_sessions (st_delete i t)) = {s \<in> set (st_sessions t). ss_local_session_id s \<noteq> i}"
    and "distinct (map ss_local_session_id (st_sessions (st_delete i t)))"
    and "length (st_sessions (st_delete i t)) \<le> length (st_sessions t)" by blast+
qed

lemma st_insert_new_eq:
  "st_find (ss_local_session_id s) t = None \<Longrightarrow>
    st_insert_new N s t = (if length (st_sessions t) < N then Some (t\<lparr>st_sessions := st_sessions t @ [s]\<rparr>) else None)"
  by (simp add: st_insert_new_def st_insert_def vec_push_def)

interpretation stb: bounded_table "st_inv N" st_sessions ss_local_session_id st_find st_delete N "st_insert_new N" for N
proof unfold_locales
  fix t k e t'
  show "st_inv N t \<Longrightarrow> distinct (map ss_local_session_id (st_sessions t))" by (simp add: st_inv_def)
  show "st_find k t = List.find (\<lambda>e. ss_local_session_id e = k) (st_sessions t)" by (simp add: st_find_def)
  show "st_inv N t \<Longrightarrow> st_inv N (st_delete k t)"
    using st_remove_sessions(2,3) [of t k] by (simp add: st_inv_def)
  show "st_inv N t \<Longrightarrow> set (st_sessions (st_delete k t)) = {e \<in> set (st_sessions t). ss_local_session_id e \<noteq> k}"
    using st_remove_sessions(1) by (simp add: st_inv_def)
  show "st_inv N t \<Longrightarrow> length (st_sessions t) \<le> N" by (simp add: st_inv_def)
  show "st_inv N t \<Longrightarrow> st_find (ss_local_session_id e) t = None \<Longrightarrow>
      (st_insert_new N e t = None) = (length (st_sessions t) = N)"
    by (auto simp: st_insert_new_eq st_inv_def)
  show "st_inv N t \<Longrightarrow> st_find (ss_local_session_id e) t = None \<Longrightarrow> st_insert_new N e t = Some t' \<Longrightarrow>
      st_inv N t' \<and> st_sessions t' = st_sessions t @ [e]"
    by (force simp: st_insert_new_eq st_inv_def st_find_def find_None split: if_splits)
qed

interpretation stf: fabric_scoped "\<lambda>t. set (st_sessions t)" ss_fabric_index st_drop_fabric
  by unfold_locales (auto simp: st_drop_fabric_def st_remove_fabric_def Let_def)

section \<open>Reachable tables\<close>

text \<open>A caller of \<^verbatim>\<open>find_mut\<close> changes anything of the session but the identifier it is found by.\<close>

inductive st_reachable :: "nat \<Rightarrow> SessionTable \<Rightarrow> bool" for N where
  fresh: "st_reachable N (st_new i)"
| allocate: "st_reachable N t \<Longrightarrow> st_reachable N (snd (st_allocate_id t))"
| insert: "st_reachable N t \<Longrightarrow> st_reachable N (snd (st_insert N s t))"
| mutate: "st_reachable N t \<Longrightarrow> (\<And>s. ss_local_session_id (f s) = ss_local_session_id s) \<Longrightarrow>
    st_reachable N (st_find_mut i f t)"
| remove: "st_reachable N t \<Longrightarrow> st_reachable N (snd (st_remove i t))"
| remove_fabric: "st_reachable N t \<Longrightarrow> st_reachable N (snd (st_remove_fabric x t))"

lemma st_inv_next_id [simp]: "st_inv N (t\<lparr>st_next_id := n\<rparr>) = st_inv N t" "st_find i (t\<lparr>st_next_id := n\<rparr>) = st_find i t"
  by (simp_all add: st_inv_def st_find_def)

lemma st_insert_inv: "st_inv N t \<Longrightarrow> st_inv N (snd (st_insert N s t))"
  by (cases "st_find (ss_local_session_id s) t")
    (auto simp: st_insert_def vec_push_def st_inv_def st_find_def find_None image_iff)

lemma st_remove_fabric_inv: "st_inv N t \<Longrightarrow> st_inv N (snd (st_remove_fabric x t))"
  by (auto simp: st_inv_def st_remove_fabric_def Let_def distinct_map_filter intro: le_trans [OF length_filter_le])

lemma st_reachable_inv: "st_reachable N t \<Longrightarrow> st_inv N t"
proof (induction rule: st_reachable.induct)
  case (mutate t f i)
  then show ?case
    using map_key_update_first [of ss_local_session_id f "\<lambda>s. ss_local_session_id s = i" "st_sessions t"]
    by (simp add: st_inv_def st_find_mut_def)
next
  case (remove t i)
  then show ?case using stb.inv_delete [of N t i] by (simp add: st_delete_def)
qed (simp_all add: st_insert_inv st_remove_fabric_inv st_allocate_id_def case_prod_beta,
     simp add: st_inv_def st_new_def)

lemma st_allocate_id_total:
  assumes "st_inv N t" and "N < 65535"
  obtains i n where "st_allocate_id t = (Inr i, t\<lparr>st_next_id := n\<rparr>)" and "i \<noteq> 0" and "st_find i t = None"
proof -
  obtain j where "j \<noteq> 0 \<and> (\<forall>s \<in> set (st_sessions t). ss_local_session_id s \<noteq> j)"
    using exists_unused [of "st_sessions t" ss_local_session_id] assms by (auto simp: st_inv_def)
  then have "j \<noteq> 0 \<and> st_find j t = None" by (simp add: st_find_def find_None)
  from alloc_loop_total [where free = "\<lambda>i. i \<noteq> 0 \<and> st_find i t = None" and n = "st_next_id t", OF this]
  obtain i n where "alloc_loop 65536 (\<lambda>i. i \<noteq> 0 \<and> st_find i t = None) (st_next_id t) = (Some i, n)"
      "i \<noteq> 0 \<and> st_find i t = None" by blast
  then show ?thesis using that by (simp add: st_allocate_id_def)
qed

section \<open>Arrivals\<close>

fun session_arrivals :: "(u32 \<times> Instant) list \<Rightarrow> SecureSession \<Rightarrow> SecureSession" where
  "session_arrivals [] s = s"
| "session_arrivals ((c, now) # as) s = session_arrivals as (snd (accept_counter c now s))"

lemma accept_counter_window [simp]:
  "fst (accept_counter c now s) = fst (cw_accept (ss_window s) c)"
  "ss_window (snd (accept_counter c now s)) = snd (cw_accept (ss_window s) c)"
  by (simp_all add: accept_counter_def case_prod_beta)

lemma session_arrivals_duplicate:
  "cw_kind (ss_window s) = SecureUnicast \<Longrightarrow> fst (cw_accept (ss_window s) c) = Duplicate \<Longrightarrow>
    fst (cw_accept (ss_window (session_arrivals as s)) c) = Duplicate"
proof (induction as s rule: session_arrivals.induct)
  case (2 d now as s)
  then show ?case using cwf.stays_duplicate [of "ss_window s" c d] by simp
qed simp

lemma replay_rejected:
  assumes "cw_kind (ss_window s) = SecureUnicast"
  shows "fst (accept_counter c now' (session_arrivals as (snd (accept_counter c now s)))) = Duplicate"
  using session_arrivals_duplicate [of "snd (accept_counter c now s)" c as] cwf.recorded [OF assms, of c] assms by simp

section \<open>Derived keys\<close>

text \<open>Documented of HKDF: the expansion is as long as asked for (up to 255 blocks of the hash).\<close>

definition hkdf_ok :: "Hkdf \<Rightarrow> bool" where
  "hkdf_ok hkdf \<longleftrightarrow> (\<forall>ikm salt info n. n \<le> 255 * 32 \<longrightarrow> (\<exists>out. hkdf ikm salt info n = Some out \<and> length out = n))"

definition keys_wf :: "EstablishedKeys \<Rightarrow> bool" where
  "keys_wf k \<longleftrightarrow> (\<forall>s \<in> {i2r k, r2i k}. length (sk_encryption s) = 16 \<and> length (sk_privacy s) = 16)
     \<and> length (attestation_challenge k) = 16"

lemma hkdf_okD: "hkdf_ok hkdf \<Longrightarrow> n \<le> 255 * 32 \<Longrightarrow> \<exists>out. hkdf ikm salt info n = Some out \<and> length out = n"
  by (simp add: hkdf_ok_def)

lemma from_encryption_key_ok:
  assumes "hkdf_ok hkdf" and "length key = 16"
  obtains p where "from_encryption_key hkdf key = Inr \<lparr>sk_encryption = key, sk_privacy = p\<rparr>" and "length p = 16"
proof -
  obtain p where "hkdf key [] PRIVACY_KEY_INFO 16 = Some p" "length p = 16"
    using hkdf_okD [OF assms(1), where n = 16 and ikm = key and salt = "[]" and info = PRIVACY_KEY_INFO] by auto
  then show ?thesis
    using that by (simp add: from_encryption_key_def privacy_key_def SYMMETRIC_KEY_LENGTH_BYTES_def)
qed

lemma keys_derive_ok:
  assumes "hkdf_ok hkdf"
  obtains k where "keys_derive hkdf secret salt = Inr k" and "keys_wf k"
proof -
  obtain out where out: "hkdf secret salt SESSION_KEYS_INFO 48 = Some out" "length out = 48"
    using hkdf_okD [OF assms, where n = 48 and ikm = secret and salt = salt and info = SESSION_KEYS_INFO] by auto
  let ?a = "take 16 out" and ?b = "take 16 (drop 16 out)" and ?c = "take 16 (drop 32 out)"
  have l: "length ?a = 16" "length ?b = 16" "length ?c = 16" using out by simp_all
  obtain pa where pa: "from_encryption_key hkdf ?a = Inr \<lparr>sk_encryption = ?a, sk_privacy = pa\<rparr>" "length pa = 16"
    by (rule from_encryption_key_ok [OF assms l(1)])
  obtain pb where pb: "from_encryption_key hkdf ?b = Inr \<lparr>sk_encryption = ?b, sk_privacy = pb\<rparr>" "length pb = 16"
    by (rule from_encryption_key_ok [OF assms l(2)])
  have sl: "slice_get out 0 16 = Some ?a" "slice_get out 16 32 = Some ?b" "slice_get out 32 48 = Some ?c"
    using out(2) by (simp_all add: slice_get_def)
  have k: "key_from_slice xs = Inr xs" if "length xs = 16" for xs
    using that by (simp add: key_from_slice_def slice_get_def SYMMETRIC_KEY_LENGTH_BYTES_def)
  let ?k = "\<lparr>i2r = \<lparr>sk_encryption = ?a, sk_privacy = pa\<rparr>, r2i = \<lparr>sk_encryption = ?b, sk_privacy = pb\<rparr>,
      attestation_challenge = ?c\<rparr>"
  have "keys_derive hkdf secret salt = Inr ?k"
    using out(1) sl pa(1) pb(1) k [OF l(1)] k [OF l(2)] k [OF l(3)]
    by (simp add: keys_derive_def derive_with_info_def SYMMETRIC_KEY_LENGTH_BYTES_def)
  moreover have "keys_wf ?k" using l pa pb by (simp add: keys_wf_def)
  ultimately show ?thesis by (rule that)
qed

section \<open>Properties\<close>

text \<open>C26: In a table reached by any sequence of its operations no two sessions share a local identifier
  and the capacity is kept; allocation then always returns a non-zero identifier no session
  has, and a session inserted under it is refused only when the table is full and is
  otherwise found under it, every other lookup unchanged.\<close>

theorem session_opened_under_fresh_id:
  assumes "st_reachable N t" and "N < 65535"
  shows "distinct (map ss_local_session_id (st_sessions t)) \<and> length (st_sessions t) \<le> N
    \<and> (\<exists>i t'. st_allocate_id t = (Inr i, t') \<and> i \<noteq> 0 \<and> i \<notin> ss_local_session_id ` set (st_sessions t)
       \<and> (\<forall>s. ss_local_session_id s = i \<longrightarrow>
            (if length (st_sessions t) = N then st_insert N s t' = (Inl NoSpace, t')
             else fst (st_insert N s t') = Inr ()
               \<and> (\<forall>j. st_find j (snd (st_insert N s t')) = (if j = i then Some s else st_find j t)))))"
proof -
  note inv = st_reachable_inv [OF assms(1)]
  obtain i n where a: "st_allocate_id t = (Inr i, t\<lparr>st_next_id := n\<rparr>)" and i: "i \<noteq> 0" "st_find i t = None"
    by (rule st_allocate_id_total [OF inv assms(2)])
  let ?t = "t\<lparr>st_next_id := n\<rparr>"
  have "if length (st_sessions t) = N then st_insert N s ?t = (Inl NoSpace, ?t)
      else fst (st_insert N s ?t) = Inr ()
        \<and> (\<forall>j. st_find j (snd (st_insert N s ?t)) = (if j = i then Some s else st_find j t))"
    if s: "ss_local_session_id s = i" for s
  proof (cases "length (st_sessions t) = N")
    case True
    then show ?thesis using i s by (simp add: st_insert_def vec_push_def)
  next
    case False
    then have l: "length (st_sessions t) < N" using inv by (simp add: st_inv_def)
    have f: "st_find (ss_local_session_id s) ?t = None" using i s by simp
    have ins: "st_insert N s ?t = (Inr (), ?t\<lparr>st_sessions := st_sessions t @ [s]\<rparr>)"
      using l f by (simp add: st_insert_def vec_push_def)
    have "st_insert_new N s ?t = Some (?t\<lparr>st_sessions := st_sessions t @ [s]\<rparr>)"
      using ins by (simp add: st_insert_new_def)
    from stb.lookup_insert [OF _ f this] inv s False ins show ?thesis by simp
  qed
  then show ?thesis using a i inv by (auto simp: st_inv_def st_find_def find_None)
qed

theorem session_opened_under_fresh_id_witness:
  "\<exists>i t'. st_allocate_id (st_new 0) = (Inr i, t') \<and> i \<noteq> 0"
  using session_opened_under_fresh_id [OF st_reachable.fresh [of 16 0]] by auto

text \<open>Removing a fabric reports how many sessions went and leaves none of that fabric; the sessions
  of every other fabric are found as before.  Evicting the least recently used session names a
  session no other is older than, and leaves room for one more.\<close>

theorem session_removal:
  assumes "st_inv N t"
  shows "(\<forall>s \<in> set (st_sessions (snd (st_remove_fabric f t))). ss_fabric_index s \<noteq> f)
    \<and> fst (st_remove_fabric f t) = length (filter (\<lambda>s. ss_fabric_index s = f) (st_sessions t))
    \<and> st_find i (snd (st_remove_fabric f t))
        = (case st_find i t of None \<Rightarrow> None | Some s \<Rightarrow> if ss_fabric_index s = f then None else Some s)
    \<and> (case least_recently_used t of
         None \<Rightarrow> st_sessions t = []
       | Some j \<Rightarrow> (\<exists>s. st_find j t = Some s \<and> (\<forall>u \<in> set (st_sessions t). ss_session_timestamp s \<le> ss_session_timestamp u))
           \<and> length (st_sessions (snd (st_remove j t))) < N)"
proof (intro conjI)
  show "\<forall>s \<in> set (st_sessions (snd (st_remove_fabric f t))). ss_fabric_index s \<noteq> f"
    using stf.nothing_left [of f t] by (auto simp: st_drop_fabric_def)
  show "fst (st_remove_fabric f t) = length (filter (\<lambda>s. ss_fabric_index s = f) (st_sessions t))"
    using sum_length_filter_compl [of "\<lambda>s. ss_fabric_index s = f" "st_sessions t"]
    by (simp add: st_remove_fabric_def Let_def)
  have i': "st_inv N (snd (st_remove_fabric f t))" by (rule st_remove_fabric_inv [OF assms])
  have X: "st_find i (snd (st_remove_fabric f t)) = Some s \<longleftrightarrow> st_find i t = Some s \<and> ss_fabric_index s \<noteq> f" for s
    unfolding stb.lookup_Some [OF assms] stb.lookup_Some [OF i'] stf.drop_fabric_entries [of f t, unfolded st_drop_fabric_def]
    by blast
  show "st_find i (snd (st_remove_fabric f t))
      = (case st_find i t of None \<Rightarrow> None | Some s \<Rightarrow> if ss_fabric_index s = f then None else Some s)"
  proof (cases "st_find i (snd (st_remove_fabric f t))")
    case None
    then have "\<not> (st_find i t = Some s \<and> ss_fabric_index s \<noteq> f)" for s using X [of s] by simp
    then show ?thesis using None by (cases "st_find i t") simp_all
  next
    case (Some s)
    then have "st_find i t = Some s \<and> ss_fabric_index s \<noteq> f" using X [of s] by simp
    then show ?thesis using Some by simp
  qed
  show "case least_recently_used t of
         None \<Rightarrow> st_sessions t = []
       | Some j \<Rightarrow> (\<exists>s. st_find j t = Some s \<and> (\<forall>u \<in> set (st_sessions t). ss_session_timestamp s \<le> ss_session_timestamp u))
           \<and> length (st_sessions (snd (st_remove j t))) < N"
  proof (cases "min_by_key ss_session_timestamp (st_sessions t)")
    case None
    then show ?thesis by (simp add: least_recently_used_def min_by_key_None)
  next
    case (Some s)
    note m = min_by_key_least [OF Some]
    have f: "st_find (ss_local_session_id s) t = Some s" using m stb.lookup_Some [OF assms] by simp
    obtain t' where "st_insert_new N s (st_delete (ss_local_session_id s) t) = Some t'"
      using stb.insert_delete_room [OF assms] m by blast
    then have "length (st_sessions (snd (st_remove (ss_local_session_id s) t))) < N"
      using stb.lookup_delete [OF assms, of "ss_local_session_id s" "ss_local_session_id s"]
      by (simp add: st_insert_new_eq st_delete_def split: if_splits)
    then show ?thesis using Some f m by (simp add: least_recently_used_def)
  qed
qed

lemma st_new_inv: "st_inv N (st_new i)"
  by (simp add: st_inv_def st_new_def)

definition demo_keys :: EstablishedKeys where
  "demo_keys = \<lparr>i2r = \<lparr>sk_encryption = replicate 16 1, sk_privacy = replicate 16 2\<rparr>,
     r2i = \<lparr>sk_encryption = replicate 16 3, sk_privacy = replicate 16 4\<rparr>, attestation_challenge = replicate 16 5\<rparr>"

theorem session_removal_witness:
  "least_recently_used (snd (st_insert 4 (session_new 7 8 PaseSession SessionInitiator demo_keys 0 0) (st_new 1))) = Some 7
   \<and> length (st_sessions (snd (st_remove 7
       (snd (st_insert 4 (session_new 7 8 PaseSession SessionInitiator demo_keys 0 0) (st_new 1)))))) < 4"
  using session_removal [OF st_insert_inv [where N = 4 and s = "session_new 7 8 PaseSession SessionInitiator demo_keys 0 0",
      OF st_new_inv [where i = 1]]]
  by (simp add: least_recently_used_def st_insert_def st_find_def st_new_def vec_push_def session_new_def)

text \<open>C27: From any shared secret the derivation gives a full set of well-formed keys, and the two roles use
  them crosswise: what one sends under, the other receives under.\<close>

theorem derived_keys_mirror:
  assumes "hkdf_ok hkdf" and "role \<noteq> role'"
  shows "\<exists>k. keys_derive hkdf secret salt = Inr k \<and> keys_wf k \<and> keys_sending k role = keys_receiving k role'
    \<and> (ss_keys s = k \<and> ss_role s = role \<longrightarrow>
         encrypt_keys s = keys_sending k role \<and> decrypt_keys s = keys_sending k role')"
proof -
  obtain k where k: "keys_derive hkdf secret salt = Inr k" "keys_wf k" by (rule keys_derive_ok [OF assms(1)])
  have "keys_sending k role = keys_receiving k role'"
    and "ss_keys s = k \<and> ss_role s = role \<longrightarrow>
         encrypt_keys s = keys_sending k role \<and> decrypt_keys s = keys_sending k role'"
    using assms(2) by (cases role; cases role'; simp add: encrypt_keys_def decrypt_keys_def)+
  then show ?thesis using k by blast
qed

theorem derived_keys_mirror_witness:
  "\<exists>k. keys_derive (\<lambda>ikm salt info n. if n \<le> 255 * 32 then Some (replicate n 9) else None) [1] [2] = Inr k \<and> keys_wf k
    \<and> keys_sending k SessionInitiator = keys_receiving k SessionResponder"
  using derived_keys_mirror [of "\<lambda>ikm salt info n. if n \<le> 255 * 32 then Some (replicate n 9) else None"
      SessionInitiator SessionResponder "[1]" "[2]"]
  by (auto simp: hkdf_ok_def)

end
