(* ===== verification/Dm_Access.thy ===== *)
theory Dm_Access
  imports Prelude
begin

text \<open>
  Privileges and access qualities (\<^verbatim>\<open>src/src/dm/access.rs\<close>) and the ranges of manufacturer
  extensible identifiers (\<^verbatim>\<open>src/src/dm/mei.rs\<close>).  A privilege grants those at or below it,
  except that \<^verbatim>\<open>ProxyView\<close> stands beside the ladder and not on it.
\<close>

section \<open>Privileges\<close>

datatype Privilege = ProxyView | View | Operate | Manage | Administer

primrec privilege_rank :: "Privilege \<Rightarrow> nat" where
  "privilege_rank ProxyView = 0"
| "privilege_rank View = 1"
| "privilege_rank Operate = 2"
| "privilege_rank Manage = 3"
| "privilege_rank Administer = 4"

lemma privilege_rank_inj: "privilege_rank p = privilege_rank q \<longleftrightarrow> p = q"
  by (cases p; cases q) simp_all

instantiation Privilege :: linorder
begin

definition less_eq_Privilege :: "Privilege \<Rightarrow> Privilege \<Rightarrow> bool" where
  "less_eq_Privilege p q \<longleftrightarrow> privilege_rank p \<le> privilege_rank q"

definition less_Privilege :: "Privilege \<Rightarrow> Privilege \<Rightarrow> bool" where
  "less_Privilege p q \<longleftrightarrow> privilege_rank p < privilege_rank q"

instance
  by standard (auto simp: less_eq_Privilege_def less_Privilege_def privilege_rank_inj)

end

fun grants :: "Privilege \<Rightarrow> Privilege \<Rightarrow> bool" where
  "grants p required =
     (if p = ProxyView \<and> required = ProxyView then True
      else if p = ProxyView \<or> required = ProxyView then False
      else p \<ge> required)"

declare grants.simps [simp del]

section \<open>Access\<close>

type_synonym AccessQualities = u8

definition FABRIC_SCOPED :: AccessQualities where "FABRIC_SCOPED = 1"
definition FABRIC_SENSITIVE :: AccessQualities where "FABRIC_SENSITIVE = 2"
definition TIMED :: AccessQualities where "TIMED = 4"
definition LARGE :: AccessQualities where "LARGE = 8"

record Access =
  acc_read :: "Privilege option"
  acc_write :: "Privilege option"
  acc_invoke :: "Privilege option"
  acc_qualities :: AccessQualities

definition access_read_only :: "Privilege \<Rightarrow> Access" where
  "access_read_only p = \<lparr>acc_read = Some p, acc_write = None, acc_invoke = None, acc_qualities = 0\<rparr>"

definition access_default :: Access where
  "access_default = access_read_only View"

definition access_read_write :: Access where
  "access_read_write = \<lparr>acc_read = Some View, acc_write = Some Operate, acc_invoke = None, acc_qualities = 0\<rparr>"

definition access_read_write_with :: "Privilege \<Rightarrow> Privilege \<Rightarrow> Access" where
  "access_read_write_with r w = \<lparr>acc_read = Some r, acc_write = Some w, acc_invoke = None, acc_qualities = 0\<rparr>"

definition access_write_only :: "Privilege \<Rightarrow> Access" where
  "access_write_only p = \<lparr>acc_read = None, acc_write = Some p, acc_invoke = None, acc_qualities = 0\<rparr>"

definition access_invoke :: "Privilege \<Rightarrow> Access" where
  "access_invoke p = \<lparr>acc_read = None, acc_write = None, acc_invoke = Some p, acc_qualities = 0\<rparr>"

definition access_with_qualities :: "AccessQualities \<Rightarrow> Access \<Rightarrow> Access" where
  "access_with_qualities q a = a\<lparr>acc_qualities := q\<rparr>"

definition access_is_readable :: "Access \<Rightarrow> bool" where
  "access_is_readable a \<longleftrightarrow> acc_read a \<noteq> None"

definition access_is_writable :: "Access \<Rightarrow> bool" where
  "access_is_writable a \<longleftrightarrow> acc_write a \<noteq> None"

definition has_quality :: "AccessQualities \<Rightarrow> Access \<Rightarrow> bool" where
  "has_quality q a \<longleftrightarrow> acc_qualities a AND q = q"

definition needs_timed :: "Access \<Rightarrow> bool" where "needs_timed a \<longleftrightarrow> has_quality TIMED a"
definition is_fabric_scoped :: "Access \<Rightarrow> bool" where "is_fabric_scoped a \<longleftrightarrow> has_quality FABRIC_SCOPED a"
definition is_fabric_sensitive :: "Access \<Rightarrow> bool" where "is_fabric_sensitive a \<longleftrightarrow> has_quality FABRIC_SENSITIVE a"
definition needs_large_messages :: "Access \<Rightarrow> bool" where "needs_large_messages a \<longleftrightarrow> has_quality LARGE a"

section \<open>Manufacturer extensible identifiers\<close>

type_synonym EndpointId = u16
type_synonym ClusterId = u32
type_synonym AttributeId = u32
type_synonym EventId = u32
type_synonym CommandId = u32

definition mei_prefix :: "u32 \<Rightarrow> u16" where "mei_prefix mei = ucast (drop_bit 16 mei)"
definition mei_suffix :: "u32 \<Rightarrow> u16" where "mei_suffix mei = ucast (mei AND 0xFFFF)"

definition prefix_is_defined :: "u32 \<Rightarrow> bool" where "prefix_is_defined mei \<longleftrightarrow> mei_prefix mei \<le> 0xFFF4"
definition is_standard :: "u32 \<Rightarrow> bool" where "is_standard mei \<longleftrightarrow> mei_prefix mei = 0"

definition cluster_is_valid :: "ClusterId \<Rightarrow> bool" where
  "cluster_is_valid c \<longleftrightarrow>
     (if \<not> prefix_is_defined c then False
      else if is_standard c then mei_suffix c \<le> 0x7FFF
      else 0xFC00 \<le> mei_suffix c \<and> mei_suffix c \<le> 0xFFFE)"

definition device_type_is_valid :: "u32 \<Rightarrow> bool" where
  "device_type_is_valid d \<longleftrightarrow> prefix_is_defined d \<and> mei_suffix d \<le> 0xBFFF"

definition attribute_is_valid :: "AttributeId \<Rightarrow> bool" where
  "attribute_is_valid a \<longleftrightarrow>
     (if \<not> prefix_is_defined a then False
      else if is_standard a then mei_suffix a \<le> 0x4FFF \<or> 0xF000 \<le> mei_suffix a \<and> mei_suffix a \<le> 0xFFFE
      else mei_suffix a \<le> 0x4FFF)"

definition command_is_valid :: "CommandId \<Rightarrow> bool" where
  "command_is_valid c \<longleftrightarrow> prefix_is_defined c \<and> mei_suffix c \<le> 0x00FF"

definition event_is_valid :: "EventId \<Rightarrow> bool" where
  "event_is_valid e \<longleftrightarrow> prefix_is_defined e \<and> mei_suffix e \<le> 0x00FF"

section \<open>What a privilege grants\<close>

lemma grants_iff:
  "grants p r \<longleftrightarrow> (if r = ProxyView then p = ProxyView else p \<noteq> ProxyView \<and> r \<le> p)"
  by (cases p; cases r) (simp_all add: grants.simps less_eq_Privilege_def)

lemma grants_refl [simp]: "grants p p"
  by (cases p) (simp_all add: grants.simps)

lemma grants_trans: "grants p q \<Longrightarrow> grants q r \<Longrightarrow> grants p r"
  by (auto simp: grants_iff split: if_splits)

lemma grants_Administer: "grants Administer r \<longleftrightarrow> r \<noteq> ProxyView"
  by (cases r) (simp_all add: grants.simps less_eq_Privilege_def)

lemma mei_value: "unat mei = unat (mei_prefix mei) * 65536 + unat (mei_suffix mei)"
proof -
  have "mei AND 0xFFFF = take_bit 16 mei" by (simp add: take_bit_eq_mask mask_numeral)
  then have "unat (mei_suffix mei) = unat mei mod 65536"
    by (simp add: mei_suffix_def unsigned_ucast_eq take_bit_eq_mod unat_mod)
  moreover have "unat (mei_prefix mei) = unat mei div 65536"
  proof -
    have "unat mei div 65536 < 65536" using unat_lt_len [of mei] by simp
    then show ?thesis
      by (simp add: mei_prefix_def unsigned_ucast_eq unsigned_drop_bit_eq drop_bit_eq_div take_bit_eq_mod unat_div)
  qed
  ultimately show ?thesis by simp
qed

end
