(* ===== verification/Im_Path.thy ===== *)
theory Im_Path
  imports Dm_Access Msg_Ids
begin

text \<open>
  The paths of the interaction model (\<^verbatim>\<open>src/src/im/path.rs\<close>): where an absent component is a
  wildcard.
\<close>

datatype ListIndex = ListAt u16 | ListAppend

type_synonym WildcardPathFlags = u32

record AttributePath =
  ap_enable_tag_compression :: bool
  ap_node :: "NodeId option"
  ap_endpoint :: "EndpointId option"
  ap_cluster :: "ClusterId option"
  ap_attribute :: "AttributeId option"
  ap_list_index :: "ListIndex option"
  ap_wildcard_path_flags :: "WildcardPathFlags option"
  ap_wildcard_filter_configuration_version :: "u32 option"

definition path_wildcard :: AttributePath where
  "path_wildcard = \<lparr>ap_enable_tag_compression = False, ap_node = None, ap_endpoint = None, ap_cluster = None,
     ap_attribute = None, ap_list_index = None, ap_wildcard_path_flags = None,
     ap_wildcard_filter_configuration_version = None\<rparr>"

definition path_attribute :: "EndpointId \<Rightarrow> ClusterId \<Rightarrow> AttributeId \<Rightarrow> AttributePath" where
  "path_attribute e c a = \<lparr>ap_enable_tag_compression = False, ap_node = None, ap_endpoint = Some e,
     ap_cluster = Some c, ap_attribute = Some a, ap_list_index = None, ap_wildcard_path_flags = None,
     ap_wildcard_filter_configuration_version = None\<rparr>"

definition path_cluster :: "EndpointId \<Rightarrow> ClusterId \<Rightarrow> AttributePath" where
  "path_cluster e c = path_wildcard\<lparr>ap_endpoint := Some e, ap_cluster := Some c\<rparr>"

definition path_concrete :: "AttributePath \<Rightarrow> (EndpointId \<times> ClusterId \<times> AttributeId) option" where
  "path_concrete p =
     (case (ap_endpoint p, ap_cluster p, ap_attribute p) of (Some e, Some c, Some a) \<Rightarrow> Some (e, c, a) | _ \<Rightarrow> None)"

definition path_has_wildcard :: "AttributePath \<Rightarrow> bool" where
  "path_has_wildcard p \<longleftrightarrow> path_concrete p = None"

record CommandPath =
  cp_endpoint :: "EndpointId option"
  cp_cluster :: "ClusterId option"
  cp_command :: "CommandId option"

definition path_command :: "EndpointId \<Rightarrow> ClusterId \<Rightarrow> CommandId \<Rightarrow> CommandPath" where
  "path_command e c x = \<lparr>cp_endpoint = Some e, cp_cluster = Some c, cp_command = Some x\<rparr>"

definition command_path_concrete :: "CommandPath \<Rightarrow> (EndpointId \<times> ClusterId \<times> CommandId) option" where
  "command_path_concrete p =
     (case (cp_endpoint p, cp_cluster p, cp_command p) of (Some e, Some c, Some x) \<Rightarrow> Some (e, c, x) | _ \<Rightarrow> None)"

record EventPath =
  evp_node :: "NodeId option"
  evp_endpoint :: "EndpointId option"
  evp_cluster :: "ClusterId option"
  evp_event :: "EventId option"
  evp_is_urgent :: "bool option"

end
