(* ===== verification/Dm_Node.thy ===== *)
theory Dm_Node
  imports Im_Path
begin

text \<open>
  The data model (\<^verbatim>\<open>src/src/dm/meta.rs\<close>, \<^verbatim>\<open>src/src/dm/global.rs\<close>, \<^verbatim>\<open>src/src/dm/node.rs\<close>): descriptors
  of attributes, commands, events and clusters, the global attributes every cluster has, the
  endpoints of a node, lookups by binary search, the check of a node's tables, and the two
  resumable iterators that expand a path with wildcards.  Shown here: on tables that pass the
  check binary search finds what a scan finds; an expansion yields, in order and once each,
  exactly the paths that exist and match, wherever it is interrupted and resumed; and it agrees
  with the resolution of concrete paths.
\<close>

section \<open>Descriptors\<close>

datatype Reporting = OnChange | Quieter | ChangesOmitted

type_synonym AttributeQualities = u8

definition NULLABLE :: AttributeQualities where "NULLABLE = 1"
definition NON_VOLATILE :: AttributeQualities where "NON_VOLATILE = 2"
definition FIXED :: AttributeQualities where "FIXED = 4"
definition ATOMIC :: AttributeQualities where "ATOMIC = 8"
definition ATTRIBUTE_LARGE :: AttributeQualities where "ATTRIBUTE_LARGE = 16"
definition SCENE :: AttributeQualities where "SCENE = 32"

record AttributeDescriptor =
  attr_id :: AttributeId
  attr_access :: Access
  attr_reporting :: Reporting
  attr_qualities :: AttributeQualities

definition attribute_read_only :: "AttributeId \<Rightarrow> AttributeDescriptor" where
  "attribute_read_only a = \<lparr>attr_id = a, attr_access = access_read_only View, attr_reporting = OnChange,
     attr_qualities = 0\<rparr>"

definition attribute_read_write :: "AttributeId \<Rightarrow> AttributeDescriptor" where
  "attribute_read_write a = \<lparr>attr_id = a, attr_access = access_read_write, attr_reporting = OnChange,
     attr_qualities = 0\<rparr>"

definition attribute_with_access :: "Access \<Rightarrow> AttributeDescriptor \<Rightarrow> AttributeDescriptor" where
  "attribute_with_access acc a = a\<lparr>attr_access := acc\<rparr>"

definition attribute_with_qualities :: "AttributeQualities \<Rightarrow> AttributeDescriptor \<Rightarrow> AttributeDescriptor" where
  "attribute_with_qualities q a = a\<lparr>attr_qualities := q\<rparr>"

definition attribute_with_reporting :: "Reporting \<Rightarrow> AttributeDescriptor \<Rightarrow> AttributeDescriptor" where
  "attribute_with_reporting r a = a\<lparr>attr_reporting := r\<rparr>"

record CommandDescriptor =
  cmd_id :: CommandId
  cmd_access :: Access
  cmd_response :: "CommandId option"

definition command_new :: "CommandId \<Rightarrow> CommandDescriptor" where
  "command_new c = \<lparr>cmd_id = c, cmd_access = access_invoke Operate, cmd_response = None\<rparr>"

definition command_with_response :: "CommandId \<Rightarrow> CommandDescriptor \<Rightarrow> CommandDescriptor" where
  "command_with_response r c = c\<lparr>cmd_response := Some r\<rparr>"

definition command_with_access :: "Access \<Rightarrow> CommandDescriptor \<Rightarrow> CommandDescriptor" where
  "command_with_access acc c = c\<lparr>cmd_access := acc\<rparr>"

datatype EventPriority = Debug | Info | Critical

record EventDescriptor =
  ev_id :: EventId
  ev_access :: Access
  ev_priority :: EventPriority

definition event_new :: "EventId \<Rightarrow> EventDescriptor" where
  "event_new e = \<lparr>ev_id = e, ev_access = access_read_only View, ev_priority = Info\<rparr>"

definition event_with_priority :: "EventPriority \<Rightarrow> EventDescriptor \<Rightarrow> EventDescriptor" where
  "event_with_priority p e = e\<lparr>ev_priority := p\<rparr>"

record ClusterDescriptor =
  cl_id :: ClusterId
  cl_revision :: u16
  cl_feature_map :: u32
  cl_attributes :: "AttributeDescriptor list"
  cl_accepted_commands :: "CommandDescriptor list"
  cl_generated_commands :: "CommandId list"
  cl_events :: "EventDescriptor list"

section \<open>Global attributes\<close>

definition CLUSTER_REVISION :: AttributeId where "CLUSTER_REVISION = 0xFFFD"
definition FEATURE_MAP :: AttributeId where "FEATURE_MAP = 0xFFFC"
definition ATTRIBUTE_LIST :: AttributeId where "ATTRIBUTE_LIST = 0xFFFB"
definition EVENT_LIST :: AttributeId where "EVENT_LIST = 0xFFFA"
definition ACCEPTED_COMMAND_LIST :: AttributeId where "ACCEPTED_COMMAND_LIST = 0xFFF9"
definition GENERATED_COMMAND_LIST :: AttributeId where "GENERATED_COMMAND_LIST = 0xFFF8"

lemmas global_ids = CLUSTER_REVISION_def FEATURE_MAP_def ATTRIBUTE_LIST_def EVENT_LIST_def
  ACCEPTED_COMMAND_LIST_def GENERATED_COMMAND_LIST_def

definition ATTRIBUTE_IDS :: "AttributeId list" where
  "ATTRIBUTE_IDS = [GENERATED_COMMAND_LIST, ACCEPTED_COMMAND_LIST, ATTRIBUTE_LIST, FEATURE_MAP, CLUSTER_REVISION]"

definition is_global :: "AttributeId \<Rightarrow> bool" where
  "is_global a \<longleftrightarrow> a \<in> {GENERATED_COMMAND_LIST, ACCEPTED_COMMAND_LIST, EVENT_LIST, ATTRIBUTE_LIST, FEATURE_MAP,
     CLUSTER_REVISION}"

definition global_descriptor :: "AttributeId \<Rightarrow> AttributeDescriptor option" where
  "global_descriptor a =
     (if \<not> is_global a \<or> a = EVENT_LIST then None
      else Some \<lparr>attr_id = a, attr_access = access_read_only View, attr_reporting = OnChange, attr_qualities = FIXED\<rparr>)"

section \<open>Lookup in a cluster\<close>

text \<open>
  \<^verbatim>\<open>slice::binary_search_by_key\<close> of the standard library: halve the candidate range without an
  early exit, then compare once.  \<open>None\<close> stands for \<^verbatim>\<open>Err\<close>, whose index the sources ignore.
\<close>

function bs_loop :: "('e \<Rightarrow> 'k::linorder) \<Rightarrow> 'k \<Rightarrow> 'e list \<Rightarrow> nat \<Rightarrow> nat \<Rightarrow> nat" where
  "bs_loop key k xs base len =
     (if len \<le> 1 then base
      else bs_loop key k xs (if key (xs ! (base + len div 2)) > k then base else base + len div 2) (len - len div 2))"
  by pat_completeness auto

termination
  by (relation "measure (\<lambda>(_, _, _, _, len). len)") auto

declare bs_loop.simps [simp del]

definition binary_search_by_key :: "('e \<Rightarrow> 'k::linorder) \<Rightarrow> 'k \<Rightarrow> 'e list \<Rightarrow> nat option" where
  "binary_search_by_key key k xs =
     (if xs = [] then None
      else let base = bs_loop key k xs 0 (length xs) in if key (xs ! base) = k then Some base else None)"

text \<open>\<^verbatim>\<open>.ok().and_then(|index| xs.get(index))\<close>.\<close>

definition sorted_get :: "('e \<Rightarrow> 'k::linorder) \<Rightarrow> 'k \<Rightarrow> 'e list \<Rightarrow> 'e option" where
  "sorted_get key k xs =
     (case binary_search_by_key key k xs of
        None \<Rightarrow> None
      | Some index \<Rightarrow> if index < length xs then Some (xs ! index) else None)"

definition cluster_attribute :: "AttributeId \<Rightarrow> ClusterDescriptor \<Rightarrow> AttributeDescriptor option" where
  "cluster_attribute a c =
     (case global_descriptor a of Some g \<Rightarrow> Some g | None \<Rightarrow> sorted_get attr_id a (cl_attributes c))"

definition cluster_accepted_command :: "CommandId \<Rightarrow> ClusterDescriptor \<Rightarrow> CommandDescriptor option" where
  "cluster_accepted_command x c = sorted_get cmd_id x (cl_accepted_commands c)"

definition cluster_event :: "EventId \<Rightarrow> ClusterDescriptor \<Rightarrow> EventDescriptor option" where
  "cluster_event e c = sorted_get ev_id e (cl_events c)"

definition attribute_ids :: "ClusterDescriptor \<Rightarrow> AttributeId list" where
  "attribute_ids c = map attr_id (cl_attributes c) @ ATTRIBUTE_IDS"

definition generated_command_ids :: "ClusterDescriptor \<Rightarrow> CommandId list" where
  "generated_command_ids c = List.map_filter cmd_response (cl_accepted_commands c) @ cl_generated_commands c"

text \<open>\<^verbatim>\<open>windows(2).all(..)\<close>.\<close>

definition ascending :: "('e \<Rightarrow> 'k::linorder) \<Rightarrow> 'e list \<Rightarrow> bool" where
  "ascending key xs \<longleftrightarrow> successively (\<lambda>a b. key a < key b) xs"

definition cluster_is_well_formed :: "ClusterDescriptor \<Rightarrow> bool" where
  "cluster_is_well_formed c \<longleftrightarrow>
     ascending attr_id (cl_attributes c) \<and> ascending cmd_id (cl_accepted_commands c) \<and> ascending ev_id (cl_events c)
     \<and> \<not> list_ex (\<lambda>a. is_global (attr_id a)) (cl_attributes c)"

record DeviceType =
  dt_device_type :: u32
  dt_revision :: u16

section \<open>Endpoints and nodes\<close>

record Endpoint =
  ep_id :: EndpointId
  ep_clusters :: "ClusterDescriptor list"
  ep_device_types :: "DeviceType list"
  ep_clients :: "ClusterId list"

definition endpoint_new :: "EndpointId \<Rightarrow> ClusterDescriptor list \<Rightarrow> Endpoint" where
  "endpoint_new e cs = \<lparr>ep_id = e, ep_clusters = cs, ep_device_types = [], ep_clients = []\<rparr>"

definition endpoint_with_clients :: "ClusterId list \<Rightarrow> Endpoint \<Rightarrow> Endpoint" where
  "endpoint_with_clients cs e = e\<lparr>ep_clients := cs\<rparr>"

definition endpoint_with_device_types :: "DeviceType list \<Rightarrow> Endpoint \<Rightarrow> Endpoint" where
  "endpoint_with_device_types ds e = e\<lparr>ep_device_types := ds\<rparr>"

definition has_device_type :: "u32 \<Rightarrow> Endpoint \<Rightarrow> bool" where
  "has_device_type d e \<longleftrightarrow> list_ex (\<lambda>x. dt_device_type x = d) (ep_device_types e)"

definition endpoint_cluster :: "ClusterId \<Rightarrow> Endpoint \<Rightarrow> ClusterDescriptor option" where
  "endpoint_cluster c e = sorted_get cl_id c (ep_clusters e)"

type_synonym Node = "Endpoint list"

datatype Malformed = MalformedEndpoints | MalformedClusters EndpointId | MalformedCluster EndpointId ClusterId

record Resolved =
  rs_endpoint :: EndpointId
  rs_cluster :: ClusterDescriptor
  rs_attribute :: AttributeId

record ResolvedCommand =
  rc_endpoint :: EndpointId
  rc_cluster :: ClusterDescriptor
  rc_command :: CommandDescriptor

record ResolvedEvent =
  re_endpoint :: EndpointId
  re_cluster :: ClusterDescriptor
  re_event :: EventDescriptor

datatype Missing = MissingEndpoint | MissingCluster | MissingAttribute
datatype MissingCommand = NoEndpoint | NoCluster | NoCommand

definition node_endpoint :: "EndpointId \<Rightarrow> Node \<Rightarrow> Endpoint option" where
  "node_endpoint e n = sorted_get ep_id e n"

definition node_cluster :: "EndpointId \<Rightarrow> ClusterId \<Rightarrow> Node \<Rightarrow> ClusterDescriptor option" where
  "node_cluster e c n = Option.bind (node_endpoint e n) (endpoint_cluster c)"

fun validate_clusters :: "EndpointId \<Rightarrow> ClusterDescriptor list \<Rightarrow> Malformed + unit" where
  "validate_clusters e [] = Inr ()"
| "validate_clusters e (c # cs) =
     (if \<not> cluster_is_well_formed c then Inl (MalformedCluster e (cl_id c)) else validate_clusters e cs)"

fun validate_endpoints :: "Endpoint list \<Rightarrow> Malformed + unit" where
  "validate_endpoints [] = Inr ()"
| "validate_endpoints (e # es) =
     (if \<not> ascending cl_id (ep_clusters e) then Inl (MalformedClusters (ep_id e))
      else case validate_clusters (ep_id e) (ep_clusters e) of
             Inl m \<Rightarrow> Inl m
           | Inr _ \<Rightarrow> validate_endpoints es)"

definition node_validate :: "Node \<Rightarrow> Malformed + unit" where
  "node_validate n = (if \<not> ascending ep_id n then Inl MalformedEndpoints else validate_endpoints n)"

definition node_resolve :: "EndpointId \<Rightarrow> ClusterId \<Rightarrow> AttributeId \<Rightarrow> Node \<Rightarrow> Missing + Resolved" where
  "node_resolve e c a n =
     (case node_endpoint e n of
        None \<Rightarrow> Inl MissingEndpoint
      | Some er \<Rightarrow>
          (case endpoint_cluster c er of
             None \<Rightarrow> Inl MissingCluster
           | Some cr \<Rightarrow>
               if cluster_attribute a cr = None then Inl MissingAttribute
               else Inr \<lparr>rs_endpoint = e, rs_cluster = cr, rs_attribute = a\<rparr>))"

definition node_resolve_event :: "EndpointId \<Rightarrow> ClusterId \<Rightarrow> EventId \<Rightarrow> Node \<Rightarrow> Missing + ResolvedEvent" where
  "node_resolve_event e c v n =
     (case node_endpoint e n of
        None \<Rightarrow> Inl MissingEndpoint
      | Some er \<Rightarrow>
          (case endpoint_cluster c er of
             None \<Rightarrow> Inl MissingCluster
           | Some cr \<Rightarrow>
               (case List.find (\<lambda>d. ev_id d = v) (cl_events cr) of
                  None \<Rightarrow> Inl MissingAttribute
                | Some d \<Rightarrow> Inr \<lparr>re_endpoint = e, re_cluster = cr, re_event = d\<rparr>)))"

definition node_resolve_command :: "EndpointId \<Rightarrow> ClusterId \<Rightarrow> CommandId \<Rightarrow> Node \<Rightarrow> MissingCommand + ResolvedCommand" where
  "node_resolve_command e c x n =
     (case node_endpoint e n of
        None \<Rightarrow> Inl NoEndpoint
      | Some er \<Rightarrow>
          (case endpoint_cluster c er of
             None \<Rightarrow> Inl NoCluster
           | Some cr \<Rightarrow>
               (case cluster_accepted_command x cr of
                  None \<Rightarrow> Inl NoCommand
                | Some d \<Rightarrow> Inr \<lparr>rc_endpoint = e, rc_cluster = cr, rc_command = d\<rparr>)))"

text \<open>A path with a wildcard cluster and a concrete attribute may only name a global attribute.\<close>

definition path_is_valid_for_read :: "AttributePath \<Rightarrow> bool" where
  "path_is_valid_for_read p \<longleftrightarrow>
     (case (ap_cluster p, ap_attribute p) of (None, Some a) \<Rightarrow> is_global a | _ \<Rightarrow> True)"

section \<open>Expansion of paths\<close>

record ExpandCursor =
  xc_endpoint :: nat
  xc_cluster :: nat
  xc_attribute :: nat

definition cursor_START :: ExpandCursor where
  "cursor_START = \<lparr>xc_endpoint = 0, xc_cluster = 0, xc_attribute = 0\<rparr>"

definition cursor_is_start :: "ExpandCursor \<Rightarrow> bool" where
  "cursor_is_start c \<longleftrightarrow> xc_endpoint c = 0 \<and> xc_cluster c = 0 \<and> xc_attribute c = 0"

record Expand =
  xp_endpoints :: "Endpoint list"
  xp_endpoint_filter :: "EndpointId option"
  xp_cluster_filter :: "ClusterId option"
  xp_attribute_filter :: "AttributeId option"
  xp_endpoint_index :: nat
  xp_cluster_index :: nat
  xp_attribute_index :: nat

definition expand_cursor :: "Expand \<Rightarrow> ExpandCursor" where
  "expand_cursor x = \<lparr>xc_endpoint = xp_endpoint_index x, xc_cluster = xp_cluster_index x,
     xc_attribute = xp_attribute_index x\<rparr>"

definition expand_from :: "AttributePath \<Rightarrow> ExpandCursor \<Rightarrow> Node \<Rightarrow> Expand" where
  "expand_from p cursor n = \<lparr>xp_endpoints = n, xp_endpoint_filter = ap_endpoint p, xp_cluster_filter = ap_cluster p,
     xp_attribute_filter = ap_attribute p, xp_endpoint_index = xc_endpoint cursor,
     xp_cluster_index = xc_cluster cursor, xp_attribute_index = xc_attribute cursor\<rparr>"

definition expand :: "AttributePath \<Rightarrow> Node \<Rightarrow> Expand" where
  "expand p n = expand_from p cursor_START n"

text \<open>\<^verbatim>\<open>filter.is_some_and(|wanted| wanted != id)\<close>.\<close>

definition filtered_out :: "'k option \<Rightarrow> 'k \<Rightarrow> bool" where
  "filtered_out f k \<longleftrightarrow> (case f of None \<Rightarrow> False | Some wanted \<Rightarrow> wanted \<noteq> k)"

definition nth_attribute :: "ClusterDescriptor \<Rightarrow> nat \<Rightarrow> AttributeId option" where
  "nth_attribute c i =
     (case checked_sub i (length (cl_attributes c)) of
        Some g \<Rightarrow> if g < length ATTRIBUTE_IDS then Some (ATTRIBUTE_IDS ! g) else None
      | None \<Rightarrow> if i < length (cl_attributes c) then Some (attr_id (cl_attributes c ! i)) else None)"

definition next_endpoint :: "Expand \<Rightarrow> Expand" where
  "next_endpoint x = x\<lparr>xp_endpoint_index := Suc (xp_endpoint_index x), xp_cluster_index := 0, xp_attribute_index := 0\<rparr>"

definition next_cluster :: "Expand \<Rightarrow> Expand" where
  "next_cluster x = x\<lparr>xp_cluster_index := Suc (xp_cluster_index x), xp_attribute_index := 0\<rparr>"

definition next_attribute :: "Expand \<Rightarrow> Expand" where
  "next_attribute x = x\<lparr>xp_attribute_index := Suc (xp_attribute_index x)\<rparr>"

lemmas expand_moves = next_endpoint_def next_cluster_def next_attribute_def

text \<open>
  \<^verbatim>\<open>next\<close>.  The saturating increments never saturate: an index is only moved on while it is
  below the length of the slice it indexes.
\<close>

function expand_next :: "Expand \<Rightarrow> Resolved option \<times> Expand" where
  "expand_next x =
     (if length (xp_endpoints x) \<le> xp_endpoint_index x then (None, x)
      else let e = xp_endpoints x ! xp_endpoint_index x in
      if filtered_out (xp_endpoint_filter x) (ep_id e) then expand_next (next_endpoint x)
      else if length (ep_clusters e) \<le> xp_cluster_index x then expand_next (next_endpoint x)
      else let c = ep_clusters e ! xp_cluster_index x in
      if filtered_out (xp_cluster_filter x) (cl_id c) then expand_next (next_cluster x)
      else case nth_attribute c (xp_attribute_index x) of
        None \<Rightarrow> expand_next (next_cluster x)
      | Some a \<Rightarrow>
          if filtered_out (xp_attribute_filter x) a then expand_next (next_attribute x)
          else (Some \<lparr>rs_endpoint = ep_id e, rs_cluster = c, rs_attribute = a\<rparr>, next_attribute x))"
  by pat_completeness auto

termination
proof (relation "measures [\<lambda>x. length (xp_endpoints x) - xp_endpoint_index x,
    \<lambda>x. length (ep_clusters (xp_endpoints x ! xp_endpoint_index x)) - xp_cluster_index x,
    \<lambda>x. length (cl_attributes (ep_clusters (xp_endpoints x ! xp_endpoint_index x) ! xp_cluster_index x))
          + length ATTRIBUTE_IDS - xp_attribute_index x]")
qed (auto simp: expand_moves nth_attribute_def checked_sub_def split: if_splits)

declare expand_next.simps [simp del]

record ExpandCommands =
  xk_endpoints :: "Endpoint list"
  xk_endpoint_filter :: "EndpointId option"
  xk_cluster_filter :: "ClusterId option"
  xk_command_filter :: "CommandId option"
  xk_endpoint_index :: nat
  xk_cluster_index :: nat
  xk_command_index :: nat

definition expand_commands :: "CommandPath \<Rightarrow> Node \<Rightarrow> ExpandCommands" where
  "expand_commands p n = \<lparr>xk_endpoints = n, xk_endpoint_filter = cp_endpoint p, xk_cluster_filter = cp_cluster p,
     xk_command_filter = cp_command p, xk_endpoint_index = 0, xk_cluster_index = 0, xk_command_index = 0\<rparr>"

function expand_commands_next :: "ExpandCommands \<Rightarrow> ResolvedCommand option \<times> ExpandCommands" where
  "expand_commands_next x =
     (if length (xk_endpoints x) \<le> xk_endpoint_index x then (None, x)
      else let e = xk_endpoints x ! xk_endpoint_index x;
               skip_endpoint = x\<lparr>xk_endpoint_index := Suc (xk_endpoint_index x), xk_cluster_index := 0,
                                  xk_command_index := 0\<rparr>;
               skip_cluster = x\<lparr>xk_cluster_index := Suc (xk_cluster_index x), xk_command_index := 0\<rparr>;
               moved = x\<lparr>xk_command_index := Suc (xk_command_index x)\<rparr> in
      if filtered_out (xk_endpoint_filter x) (ep_id e) then expand_commands_next skip_endpoint
      else if length (ep_clusters e) \<le> xk_cluster_index x then expand_commands_next skip_endpoint
      else let c = ep_clusters e ! xk_cluster_index x in
      if filtered_out (xk_cluster_filter x) (cl_id c) then expand_commands_next skip_cluster
      else if length (cl_accepted_commands c) \<le> xk_command_index x then expand_commands_next skip_cluster
      else let d = cl_accepted_commands c ! xk_command_index x in
      if filtered_out (xk_command_filter x) (cmd_id d) then expand_commands_next moved
      else (Some \<lparr>rc_endpoint = ep_id e, rc_cluster = c, rc_command = d\<rparr>, moved))"
  by pat_completeness auto

termination
proof (relation "measures [\<lambda>x. length (xk_endpoints x) - xk_endpoint_index x,
    \<lambda>x. length (ep_clusters (xk_endpoints x ! xk_endpoint_index x)) - xk_cluster_index x,
    \<lambda>x. length (cl_accepted_commands (ep_clusters (xk_endpoints x ! xk_endpoint_index x) ! xk_cluster_index x))
          - xk_command_index x]")
qed auto

declare expand_commands_next.simps [simp del]

section \<open>Binary search on ascending tables\<close>

lemma ascending_sorted: "ascending key xs \<longleftrightarrow> sorted_wrt (\<lambda>a b. key a < key b) xs"
  unfolding ascending_def by (rule successively_conv_sorted_wrt) (auto simp: transp_def)

lemma ascending_less: "ascending key xs \<Longrightarrow> i < j \<Longrightarrow> j < length xs \<Longrightarrow> key (xs ! i) < key (xs ! j)"
  unfolding ascending_sorted by (rule sorted_wrt_nth_less)

lemma ascending_distinct: "ascending key xs \<Longrightarrow> distinct (map key xs)"
  unfolding ascending_sorted by (induction xs) (auto simp: less_imp_neq)

lemma bs_loop_finds:
  assumes "ascending key xs" and "i < length xs" and "key (xs ! i) = k"
    and "base \<le> i" and "i < base + len" and "base + len \<le> length xs"
  shows "bs_loop key k xs base len = i"
  using assms
proof (induction key k xs base len rule: bs_loop.induct)
  case (1 key k xs base len)
  show ?case
  proof (cases "len \<le> 1")
    case True
    then show ?thesis using 1(5,6) by (subst bs_loop.simps) simp
  next
    case False
    let ?mid = "base + len div 2"
    have m: "?mid < length xs" "?mid < base + len" using False 1(7) by simp_all
    have "(k < key (xs ! ?mid)) = (i < ?mid)"
      using ascending_less [OF 1(2), of i ?mid] ascending_less [OF 1(2), of ?mid i] 1(3,4) m(1)
      by (metis less_irrefl less_not_sym linorder_neqE_nat)
    then have "bs_loop key k xs (if key (xs ! ?mid) > k then base else ?mid) (len - len div 2) = i"
      using False 1(5-7) by (intro 1(1) 1(2-4)) auto
    then show ?thesis using False by (subst bs_loop.simps) simp
  qed
qed

lemma bs_loop_bound: "0 < len \<Longrightarrow> base + len \<le> n \<Longrightarrow> bs_loop key k xs base len < n"
proof (induction key k xs base len rule: bs_loop.induct)
  case (1 key k xs base len)
  show ?case
  proof (cases "len \<le> 1")
    case True
    then show ?thesis using 1 by (subst bs_loop.simps) simp
  next
    case False
    then have "bs_loop key k xs (if key (xs ! (base + len div 2)) > k then base else base + len div 2) (len - len div 2) < n"
      using 1(2,3) by (intro 1(1)) auto
    then show ?thesis using False by (subst bs_loop.simps) simp
  qed
qed

lemma sorted_get_find:
  assumes "ascending key xs"
  shows "sorted_get key k xs = List.find (\<lambda>x. key x = k) xs"
proof (cases "\<exists>i < length xs. key (xs ! i) = k")
  case True
  then obtain i where i: "i < length xs" "key (xs ! i) = k" by blast
  then have "bs_loop key k xs 0 (length xs) = i" by (intro bs_loop_finds [OF assms]) auto
  then have "sorted_get key k xs = Some (xs ! i)"
    using i by (auto simp: sorted_get_def binary_search_by_key_def)
  moreover have "List.find (\<lambda>x. key x = key (xs ! i)) xs = Some (xs ! i)"
    using i by (intro find_unique [OF ascending_distinct [OF assms]]) simp
  ultimately show ?thesis using i by simp
next
  case False
  then have "List.find (\<lambda>x. key x = k) xs = None" by (auto simp: find_None in_set_conv_nth)
  moreover have "binary_search_by_key key k xs = None"
    using False bs_loop_bound [of "length xs" 0 "length xs" key k xs]
    by (auto simp: binary_search_by_key_def Let_def)
  ultimately show ?thesis by (simp add: sorted_get_def)
qed

section \<open>The expansion as a list\<close>

text \<open>
  Attributes and commands are expanded alike: \<open>items\<close> lists what a cluster has, \<open>key\<close> is the
  identifier the filter looks at, and \<open>mk\<close> makes the resolved path.
\<close>

definition matching :: "'k option \<Rightarrow> ('e \<Rightarrow> 'k) \<Rightarrow> 'e list \<Rightarrow> 'e list" where
  "matching f key xs = filter (\<lambda>x. \<not> filtered_out f (key x)) xs"

definition cluster_items ::
    "('i \<Rightarrow> 'k) \<Rightarrow> (EndpointId \<Rightarrow> ClusterDescriptor \<Rightarrow> 'i \<Rightarrow> 'r) \<Rightarrow> 'k option \<Rightarrow> EndpointId \<Rightarrow> ClusterDescriptor
      \<Rightarrow> 'i list \<Rightarrow> 'r list" where
  "cluster_items key mk fi e c is = map (mk e c) (matching fi key is)"

definition endpoint_items ::
    "(ClusterDescriptor \<Rightarrow> 'i list) \<Rightarrow> ('i \<Rightarrow> 'k) \<Rightarrow> (EndpointId \<Rightarrow> ClusterDescriptor \<Rightarrow> 'i \<Rightarrow> 'r) \<Rightarrow> ClusterId option
      \<Rightarrow> 'k option \<Rightarrow> EndpointId \<Rightarrow> ClusterDescriptor list \<Rightarrow> 'r list" where
  "endpoint_items items key mk fc fi e cs =
     concat (map (\<lambda>c. cluster_items key mk fi e c (items c)) (matching fc cl_id cs))"

definition node_items ::
    "(ClusterDescriptor \<Rightarrow> 'i list) \<Rightarrow> ('i \<Rightarrow> 'k) \<Rightarrow> (EndpointId \<Rightarrow> ClusterDescriptor \<Rightarrow> 'i \<Rightarrow> 'r) \<Rightarrow> EndpointId option
      \<Rightarrow> ClusterId option \<Rightarrow> 'k option \<Rightarrow> Endpoint list \<Rightarrow> 'r list" where
  "node_items items key mk fe fc fi es =
     concat (map (\<lambda>e. endpoint_items items key mk fc fi (ep_id e) (ep_clusters e)) (matching fe ep_id es))"

text \<open>What is left of the list from a position on.\<close>

definition items_from ::
    "(ClusterDescriptor \<Rightarrow> 'i list) \<Rightarrow> ('i \<Rightarrow> 'k) \<Rightarrow> (EndpointId \<Rightarrow> ClusterDescriptor \<Rightarrow> 'i \<Rightarrow> 'r) \<Rightarrow> EndpointId option
      \<Rightarrow> ClusterId option \<Rightarrow> 'k option \<Rightarrow> Endpoint list \<Rightarrow> nat \<Rightarrow> nat \<Rightarrow> nat \<Rightarrow> 'r list" where
  "items_from items key mk fe fc fi es ei ci ii =
     (if length es \<le> ei then []
      else
        let e = es ! ei in
        (if filtered_out fe (ep_id e) then []
         else if length (ep_clusters e) \<le> ci then []
         else
           let c = ep_clusters e ! ci in
           (if filtered_out fc (cl_id c) then [] else cluster_items key mk fi (ep_id e) c (drop ii (items c)))
           @ endpoint_items items key mk fc fi (ep_id e) (drop (Suc ci) (ep_clusters e)))
        @ node_items items key mk fe fc fi (drop (Suc ei) es))"

lemma items_step:
  "cluster_items key mk fi e c (i # is) = (if filtered_out fi (key i) then [] else [mk e c i]) @ cluster_items key mk fi e c is"
  "endpoint_items items key mk fc fi e (c # cs) =
     (if filtered_out fc (cl_id c) then [] else cluster_items key mk fi e c (items c)) @ endpoint_items items key mk fc fi e cs"
  "node_items items key mk fe fc fi (e' # es) =
     (if filtered_out fe (ep_id e') then [] else endpoint_items items key mk fc fi (ep_id e') (ep_clusters e'))
     @ node_items items key mk fe fc fi es"
  "cluster_items key mk fi e c [] = []" "endpoint_items items key mk fc fi e [] = []" "node_items items key mk fe fc fi [] = []"
  by (simp_all add: cluster_items_def endpoint_items_def node_items_def matching_def)

lemma items_from_node: "items_from items key mk fe fc fi es ei 0 0 = node_items items key mk fe fc fi (drop ei es)"
proof (cases "ei < length es")
  case True
  then have "drop ei es = es ! ei # drop (Suc ei) es" by (simp add: Cons_nth_drop_Suc)
  then show ?thesis
    using True by (cases "ep_clusters (es ! ei)") (auto simp: items_from_def Let_def items_step)
qed (simp add: items_from_def items_step)

lemma items_from_endpoint:
  assumes "\<not> length es \<le> ei" and "filtered_out fe (ep_id (es ! ei)) \<or> length (ep_clusters (es ! ei)) \<le> ci"
  shows "items_from items key mk fe fc fi es ei ci ii = items_from items key mk fe fc fi es (Suc ei) 0 0"
  unfolding items_from_node using assms by (auto simp: items_from_def Let_def)

lemma items_from_cluster:
  assumes "\<not> length es \<le> ei" and "\<not> filtered_out fe (ep_id (es ! ei))" and "\<not> length (ep_clusters (es ! ei)) \<le> ci"
    and "filtered_out fc (cl_id (ep_clusters (es ! ei) ! ci)) \<or> length (items (ep_clusters (es ! ei) ! ci)) \<le> ii"
  shows "items_from items key mk fe fc fi es ei ci ii = items_from items key mk fe fc fi es ei (Suc ci) 0"
proof (cases "Suc ci < length (ep_clusters (es ! ei))")
  case True
  then have "drop (Suc ci) (ep_clusters (es ! ei)) = ep_clusters (es ! ei) ! Suc ci # drop (Suc (Suc ci)) (ep_clusters (es ! ei))"
    by (simp add: Cons_nth_drop_Suc)
  then show ?thesis using assms True by (auto simp: items_from_def Let_def items_step)
next
  case False
  then show ?thesis using assms by (auto simp: items_from_def Let_def items_step)
qed

lemma items_from_item:
  assumes "\<not> length es \<le> ei" and "\<not> filtered_out fe (ep_id (es ! ei))" and "\<not> length (ep_clusters (es ! ei)) \<le> ci"
    and "\<not> filtered_out fc (cl_id (ep_clusters (es ! ei) ! ci))" and "ii < length (items (ep_clusters (es ! ei) ! ci))"
  shows "items_from items key mk fe fc fi es ei ci ii =
    (if filtered_out fi (key (items (ep_clusters (es ! ei) ! ci) ! ii)) then []
     else [mk (ep_id (es ! ei)) (ep_clusters (es ! ei) ! ci) (items (ep_clusters (es ! ei) ! ci) ! ii)])
    @ items_from items key mk fe fc fi es ei ci (Suc ii)"
proof -
  let ?is = "items (ep_clusters (es ! ei) ! ci)"
  have "drop ii ?is = ?is ! ii # drop (Suc ii) ?is" using assms(5) by (simp add: Cons_nth_drop_Suc)
  then show ?thesis using assms by (simp add: items_from_def Let_def items_step)
qed

section \<open>Iterators that can be resumed\<close>

text \<open>At most \<open>n\<close> calls of \<^verbatim>\<open>next\<close>.\<close>

fun iter_take :: "('s \<Rightarrow> 'a option \<times> 's) \<Rightarrow> nat \<Rightarrow> 's \<Rightarrow> 'a list \<times> 's" where
  "iter_take nxt 0 s = ([], s)"
| "iter_take nxt (Suc n) s =
     (case nxt s of
        (None, s') \<Rightarrow> ([], s')
      | (Some a, s') \<Rightarrow> let (as, s'') = iter_take nxt n s' in (a # as, s''))"

text \<open>One call of \<^verbatim>\<open>next\<close> yields the head of what is left.\<close>

definition yields_head :: "('s \<Rightarrow> 'a option \<times> 's) \<Rightarrow> ('s \<Rightarrow> 'a list) \<Rightarrow> 's \<Rightarrow> bool" where
  "yields_head nxt remaining s \<longleftrightarrow>
     (case nxt s of
        (None, s') \<Rightarrow> remaining s = [] \<and> remaining s' = []
      | (Some a, s') \<Rightarrow> remaining s = a # remaining s')"

lemma yields_head_skip:
  "nxt s = nxt s' \<Longrightarrow> remaining s = remaining s' \<Longrightarrow> yields_head nxt remaining s' \<Longrightarrow> yields_head nxt remaining s"
  by (auto simp: yields_head_def split: prod.splits option.splits)

locale resumable =
  fixes nxt :: "'s \<Rightarrow> 'a option \<times> 's" and remaining :: "'s \<Rightarrow> 'a list"
  assumes next_remaining: "yields_head nxt remaining s"
begin

lemma take_remaining:
  "fst (iter_take nxt n s) = take n (remaining s) \<and> remaining (snd (iter_take nxt n s)) = drop n (remaining s)"
proof (induction n arbitrary: s)
  case (Suc n)
  obtain r s' where n: "nxt s = (r, s')" by (cases "nxt s")
  then show ?case
    using next_remaining [of s, unfolded yields_head_def] Suc [of s'] by (cases r) (simp_all add: case_prod_beta Let_def)
qed simp

lemma resumed:
  assumes "restart (snd (iter_take nxt n s)) = s'" and "remaining s' = remaining (snd (iter_take nxt n s))"
  shows "fst (iter_take nxt n s) @ fst (iter_take nxt m s') = take (n + m) (remaining s)"
  using take_remaining [of n s] take_remaining [of m s'] assms(2) by (simp add: take_add)

lemma drains: "length (remaining s) < n \<Longrightarrow> fst (iter_take nxt n s) = remaining s"
  using take_remaining [of n s] by simp

end

definition mk_resolved :: "EndpointId \<Rightarrow> ClusterDescriptor \<Rightarrow> AttributeId \<Rightarrow> Resolved" where
  "mk_resolved e c a = \<lparr>rs_endpoint = e, rs_cluster = c, rs_attribute = a\<rparr>"

definition mk_resolved_command :: "EndpointId \<Rightarrow> ClusterDescriptor \<Rightarrow> CommandDescriptor \<Rightarrow> ResolvedCommand" where
  "mk_resolved_command e c d = \<lparr>rc_endpoint = e, rc_cluster = c, rc_command = d\<rparr>"

definition existing_paths :: "AttributePath \<Rightarrow> Node \<Rightarrow> Resolved list" where
  "existing_paths p n =
     node_items attribute_ids (\<lambda>a. a) mk_resolved (ap_endpoint p) (ap_cluster p) (ap_attribute p) n"

definition existing_commands :: "CommandPath \<Rightarrow> Node \<Rightarrow> ResolvedCommand list" where
  "existing_commands p n =
     node_items cl_accepted_commands cmd_id mk_resolved_command (cp_endpoint p) (cp_cluster p) (cp_command p) n"

definition remaining_paths :: "Expand \<Rightarrow> Resolved list" where
  "remaining_paths x = items_from attribute_ids (\<lambda>a. a) mk_resolved (xp_endpoint_filter x) (xp_cluster_filter x)
     (xp_attribute_filter x) (xp_endpoints x) (xp_endpoint_index x) (xp_cluster_index x) (xp_attribute_index x)"

definition remaining_commands :: "ExpandCommands \<Rightarrow> ResolvedCommand list" where
  "remaining_commands x = items_from cl_accepted_commands cmd_id mk_resolved_command (xk_endpoint_filter x)
     (xk_cluster_filter x) (xk_command_filter x) (xk_endpoints x) (xk_endpoint_index x) (xk_cluster_index x)
     (xk_command_index x)"

lemma nth_attribute_nth:
  "nth_attribute c i = (if i < length (attribute_ids c) then Some (attribute_ids c ! i) else None)"
  by (auto simp: nth_attribute_def checked_sub_def attribute_ids_def nth_append)

lemma expand_next_remaining:
  "yields_head expand_next remaining_paths x"
proof (induction x rule: expand_next.induct)
  case (1 x)
  let ?e = "xp_endpoints x ! xp_endpoint_index x" and ?c = "ep_clusters (xp_endpoints x ! xp_endpoint_index x) ! xp_cluster_index x"
  consider (finished) "length (xp_endpoints x) \<le> xp_endpoint_index x"
    | (endpoint) "\<not> length (xp_endpoints x) \<le> xp_endpoint_index x"
        "filtered_out (xp_endpoint_filter x) (ep_id ?e) \<or> length (ep_clusters ?e) \<le> xp_cluster_index x"
    | (cluster) "\<not> length (xp_endpoints x) \<le> xp_endpoint_index x"
        "\<not> filtered_out (xp_endpoint_filter x) (ep_id ?e)" "\<not> length (ep_clusters ?e) \<le> xp_cluster_index x"
        "filtered_out (xp_cluster_filter x) (cl_id ?c) \<or> length (attribute_ids ?c) \<le> xp_attribute_index x"
    | (attribute) "\<not> length (xp_endpoints x) \<le> xp_endpoint_index x"
        "\<not> filtered_out (xp_endpoint_filter x) (ep_id ?e)" "\<not> length (ep_clusters ?e) \<le> xp_cluster_index x"
        "\<not> filtered_out (xp_cluster_filter x) (cl_id ?c)" "xp_attribute_index x < length (attribute_ids ?c)"
    by (meson not_le)
  then show ?case
  proof cases
    case finished
    then show ?thesis by (simp add: yields_head_def expand_next.simps [of x] remaining_paths_def items_from_def)
  next
    case endpoint
    have "remaining_paths x = remaining_paths (next_endpoint x)"
      using items_from_endpoint [OF endpoint] by (simp add: remaining_paths_def next_endpoint_def)
    moreover have "expand_next x = expand_next (next_endpoint x)"
      using endpoint by (subst expand_next.simps) (auto simp: Let_def)
    moreover have "yields_head expand_next remaining_paths (next_endpoint x)"
      using endpoint 1(1,2) by (cases "filtered_out (xp_endpoint_filter x) (ep_id ?e)") auto
    ultimately show ?thesis by (blast intro: yields_head_skip)
  next
    case cluster
    have "remaining_paths x = remaining_paths (next_cluster x)"
      using items_from_cluster [where items = attribute_ids, OF cluster] by (simp add: remaining_paths_def next_cluster_def)
    moreover have "expand_next x = expand_next (next_cluster x)"
      using cluster by (subst expand_next.simps) (auto simp: Let_def nth_attribute_nth)
    moreover have "yields_head expand_next remaining_paths (next_cluster x)"
      using cluster 1(3,4) by (cases "filtered_out (xp_cluster_filter x) (cl_id ?c)") (auto simp: nth_attribute_nth)
    ultimately show ?thesis by (blast intro: yields_head_skip)
  next
    case attribute
    note r = items_from_item [where items = attribute_ids, OF attribute, where key = "\<lambda>a. a" and mk = mk_resolved and fi = "xp_attribute_filter x"]
    show ?thesis
    proof (cases "filtered_out (xp_attribute_filter x) (attribute_ids ?c ! xp_attribute_index x)")
      case True
      then have "expand_next x = expand_next (next_attribute x)"
        using attribute by (subst expand_next.simps) (simp add: Let_def nth_attribute_nth)
      moreover have "remaining_paths x = remaining_paths (next_attribute x)"
        using True r by (simp add: remaining_paths_def next_attribute_def)
      moreover have "yields_head expand_next remaining_paths (next_attribute x)"
        using True attribute 1(5) by (simp add: nth_attribute_nth)
      ultimately show ?thesis by (blast intro: yields_head_skip)
    next
      case False
      then show ?thesis
        using attribute r
        by (simp add: yields_head_def expand_next.simps [of x] Let_def nth_attribute_nth remaining_paths_def next_attribute_def mk_resolved_def)
    qed
  qed
qed

lemma expand_commands_next_remaining:
  "yields_head expand_commands_next remaining_commands x"
proof (induction x rule: expand_commands_next.induct)
  case (1 x)
  let ?e = "xk_endpoints x ! xk_endpoint_index x" and ?c = "ep_clusters (xk_endpoints x ! xk_endpoint_index x) ! xk_cluster_index x"
  let ?fe = "filtered_out (xk_endpoint_filter x) (ep_id ?e)" and ?fc = "filtered_out (xk_cluster_filter x) (cl_id ?c)"
  consider (finished) "length (xk_endpoints x) \<le> xk_endpoint_index x"
    | (endpoint) "\<not> length (xk_endpoints x) \<le> xk_endpoint_index x" "?fe \<or> length (ep_clusters ?e) \<le> xk_cluster_index x"
    | (cluster) "\<not> length (xk_endpoints x) \<le> xk_endpoint_index x" "\<not> ?fe" "\<not> length (ep_clusters ?e) \<le> xk_cluster_index x"
        "?fc \<or> length (cl_accepted_commands ?c) \<le> xk_command_index x"
    | (command) "\<not> length (xk_endpoints x) \<le> xk_endpoint_index x" "\<not> ?fe" "\<not> length (ep_clusters ?e) \<le> xk_cluster_index x"
        "\<not> ?fc" "xk_command_index x < length (cl_accepted_commands ?c)"
    by (meson not_le)
  then show ?case
  proof cases
    case finished
    then show ?thesis by (simp add: yields_head_def expand_commands_next.simps [of x] remaining_commands_def items_from_def)
  next
    case endpoint
    let ?x = "x\<lparr>xk_endpoint_index := Suc (xk_endpoint_index x), xk_cluster_index := 0, xk_command_index := 0\<rparr>"
    have "remaining_commands x = remaining_commands ?x"
      using items_from_endpoint [OF endpoint] by (simp add: remaining_commands_def)
    moreover have "expand_commands_next x = expand_commands_next ?x"
      using endpoint by (subst expand_commands_next.simps) (auto simp: Let_def)
    moreover have "yields_head expand_commands_next remaining_commands ?x"
    proof (cases ?fe)
      case True
      show ?thesis by (rule 1(1) [OF endpoint(1) refl refl refl refl True])
    next
      case False
      with endpoint(2) show ?thesis by (intro 1(2) [OF endpoint(1) refl refl refl refl False]) simp
    qed
    ultimately show ?thesis by (blast intro: yields_head_skip)
  next
    case cluster
    let ?x = "x\<lparr>xk_cluster_index := Suc (xk_cluster_index x), xk_command_index := 0\<rparr>"
    have "remaining_commands x = remaining_commands ?x"
      using items_from_cluster [where items = cl_accepted_commands, OF cluster] by (simp add: remaining_commands_def)
    moreover have "expand_commands_next x = expand_commands_next ?x"
      using cluster by (subst expand_commands_next.simps) (auto simp: Let_def)
    moreover have "yields_head expand_commands_next remaining_commands ?x"
    proof (cases ?fc)
      case True
      show ?thesis by (rule 1(3) [OF cluster(1) refl refl refl refl cluster(2,3) refl True])
    next
      case False
      with cluster(4) show ?thesis by (intro 1(4) [OF cluster(1) refl refl refl refl cluster(2,3) refl False]) simp
    qed
    ultimately show ?thesis by (blast intro: yields_head_skip)
  next
    case command
    let ?x = "x\<lparr>xk_command_index := Suc (xk_command_index x)\<rparr>"
    note r = items_from_item [where items = cl_accepted_commands, OF command, where key = cmd_id and mk = mk_resolved_command and fi = "xk_command_filter x"]
    show ?thesis
    proof (cases "filtered_out (xk_command_filter x) (cmd_id (cl_accepted_commands ?c ! xk_command_index x))")
      case True
      then have "expand_commands_next x = expand_commands_next ?x"
        using command by (subst expand_commands_next.simps) (simp add: Let_def)
      moreover have "remaining_commands x = remaining_commands ?x"
        using True r by (simp add: remaining_commands_def)
      moreover have "yields_head expand_commands_next remaining_commands ?x"
        by (rule 1(5) [OF command(1) refl refl refl refl command(2,3) refl command(4) _ refl True]) (use command(5) in simp)
      ultimately show ?thesis by (blast intro: yields_head_skip)
    next
      case False
      then show ?thesis
        using command r
        by (simp add: yields_head_def expand_commands_next.simps [of x] Let_def remaining_commands_def mk_resolved_command_def)
    qed
  qed
qed

interpretation xpi: resumable expand_next remaining_paths
  by unfold_locales (rule expand_next_remaining)

interpretation xki: resumable expand_commands_next remaining_commands
  by unfold_locales (rule expand_commands_next_remaining)

section \<open>Validated nodes\<close>

definition node_ok :: "Node \<Rightarrow> bool" where
  "node_ok n \<longleftrightarrow> ascending ep_id n
     \<and> (\<forall>e \<in> set n. ascending cl_id (ep_clusters e) \<and> (\<forall>c \<in> set (ep_clusters e). cluster_is_well_formed c))"

lemma validate_clusters_ok: "validate_clusters e cs = Inr () \<longleftrightarrow> (\<forall>c \<in> set cs. cluster_is_well_formed c)"
  by (induction cs) auto

lemma node_validate_ok: "node_validate n = Inr () \<longleftrightarrow> node_ok n"
proof -
  have "validate_endpoints es = Inr () \<longleftrightarrow>
      (\<forall>e \<in> set es. ascending cl_id (ep_clusters e) \<and> (\<forall>c \<in> set (ep_clusters e). cluster_is_well_formed c))" for es
  proof (induction es)
    case (Cons e es)
    then show ?case using validate_clusters_ok [of "ep_id e" "ep_clusters e"]
      by (cases "validate_clusters (ep_id e) (ep_clusters e)") auto
  qed simp
  then show ?thesis by (simp add: node_validate_def node_ok_def)
qed

lemma matching_Some:
  assumes "distinct (map key xs)"
  shows "matching (Some k) key xs = (case List.find (\<lambda>x. key x = k) xs of None \<Rightarrow> [] | Some x \<Rightarrow> [x])"
  using assms
proof (induction xs)
  case (Cons x xs)
  show ?case
  proof (cases "key x = k")
    case True
    then have "filter (\<lambda>y. key y = k) xs = []" using Cons.prems by (auto simp: filter_empty_conv image_iff)
    then show ?thesis using True by (simp add: matching_def filtered_out_def eq_commute)
  next
    case False
    then show ?thesis using Cons by (auto simp: matching_def filtered_out_def)
  qed
qed (simp add: matching_def)

lemma global_descriptor_None: "global_descriptor a = None \<longleftrightarrow> a \<notin> set ATTRIBUTE_IDS"
  by (auto simp: global_descriptor_def is_global_def ATTRIBUTE_IDS_def global_ids)

lemma attribute_ids_distinct:
  assumes "cluster_is_well_formed c" shows "distinct (attribute_ids c)"
proof -
  have "\<not> is_global a" if "a \<in> attr_id ` set (cl_attributes c)" for a
    using assms that by (auto simp: cluster_is_well_formed_def list_ex_iff)
  moreover have "is_global a" if "a \<in> set ATTRIBUTE_IDS" for a
    using that by (auto simp: is_global_def ATTRIBUTE_IDS_def)
  moreover have "distinct (map attr_id (cl_attributes c))"
    using assms ascending_distinct by (auto simp: cluster_is_well_formed_def)
  moreover have "distinct ATTRIBUTE_IDS" by (simp add: ATTRIBUTE_IDS_def global_ids)
  ultimately show ?thesis by (auto simp: attribute_ids_def)
qed

lemma cluster_attribute_exists:
  assumes "cluster_is_well_formed c"
  shows "cluster_attribute a c \<noteq> None \<longleftrightarrow> a \<in> set (attribute_ids c)"
proof -
  have "sorted_get attr_id a (cl_attributes c) = List.find (\<lambda>d. attr_id d = a) (cl_attributes c)"
    using assms by (intro sorted_get_find) (simp add: cluster_is_well_formed_def)
  then show ?thesis
    using global_descriptor_None [of a]
    by (cases "global_descriptor a") (auto simp: cluster_attribute_def attribute_ids_def find_None)
qed

lemma resolve_expansion:
  assumes "node_ok n"
  shows "existing_paths (path_attribute e c a) n = (case node_resolve e c a n of Inl _ \<Rightarrow> [] | Inr r \<Rightarrow> [r])"
proof -
  have e: "matching (Some e) ep_id n = (case node_endpoint e n of None \<Rightarrow> [] | Some er \<Rightarrow> [er])"
    using assms unfolding node_endpoint_def
    by (subst sorted_get_find) (auto simp: node_ok_def matching_Some ascending_distinct)
  show ?thesis
  proof (cases "node_endpoint e n")
    case None
    then show ?thesis by (simp add: existing_paths_def node_items_def path_attribute_def e node_resolve_def)
  next
    case (Some er)
    then have er: "er \<in> set n" "ep_id er = e"
      using assms sorted_get_find [of ep_id n e] find_SomeD [of "\<lambda>x. ep_id x = e" n er]
      by (auto simp: node_endpoint_def node_ok_def)
    have asc: "ascending cl_id (ep_clusters er)" using assms er by (auto simp: node_ok_def)
    have c: "matching (Some c) cl_id (ep_clusters er) = (case endpoint_cluster c er of None \<Rightarrow> [] | Some cr \<Rightarrow> [cr])"
      unfolding endpoint_cluster_def using asc
      by (subst sorted_get_find) (auto simp: matching_Some ascending_distinct)
    show ?thesis
    proof (cases "endpoint_cluster c er")
      case None
      then show ?thesis using Some
        by (simp add: existing_paths_def node_items_def endpoint_items_def path_attribute_def e c node_resolve_def)
    next
      case cr: (Some cr)
      then have "cr \<in> set (ep_clusters er)"
        using sorted_get_find [OF asc] by (auto simp: endpoint_cluster_def dest: find_SomeD)
      then have wf: "cluster_is_well_formed cr" using assms er by (auto simp: node_ok_def)
      have "matching (Some a) (\<lambda>a. a) (attribute_ids cr) = (if a \<in> set (attribute_ids cr) then [a] else [])"
        using matching_Some [of "\<lambda>a. a" "attribute_ids cr" a] attribute_ids_distinct [OF wf]
        by (auto split: option.splits dest: find_SomeD simp: find_None)
      then show ?thesis using Some cr cluster_attribute_exists [OF wf, of a] er(2)
        by (auto simp: existing_paths_def node_items_def endpoint_items_def cluster_items_def path_attribute_def e c
            node_resolve_def mk_resolved_def)
    qed
  qed
qed

lemma resolve_command_expansion:
  assumes "node_ok n"
  shows "existing_commands (path_command e c x) n = (case node_resolve_command e c x n of Inl _ \<Rightarrow> [] | Inr r \<Rightarrow> [r])"
proof -
  have e: "matching (Some e) ep_id n = (case node_endpoint e n of None \<Rightarrow> [] | Some er \<Rightarrow> [er])"
    using assms unfolding node_endpoint_def
    by (subst sorted_get_find) (auto simp: node_ok_def matching_Some ascending_distinct)
  show ?thesis
  proof (cases "node_endpoint e n")
    case None
    then show ?thesis by (simp add: existing_commands_def node_items_def path_command_def e node_resolve_command_def)
  next
    case (Some er)
    then have er: "er \<in> set n" "ep_id er = e"
      using assms sorted_get_find [of ep_id n e] find_SomeD [of "\<lambda>x. ep_id x = e" n er]
      by (auto simp: node_endpoint_def node_ok_def)
    have asc: "ascending cl_id (ep_clusters er)" using assms er by (auto simp: node_ok_def)
    have c: "matching (Some c) cl_id (ep_clusters er) = (case endpoint_cluster c er of None \<Rightarrow> [] | Some cr \<Rightarrow> [cr])"
      unfolding endpoint_cluster_def using asc
      by (subst sorted_get_find) (auto simp: matching_Some ascending_distinct)
    have k: "matching (Some x) cmd_id (cl_accepted_commands cr)
        = (case cluster_accepted_command x cr of None \<Rightarrow> [] | Some d \<Rightarrow> [d])" if "endpoint_cluster c er = Some cr" for cr
    proof -
      have "cr \<in> set (ep_clusters er)"
        using that sorted_get_find [OF asc] by (auto simp: endpoint_cluster_def dest: find_SomeD)
      then have "ascending cmd_id (cl_accepted_commands cr)"
        using assms er by (auto simp: node_ok_def cluster_is_well_formed_def)
      then show ?thesis
        unfolding cluster_accepted_command_def
        by (subst sorted_get_find) (auto simp: matching_Some ascending_distinct)
    qed
    show ?thesis
      using Some er(2) k
      by (cases "endpoint_cluster c er") (auto simp: existing_commands_def node_items_def endpoint_items_def cluster_items_def
          path_command_def e c node_resolve_command_def mk_resolved_command_def split: option.splits)
  qed
qed

section \<open>Wildcards\<close>

lemma set_matching: "set (matching f key xs) = {x \<in> set xs. \<not> filtered_out f (key x)}"
  by (auto simp: matching_def)

lemma set_existing_paths:
  "r \<in> set (existing_paths p n) \<longleftrightarrow> (\<exists>e \<in> set n. \<exists>c \<in> set (ep_clusters e). \<exists>a \<in> set (attribute_ids c).
     r = mk_resolved (ep_id e) c a \<and> \<not> filtered_out (ap_endpoint p) (ep_id e) \<and> \<not> filtered_out (ap_cluster p) (cl_id c)
     \<and> \<not> filtered_out (ap_attribute p) a)"
  by (auto simp: existing_paths_def node_items_def endpoint_items_def cluster_items_def set_matching)

text \<open>A path of any expansion is the path its own identifiers resolve to.\<close>

lemma existing_path_resolves:
  assumes "node_ok n" and "r \<in> set (existing_paths p n)"
  shows "node_resolve (rs_endpoint r) (cl_id (rs_cluster r)) (rs_attribute r) n = Inr r"
proof -
  obtain e c a where r: "e \<in> set n" "c \<in> set (ep_clusters e)" "a \<in> set (attribute_ids c)" "r = mk_resolved (ep_id e) c a"
    using assms(2) unfolding set_existing_paths by blast
  then have "r \<in> set (existing_paths (path_attribute (ep_id e) (cl_id c) a) n)"
    unfolding set_existing_paths by (force simp: path_attribute_def filtered_out_def)
  then show ?thesis
    using resolve_expansion [OF assms(1)] r(4) by (auto simp: mk_resolved_def split: sum.splits)
qed

lemma expand_next_fields:
  "xp_endpoints (snd (expand_next x)) = xp_endpoints x \<and> xp_endpoint_filter (snd (expand_next x)) = xp_endpoint_filter x
   \<and> xp_cluster_filter (snd (expand_next x)) = xp_cluster_filter x
   \<and> xp_attribute_filter (snd (expand_next x)) = xp_attribute_filter x"
proof (induction x rule: expand_next.induct)
  case (1 x)
  then show ?case
    by (subst (1 2 3 4) expand_next.simps) (auto simp: expand_moves Let_def split: option.splits)
qed

lemma iter_take_fields:
  "expand_from p (expand_cursor (snd (iter_take expand_next m (expand_from p cur n)))) n
    = snd (iter_take expand_next m (expand_from p cur n))"
proof -
  have "xp_endpoints (snd (iter_take expand_next m x)) = xp_endpoints x
      \<and> xp_endpoint_filter (snd (iter_take expand_next m x)) = xp_endpoint_filter x
      \<and> xp_cluster_filter (snd (iter_take expand_next m x)) = xp_cluster_filter x
      \<and> xp_attribute_filter (snd (iter_take expand_next m x)) = xp_attribute_filter x" for x
  proof (induction m arbitrary: x)
    case (Suc m)
    obtain r x' where n: "expand_next x = (r, x')" by (cases "expand_next x")
    then show ?case using Suc [of x'] expand_next_fields [of x] by (cases r) (simp_all add: Let_def case_prod_beta)
  qed simp
  then show ?thesis by (simp add: expand_from_def expand_cursor_def)
qed

lemma set_endpoint_items:
  "r \<in> set (endpoint_items items key mk fc fi e cs) \<Longrightarrow> \<exists>c \<in> set cs. \<exists>i \<in> set (items c). r = mk e c i"
  by (auto simp: endpoint_items_def cluster_items_def set_matching)

lemma set_node_items:
  "r \<in> set (node_items items key mk fe fc fi es) \<Longrightarrow>
    \<exists>e \<in> set es. \<exists>c \<in> set (ep_clusters e). \<exists>i \<in> set (items c). r = mk (ep_id e) c i"
  by (auto simp: node_items_def set_matching dest!: set_endpoint_items)

lemma distinct_endpoint_items:
  assumes "\<And>e c i e' c' i'. mk e c i = mk e' c' i' \<longleftrightarrow> e = e' \<and> c = c' \<and> i = i'"
  shows "distinct (map cl_id cs) \<Longrightarrow> \<forall>c \<in> set cs. distinct (items c) \<Longrightarrow> distinct (endpoint_items items key mk fc fi e cs)"
proof (induction cs)
  case (Cons c cs)
  have d: "distinct (cluster_items key mk fi e c (items c))"
    using Cons.prems(2) assms by (simp add: cluster_items_def matching_def distinct_map inj_on_def)
  have "c \<notin> set cs" using Cons.prems(1) by auto
  then have "set (cluster_items key mk fi e c (items c)) \<inter> set (endpoint_items items key mk fc fi e cs) = {}"
    using assms by (auto simp: cluster_items_def dest!: set_endpoint_items)
  then show ?case using d Cons by (auto simp: items_step)
qed (simp add: items_step)

lemma distinct_node_items:
  assumes "\<And>e c i e' c' i'. mk e c i = mk e' c' i' \<longleftrightarrow> e = e' \<and> c = c' \<and> i = i'"
  shows "distinct (map ep_id es) \<Longrightarrow> \<forall>e \<in> set es. distinct (map cl_id (ep_clusters e)) \<Longrightarrow>
    \<forall>e \<in> set es. \<forall>c \<in> set (ep_clusters e). distinct (items c) \<Longrightarrow> distinct (node_items items key mk fe fc fi es)"
proof (induction es)
  case (Cons e es)
  have d: "distinct (endpoint_items items key mk fc fi (ep_id e) (ep_clusters e))"
    using Cons.prems by (intro distinct_endpoint_items assms) auto
  have "r \<notin> set (node_items items key mk fe fc fi es)"
    if r: "r \<in> set (endpoint_items items key mk fc fi (ep_id e) (ep_clusters e))" for r
  proof
    assume "r \<in> set (node_items items key mk fe fc fi es)"
    then obtain e' c' i' where "e' \<in> set es" "r = mk (ep_id e') c' i'" using set_node_items by fast
    moreover obtain c i where "r = mk (ep_id e) c i" using set_endpoint_items [OF r] by blast
    ultimately have "ep_id e \<in> ep_id ` set es" using assms by auto
    then show False using Cons.prems(1) by simp
  qed
  then show ?case using d Cons by (auto simp: items_step)
qed (simp add: items_step)

lemma existing_paths_distinct: "node_ok n \<Longrightarrow> distinct (existing_paths p n)"
  unfolding existing_paths_def
  by (rule distinct_node_items) (auto simp: node_ok_def mk_resolved_def ascending_distinct attribute_ids_distinct)

lemma existing_commands_distinct: "node_ok n \<Longrightarrow> distinct (existing_commands p n)"
  unfolding existing_commands_def
proof (rule distinct_node_items)
  assume n: "node_ok n"
  then show "distinct (map ep_id n)" "\<forall>e \<in> set n. distinct (map cl_id (ep_clusters e))"
    by (auto simp: node_ok_def ascending_distinct)
  have "distinct (map cmd_id (cl_accepted_commands c))" if "cluster_is_well_formed c" for c
    using that by (simp add: cluster_is_well_formed_def ascending_distinct)
  then show "\<forall>e \<in> set n. \<forall>c \<in> set (ep_clusters e). distinct (cl_accepted_commands c)"
    using n by (auto simp: node_ok_def distinct_map)
qed (auto simp: mk_resolved_command_def)

section \<open>Properties\<close>

text \<open>C8: The iterator over an attribute path yields exactly the existing attributes the path matches, in table
  order; interrupted after any number of items and resumed from the cursor it left, it goes
  on where it stopped, skipping nothing and repeating nothing.\<close>

theorem expansion_resumes:
  "fst (iter_take expand_next m (expand p n)) = take m (existing_paths p n)
   \<and> fst (iter_take expand_next k (expand_from p (expand_cursor (snd (iter_take expand_next m (expand p n)))) n))
      = take k (drop m (existing_paths p n))"
proof -
  have s: "remaining_paths (expand p n) = existing_paths p n"
    by (simp add: remaining_paths_def expand_def expand_from_def cursor_START_def items_from_node existing_paths_def)
  note t = xpi.take_remaining [of m "expand p n", unfolded s]
  have "expand_from p (expand_cursor (snd (iter_take expand_next m (expand p n)))) n = snd (iter_take expand_next m (expand p n))"
    unfolding expand_def by (rule iter_take_fields)
  then show ?thesis using t xpi.take_remaining [of k "snd (iter_take expand_next m (expand p n))"] by simp
qed

text \<open>C28: On a node that passes \<^verbatim>\<open>validate\<close> expansion and resolution agree: a concrete attribute path expands to
  what it resolves to, or to nothing when it is refused; everything any path expands to resolves
  to itself and comes once.  The same holds of commands.\<close>

theorem expansion_agrees_with_resolution:
  assumes "node_validate n = Inr ()"
  shows "existing_paths (path_attribute e c a) n = (case node_resolve e c a n of Inl _ \<Rightarrow> [] | Inr r \<Rightarrow> [r])
    \<and> (\<forall>r \<in> set (existing_paths p n). node_resolve (rs_endpoint r) (cl_id (rs_cluster r)) (rs_attribute r) n = Inr r)
    \<and> distinct (existing_paths p n)
    \<and> fst (iter_take expand_commands_next m (expand_commands q n)) = take m (existing_commands q n)
    \<and> existing_commands (path_command e c x) n = (case node_resolve_command e c x n of Inl _ \<Rightarrow> [] | Inr r \<Rightarrow> [r])
    \<and> distinct (existing_commands q n)"
proof -
  note ok = assms [unfolded node_validate_ok]
  have "remaining_commands (expand_commands q n) = existing_commands q n"
    by (simp add: remaining_commands_def expand_commands_def items_from_node existing_commands_def)
  then have "fst (iter_take expand_commands_next m (expand_commands q n)) = take m (existing_commands q n)"
    using xki.take_remaining [of m "expand_commands q n"] by simp
  then show ?thesis
    using resolve_expansion [OF ok] existing_path_resolves [OF ok] existing_paths_distinct [OF ok]
      existing_commands_distinct [OF ok] resolve_command_expansion [OF ok] by blast
qed

definition demo_node :: Node where
  "demo_node = [endpoint_new 0 [\<lparr>cl_id = 6, cl_revision = 1, cl_feature_map = 0,
     cl_attributes = [attribute_read_only 0, attribute_read_write 3], cl_accepted_commands = [command_new 0, command_new 1],
     cl_generated_commands = [], cl_events = []\<rparr>], endpoint_new 1 []]"

lemma demo_node_valid: "node_validate demo_node = Inr ()"
  by (simp add: node_validate_ok node_ok_def demo_node_def endpoint_new_def ascending_def cluster_is_well_formed_def
      attribute_read_only_def attribute_read_write_def command_new_def is_global_def global_ids word_less_nat_alt)

theorem expansion_agrees_with_resolution_witness:
  "existing_paths (path_attribute 0 6 3) demo_node = (case node_resolve 0 6 3 demo_node of Inl _ \<Rightarrow> [] | Inr r \<Rightarrow> [r])
    \<and> distinct (existing_paths path_wildcard demo_node) \<and> length (existing_paths path_wildcard demo_node) = 7"
  using expansion_agrees_with_resolution [OF demo_node_valid, where e = 0 and c = 6 and a = 3 and p = path_wildcard]
  by (auto simp: demo_node_def existing_paths_def node_items_def endpoint_items_def cluster_items_def matching_def
      path_wildcard_def filtered_out_def endpoint_new_def attribute_ids_def ATTRIBUTE_IDS_def)

text \<open>On a node that passes \<^verbatim>\<open>validate\<close> every lookup by binary search ends and finds what a scan of the
  table would find, so nothing that is declared is out of reach.\<close>

theorem lookups_are_scans:
  assumes "node_validate n = Inr ()"
  shows "node_endpoint e n = List.find (\<lambda>x. ep_id x = e) n
    \<and> (\<forall>x \<in> set n. endpoint_cluster c x = List.find (\<lambda>y. cl_id y = c) (ep_clusters x)
      \<and> (\<forall>y \<in> set (ep_clusters x).
           cluster_attribute a y = (case global_descriptor a of None \<Rightarrow> List.find (\<lambda>d. attr_id d = a) (cl_attributes y) | g \<Rightarrow> g)
         \<and> cluster_accepted_command d y = List.find (\<lambda>z. cmd_id z = d) (cl_accepted_commands y)
         \<and> cluster_event v y = List.find (\<lambda>z. ev_id z = v) (cl_events y)))"
  using assms [unfolded node_validate_ok]
  by (auto simp: node_ok_def node_endpoint_def endpoint_cluster_def cluster_attribute_def cluster_accepted_command_def
      cluster_event_def sorted_get_find cluster_is_well_formed_def split: option.splits)

theorem lookups_are_scans_witness:
  "node_endpoint 1 demo_node = Some (endpoint_new 1 [])"
  using lookups_are_scans [OF demo_node_valid, of 1] by (simp add: demo_node_def endpoint_new_def)

end
