(* ===== verification/Acl.thy ===== *)
theory Acl
  imports Dm_Node Session
begin

text \<open>
  Access control (\<^verbatim>\<open>src/src/acl.rs\<close>): entries with subjects and targets, the list with its
  capacity and per-fabric quota, the identity of a requester derived from its session, and
  the decision itself with its early exit.  Shown here: every list the operations build is
  well formed and within its quotas; the bit-set loop computes the union of what the matching
  entries grant, nothing being granted by default and nothing administrative ever to a group;
  and fabrics do not see each other's entries.
\<close>

section \<open>Entries\<close>

datatype AuthMode = AuthPase | AuthCase | AuthGroup

definition auth_mode_from_value :: "u8 \<Rightarrow> AuthMode option" where
  "auth_mode_from_value v =
     (if v = 1 then Some AuthPase else if v = 2 then Some AuthCase else if v = 3 then Some AuthGroup else None)"

record Target =
  tg_cluster :: "ClusterId option"
  tg_endpoint :: "EndpointId option"
  tg_device_type :: "u32 option"

definition target_cluster :: "ClusterId \<Rightarrow> Target" where
  "target_cluster c = \<lparr>tg_cluster = Some c, tg_endpoint = None, tg_device_type = None\<rparr>"

definition target_endpoint :: "EndpointId \<Rightarrow> Target" where
  "target_endpoint e = \<lparr>tg_cluster = None, tg_endpoint = Some e, tg_device_type = None\<rparr>"

definition target_device_type :: "u32 \<Rightarrow> Target" where
  "target_device_type d = \<lparr>tg_cluster = None, tg_endpoint = None, tg_device_type = Some d\<rparr>"

definition target_and_cluster :: "ClusterId \<Rightarrow> Target \<Rightarrow> Target" where
  "target_and_cluster c t = t\<lparr>tg_cluster := Some c\<rparr>"

definition target_is_valid :: "Target \<Rightarrow> bool" where
  "target_is_valid t \<longleftrightarrow>
     (let named = (tg_cluster t \<noteq> None \<or> tg_endpoint t \<noteq> None \<or> tg_device_type t \<noteq> None);
          both_places = (tg_endpoint t \<noteq> None \<and> tg_device_type t \<noteq> None) in
      named \<and> \<not> both_places
      \<and> (case tg_cluster t of None \<Rightarrow> True | Some c \<Rightarrow> cluster_is_valid c)
      \<and> (case tg_device_type t of None \<Rightarrow> True | Some d \<Rightarrow> device_type_is_valid d)
      \<and> tg_endpoint t \<noteq> Some 0xFFFF)"

definition target_matches :: "Node \<Rightarrow> EndpointId \<Rightarrow> ClusterId \<Rightarrow> Target \<Rightarrow> bool" where
  "target_matches n e c t \<longleftrightarrow>
     \<not> filtered_out (tg_cluster t) c \<and> \<not> filtered_out (tg_endpoint t) e
     \<and> (case tg_device_type t of
          None \<Rightarrow> True
        | Some wanted \<Rightarrow> (case node_endpoint e n of None \<Rightarrow> False | Some x \<Rightarrow> has_device_type wanted x))"

record Entry =
  en_fabric_index :: FabricIndex
  en_privilege :: Privilege
  en_auth_mode :: AuthMode
  en_subjects :: "NodeId list"
  en_targets :: "Target list"

definition entry_case :: "FabricIndex \<Rightarrow> Privilege \<Rightarrow> Entry" where
  "entry_case f p = \<lparr>en_fabric_index = f, en_privilege = p, en_auth_mode = AuthCase, en_subjects = [], en_targets = []\<rparr>"

definition entry_with_subject :: "nat \<Rightarrow> NodeId \<Rightarrow> Entry \<Rightarrow> Entry result" where
  "entry_with_subject S s e =
     (case vec_push S (en_subjects e) s of None \<Rightarrow> Inl NoSpace | Some xs \<Rightarrow> Inr (e\<lparr>en_subjects := xs\<rparr>))"

definition entry_with_target :: "nat \<Rightarrow> Target \<Rightarrow> Entry \<Rightarrow> Entry result" where
  "entry_with_target T t e =
     (if \<not> target_is_valid t then Inl InvalidArgument
      else case vec_push T (en_targets e) t of None \<Rightarrow> Inl NoSpace | Some xs \<Rightarrow> Inr (e\<lparr>en_targets := xs\<rparr>))"

definition subject_is_valid :: "Entry \<Rightarrow> NodeId \<Rightarrow> bool" where
  "subject_is_valid e s \<longleftrightarrow>
     (case en_auth_mode e of
        AuthCase \<Rightarrow>
          (case node_id_kind s of
             KindOperational \<Rightarrow> True
           | KindCaseAuthenticatedTag \<Rightarrow> (case cat_from_node_id s of None \<Rightarrow> False | Some cat \<Rightarrow> cat_is_valid cat)
           | _ \<Rightarrow> False)
      | AuthGroup \<Rightarrow> s \<noteq> 0 \<and> s \<le> 0xFFFF
      | AuthPase \<Rightarrow> False)"

definition entry_is_well_formed :: "Entry \<Rightarrow> bool" where
  "entry_is_well_formed e \<longleftrightarrow>
     (if en_auth_mode e = AuthPase then False
      else if en_privilege e = Administer \<and> en_auth_mode e \<noteq> AuthCase then False
      else if en_subjects e = [] \<and> en_auth_mode e \<notin> {AuthCase, AuthGroup} then False
      else if en_fabric_index e = 0 then False
      else if \<not> list_all (subject_is_valid e) (en_subjects e) then False
      else list_all target_is_valid (en_targets e))"

section \<open>Granted privileges\<close>

type_synonym Granted = u8

definition granted_bit :: "Privilege \<Rightarrow> u8" where
  "granted_bit p = push_bit (privilege_rank p) 1"

fun granted_add :: "Privilege \<Rightarrow> Granted \<Rightarrow> Granted" where
  "granted_add Operate g = (g OR granted_bit Operate) OR granted_bit View"
| "granted_add Manage g = (g OR granted_bit Manage) OR (granted_bit Operate OR granted_bit View)"
| "granted_add Administer g =
     (g OR granted_bit Administer) OR (granted_bit Manage OR granted_bit Operate OR granted_bit View)"
| "granted_add ProxyView g = g OR granted_bit ProxyView"
| "granted_add View g = g OR granted_bit View"

definition granted_has :: "Granted \<Rightarrow> Privilege \<Rightarrow> bool" where
  "granted_has g p \<longleftrightarrow> g AND granted_bit p \<noteq> 0"

definition granted_is_empty :: "Granted \<Rightarrow> bool" where
  "granted_is_empty g \<longleftrightarrow> g = 0"

definition granted_highest :: "Granted \<Rightarrow> Privilege option" where
  "granted_highest g =
     (if granted_has g Administer then Some Administer
      else if granted_has g Manage then Some Manage
      else if granted_has g Operate then Some Operate
      else if granted_has g View then Some View
      else None)"

section \<open>Subjects\<close>

record SubjectDescriptor =
  sd_is_commissioning :: bool
  sd_auth_mode :: "AuthMode option"
  sd_subjects :: "NodeId list"
  sd_fabric_index :: FabricIndex

definition DEFAULT_COMMISSIONING_PASSCODE :: u64 where "DEFAULT_COMMISSIONING_PASSCODE = 0"

definition subject_unauthenticated :: SubjectDescriptor where
  "subject_unauthenticated = \<lparr>sd_is_commissioning = False, sd_auth_mode = None, sd_subjects = [], sd_fabric_index = 0\<rparr>"

definition subject_pase :: "FabricIndex \<Rightarrow> SubjectDescriptor" where
  "subject_pase f = \<lparr>sd_is_commissioning = True, sd_auth_mode = Some AuthPase,
     sd_subjects = [DEFAULT_COMMISSIONING_PASSCODE], sd_fabric_index = f\<rparr>"

definition subject_commissioning :: SubjectDescriptor where
  "subject_commissioning = subject_pase 0"

definition subject_case :: "FabricIndex \<Rightarrow> NodeId \<Rightarrow> SubjectDescriptor" where
  "subject_case f n = \<lparr>sd_is_commissioning = False, sd_auth_mode = Some AuthCase, sd_subjects = [n], sd_fabric_index = f\<rparr>"

definition subject_group :: "FabricIndex \<Rightarrow> GroupId \<Rightarrow> SubjectDescriptor" where
  "subject_group f g = \<lparr>sd_is_commissioning = False, sd_auth_mode = Some AuthGroup, sd_subjects = [ucast g],
     sd_fabric_index = f\<rparr>"

definition subject_with_cat :: "CaseAuthenticatedTag \<Rightarrow> SubjectDescriptor \<Rightarrow> SubjectDescriptor result" where
  "subject_with_cat cat d =
     (case vec_push 4 (sd_subjects d) (cat_to_node_id cat) of
        None \<Rightarrow> Inl NoSpace
      | Some xs \<Rightarrow> Inr (d\<lparr>sd_subjects := xs\<rparr>))"

text \<open>\<^verbatim>\<open>let _ = subjects.push(..)\<close> for each tag in turn: what does not fit is dropped.\<close>

fun push_cats :: "CaseAuthenticatedTag list \<Rightarrow> NodeId list \<Rightarrow> NodeId list" where
  "push_cats [] xs = xs"
| "push_cats (cat # cats) xs =
     push_cats cats (case vec_push 4 xs (cat_to_node_id cat) of None \<Rightarrow> xs | Some ys \<Rightarrow> ys)"

definition subject_from_session :: "SecureSession \<Rightarrow> FabricIndex option \<Rightarrow> SubjectDescriptor" where
  "subject_from_session s pending =
     (case ss_kind s of
        PaseSession \<Rightarrow> subject_pase (ss_fabric_index s)
      | CaseSession \<Rightarrow>
          if ss_fabric_index s = 0 then subject_unauthenticated
          else
            let d = subject_case (ss_fabric_index s) (ss_peer_node_id s) in
            d\<lparr>sd_is_commissioning := (pending = Some (ss_fabric_index s)),
              sd_subjects := push_cats (ss_peer_cats s) (sd_subjects d)\<rparr>)"

definition subject_matches :: "NodeId \<Rightarrow> NodeId \<Rightarrow> bool" where
  "subject_matches acl_subject isd_subject \<longleftrightarrow>
     acl_subject = isd_subject
     \<or> (case (cat_from_node_id acl_subject, cat_from_node_id isd_subject) of
          (Some acl, Some isd) \<Rightarrow> cat_identifier acl = cat_identifier isd \<and> cat_version isd \<ge> cat_version acl
        | _ \<Rightarrow> False)"

section \<open>The list\<close>

text \<open>The capacities of the list and the build's configuration.\<close>

record AclConfig =
  acl_N :: nat
  acl_S :: nat
  acl_per_fabric :: nat
  acl_auxiliary :: bool

type_synonym Acl = "Entry list"

definition acl_new :: Acl where "acl_new = []"

definition of_fabric :: "FabricIndex \<Rightarrow> Acl \<Rightarrow> Entry list" where
  "of_fabric f l = filter (\<lambda>e. en_fabric_index e = f) l"

definition len_of_fabric :: "FabricIndex \<Rightarrow> Acl \<Rightarrow> nat" where
  "len_of_fabric f l = length (of_fabric f l)"

definition acl_add :: "AclConfig \<Rightarrow> Entry \<Rightarrow> (Acl, unit) mutator" where
  "acl_add C e l =
     (if \<not> entry_is_well_formed e then (Inl InvalidArgument, l)
      else if len_of_fabric (en_fabric_index e) l \<ge> acl_per_fabric C then (Inl NoSpace, l)
      else case vec_push (acl_N C) l e of None \<Rightarrow> (Inl NoSpace, l) | Some l' \<Rightarrow> (Inr (), l'))"

definition add_admin_for_fabric :: "AclConfig \<Rightarrow> FabricIndex \<Rightarrow> NodeId \<Rightarrow> (Acl, unit) mutator" where
  "add_admin_for_fabric C f s =
     bindE (ensureE InvalidArgument (node_id_kind s \<in> {KindOperational, KindCaseAuthenticatedTag})) (\<lambda>_.
     bindE (liftE (entry_with_subject (acl_S C) s (entry_case f Administer))) (acl_add C))"

definition acl_remove_fabric :: "FabricIndex \<Rightarrow> Acl \<Rightarrow> Acl" where
  "acl_remove_fabric f l = filter (\<lambda>e. en_fabric_index e \<noteq> f) l"

fun acl_add_all :: "AclConfig \<Rightarrow> Entry list \<Rightarrow> (Acl, unit) mutator" where
  "acl_add_all C [] = retE ()"
| "acl_add_all C (e # es) = bindE (acl_add C e) (\<lambda>_. acl_add_all C es)"

definition replace_fabric :: "AclConfig \<Rightarrow> FabricIndex \<Rightarrow> Entry list \<Rightarrow> (Acl, unit) mutator" where
  "replace_fabric C f es = bindE (modifyE (acl_remove_fabric f)) (\<lambda>_. acl_add_all C es)"

section \<open>The decision\<close>

definition entry_subject_matches :: "SubjectDescriptor \<Rightarrow> Entry \<Rightarrow> bool" where
  "entry_subject_matches d e \<longleftrightarrow>
     en_subjects e = [] \<or> list_ex (\<lambda>a. list_ex (\<lambda>i. subject_matches a i) (sd_subjects d)) (en_subjects e)"

definition entry_target_matches :: "AclConfig \<Rightarrow> Node \<Rightarrow> EndpointId \<Rightarrow> ClusterId \<Rightarrow> Entry \<Rightarrow> bool" where
  "entry_target_matches C n ep cl e \<longleftrightarrow>
     (if en_targets e = [] then \<not> (en_auth_mode e = AuthGroup \<and> acl_auxiliary C \<and> ep = 0)
      else list_ex (target_matches n ep cl) (en_targets e))"

fun granted_loop :: "AclConfig \<Rightarrow> Node \<Rightarrow> SubjectDescriptor \<Rightarrow> EndpointId \<Rightarrow> ClusterId \<Rightarrow> Entry list \<Rightarrow> Granted \<Rightarrow> Granted" where
  "granted_loop C n d ep cl [] g = g"
| "granted_loop C n d ep cl (e # es) g =
     (if granted_has g Administer then g
      else if en_fabric_index e = 0 \<or> en_fabric_index e \<noteq> sd_fabric_index d then granted_loop C n d ep cl es g
      else if Some (en_auth_mode e) \<noteq> sd_auth_mode d then granted_loop C n d ep cl es g
      else if \<not> entry_subject_matches d e then granted_loop C n d ep cl es g
      else if \<not> entry_target_matches C n ep cl e then granted_loop C n d ep cl es g
      else granted_loop C n d ep cl es (granted_add (en_privilege e) g))"

definition granted :: "AclConfig \<Rightarrow> Node \<Rightarrow> SubjectDescriptor \<Rightarrow> EndpointId \<Rightarrow> ClusterId \<Rightarrow> Acl \<Rightarrow> Granted" where
  "granted C n d ep cl l =
     (let g0 = (if sd_auth_mode d = Some AuthPase \<and> sd_is_commissioning d then granted_add Administer 0 else 0);
          g = granted_loop C n d ep cl l g0 in
      if sd_auth_mode d = Some AuthGroup \<and> granted_has g Administer then 0 else g)"

datatype Outcome = AccessGranted | AccessDenied | AccessRestricted

definition acl_allows ::
    "AclConfig \<Rightarrow> Node \<Rightarrow> SubjectDescriptor \<Rightarrow> EndpointId \<Rightarrow> ClusterId \<Rightarrow> Privilege \<Rightarrow> Acl \<Rightarrow> Outcome" where
  "acl_allows C n d ep cl required l =
     (if granted_has (granted C n d ep cl l) required then AccessGranted else AccessDenied)"

definition acl_access_allows ::
    "AclConfig \<Rightarrow> Node \<Rightarrow> SubjectDescriptor \<Rightarrow> AttributePath \<Rightarrow> Privilege \<Rightarrow> Acl \<Rightarrow> Outcome" where
  "acl_access_allows C n d p required l =
     (case (ap_endpoint p, ap_cluster p) of
        (Some ep, Some cl) \<Rightarrow> acl_allows C n d ep cl required l
      | _ \<Rightarrow> AccessDenied)"

section \<open>Privileges as bits\<close>

lemma granted_has_bit: "granted_has g p \<longleftrightarrow> bit g (privilege_rank p)"
  by (simp add: granted_has_def granted_bit_def push_bit_eq_mult and_exp_eq_0_iff_not_bit)

lemma bit_granted_bit: "bit (granted_bit p) (privilege_rank q) \<longleftrightarrow> p = q"
  by (cases p; cases q) (simp_all add: granted_bit_def bit_push_bit_iff)

lemma granted_has_or: "granted_has (a OR b) r \<longleftrightarrow> granted_has a r \<or> granted_has b r"
  and granted_has_single: "granted_has (granted_bit p) r \<longleftrightarrow> p = r"
  by (simp_all add: granted_has_bit bit_or_iff bit_granted_bit)

lemma granted_has_none [simp]: "\<not> granted_has 0 p"
  by (simp add: granted_has_def)

lemma granted_has_add [simp]: "granted_has (granted_add p g) r \<longleftrightarrow> granted_has g r \<or> grants p r"
  by (cases p; cases r) (simp_all add: granted_has_or granted_has_single grants_iff less_eq_Privilege_def)

section \<open>The loop and the entries that apply\<close>

definition entry_applies :: "AclConfig \<Rightarrow> Node \<Rightarrow> SubjectDescriptor \<Rightarrow> EndpointId \<Rightarrow> ClusterId \<Rightarrow> Entry \<Rightarrow> bool" where
  "entry_applies C n d ep cl e \<longleftrightarrow>
     en_fabric_index e \<noteq> 0 \<and> en_fabric_index e = sd_fabric_index d \<and> Some (en_auth_mode e) = sd_auth_mode d
     \<and> entry_subject_matches d e \<and> entry_target_matches C n ep cl e"

lemma granted_loop_step:
  "granted_loop C n d ep cl (e # es) g =
     (if granted_has g Administer then g
      else granted_loop C n d ep cl es (if entry_applies C n d ep cl e then granted_add (en_privilege e) g else g))"
  by (auto simp: entry_applies_def)

declare granted_loop.simps(2) [simp del] granted_add.simps [simp del]

lemma granted_loop_sound:
  "granted_has (granted_loop C n d ep cl es g) r \<Longrightarrow>
    granted_has g r \<or> (\<exists>e \<in> set es. entry_applies C n d ep cl e \<and> grants (en_privilege e) r)"
proof (induction es arbitrary: g)
  case (Cons e es)
  show ?case
  proof (cases "granted_has g Administer")
    case True
    then show ?thesis using Cons.prems by (simp add: granted_loop_step)
  next
    case False
    then show ?thesis
      using Cons.prems Cons.IH [of "if entry_applies C n d ep cl e then granted_add (en_privilege e) g else g"]
      by (auto simp: granted_loop_step split: if_splits)
  qed
qed simp

lemma granted_loop_complete:
  assumes "granted_has g Administer \<longrightarrow> granted_has g r" and "r \<noteq> ProxyView"
    and "granted_has g r \<or> (\<exists>e \<in> set es. entry_applies C n d ep cl e \<and> grants (en_privilege e) r)"
  shows "granted_has (granted_loop C n d ep cl es g) r"
  using assms(1,3)
proof (induction es arbitrary: g)
  case (Cons e es)
  show ?case
  proof (cases "granted_has g Administer")
    case True
    then show ?thesis using Cons.prems(1) by (simp add: granted_loop_step)
  next
    case False
    let ?g = "if entry_applies C n d ep cl e then granted_add (en_privilege e) g else g"
    have "granted_has ?g Administer \<longrightarrow> granted_has ?g r"
      using Cons.prems(1) False assms(2) grants_trans [of "en_privilege e" Administer r]
      by (auto simp: grants_Administer)
    moreover have "granted_has ?g r \<or> (\<exists>e \<in> set es. entry_applies C n d ep cl e \<and> grants (en_privilege e) r)"
      using Cons.prems(2) by auto
    ultimately show ?thesis using Cons.IH [of ?g] False by (simp add: granted_loop_step)
  qed
qed simp

lemma granted_loop_fabric:
  "granted_loop C n d ep cl es g = granted_loop C n d ep cl (of_fabric (sd_fabric_index d) es) g"
proof (induction es arbitrary: g)
  case (Cons e es)
  have stop: "granted_has g Administer \<Longrightarrow> granted_loop C n d ep cl xs g = g" for xs
    by (cases xs) (auto simp: granted_loop_step)
  show ?case
    using Cons stop by (cases "granted_has g Administer") (auto simp: granted_loop_step of_fabric_def entry_applies_def)
qed (simp add: of_fabric_def)

lemma of_fabric_remove_other: "g \<noteq> f \<Longrightarrow> of_fabric g (acl_remove_fabric f l) = of_fabric g l"
  by (simp add: of_fabric_def acl_remove_fabric_def) (metis (mono_tags, lifting) filter_cong)

lemma subject_fabric: "sd_fabric_index (subject_from_session x pending) = ss_fabric_index x"
  by (simp add: subject_from_session_def subject_pase_def subject_case_def subject_unauthenticated_def Let_def split: SessionKind.split)

lemma granted_fabric: "granted C n d ep cl l = granted C n d ep cl (of_fabric (sd_fabric_index d) l)"
  unfolding granted_def by (subst granted_loop_fabric) (rule refl)

section \<open>Lists the operations build\<close>

definition acl_inv :: "AclConfig \<Rightarrow> Acl \<Rightarrow> bool" where
  "acl_inv C l \<longleftrightarrow> (\<forall>e \<in> set l. entry_is_well_formed e) \<and> length l \<le> acl_N C
     \<and> (\<forall>f. len_of_fabric f l \<le> acl_per_fabric C)"

inductive acl_reachable :: "AclConfig \<Rightarrow> Acl \<Rightarrow> bool" for C where
  fresh: "acl_reachable C acl_new"
| add: "acl_reachable C l \<Longrightarrow> acl_reachable C (snd (acl_add C e l))"
| admin: "acl_reachable C l \<Longrightarrow> acl_reachable C (snd (add_admin_for_fabric C f s l))"
| remove: "acl_reachable C l \<Longrightarrow> acl_reachable C (acl_remove_fabric f l)"
| replace: "acl_reachable C l \<Longrightarrow> acl_reachable C (snd (replace_fabric C f es l))"

lemma acl_add_outcome:
  "acl_add C e l =
     (if \<not> entry_is_well_formed e then (Inl InvalidArgument, l)
      else if len_of_fabric (en_fabric_index e) l \<ge> acl_per_fabric C \<or> length l \<ge> acl_N C then (Inl NoSpace, l)
      else (Inr (), l @ [e]))"
  by (simp add: acl_add_def vec_push_def)

lemma acl_add_inv: "acl_inv C l \<Longrightarrow> acl_inv C (snd (acl_add C e l))"
  by (auto simp: acl_add_outcome acl_inv_def len_of_fabric_def of_fabric_def Suc_le_eq)

lemma acl_remove_inv: "acl_inv C l \<Longrightarrow> acl_inv C (acl_remove_fabric f l)"
proof -
  assume i: "acl_inv C l"
  have "len_of_fabric g (acl_remove_fabric f l) \<le> len_of_fabric g l" for g
    unfolding len_of_fabric_def of_fabric_def acl_remove_fabric_def by (induction l) auto
  then have "\<forall>g. len_of_fabric g (acl_remove_fabric f l) \<le> acl_per_fabric C"
    using i le_trans unfolding acl_inv_def by blast
  then show ?thesis
    using i by (auto simp: acl_inv_def acl_remove_fabric_def intro: le_trans [OF length_filter_le])
qed

lemma acl_add_all_inv: "acl_inv C l \<Longrightarrow> acl_inv C (snd (acl_add_all C es l))"
proof (induction es arbitrary: l)
  case (Cons e es)
  then show ?case using acl_add_inv [of C l e]
    by (cases "fst (acl_add C e l)"; cases "acl_add C e l") (auto simp: bindE_def)
qed simp

lemma acl_reachable_inv: "acl_reachable C l \<Longrightarrow> acl_inv C l"
proof (induction rule: acl_reachable.induct)
  case fresh
  then show ?case by (simp add: acl_inv_def acl_new_def len_of_fabric_def of_fabric_def)
next
  case (admin l f s)
  then show ?case
    using acl_add_inv [OF admin.IH] by (auto simp: add_admin_for_fabric_def bindE_def split: sum.splits)
qed (simp_all add: acl_add_inv acl_remove_inv replace_fabric_def acl_add_all_inv)

interpretation aclf: fabric_scoped "\<lambda>l. set l" en_fabric_index acl_remove_fabric
  by unfold_locales (auto simp: acl_remove_fabric_def)

lemma well_formed_admin: "entry_is_well_formed e \<Longrightarrow> en_privilege e = Administer \<Longrightarrow> en_auth_mode e = AuthCase"
  by (auto simp: entry_is_well_formed_def split: if_splits)

lemma well_formed_pase: "entry_is_well_formed e \<Longrightarrow> en_auth_mode e \<noteq> AuthPase"
  by (auto simp: entry_is_well_formed_def split: if_splits)

lemma grants_Administer_iff: "grants p Administer \<longleftrightarrow> p = Administer"
  by (cases p) (simp_all add: grants_iff less_eq_Privilege_def)

definition commissioning_session :: "SubjectDescriptor \<Rightarrow> bool" where
  "commissioning_session d \<longleftrightarrow> sd_auth_mode d = Some AuthPase \<and> sd_is_commissioning d"

lemma granted_iff:
  assumes "\<forall>e \<in> set l. entry_is_well_formed e" and "r \<noteq> ProxyView"
  shows "granted_has (granted C n d ep cl l) r \<longleftrightarrow>
    commissioning_session d \<or> (\<exists>e \<in> set l. entry_applies C n d ep cl e \<and> grants (en_privilege e) r)"
proof -
  let ?start = "if commissioning_session d then granted_add Administer 0 else 0"
  let ?g = "granted_loop C n d ep cl l ?start"
  have g0: "granted_has ?start r = (commissioning_session d \<and> r \<noteq> ProxyView)" for r by (simp add: grants_Administer)
  have "\<not> (sd_auth_mode d = Some AuthGroup \<and> granted_has ?g Administer)"
  proof
    assume a: "sd_auth_mode d = Some AuthGroup \<and> granted_has ?g Administer"
    then obtain e where "e \<in> set l" "entry_applies C n d ep cl e" "en_privilege e = Administer"
      using granted_loop_sound [of C n d ep cl l ?start Administer] g0 [of Administer]
      by (auto simp: commissioning_session_def grants_Administer_iff)
    then show False using assms(1) well_formed_admin a by (auto simp: entry_applies_def)
  qed
  then have g: "granted C n d ep cl l = ?g" by (auto simp: granted_def Let_def commissioning_session_def)
  have "granted_has ?start Administer \<longrightarrow> granted_has ?start r" using g0 assms(2) by blast
  then have "granted_has ?g r \<longleftrightarrow> granted_has ?start r
      \<or> (\<exists>e \<in> set l. entry_applies C n d ep cl e \<and> grants (en_privilege e) r)"
    using granted_loop_sound granted_loop_complete assms(2) by blast
  then show ?thesis unfolding g g0 using assms(2) by blast
qed

lemma granted_removed:
  assumes "sd_fabric_index d = f" and "\<not> commissioning_session d"
  shows "granted C n d ep cl (acl_remove_fabric f l) = 0"
proof -
  have "of_fabric f (acl_remove_fabric f l) = []"
    using aclf.nothing_left [of f l] by (auto simp: of_fabric_def filter_empty_conv)
  then show ?thesis
    using granted_fabric [of C n d ep cl "acl_remove_fabric f l"] assms
    by (auto simp: granted_def commissioning_session_def granted_has_def Let_def)
qed

lemma granted_other_fabric:
  "sd_fabric_index d \<noteq> f \<Longrightarrow> granted C n d ep cl (acl_remove_fabric f l) = granted C n d ep cl l"
  using granted_fabric [of C n d ep cl l] granted_fabric [of C n d ep cl "acl_remove_fabric f l"] of_fabric_remove_other [of "sd_fabric_index d" f l]
  by simp

lemma case_not_commissioning: "ss_kind x = CaseSession \<Longrightarrow> \<not> commissioning_session (subject_from_session x pending)"
  by (simp add: commissioning_session_def subject_from_session_def subject_case_def subject_unauthenticated_def Let_def)

section \<open>Properties\<close>

text \<open>Every list reached by adding, removing and replacing entries holds well-formed entries only, at most
  its capacity and at most the quota of each fabric; an addition is refused exactly for a
  malformed entry or a full quota or list, and then changes nothing.\<close>

theorem acl_invariant:
  assumes "acl_reachable C l"
  shows "(\<forall>e \<in> set l. entry_is_well_formed e) \<and> length l \<le> acl_N C \<and> (\<forall>f. len_of_fabric f l \<le> acl_per_fabric C)
    \<and> acl_add C e l =
       (if \<not> entry_is_well_formed e then (Inl InvalidArgument, l)
        else if len_of_fabric (en_fabric_index e) l = acl_per_fabric C \<or> length l = acl_N C then (Inl NoSpace, l)
        else (Inr (), l @ [e]))"
proof -
  have i: "acl_inv C l" by (rule acl_reachable_inv [OF assms])
  have q: "len_of_fabric f l \<le> acl_per_fabric C" for f using i by (simp add: acl_inv_def)
  have "(acl_per_fabric C \<le> len_of_fabric f l) = (len_of_fabric f l = acl_per_fabric C)" for f
    using q [of f] by linarith
  moreover have "(acl_N C \<le> length l) = (length l = acl_N C)" using i by (auto simp: acl_inv_def)
  ultimately show ?thesis using i by (simp add: acl_inv_def acl_add_outcome)
qed

definition demo_acl_config :: AclConfig where
  "demo_acl_config = \<lparr>acl_N = 20, acl_S = 4, acl_per_fabric = 4, acl_auxiliary = False\<rparr>"

theorem acl_invariant_witness:
  "length (snd (add_admin_for_fabric demo_acl_config 1 5 acl_new)) \<le> acl_N demo_acl_config"
  using acl_invariant [OF acl_reachable.admin [OF acl_reachable.fresh], of demo_acl_config 1 5] by blast

text \<open>C5: Access is granted exactly when the requester is commissioning over PASE or some entry of its own fabric
  and authentication mode matches it and the target and carries a privilege that grants what
  is required; nothing is granted by default and no group is ever granted Administer.  The
  bit set with its early exit decides nothing else, for every privilege on the ladder.\<close>

theorem acl_decision:
  assumes "acl_reachable C l" and "required \<noteq> ProxyView"
  shows "acl_allows C n d ep cl required l =
      (if commissioning_session d \<or> (\<exists>e \<in> set l. entry_applies C n d ep cl e \<and> grants (en_privilege e) required)
       then AccessGranted else AccessDenied)
    \<and> (sd_auth_mode d = Some AuthGroup \<longrightarrow> acl_allows C n d ep cl Administer l = AccessDenied)"
proof -
  have wf: "\<forall>e \<in> set l. entry_is_well_formed e" using acl_reachable_inv [OF assms(1)] by (simp add: acl_inv_def)
  have "\<not> granted_has (granted C n d ep cl l) Administer" if "sd_auth_mode d = Some AuthGroup"
    using that by (auto simp: granted_def Let_def)
  then show ?thesis using granted_iff [OF wf assms(2)] by (auto simp: acl_allows_def)
qed

lemma demo_admin:
  "add_admin_for_fabric demo_acl_config 1 5 acl_new = (Inr (), [(entry_case 1 Administer)\<lparr>en_subjects := [5]\<rparr>])"
  by (simp add: add_admin_for_fabric_def node_id_kind_def OPERATIONAL_MIN_def OPERATIONAL_MAX_def word_le_nat_alt
      entry_with_subject_def entry_case_def demo_acl_config_def vec_push_def acl_new_def acl_add_outcome bindE_def
      entry_is_well_formed_def subject_is_valid_def len_of_fabric_def of_fabric_def)

theorem acl_decision_witness:
  "acl_allows demo_acl_config [] (subject_case 1 5) 0 31 Manage (snd (add_admin_for_fabric demo_acl_config 1 5 acl_new))
      = AccessGranted
   \<and> acl_allows demo_acl_config [] (subject_case 2 5) 0 31 View (snd (add_admin_for_fabric demo_acl_config 1 5 acl_new))
      = AccessDenied"
  using acl_decision [OF acl_reachable.admin [OF acl_reachable.fresh, of demo_acl_config 1 5], of Manage "[]" "subject_case 1 5" 0 31]
    acl_decision [OF acl_reachable.admin [OF acl_reachable.fresh, of demo_acl_config 1 5], of View "[]" "subject_case 2 5" 0 31]
  by (simp add: demo_admin commissioning_session_def subject_case_def entry_applies_def entry_case_def
      entry_subject_matches_def subject_matches_def entry_target_matches_def grants_iff less_eq_Privilege_def)

text \<open>C12: Fabrics are isolated: a decision depends on the requester's own fabric's entries alone, so removing
  or replacing another fabric's entries, completed or refused halfway, changes no privilege
  it holds; and a requester whose fabric is removed is left with nothing.\<close>

theorem acl_fabric_isolation:
  assumes "\<forall>e \<in> set es. en_fabric_index e = f"
  shows "(sd_fabric_index d \<noteq> f \<longrightarrow>
        granted C n d ep cl (acl_remove_fabric f l) = granted C n d ep cl l
      \<and> granted C n d ep cl (snd (replace_fabric C f es l)) = granted C n d ep cl l)
    \<and> (sd_fabric_index d = f \<and> \<not> commissioning_session d \<longrightarrow> granted C n d ep cl (acl_remove_fabric f l) = 0)"
proof (intro conjI impI)
  have add_all: "of_fabric g (snd (acl_add_all C es' l')) = of_fabric g l'" if "g \<noteq> f" "\<forall>e \<in> set es'. en_fabric_index e = f"
    for g es' l'
    using that(2)
  proof (induction es' arbitrary: l')
    case (Cons e es')
    have "of_fabric g (snd (acl_add C e l')) = of_fabric g l'"
      using Cons.prems that(1) by (auto simp: acl_add_outcome of_fabric_def)
    then show ?case
      using Cons.prems Cons.IH [of "snd (acl_add C e l')"]
      by (cases "acl_add C e l'"; cases "fst (acl_add C e l')") (auto simp: bindE_def)
  qed simp
  assume d: "sd_fabric_index d \<noteq> f"
  show "granted C n d ep cl (acl_remove_fabric f l) = granted C n d ep cl l" by (rule granted_other_fabric [OF d])
  show "granted C n d ep cl (snd (replace_fabric C f es l)) = granted C n d ep cl l"
    using granted_fabric [of C n d ep cl l] granted_fabric [of C n d ep cl "snd (replace_fabric C f es l)"] of_fabric_remove_other [OF d]
      add_all [OF d assms, of "acl_remove_fabric f l"] by (simp add: replace_fabric_def)
next
  assume "sd_fabric_index d = f \<and> \<not> commissioning_session d"
  then show "granted C n d ep cl (acl_remove_fabric f l) = 0" using granted_removed by blast
qed

theorem acl_fabric_isolation_witness:
  "granted demo_acl_config [] (subject_case 2 5) 0 31 (acl_remove_fabric 2 [entry_case 2 View]) = 0"
  using acl_fabric_isolation [of "[]" 2 "subject_case 2 5" demo_acl_config "[]" 0 31 "[entry_case 2 View]"]
  by (simp add: commissioning_session_def subject_case_def)

end
