(* ===== verification/Sc_Status.thy ===== *)
theory Sc_Status
  imports Msg_Header
begin

text \<open>
  Status reports of the secure channel protocol (\<^verbatim>\<open>src/src/sc/status.rs\<close>) and its opcodes
  (\<^verbatim>\<open>src/src/sc/mod.rs\<close>).  The report is interpreted as a \<open>wire_codec\<close> in the octets it is
  written as.
\<close>

datatype GeneralCode =
    GcSuccess | GcFailure | GcBadPrecondition | GcOutOfRange | GcBadRequest | GcUnsupported | GcUnexpected
  | GcResourceExhausted | GcBusy | GcTimeout | GcContinue | GcAborted | GcInvalidArgument | GcNotFound
  | GcAlreadyExists | GcPermissionDenied | GcDataLoss | GcMessageTooLarge

primrec general_code_value :: "GeneralCode \<Rightarrow> u16" where
  "general_code_value GcSuccess = 0"
| "general_code_value GcFailure = 1"
| "general_code_value GcBadPrecondition = 2"
| "general_code_value GcOutOfRange = 3"
| "general_code_value GcBadRequest = 4"
| "general_code_value GcUnsupported = 5"
| "general_code_value GcUnexpected = 6"
| "general_code_value GcResourceExhausted = 7"
| "general_code_value GcBusy = 8"
| "general_code_value GcTimeout = 9"
| "general_code_value GcContinue = 10"
| "general_code_value GcAborted = 11"
| "general_code_value GcInvalidArgument = 12"
| "general_code_value GcNotFound = 13"
| "general_code_value GcAlreadyExists = 14"
| "general_code_value GcPermissionDenied = 15"
| "general_code_value GcDataLoss = 16"
| "general_code_value GcMessageTooLarge = 17"

definition general_code_from_u16 :: "u16 \<Rightarrow> GeneralCode result" where
  "general_code_from_u16 v =
     (if v = 0 then Inr GcSuccess else if v = 1 then Inr GcFailure else if v = 2 then Inr GcBadPrecondition
      else if v = 3 then Inr GcOutOfRange else if v = 4 then Inr GcBadRequest else if v = 5 then Inr GcUnsupported
      else if v = 6 then Inr GcUnexpected else if v = 7 then Inr GcResourceExhausted else if v = 8 then Inr GcBusy
      else if v = 9 then Inr GcTimeout else if v = 10 then Inr GcContinue else if v = 11 then Inr GcAborted
      else if v = 12 then Inr GcInvalidArgument else if v = 13 then Inr GcNotFound
      else if v = 14 then Inr GcAlreadyExists else if v = 15 then Inr GcPermissionDenied
      else if v = 16 then Inr GcDataLoss else if v = 17 then Inr GcMessageTooLarge
      else Inl MessageReserved)"

definition general_code_is_success :: "GeneralCode \<Rightarrow> bool" where
  "general_code_is_success c \<longleftrightarrow> c \<in> {GcSuccess, GcContinue}"

datatype SecureChannelCode =
  SessionEstablishmentSuccess | NoSharedTrustRoots | InvalidParameter | CloseSession | ScBusy

primrec sc_code_value :: "SecureChannelCode \<Rightarrow> u16" where
  "sc_code_value SessionEstablishmentSuccess = 0"
| "sc_code_value NoSharedTrustRoots = 1"
| "sc_code_value InvalidParameter = 2"
| "sc_code_value CloseSession = 3"
| "sc_code_value ScBusy = 4"

primrec sc_code_general :: "SecureChannelCode \<Rightarrow> GeneralCode" where
  "sc_code_general SessionEstablishmentSuccess = GcSuccess"
| "sc_code_general CloseSession = GcSuccess"
| "sc_code_general NoSharedTrustRoots = GcFailure"
| "sc_code_general InvalidParameter = GcFailure"
| "sc_code_general ScBusy = GcBusy"

definition sc_requires_encryption :: "SecureChannelCode \<Rightarrow> bool" where
  "sc_requires_encryption c \<longleftrightarrow> c = CloseSession"

definition SECURE_CHANNEL :: ProtocolId where "SECURE_CHANNEL = protocol_common 0"

definition MRP_STANDALONE_ACK :: u8 where "MRP_STANDALONE_ACK = 0x10"
definition STATUS_REPORT :: u8 where "STATUS_REPORT = 0x40"

record StatusReport =
  sr_general :: GeneralCode
  sr_protocol :: ProtocolId
  sr_protocol_code :: u16
  sr_data :: bytes

definition report_secure_channel :: "SecureChannelCode \<Rightarrow> StatusReport" where
  "report_secure_channel c = \<lparr>sr_general = sc_code_general c, sr_protocol = SECURE_CHANNEL,
     sr_protocol_code = sc_code_value c, sr_data = []\<rparr>"

definition report_is_success :: "StatusReport \<Rightarrow> bool" where
  "report_is_success r \<longleftrightarrow> general_code_is_success (sr_general r)"

definition secure_channel_code :: "StatusReport \<Rightarrow> SecureChannelCode option" where
  "secure_channel_code r =
     (if sr_protocol r \<noteq> SECURE_CHANNEL then None
      else if sr_protocol_code r = 0 then Some SessionEstablishmentSuccess
      else if sr_protocol_code r = 1 then Some NoSharedTrustRoots
      else if sr_protocol_code r = 2 then Some InvalidParameter
      else if sr_protocol_code r = 3 then Some CloseSession
      else if sr_protocol_code r = 4 then Some ScBusy
      else None)"

definition report_encoded_len :: "StatusReport \<Rightarrow> nat" where
  "report_encoded_len r = 8 + length (sr_data r)"

definition qualified_protocol :: "ProtocolId \<Rightarrow> u32" where
  "qualified_protocol p = push_bit 16 (ucast (proto_vendor p)) OR ucast (proto_id p)"

definition report_encode :: "StatusReport \<Rightarrow> (bytes, nat) mutator" where
  "report_encode r out =
     (if length out < report_encoded_len r then (Inl BufferTooSmall, out)
      else (Inr (report_encoded_len r),
            overwrite out 0 (u16_bytes (general_code_value (sr_general r)) @ u32_bytes (qualified_protocol (sr_protocol r))
              @ u16_bytes (sr_protocol_code r) @ sr_data r)))"

definition report_decode :: "bytes \<Rightarrow> StatusReport result" where
  "report_decode buf =
     (if length buf < 8 then Inl MessageTruncated
      else
        let q = u32_from (take 4 (drop 2 buf)) in
        bindR (general_code_from_u16 (u16_from (take 2 buf))) (\<lambda>general.
        Inr \<lparr>sr_general = general, sr_protocol = \<lparr>proto_vendor = ucast (drop_bit 16 q), proto_id = ucast q\<rparr>,
             sr_protocol_code = u16_from (take 2 (drop 6 buf)), sr_data = drop 8 buf\<rparr>))"

section \<open>The octets of a report\<close>

definition report_bytes :: "StatusReport \<Rightarrow> bytes" where
  "report_bytes r = u16_bytes (general_code_value (sr_general r)) @ u32_bytes (qualified_protocol (sr_protocol r))
     @ u16_bytes (sr_protocol_code r) @ sr_data r"

lemma general_code_roundtrip [simp]: "general_code_from_u16 (general_code_value c) = Inr c"
  by (cases c) (simp_all add: general_code_from_u16_def)

lemma qualified_protocol_parts:
  "ucast (drop_bit 16 (qualified_protocol p)) = proto_vendor p" "ucast (qualified_protocol p) = proto_id p"
  unfolding qualified_protocol_def by (rule bit_word_eqI; auto simp: bit_simps dest: bit_imp_le_length)+

lemma report_decode_bytes: "report_decode (report_bytes r) = Inr r"
  by (cases r) (simp add: report_decode_def report_bytes_def Let_def qualified_protocol_parts)

lemma report_encode_bytes:
  "report_encoded_len r \<le> length out \<Longrightarrow>
    report_encode r out = (Inr (report_encoded_len r), report_bytes r @ drop (report_encoded_len r) out)"
  by (simp add: report_encode_def report_bytes_def report_encoded_len_def overwrite_def)

text \<open>A report takes the whole rest of its message, so there is never anything behind it.\<close>

interpretation src: wire_codec report_bytes "\<lambda>bs. bindR (report_decode bs) (\<lambda>r. Inr (r\<lparr>sr_data := []\<rparr>, sr_data r))"
    "\<lambda>r. sr_data r = []"
proof
  fix r :: StatusReport and rest assume "sr_data r = []"
  then have "report_bytes r @ rest = report_bytes (r\<lparr>sr_data := rest\<rparr>)" by (simp add: report_bytes_def)
  then show "bindR (report_decode (report_bytes r @ rest)) (\<lambda>r. Inr (r\<lparr>sr_data := []\<rparr>, sr_data r)) = Inr (r, rest)"
    using \<open>sr_data r = []\<close> by (simp only: report_decode_bytes) simp
qed

end
