(* ===== verification/Messaging.thy ===== *)
theory Messaging
  imports Sc_Status Session Exchange_Table
begin

text \<open>
  The message layer (\<^verbatim>\<open>src/src/messaging.rs\<close>), which holds the session table, the exchange table
  and the counters of unsecured traffic together: sending frames, protects and schedules a
  message; receiving finds the session, authenticates, moves the replay window, routes to an
  exchange and feeds the reliability machine; polling hands out what the timers ask for.

  A caller's buffers are arguments; the output buffer is returned with the result.  A scratch
  buffer is an argument whose contents afterwards nobody reads.
\<close>

definition PROTOCOL_HEADER_MAX :: nat where "PROTOCOL_HEADER_MAX = 16"

datatype Received =
    ReceivedGroup SessionId Peer
  | SessionClosed SessionId
  | ReceivedMessage ExchangeKey ProtocolHeader bool bytes
  | ReceivedDuplicate ExchangeKey bool
  | ReceivedAcknowledged ExchangeKey

datatype Due = DueRetransmit ExchangeKey u32 | DueAcknowledge ExchangeKey | DueAbandoned ExchangeKey

section \<open>Registered protocols\<close>

type_synonym Protocols = u8

definition protocol_bit :: "ProtocolId \<Rightarrow> u8 option" where
  "protocol_bit p =
     (if proto_vendor p \<noteq> VendorId_COMMON then None
      else if proto_id p \<le> 4 then Some (push_bit (unat (proto_id p)) 1) else None)"

definition PROTOCOLS_NONE :: Protocols where "PROTOCOLS_NONE = 0"
definition PROTOCOLS_SECURE_CHANNEL :: Protocols where "PROTOCOLS_SECURE_CHANNEL = 1"
definition PROTOCOLS_INTERACTION_MODEL :: Protocols where "PROTOCOLS_INTERACTION_MODEL = 2"
definition PROTOCOLS_BDX :: Protocols where "PROTOCOLS_BDX = 4"
definition PROTOCOLS_DEVICE :: Protocols where
  "PROTOCOLS_DEVICE = PROTOCOLS_SECURE_CHANNEL OR PROTOCOLS_INTERACTION_MODEL"

definition protocols_with :: "Protocols \<Rightarrow> Protocols \<Rightarrow> Protocols" where
  "protocols_with a b = a OR b"

definition protocols_contains :: "Protocols \<Rightarrow> ProtocolId \<Rightarrow> bool" where
  "protocols_contains ps p = (case protocol_bit p of Some b \<Rightarrow> ps AND b \<noteq> 0 | None \<Rightarrow> False)"

section \<open>State\<close>

record UnsecuredPeer =
  up_ephemeral_initiator :: NodeId
  up_we_initiated :: bool

record Evicted =
  ev_session :: SessionId
  ev_peer :: "Peer option"
  ev_len :: nat

record Messaging =
  mg_sessions :: SessionTable
  mg_exchanges :: ExchangeTable
  mg_unsecured_counter :: MessageCounter
  mg_unsecured_window :: CounterWindow
  mg_unsecured_peer :: "UnsecuredPeer option"
  mg_privacy :: bool
  mg_protocols :: Protocols

definition messaging_new :: "u16 \<Rightarrow> u16 \<Rightarrow> u32 \<Rightarrow> Messaging" where
  "messaging_new first_session_id first_exchange_id initial =
     \<lparr>mg_sessions = st_new first_session_id, mg_exchanges = et_new first_exchange_id,
      mg_unsecured_counter = mc_new initial, mg_unsecured_window = cw_new Rollover, mg_unsecured_peer = None,
      mg_privacy = False, mg_protocols = PROTOCOLS_DEVICE\<rparr>"

definition register :: "Protocols \<Rightarrow> Messaging \<Rightarrow> Messaging" where
  "register ps m = m\<lparr>mg_protocols := ps\<rparr>"

definition set_privacy :: "bool \<Rightarrow> Messaging \<Rightarrow> Messaging" where
  "set_privacy p m = m\<lparr>mg_privacy := p\<rparr>"

text \<open>A call of one of the tables' own operations.\<close>

definition on_exchanges :: "(ExchangeTable, 'a) mutator \<Rightarrow> (Messaging, 'a) mutator" where
  "on_exchanges f m = (let (r, t) = f (mg_exchanges m) in (r, m\<lparr>mg_exchanges := t\<rparr>))"

definition on_sessions :: "(SessionTable, 'a) mutator \<Rightarrow> (Messaging, 'a) mutator" where
  "on_sessions f m = (let (r, t) = f (mg_sessions m) in (r, m\<lparr>mg_sessions := t\<rparr>))"

definition mg_mrp_params :: "SessionId \<Rightarrow> Messaging \<Rightarrow> MrpParams" where
  "mg_mrp_params s m = (case st_find s (mg_sessions m) of None \<Rightarrow> params_default | Some x \<Rightarrow> ss_mrp x)"

section \<open>Opening and closing\<close>

definition open_unsecured_as_initiator :: "NodeId \<Rightarrow> (Messaging, unit) mutator" where
  "open_unsecured_as_initiator ephemeral m =
     (if \<not> node_id_is_operational ephemeral then (Inl InvalidArgument, m)
      else (Inr (), m\<lparr>mg_unsecured_peer := Some \<lparr>up_ephemeral_initiator = ephemeral, up_we_initiated = True\<rparr>\<rparr>))"

definition open_unsecured :: "nat \<Rightarrow> ProtocolId \<Rightarrow> Instant \<Rightarrow> u64 \<Rightarrow> (Messaging, ExchangeKey) mutator" where
  "open_unsecured X protocol now randomness =
     bindE (open_unsecured_as_initiator (node_id_ephemeral randomness)) (\<lambda>_ m.
     on_exchanges (open_initiator X SessionId_UNSECURED protocol (mg_mrp_params SessionId_UNSECURED m) None now) m)"

definition open_unsecured_to :: "nat \<Rightarrow> ProtocolId \<Rightarrow> Peer \<Rightarrow> Instant \<Rightarrow> u64 \<Rightarrow> (Messaging, ExchangeKey) mutator" where
  "open_unsecured_to X protocol peer now randomness =
     bindE (open_unsecured_as_initiator (node_id_ephemeral randomness)) (\<lambda>_ m.
     on_exchanges (open_initiator X SessionId_UNSECURED protocol (mg_mrp_params SessionId_UNSECURED m) (Some peer) now) m)"

definition close_unsecured :: "Messaging \<Rightarrow> Messaging" where
  "close_unsecured m = m\<lparr>mg_unsecured_peer := None\<rparr>"

definition unsecured_ephemeral_id :: "Messaging \<Rightarrow> NodeId option" where
  "unsecured_ephemeral_id m = map_option up_ephemeral_initiator (mg_unsecured_peer m)"

definition mg_open :: "nat \<Rightarrow> SessionId \<Rightarrow> ProtocolId \<Rightarrow> Instant \<Rightarrow> (Messaging, ExchangeKey) mutator" where
  "mg_open X s protocol now m =
     (if s = SessionId_UNSECURED \<and> mg_unsecured_peer m = None then (Inl InvalidState, m)
      else
        let peer = Option.bind (st_find s (mg_sessions m)) ss_peer in
        on_exchanges (open_initiator X s protocol (mg_mrp_params s m) peer now) m)"

definition mg_open_to :: "nat \<Rightarrow> SessionId \<Rightarrow> ProtocolId \<Rightarrow> Peer \<Rightarrow> Instant \<Rightarrow> (Messaging, ExchangeKey) mutator" where
  "mg_open_to X s protocol peer now m =
     (if s = SessionId_UNSECURED \<and> mg_unsecured_peer m = None then (Inl InvalidState, m)
      else on_exchanges (open_initiator X s protocol (mg_mrp_params s m) (Some peer) now) m)"

definition mg_peer :: "ExchangeKey \<Rightarrow> Messaging \<Rightarrow> Peer option" where
  "mg_peer x m = Option.bind (et_find x (mg_exchanges m)) ex_peer"

definition mg_close :: "ExchangeKey \<Rightarrow> Messaging \<Rightarrow> bool \<times> Messaging" where
  "mg_close x m = (let (r, t) = et_close x (mg_exchanges m) in (r, m\<lparr>mg_exchanges := t\<rparr>))"

definition mg_close_session :: "SessionId \<Rightarrow> Messaging \<Rightarrow> bool \<times> Messaging" where
  "mg_close_session s m =
     (let m = m\<lparr>mg_exchanges := snd (close_session s (mg_exchanges m))\<rparr>; (r, t) = st_remove s (mg_sessions m) in
      (r, m\<lparr>mg_sessions := t\<rparr>))"

fun close_sessions :: "SessionId list \<Rightarrow> ExchangeTable \<Rightarrow> ExchangeTable" where
  "close_sessions [] t = t"
| "close_sessions (s # ss) t = close_sessions ss (snd (close_session s t))"

definition mg_remove_fabric :: "FabricIndex \<Rightarrow> Messaging \<Rightarrow> nat \<times> Messaging" where
  "mg_remove_fabric f m =
     (let doomed = map ss_local_session_id (filter (\<lambda>s. ss_fabric_index s = f) (st_sessions (mg_sessions m)));
          m = m\<lparr>mg_exchanges := close_sessions doomed (mg_exchanges m)\<rparr>;
          (r, t) = st_remove_fabric f (mg_sessions m) in
      (r, m\<lparr>mg_sessions := t\<rparr>))"

section \<open>Sending\<close>

definition mg_next_counter :: "SessionId \<Rightarrow> Instant \<Rightarrow> (Messaging, u32) mutator" where
  "mg_next_counter s now m =
     (if s = SessionId_UNSECURED
      then let (r, c) = mc_take (mg_unsecured_counter m) in (r, m\<lparr>mg_unsecured_counter := c\<rparr>)
      else case st_find s (mg_sessions m) of
             None \<Rightarrow> (Inl NoSession, m)
           | Some x \<Rightarrow>
               (fst (next_counter now x),
                m\<lparr>mg_sessions := st_find_mut s (\<lambda>x. snd (next_counter now x)) (mg_sessions m)\<rparr>))"

text \<open>The message header an unsecured message goes out under: the ephemeral identifier is the source of
  the end that initiated and the destination of the other.\<close>

definition unsecured_header :: "Messaging \<Rightarrow> u32 \<Rightarrow> MessageHeader" where
  "unsecured_header m counter =
     (let (source, destination) =
        (case mg_unsecured_peer m of
           Some p \<Rightarrow> if up_we_initiated p then (Some (up_ephemeral_initiator p), NoDestination)
                     else (None, ToNode (up_ephemeral_initiator p))
         | None \<Rightarrow> (None, NoDestination)) in
      mh_default\<lparr>mh_session_id := SessionId_UNSECURED, mh_message_counter := counter, mh_source := source,
        mh_destination := destination\<rparr>)"

definition frame_unsecured :: "Messaging \<Rightarrow> u32 \<Rightarrow> bytes \<Rightarrow> (bytes, nat) mutator" where
  "frame_unsecured m counter body =
     bindE (mh_encode (unsecured_header m counter)) (\<lambda>header_len.
     bindE (liftE (ok_or BufferTooSmall (usize_checked_add header_len (length body)))) (\<lambda>n.
     bindE (on_region BufferTooSmall header_len n (\<lambda>_. (Inr (), body))) (\<lambda>_.
     retE n)))"

definition secured_header :: "Messaging \<Rightarrow> SecureSession \<Rightarrow> u32 \<Rightarrow> MessageHeader" where
  "secured_header m x counter =
     mh_default\<lparr>mh_session_id := ss_peer_session_id x, mh_message_counter := counter, mh_source := None,
       mh_destination := NoDestination, mh_privacy := mg_privacy m \<and> ss_kind x = CaseSession\<rparr>"

definition frame_secured :: "Cipher \<Rightarrow> Messaging \<Rightarrow> SessionId \<Rightarrow> u32 \<Rightarrow> bytes \<Rightarrow> (bytes, nat) mutator" where
  "frame_secured C m s counter body =
     bindE (liftE (ok_or NoSession (st_find s (mg_sessions m)))) (\<lambda>x.
     protect C (secured_header m x counter)
       (case ss_kind x of PaseSession \<Rightarrow> PaseNonce | CaseSession \<Rightarrow> CaseNonce (ss_local_node_id x))
       body (keys_sending (ss_keys x) (ss_role x)))"

definition frame ::
    "Cipher \<Rightarrow> Messaging \<Rightarrow> SessionId \<Rightarrow> u32 \<Rightarrow> ProtocolHeader \<Rightarrow> bytes \<Rightarrow> bytes \<Rightarrow> (bytes, nat) mutator" where
  "frame C m s counter ph payload scratch out =
     (case bindE (ph_encode ph) (\<lambda>header_len.
           bindE (liftE (ok_or BufferTooSmall (usize_checked_add header_len (length payload)))) (\<lambda>n.
           bindE (on_region BufferTooSmall header_len n (\<lambda>_. (Inr (), payload))) (\<lambda>_.
           bindE getE (\<lambda>buf. liftE (ok_or BufferTooSmall (slice_get buf 0 n)))))) scratch of
        (Inl e, _) \<Rightarrow> (Inl e, out)
      | (Inr body, _) \<Rightarrow>
          if s = SessionId_UNSECURED then frame_unsecured m counter body out
          else frame_secured C m s counter body out)"

definition take_ack :: "ExchangeKey \<Rightarrow> Messaging \<Rightarrow> u32 option \<times> Messaging" where
  "take_ack x m =
     (Option.bind (et_find x (mg_exchanges m)) (\<lambda>e. fst (take_piggyback (ex_mrp e))),
      m\<lparr>mg_exchanges := et_find_mut x (\<lambda>e. e\<lparr>ex_mrp := snd (take_piggyback (ex_mrp e))\<rparr>) (mg_exchanges m)\<rparr>)"

definition mg_schedule :: "ExchangeKey \<Rightarrow> u32 \<Rightarrow> Instant \<Rightarrow> u32 \<Rightarrow> (Messaging, unit) mutator" where
  "mg_schedule x counter now randomness m =
     (case et_find x (mg_exchanges m) of
        None \<Rightarrow> (Inr (), m)
      | Some e \<Rightarrow>
          (fst (mrp_on_send counter now randomness (ex_mrp e)),
           m\<lparr>mg_exchanges := et_find_mut x (\<lambda>e. e\<lparr>ex_mrp := snd (mrp_on_send counter now randomness (ex_mrp e))\<rparr>)
               (mg_exchanges m)\<rparr>))"

text \<open>\<^verbatim>\<open>frame\<close> borrows the state and writes the caller's buffer.\<close>

definition frame_out ::
    "Cipher \<Rightarrow> SessionId \<Rightarrow> u32 \<Rightarrow> ProtocolHeader \<Rightarrow> bytes \<Rightarrow> bytes \<Rightarrow> (Messaging \<times> bytes, nat) mutator" where
  "frame_out C s counter ph payload scratch st =
     (let (r, out) = frame C (fst st) s counter ph payload scratch (snd st) in (r, (fst st, out)))"

definition on_state :: "(Messaging, 'a) mutator \<Rightarrow> (Messaging \<times> bytes, 'a) mutator" where
  "on_state f st = (let (r, m) = f (fst st) in (r, (m, snd st)))"

definition send ::
    "Cipher \<Rightarrow> ExchangeKey \<Rightarrow> u8 \<Rightarrow> bool \<Rightarrow> bytes \<Rightarrow> Instant \<Rightarrow> u32 \<Rightarrow> bytes \<Rightarrow> (Messaging \<times> bytes, nat \<times> u32) mutator" where
  "send C x opcode reliable payload now randomness scratch st =
     (case et_find x (mg_exchanges (fst st)) of
        None \<Rightarrow> (Inl NoExchange, st)
      | Some e \<Rightarrow>
          let reliable = (reliable \<and> \<not> is_transport_reliable e);
              (piggyback, m) = take_ack x (fst st);
              ph = \<lparr>ph_initiator = role_is_initiator (xk_role x), ph_acknowledged_counter = piggyback,
                    ph_reliability = reliable, ph_exchange_id = xk_id x, ph_protocol = ex_protocol e,
                    ph_opcode = opcode\<rparr> in
          bindE (on_state (mg_next_counter (xk_session x) now)) (\<lambda>counter.
          bindE (frame_out C (xk_session x) counter ph payload scratch) (\<lambda>written.
          bindE (if reliable then on_state (mg_schedule x counter now randomness) else retE ()) (\<lambda>_.
          retE (written, counter)))) (m, snd st))"

definition acknowledge :: "Cipher \<Rightarrow> ExchangeKey \<Rightarrow> Instant \<Rightarrow> (Messaging \<times> bytes, nat) mutator" where
  "acknowledge C x now st =
     (case et_find x (mg_exchanges (fst st)) of
        None \<Rightarrow> (Inl NoExchange, st)
      | Some e \<Rightarrow>
          let close_ephemeral = (\<lambda>m. if ex_ephemeral e then snd (mg_close x m) else m);
              (owed, m) = take_ack x (fst st) in
          (case owed of
             None \<Rightarrow> (Inr 0, (close_ephemeral m, snd st))
           | Some acknowledged \<Rightarrow>
               let ph = \<lparr>ph_initiator = role_is_initiator (xk_role x), ph_acknowledged_counter = Some acknowledged,
                         ph_reliability = False, ph_exchange_id = xk_id x, ph_protocol = SECURE_CHANNEL,
                         ph_opcode = MRP_STANDALONE_ACK\<rparr> in
               bindE (on_state (mg_next_counter (xk_session x) now)) (\<lambda>counter.
               bindE (frame_out C (xk_session x) counter ph [] (replicate PROTOCOL_HEADER_MAX 0)) (\<lambda>written.
               bindE (modifyE (\<lambda>st. (close_ephemeral (fst st), snd st))) (\<lambda>_.
               retE written))) (m, snd st)))"

text \<open>Installing a session in a full table closes the least recently used one, whose peer is told so.\<close>

definition install_session ::
    "Cipher \<Rightarrow> nat \<Rightarrow> nat \<Rightarrow> SecureSession \<Rightarrow> Instant \<Rightarrow> u32 \<Rightarrow> bytes \<Rightarrow> (Messaging \<times> bytes, Evicted option) mutator" where
  "install_session C S X new now randomness scratch st =
     (if length (st_sessions (mg_sessions (fst st))) < S
      then bindE (on_state (on_sessions (st_insert S new))) (\<lambda>_. retE None) st
      else case least_recently_used (mg_sessions (fst st)) of
        None \<Rightarrow> (Inl NoSpace, st)
      | Some victim \<Rightarrow>
          let peer = Option.bind (st_find victim (mg_sessions (fst st))) ss_peer;
              report = \<lparr>sr_general = GcSuccess, sr_protocol = SECURE_CHANNEL, sr_protocol_code = sc_code_value CloseSession,
                        sr_data = []\<rparr>;
              (encoded, body) = report_encode report (replicate 16 0) in
          bindE (liftE (bindR encoded (\<lambda>n. ok_or BufferTooSmall (slice_get body 0 n)))) (\<lambda>body.
          bindE (on_state (mg_open X victim SECURE_CHANNEL now)) (\<lambda>x st.
            let (framed, st) = send C x STATUS_REPORT False body now randomness scratch st in
            bindE (modifyE (\<lambda>st. (snd (mg_close_session victim (fst st)), snd st))) (\<lambda>_.
            bindE (on_state (on_sessions (st_insert S new))) (\<lambda>_.
            retE (Some \<lparr>ev_session = victim, ev_peer = peer,
                        ev_len = (case framed of Inl _ \<Rightarrow> 0 | Inr (n, _) \<Rightarrow> n)\<rparr>))) st)) st)"

section \<open>Receiving\<close>

definition route :: "nat \<Rightarrow> SessionId \<Rightarrow> ProtocolHeader \<Rightarrow> bool \<Rightarrow> Instant \<Rightarrow> (Messaging, ExchangeKey) mutator" where
  "route X s ph duplicate now m =
     (case find_for_message s (ph_exchange_id ph) (ph_initiator ph) (mg_exchanges m) of
        Some e \<Rightarrow> (Inr (ex_key e), m)
      | None \<Rightarrow>
          if \<not> ph_initiator ph then (Inl NoExchange, m)
          else if \<not> duplicate \<and> protocols_contains (mg_protocols m) (ph_protocol ph)
            then on_exchanges (open_responder X s (ph_exchange_id ph) (ph_protocol ph) (mg_mrp_params s m) now) m
          else if ph_reliability ph
            then on_exchanges (open_ephemeral X s (ph_exchange_id ph) (ph_protocol ph) (mg_mrp_params s m) now) m
          else (Inl NoExchange, m))"

text \<open>Finding the key and opening the message: the header, the payload's range and the buffer after.\<close>

definition open_message ::
    "Cipher \<Rightarrow> Messaging \<Rightarrow> Preview \<Rightarrow> (bytes, MessageHeader \<times> nat \<times> nat) mutator" where
  "open_message C m head buf =
     (if pv_session_id head = SessionId_UNSECURED
      then
        bindE (liftE (mh_decode buf)) (\<lambda>(h, rest).
        bindE (ensureE MessageReserved (mh_is_unsecured h)) (\<lambda>_.
        retE (h, length buf - length rest, length buf))) buf
      else
        bindE (liftE (ok_or NoSession (st_find (pv_session_id head) (mg_sessions m)))) (\<lambda>x.
        unprotect C (keys_receiving (ss_keys x) (ss_role x))
          (case ss_kind x of PaseSession \<Rightarrow> PaseNonce | CaseSession \<Rightarrow> CaseNonce (ss_peer_node_id x))) buf)"

definition judge :: "MessageHeader \<Rightarrow> SessionId \<Rightarrow> Peer \<Rightarrow> Instant \<Rightarrow> (Messaging, Verdict) mutator" where
  "judge h s from now m =
     (if mh_is_unsecured h
      then let (v, w) = cw_accept (mg_unsecured_window m) (mh_message_counter h) in
           (Inr v, m\<lparr>mg_unsecured_window := w\<rparr>)
      else case st_find s (mg_sessions m) of
             None \<Rightarrow> (Inl NoSession, m)
           | Some x \<Rightarrow>
               (Inr (fst (accept_counter (mh_message_counter h) now x)),
                m\<lparr>mg_sessions := st_find_mut s
                   (\<lambda>x. snd (accept_counter (mh_message_counter h) now (x\<lparr>ss_peer := Some from\<rparr>))) (mg_sessions m)\<rparr>))"

text \<open>An unsecured message must belong to the context: it names our ephemeral identifier as its destination, or it
  carries a source, which becomes the context when it differs.\<close>

definition match_context :: "MessageHeader \<Rightarrow> (Messaging, unit) mutator" where
  "match_context h m =
     (if \<not> mh_is_unsecured h then (Inr (), m)
      else case mh_source h of
        None \<Rightarrow>
          if (case (mg_unsecured_peer m, mh_destination h) of
                (Some p, ToNode i) \<Rightarrow> up_ephemeral_initiator p = i | _ \<Rightarrow> False)
          then (Inr (), m) else (Inl NoSession, m)
      | Some source \<Rightarrow>
          if (case mg_unsecured_peer m of None \<Rightarrow> True | Some p \<Rightarrow> up_ephemeral_initiator p \<noteq> source)
          then (Inr (), m\<lparr>mg_unsecured_peer := Some \<lparr>up_ephemeral_initiator = source, up_we_initiated = False\<rparr>\<rparr>)
          else (Inr (), m))"

text \<open>What an arrival does to its exchange.\<close>

definition exchange_arrival :: "Peer \<Rightarrow> Instant \<Rightarrow> u32 \<Rightarrow> ProtocolHeader \<Rightarrow> bool \<Rightarrow> Exchange \<Rightarrow> Exchange" where
  "exchange_arrival from now counter ph duplicate e =
     (let e = exchange_touch now e;
          e = e\<lparr>ex_peer := Some from, ex_mrp := note_peer_activity now (ex_mrp e)\<rparr>;
          e = (case ph_acknowledged_counter ph of
                 None \<Rightarrow> e
               | Some a \<Rightarrow> e\<lparr>ex_mrp := snd (mrp_on_ack a now (ex_mrp e))\<rparr>) in
      if ph_reliability ph then e\<lparr>ex_mrp := on_reliable_received counter now duplicate (ex_mrp e)\<rparr> else e)"

definition is_close_report :: "bytes \<Rightarrow> bool" where
  "is_close_report body =
     (case report_decode body of
        Inl _ \<Rightarrow> False
      | Inr r \<Rightarrow> sr_protocol r = SECURE_CHANNEL \<and> sr_protocol_code r = sc_code_value CloseSession)"

definition deliver :: "MessageHeader \<Rightarrow> ProtocolHeader \<Rightarrow> bytes \<Rightarrow> bool \<Rightarrow> ExchangeKey \<Rightarrow> Messaging \<Rightarrow> Received \<times> Messaging" where
  "deliver h ph body duplicate key m =
     (if duplicate then (ReceivedDuplicate key (ph_reliability ph), m)
      else if ph_protocol ph = SECURE_CHANNEL \<and> ph_opcode ph = MRP_STANDALONE_ACK then (ReceivedAcknowledged key, m)
      else if \<not> mh_is_unsecured h \<and> ph_protocol ph = SECURE_CHANNEL \<and> ph_opcode ph = STATUS_REPORT \<and> is_close_report body
        then (SessionClosed (mh_session_id h), snd (mg_close_session (mh_session_id h) m))
      else (ReceivedMessage key ph (ph_reliability ph) body, m))"

definition receive :: "Cipher \<Rightarrow> nat \<Rightarrow> bytes \<Rightarrow> Peer \<Rightarrow> Instant \<Rightarrow> (Messaging, Received) mutator" where
  "receive C X buf from now m =
     (case preview buf of
        Inl e \<Rightarrow> (Inl e, m)
      | Inr head \<Rightarrow>
          if pv_session_type head = GroupSession then (Inr (ReceivedGroup (pv_session_id head) from), m)
          else case open_message C m head buf of
            (Inl e, _) \<Rightarrow> (Inl e, m)
          | (Inr (h, a, b), buf) \<Rightarrow>
              bindE (judge h (pv_session_id head) from now) (\<lambda>verdict.
              bindE (liftE (ok_or MessageTruncated (slice_get buf a b))) (\<lambda>payload.
              bindE (liftE (ph_decode payload)) (\<lambda>(ph, body).
              bindE (match_context h) (\<lambda>_.
              bindE (route X (mh_session_id h) ph (verdict = Duplicate) now) (\<lambda>key m.
                if et_find key (mg_exchanges m) = None then (Inl NoExchange, m)
                else
                  let m = m\<lparr>mg_exchanges := et_find_mut key
                            (exchange_arrival from now (mh_message_counter h) ph (verdict = Duplicate)) (mg_exchanges m)\<rparr>;
                      (r, m) = deliver h ph body (verdict = Duplicate) key m in
                  (Inr r, m)))))) m)"

section \<open>Timers\<close>

definition wake_at :: "Messaging \<Rightarrow> Instant option" where
  "wake_at m =
     (let reap = et_reap_deadline EXCHANGE_IDLE_TIMEOUT (mg_exchanges m) in
      case (et_poll_deadline (mg_exchanges m), reap) of
        (Some a, Some b) \<Rightarrow> Some (if a \<le> b then a else b)
      | (Some a, None) \<Rightarrow> Some a
      | (None, b) \<Rightarrow> b)"

definition poll :: "Instant \<Rightarrow> u32 \<Rightarrow> Messaging \<Rightarrow> Due option \<times> Messaging" where
  "poll now randomness m =
     (let m = m\<lparr>mg_exchanges := snd (et_reap now EXCHANGE_IDLE_TIMEOUT (mg_exchanges m))\<rparr> in
      case List.find (\<lambda>e. case mrp_poll_deadline (ex_mrp e) of None \<Rightarrow> False | Some at \<Rightarrow> at \<le> now)
             (et_open (mg_exchanges m)) of
        None \<Rightarrow> (None, m)
      | Some e \<Rightarrow>
          let key = ex_key e in
          (case et_find key (mg_exchanges m) of
             None \<Rightarrow> (None, m)
           | Some x \<Rightarrow>
               let action = fst (mrp_on_timeout now randomness (ex_mrp x));
                   m = m\<lparr>mg_exchanges := et_find_mut key
                          (\<lambda>x. x\<lparr>ex_mrp := snd (mrp_on_timeout now randomness (ex_mrp x))\<rparr>) (mg_exchanges m)\<rparr> in
               (case action of
                  Retransmit counter _ \<Rightarrow> (Some (DueRetransmit key counter), m)
                | SendStandaloneAck _ \<Rightarrow> (Some (DueAcknowledge key), m)
                | GiveUp _ \<Rightarrow> (Some (DueAbandoned key), snd (mg_close key m))
                | Nothing \<Rightarrow> (None, m))))"

section \<open>Framing\<close>

lemma ph_encoded_len_max: "ph_encoded_len h \<le> 12"
  by (simp add: ph_encoded_len_def)

lemma ph_encode_room:
  assumes "length out \<le> USIZE_MAX" and "ph_encoded_len h \<le> length out"
  shows "ph_encode h out = (Inr (ph_encoded_len h), ph_bytes h @ drop (ph_encoded_len h) out)"
  using encode_into_emits(1) [OF ph_write_emits assms(1), of h] assms(2) by (simp add: ph_encode_def length_ph_bytes)

text \<open>With room in the scratch buffer, what is framed is the protocol header followed by the payload.\<close>

lemma frame_body:
  assumes "length scratch \<le> USIZE_MAX" and "ph_encoded_len ph + length payload \<le> length scratch"
  shows "frame C m s counter ph payload scratch out =
    (if s = SessionId_UNSECURED then frame_unsecured m counter (ph_bytes ph @ payload) out
     else frame_secured C m s counter (ph_bytes ph @ payload) out)"
proof -
  let ?hl = "ph_encoded_len ph" and ?n = "ph_encoded_len ph + length payload"
  have e: "ph_encode ph scratch = (Inr ?hl, ph_bytes ph @ drop ?hl scratch)"
    using assms by (intro ph_encode_room) auto
  let ?ys = "take (length payload) (drop ?hl scratch)" and ?zs = "drop ?n scratch"
  have d: "drop ?hl scratch = ?ys @ ?zs" by (metis add.commute append_take_drop_id drop_drop)
  have r: "on_region BufferTooSmall ?hl ?n (\<lambda>_. (Inr (), payload)) (ph_bytes ph @ ?ys @ ?zs)
      = (Inr (), ph_bytes ph @ payload @ ?zs)"
    using assms(2) by (intro on_region_append) (auto simp: length_ph_bytes)
  have t: "slice_get (ph_bytes ph @ payload @ ?zs) 0 ?n = Some (ph_bytes ph @ payload)"
    using slice_get_append [of 0 "[]" ?n "ph_bytes ph @ payload" ?zs] by (simp add: length_ph_bytes)
  have u: "usize_checked_add ?hl (length payload) = Some ?n" using assms by (simp add: usize_checked_add_def)
  have r': "on_region BufferTooSmall ?hl ?n (\<lambda>_. (Inr (), payload)) (ph_bytes ph @ drop ?hl scratch)
      = (Inr (), ph_bytes ph @ payload @ ?zs)" using r by (simp only: d [symmetric])
  have "bindE (ph_encode ph) (\<lambda>header_len.
        bindE (liftE (ok_or BufferTooSmall (usize_checked_add header_len (length payload)))) (\<lambda>n.
        bindE (on_region BufferTooSmall header_len n (\<lambda>_. (Inr (), payload))) (\<lambda>_.
        bindE getE (\<lambda>buf. liftE (ok_or BufferTooSmall (slice_get buf 0 n)))))) scratch
      = (Inr (ph_bytes ph @ payload), ph_bytes ph @ payload @ ?zs)"
    using e u r' t by (simp add: bindE_def)
  then show ?thesis unfolding frame_def by simp
qed

section \<open>Sessions that are two ends of one\<close>

definition mirrored :: "SecureSession \<Rightarrow> SecureSession \<Rightarrow> bool" where
  "mirrored x y \<longleftrightarrow> ss_keys x = ss_keys y \<and> ss_role x \<noteq> ss_role y \<and> ss_kind x = ss_kind y
     \<and> ss_local_node_id x = ss_peer_node_id y \<and> ss_peer_session_id x = ss_local_session_id y"

lemma mirrored_keys: "mirrored x y \<Longrightarrow> keys_sending (ss_keys x) (ss_role x) = keys_receiving (ss_keys y) (ss_role y)"
  by (cases "ss_role x"; cases "ss_role y") (simp_all add: mirrored_def)

lemma keys_wf_sending: "keys_wf k \<Longrightarrow> length (sk_encryption (keys_sending k r)) = 16 \<and> length (sk_privacy (keys_sending k r)) = 16"
  by (cases r) (simp_all add: keys_wf_def)

lemma secured_header_simps:
  "mh_session_id (secured_header m x c) = ss_peer_session_id x" "mh_message_counter (secured_header m x c) = c"
  "mh_encoded_len (secured_header m x c) = 8" "mh_session_type (secured_header m x c) = Unicast"
  "session_type_checks (secured_header m x c)" "mh_source (secured_header m x c) = None"
  "mh_is_unsecured (secured_header m x c) \<longleftrightarrow> ss_peer_session_id x = 0"
  by (simp_all add: secured_header_def mh_default_def mh_encoded_len_def session_type_checks_def mh_is_unsecured_def)

lemma mrp_params_find: "mg_mrp_params s (m\<lparr>mg_exchanges := t\<rparr>) = mg_mrp_params s m"
  by (simp add: mg_mrp_params_def)

text \<open>What one end frames the other end opens.\<close>

lemma framed_opens:
  assumes C: "cipher_ok C" and x: "st_find s (mg_sessions a) = Some x" and y: "st_find t (mg_sessions b) = Some y"
    and mir: "mirrored x y" "ss_local_session_id y = t" "t \<noteq> 0" and wf: "keys_wf (ss_keys x)"
    and body: "length body \<le> 65535" and out: "length out \<le> USIZE_MAX" "8 + length body + 16 \<le> length out"
  shows "\<exists>out' buf' h. frame_secured C a s counter body out = (Inr (8 + length body + 16), out')
    \<and> preview (take (8 + length body + 16) out') = Inr \<lparr>pv_session_id = t, pv_session_type = Unicast,
        pv_privacy = mh_privacy h, pv_control = mh_control h\<rparr>
    \<and> (\<forall>b'. (\<exists>y'. st_find t (mg_sessions b') = Some y' \<and> ss_keys y' = ss_keys y \<and> ss_role y' = ss_role y
            \<and> ss_kind y' = ss_kind y \<and> ss_peer_node_id y' = ss_peer_node_id y) \<longrightarrow>
         open_message C b' \<lparr>pv_session_id = t, pv_session_type = Unicast, pv_privacy = mh_privacy h, pv_control = mh_control h\<rparr>
            (take (8 + length body + 16) out') = (Inr (h, 8, 8 + length body), buf'))
    \<and> slice_get buf' 8 (8 + length body) = Some body
    \<and> \<not> mh_is_unsecured h \<and> mh_session_id h = t \<and> mh_message_counter h = counter"
proof -
  let ?h = "secured_header a x counter" and ?k = "keys_sending (ss_keys x) (ss_role x)"
  let ?ns = "case ss_kind x of PaseSession \<Rightarrow> PaseNonce | CaseSession \<Rightarrow> CaseNonce (ss_local_node_id x)"
  let ?n = "8 + length body + 16"
  have pid: "ss_peer_session_id x = t" using mir by (simp add: mirrored_def)
  obtain src where ns: "nonce_resolve ?ns ?h = Inr src" by (cases "ss_kind x") auto
  have un: "\<not> mh_is_unsecured ?h" using pid mir(3) by (simp add: secured_header_simps)
  note wf' = keys_wf_sending [OF wf, of "ss_role x"]
  obtain X ct tag where s: "sealed C ?h src ?k body X ct tag" and p: "protect C ?h ?ns body ?k out
      = (Inr ?n, ([mh_flags ?h] @ u16_bytes (mh_session_id ?h) @ [mh_security ?h]) @ X @ ct @ tag @ drop ?n out)"
    by (rule protect_seals [OF C wf' [THEN conjunct1] wf' [THEN conjunct2] un _ ns body out(1)]) (use out(2) in \<open>simp_all add: secured_header_simps\<close>)
  let ?H = "[mh_flags ?h] @ u16_bytes (mh_session_id ?h) @ [mh_security ?h]"
  let ?w = "?H @ X @ ct @ tag"
  have lw: "length ?w = ?n" using s by (auto simp: sealed_def secured_header_simps privacy_len_def
      secured_header_def mh_default_def)
  have tw: "take ?n (?H @ X @ ct @ tag @ drop ?n out) = ?w" using split_at_length(1) [OF lw, of "drop ?n out"] by simp
  have u: "unprotect C ?k ?ns ?w = (Inr (?h, 8, 8 + length body), mh_bytes ?h @ body @ tag)"
    using unprotect_opens [OF s ns un secured_header_simps(5)] out by (simp add: secured_header_simps)
  have pv: "preview ?w = Inr \<lparr>pv_session_id = t, pv_session_type = Unicast, pv_privacy = mh_privacy ?h, pv_control = mh_control ?h\<rparr>"
    using preview_head [of ?h "X @ ct @ tag"] pid by (simp add: secured_header_simps)
  have f: "frame_secured C a s counter body out = (Inr ?n, ?H @ X @ ct @ tag @ drop ?n out)"
    using p x by (simp add: frame_secured_def bindE_def)
  have o: "open_message C b' \<lparr>pv_session_id = t, pv_session_type = Unicast, pv_privacy = q, pv_control = r\<rparr> ?w
      = (Inr (?h, 8, 8 + length body), mh_bytes ?h @ body @ tag)"
    if "st_find t (mg_sessions b') = Some y'" "ss_keys y' = ss_keys y" "ss_role y' = ss_role y"
      "ss_kind y' = ss_kind y" "ss_peer_node_id y' = ss_peer_node_id y" for b' y' q r
  proof -
    have "keys_receiving (ss_keys y') (ss_role y') = ?k" using mirrored_keys [OF mir(1)] that by simp
    moreover have "(case ss_kind y' of PaseSession \<Rightarrow> PaseNonce | CaseSession \<Rightarrow> CaseNonce (ss_peer_node_id y')) = ?ns"
      using mir(1) that by (cases "ss_kind y") (simp_all add: mirrored_def)
    ultimately show ?thesis using that(1) mir(3) u
      by (simp add: open_message_def SessionId_UNSECURED_def bindE_def)
  qed
  have sl: "slice_get (mh_bytes ?h @ body @ tag) 8 (8 + length body) = Some body"
    by (intro slice_get_append) (simp_all add: length_mh_bytes secured_header_simps)
  show ?thesis
    using f pv o sl un pid unfolding tw [symmetric]
    by (intro exI [of _ "?H @ X @ ct @ tag @ drop ?n out"] exI [of _ "mh_bytes ?h @ body @ tag"] exI [of _ ?h] conjI)
      (auto simp: secured_header_simps)
qed

section \<open>Sending\<close>

lemma take_ack_fields [simp]:
  "mg_sessions (snd (take_ack x m)) = mg_sessions m" "mg_privacy (snd (take_ack x m)) = mg_privacy m"
  "mg_protocols (snd (take_ack x m)) = mg_protocols m" "mg_unsecured_window (snd (take_ack x m)) = mg_unsecured_window m"
  by (simp_all add: take_ack_def)

lemma et_find_mut_find:
  "(\<And>e. ex_key (f e) = ex_key e) \<Longrightarrow>
    et_find k' (et_find_mut k f t) = (if k' = k then map_option f (et_find k t) else et_find k' t)"
  unfolding et_find_def et_find_mut_def using find_update_first [of ex_key f k' k "et_open t"] by simp

lemma st_find_mut_find:
  "(\<And>e. ss_local_session_id (f e) = ss_local_session_id e) \<Longrightarrow>
    st_find k' (st_find_mut k f t) = (if k' = k then map_option f (st_find k t) else st_find k' t)"
  unfolding st_find_def st_find_mut_def
  using find_update_first [of ss_local_session_id f k' k "st_sessions t"] by simp

lemma next_counter_fields [simp]:
  "ss_local_session_id (snd (next_counter now x)) = ss_local_session_id x"
  "ss_peer_session_id (snd (next_counter now x)) = ss_peer_session_id x"
  "ss_keys (snd (next_counter now x)) = ss_keys x" "ss_role (snd (next_counter now x)) = ss_role x"
  "ss_kind (snd (next_counter now x)) = ss_kind x" "ss_local_node_id (snd (next_counter now x)) = ss_local_node_id x"
  "fst (next_counter now x) = fst (mc_take (ss_counter x))"
  by (simp_all add: next_counter_def Let_def case_prod_beta)

lemma mg_next_counter_secured:
  assumes "st_find s (mg_sessions m) = Some x" and "s \<noteq> 0" and "fst (mc_take (ss_counter x)) = Inr c"
  shows "\<exists>m' x'. mg_next_counter s now m = (Inr c, m') \<and> st_find s (mg_sessions m') = Some x'
    \<and> ss_peer_session_id x' = ss_peer_session_id x \<and> ss_keys x' = ss_keys x \<and> ss_role x' = ss_role x
    \<and> ss_kind x' = ss_kind x \<and> ss_local_node_id x' = ss_local_node_id x \<and> mg_exchanges m' = mg_exchanges m"
  using assms st_find_mut_find [of "\<lambda>x. snd (next_counter now x)" s s "mg_sessions m"]
  by (auto simp: mg_next_counter_def SessionId_UNSECURED_def)

lemma mg_schedule_idle:
  assumes "et_find k (mg_exchanges m) = Some e" and "\<not> is_awaiting_ack (ex_mrp e)"
  shows "fst (mg_schedule k c now r m) = Inr ()"
  using assms by (simp add: mg_schedule_def mrp_on_send_def is_awaiting_ack_def Let_def)

text \<open>The protocol header a message is sent under.\<close>

definition sent_header :: "ExchangeKey \<Rightarrow> Exchange \<Rightarrow> u8 \<Rightarrow> bool \<Rightarrow> ProtocolHeader" where
  "sent_header k e opcode reliable =
     \<lparr>ph_initiator = role_is_initiator (xk_role k), ph_acknowledged_counter = fst (take_piggyback (ex_mrp e)),
      ph_reliability = (reliable \<and> \<not> is_transport_reliable e), ph_exchange_id = xk_id k,
      ph_protocol = ex_protocol e, ph_opcode = opcode\<rparr>"

lemma send_secured:
  assumes e: "et_find k (mg_exchanges a) = Some e" and k: "xk_session k = s" "s \<noteq> 0"
    and x: "st_find s (mg_sessions a) = Some x" and c: "fst (mc_take (ss_counter x)) = Inr c"
    and idle: "reliable \<longrightarrow> \<not> is_awaiting_ack (ex_mrp e)"
    and scratch: "length scratch \<le> USIZE_MAX" "12 + length payload \<le> length scratch"
  shows "\<exists>a1 x1. st_find s (mg_sessions a1) = Some x1 \<and> ss_peer_session_id x1 = ss_peer_session_id x
    \<and> ss_keys x1 = ss_keys x \<and> ss_role x1 = ss_role x \<and> ss_kind x1 = ss_kind x \<and> ss_local_node_id x1 = ss_local_node_id x
    \<and> (\<forall>out n out'. frame_secured C a1 s c (ph_bytes (sent_header k e opcode reliable) @ payload) out = (Inr n, out') \<longrightarrow>
        (\<exists>a'. send C k opcode reliable payload now r scratch (a, out) = (Inr (n, c), (a', out'))))"
proof -
  let ?ph = "sent_header k e opcode reliable"
  obtain m where ta: "take_ack k a = (fst (take_piggyback (ex_mrp e)), m)" "snd (take_ack k a) = m"
    using e by (simp add: take_ack_def)
  have m: "mg_sessions m = mg_sessions a" using take_ack_fields(1) [of k a] ta(2) by simp
  obtain a1 x1 where n: "mg_next_counter s now m = (Inr c, a1)" "st_find s (mg_sessions a1) = Some x1"
      "ss_peer_session_id x1 = ss_peer_session_id x" "ss_keys x1 = ss_keys x" "ss_role x1 = ss_role x"
      "ss_kind x1 = ss_kind x" "ss_local_node_id x1 = ss_local_node_id x" "mg_exchanges a1 = mg_exchanges m"
    using mg_next_counter_secured [of s m x c now] x k(2) c m by auto
  have e1: "et_find k (mg_exchanges a1) = Some (e\<lparr>ex_mrp := snd (take_piggyback (ex_mrp e))\<rparr>)"
    using e et_find_mut_find [of "\<lambda>e. e\<lparr>ex_mrp := snd (take_piggyback (ex_mrp e))\<rparr>" k k "mg_exchanges a"] n(8) ta(2)
    by (auto simp: take_ack_def)
  have sch: "fst (mg_schedule k c now r a1) = Inr ()" if reliable
    using mg_schedule_idle [OF e1] idle that by (simp add: is_awaiting_ack_def take_piggyback_def)
  have "\<exists>a'. send C k opcode reliable payload now r scratch (a, out) = (Inr (n', c), (a', out'))"
    if f: "frame_secured C a1 s c (ph_bytes ?ph @ payload) out = (Inr n', out')" for out n' out'
  proof -
    have "ph_encoded_len ?ph + length payload \<le> length scratch" using ph_encoded_len_max [of ?ph] scratch(2) by linarith
    then have fr: "frame C a1 s c ?ph payload scratch out = (Inr n', out')"
      using frame_body [OF scratch(1), of ?ph payload C a1 s c out] f k(2) by (simp add: SessionId_UNSECURED_def)
    show ?thesis
    proof (cases "reliable \<and> \<not> is_transport_reliable e")
      case False
      then have "send C k opcode reliable payload now r scratch (a, out) = (Inr (n', c), (a1, out'))"
        using e ta(1) n(1) fr k(1) unfolding send_def sent_header_def
        by (auto simp: on_state_def frame_out_def Let_def bindE_def)
      then show ?thesis by blast
    next
      case True
      then obtain a' where "mg_schedule k c now r a1 = (Inr (), a')" using sch by (metis prod.collapse)
      then have "send C k opcode reliable payload now r scratch (a, out) = (Inr (n', c), (a', out'))"
        using True e ta(1) n(1) fr k(1) unfolding send_def sent_header_def
        by (auto simp: on_state_def frame_out_def Let_def bindE_def)
      then show ?thesis by blast
    qed
  qed
  then show ?thesis using n by blast
qed

section \<open>Receiving\<close>

text \<open>What \<^verbatim>\<open>receive\<close> does once a secured message has been opened.\<close>

lemma receive_opened:
  assumes "preview buf = Inr head" and "pv_session_type head = Unicast" and "open_message C m head buf = (Inr (h, p, q), buf')"
    and "\<not> mh_is_unsecured h" and "st_find (pv_session_id head) (mg_sessions m) = Some y"
    and "slice_get buf' p q = Some (ph_bytes ph @ body)" and "length (ph_bytes ph @ body) \<le> USIZE_MAX"
    and "m1 = m\<lparr>mg_sessions := st_find_mut (pv_session_id head)
          (\<lambda>x. snd (accept_counter (mh_message_counter h) now (x\<lparr>ss_peer := Some origin\<rparr>))) (mg_sessions m)\<rparr>"
    and "dup = (fst (cw_accept (ss_window y) (mh_message_counter h)) = Duplicate)"
  shows "receive C X buf origin now m =
    (case route X (mh_session_id h) ph dup now m1 of
       (Inl e, m2) \<Rightarrow> (Inl e, m2)
     | (Inr key, m2) \<Rightarrow>
         if et_find key (mg_exchanges m2) = None then (Inl NoExchange, m2)
         else let (r, m3) = deliver h ph body dup key (m2\<lparr>mg_exchanges := et_find_mut key
                 (exchange_arrival origin now (mh_message_counter h) ph dup) (mg_exchanges m2)\<rparr>) in (Inr r, m3))"
proof -
  have j: "judge h (pv_session_id head) origin now m = (Inr (fst (cw_accept (ss_window y) (mh_message_counter h))), m1)"
    using assms(4,5,8) by (simp add: judge_def)
  have d: "ph_decode (ph_bytes ph @ body) = Inr (ph, body)" by (rule phc.dec_enc [OF TrueI assms(7)])
  have c: "match_context h m1 = (Inr (), m1)" using assms(4) by (simp add: match_context_def)
  show ?thesis
    using assms(1-3,6,9) j d c unfolding receive_def
    by (simp add: bindE_def Let_def case_prod_beta split: sum.split prod.split)
qed

lemma deliver_duplicate: "deliver h ph body True key m = (ReceivedDuplicate key (ph_reliability ph), m)"
  by (simp add: deliver_def)

text \<open>A counter already recorded in the session's window delivers nothing.\<close>

lemma receive_replay:
  assumes "preview buf = Inr head" and "pv_session_type head = Unicast" and "open_message C m head buf = (Inr (h, p, q), buf')"
    and "\<not> mh_is_unsecured h" and "st_find (pv_session_id head) (mg_sessions m) = Some y"
    and "slice_get buf' p q = Some (ph_bytes ph @ body)" and "length (ph_bytes ph @ body) \<le> USIZE_MAX"
    and "fst (cw_accept (ss_window y) (mh_message_counter h)) = Duplicate"
  shows "fst (receive C X buf origin now m) \<noteq> Inr (ReceivedMessage key' ph' ack' body')"
  unfolding receive_opened [OF assms(1-7) refl refl]
  using assms(8) by (auto simp: deliver_duplicate Let_def split: prod.split sum.split)

lemma route_open:
  assumes "k = \<lparr>xk_session = t, xk_id = ph_exchange_id ph, xk_role = (if ph_initiator ph then Responder else Initiator)\<rparr>"
    and "et_find k (mg_exchanges m) \<noteq> None
      \<or> ph_initiator ph \<and> protocols_contains (mg_protocols m) (ph_protocol ph) \<and> length (et_open (mg_exchanges m)) < X"
  shows "\<exists>m'. route X t ph False now m = (Inr k, m') \<and> mg_sessions m' = mg_sessions m \<and> et_find k (mg_exchanges m') \<noteq> None"
proof (cases "et_find k (mg_exchanges m)")
  case (Some e)
  then have "ex_key e = k" by (auto simp: et_find_def dest: find_SomeD)
  then show ?thesis using Some assms(1) by (auto simp: route_def find_for_message_def)
next
  case None
  then have i: "ph_initiator ph" "protocols_contains (mg_protocols m) (ph_protocol ph)" "length (et_open (mg_exchanges m)) < X"
    using assms(2) by simp_all
  let ?e = "exchange_new k (ph_protocol ph) (mg_mrp_params t m) now"
  have "open_responder X t (ph_exchange_id ph) (ph_protocol ph) (mg_mrp_params t m) now (mg_exchanges m)
      = (Inr k, (mg_exchanges m)\<lparr>et_open := et_open (mg_exchanges m) @ [?e]\<rparr>)"
    using None i assms(1) by (simp add: open_responder_def et_insert_under_pressure_def et_insert_def vec_push_def bindE_def Let_def)
  then have "route X t ph False now m = (Inr k, m\<lparr>mg_exchanges := (mg_exchanges m)\<lparr>et_open := et_open (mg_exchanges m) @ [?e]\<rparr>\<rparr>)"
    using None i assms(1) by (simp add: route_def find_for_message_def on_exchanges_def)
  then show ?thesis by (auto simp: et_find_def find_None exchange_new_def)
qed

lemma accept_counter_fields [simp]:
  "ss_local_session_id (snd (accept_counter c now x)) = ss_local_session_id x"
  "ss_keys (snd (accept_counter c now x)) = ss_keys x" "ss_role (snd (accept_counter c now x)) = ss_role x"
  "ss_kind (snd (accept_counter c now x)) = ss_kind x"
  "ss_peer_node_id (snd (accept_counter c now x)) = ss_peer_node_id x"
  by (simp_all add: accept_counter_def case_prod_beta)

section \<open>Properties\<close>

text \<open>C1: End to end over a secure session: with room in the buffers and a counter left, sending on an open
  exchange succeeds; the octets it leaves, received by the other end of the session, are handed
  up once, with the payload, the protocol and the opcode as sent, on the exchange of the
  opposite role (opened for it when the protocol is registered); and the same octets received
  again, from anywhere and at any time, hand up no message.\<close>

theorem message_delivered_once:
  assumes "cipher_ok C" and "et_find k (mg_exchanges a) = Some e" and "xk_session k = s" and "s \<noteq> 0"
    and "st_find s (mg_sessions a) = Some x" and "st_find t (mg_sessions b) = Some y"
    and "mirrored x y" and "ss_local_session_id y = t" and "t \<noteq> 0" and "keys_wf (ss_keys x)"
    and "fst (mc_take (ss_counter x)) = Inr c" and "reliable \<longrightarrow> \<not> is_awaiting_ack (ex_mrp e)"
    and "length scratch \<le> USIZE_MAX" and "12 + length payload \<le> length scratch"
    and "length out \<le> USIZE_MAX" and "36 + length payload \<le> length out" and "length payload \<le> 65000"
    and "cw_kind (ss_window y) = SecureUnicast" and "fst (cw_accept (ss_window y) c) = New"
    and "k' = \<lparr>xk_session = t, xk_id = xk_id k, xk_role = role_peer (xk_role k)\<rparr>"
    and "et_find k' (mg_exchanges b) \<noteq> None
      \<or> xk_role k = Initiator \<and> protocols_contains (mg_protocols b) (ex_protocol e) \<and> length (et_open (mg_exchanges b)) < X"
    and "\<not> (ex_protocol e = SECURE_CHANNEL \<and> opcode \<in> {MRP_STANDALONE_ACK, STATUS_REPORT})"
  shows "\<exists>n a' out' ph b'. send C k opcode reliable payload now r scratch (a, out) = (Inr (n, c), (a', out'))
    \<and> receive C X (take n out') origin now' b = (Inr (ReceivedMessage k' ph (ph_reliability ph) payload), b')
    \<and> ph_protocol ph = ex_protocol e \<and> ph_opcode ph = opcode
    \<and> (\<forall>from2 now2 k2 ph2 ack2 p2. fst (receive C X (take n out') from2 now2 b') \<noteq> Inr (ReceivedMessage k2 ph2 ack2 p2))"
proof -
  let ?ph = "sent_header k e opcode reliable"
  let ?body = "ph_bytes ?ph @ payload"
  obtain a1 x1 where a1: "st_find s (mg_sessions a1) = Some x1" "ss_peer_session_id x1 = ss_peer_session_id x"
      "ss_keys x1 = ss_keys x" "ss_role x1 = ss_role x" "ss_kind x1 = ss_kind x" "ss_local_node_id x1 = ss_local_node_id x"
      and snd: "\<And>out n out'. frame_secured C a1 s c ?body out = (Inr n, out') \<Longrightarrow>
        \<exists>a'. send C k opcode reliable payload now r scratch (a, out) = (Inr (n, c), (a', out'))"
    using send_secured [OF assms(2-5,11,12,13,14), of C opcode now r] by blast
  have mir: "mirrored x1 y" using assms(7) a1 by (simp add: mirrored_def)
  have kw: "keys_wf (ss_keys x1)" using assms(10) a1(3) by simp
  have lb: "length ?body \<le> 65535" "8 + length ?body + 16 \<le> length out" "length ?body \<le> USIZE_MAX"
    using ph_encoded_len_max [of ?ph] assms(16,17) by (auto simp: length_ph_bytes USIZE_MAX_def)
  let ?n = "8 + length ?body + 16"
  obtain out' buf' h where f: "frame_secured C a1 s c ?body out = (Inr ?n, out')"
    and pv: "preview (take ?n out') = Inr \<lparr>pv_session_id = t, pv_session_type = Unicast,
        pv_privacy = mh_privacy h, pv_control = mh_control h\<rparr>"
    and op: "\<And>b' y'. st_find t (mg_sessions b') = Some y' \<Longrightarrow> ss_keys y' = ss_keys y \<Longrightarrow> ss_role y' = ss_role y \<Longrightarrow>
        ss_kind y' = ss_kind y \<Longrightarrow> ss_peer_node_id y' = ss_peer_node_id y \<Longrightarrow>
        open_message C b' \<lparr>pv_session_id = t, pv_session_type = Unicast,
          pv_privacy = mh_privacy h, pv_control = mh_control h\<rparr> (take ?n out') = (Inr (h, 8, 8 + length ?body), buf')"
    and sl: "slice_get buf' 8 (8 + length ?body) = Some ?body"
    and h: "\<not> mh_is_unsecured h" "mh_session_id h = t" "mh_message_counter h = c"
    using framed_opens [OF assms(1) a1(1) assms(6) mir assms(8,9) kw lb(1) assms(15) lb(2), of c]
    by (elim exE conjE) (rule that, (assumption | blast)+)
  obtain a' where send: "send C k opcode reliable payload now r scratch (a, out) = (Inr (?n, c), (a', out'))"
    using snd [OF f] by blast
  let ?up = "\<lambda>x. snd (accept_counter c now' (x\<lparr>ss_peer := Some origin\<rparr>))"
  let ?b1 = "b\<lparr>mg_sessions := st_find_mut t ?up (mg_sessions b)\<rparr>"
  have b1: "st_find t (mg_sessions ?b1) = Some (?up y)" using assms(6) st_find_mut_find [of ?up t t "mg_sessions b"] by simp
  have k': "k' = \<lparr>xk_session = t, xk_id = ph_exchange_id ?ph, xk_role = (if ph_initiator ?ph then Responder else Initiator)\<rparr>"
    using assms(20) by (cases "xk_role k") (simp_all add: sent_header_def role_is_initiator_def)
  obtain b2 where b2: "route X t ?ph False now' ?b1 = (Inr k', b2)" "mg_sessions b2 = mg_sessions ?b1"
      "et_find k' (mg_exchanges b2) \<noteq> None"
    using route_open [OF k', of ?b1 X now'] assms(21) by (auto simp: sent_header_def role_is_initiator_def)
  let ?b3 = "b2\<lparr>mg_exchanges := et_find_mut k' (exchange_arrival origin now' c ?ph False) (mg_exchanges b2)\<rparr>"
  have dl: "deliver h ?ph payload False k' ?b3 = (ReceivedMessage k' ?ph (ph_reliability ?ph) payload, ?b3)"
    using assms(22) by (auto simp: deliver_def sent_header_def)
  have rc: "receive C X (take ?n out') origin now' b = (Inr (ReceivedMessage k' ?ph (ph_reliability ?ph) payload), ?b3)"
    using receive_opened [OF pv _ op [OF assms(6)] h(1) _ sl lb(3), of y ?b1 now' origin False X] assms(6,19) b2 dl h by simp
  have y3: "st_find t (mg_sessions ?b3) = Some (?up y)" using b1 b2(2) by simp
  have dup: "fst (cw_accept (ss_window (?up y)) (mh_message_counter h)) = Duplicate"
    using cwf.recorded [OF assms(18), of c] h(3) by simp
  have "fst (receive C X (take ?n out') from2 now2 ?b3) \<noteq> Inr (ReceivedMessage k2 ph2 ack2 p2)" for from2 now2 k2 ph2 ack2 p2
    by (rule receive_replay [OF pv _ op [OF y3] h(1) _ sl lb(3) dup]) (use y3 in simp_all)
  then show ?thesis using send rc by (intro exI [of _ ?n] exI [of _ a'] exI [of _ out'] exI [of _ ?ph] exI [of _ ?b3])
    (simp add: sent_header_def)
qed

definition demo_end :: "SessionRole \<Rightarrow> Exchange list \<Rightarrow> Messaging" where
  "demo_end role xs = (messaging_new 1 1 0)\<lparr>
     mg_sessions := \<lparr>st_sessions = [session_new 5 5 PaseSession role demo_keys 7 0], st_next_id = 6\<rparr>,
     mg_exchanges := \<lparr>et_open = xs, et_next_id = 1\<rparr>\<rparr>"

definition demo_key :: "Role \<Rightarrow> ExchangeKey" where
  "demo_key r = \<lparr>xk_session = 5, xk_id = 3, xk_role = r\<rparr>"

lemma demo_end_find:
  "st_find 5 (mg_sessions (demo_end role xs)) = Some (session_new 5 5 PaseSession role demo_keys 7 0)"
  "et_find k (mg_exchanges (demo_end role (exchange_new k p m now # xs))) = Some (exchange_new k p m now)"
  "length (et_open (mg_exchanges (demo_end role xs))) = length xs"
  "protocols_contains (mg_protocols (demo_end role xs)) (protocol_common 1)"
  by (simp_all add: demo_end_def st_find_def et_find_def session_new_def exchange_new_def messaging_new_def
      protocols_contains_def protocol_bit_def protocol_common_def VendorId_COMMON_def PROTOCOLS_DEVICE_def
      PROTOCOLS_SECURE_CHANNEL_def PROTOCOLS_INTERACTION_MODEL_def)

lemma demo_session:
  "mirrored (session_new i j k SessionInitiator ks c now) (session_new j i k SessionResponder ks c now)"
  "ss_local_session_id (session_new i j k ro ks c now) = i" "ss_keys (session_new i j k ro ks c now) = ks"
  "cw_kind (ss_window (session_new i j k ro ks c now)) = SecureUnicast" "keys_wf demo_keys"
  "fst (cw_accept (ss_window (session_new i j k ro ks c now)) n) = New"
  "fst (mc_take (ss_counter (session_new i j k ro ks 7 now))) = Inr 8"
  by (simp_all add: mirrored_def session_new_def keys_wf_def demo_keys_def cw_new_def cw_accept_def mc_new_def mc_at_def
      initial_counter_def mc_take_def saturating_add_def)

lemma demo_exchange:
  "\<not> is_awaiting_ack (ex_mrp (exchange_new k p m now))" "ex_protocol (exchange_new k p m now) = p"
  "protocol_common 1 \<noteq> SECURE_CHANNEL"
  by (simp_all add: exchange_new_def mrp_new_def is_awaiting_ack_def SECURE_CHANNEL_def protocol_common_def)

theorem message_delivered_once_witness:
  "\<exists>n a' out' ph b'. send demo_cipher (demo_key Initiator) 2 True [1, 2, 3] 10 0 (replicate 20 0)
      (demo_end SessionInitiator [exchange_new (demo_key Initiator) (protocol_common 1) params_default 0], replicate 64 0)
      = (Inr (n, 8), (a', out'))
    \<and> receive demo_cipher 4 (take n out') (Ble 1) 20 (demo_end SessionResponder [])
      = (Inr (ReceivedMessage (demo_key Responder) ph (ph_reliability ph) [1, 2, 3]), b')"
  using message_delivered_once [OF demo_cipher_ok, where k = "demo_key Initiator" and s = 5 and t = 5 and c = 8
      and e = "exchange_new (demo_key Initiator) (protocol_common 1) params_default 0"
      and a = "demo_end SessionInitiator [exchange_new (demo_key Initiator) (protocol_common 1) params_default 0]"
      and b = "demo_end SessionResponder []" and x = "session_new 5 5 PaseSession SessionInitiator demo_keys 7 0"
      and y = "session_new 5 5 PaseSession SessionResponder demo_keys 7 0" and reliable = True
      and scratch = "replicate 20 0" and payload = "[1, 2, 3]" and out = "replicate 64 0" and X = 4 and opcode = 2
      and now = 10 and now' = 20 and r = 0 and origin = "Ble 1" and k' = "demo_key Responder"]
  by (force simp: demo_end_find demo_key_def demo_session demo_exchange USIZE_MAX_def)

end
