(* ===== verification/Messaging_State.thy ===== *)
theory Messaging_State
  imports Messaging
begin

text \<open>
  The message layer over time: the timer loop that drives it (\<^verbatim>\<open>poll\<close> and \<^verbatim>\<open>wake_at\<close>), the invariant
  every operation keeps of both tables, the states it can reach, and what removing a fabric or
  owing an acknowledgement does.
\<close>

section \<open>Timers\<close>

text \<open>What a state still owes: acknowledgements and transmissions, over all exchanges.\<close>

definition mg_work :: "Messaging \<Rightarrow> nat" where
  "mg_work m = (\<Sum>e\<leftarrow>et_open (mg_exchanges m). mrp_work (ex_mrp e))"

abbreviation due :: "Instant \<Rightarrow> Exchange \<Rightarrow> bool" where
  "due now e \<equiv> (case mrp_poll_deadline (ex_mrp e) of None \<Rightarrow> False | Some at \<Rightarrow> at \<le> now)"

abbreviation reaped :: "Instant \<Rightarrow> Messaging \<Rightarrow> Messaging" where
  "reaped now m \<equiv> m\<lparr>mg_exchanges := snd (et_reap now EXCHANGE_IDLE_TIMEOUT (mg_exchanges m))\<rparr>"

lemma due_timeout: "due now e \<longleftrightarrow> fst (mrp_on_timeout now r (ex_mrp e)) \<noteq> Nothing"
  using mrp_timeout_due [of now r "ex_mrp e"] by (auto split: option.splits)

text \<open>\<^verbatim>\<open>poll\<close> either finds nothing due or runs the timer of the first exchange that is.\<close>

lemma poll_cases:
  assumes "et_inv N (mg_exchanges m)"
  obtains (quiet) "poll now r m = (None, reaped now m)" "\<forall>e \<in> set (et_open (mg_exchanges (reaped now m))). \<not> due now e"
  | (acts) e m' where "et_find (ex_key e) (mg_exchanges (reaped now m)) = Some e" "due now e"
      "m' = (reaped now m)\<lparr>mg_exchanges := et_find_mut (ex_key e)
          (\<lambda>x. x\<lparr>ex_mrp := snd (mrp_on_timeout now r (ex_mrp x))\<rparr>) (mg_exchanges (reaped now m))\<rparr>"
      "poll now r m = (case fst (mrp_on_timeout now r (ex_mrp e)) of
         Retransmit c _ \<Rightarrow> (Some (DueRetransmit (ex_key e) c), m')
       | SendStandaloneAck _ \<Rightarrow> (Some (DueAcknowledge (ex_key e)), m')
       | GiveUp _ \<Rightarrow> (Some (DueAbandoned (ex_key e)), snd (mg_close (ex_key e) m'))
       | Nothing \<Rightarrow> (None, m'))"
proof (cases "List.find (due now) (et_open (mg_exchanges (reaped now m)))")
  case None
  then have "poll now r m = (None, reaped now m)" by (simp add: poll_def Let_def)
  then show ?thesis using None by (intro quiet) (simp_all only: find_None)
next
  case (Some e)
  then have e: "e \<in> set (et_open (mg_exchanges (reaped now m)))" "due now e" by (auto dest: find_SomeD)
  have "et_inv N (mg_exchanges (reaped now m))" using assms by (simp add: et_reap_inv)
  then have f: "et_find (ex_key e) (mg_exchanges (reaped now m)) = Some e" using etb.lookup_Some e(1) by blast
  show ?thesis by (rule acts [OF f e(2) refl]) (simp only: poll_def Let_def Some f option.case)
qed

lemma sum_list_subset:
  assumes "mset ys \<subseteq># mset xs"
  shows "(\<Sum>y\<leftarrow>ys. g y) \<le> (\<Sum>x\<leftarrow>xs. g x :: nat)"
proof -
  obtain C where "mset xs = mset ys + C" using assms by (auto simp: mset_subset_eq_exists_conv)
  then have "sum_mset (image_mset g (mset xs)) = sum_mset (image_mset g (mset ys)) + sum_mset (image_mset g C)" by simp
  then show ?thesis by (simp flip: sum_mset_sum_list)
qed

lemma sum_list_update_first:
  "List.find p xs = Some x \<Longrightarrow> g (f x) < g x \<Longrightarrow> (\<Sum>y\<leftarrow>update_first p f xs. g y) < (\<Sum>y\<leftarrow>xs. g y :: nat)"
  by (induction xs) (auto split: if_splits)

lemma et_close_mset: "mset (et_open (snd (et_close k t))) \<subseteq># mset (et_open t)"
proof (cases "position (\<lambda>e. ex_key e = k) (et_open t)")
  case (Some i)
  then have i: "i < length (et_open t)" using position_Some by blast
  then show ?thesis using Some by (simp add: et_close_def Let_def mset_swap_remove mset_update)
qed (simp add: et_close_def)

lemma mg_work_reaped: "mg_work (reaped now m) \<le> mg_work m"
  unfolding mg_work_def by (intro sum_list_subset) (simp add: et_reap_def Let_def)

lemma mg_work_close: "mg_work (snd (mg_close k m)) \<le> mg_work m"
  using et_close_mset [of k "mg_exchanges m"] unfolding mg_work_def
  by (intro sum_list_subset) (simp add: mg_close_def case_prod_beta)

lemma poll_work:
  assumes "et_inv N (mg_exchanges m)" and "fst (poll now r m) \<noteq> None"
  shows "mg_work (snd (poll now r m)) < mg_work m"
  using assms(1)
proof (cases rule: poll_cases [where now = now and r = r, case_names quiet acts])
  case quiet
  then show ?thesis using assms(2) by simp
next
  case (acts e m')
  have "mg_work m' < mg_work (reaped now m)"
    unfolding mg_work_def acts(3) et_find_mut_def
    using acts(1,2) mrp_on_timeout_work [of now r "ex_mrp e"] due_timeout [of now e r]
    by (auto simp: et_find_def intro!: sum_list_update_first [where x = e])
  then have "mg_work m' < mg_work m" using mg_work_reaped [of now m] by linarith
  then show ?thesis using acts(4) mg_work_close [of "ex_key e" m'] by (auto split: OnTimeout.splits)
qed

lemma poll_inv:
  assumes "et_inv N (mg_exchanges m)"
  shows "et_inv N (mg_exchanges (snd (poll now r m)))"
  using assms
proof (cases rule: poll_cases [where now = now and r = r, case_names quiet acts])
  case quiet
  then show ?thesis using assms by (simp add: et_reap_inv)
next
  case (acts e m')
  have "et_inv N (mg_exchanges m')" using assms acts(3) by (simp add: et_reap_inv et_find_mut_inv)
  then show ?thesis using acts(4) by (auto simp: mg_close_def case_prod_beta et_close_inv split: OnTimeout.splits)
qed

text \<open>The caller's loop: \<^verbatim>\<open>poll\<close> called \<^term>\<open>n\<close> times at one instant, with the randomness of each call.\<close>

primrec poll_times :: "nat \<Rightarrow> Instant \<Rightarrow> (nat \<Rightarrow> u32) \<Rightarrow> Messaging \<Rightarrow> Messaging" where
  "poll_times 0 now rs m = m"
| "poll_times (Suc n) now rs m = snd (poll now (rs n) (poll_times n now rs m))"

lemma poll_times_inv: "et_inv N (mg_exchanges m) \<Longrightarrow> et_inv N (mg_exchanges (poll_times n now rs m))"
  by (induction n) (simp_all add: poll_inv)

lemma poll_times_work:
  assumes "et_inv N (mg_exchanges m)" and "\<forall>i < n. fst (poll now (rs i) (poll_times i now rs m)) \<noteq> None"
  shows "mg_work (poll_times n now rs m) + n \<le> mg_work m"
  using assms(2)
proof (induction n)
  case (Suc n)
  then show ?case using poll_work [OF poll_times_inv [OF assms(1)], of now "rs n" n now rs] by simp
qed simp

text \<open>C29: The caller's loop ends: after at most as many calls as there are acknowledgements owed and
  transmissions left over all exchanges, \<^verbatim>\<open>poll\<close> returns nothing, and then no exchange has a
  deadline that has come.\<close>

theorem poll_loop_ends:
  assumes "et_inv N (mg_exchanges m)"
  shows "\<exists>n \<le> mg_work m. fst (poll now (rs n) (poll_times n now rs m)) = None
    \<and> (\<forall>e \<in> set (et_open (mg_exchanges (snd (poll now (rs n) (poll_times n now rs m))))).
        case mrp_poll_deadline (ex_mrp e) of None \<Rightarrow> True | Some d \<Rightarrow> now < d)"
proof -
  have "\<exists>n \<le> mg_work m. fst (poll now (rs n) (poll_times n now rs m)) = None"
  proof (rule ccontr)
    assume "\<not> ?thesis"
    then have "\<forall>i < Suc (mg_work m). fst (poll now (rs i) (poll_times i now rs m)) \<noteq> None" by (auto simp: less_Suc_eq_le)
    from poll_times_work [OF assms this] show False by simp
  qed
  then obtain n where n: "n \<le> mg_work m" "fst (poll now (rs n) (poll_times n now rs m)) = None" by blast
  from poll_times_inv [OF assms, of n now rs] have "\<forall>e \<in> set (et_open (mg_exchanges (snd (poll now (rs n) (poll_times n now rs m))))).
      case mrp_poll_deadline (ex_mrp e) of None \<Rightarrow> True | Some d \<Rightarrow> now < d"
  proof (cases rule: poll_cases [where now = now and r = "rs n", case_names quiet acts])
    case quiet
    then show ?thesis by (auto split: option.splits)
  next
    case (acts e m')
    then show ?thesis using n(2) due_timeout [of now e "rs n"] by (auto split: OnTimeout.splits)
  qed
  then show ?thesis using n by blast
qed

section \<open>Waking up\<close>

lemma min_opt_less: "min_opt xs = Some d \<Longrightarrow> now < d \<longleftrightarrow> (\<forall>x \<in> set xs. now < x)"
  "min_opt xs = Some d \<Longrightarrow> d \<in> set xs" "min_opt xs = None \<longleftrightarrow> xs = []"
  by (auto simp: min_opt_def split: if_splits)

lemma min_opt_lower:
  "x \<in> set xs \<Longrightarrow> (case min_opt xs of None \<Rightarrow> True | Some d \<Rightarrow> now \<le> d) \<Longrightarrow> now \<le> x"
  by (cases "xs = []") (auto simp: min_opt_def)

lemma et_poll_deadline_less:
  "(case et_poll_deadline t of None \<Rightarrow> True | Some d \<Rightarrow> now < d) \<longleftrightarrow> (\<forall>e \<in> set (et_open t). \<not> due now e)"
proof -
  have "(\<forall>x \<in> set (List.map_filter (\<lambda>e. mrp_poll_deadline (ex_mrp e)) (et_open t)). now < x)
      \<longleftrightarrow> (\<forall>e \<in> set (et_open t). \<not> due now e)"
    by (auto simp: map_filter_def not_le split: option.splits)
  then show ?thesis using min_opt_less(1) [of _ _ now] min_opt_less(3)
    by (auto simp: et_poll_deadline_def split: option.split)
qed

lemma not_abandoned_before: "now \<le> instant_add (ex_last_activity e) idle \<Longrightarrow> \<not> is_abandoned e now idle"
  by (auto simp: is_abandoned_def word_le_nat_alt word_less_nat_alt unat_instant_add int_simps)

lemma abandoned_after:
  "\<not> is_awaiting_ack (ex_mrp e) \<Longrightarrow> instant_add (ex_last_activity e) idle < now \<Longrightarrow> is_abandoned e now idle"
  using unat_lt_len [of now]
  by (auto simp: is_abandoned_def word_le_nat_alt word_less_nat_alt unat_instant_add int_simps)

lemma et_reap_early:
  assumes "case et_reap_deadline idle t of None \<Rightarrow> True | Some d \<Rightarrow> now \<le> d"
  shows "snd (et_reap now idle t) = t"
proof -
  have "\<not> is_abandoned e now idle" if "e \<in> set (et_open t)" for e
  proof (cases "is_awaiting_ack (ex_mrp e)")
    case False
    let ?xs = "map (\<lambda>e. instant_add (ex_last_activity e) idle) (filter (\<lambda>e. \<not> is_awaiting_ack (ex_mrp e)) (et_open t))"
    have i: "instant_add (ex_last_activity e) idle \<in> set ?xs" using False that by auto
    then have "now \<le> instant_add (ex_last_activity e) idle"
      using min_opt_lower [OF i] assms unfolding et_reap_deadline_def by blast
    then show ?thesis by (rule not_abandoned_before)
  qed (simp add: is_abandoned_def)
  then show ?thesis by (simp add: et_reap_def Let_def)
qed

lemma et_reap_late:
  assumes "et_reap_deadline idle t = Some d" and "d < now"
  shows "length (et_open (snd (et_reap now idle t))) < length (et_open t)"
proof -
  obtain e where e: "e \<in> set (et_open t)" "\<not> is_awaiting_ack (ex_mrp e)" "d = instant_add (ex_last_activity e) idle"
    using min_opt_less(2) assms(1) unfolding et_reap_deadline_def by fastforce
  then have "is_abandoned e now idle" using assms(2) abandoned_after by blast
  then show ?thesis using e(1) by (auto simp: et_reap_def Let_def intro: length_filter_less [of e])
qed

lemma wake_at_less:
  "(case wake_at m of None \<Rightarrow> True | Some d \<Rightarrow> now < d) \<longleftrightarrow>
     (case et_poll_deadline (mg_exchanges m) of None \<Rightarrow> True | Some d \<Rightarrow> now < d)
     \<and> (case et_reap_deadline EXCHANGE_IDLE_TIMEOUT (mg_exchanges m) of None \<Rightarrow> True | Some d \<Rightarrow> now < d)"
  by (auto simp: wake_at_def Let_def split: option.splits)

lemma poll_reaped_length:
  assumes "et_inv N (mg_exchanges m)" and "poll now r m = (None, m')"
  shows "m' = reaped now m" and "\<forall>e \<in> set (et_open (mg_exchanges m')). \<not> due now e"
proof -
  from assms(1) have "m' = reaped now m \<and> (\<forall>e \<in> set (et_open (mg_exchanges m')). \<not> due now e)"
  proof (cases rule: poll_cases [where now = now and r = r, case_names quiet acts])
    case (acts e m'')
    then show ?thesis using assms(2) due_timeout [of now e r] by (auto split: OnTimeout.splits)
  qed (use assms(2) in auto)
  then show "m' = reaped now m" "\<forall>e \<in> set (et_open (mg_exchanges m')). \<not> due now e" by simp_all
qed

text \<open>A node may sleep until \<^verbatim>\<open>wake_at\<close>: before it \<^verbatim>\<open>poll\<close> changes nothing and returns nothing,
  and at any instant after it \<^verbatim>\<open>poll\<close> has something to do.\<close>

theorem wake_up_is_exact:
  assumes "et_inv N (mg_exchanges m)"
  shows "((case wake_at m of None \<Rightarrow> True | Some t \<Rightarrow> now < t) \<longrightarrow> poll now r m = (None, m))
    \<and> (\<forall>t. wake_at m = Some t \<and> t < now \<longrightarrow> poll now r m \<noteq> (None, m))"
proof (intro conjI allI impI)
  assume "case wake_at m of None \<Rightarrow> True | Some t \<Rightarrow> now < t"
  then have w: "case et_poll_deadline (mg_exchanges m) of None \<Rightarrow> True | Some d \<Rightarrow> now < d"
    "case et_reap_deadline EXCHANGE_IDLE_TIMEOUT (mg_exchanges m) of None \<Rightarrow> True | Some d \<Rightarrow> now < d"
    by (simp_all add: wake_at_less)
  have "case et_reap_deadline EXCHANGE_IDLE_TIMEOUT (mg_exchanges m) of None \<Rightarrow> True | Some d \<Rightarrow> now \<le> d"
    using w(2) by (auto split: option.splits)
  then have "reaped now m = m" by (simp add: et_reap_early)
  moreover have "List.find (due now) (et_open (mg_exchanges m)) = None"
    using w(1) et_poll_deadline_less [where t = "mg_exchanges m" and now = now] by (simp only: find_None)
  ultimately show "poll now r m = (None, m)" by (simp add: poll_def Let_def)
next
  fix t
  assume w: "wake_at m = Some t \<and> t < now"
  show "poll now r m \<noteq> (None, m)"
  proof
    assume "poll now r m = (None, m)"
    note p = poll_reaped_length [OF assms this]
    have "et_reap_deadline EXCHANGE_IDLE_TIMEOUT (mg_exchanges m) = Some d \<Longrightarrow> \<not> d < now" for d
      using et_reap_late [of EXCHANGE_IDLE_TIMEOUT "mg_exchanges m" d now] arg_cong [OF p(1), of "\<lambda>m. length (et_open (mg_exchanges m))"] by auto
    moreover have "case et_poll_deadline (mg_exchanges m) of None \<Rightarrow> True | Some d \<Rightarrow> now < d"
      using p(2) et_poll_deadline_less by blast
    ultimately show False using w by (auto simp: wake_at_def Let_def split: option.splits if_splits)
  qed
qed

section \<open>The layer keeps both tables\<close>

definition mg_inv :: "nat \<Rightarrow> nat \<Rightarrow> Messaging \<Rightarrow> bool" where
  "mg_inv S X m \<longleftrightarrow> st_inv S (mg_sessions m) \<and> et_inv X (mg_exchanges m)"

lemma mg_inv_fields [simp]:
  "mg_inv S X (m\<lparr>mg_unsecured_counter := c\<rparr>) = mg_inv S X m" "mg_inv S X (m\<lparr>mg_unsecured_window := w\<rparr>) = mg_inv S X m"
  "mg_inv S X (m\<lparr>mg_unsecured_peer := p\<rparr>) = mg_inv S X m" "mg_inv S X (m\<lparr>mg_privacy := b\<rparr>) = mg_inv S X m"
  "mg_inv S X (m\<lparr>mg_protocols := ps\<rparr>) = mg_inv S X m"
  "mg_inv S X (m\<lparr>mg_exchanges := t\<rparr>) \<longleftrightarrow> st_inv S (mg_sessions m) \<and> et_inv X t"
  "mg_inv S X (m\<lparr>mg_sessions := u\<rparr>) \<longleftrightarrow> st_inv S u \<and> et_inv X (mg_exchanges m)"
  by (simp_all add: mg_inv_def)

lemma mg_invD: "mg_inv S X m \<Longrightarrow> st_inv S (mg_sessions m)" "mg_inv S X m \<Longrightarrow> et_inv X (mg_exchanges m)"
  by (simp_all add: mg_inv_def)

lemma st_find_mut_inv:
  "(\<And>s. ss_local_session_id (f s) = ss_local_session_id s) \<Longrightarrow> st_inv N t \<Longrightarrow> st_inv N (st_find_mut i f t)"
  using map_key_update_first [of ss_local_session_id f "\<lambda>s. ss_local_session_id s = i" "st_sessions t"]
  by (simp add: st_inv_def st_find_mut_def)

lemma st_remove_inv: "st_inv N t \<Longrightarrow> st_inv N (snd (st_remove i t))"
  using stb.inv_delete [of N t i] by (simp add: st_delete_def)

lemma ex_key_mrp [simp]: "ex_key (e\<lparr>ex_mrp := u\<rparr>) = ex_key e" by simp

lemma ex_key_arrival [simp]: "ex_key (exchange_arrival p now c ph d e) = ex_key e"
  by (simp add: exchange_arrival_def Let_def split: option.split)

lemmas table_inv = mg_inv_def st_find_mut_inv st_remove_inv st_remove_fabric_inv st_insert_inv et_find_mut_inv et_reap_inv
  et_close_inv close_session_inv open_initiator_inv open_responder_inv open_ephemeral_inv

lemma close_sessions_inv: "et_inv N t \<Longrightarrow> et_inv N (close_sessions ss t)"
  by (induction ss t rule: close_sessions.induct) (simp_all add: close_session_inv)

lemma keeps_tables [keeps_rules]:
  "keeps (mg_inv S X) (on_exchanges (open_initiator X s p q w now))"
  "keeps (mg_inv S X) (on_exchanges (open_responder X s i p q now))"
  "keeps (mg_inv S X) (on_exchanges (open_ephemeral X s i p q now))"
  "keeps (mg_inv S X) (on_sessions (st_insert S x))"
  "keeps (mg_inv S X) (mg_next_counter s now)"
  "keeps (mg_inv S X) (mg_schedule k c now r)"
  "keeps (mg_inv S X) (judge h s from now)"
  "keeps (mg_inv S X) (match_context h)"
  "keeps (mg_inv S X) (open_unsecured_as_initiator n)"
  by (auto simp: table_inv on_exchanges_def on_sessions_def mg_next_counter_def mg_schedule_def judge_def match_context_def
      open_unsecured_as_initiator_def case_prod_beta Let_def split: option.split)

lemma keeps_opening [keeps_rules]:
  "keeps (mg_inv S X) (mg_open X s p now)" "keeps (mg_inv S X) (mg_open_to X s p q now)"
  "keeps (mg_inv S X) (route X s ph d now)"
  by (auto simp: mg_open_def mg_open_to_def route_def Let_def intro!: keepsD [OF keeps_tables(1)]
      keepsD [OF keeps_tables(2)] keepsD [OF keeps_tables(3)] split: option.split)

lemma open_unsecured_keeps:
  "keeps (mg_inv S X) (open_unsecured X p now r)" "keeps (mg_inv S X) (open_unsecured_to X p q now r)"
  unfolding open_unsecured_def open_unsecured_to_def
  by (intro keeps_bindE keeps_tables(9); auto intro!: keepsD [OF keeps_tables(1)])+

lemma closing_inv:
  assumes "mg_inv S X m"
  shows "mg_inv S X (snd (mg_close k m))" "mg_inv S X (snd (mg_close_session s m))" "mg_inv S X (snd (mg_remove_fabric f m))"
    "mg_inv S X (snd (take_ack k m))" "mg_inv S X (snd (deliver h ph body d key m))"
proof -
  show c: "mg_inv S X (snd (mg_close_session s m))" for s
    using assms by (simp add: mg_close_session_def Let_def case_prod_beta table_inv)
  then show "mg_inv S X (snd (deliver h ph body d key m))" using assms by (auto simp: deliver_def)
qed (use assms in \<open>simp_all add: mg_close_def mg_remove_fabric_def take_ack_def Let_def case_prod_beta table_inv close_sessions_inv\<close>)

lemma keeps_on_state [keeps_rules]: "keeps P f \<Longrightarrow> keeps (\<lambda>st. P (fst st)) (on_state f)"
  by (auto simp: keeps_def on_state_def case_prod_beta Let_def)

lemma keeps_frame_out [keeps_rules]: "keeps (\<lambda>st. P (fst st)) (frame_out C s c ph payload scratch)"
  by (simp add: keeps_def frame_out_def case_prod_beta Let_def)

lemma send_inv:
  assumes "mg_inv S X (fst st)"
  shows "mg_inv S X (fst (snd (send C k opcode reliable payload now r scratch st)))"
proof (cases "et_find k (mg_exchanges (fst st))")
  case (Some e)
  let ?P = "\<lambda>st :: Messaging \<times> bytes. mg_inv S X (fst st)"
  have k: "keeps ?P (bindE (on_state (mg_next_counter (xk_session k) now)) (\<lambda>counter.
      bindE (frame_out C (xk_session k) counter ph payload scratch) (\<lambda>written.
      bindE (if b then on_state (mg_schedule k counter now r) else retE ()) (\<lambda>_. retE (written, counter)))))" for ph b
    by (intro keeps_rules)
  show ?thesis using Some keepsD [OF k, where s = "(snd (take_ack k (fst st)), snd st)"] closing_inv(4) [OF assms]
    by (simp add: send_def Let_def case_prod_beta)
qed (use assms in \<open>simp add: send_def\<close>)

lemma acknowledge_inv:
  assumes "mg_inv S X (fst st)"
  shows "mg_inv S X (fst (snd (acknowledge C k now st)))"
proof (cases "et_find k (mg_exchanges (fst st))")
  case (Some e)
  let ?P = "\<lambda>st :: Messaging \<times> bytes. mg_inv S X (fst st)" and ?cl = "\<lambda>m. if ex_ephemeral e then snd (mg_close k m) else m"
  have cl: "mg_inv S X m \<Longrightarrow> mg_inv S X (?cl m)" for m by (simp add: closing_inv)
  have m: "keeps ?P (modifyE (\<lambda>st. (?cl (fst st), snd st)))" using cl by (auto simp: keeps_def)
  have k: "keeps ?P (bindE (on_state (mg_next_counter (xk_session k) now)) (\<lambda>counter.
      bindE (frame_out C (xk_session k) counter ph [] scratch) (\<lambda>written.
      bindE (modifyE (\<lambda>st. (?cl (fst st), snd st))) (\<lambda>_. retE written))))" for ph scratch
    by (intro keeps_rules m)
  obtain owed m where t: "take_ack k (fst st) = (owed, m)" by (cases "take_ack k (fst st)")
  then have "mg_inv S X m" using closing_inv(4) [OF assms, of k] by simp
  then show ?thesis using Some t keepsD [OF k, where s = "(m, snd st)"] cl [of m]
    by (cases owed) (simp_all add: acknowledge_def Let_def)
qed (use assms in \<open>simp add: acknowledge_def\<close>)

lemma install_session_inv:
  assumes "mg_inv S X (fst st)"
  shows "mg_inv S X (fst (snd (install_session C S X new now r scratch st)))"
proof -
  let ?P = "\<lambda>st :: Messaging \<times> bytes. mg_inv S X (fst st)"
  have a: "keeps ?P (bindE (on_state (on_sessions (st_insert S new))) (\<lambda>_. retE x))" for x :: "Evicted option"
    by (intro keeps_rules)
  have c: "keeps ?P (modifyE (\<lambda>st. (snd (mg_close_session victim (fst st)), snd st)))" for victim
    by (auto simp: keeps_def closing_inv)
  have s: "keeps ?P (\<lambda>st. let (framed, st) = send C x op False body now r scratch st in
      bindE (modifyE (\<lambda>st. (snd (mg_close_session victim (fst st)), snd st))) (\<lambda>_.
      bindE (on_state (on_sessions (st_insert S new))) (\<lambda>_. retE (g framed))) st)" for x op body victim and g :: "_ \<Rightarrow> Evicted option"
  proof
    fix st
    assume "?P st"
    then have i: "?P (snd (send C x op False body now r scratch st))" by (simp add: send_inv)
    have k: "keeps ?P (bindE (modifyE (\<lambda>st. (snd (mg_close_session victim (fst st)), snd st))) (\<lambda>_.
        bindE (on_state (on_sessions (st_insert S new))) (\<lambda>_. retE (g z))))" for z
      by (intro keeps_bindE c a)
    show "?P (snd (let (framed, st) = send C x op False body now r scratch st in
      bindE (modifyE (\<lambda>st. (snd (mg_close_session victim (fst st)), snd st))) (\<lambda>_.
      bindE (on_state (on_sessions (st_insert S new))) (\<lambda>_. retE (g framed))) st))"
      using keepsD [OF k i] by (simp add: case_prod_beta)
  qed
  show ?thesis
  proof (cases "least_recently_used (mg_sessions (fst st))")
    case None
    then show ?thesis using keepsD [OF a assms] assms by (simp add: install_session_def)
  next
    case (Some victim)
    have k: "keeps ?P (bindE (liftE b) (\<lambda>body. bindE (on_state (mg_open X victim SECURE_CHANNEL now)) (\<lambda>x st.
        let (framed, st) = send C x STATUS_REPORT False body now r scratch st in
      bindE (modifyE (\<lambda>st. (snd (mg_close_session victim (fst st)), snd st))) (\<lambda>_.
      bindE (on_state (on_sessions (st_insert S new))) (\<lambda>_. retE (g framed))) st)))" for b and g :: "_ \<Rightarrow> Evicted option"
      by (intro keeps_bindE keeps_pure keeps_on_state keeps_opening s)
    let ?g = "\<lambda>framed. Some \<lparr>ev_session = victim, ev_peer = Option.bind (st_find victim (mg_sessions (fst st))) ss_peer,
        ev_len = (case framed of Inl _ \<Rightarrow> 0 | Inr (n, _) \<Rightarrow> n)\<rparr>"
    show ?thesis using Some keepsD [OF a assms] keepsD [OF k [where g = ?g] assms]
      by (simp add: install_session_def Let_def case_prod_beta)
  qed
qed

lemma receive_inv: "mg_inv S X m \<Longrightarrow> mg_inv S X (snd (receive C X buf from now m))"
proof -
  have a: "keeps (mg_inv S X) (\<lambda>m. if et_find key (mg_exchanges m) = None then (Inl NoExchange, m)
      else let m = m\<lparr>mg_exchanges := et_find_mut key (exchange_arrival from now c ph d) (mg_exchanges m)\<rparr>;
               (r, m) = deliver h ph body d key m in (Inr r, m))" for key c ph d h body
  proof
    fix m
    assume i: "mg_inv S X m"
    then have "mg_inv S X (m\<lparr>mg_exchanges := et_find_mut key (exchange_arrival from now c ph d) (mg_exchanges m)\<rparr>)"
      by (simp add: table_inv)
    from closing_inv(5) [OF this] i
    show "mg_inv S X (snd (if et_find key (mg_exchanges m) = None then (Inl NoExchange, m)
      else let m = m\<lparr>mg_exchanges := et_find_mut key (exchange_arrival from now c ph d) (mg_exchanges m)\<rparr>;
               (r, m) = deliver h ph body d key m in (Inr r, m)))"
      by (simp add: Let_def case_prod_beta)
  qed
  have k: "keeps (mg_inv S X) (bindE (judge h s from now) (\<lambda>verdict.
      bindE (liftE p) (\<lambda>payload. bindE (liftE (ph_decode payload)) (\<lambda>(ph, body).
      bindE (match_context h) (\<lambda>_.
      bindE (route X (mh_session_id h) ph (verdict = Duplicate) now) (\<lambda>key m.
        if et_find key (mg_exchanges m) = None then (Inl NoExchange, m)
        else let m = m\<lparr>mg_exchanges := et_find_mut key (exchange_arrival from now (mh_message_counter h) ph (verdict = Duplicate)) (mg_exchanges m)\<rparr>;
                 (r, m) = deliver h ph body (verdict = Duplicate) key m in (Inr r, m)))))))" for h s p
    unfolding case_prod_beta' by (intro keeps_bindE keeps_rules a [unfolded case_prod_beta'])
  assume "mg_inv S X m"
  then show ?thesis using keepsD [OF k, where s = m] by (auto simp: receive_def split: sum.split prod.split)
qed

text \<open>The states the layer can be in: every public operation, in any order.  \<^verbatim>\<open>sessions_mut\<close> hands out the
  session table, on which a handshake allocates an identifier and fills in a session.\<close>

inductive mg_reachable :: "Cipher \<Rightarrow> nat \<Rightarrow> nat \<Rightarrow> Messaging \<Rightarrow> bool" for C S X where
  new: "mg_reachable C S X (messaging_new sid xid initial)"
| register: "mg_reachable C S X m \<Longrightarrow> mg_reachable C S X (register ps m)"
| set_privacy: "mg_reachable C S X m \<Longrightarrow> mg_reachable C S X (set_privacy b m)"
| open_unsecured: "mg_reachable C S X m \<Longrightarrow> mg_reachable C S X (snd (open_unsecured X p now r64 m))"
| open_unsecured_to: "mg_reachable C S X m \<Longrightarrow> mg_reachable C S X (snd (open_unsecured_to X p q now r64 m))"
| close_unsecured: "mg_reachable C S X m \<Longrightarrow> mg_reachable C S X (close_unsecured m)"
| open_on: "mg_reachable C S X m \<Longrightarrow> mg_reachable C S X (snd (mg_open X s p now m))"
| open_to: "mg_reachable C S X m \<Longrightarrow> mg_reachable C S X (snd (mg_open_to X s p q now m))"
| close: "mg_reachable C S X m \<Longrightarrow> mg_reachable C S X (snd (mg_close k m))"
| close_session: "mg_reachable C S X m \<Longrightarrow> mg_reachable C S X (snd (mg_close_session s m))"
| remove_fabric: "mg_reachable C S X m \<Longrightarrow> mg_reachable C S X (snd (mg_remove_fabric f m))"
| send: "mg_reachable C S X m \<Longrightarrow>
    mg_reachable C S X (fst (snd (send C k opcode reliable payload now r scratch (m, out))))"
| acknowledge: "mg_reachable C S X m \<Longrightarrow> mg_reachable C S X (fst (snd (acknowledge C k now (m, out))))"
| install_session: "mg_reachable C S X m \<Longrightarrow>
    mg_reachable C S X (fst (snd (install_session C S X x now r scratch (m, out))))"
| receive: "mg_reachable C S X m \<Longrightarrow> mg_reachable C S X (snd (receive C X buf origin now m))"
| poll: "mg_reachable C S X m \<Longrightarrow> mg_reachable C S X (snd (poll now r m))"
| allocate_id: "mg_reachable C S X m \<Longrightarrow> mg_reachable C S X (snd (on_sessions st_allocate_id m))"
| fill_in: "mg_reachable C S X m \<Longrightarrow> (\<And>x. ss_local_session_id (g x) = ss_local_session_id x) \<Longrightarrow>
    mg_reachable C S X (m\<lparr>mg_sessions := st_find_mut s g (mg_sessions m)\<rparr>)"

lemma poll_sessions: "mg_sessions (snd (poll now r m)) = mg_sessions m"
  by (auto simp: poll_def Let_def mg_close_def case_prod_beta split: option.split OnTimeout.split)

lemma mg_reachable_inv: "mg_reachable C S X m \<Longrightarrow> mg_inv S X m"
proof (induction rule: mg_reachable.induct)
  case (poll m now r)
  then show ?case using poll_inv [of X m now r] poll_sessions [of now r m] by (simp add: mg_inv_def)
next
  case (allocate_id m)
  then show ?case by (simp add: on_sessions_def st_allocate_id_def Let_def case_prod_beta mg_inv_def)
next
  case (fill_in m g s)
  then show ?case by (simp add: st_find_mut_inv mg_invD)
next
  case (new sid xid initial)
  then show ?case by (simp add: messaging_new_def mg_inv_def st_inv_def st_new_def et_inv_def et_new_def)
qed (simp_all add: register_def set_privacy_def close_unsecured_def keepsD [OF open_unsecured_keeps(1)]
    keepsD [OF open_unsecured_keeps(2)] keepsD [OF keeps_opening(1)] keepsD [OF keeps_opening(2)]
    closing_inv send_inv acknowledge_inv install_session_inv receive_inv)

lemma close_sessions_open: "set (et_open (close_sessions ss t)) = {e \<in> set (et_open t). xk_session (ex_key e) \<notin> set ss}"
  by (induction ss t rule: close_sessions.induct) (auto simp: close_session_def Let_def)

lemma close_sessions_find:
  "et_find k (close_sessions ss t) = (if xk_session k \<in> set ss then None else et_find k t)"
proof (induction ss t rule: close_sessions.induct)
  case (2 s ss t)
  have "et_find k (snd (close_session s t)) = (if xk_session k = s then None else et_find k t)"
  proof -
    have "List.find (\<lambda>e. ex_key e = k) (filter (\<lambda>e. xk_session (ex_key e) \<noteq> s) es)
        = (if xk_session k = s then None else List.find (\<lambda>e. ex_key e = k) es)" for es :: "Exchange list"
      by (induction es) auto
    then show ?thesis by (simp add: et_find_def close_session_def Let_def)
  qed
  then show ?case using 2 by simp
qed simp

lemma mg_remove_fabric_find:
  assumes "mg_inv S X m" and "st_find i (mg_sessions m) = Some x"
  shows "st_find i (mg_sessions (snd (mg_remove_fabric f m))) = (if ss_fabric_index x = f then None else Some x)"
    and "xk_session k = i \<Longrightarrow> et_find k (mg_exchanges (snd (mg_remove_fabric f m)))
      = (if ss_fabric_index x = f then None else et_find k (mg_exchanges m))"
proof -
  have inv: "st_inv S (mg_sessions m)" using mg_invD [OF assms(1)] by simp
  show "st_find i (mg_sessions (snd (mg_remove_fabric f m))) = (if ss_fabric_index x = f then None else Some x)"
    using session_removal [OF inv, of f i] assms(2) by (simp add: mg_remove_fabric_def Let_def case_prod_beta)
  have "i \<in> ss_local_session_id ` {y \<in> set (st_sessions (mg_sessions m)). ss_fabric_index y = f} \<longleftrightarrow> ss_fabric_index x = f"
  proof -
    have "y = x" if "y \<in> set (st_sessions (mg_sessions m))" "ss_local_session_id y = i" for y
      using that assms(2) stb.lookup_Some [OF inv, of i y] by auto
    moreover have "x \<in> set (st_sessions (mg_sessions m))" "ss_local_session_id x = i"
      using assms(2) stb.lookup_Some [OF inv, of i x] by auto
    ultimately show ?thesis by force
  qed
  then show "xk_session k = i \<Longrightarrow> et_find k (mg_exchanges (snd (mg_remove_fabric f m)))
      = (if ss_fabric_index x = f then None else et_find k (mg_exchanges m))"
    by (auto simp: mg_remove_fabric_def Let_def case_prod_beta close_sessions_find)
qed

text \<open>C7: Through any sequence of the layer's operations, and whatever arrives, both tables stay within their capacity and keyed:
  no two sessions share an identifier, no two exchanges a key, and each is found by its own.\<close>

theorem messaging_invariant:
  assumes "mg_reachable C S X m"
  shows "length (st_sessions (mg_sessions m)) \<le> S \<and> length (et_open (mg_exchanges m)) \<le> X
    \<and> (\<forall>x \<in> set (st_sessions (mg_sessions m)). st_find (ss_local_session_id x) (mg_sessions m) = Some x)
    \<and> (\<forall>e \<in> set (et_open (mg_exchanges m)). et_find (ex_key e) (mg_exchanges m) = Some e)"
proof -
  note i = mg_invD [OF mg_reachable_inv [OF assms]]
  then show ?thesis using stb.lookup_Some [OF i(1)] etb.lookup_Some [OF i(2)] by (auto simp: st_inv_def et_inv_def)
qed

theorem messaging_invariant_witness:
  "length (et_open (mg_exchanges (snd (poll 5 0 (snd (mg_open 2 9 (protocol_common 1) 3 (messaging_new 1 1 0))))))) \<le> 2"
  using messaging_invariant [OF mg_reachable.poll [OF mg_reachable.open_on [OF mg_reachable.new [of demo_cipher 4 2]]]] by blast

text \<open>Removing a fabric removes exactly its sessions and exactly the exchanges that ran on them; the
  sessions and exchanges of every other fabric are untouched.\<close>

theorem fabric_removed_with_its_exchanges:
  "set (st_sessions (mg_sessions (snd (mg_remove_fabric f m)))) = {x \<in> set (st_sessions (mg_sessions m)). ss_fabric_index x \<noteq> f}
   \<and> set (et_open (mg_exchanges (snd (mg_remove_fabric f m)))) =
      {e \<in> set (et_open (mg_exchanges m)).
        \<not> (\<exists>x \<in> set (st_sessions (mg_sessions m)). ss_fabric_index x = f \<and> ss_local_session_id x = xk_session (ex_key e))}"
  by (auto simp: mg_remove_fabric_def Let_def case_prod_beta close_sessions_open st_remove_fabric_def image_iff)

text \<open>C30: When \<^verbatim>\<open>poll\<close> says that a standalone acknowledgement is due, the timer has already
  spent it: the \<^verbatim>\<open>acknowledge\<close> that is to write it finds nothing owed, writes nothing and returns
  a length of zero, so the peer is never told and retransmits.\<close>

theorem due_acknowledgement_is_lost:
  assumes "et_inv X (mg_exchanges m)" and "poll now r m = (Some (DueAcknowledge k), m')"
  shows "fst (acknowledge C k now' (m', out)) = Inr 0 \<and> snd (snd (acknowledge C k now' (m', out))) = out"
  using assms(1)
proof (cases rule: poll_cases [where now = now and r = r, case_names quiet acts])
  case quiet
  then show ?thesis using assms(2) by simp
next
  case (acts e m1)
  then obtain c where t: "fst (mrp_on_timeout now r (ex_mrp e)) = SendStandaloneAck c" and k: "ex_key e = k" "m1 = m'"
    using assms(2) by (auto split: OnTimeout.splits)
  let ?f = "\<lambda>x. x\<lparr>ex_mrp := snd (mrp_on_timeout now r (ex_mrp x))\<rparr>"
  have "et_find k (mg_exchanges m') = Some (?f e)"
    using et_find_mut_find [of ?f k k "mg_exchanges (reaped now m)"] acts(1,3) k by simp
  moreover have "pending_ack (snd (mrp_on_timeout now r (ex_mrp e))) = None"
    using t by (auto simp: mrp_on_timeout_def tx_timeout_def Let_def split: option.splits if_splits)
  ultimately show ?thesis by (simp add: acknowledge_def take_ack_def take_piggyback_def Let_def)
qed

text \<open>An exchange that owes an acknowledgement.\<close>

definition demo_owing :: Messaging where
  "demo_owing = demo_end SessionResponder
     [(exchange_new (demo_key Responder) (protocol_common 1) params_default 0)
        \<lparr>ex_mrp := on_reliable_received 8 0 False (mrp_new params_default)\<rparr>]"

lemma demo_owing_due: "et_inv 4 (mg_exchanges demo_owing)"
  "poll 300000 0 demo_owing = (Some (DueAcknowledge (demo_key Responder)), snd (poll 300000 0 demo_owing))"
  "wake_at demo_owing = Some 200000"
  by (simp_all add: demo_owing_def demo_end_def et_inv_def poll_def et_reap_def et_find_def exchange_new_def on_reliable_received_def
      mrp_new_def note_peer_activity_def mrp_poll_deadline_def mrp_on_timeout_def is_abandoned_def is_awaiting_ack_def instant_add_def
      saturating_add_def saturating_sub_def saturating_mul_def MRP_STANDALONE_ACK_TIMEOUT_def EXCHANGE_IDLE_TIMEOUT_def from_secs_def from_millis_def
      is_elapsed_at_def Let_def wake_at_def et_poll_deadline_def et_reap_deadline_def min_opt_def map_filter_def)

theorem due_acknowledgement_is_lost_witness:
  "fst (acknowledge demo_cipher (demo_key Responder) 300000 (snd (poll 300000 0 demo_owing), replicate 64 0)) = Inr 0"
  using due_acknowledgement_is_lost [OF demo_owing_due(1,2)] by simp

theorem poll_loop_ends_witness: "\<exists>n. fst (poll 300000 0 (poll_times n 300000 (\<lambda>_. 0) demo_owing)) = None"
  using poll_loop_ends [OF demo_owing_due(1), where now = 300000 and rs = "\<lambda>_. 0"] by auto

theorem wake_up_is_exact_witness: "poll 199999 0 demo_owing = (None, demo_owing) \<and> poll 200001 0 demo_owing \<noteq> (None, demo_owing)"
  using wake_up_is_exact [OF demo_owing_due(1), where now = 199999 and r = 0]
    wake_up_is_exact [OF demo_owing_due(1), where now = 200001 and r = 0] demo_owing_due(3) by simp

end
