(* ===== verification/Im_Status.thy ===== *)
theory Im_Status
  imports Msg_Ids
begin

text \<open>
  Interaction Model status codes (\<^verbatim>\<open>src/src/im/status.rs\<close>) and their one-octet encoding, in which every
  octet is the code of exactly one status.
\<close>

datatype Status =
    Status_Success | Status_Failure | Status_InvalidSubscription
  | Status_UnsupportedAccess | Status_UnsupportedEndpoint | Status_InvalidAction
  | Status_UnsupportedCommand | Status_InvalidCommand | Status_UnsupportedAttribute
  | Status_ConstraintError | Status_UnsupportedWrite | Status_ResourceExhausted
  | Status_NotFound | Status_UnreportableAttribute | Status_InvalidDataType
  | Status_UnsupportedRead | Status_DataVersionMismatch | Status_Timeout
  | Status_UnsupportedNode | Status_Busy | Status_AccessRestricted
  | Status_UnsupportedCluster | Status_NoUpstreamSubscription | Status_NeedsTimedInteraction
  | Status_UnsupportedEvent | Status_PathsExhausted | Status_TimedRequestMismatch
  | Status_FailsafeRequired | Status_InvalidInState | Status_NoCommandResponse
  | Status_TermsAndConditionsChanged | Status_MaintenanceRequired | Status_DynamicConstraintError
  | Status_AlreadyExists | Status_InvalidTransportType | Status_Reserved u8

fun status_value :: "Status \<Rightarrow> u8" where
  "status_value Status_Success = 0x00"
| "status_value Status_Failure = 0x01"
| "status_value Status_InvalidSubscription = 0x7D"
| "status_value Status_UnsupportedAccess = 0x7E"
| "status_value Status_UnsupportedEndpoint = 0x7F"
| "status_value Status_InvalidAction = 0x80"
| "status_value Status_UnsupportedCommand = 0x81"
| "status_value Status_InvalidCommand = 0x85"
| "status_value Status_UnsupportedAttribute = 0x86"
| "status_value Status_ConstraintError = 0x87"
| "status_value Status_UnsupportedWrite = 0x88"
| "status_value Status_ResourceExhausted = 0x89"
| "status_value Status_NotFound = 0x8B"
| "status_value Status_UnreportableAttribute = 0x8C"
| "status_value Status_InvalidDataType = 0x8D"
| "status_value Status_UnsupportedRead = 0x8F"
| "status_value Status_DataVersionMismatch = 0x92"
| "status_value Status_Timeout = 0x94"
| "status_value Status_UnsupportedNode = 0x9B"
| "status_value Status_Busy = 0x9C"
| "status_value Status_AccessRestricted = 0x9D"
| "status_value Status_UnsupportedCluster = 0xC3"
| "status_value Status_NoUpstreamSubscription = 0xC5"
| "status_value Status_NeedsTimedInteraction = 0xC6"
| "status_value Status_UnsupportedEvent = 0xC7"
| "status_value Status_PathsExhausted = 0xC8"
| "status_value Status_TimedRequestMismatch = 0xC9"
| "status_value Status_FailsafeRequired = 0xCA"
| "status_value Status_InvalidInState = 0xCB"
| "status_value Status_NoCommandResponse = 0xCC"
| "status_value Status_TermsAndConditionsChanged = 0xCD"
| "status_value Status_MaintenanceRequired = 0xCE"
| "status_value Status_DynamicConstraintError = 0xCF"
| "status_value Status_AlreadyExists = 0xD0"
| "status_value Status_InvalidTransportType = 0xD1"
| "status_value (Status_Reserved v) = v"

definition status_from_value :: "u8 \<Rightarrow> Status" where
  "status_from_value v =
     (if v = 0x00 then Status_Success
      else if v = 0x01 then Status_Failure
      else if v = 0x7D then Status_InvalidSubscription
      else if v = 0x7E then Status_UnsupportedAccess
      else if v = 0x7F then Status_UnsupportedEndpoint
      else if v = 0x80 then Status_InvalidAction
      else if v = 0x81 then Status_UnsupportedCommand
      else if v = 0x85 then Status_InvalidCommand
      else if v = 0x86 then Status_UnsupportedAttribute
      else if v = 0x87 then Status_ConstraintError
      else if v = 0x88 then Status_UnsupportedWrite
      else if v = 0x89 then Status_ResourceExhausted
      else if v = 0x8B then Status_NotFound
      else if v = 0x8C then Status_UnreportableAttribute
      else if v = 0x8D then Status_InvalidDataType
      else if v = 0x8F then Status_UnsupportedRead
      else if v = 0x92 then Status_DataVersionMismatch
      else if v = 0x94 then Status_Timeout
      else if v = 0x9B then Status_UnsupportedNode
      else if v = 0x9C then Status_Busy
      else if v = 0x9D then Status_AccessRestricted
      else if v = 0xC3 then Status_UnsupportedCluster
      else if v = 0xC5 then Status_NoUpstreamSubscription
      else if v = 0xC6 then Status_NeedsTimedInteraction
      else if v = 0xC7 then Status_UnsupportedEvent
      else if v = 0xC8 then Status_PathsExhausted
      else if v = 0xC9 then Status_TimedRequestMismatch
      else if v = 0xCA then Status_FailsafeRequired
      else if v = 0xCB then Status_InvalidInState
      else if v = 0xCC then Status_NoCommandResponse
      else if v = 0xCD then Status_TermsAndConditionsChanged
      else if v = 0xCE then Status_MaintenanceRequired
      else if v = 0xCF then Status_DynamicConstraintError
      else if v = 0xD0 then Status_AlreadyExists
      else if v = 0xD1 then Status_InvalidTransportType
      else Status_Reserved v)"

definition status_is_success :: "Status \<Rightarrow> bool" where
  "status_is_success s \<longleftrightarrow> s = Status_Success"

lemma status_value_from_value [simp]: "status_value (status_from_value v) = v"
  by (simp add: status_from_value_def)

text \<open>A status is canonical when it is not a reserved octet that names another status.\<close>

definition status_canonical :: "Status \<Rightarrow> bool" where
  "status_canonical s \<longleftrightarrow> (\<forall>v. s = Status_Reserved v \<longrightarrow> status_from_value v = Status_Reserved v)"

lemma status_from_value_value: "status_canonical s \<Longrightarrow> status_from_value (status_value s) = s"
  by (cases s) (simp_all add: status_from_value_def status_canonical_def)

end
