(* ===== verification/Im_Timed.thy ===== *)
theory Im_Timed
  imports Keyed_Table Im_Status Platform_Time
begin

text \<open>
  The Timed transaction windows of a node (\<^verbatim>\<open>src/src/im/timed.rs\<close>): a fixed array of slots, each of which may
  hold the deadline a Timed Request set for the next request on its exchange.
\<close>

record Window =
  tw_session :: "SessionId option"
  tw_exchange :: ExchangeId
  tw_deadline :: Instant

type_synonym TimedWindows = "Window option list"

definition tw_new :: "nat \<Rightarrow> TimedWindows" where
  "tw_new N = replicate N None"

definition window_of :: "SessionId option \<Rightarrow> ExchangeId \<Rightarrow> Window option \<Rightarrow> bool" where
  "window_of s x slot = (case slot of None \<Rightarrow> False | Some w \<Rightarrow> tw_session w = s \<and> tw_exchange w = x)"

definition slot_for :: "SessionId option \<Rightarrow> ExchangeId \<Rightarrow> TimedWindows \<Rightarrow> nat option" where
  "slot_for s x ws = position (window_of s x) ws"

definition slot_expired :: "Instant \<Rightarrow> Window option \<Rightarrow> bool" where
  "slot_expired now slot = (case slot of None \<Rightarrow> False | Some w \<Rightarrow> tw_deadline w \<le> now)"

text \<open>The slot \<^verbatim>\<open>open\<close> reclaims when all are taken: the first of the oldest that have expired.\<close>

definition oldest_expired :: "Instant \<Rightarrow> TimedWindows \<Rightarrow> nat option" where
  "oldest_expired now ws =
     min_by_key (\<lambda>i. case ws ! i of None \<Rightarrow> 0 | Some w \<Rightarrow> tw_deadline w)
       (filter (\<lambda>i. slot_expired now (ws ! i)) [0..<length ws])"

definition tw_open :: "SessionId option \<Rightarrow> ExchangeId \<Rightarrow> u16 \<Rightarrow> Instant \<Rightarrow> (TimedWindows, unit) mutator" where
  "tw_open s x timeout_ms sent_at ws =
     (let w = Some \<lparr>tw_session = s, tw_exchange = x,
                   tw_deadline = instant_add sent_at (from_millis (ucast timeout_ms))\<rparr> in
      case slot_for s x ws of
        Some i \<Rightarrow> (Inr (), ws[i := w])
      | None \<Rightarrow>
          (case position (\<lambda>slot. slot = None) ws of
             Some i \<Rightarrow> (Inr (), ws[i := w])
           | None \<Rightarrow>
               (case oldest_expired sent_at ws of
                  Some i \<Rightarrow> (Inr (), ws[i := w])
                | None \<Rightarrow> (Inl NoSpace, ws))))"

definition tw_check ::
    "SessionId option \<Rightarrow> ExchangeId \<Rightarrow> bool \<Rightarrow> Instant \<Rightarrow> TimedWindows \<Rightarrow> (Status + bool) \<times> TimedWindows" where
  "tw_check s x timed_request now ws =
     (case slot_for s x ws of
        None \<Rightarrow> (if timed_request then Inl Status_TimedRequestMismatch else Inr False, ws)
      | Some i \<Rightarrow>
          let expired = (case ws ! i of None \<Rightarrow> False | Some w \<Rightarrow> tw_deadline w < now) in
          (if expired then Inl Status_Timeout
           else if \<not> timed_request then Inl Status_TimedRequestMismatch
           else Inr True, ws[i := None]))"

definition tw_close :: "SessionId option \<Rightarrow> ExchangeId \<Rightarrow> TimedWindows \<Rightarrow> TimedWindows" where
  "tw_close s x ws = (case slot_for s x ws of None \<Rightarrow> ws | Some i \<Rightarrow> ws[i := None])"

definition tw_close_session :: "SessionId option \<Rightarrow> TimedWindows \<Rightarrow> TimedWindows" where
  "tw_close_session s ws =
     map (\<lambda>slot. if (case slot of None \<Rightarrow> False | Some w \<Rightarrow> tw_session w = s) then None else slot) ws"

definition slot_late :: "Instant \<Rightarrow> Window option \<Rightarrow> bool" where
  "slot_late now slot = (case slot of None \<Rightarrow> False | Some w \<Rightarrow> tw_deadline w < now)"

definition tw_reap :: "Instant \<Rightarrow> TimedWindows \<Rightarrow> nat \<times> TimedWindows" where
  "tw_reap now ws =
     (length (filter (slot_late now) ws), map (\<lambda>slot. if slot_late now slot then None else slot) ws)"

definition tw_len :: "TimedWindows \<Rightarrow> nat" where
  "tw_len ws = length (filter (\<lambda>slot. slot \<noteq> None) ws)"

definition tw_is_empty :: "TimedWindows \<Rightarrow> bool" where
  "tw_is_empty ws \<longleftrightarrow> tw_len ws = 0"

definition tw_next_deadline :: "TimedWindows \<Rightarrow> Instant option" where
  "tw_next_deadline ws = min_by_key (\<lambda>d. d) (List.map_filter (map_option tw_deadline) ws)"

section \<open>The windows as a map\<close>

text \<open>What the slots mean: at most one deadline for a session and exchange.\<close>

definition tw_inv :: "nat \<Rightarrow> TimedWindows \<Rightarrow> bool" where
  "tw_inv N ws \<longleftrightarrow> length ws = N
     \<and> (\<forall>i j s x. i < N \<and> j < N \<and> window_of s x (ws ! i) \<and> window_of s x (ws ! j) \<longrightarrow> i = j)"

definition deadline_of :: "SessionId option \<Rightarrow> ExchangeId \<Rightarrow> TimedWindows \<Rightarrow> Instant option" where
  "deadline_of s x ws = Option.bind (slot_for s x ws) (\<lambda>i. map_option tw_deadline (ws ! i))"

lemma slot_for_Some: "slot_for s x ws = Some i \<Longrightarrow> i < length ws \<and> window_of s x (ws ! i)"
  unfolding slot_for_def by (auto dest: position_Some)

lemma slot_for_None: "slot_for s x ws = None \<longleftrightarrow> (\<forall>i < length ws. \<not> window_of s x (ws ! i))"
  unfolding slot_for_def by (simp add: position_None all_set_conv_all_nth)

lemma deadline_of_iff:
  assumes "tw_inv N ws"
  shows "deadline_of s x ws = Some d \<longleftrightarrow> (\<exists>i < N. ws ! i = Some \<lparr>tw_session = s, tw_exchange = x, tw_deadline = d\<rparr>)"
proof
  assume "deadline_of s x ws = Some d"
  then obtain i where i: "slot_for s x ws = Some i" "map_option tw_deadline (ws ! i) = Some d"
    by (auto simp: deadline_of_def bind_eq_Some_conv)
  have "window_of s x (ws ! i) \<and> i < N" using slot_for_Some [OF i(1)] assms by (simp add: tw_inv_def)
  with i(2) show "\<exists>i < N. ws ! i = Some \<lparr>tw_session = s, tw_exchange = x, tw_deadline = d\<rparr>"
    by (auto simp: window_of_def split: option.splits intro!: exI [of _ i])
next
  assume "\<exists>i < N. ws ! i = Some \<lparr>tw_session = s, tw_exchange = x, tw_deadline = d\<rparr>"
  then obtain i where i: "i < N" "ws ! i = Some \<lparr>tw_session = s, tw_exchange = x, tw_deadline = d\<rparr>" by blast
  then have w: "window_of s x (ws ! i)" by (simp add: window_of_def)
  then obtain j where j: "slot_for s x ws = Some j" using slot_for_None [of s x ws] i(1) assms
    by (cases "slot_for s x ws") (auto simp: tw_inv_def)
  then have "j = i" using slot_for_Some [OF j] w i(1) assms unfolding tw_inv_def by blast
  then show "deadline_of s x ws = Some d" using i j by (simp add: deadline_of_def)
qed

text \<open>A slot may be overwritten with a window whose exchange no other slot has.\<close>

lemma window_unique: "window_of s x slot \<Longrightarrow> window_of s' x' slot \<Longrightarrow> s' = s \<and> x' = x"
  by (auto simp: window_of_def split: option.splits)

lemma tw_inv_update:
  assumes "tw_inv N ws" and "i < N"
    and "\<And>w. v = Some w \<Longrightarrow> \<forall>j < N. j \<noteq> i \<longrightarrow> \<not> window_of (tw_session w) (tw_exchange w) (ws ! j)"
  shows "tw_inv N (ws[i := v])"
proof -
  have l: "length ws = N" using assms(1) by (simp add: tw_inv_def)
  have v: "\<not> window_of s x (ws ! j)" if "window_of s x v" "j < N" "j \<noteq> i" for s x j
    using that assms(3) by (auto simp: window_of_def split: option.splits)
  have "j = k" if "j < N" "k < N" "window_of s x (ws[i := v] ! j)" "window_of s x (ws[i := v] ! k)" for j k s x
    using that l assms(1) v [of s x j] v [of s x k] unfolding tw_inv_def
    by (cases "j = i"; cases "k = i") (auto simp: nth_list_update)
  then show ?thesis using l by (simp add: tw_inv_def) blast
qed

lemma deadline_of_update:
  assumes "tw_inv N ws" and "i < N" and "tw_inv N (ws[i := v])"
  shows "deadline_of s x (ws[i := v]) =
    (if window_of s x v then map_option tw_deadline v
     else if window_of s x (ws ! i) then None else deadline_of s x ws)"
proof -
  have l: "length ws = N" using assms(1) by (simp add: tw_inv_def)
  have "deadline_of s x (ws[i := v]) = Some d \<longleftrightarrow>
      (if window_of s x v then map_option tw_deadline v
       else if window_of s x (ws ! i) then None else deadline_of s x ws) = Some d" for d
  proof (cases "window_of s x v")
    case True
    then obtain w where w: "v = Some w" "tw_session w = s" "tw_exchange w = x" by (auto simp: window_of_def split: option.splits)
    have "deadline_of s x (ws[i := v]) = Some (tw_deadline w)"
      unfolding deadline_of_iff [OF assms(3)] using w assms(2) l by (intro exI [of _ i]) simp
    then show ?thesis using True w by simp
  next
    case False
    have wo: "ws ! j = Some \<lparr>tw_session = s, tw_exchange = x, tw_deadline = e\<rparr> \<Longrightarrow> window_of s x (ws ! j)" for j e
      by (simp add: window_of_def)
    have u: "j = i" if "j < N" "window_of s x (ws ! j)" "window_of s x (ws ! i)" for j
      using assms(1,2) that unfolding tw_inv_def by blast
    have nv: "v \<noteq> Some \<lparr>tw_session = s, tw_exchange = x, tw_deadline = e\<rparr>" for e using False by (auto simp: window_of_def)
    have "(\<exists>j < N. ws[i := v] ! j = Some \<lparr>tw_session = s, tw_exchange = x, tw_deadline = d\<rparr>) \<longleftrightarrow>
        \<not> window_of s x (ws ! i) \<and> (\<exists>j < N. ws ! j = Some \<lparr>tw_session = s, tw_exchange = x, tw_deadline = d\<rparr>)"
      using nv wo u assms(2) l by (auto simp: nth_list_update; metis wo u)
    then show ?thesis unfolding deadline_of_iff [OF assms(3)] using False deadline_of_iff [OF assms(1), of s x d] by auto
  qed
  then show ?thesis by (metis not_None_eq)
qed

section \<open>The operations on the map\<close>

lemma oldest_expired_Some: "oldest_expired now ws = Some i \<Longrightarrow> i < length ws \<and> slot_expired now (ws ! i)"
  using min_by_key_least unfolding oldest_expired_def by fastforce

lemma oldest_expired_None: "oldest_expired now ws = None \<longleftrightarrow> (\<forall>i < length ws. \<not> slot_expired now (ws ! i))"
  unfolding oldest_expired_def min_by_key_None by (auto simp: filter_empty_conv)

text \<open>Opening either writes one slot, its own, a free one or one that has expired, or is refused because
  every slot holds a window that is still to expire.\<close>

lemma tw_open_cases:
  assumes "tw_inv N ws"
  obtains (opened) i where "i < N" and "tw_open s x t at ws = (Inr (), ws[i := Some \<lparr>tw_session = s, tw_exchange = x,
        tw_deadline = instant_add at (from_millis (ucast t))\<rparr>])"
      and "window_of s x (ws ! i) \<or> slot_for s x ws = None \<and> (ws ! i = None \<or> slot_expired at (ws ! i))"
  | (full) "tw_open s x t at ws = (Inl NoSpace, ws)" and "slot_for s x ws = None"
      and "\<forall>i < N. \<exists>w. ws ! i = Some w \<and> at < tw_deadline w"
proof -
  have l: "length ws = N" using assms by (simp add: tw_inv_def)
  show ?thesis
  proof (cases "slot_for s x ws")
    case (Some i)
    then show ?thesis using slot_for_Some [OF Some] l by (intro opened [of i]) (simp_all add: tw_open_def Let_def)
  next
    case none: None
    show ?thesis
    proof (cases "position (\<lambda>slot. slot = None) ws")
      case (Some i)
      then show ?thesis using none position_Some [OF Some] l by (intro opened [of i]) (simp_all add: tw_open_def Let_def)
    next
      case np: None
      then have a: "\<forall>i < N. ws ! i \<noteq> None" using l by (auto simp: position_None)
      show ?thesis
      proof (cases "oldest_expired at ws")
        case (Some i)
        then show ?thesis using none np oldest_expired_Some [OF Some] l
          by (intro opened [of i]) (simp_all add: tw_open_def Let_def)
      next
        case None
        then have "\<forall>i < N. \<exists>w. ws ! i = Some w \<and> at < tw_deadline w"
          using a oldest_expired_None [of at ws] l by (fastforce simp: slot_expired_def)
        then show ?thesis using none np None by (intro full) (simp_all add: tw_open_def Let_def)
      qed
    qed
  qed
qed

lemma tw_open_inv_write:
  assumes "tw_inv N ws" and "i < N" and "window_of s x (ws ! i) \<or> slot_for s x ws = None"
    and "tw_session w = s" and "tw_exchange w = x"
  shows "tw_inv N (ws[i := Some w])"
proof (rule tw_inv_update [OF assms(1,2)])
  fix w'
  assume "Some w = Some w'"
  have "\<not> window_of s x (ws ! j)" if "j < N" "j \<noteq> i" for j
    using assms(3)
  proof
    assume "window_of s x (ws ! i)"
    then show ?thesis using that assms(1,2) unfolding tw_inv_def by blast
  next
    assume "slot_for s x ws = None"
    then show ?thesis using slot_for_None [of s x ws] that assms(1) by (simp add: tw_inv_def)
  qed
  then show "\<forall>j < N. j \<noteq> i \<longrightarrow> \<not> window_of (tw_session w') (tw_exchange w') (ws ! j)"
    using assms(4,5) \<open>Some w = Some w'\<close> by auto
qed

lemma tw_open_inv:
  assumes "tw_inv N ws"
  shows "tw_inv N (snd (tw_open s x t at ws))"
  by (rule tw_open_cases [OF assms, of s x t at]) (use assms in \<open>auto intro!: tw_open_inv_write\<close>)

lemma window_None [simp]: "\<not> window_of s x None"
  by (simp add: window_of_def)

lemma tw_check_spec:
  assumes "tw_inv N ws"
  shows "fst (tw_check s x timed now ws) =
      (case deadline_of s x ws of
         None \<Rightarrow> if timed then Inl Status_TimedRequestMismatch else Inr False
       | Some d \<Rightarrow> if d < now then Inl Status_Timeout else if timed then Inr True else Inl Status_TimedRequestMismatch)"
    and "tw_inv N (snd (tw_check s x timed now ws))"
    and "deadline_of s' x' (snd (tw_check s x timed now ws)) = (if s' = s \<and> x' = x then None else deadline_of s' x' ws)"
proof -
  have "fst (tw_check s x timed now ws) =
      (case deadline_of s x ws of
         None \<Rightarrow> if timed then Inl Status_TimedRequestMismatch else Inr False
       | Some d \<Rightarrow> if d < now then Inl Status_Timeout else if timed then Inr True else Inl Status_TimedRequestMismatch)
    \<and> tw_inv N (snd (tw_check s x timed now ws))
    \<and> deadline_of s' x' (snd (tw_check s x timed now ws)) = (if s' = s \<and> x' = x then None else deadline_of s' x' ws)"
  proof (cases "slot_for s x ws")
    case None
    then show ?thesis using assms by (simp add: tw_check_def deadline_of_def)
  next
    case (Some i)
    then have i: "i < N" "window_of s x (ws ! i)" using slot_for_Some [OF Some] assms by (auto simp: tw_inv_def)
    then obtain w where w: "ws ! i = Some w" by (auto simp: window_of_def split: option.splits)
    have inv: "tw_inv N (ws[i := None])" using tw_inv_update [OF assms i(1), of None] by simp
    have "window_of s' x' (ws ! i) \<longleftrightarrow> s' = s \<and> x' = x" using window_unique [OF i(2), of s' x'] i(2) by blast
    then show ?thesis using Some w inv deadline_of_update [OF assms i(1) inv, of s' x']
      by (simp add: tw_check_def Let_def deadline_of_def)
  qed
  then show "fst (tw_check s x timed now ws) =
      (case deadline_of s x ws of
         None \<Rightarrow> if timed then Inl Status_TimedRequestMismatch else Inr False
       | Some d \<Rightarrow> if d < now then Inl Status_Timeout else if timed then Inr True else Inl Status_TimedRequestMismatch)"
    and "tw_inv N (snd (tw_check s x timed now ws))"
    and "deadline_of s' x' (snd (tw_check s x timed now ws)) = (if s' = s \<and> x' = x then None else deadline_of s' x' ws)"
    by blast+
qed

text \<open>Operations that only empty slots.\<close>

lemma tw_drop:
  assumes "tw_inv N ws" and "\<And>slot. f slot = slot \<or> f slot = None"
  shows "tw_inv N (map f ws)" and "deadline_of s x (map f ws) = Some d \<Longrightarrow> deadline_of s x ws = Some d"
proof -
  have l: "length ws = N" using assms(1) by (simp add: tw_inv_def)
  have w: "window_of s x (f slot) \<Longrightarrow> window_of s x slot" for s x slot using assms(2) [of slot] by auto
  show inv: "tw_inv N (map f ws)" using assms(1) l w unfolding tw_inv_def by (auto; metis)
  assume "deadline_of s x (map f ws) = Some d"
  then obtain i where "i < N" "f (ws ! i) = Some \<lparr>tw_session = s, tw_exchange = x, tw_deadline = d\<rparr>"
    using deadline_of_iff [OF inv] l by auto
  then show "deadline_of s x ws = Some d" unfolding deadline_of_iff [OF assms(1)] using assms(2) [of "ws ! i"] by auto
qed

lemma tw_close_spec:
  assumes "tw_inv N ws"
  shows "tw_inv N (tw_close s x ws)"
    and "deadline_of s' x' (tw_close s x ws) = (if s' = s \<and> x' = x then None else deadline_of s' x' ws)"
proof -
  have e: "tw_close s x ws = snd (tw_check s x True 0 ws)"
    by (simp add: tw_close_def tw_check_def Let_def split: option.split)
  show "tw_inv N (tw_close s x ws)" unfolding e by (rule tw_check_spec(2) [OF assms])
  show "deadline_of s' x' (tw_close s x ws) = (if s' = s \<and> x' = x then None else deadline_of s' x' ws)"
    unfolding e by (rule tw_check_spec(3) [OF assms])
qed

lemma tw_open_deadline:
  assumes "tw_inv N ws"
  shows "deadline_of s' x' (snd (tw_open s x t at ws)) = Some d \<Longrightarrow>
    (if fst (tw_open s x t at ws) = Inr () \<and> s' = s \<and> x' = x then d = instant_add at (from_millis (ucast t))
     else deadline_of s' x' ws = Some d)"
  using assms
proof (cases rule: tw_open_cases [where s = s and x = x and t = t and at = at, case_names opened full])
  case (opened i)
  let ?w = "\<lparr>tw_session = s, tw_exchange = x, tw_deadline = instant_add at (from_millis (ucast t))\<rparr>"
  have "tw_inv N (ws[i := Some ?w])" using opened tw_open_inv_write [OF assms opened(1), of s x ?w] by auto
  from deadline_of_update [OF assms opened(1) this, of s' x']
  show "deadline_of s' x' (snd (tw_open s x t at ws)) = Some d \<Longrightarrow>
      (if fst (tw_open s x t at ws) = Inr () \<and> s' = s \<and> x' = x then d = instant_add at (from_millis (ucast t))
       else deadline_of s' x' ws = Some d)"
    unfolding opened(2) by (auto simp: window_of_def split: if_splits)
qed simp

section \<open>Histories\<close>

datatype TimedEvent =
    TwOpen "SessionId option" ExchangeId u16 Instant
  | TwCheck "SessionId option" ExchangeId bool Instant
  | TwClose "SessionId option" ExchangeId
  | TwCloseSession "SessionId option"
  | TwReap Instant

fun tw_step :: "TimedEvent \<Rightarrow> TimedWindows \<Rightarrow> TimedWindows" where
  "tw_step (TwOpen s x t at) ws = snd (tw_open s x t at ws)"
| "tw_step (TwCheck s x timed now) ws = snd (tw_check s x timed now ws)"
| "tw_step (TwClose s x) ws = tw_close s x ws"
| "tw_step (TwCloseSession s) ws = tw_close_session s ws"
| "tw_step (TwReap now) ws = snd (tw_reap now ws)"

fun tw_run :: "TimedEvent list \<Rightarrow> TimedWindows \<Rightarrow> TimedWindows" where
  "tw_run [] ws = ws"
| "tw_run (e # es) ws = tw_run es (tw_step e ws)"

text \<open>The Timed Requests of an exchange, and the requests let through as timed.\<close>

fun is_open_for :: "SessionId option \<Rightarrow> ExchangeId \<Rightarrow> TimedEvent \<Rightarrow> bool" where
  "is_open_for s x (TwOpen s' x' _ _) \<longleftrightarrow> s' = s \<and> x' = x"
| "is_open_for s x _ \<longleftrightarrow> False"

fun timed_grants :: "SessionId option \<Rightarrow> ExchangeId \<Rightarrow> TimedEvent list \<Rightarrow> TimedWindows \<Rightarrow> nat" where
  "timed_grants s x [] ws = 0"
| "timed_grants s x (e # es) ws =
     (case e of
        TwCheck s' x' timed now \<Rightarrow> if s' = s \<and> x' = x \<and> fst (tw_check s' x' timed now ws) = Inr True then 1 else 0
      | _ \<Rightarrow> 0) + timed_grants s x es (tw_step e ws)"

lemma tw_new_inv: "tw_inv N (tw_new N)" "deadline_of s x (tw_new N) = None"
  by (auto simp: tw_inv_def tw_new_def deadline_of_def slot_for_None
      intro!: bind_eq_None_conv [THEN iffD2] disjI1)

lemma tw_drop_spec:
  assumes "tw_inv N ws"
  shows "tw_inv N (tw_close_session s ws)" "deadline_of s' x (tw_close_session s ws) = Some d \<Longrightarrow> deadline_of s' x ws = Some d"
    "tw_inv N (snd (tw_reap now ws))" "deadline_of s' x (snd (tw_reap now ws)) = Some d \<Longrightarrow> deadline_of s' x ws = Some d"
  unfolding tw_close_session_def tw_reap_def snd_conv
  by (rule tw_drop [OF assms]; simp add: slot_late_def split: option.split)+

lemma tw_step_inv: "tw_inv N ws \<Longrightarrow> tw_inv N (tw_step e ws)"
  by (cases e) (simp_all add: tw_open_inv tw_check_spec(2) tw_close_spec(1) tw_drop_spec)

lemma tw_run_inv: "tw_inv N ws \<Longrightarrow> tw_inv N (tw_run es ws)"
  by (induction es arbitrary: ws) (simp_all add: tw_step_inv)

text \<open>A step other than a Timed Request on the exchange gives it no deadline it did not have.\<close>

lemma tw_step_deadline:
  assumes "tw_inv N ws" and "deadline_of s x (tw_step e ws) = Some d"
  shows "deadline_of s x ws = Some d \<or> (\<exists>t at. e = TwOpen s x t at \<and> d = instant_add at (from_millis (ucast t)))"
proof (cases e)
  case (TwOpen s' x' t at)
  then show ?thesis using tw_open_deadline [OF assms(1), of s x s' x' t at d] assms(2) by (auto split: if_splits)
next
  case (TwCheck s' x' timed now)
  then show ?thesis using tw_check_spec(3) [OF assms(1), of s x s' x' timed now] assms(2) by (auto split: if_splits)
next
  case (TwClose s' x')
  then show ?thesis using tw_close_spec(2) [OF assms(1), of s x s' x'] assms(2) by (auto split: if_splits)
qed (use tw_drop_spec [OF assms(1)] assms(2) in auto)

lemma timed_grants_bound:
  "tw_inv N ws \<Longrightarrow> timed_grants s x es ws \<le> length (filter (is_open_for s x) es) + (if deadline_of s x ws = None then 0 else 1)"
proof (induction es arbitrary: ws)
  case (Cons e es)
  note IH = Cons.IH [OF tw_step_inv [OF Cons.prems, of e]]
  show ?case
  proof (cases e)
    case (TwOpen s' x' t at)
    then show ?thesis using IH tw_step_deadline [OF Cons.prems, of s x e]
      by (cases "deadline_of s x (tw_step e ws)") (auto split: if_splits)
  next
    case (TwCheck s' x' timed now)
    then show ?thesis using IH tw_check_spec(1) [OF Cons.prems, of s' x' timed now] tw_check_spec(3) [OF Cons.prems, of s x s' x' timed now]
      by (auto split: if_splits option.splits)
  qed (use IH tw_step_deadline [OF Cons.prems, of s x e] in
      \<open>cases "deadline_of s x (tw_step e ws)"; auto split: if_splits\<close>)+
qed simp

lemma tw_run_deadline:
  "tw_inv N ws \<Longrightarrow> deadline_of s x (tw_run es ws) = Some d \<Longrightarrow>
    deadline_of s x ws = Some d \<or> (\<exists>t at. TwOpen s x t at \<in> set es \<and> d = instant_add at (from_millis (ucast t)))"
proof (induction es arbitrary: ws)
  case (Cons e es)
  then show ?case using Cons.IH [OF tw_step_inv [OF Cons.prems(1), of e]] tw_step_deadline [OF Cons.prems(1), of s x e d]
    by auto
qed simp

section \<open>Properties\<close>

text \<open>C21: A request is let through as timed only when a Timed Request was made on its own exchange and its timeout,
  counted from the response to it, has not passed; and over any history no more requests are let
  through as timed on an exchange than Timed Requests were made on it.\<close>

theorem timed_request_pays_once:
  assumes "fst (tw_check s x timed now (tw_run es (tw_new N))) = Inr True"
  shows "timed \<and> (\<exists>t at. TwOpen s x t at \<in> set es \<and> now \<le> instant_add at (from_millis (ucast t)))
    \<and> timed_grants s x (es @ es') (tw_new N) \<le> length (filter (is_open_for s x) (es @ es'))"
proof -
  note i = tw_new_inv(1) [of N]
  let ?ws = "tw_run es (tw_new N)"
  obtain d where d: "deadline_of s x ?ws = Some d" "timed" "now \<le> d"
    using tw_check_spec(1) [OF tw_run_inv [OF i], of s x timed now es] assms by (auto split: option.splits if_splits)
  then show ?thesis
    using tw_run_deadline [OF i d(1)] timed_grants_bound [OF i, of s x "es @ es'"] by (auto simp: tw_new_inv)
qed

lemma demo_timed: "fst (tw_check None 3 True 6 (tw_run [TwOpen None 3 1000 5] (tw_new 1))) = Inr True"
  by (simp add: tw_new_def tw_open_def tw_check_def slot_for_def window_of_def instant_add_def from_millis_def
      saturating_add_def saturating_mul_def)

theorem timed_request_pays_once_witness:
  "timed_grants None 3 ([TwOpen None 3 1000 5] @ [TwCheck None 3 True 6, TwCheck None 3 True 7]) (tw_new 1)
    \<le> length (filter (is_open_for None 3) ([TwOpen None 3 1000 5] @ [TwCheck None 3 True 6, TwCheck None 3 True 7]))"
  using timed_request_pays_once [OF demo_timed] by blast

end
