(* ===== verification/Fail_Safe.thy ===== *)
theory Fail_Safe
  imports Msg_Ids Platform_Time
begin

text \<open>
  The fail-safe of commissioning (\<^verbatim>\<open>src/src/commissioning/failsafe.rs\<close>), a transaction with two timers, and the
  commissioning window (\<^verbatim>\<open>src/src/commissioning/window.rs\<close>).  Expiry is lazy: it happens when an operation looks
  at the clock it is given.
\<close>

section \<open>Data\<close>

datatype CommissioningError =
    CeOk | CeValueOutsideRange | CeInvalidAuthentication | CeNoFailSafe | CeBusyWithOtherAdmin
  | CeRequiredTcNotAccepted | CeTcAcknowledgementsNotReceived | CeTcMinVersionNotMet

fun commissioning_error_value :: "CommissioningError \<Rightarrow> u8" where
  "commissioning_error_value CeOk = 0"
| "commissioning_error_value CeValueOutsideRange = 1"
| "commissioning_error_value CeInvalidAuthentication = 2"
| "commissioning_error_value CeNoFailSafe = 3"
| "commissioning_error_value CeBusyWithOtherAdmin = 4"
| "commissioning_error_value CeRequiredTcNotAccepted = 5"
| "commissioning_error_value CeTcAcknowledgementsNotReceived = 6"
| "commissioning_error_value CeTcMinVersionNotMet = 7"

definition commissioning_error_is_ok :: "CommissioningError \<Rightarrow> bool" where
  "commissioning_error_is_ok e \<longleftrightarrow> e = CeOk"

definition DEFAULT_EXPIRY_SECONDS :: u16 where "DEFAULT_EXPIRY_SECONDS = 900"
definition DEFAULT_MAX_CUMULATIVE_SECONDS :: u16 where "DEFAULT_MAX_CUMULATIVE_SECONDS = 900"

record BasicCommissioningInfo =
  expiry_length_seconds :: u16
  max_cumulative_seconds :: u16

definition basic_info_default :: BasicCommissioningInfo where
  "basic_info_default = \<lparr>expiry_length_seconds = DEFAULT_EXPIRY_SECONDS,
     max_cumulative_seconds = DEFAULT_MAX_CUMULATIVE_SECONDS\<rparr>"

definition basic_info_is_valid :: "BasicCommissioningInfo \<Rightarrow> bool" where
  "basic_info_is_valid i \<longleftrightarrow> max_cumulative_seconds i \<ge> expiry_length_seconds i"

record Progress =
  added_noc :: bool
  updated_noc :: bool
  csr_requested :: bool
  added_trusted_root :: bool
  changed_networks :: bool

definition progress_default :: Progress where
  "progress_default = \<lparr>added_noc = False, updated_noc = False, csr_requested = False, added_trusted_root = False,
     changed_networks = False\<rparr>"

definition orphaned_operational_key :: "Progress \<Rightarrow> bool" where
  "orphaned_operational_key p \<longleftrightarrow> csr_requested p \<and> \<not> added_noc p \<and> \<not> updated_noc p"

record Armed =
  expires_at :: Instant
  cumulative_expires_at :: Instant
  ar_fabric_index :: "FabricIndex option"
  ar_progress :: Progress

record FailSafe =
  fs_info :: BasicCommissioningInfo
  fs_armed :: "Armed option"
  fs_breadcrumb :: u64

record Cleanup =
  close_pase_sessions :: bool
  close_case_sessions_for :: "FabricIndex option"
  restore_networks :: bool
  revert_noc_for :: "FabricIndex option"
  remove_fabric :: "FabricIndex option"
  discard_operational_key :: bool
  prune_trusted_roots :: bool

datatype ArmOutcome = ArmedOutcome | NoChange | Disarmed | Refused CommissioningError

record ArmResult =
  am_outcome :: ArmOutcome
  am_cleanup :: "Cleanup option"

record CompleteResult =
  cr_error :: CommissioningError
  cr_cleanup :: "Cleanup option"

fun outcome_error_code :: "ArmOutcome \<Rightarrow> CommissioningError" where
  "outcome_error_code (Refused e) = e"
| "outcome_error_code _ = CeOk"

section \<open>Operations\<close>

definition fs_new :: "BasicCommissioningInfo \<Rightarrow> FailSafe" where
  "fs_new info = \<lparr>fs_info = info, fs_armed = None, fs_breadcrumb = 0\<rparr>"

definition set_breadcrumb :: "u64 \<Rightarrow> FailSafe \<Rightarrow> FailSafe" where
  "set_breadcrumb v f = f\<lparr>fs_breadcrumb := v\<rparr>"

definition has_expired :: "Armed \<Rightarrow> Instant \<Rightarrow> bool" where
  "has_expired a now \<longleftrightarrow> now \<ge> expires_at a \<or> now \<ge> cumulative_expires_at a"

definition fs_is_armed :: "Instant \<Rightarrow> FailSafe \<Rightarrow> bool" where
  "fs_is_armed now f = (case fs_armed f of None \<Rightarrow> False | Some a \<Rightarrow> \<not> has_expired a now)"

definition armed_at :: "Instant \<Rightarrow> FailSafe \<Rightarrow> Armed option" where
  "armed_at now f = (case fs_armed f of None \<Rightarrow> None | Some a \<Rightarrow> if has_expired a now then None else Some a)"

definition fs_next_deadline :: "FailSafe \<Rightarrow> Instant option" where
  "fs_next_deadline f =
     map_option (\<lambda>a. if cumulative_expires_at a < expires_at a then cumulative_expires_at a else expires_at a) (fs_armed f)"

definition fs_deadline :: "Instant \<Rightarrow> u16 \<Rightarrow> Instant \<Rightarrow> Instant" where
  "fs_deadline now seconds cumulative =
     (let requested = instant_add now (from_secs (ucast seconds)) in
      if requested > cumulative then cumulative else requested)"

text \<open>\<^verbatim>\<open>b.then_some(x).flatten()\<close>.\<close>

definition then_some :: "bool \<Rightarrow> 'a option \<Rightarrow> 'a option" where
  "then_some b x = (if b then x else None)"

definition cleanup_of :: "Armed \<Rightarrow> Cleanup" where
  "cleanup_of a =
     (let p = ar_progress a in
      \<lparr>close_pase_sessions = True,
       close_case_sessions_for = then_some (added_noc p \<or> updated_noc p) (ar_fabric_index a),
       restore_networks = changed_networks p,
       revert_noc_for = then_some (updated_noc p) (ar_fabric_index a),
       remove_fabric = then_some (added_noc p) (ar_fabric_index a),
       discard_operational_key = orphaned_operational_key p,
       prune_trusted_roots = added_trusted_root p\<rparr>)"

definition expire_now :: "Armed \<Rightarrow> FailSafe \<Rightarrow> Cleanup \<times> FailSafe" where
  "expire_now a f = (cleanup_of a, f\<lparr>fs_armed := None, fs_breadcrumb := 0\<rparr>)"

definition fs_expire :: "Instant \<Rightarrow> FailSafe \<Rightarrow> Cleanup option \<times> FailSafe" where
  "fs_expire now f =
     (case fs_armed f of
        None \<Rightarrow> (None, f)
      | Some a \<Rightarrow>
          if \<not> has_expired a now then (None, f)
          else let (c, f) = expire_now a f in (Some c, f))"

text \<open>\<^verbatim>\<open>a.or(b)\<close>.\<close>

definition or_opt :: "'a option \<Rightarrow> 'a option \<Rightarrow> 'a option" where
  "or_opt a b = (case a of None \<Rightarrow> b | Some _ \<Rightarrow> a)"

definition fs_arm :: "u16 \<Rightarrow> u64 \<Rightarrow> FabricIndex option \<Rightarrow> Instant \<Rightarrow> bool \<Rightarrow> FailSafe \<Rightarrow> ArmResult \<times> FailSafe" where
  "fs_arm seconds breadcrumb accessing now window_open_over_case f =
     (let (lapsed, f) = fs_expire now f; live = armed_at now f in
      if live = None \<and> window_open_over_case
      then (\<lparr>am_outcome = Refused CeBusyWithOtherAdmin, am_cleanup = lapsed\<rparr>, f)
      else
        (case live of
           Some a \<Rightarrow>
             if seconds = 0 \<and> ar_fabric_index a = accessing then
               (let (c, f) = expire_now a f in (\<lparr>am_outcome = Disarmed, am_cleanup = or_opt lapsed (Some c)\<rparr>, f))
             else if seconds = 0 then (\<lparr>am_outcome = Refused CeBusyWithOtherAdmin, am_cleanup = lapsed\<rparr>, f)
             else if ar_fabric_index a = accessing then
               (\<lparr>am_outcome = ArmedOutcome, am_cleanup = lapsed\<rparr>,
                f\<lparr>fs_armed := Some (a\<lparr>expires_at := fs_deadline now seconds (cumulative_expires_at a)\<rparr>),
                  fs_breadcrumb := breadcrumb\<rparr>)
             else (\<lparr>am_outcome = Refused CeBusyWithOtherAdmin, am_cleanup = lapsed\<rparr>, f)
         | None \<Rightarrow>
             if seconds = 0 then (\<lparr>am_outcome = NoChange, am_cleanup = lapsed\<rparr>, f\<lparr>fs_breadcrumb := breadcrumb\<rparr>)
             else
               let cumulative = instant_add now (from_secs (ucast (max_cumulative_seconds (fs_info f)))) in
               (\<lparr>am_outcome = ArmedOutcome, am_cleanup = lapsed\<rparr>,
                f\<lparr>fs_armed := Some \<lparr>expires_at = fs_deadline now seconds cumulative, cumulative_expires_at = cumulative,
                    ar_fabric_index = accessing, ar_progress = progress_default\<rparr>,
                  fs_breadcrumb := breadcrumb\<rparr>)))"

definition fs_record :: "Instant \<Rightarrow> (Progress \<Rightarrow> Progress) \<Rightarrow> (FailSafe, unit) mutator" where
  "fs_record now g f =
     (case armed_at now f of
        None \<Rightarrow> (Inl InvalidState, f)
      | Some a \<Rightarrow> (Inr (), f\<lparr>fs_armed := Some (a\<lparr>ar_progress := g (ar_progress a)\<rparr>)\<rparr>))"

definition adopt_fabric :: "FabricIndex \<Rightarrow> Instant \<Rightarrow> (FailSafe, unit) mutator" where
  "adopt_fabric fabric now f =
     (case armed_at now f of
        None \<Rightarrow> (Inl InvalidState, f)
      | Some a \<Rightarrow> (Inr (), f\<lparr>fs_armed := Some (a\<lparr>ar_fabric_index := Some fabric\<rparr>)\<rparr>))"

definition fs_complete :: "bool \<Rightarrow> FabricIndex option \<Rightarrow> Instant \<Rightarrow> FailSafe \<Rightarrow> CompleteResult \<times> FailSafe" where
  "fs_complete over_case accessing now f =
     (let (lapsed, f) = fs_expire now f in
      case armed_at now f of
        None \<Rightarrow> (\<lparr>cr_error = CeNoFailSafe, cr_cleanup = lapsed\<rparr>, f)
      | Some a \<Rightarrow>
          if \<not> over_case then (\<lparr>cr_error = CeInvalidAuthentication, cr_cleanup = lapsed\<rparr>, f)
          else if accessing = None \<or> accessing \<noteq> ar_fabric_index a
            then (\<lparr>cr_error = CeInvalidAuthentication, cr_cleanup = lapsed\<rparr>, f)
          else (\<lparr>cr_error = CeOk, cr_cleanup = lapsed\<rparr>, f\<lparr>fs_armed := None, fs_breadcrumb := 0\<rparr>))"

section \<open>The commissioning window\<close>

datatype WindowStatus = NotOpen | EnhancedOpen | BasicOpen

fun window_status_value :: "WindowStatus \<Rightarrow> u8" where
  "window_status_value NotOpen = 0"
| "window_status_value EnhancedOpen = 1"
| "window_status_value BasicOpen = 2"

definition window_status_is_open :: "WindowStatus \<Rightarrow> bool" where
  "window_status_is_open s \<longleftrightarrow> s \<noteq> NotOpen"

record EphemeralVerifier =
  ev_verifier :: bytes
  ev_iterations :: u32
  ev_salt :: bytes

record OpenWindow =
  ow_status :: WindowStatus
  ow_expires_at :: Instant
  ow_admin_fabric :: "FabricIndex option"
  ow_admin_vendor :: "VendorId option"
  ow_discriminator :: u16
  ow_ephemeral :: "EphemeralVerifier option"

type_synonym CommissioningWindow = "OpenWindow option"

definition cwin_new :: CommissioningWindow where "cwin_new = None"

definition cwin_install :: "OpenWindow \<Rightarrow> CommissioningWindow \<Rightarrow> CommissioningWindow" where
  "cwin_install w _ = Some w"

definition cwin_open :: "Instant \<Rightarrow> CommissioningWindow \<Rightarrow> OpenWindow option" where
  "cwin_open now c = (case c of None \<Rightarrow> None | Some w \<Rightarrow> if now < ow_expires_at w then Some w else None)"

definition cwin_status :: "Instant \<Rightarrow> CommissioningWindow \<Rightarrow> WindowStatus" where
  "cwin_status now c = (case cwin_open now c of None \<Rightarrow> NotOpen | Some w \<Rightarrow> ow_status w)"

definition cwin_deadline :: "CommissioningWindow \<Rightarrow> Instant option" where
  "cwin_deadline c = map_option ow_expires_at c"

definition cwin_close :: "CommissioningWindow \<Rightarrow> CommissioningWindow" where "cwin_close c = None"

definition forget_fabric :: "FabricIndex \<Rightarrow> CommissioningWindow \<Rightarrow> CommissioningWindow" where
  "forget_fabric fabric c =
     map_option (\<lambda>w. if ow_admin_fabric w = Some fabric then w\<lparr>ow_admin_fabric := None\<rparr> else w) c"

definition cwin_ephemeral :: "Instant \<Rightarrow> CommissioningWindow \<Rightarrow> EphemeralVerifier option" where
  "cwin_ephemeral now c = Option.bind (cwin_open now c) ow_ephemeral"

section \<open>Histories\<close>

datatype FsEvent =
    FsArm u16 u64 "FabricIndex option" Instant bool
  | FsRecord Instant "Progress \<Rightarrow> Progress"
  | FsAdopt FabricIndex Instant
  | FsComplete bool "FabricIndex option" Instant
  | FsExpire Instant
  | FsBreadcrumb u64

text \<open>What an operation tells its caller to clean up, whether it completed the commissioning, and the state after.\<close>

fun fs_step :: "FsEvent \<Rightarrow> FailSafe \<Rightarrow> Cleanup option \<times> bool \<times> FailSafe" where
  "fs_step (FsArm s b acc now w) f = (let (r, f') = fs_arm s b acc now w f in (am_cleanup r, False, f'))"
| "fs_step (FsRecord now g) f = (None, False, snd (fs_record now g f))"
| "fs_step (FsAdopt x now) f = (None, False, snd (adopt_fabric x now f))"
| "fs_step (FsComplete case_session acc now) f =
     (let (r, f') = fs_complete case_session acc now f in (cr_cleanup r, cr_error r = CeOk, f'))"
| "fs_step (FsExpire now) f = (let (c, f') = fs_expire now f in (c, False, f'))"
| "fs_step (FsBreadcrumb v) f = (None, False, set_breadcrumb v f)"

fun fs_run :: "FsEvent list \<Rightarrow> FailSafe \<Rightarrow> FailSafe" where
  "fs_run [] f = f"
| "fs_run (e # es) f = fs_run es (snd (snd (fs_step e f)))"

text \<open>No operation of a history ends a context.\<close>

fun fs_undisturbed :: "FsEvent list \<Rightarrow> FailSafe \<Rightarrow> bool" where
  "fs_undisturbed [] f \<longleftrightarrow> True"
| "fs_undisturbed (e # es) f \<longleftrightarrow>
     (case fs_step e f of (c, ok, f') \<Rightarrow> c = None \<and> \<not> ok \<and> fs_undisturbed es f')"

definition event_progress :: "FsEvent \<Rightarrow> Progress \<Rightarrow> Progress" where
  "event_progress e p = (case e of FsRecord _ g \<Rightarrow> g p | _ \<Rightarrow> p)"

definition event_fabric :: "FsEvent \<Rightarrow> FabricIndex option \<Rightarrow> FabricIndex option" where
  "event_fabric e x = (case e of FsAdopt y _ \<Rightarrow> Some y | _ \<Rightarrow> x)"

lemma fs_deadline_le: "fs_deadline now s c \<le> c"
  by (simp add: fs_deadline_def Let_def not_less)

lemma armed_at_expired: "armed_at now (f\<lparr>fs_armed := None, fs_breadcrumb := b\<rparr>) = None"
  by (simp add: armed_at_def)

lemmas fs_defs = fs_arm_def fs_record_def adopt_fabric_def fs_complete_def fs_expire_def expire_now_def set_breadcrumb_def
  armed_at_def event_progress_def event_fabric_def or_opt_def Let_def

text \<open>An armed context goes on, with its progress and fabric as the operation left them and its cumulative timer untouched,
  or is completed, or is reported for clean-up as it stood.\<close>

lemma fs_step_armed:
  assumes "fs_armed f = Some a" and "fs_step e f = (c, ok, f')"
  shows "(c = None \<and> \<not> ok \<and> (\<exists>a'. fs_armed f' = Some a' \<and> cumulative_expires_at a' = cumulative_expires_at a
            \<and> (expires_at a' = expires_at a \<or> expires_at a' \<le> cumulative_expires_at a)
            \<and> ar_progress a' \<in> {ar_progress a, event_progress e (ar_progress a)}
            \<and> ar_fabric_index a' \<in> {ar_fabric_index a, event_fabric e (ar_fabric_index a)}))
    \<or> (c = None \<and> ok \<and> fs_armed f' = None)
    \<or> (c = Some (cleanup_of a) \<and> \<not> ok)"
  using assms by (cases e) (auto simp: fs_defs fs_deadline_le split: if_splits)

lemma fs_step_unarmed:
  "fs_armed f = None \<Longrightarrow> fs_step e f = (c, ok, f') \<Longrightarrow> c = None \<and> \<not> ok"
  by (cases e) (auto simp: fs_defs split: if_splits)

lemma fs_step_info: "fs_info (snd (snd (fs_step e f))) = fs_info f"
  by (cases e) (auto simp: fs_defs split: option.split)

lemma fs_run_append: "fs_run (es @ es') f = fs_run es' (fs_run es f)"
  by (induction es arbitrary: f) simp_all

lemma fs_run_info: "fs_info (fs_run es f) = fs_info f"
  by (induction es arbitrary: f) (simp_all add: fs_step_info)

lemma fs_undisturbed_snoc:
  "fs_undisturbed (es @ [e]) f \<longleftrightarrow> fs_undisturbed es f
     \<and> fst (fs_step e (fs_run es f)) = None \<and> \<not> fst (snd (fs_step e (fs_run es f)))"
  by (induction es arbitrary: f) (auto simp: case_prod_beta)

text \<open>A context that appears was armed now.\<close>

lemma fs_step_arms:
  assumes "fs_step e f = (c, ok, f')" and "fs_armed f' = Some a" and "fs_armed f = None \<or> c \<noteq> None"
  shows "\<exists>s b x now w. e = FsArm s b x now w \<and> armed_at now f = None
    \<and> cumulative_expires_at a = instant_add now (from_secs (ucast (max_cumulative_seconds (fs_info f))))
    \<and> expires_at a \<le> cumulative_expires_at a"
  using assms by (cases e) (auto simp: fs_defs fs_deadline_le split: if_splits option.splits)

text \<open>An operation that arms the fail-safe at an instant with no context live: the first \<^verbatim>\<open>ArmFailSafe\<close> of a context, and
  not one that re-arms it.\<close>

definition opens_context :: "FsEvent \<Rightarrow> Instant \<Rightarrow> FailSafe \<Rightarrow> bool" where
  "opens_context e t f \<longleftrightarrow> (\<exists>s b x w. e = FsArm s b x t w) \<and> armed_at t f = None"

lemma fs_context_origin:
  "fs_armed (fs_run es (fs_new info)) = Some a \<Longrightarrow>
    \<exists>es1 e es2 t. es = es1 @ e # es2 \<and> opens_context e t (fs_run es1 (fs_new info))
      \<and> fs_undisturbed es2 (fs_run (es1 @ [e]) (fs_new info))
      \<and> cumulative_expires_at a = instant_add t (from_secs (ucast (max_cumulative_seconds info)))
      \<and> expires_at a \<le> cumulative_expires_at a"
proof (induction es arbitrary: a rule: rev_induct)
  case Nil
  then show ?case by (simp add: fs_new_def)
next
  case (snoc e es)
  let ?f = "fs_run es (fs_new info)"
  obtain c ok f' where st: "fs_step e ?f = (c, ok, f')" by (cases "fs_step e ?f")
  have f': "fs_armed f' = Some a" using snoc.prems st by (simp add: fs_run_append)
  have info: "fs_info ?f = info" by (simp add: fs_run_info fs_new_def)
  show ?case
  proof (cases "fs_armed ?f = None \<or> c \<noteq> None")
    case True
    then show ?thesis using fs_step_arms [OF st f'] info
      by (intro exI [of _ es] exI [of _ e] exI [of _ "[]"]) (auto simp: opens_context_def)
  next
    case False
    then obtain a0 where a0: "fs_armed ?f = Some a0" "c = None" by auto
    from snoc.IH [OF a0(1)] obtain es1 e1 es2 t where
      h: "es = es1 @ e1 # es2" "opens_context e1 t (fs_run es1 (fs_new info))" "fs_undisturbed es2 (fs_run (es1 @ [e1]) (fs_new info))"
        "cumulative_expires_at a0 = instant_add t (from_secs (ucast (max_cumulative_seconds info)))"
        "expires_at a0 \<le> cumulative_expires_at a0" by blast
    have run: "fs_run es2 (fs_run (es1 @ [e1]) (fs_new info)) = ?f" using h(1) by (simp add: fs_run_append)
    have "\<not> ok" "cumulative_expires_at a = cumulative_expires_at a0" "expires_at a \<le> cumulative_expires_at a0"
      using fs_step_armed [OF a0(1) st] f' a0(2) h(5) by auto
    then show ?thesis using h st run a0(2)
      by (intro exI [of _ es1] exI [of _ e1] exI [of _ "es2 @ [e]"] exI [of _ t]) (simp add: fs_undisturbed_snoc)
  qed
qed

section \<open>Properties\<close>

text \<open>C20: Nothing a fail-safe covers is dropped in silence.  Whatever operation comes next, an armed context either
  goes on, still holding all that was recorded in it and with its cumulative timer unmoved, or is
  completed over CASE by the fabric it is scoped to before either timer ran out, or is handed to
  the caller for clean-up exactly as it stood; and nothing is reported when nothing was armed.\<close>

theorem failsafe_context_accounted:
  assumes "fs_step e f = (c, ok, f')"
  shows "case fs_armed f of
      None \<Rightarrow> c = None \<and> \<not> ok
    | Some a \<Rightarrow>
        (c = None \<and> \<not> ok \<and> (\<exists>a'. fs_armed f' = Some a' \<and> cumulative_expires_at a' = cumulative_expires_at a
            \<and> ar_progress a' \<in> {ar_progress a, event_progress e (ar_progress a)}
            \<and> ar_fabric_index a' \<in> {ar_fabric_index a, event_fabric e (ar_fabric_index a)}))
      \<or> (c = None \<and> ok \<and> fs_armed f' = None
          \<and> (\<exists>now. e = FsComplete True (ar_fabric_index a) now \<and> \<not> has_expired a now \<and> ar_fabric_index a \<noteq> None))
      \<or> (c = Some (cleanup_of a) \<and> \<not> ok)"
proof (cases "fs_armed f")
  case None
  then show ?thesis using fs_step_unarmed [OF None assms] by simp
next
  case (Some a)
  have "\<exists>now. e = FsComplete True (ar_fabric_index a) now \<and> \<not> has_expired a now \<and> ar_fabric_index a \<noteq> None" if ok
    using that assms Some by (cases e) (auto simp: fs_defs split: if_splits)
  then show ?thesis using fs_step_armed [OF Some assms] Some by auto
qed

text \<open>C23: Nobody holds a device for longer than the cumulative limit.  A context live at some instant was opened by an
  \<^verbatim>\<open>ArmFailSafe\<close> that found none live, and nothing since has ended it; however often it was re-armed in between, and
  for however long, it was opened less than \<^verbatim>\<open>MaxCumulativeFailsafeSeconds\<close> before, and the deadline the node waits for
  is not beyond that limit either.\<close>

theorem failsafe_hold_is_bounded:
  assumes "fs_is_armed now (fs_run es (fs_new info))"
  shows "\<exists>es1 e es2 t. es = es1 @ e # es2 \<and> opens_context e t (fs_run es1 (fs_new info))
    \<and> fs_undisturbed es2 (fs_run (es1 @ [e]) (fs_new info))
    \<and> now < instant_add t (from_secs (ucast (max_cumulative_seconds info)))
    \<and> (\<exists>d. fs_next_deadline (fs_run es (fs_new info)) = Some d \<and> now < d
        \<and> d \<le> instant_add t (from_secs (ucast (max_cumulative_seconds info))))"
proof -
  let ?f = "fs_run es (fs_new info)"
  obtain a where a: "fs_armed ?f = Some a" "now < expires_at a" "now < cumulative_expires_at a"
    using assms by (auto simp: fs_is_armed_def has_expired_def not_le split: option.splits)
  have d: "\<exists>d. fs_next_deadline ?f = Some d \<and> now < d \<and> d \<le> cumulative_expires_at a"
    using a by (auto simp: fs_next_deadline_def)
  from fs_context_origin [OF a(1)] obtain es1 e es2 t where
    "es = es1 @ e # es2" "opens_context e t (fs_run es1 (fs_new info))"
    "fs_undisturbed es2 (fs_run (es1 @ [e]) (fs_new info))"
    and t: "cumulative_expires_at a = instant_add t (from_secs (ucast (max_cumulative_seconds info)))" by blast
  then show ?thesis using a(3) d
    unfolding t by blast
qed

text \<open>Armed at 0 for a minute and re-armed at 30 seconds for as long as the field can say, the context ends with the
  cumulative limit counted from 0.\<close>

lemmas demo_fs_simps = fs_defs fs_new_def fs_is_armed_def has_expired_def fs_deadline_def instant_add_def from_secs_def
  saturating_add_def saturating_mul_def basic_info_default_def DEFAULT_MAX_CUMULATIVE_SECONDS_def

definition demo_rearmed :: "FsEvent list" where
  "demo_rearmed = [FsArm 60 1 None 0 False, FsArm 65535 2 None 30000000 False]"

lemma demo_failsafe: "fs_is_armed 800000000 (fs_run demo_rearmed (fs_new basic_info_default))"
  by (simp add: demo_rearmed_def demo_fs_simps)

lemma demo_not_reopened: "\<not> opens_context (FsArm 65535 2 None 30000000 False) t (fs_run [FsArm 60 1 None 0 False] (fs_new basic_info_default))"
  by (simp add: opens_context_def demo_fs_simps)

theorem failsafe_hold_is_bounded_witness:
  "\<exists>d. fs_next_deadline (fs_run demo_rearmed (fs_new basic_info_default)) = Some d
    \<and> d \<le> instant_add 0 (from_secs (ucast (max_cumulative_seconds basic_info_default)))"
proof -
  obtain es1 e es2 t where w: "demo_rearmed = es1 @ e # es2" "opens_context e t (fs_run es1 (fs_new basic_info_default))"
    "\<exists>d. fs_next_deadline (fs_run demo_rearmed (fs_new basic_info_default)) = Some d
        \<and> d \<le> instant_add t (from_secs (ucast (max_cumulative_seconds basic_info_default)))"
    using failsafe_hold_is_bounded [OF demo_failsafe] by blast
  then have "es1 = []" using demo_not_reopened [of t] by (auto simp: demo_rearmed_def Cons_eq_append_conv)
  then have "t = 0" using w(1,2) by (auto simp: opens_context_def demo_rearmed_def)
  then show ?thesis using w(3) by simp
qed

theorem failsafe_context_accounted_witness:
  "fst (fs_step (FsExpire 5) (fs_new basic_info_default)) = None"
  using failsafe_context_accounted [of "FsExpire 5" "fs_new basic_info_default" None False "fs_new basic_info_default"]
  by (simp add: fs_defs fs_new_def)

end
