(* ===== verification/Btp.thy ===== *)
theory Btp
  imports Msg_Security Platform_Time
begin

text \<open>
  The Bluetooth transport protocol (\<^verbatim>\<open>src/src/transport/btp.rs\<close>): the handshake, segmentation and reassembly, eight-bit
  sequence numbers, the sliding window and the acknowledgement timers of one end of a connection.
  \<^verbatim>\<open>Btp_Link\<close> puts two ends together.
\<close>

section \<open>Handshake\<close>

definition OPCODE_HANDSHAKE :: u8 where "OPCODE_HANDSHAKE = 0x6C"
definition BTP_VERSION :: u8 where "BTP_VERSION = 4"
definition MIN_ATT_MTU :: u16 where "MIN_ATT_MTU = 23"
definition GATT_HEADER :: u16 where "GATT_HEADER = 3"
definition MAX_SEGMENT :: u16 where "MAX_SEGMENT = 244"
definition ACK_TIMEOUT :: Duration where "ACK_TIMEOUT = from_secs 15"
definition CONN_IDLE_TIMEOUT :: Duration where "CONN_IDLE_TIMEOUT = from_secs 30"
definition SEND_ACK_TIMEOUT :: Duration where "SEND_ACK_TIMEOUT = from_secs 5"

definition BTP_BEGINNING :: u8 where "BTP_BEGINNING = 1"
definition BTP_CONTINUING :: u8 where "BTP_CONTINUING = 2"
definition BTP_ENDING :: u8 where "BTP_ENDING = 4"
definition BTP_ACK :: u8 where "BTP_ACK = 8"
definition BTP_MANAGEMENT :: u8 where "BTP_MANAGEMENT = 0x20"
definition BTP_HANDSHAKE :: u8 where "BTP_HANDSHAKE = 0x40"
definition HANDSHAKE_FLAGS :: u8 where "HANDSHAKE_FLAGS = 0x65"

lemmas btp_flag_defs = BTP_BEGINNING_def BTP_CONTINUING_def BTP_ENDING_def BTP_ACK_def BTP_MANAGEMENT_def
  BTP_HANDSHAKE_def contains_def

text \<open>\<^verbatim>\<open>Flags::from_bits_truncate\<close>: the undefined bits are dropped.\<close>

definition flags_from_bits_truncate :: "u8 \<Rightarrow> u8" where
  "flags_from_bits_truncate b = b AND 0x6F"

record HandshakeRequest =
  hr_versions :: bytes
  hr_att_mtu :: u16
  hr_window :: u8

definition handshake_request_new :: "u16 \<Rightarrow> u8 \<Rightarrow> HandshakeRequest" where
  "handshake_request_new mtu w = \<lparr>hr_versions = BTP_VERSION # replicate 7 0, hr_att_mtu = mtu, hr_window = w\<rparr>"

fun pack_versions :: "bytes \<Rightarrow> bytes" where
  "pack_versions (low # high # vs) = ((low AND 0x0F) OR push_bit 4 (high AND 0x0F)) # pack_versions vs"
| "pack_versions _ = []"

fun unpack_versions :: "bytes \<Rightarrow> bytes" where
  "unpack_versions [] = []"
| "unpack_versions (b # bs) = (b AND 0x0F) # drop_bit 4 b # unpack_versions bs"

fun put_all :: "bytes \<Rightarrow> (Cursor, unit) mutator" where
  "put_all [] = retE ()"
| "put_all (b # bs) = bindE (cursor_u8 b) (\<lambda>_. put_all bs)"

fun read_octets :: "nat \<Rightarrow> (Cursor, bytes) mutator" where
  "read_octets 0 = retE []"
| "read_octets (Suc n) = bindE cursor_read_u8 (\<lambda>b. bindE (read_octets n) (\<lambda>bs. retE (b # bs)))"

definition handshake_request_write :: "HandshakeRequest \<Rightarrow> (Cursor, unit) mutator" where
  "handshake_request_write r =
     bindE (cursor_u8 HANDSHAKE_FLAGS) (\<lambda>_.
     bindE (cursor_u8 OPCODE_HANDSHAKE) (\<lambda>_.
     bindE (put_all (pack_versions (hr_versions r))) (\<lambda>_.
     bindE (cursor_u16 (hr_att_mtu r)) (\<lambda>_.
     cursor_u8 (hr_window r)))))"

definition handshake_request_encode :: "HandshakeRequest \<Rightarrow> (bytes, nat) mutator" where
  "handshake_request_encode r = encode_into (handshake_request_write r)"

text \<open>\<^verbatim>\<open>a != x || b != y\<close> reads the second octet only when the first is right.\<close>

definition read_handshake_head :: "(Cursor, unit) mutator" where
  "read_handshake_head =
     bindE cursor_read_u8 (\<lambda>f.
     bindE (ensureE BtpMalformed (f = HANDSHAKE_FLAGS)) (\<lambda>_.
     bindE cursor_read_u8 (\<lambda>opc.
     ensureE BtpMalformed (opc = OPCODE_HANDSHAKE))))"

definition handshake_request_decode :: "bytes \<Rightarrow> HandshakeRequest result" where
  "handshake_request_decode buf =
     fst (bindE read_handshake_head (\<lambda>_.
          bindE (read_octets 4) (\<lambda>vs.
          bindE cursor_read_u16 (\<lambda>mtu.
          bindE cursor_read_u8 (\<lambda>w.
          retE \<lparr>hr_versions = unpack_versions vs, hr_att_mtu = mtu, hr_window = w\<rparr>))))
       (cursor_reader buf BtpMalformed))"

definition best_version :: "HandshakeRequest \<Rightarrow> u8 option" where
  "best_version r = List.find (\<lambda>v. v \<noteq> 0 \<and> v \<le> BTP_VERSION) (hr_versions r)"

record HandshakeResponse =
  hp_version :: u8
  hp_att_mtu :: u16
  hp_window :: u8

record SessionParams =
  sp_segment_size :: nat
  sp_window :: u8

definition handshake_response_write :: "HandshakeResponse \<Rightarrow> (Cursor, unit) mutator" where
  "handshake_response_write r =
     bindE (cursor_u8 HANDSHAKE_FLAGS) (\<lambda>_.
     bindE (cursor_u8 OPCODE_HANDSHAKE) (\<lambda>_.
     bindE (cursor_u8 (hp_version r AND 0x0F)) (\<lambda>_.
     bindE (cursor_u16 (hp_att_mtu r)) (\<lambda>_.
     cursor_u8 (hp_window r)))))"

definition handshake_response_encode :: "HandshakeResponse \<Rightarrow> (bytes, nat) mutator" where
  "handshake_response_encode r = encode_into (handshake_response_write r)"

definition handshake_response_decode :: "bytes \<Rightarrow> HandshakeResponse result" where
  "handshake_response_decode buf =
     fst (bindE read_handshake_head (\<lambda>_.
          bindE cursor_read_u8 (\<lambda>v.
          bindE cursor_read_u16 (\<lambda>mtu.
          bindE cursor_read_u8 (\<lambda>w.
          retE \<lparr>hp_version = v AND 0x0F, hp_att_mtu = mtu, hp_window = w\<rparr>))))
       (cursor_reader buf BtpMalformed))"

definition response_segment_size :: "HandshakeResponse \<Rightarrow> nat" where
  "response_segment_size r =
     (let mtu = (if hp_att_mtu r < MIN_ATT_MTU then MIN_ATT_MTU else hp_att_mtu r);
          usable = saturating_sub mtu GATT_HEADER in
      unat (if usable > MAX_SEGMENT then MAX_SEGMENT else usable))"

definition response_params :: "HandshakeResponse \<Rightarrow> SessionParams" where
  "response_params r = \<lparr>sp_segment_size = response_segment_size r, sp_window = hp_window r\<rparr>"

definition negotiate :: "HandshakeRequest \<Rightarrow> u16 \<Rightarrow> u8 \<Rightarrow> HandshakeResponse result" where
  "negotiate request own_att_mtu own_window =
     (case best_version request of
        None \<Rightarrow> Inl UnsupportedVersion
      | Some version \<Rightarrow>
          let requested = (if hr_att_mtu request = 0 then own_att_mtu else min (hr_att_mtu request) own_att_mtu);
              window = min (hr_window request) own_window in
          if window = 0 then Inl BtpMalformed
          else Inr \<lparr>hp_version = version, hp_att_mtu = max requested MIN_ATT_MTU, hp_window = window\<rparr>)"

section \<open>Frames\<close>

record Frame =
  fr_flags :: u8
  fr_ack :: "u8 option"
  fr_sequence :: u8
  fr_message_length :: "u16 option"
  fr_payload :: bytes

definition frame_read :: "(Cursor, Frame) mutator" where
  "frame_read =
     bindE cursor_read_u8 (\<lambda>b.
       let flags = flags_from_bits_truncate b in
       bindE (ensureE BtpMalformed (flags AND (BTP_HANDSHAKE OR BTP_MANAGEMENT) = 0)) (\<lambda>_.
       bindE (if contains flags BTP_ACK then bindE cursor_read_u8 (\<lambda>a. retE (Some a)) else retE None) (\<lambda>ack.
       bindE cursor_read_u8 (\<lambda>sequence.
       bindE (if contains flags BTP_BEGINNING then bindE cursor_read_u16 (\<lambda>l. retE (Some l)) else retE None) (\<lambda>len.
       bindE getE (\<lambda>c.
       retE \<lparr>fr_flags = flags, fr_ack = ack, fr_sequence = sequence, fr_message_length = len,
             fr_payload = cursor_rest c\<rparr>))))))"

definition frame_decode :: "bytes \<Rightarrow> Frame result" where
  "frame_decode buf = fst (frame_read (cursor_reader buf BtpMalformed))"

definition frame_header_len :: "bool \<Rightarrow> bool \<Rightarrow> nat" where
  "frame_header_len ack beginning = 2 + (if ack then 1 else 0) + (if beginning then 2 else 0)"

section \<open>One end of a connection\<close>

datatype BtpRole = BtpClient | BtpServer

datatype BtpReceived = BtpMessage | BtpPartial | BtpAck

record BtpSession =
  bt_role :: BtpRole
  bt_segment_size :: nat
  bt_max_window :: u8
  bt_tx_sequence :: u8
  bt_tx_acked :: u8
  bt_rx_sequence :: u8
  bt_rx_acked :: u8
  bt_pending_ack :: "u8 option"
  bt_send_ack_at :: "Instant option"
  bt_ack_deadline :: "Instant option"
  bt_last_data :: Instant
  bt_closed :: "ErrorCode option"
  bt_rx :: bytes
  bt_rx_len :: nat
  bt_rx_expected :: "u16 option"
  bt_tx :: bytes
  bt_tx_len :: nat
  bt_tx_sent :: nat
  bt_tx_active :: bool

text \<open>The parameter \<open>SDU\<close> is the const generic that sizes both buffers.\<close>

definition btp_new :: "nat \<Rightarrow> BtpRole \<Rightarrow> SessionParams \<Rightarrow> Instant \<Rightarrow> BtpSession" where
  "btp_new SDU role params now =
     (let (txs, rxs, pend, send_at, deadline) =
        (case role of
           BtpClient \<Rightarrow> (0, 0, Some 0, Some (instant_add now SEND_ACK_TIMEOUT), None)
         | BtpServer \<Rightarrow> (1, 255, None, None, Some (instant_add now ACK_TIMEOUT))) in
      \<lparr>bt_role = role, bt_segment_size = sp_segment_size params, bt_max_window = sp_window params,
       bt_tx_sequence = txs, bt_tx_acked = 255, bt_rx_sequence = rxs, bt_rx_acked = 255, bt_pending_ack = pend,
       bt_send_ack_at = send_at, bt_ack_deadline = deadline, bt_last_data = now, bt_closed = None,
       bt_rx = replicate SDU 0, bt_rx_len = 0, bt_rx_expected = None, bt_tx = replicate SDU 0, bt_tx_len = 0,
       bt_tx_sent = 0, bt_tx_active = False\<rparr>)"

definition btp_is_closed :: "BtpSession \<Rightarrow> bool" where "btp_is_closed s \<longleftrightarrow> bt_closed s \<noteq> None"

definition btp_guard :: "BtpSession \<Rightarrow> unit result" where
  "btp_guard s = (case bt_closed s of Some code \<Rightarrow> Inl code | None \<Rightarrow> Inr ())"

definition btp_fail :: "'a result \<Rightarrow> BtpSession \<Rightarrow> 'a result \<times> BtpSession" where
  "btp_fail r s = (r, case r of Inl e \<Rightarrow> s\<lparr>bt_closed := Some e\<rparr> | Inr _ \<Rightarrow> s)"

definition in_flight :: "BtpSession \<Rightarrow> u8" where
  "in_flight s = bt_tx_sequence s - bt_tx_acked s - 1"

definition remote_window :: "BtpSession \<Rightarrow> u8" where
  "remote_window s = saturating_sub (bt_max_window s) (in_flight s)"

definition own_window_free :: "BtpSession \<Rightarrow> u8" where
  "own_window_free s = saturating_sub (bt_max_window s) (bt_rx_sequence s - bt_rx_acked s)"

definition owes_ack :: "BtpSession \<Rightarrow> bool" where "owes_ack s \<longleftrightarrow> bt_pending_ack s \<noteq> None"

definition btp_send :: "bytes \<Rightarrow> (BtpSession, unit) mutator" where
  "btp_send sdu s =
     (case btp_guard s of
        Inl e \<Rightarrow> (Inl e, s)
      | Inr _ \<Rightarrow>
          if bt_tx_active s then (Inl Busy, s)
          else if sdu = [] then (Inl InvalidArgument, s)
          else if slice_get (bt_tx s) 0 (length sdu) = None then (Inl BufferTooSmall, s)
          else (Inr (), s\<lparr>bt_tx := overwrite (bt_tx s) 0 sdu, bt_tx_len := length sdu, bt_tx_sent := 0,
                          bt_tx_active := True\<rparr>))"

definition can_send :: "BtpSession \<Rightarrow> bool" where
  "can_send s =
     (if remote_window s = 0 then False else if remote_window s = 1 then bt_pending_ack s \<noteq> None else True)"

definition header_flags :: "bool \<Rightarrow> bool \<Rightarrow> nat \<Rightarrow> bool \<Rightarrow> u8" where
  "header_flags beginning ending payload_len ack =
     (if beginning then BTP_BEGINNING else if payload_len > 0 then BTP_CONTINUING else 0)
     OR (if ending then BTP_ENDING else 0) OR (if ack then BTP_ACK else 0)"

definition header_write :: "u8 \<Rightarrow> u8 option \<Rightarrow> u8 \<Rightarrow> nat option \<Rightarrow> (Cursor, unit) mutator" where
  "header_write flags ack sequence len =
     bindE (cursor_u8 flags) (\<lambda>_.
     bindE (case ack of None \<Rightarrow> retE () | Some a \<Rightarrow> cursor_u8 a) (\<lambda>_.
     bindE (cursor_u8 sequence) (\<lambda>_.
     case len of
       None \<Rightarrow> retE ()
     | Some l \<Rightarrow> if l < 65536 then cursor_u16 (word_of_nat l) else failE BufferTooSmall)))"

definition write_header :: "Instant \<Rightarrow> bool \<Rightarrow> bool \<Rightarrow> nat \<Rightarrow> (BtpSession \<times> bytes, nat) mutator" where
  "write_header now beginning ending payload_len st =
     (let (s, out) = st;
          ack = bt_pending_ack s;
          flags = header_flags beginning ending payload_len (ack \<noteq> None) in
      case encode_into (header_write flags ack (bt_tx_sequence s) (if beginning then Some (bt_tx_len s) else None)) out of
        (Inl e, out) \<Rightarrow> (Inl e, (s, out))
      | (Inr len, out) \<Rightarrow>
          let s = s\<lparr>bt_tx_sequence := bt_tx_sequence s + 1\<rparr>;
              s = (case ack of
                     None \<Rightarrow> s
                   | Some a \<Rightarrow> s\<lparr>bt_rx_acked := a, bt_pending_ack := None, bt_send_ack_at := None\<rparr>);
              s = (if bt_ack_deadline s = None then s\<lparr>bt_ack_deadline := Some (instant_add now ACK_TIMEOUT)\<rparr> else s) in
          (Inr len, (s, out)))"

definition ack_due :: "Instant \<Rightarrow> BtpSession \<Rightarrow> bool" where
  "ack_due now s \<longleftrightarrow> own_window_free s \<le> 2 \<or> (case bt_send_ack_at s of None \<Rightarrow> False | Some d \<Rightarrow> now \<ge> d)"

text \<open>The two saturating sums of \<^verbatim>\<open>poll_send_inner\<close> add a header of at most five octets, or a segment, to a length inside a
  buffer, and never saturate; they are written as plain sums.\<close>

definition poll_send_inner :: "Instant \<Rightarrow> (BtpSession \<times> bytes, nat option) mutator" where
  "poll_send_inner now st =
     (let s = fst st in
      if \<not> can_send s then (Inr None, st)
      else if \<not> bt_tx_active s then
        (if bt_pending_ack s \<noteq> None \<and> ack_due now s
         then bindE (write_header now False False 0) (\<lambda>n. retE (Some n)) st
         else (Inr None, st))
      else
        let remaining = bt_tx_len s - bt_tx_sent s;
            beginning = (bt_tx_sent s = 0);
            room = bt_segment_size s - frame_header_len (bt_pending_ack s \<noteq> None) beginning in
        if room = 0 then (Inl BufferTooSmall, st)
        else
          let tk = min remaining room;
              ending = (tk = remaining) in
          bindE (write_header now beginning ending tk) (\<lambda>at st.
            let (s, out) = st; e = at + tk; sent_to = bt_tx_sent s + tk in
            case (slice_get out at e, slice_get (bt_tx s) (bt_tx_sent s) sent_to) of
              (Some _, Some segment) \<Rightarrow>
                let s = s\<lparr>bt_tx_sent := sent_to, bt_last_data := now\<rparr>;
                    s = (if ending then s\<lparr>bt_tx_active := False, bt_tx_len := 0, bt_tx_sent := 0\<rparr> else s) in
                (Inr (Some e), (s, overwrite out at segment))
            | _ \<Rightarrow> (Inl BufferTooSmall, (s, out))) st)"

definition poll_send :: "Instant \<Rightarrow> (BtpSession \<times> bytes, nat option) mutator" where
  "poll_send now st =
     (case btp_guard (fst st) of
        Inl e \<Rightarrow> (Inl e, st)
      | Inr _ \<Rightarrow>
          let (r, (s, out)) = poll_send_inner now st; (r, s) = btp_fail r s in (r, (s, out)))"

text \<open>The four parts of \<^verbatim>\<open>receive_inner\<close>: the sequence number, the acknowledgement, where a message begins, and the payload.\<close>

definition receive_sequence :: "Frame \<Rightarrow> Instant \<Rightarrow> (BtpSession, unit) mutator" where
  "receive_sequence f now s =
     (if fr_sequence f \<noteq> bt_rx_sequence s + 1 then (Inl BtpSequence, s)
      else
        let s = s\<lparr>bt_rx_sequence := fr_sequence f\<rparr> in
        if bt_rx_sequence s - bt_rx_acked s > bt_max_window s then (Inl BtpSequence, s)
        else
          let s = s\<lparr>bt_pending_ack := Some (fr_sequence f)\<rparr> in
          (Inr (), if bt_send_ack_at s = None then s\<lparr>bt_send_ack_at := Some (instant_add now SEND_ACK_TIMEOUT)\<rparr> else s))"

definition receive_ack :: "Frame \<Rightarrow> Instant \<Rightarrow> (BtpSession, unit) mutator" where
  "receive_ack f now s =
     (case fr_ack f of
        None \<Rightarrow> (Inr (), s)
      | Some acked \<Rightarrow>
          let outstanding = in_flight s; newly = acked - bt_tx_acked s in
          if newly = 0 \<or> newly > outstanding then (Inl BtpSequence, s)
          else (Inr (), s\<lparr>bt_tx_acked := acked,
                  bt_ack_deadline := (if newly = outstanding then None else Some (instant_add now ACK_TIMEOUT))\<rparr>))"

definition receive_beginning :: "Frame \<Rightarrow> (BtpSession, unit) mutator" where
  "receive_beginning f s =
     (if contains (fr_flags f) BTP_BEGINNING then
        (if bt_rx_expected s \<noteq> None then (Inl BtpMalformed, s)
         else case fr_message_length f of
           None \<Rightarrow> (Inl BtpMalformed, s)
         | Some l \<Rightarrow>
             if unat l > length (bt_rx s) then (Inl BufferTooSmall, s)
             else (Inr (), s\<lparr>bt_rx_expected := Some l, bt_rx_len := 0\<rparr>))
      else if bt_rx_expected s = None then (Inl BtpMalformed, s)
      else (Inr (), s))"

definition receive_payload :: "Frame \<Rightarrow> (BtpSession, BtpReceived) mutator" where
  "receive_payload f s =
     (case usize_checked_add (bt_rx_len s) (length (fr_payload f)) of
        None \<Rightarrow> (Inl BufferTooSmall, s)
      | Some e \<Rightarrow>
          if slice_get (bt_rx s) (bt_rx_len s) e = None then (Inl BufferTooSmall, s)
          else
            let s = s\<lparr>bt_rx := overwrite (bt_rx s) (bt_rx_len s) (fr_payload f), bt_rx_len := e\<rparr> in
            if \<not> contains (fr_flags f) BTP_ENDING then (Inr BtpPartial, s)
            else case bt_rx_expected s of
                None \<Rightarrow> (Inl BtpMalformed, s)
              | Some expected \<Rightarrow>
                  let s = s\<lparr>bt_rx_expected := None\<rparr> in
                  if unat expected \<noteq> bt_rx_len s then (Inl BtpMalformed, s) else (Inr BtpMessage, s))"

definition receive_inner :: "bytes \<Rightarrow> Instant \<Rightarrow> (BtpSession, BtpReceived) mutator" where
  "receive_inner buf now =
     bindE (liftE (frame_decode buf)) (\<lambda>f.
     bindE (receive_sequence f now) (\<lambda>_.
     bindE (receive_ack f now) (\<lambda>_.
     if fr_payload f = [] \<and> \<not> contains (fr_flags f) BTP_BEGINNING then retE BtpAck
     else
       bindE (modifyE (\<lambda>s. s\<lparr>bt_last_data := now\<rparr>)) (\<lambda>_.
       bindE (receive_beginning f) (\<lambda>_.
       receive_payload f)))))"

definition btp_receive :: "bytes \<Rightarrow> Instant \<Rightarrow> (BtpSession, BtpReceived) mutator" where
  "btp_receive buf now s =
     (case btp_guard s of
        Inl e \<Rightarrow> (Inl e, s)
      | Inr _ \<Rightarrow> let (r, s) = receive_inner buf now s in btp_fail r s)"

definition btp_message :: "BtpSession \<Rightarrow> bytes" where
  "btp_message s = (case slice_get (bt_rx s) 0 (bt_rx_len s) of None \<Rightarrow> [] | Some m \<Rightarrow> m)"

definition take_message :: "BtpSession \<Rightarrow> BtpSession" where
  "take_message s = s\<lparr>bt_rx_len := 0, bt_rx_expected := None\<rparr>"

definition poll_timeout :: "Instant \<Rightarrow> (BtpSession, unit) mutator" where
  "poll_timeout now s =
     (case btp_guard s of
        Inl e \<Rightarrow> (Inl e, s)
      | Inr _ \<Rightarrow>
          if (case bt_ack_deadline s of None \<Rightarrow> False | Some d \<Rightarrow> now \<ge> d)
          then (Inl BtpTimeout, s\<lparr>bt_closed := Some BtpTimeout\<rparr>) else (Inr (), s))"

definition btp_is_idle :: "Instant \<Rightarrow> BtpSession \<Rightarrow> bool" where
  "btp_is_idle now s \<longleftrightarrow> duration_since now (bt_last_data s) \<ge> CONN_IDLE_TIMEOUT"

definition btp_wake_at :: "BtpSession \<Rightarrow> Instant option" where
  "btp_wake_at s =
     (case (bt_send_ack_at s, bt_ack_deadline s) of
        (Some a, Some b) \<Rightarrow> Some (if a \<le> b then a else b)
      | (Some a, None) \<Rightarrow> Some a
      | (None, b) \<Rightarrow> b)"

section \<open>The handshake on the wire\<close>

lemma emits_put_all: "emits (put_all bs) bs"
proof (induction bs)
  case Nil
  show ?case by (subst put_all.simps) (rule emits_ret)
next
  case (Cons b bs)
  have "emits (bindE (cursor_u8 b) (\<lambda>_. put_all bs)) ([b] @ bs)" by (intro emits_seq emits_uN Cons)
  then show ?case by simp
qed

lemma read_octets_ok:
  "reading c \<Longrightarrow> n \<le> length (cursor_rest c) \<Longrightarrow> read_octets n c = (Inr (take n (cursor_rest c)), skipped c n)"
proof (induction n arbitrary: c)
  case (Suc n)
  then obtain b bs where r: "cursor_rest c = b # bs" by (cases "cursor_rest c") auto
  have "read_octets n (skipped c 1) = (Inr (take n bs), skipped c (Suc n))"
    using Suc.IH [of "skipped c 1"] Suc.prems r by (simp add: skipped_skipped)
  then show ?case using Suc.prems r by (simp add: bindE_def)
qed simp

definition handshake_request_bytes :: "HandshakeRequest \<Rightarrow> bytes" where
  "handshake_request_bytes r =
     [HANDSHAKE_FLAGS, OPCODE_HANDSHAKE] @ pack_versions (hr_versions r) @ u16_bytes (hr_att_mtu r) @ [hr_window r]"

definition handshake_response_bytes :: "HandshakeResponse \<Rightarrow> bytes" where
  "handshake_response_bytes r =
     [HANDSHAKE_FLAGS, OPCODE_HANDSHAKE, hp_version r AND 0x0F] @ u16_bytes (hp_att_mtu r) @ [hp_window r]"

text \<open>A version list as the wire can carry it: eight nibbles.\<close>

definition versions_ok :: "bytes \<Rightarrow> bool" where
  "versions_ok vs \<longleftrightarrow> length vs = 8 \<and> (\<forall>v \<in> set vs. v < 16)"

lemma nibble: "v < 16 \<Longrightarrow> take_bit 4 (v :: u8) = v"
  by (simp add: take_bit_eq_mod mod_word_less)

lemma nibble_bit: "v < (16 :: u8) \<Longrightarrow> bit v n \<Longrightarrow> n < 4"
  using nibble [of v] bit_take_bit_iff [of 4 v n] by simp

lemma nibble_mask: "(v :: u8) AND 0x0F = take_bit 4 v"
  by (simp add: take_bit_eq_mask mask_eq_exp_minus_1)

lemma pack_nibbles:
  assumes "l < (16 :: u8)" and "h < 16"
  shows "take_bit 4 (l OR push_bit 4 h) = l" and "drop_bit 4 (l OR push_bit 4 h) = h"
  using nibble_bit [OF assms(1)] nibble_bit [OF assms(2)]
  by (auto intro!: bit_word_eqI simp: bit_simps) (metis add.commute not_add_less1)+

lemma unpack_pack: "even (length vs) \<Longrightarrow> \<forall>v \<in> set vs. v < 16 \<Longrightarrow> unpack_versions (pack_versions vs) = vs"
  by (induction vs rule: pack_versions.induct) (simp_all add: nibble_mask nibble pack_nibbles del: take_bit_or drop_bit_or)

lemma length_pack: "even (length vs) \<Longrightarrow> length (pack_versions vs) = length vs div 2"
  by (induction vs rule: pack_versions.induct) simp_all

lemma handshake_request_emits: "emits (handshake_request_write r) (handshake_request_bytes r)"
proof -
  have "emits (handshake_request_write r)
      ([HANDSHAKE_FLAGS] @ [OPCODE_HANDSHAKE] @ pack_versions (hr_versions r) @ u16_bytes (hr_att_mtu r) @ [hr_window r])"
    unfolding handshake_request_write_def by (intro emits_seq emits_uN emits_put_all)
  then show ?thesis by (simp add: handshake_request_bytes_def)
qed

lemma handshake_response_emits: "emits (handshake_response_write r) (handshake_response_bytes r)"
proof -
  have "emits (handshake_response_write r)
      ([HANDSHAKE_FLAGS] @ [OPCODE_HANDSHAKE] @ [hp_version r AND 0x0F] @ u16_bytes (hp_att_mtu r) @ [hp_window r])"
    unfolding handshake_response_write_def by (intro emits_seq emits_uN)
  then show ?thesis by (simp add: handshake_response_bytes_def)
qed

lemma read_handshake_head_ok:
  assumes "reading c" and "cursor_rest c = HANDSHAKE_FLAGS # OPCODE_HANDSHAKE # rest"
  shows "read_handshake_head c = (Inr (), skipped c 2)"
  using assms by (simp add: read_handshake_head_def bindE_def skipped_skipped eval_nat_numeral)

lemma handshake_request_decodes:
  assumes "versions_ok (hr_versions r)"
  shows "handshake_request_decode (handshake_request_bytes r) = Inr r"
proof -
  let ?b = "handshake_request_bytes r" let ?c = "cursor_reader ?b BtpMalformed"
  have l: "length (pack_versions (hr_versions r)) = 4" using assms length_pack [of "hr_versions r"] by (simp add: versions_ok_def)
  have rd: "reading ?c" using l by (simp add: handshake_request_bytes_def USIZE_MAX_def)
  have "read_handshake_head ?c = (Inr (), skipped ?c 2)"
    by (rule read_handshake_head_ok [OF rd]) (simp add: handshake_request_bytes_def)
  moreover have "unpack_versions (pack_versions (hr_versions r)) = hr_versions r"
    using assms by (intro unpack_pack) (auto simp: versions_ok_def)
  moreover have "read_octets 4 (skipped ?c 2) = (Inr (pack_versions (hr_versions r)), skipped ?c 6)"
    using read_octets_ok [of "skipped ?c 2" 4] rd l by (simp add: handshake_request_bytes_def skipped_skipped)
  ultimately show ?thesis
    using rd l unfolding handshake_request_decode_def
    by (simp add: bindE_def handshake_request_bytes_def skipped_skipped)
qed

lemma handshake_response_decodes:
  assumes "hp_version r < 16"
  shows "handshake_response_decode (handshake_response_bytes r) = Inr r"
proof -
  let ?b = "handshake_response_bytes r" let ?c = "cursor_reader ?b BtpMalformed"
  have rd: "reading ?c" by (simp add: handshake_response_bytes_def USIZE_MAX_def)
  have "read_handshake_head ?c = (Inr (), skipped ?c 2)"
    by (rule read_handshake_head_ok [OF rd]) (simp add: handshake_response_bytes_def)
  then show ?thesis
    using rd assms unfolding handshake_response_decode_def
    by (simp add: bindE_def handshake_response_bytes_def skipped_skipped nibble_mask nibble)
qed

section \<open>What a negotiation guarantees\<close>

lemma response_segment_bounds: "20 \<le> response_segment_size r" "response_segment_size r \<le> 244"
  by (auto simp: response_segment_size_def Let_def MIN_ATT_MTU_def GATT_HEADER_def MAX_SEGMENT_def word_less_nat_alt
      word_le_nat_alt unat_saturating_sub)

lemma negotiated:
  assumes "negotiate q mtu w = Inr r"
  shows "hp_version r \<noteq> 0" "hp_version r \<le> BTP_VERSION" "0 < hp_window r" "hp_window r \<le> hr_window q" "hp_window r \<le> w"
    "MIN_ATT_MTU \<le> hp_att_mtu r"
  using assms by (auto simp: negotiate_def Let_def best_version_def word_neq_0_conv dest!: find_SomeD split: option.splits if_splits)

section \<open>Frames on the wire\<close>

definition wire_frame :: "bool \<Rightarrow> bool \<Rightarrow> u8 option \<Rightarrow> u8 \<Rightarrow> nat \<Rightarrow> bytes \<Rightarrow> bytes" where
  "wire_frame b e ack seq len payload =
     [header_flags b e (length payload) (ack \<noteq> None)] @ (case ack of None \<Rightarrow> [] | Some a \<Rightarrow> [a]) @ [seq]
     @ (if b then u16_bytes (word_of_nat len) else []) @ payload"

definition decoded_frame :: "bool \<Rightarrow> bool \<Rightarrow> u8 option \<Rightarrow> u8 \<Rightarrow> nat \<Rightarrow> bytes \<Rightarrow> Frame" where
  "decoded_frame b e ack seq len payload =
     \<lparr>fr_flags = header_flags b e (length payload) (ack \<noteq> None), fr_ack = ack, fr_sequence = seq,
      fr_message_length = (if b then Some (word_of_nat len) else None), fr_payload = payload\<rparr>"

lemma header_flags_bits:
  "flags_from_bits_truncate (header_flags b e n a) = header_flags b e n a"
  "header_flags b e n a AND (BTP_HANDSHAKE OR BTP_MANAGEMENT) = 0"
  "contains (header_flags b e n a) BTP_ACK = a" "contains (header_flags b e n a) BTP_BEGINNING = b"
  "contains (header_flags b e n a) BTP_ENDING = e"
  by (cases b; cases e; cases a; cases "n > 0"; simp add: header_flags_def btp_flag_defs flags_from_bits_truncate_def)+

lemma frame_decodes:
  assumes "length (wire_frame b e ack seq len payload) \<le> USIZE_MAX"
  shows "frame_decode (wire_frame b e ack seq len payload) = Inr (decoded_frame b e ack seq len payload)"
proof -
  let ?c = "cursor_reader (wire_frame b e ack seq len payload) BtpMalformed"
  have rd: "reading ?c" using assms by simp
  have rest: "cursor_rest ?c = header_flags b e (length payload) (ack \<noteq> None) # (case ack of None \<Rightarrow> [] | Some a \<Rightarrow> [a])
      @ seq # (if b then u16_bytes (word_of_nat len) else []) @ payload"
    by (simp add: wire_frame_def)
  show ?thesis
    using rd rest unfolding frame_decode_def frame_read_def decoded_frame_def
    by (cases ack; cases b; simp add: bindE_def header_flags_bits skipped_skipped Let_def)
qed

lemma length_wire_frame:
  "length (wire_frame b e ack seq len payload) = frame_header_len (ack \<noteq> None) b + length payload"
  by (simp add: wire_frame_def frame_header_len_def split: option.split)

lemma header_emits:
  "(b \<longrightarrow> len < 65536) \<Longrightarrow> emits (header_write flags ack seq (if b then Some len else None))
     ([flags] @ (case ack of None \<Rightarrow> [] | Some a \<Rightarrow> [a]) @ [seq] @ (if b then u16_bytes (word_of_nat len) else []))"
  unfolding header_write_def
  by (intro emits_seq emits_uN) (auto intro: emits_ret emits_uN split: option.split)

section \<open>Sending one frame\<close>

text \<open>What sending a frame does to the sender's window and timers.\<close>

definition sent_state :: "Instant \<Rightarrow> BtpSession \<Rightarrow> BtpSession" where
  "sent_state now s =
     (let s = s\<lparr>bt_tx_sequence := bt_tx_sequence s + 1\<rparr>;
          s = (case bt_pending_ack s of
                 None \<Rightarrow> s
               | Some a \<Rightarrow> s\<lparr>bt_rx_acked := a, bt_pending_ack := None, bt_send_ack_at := None\<rparr>) in
      if bt_ack_deadline s = None then s\<lparr>bt_ack_deadline := Some (instant_add now ACK_TIMEOUT)\<rparr> else s)"

lemma write_header_room:
  assumes "b \<longrightarrow> bt_tx_len s < 65536" and "length out \<le> USIZE_MAX" and "frame_header_len (bt_pending_ack s \<noteq> None) b \<le> length out"
  shows "write_header now b e n (s, out) = (Inr (frame_header_len (bt_pending_ack s \<noteq> None) b),
      (sent_state now s, ([header_flags b e n (bt_pending_ack s \<noteq> None)] @ (case bt_pending_ack s of None \<Rightarrow> [] | Some a \<Rightarrow> [a])
        @ [bt_tx_sequence s] @ (if b then u16_bytes (word_of_nat (bt_tx_len s)) else []))
        @ drop (frame_header_len (bt_pending_ack s \<noteq> None) b) out))"
proof -
  let ?h = "[header_flags b e n (bt_pending_ack s \<noteq> None)] @ (case bt_pending_ack s of None \<Rightarrow> [] | Some a \<Rightarrow> [a])
        @ [bt_tx_sequence s] @ (if b then u16_bytes (word_of_nat (bt_tx_len s)) else [])"
  have l: "length ?h = frame_header_len (bt_pending_ack s \<noteq> None) b" by (simp add: frame_header_len_def split: option.split)
  have "length ?h \<le> length out" using assms(3) unfolding l .
  note en = encode_into_emits(1) [OF header_emits [OF assms(1)] assms(2), OF this, unfolded l]
  show ?thesis unfolding write_header_def Let_def prod.case sum.case en sent_state_def
    by (cases "bt_pending_ack s") simp_all
qed

text \<open>An end that can send: its window and buffers are in order.\<close>

definition tx_wf :: "BtpSession \<Rightarrow> bool" where
  "tx_wf s \<longleftrightarrow> bt_closed s = None \<and> 5 < bt_segment_size s \<and> length (bt_tx s) \<le> USIZE_MAX
     \<and> (bt_tx_active s \<longrightarrow> bt_tx_sent s < bt_tx_len s \<and> bt_tx_len s \<le> length (bt_tx s) \<and> bt_tx_len s < 65536)"

definition room_of :: "BtpSession \<Rightarrow> nat" where
  "room_of s = bt_segment_size s - frame_header_len (bt_pending_ack s \<noteq> None) (bt_tx_sent s = 0)"

definition segment_of :: "BtpSession \<Rightarrow> bytes" where
  "segment_of s = take (min (bt_tx_len s - bt_tx_sent s) (room_of s)) (drop (bt_tx_sent s) (bt_tx s))"

definition after_segment :: "Instant \<Rightarrow> BtpSession \<Rightarrow> BtpSession" where
  "after_segment now s =
     (let s' = (sent_state now s)\<lparr>bt_tx_sent := bt_tx_sent s + length (segment_of s), bt_last_data := now\<rparr> in
      if bt_tx_sent s + length (segment_of s) = bt_tx_len s
      then s'\<lparr>bt_tx_active := False, bt_tx_len := 0, bt_tx_sent := 0\<rparr> else s')"

lemma sent_state_fields [simp]:
  "bt_tx (sent_state now s) = bt_tx s" "bt_tx_len (sent_state now s) = bt_tx_len s"
  "bt_tx_sent (sent_state now s) = bt_tx_sent s" "bt_tx_active (sent_state now s) = bt_tx_active s"
  "bt_segment_size (sent_state now s) = bt_segment_size s" "bt_max_window (sent_state now s) = bt_max_window s"
  "bt_tx_sequence (sent_state now s) = bt_tx_sequence s + 1" "bt_tx_acked (sent_state now s) = bt_tx_acked s"
  "bt_rx_sequence (sent_state now s) = bt_rx_sequence s" "bt_pending_ack (sent_state now s) = None"
  "bt_rx_acked (sent_state now s) = (case bt_pending_ack s of None \<Rightarrow> bt_rx_acked s | Some a \<Rightarrow> a)"
  "bt_closed (sent_state now s) = bt_closed s" "bt_rx (sent_state now s) = bt_rx s"
  "bt_rx_len (sent_state now s) = bt_rx_len s" "bt_rx_expected (sent_state now s) = bt_rx_expected s"
  by (simp_all add: sent_state_def Let_def split: option.split)

lemma slice_get_total: "a \<le> b \<Longrightarrow> b \<le> length xs \<Longrightarrow> \<exists>z. slice_get xs a b = Some z"
  by (simp add: slice_get_def)

lemma overwrite_after: "length h = n \<Longrightarrow> overwrite (h @ drop n out) n seg = h @ seg @ drop (n + length seg) out"
  by (auto simp: overwrite_def add.commute)

lemma take_frame: "length h = n \<Longrightarrow> take (n + length seg) (h @ seg @ out) = h @ seg"
  by auto

lemma header_len_le: "frame_header_len a b \<le> 5" by (simp add: frame_header_len_def)

lemma room_pos: "tx_wf s \<Longrightarrow> 0 < room_of s"
  using header_len_le [of "bt_pending_ack s \<noteq> None" "bt_tx_sent s = 0"] by (simp add: tx_wf_def room_of_def)

lemma segment_length:
  assumes "tx_wf s" and "bt_tx_active s"
  shows "length (segment_of s) = min (bt_tx_len s - bt_tx_sent s) (room_of s)" "segment_of s \<noteq> []"
    "bt_tx_sent s + length (segment_of s) \<le> bt_tx_len s"
proof -
  show l: "length (segment_of s) = min (bt_tx_len s - bt_tx_sent s) (room_of s)"
    using assms by (auto simp: segment_of_def tx_wf_def min_def)
  then have "0 < length (segment_of s)" using room_pos [OF assms(1)] assms by (simp add: tx_wf_def)
  then show "segment_of s \<noteq> []" by auto
  show "bt_tx_sent s + length (segment_of s) \<le> bt_tx_len s" using l assms by (auto simp: tx_wf_def min_def)
qed

lemma poll_send_data:
  assumes wf: "tx_wf s" and act: "bt_tx_active s" and can: "can_send s"
    and out: "length out \<le> USIZE_MAX" "bt_segment_size s \<le> length out"
  shows "\<exists>n out'. poll_send now (s, out) = (Inr (Some n), (after_segment now s, out'))
    \<and> take n out' = wire_frame (bt_tx_sent s = 0) (bt_tx_sent s + length (segment_of s) = bt_tx_len s)
        (bt_pending_ack s) (bt_tx_sequence s) (bt_tx_len s) (segment_of s)
    \<and> n \<le> bt_segment_size s"
proof -
  let ?b = "bt_tx_sent s = 0" and ?e = "bt_tx_sent s + length (segment_of s) = bt_tx_len s"
  let ?hl = "frame_header_len (bt_pending_ack s \<noteq> None) ?b" and ?seg = "segment_of s"
  let ?h = "[header_flags ?b ?e (length ?seg) (bt_pending_ack s \<noteq> None)] @ (case bt_pending_ack s of None \<Rightarrow> [] | Some a \<Rightarrow> [a])
        @ [bt_tx_sequence s] @ (if ?b then u16_bytes (word_of_nat (bt_tx_len s)) else [])"
  note sl = segment_length [OF wf act]
  have rp: "0 < room_of s" by (rule room_pos [OF wf])
  define hl where "hl = ?hl"
  define h where "h = ?h"
  have lh: "length h = hl" by (simp add: h_def hl_def frame_header_len_def split: option.split)
  have tk: "min (bt_tx_len s - bt_tx_sent s) (room_of s) = length ?seg" using sl(1) by simp
  have en: "(length ?seg = bt_tx_len s - bt_tx_sent s) = ?e" using sl(3) by auto
  have room: "bt_segment_size s - ?hl = room_of s" by (simp add: room_of_def)
  have fits: "hl + length ?seg \<le> bt_segment_size s" using sl(1) rp by (simp add: room_of_def hl_def)
  have wh: "write_header now ?b ?e (length ?seg) (s, out) = (Inr hl, (sent_state now s, h @ drop hl out))"
    unfolding h_def hl_def by (rule write_header_room) (use wf act out fits in \<open>simp_all add: tx_wf_def hl_def\<close>)
  have "length (h @ drop hl out) = hl + (length out - hl)" using lh length_append [of h "drop hl out"] by (simp only: length_drop)
  then have "hl + length ?seg \<le> length (h @ drop hl out)" using fits out by linarith
  from slice_get_total [OF le_add1 this]
  obtain z where so: "slice_get (h @ drop hl out) hl (hl + length ?seg) = Some z" by blast
  have st: "slice_get (bt_tx s) (bt_tx_sent s) (bt_tx_sent s + length ?seg) = Some ?seg"
  proof -
    have "take (length ?seg) (drop (bt_tx_sent s) (bt_tx s)) = ?seg" unfolding sl(1) by (simp only: segment_of_def)
    then show ?thesis using sl(3) wf act by (simp add: slice_get_def tx_wf_def)
  qed
  have ow: "overwrite (h @ drop hl out) hl ?seg = h @ ?seg @ drop (hl + length ?seg) out"
    by (rule overwrite_after [OF lh])
  have inner: "poll_send_inner now (s, out) = (Inr (Some (hl + length ?seg)),
      (after_segment now s, h @ ?seg @ drop (hl + length ?seg) out))"
    using can act rp unfolding poll_send_inner_def Let_def fst_conv room tk en
    by (simp add: bindE_simps(2) [where m = "write_header now ?b ?e (length ?seg)", OF wh] so st ow after_segment_def Let_def)
  have tw: "take (hl + length ?seg) (h @ ?seg @ drop (hl + length ?seg) out) = h @ ?seg"
    by (rule take_frame [OF lh])
  show ?thesis
    using wf inner tw fits
    by (intro exI [of _ "hl + length ?seg"] exI [of _ "h @ ?seg @ drop (hl + length ?seg) out"])
      (simp add: poll_send_def btp_guard_def btp_fail_def tx_wf_def wire_frame_def h_def)
qed

lemma poll_send_ack:
  assumes wf: "tx_wf s" and act: "\<not> bt_tx_active s" and can: "can_send s" and owed: "bt_pending_ack s \<noteq> None" "ack_due now s"
    and out: "length out \<le> USIZE_MAX" "bt_segment_size s \<le> length out"
  shows "\<exists>n out'. poll_send now (s, out) = (Inr (Some n), (sent_state now s, out'))
    \<and> take n out' = wire_frame False False (bt_pending_ack s) (bt_tx_sequence s) l [] \<and> n \<le> bt_segment_size s"
proof -
  let ?h = "[header_flags False False 0 True] @ (case bt_pending_ack s of None \<Rightarrow> [] | Some a \<Rightarrow> [a]) @ [bt_tx_sequence s]"
  have wh: "write_header now False False 0 (s, out) = (Inr 3, (sent_state now s, ?h @ drop 3 out))"
    using write_header_room [of False s out now False 0] owed(1) out wf by (simp add: tx_wf_def frame_header_len_def)
  have "length ?h = 3" using owed(1) by auto
  then have "take 3 (?h @ drop 3 out) = ?h" by simp
  then show ?thesis
    using wf act can owed wh
    by (intro exI [of _ 3] exI [of _ "?h @ drop 3 out"])
      (simp add: poll_send_def poll_send_inner_def bindE_def btp_guard_def btp_fail_def tx_wf_def wire_frame_def)
qed

lemma poll_send_cases:
  assumes wf: "tx_wf s" and out: "length out \<le> USIZE_MAX" "bt_segment_size s \<le> length out"
  obtains (silent) "poll_send now (s, out) = (Inr None, (s, out))"
      "\<not> can_send s \<or> \<not> bt_tx_active s \<and> (bt_pending_ack s = None \<or> \<not> ack_due now s)"
  | (segment) n out' where "bt_tx_active s" "can_send s" "poll_send now (s, out) = (Inr (Some n), (after_segment now s, out'))"
      "take n out' = wire_frame (bt_tx_sent s = 0) (bt_tx_sent s + length (segment_of s) = bt_tx_len s)
        (bt_pending_ack s) (bt_tx_sequence s) (bt_tx_len s) (segment_of s)" "n \<le> bt_segment_size s"
  | (ack) n out' where "\<not> bt_tx_active s" "can_send s" "bt_pending_ack s \<noteq> None"
      "poll_send now (s, out) = (Inr (Some n), (sent_state now s, out'))"
      "take n out' = wire_frame False False (bt_pending_ack s) (bt_tx_sequence s) 0 []" "n \<le> bt_segment_size s"
proof (cases "can_send s")
  case False
  then show ?thesis using wf
    by (intro silent) (simp_all add: poll_send_def poll_send_inner_def btp_guard_def btp_fail_def tx_wf_def)
next
  case True
  show ?thesis
  proof (cases "bt_tx_active s")
    case act: True
    then show ?thesis using poll_send_data [OF wf act True out, of now] segment True by blast
  next
    case act: False
    show ?thesis
    proof (cases "bt_pending_ack s \<noteq> None \<and> ack_due now s")
      case t: True
      then show ?thesis using poll_send_ack [OF wf act True _ _ out, of now 0] act True ack by blast
    next
      case False
      then show ?thesis using wf act True
        by (intro silent) (auto simp: poll_send_def poll_send_inner_def btp_guard_def btp_fail_def tx_wf_def)
    qed
  qed
qed

end
