(* ===== verification/Btp_Link.thy ===== *)
theory Btp_Link
  imports Btp "HOL-Library.Sublist"
begin

text \<open>
  Two ends of the Bluetooth transport protocol and the link between them.  The ends are those of \<^verbatim>\<open>Btp\<close>
  (\<^verbatim>\<open>src/src/transport/btp.rs\<close>); the link is two queues of frames, which a Bluetooth connection delivers in order and without
  loss.  The reassembly of a message is stated abstractly (\<open>absorb\<close>) and the code's is shown to do the same; the window is
  an invariant on sequence numbers, frames on the wire and acknowledgements under way.  Shown at the end, for every
  interleaving: neither end ever closes on the other, messages arrive whole and in order, and the connection is never stuck.
\<close>

section \<open>Frames in transit\<close>

record LinkFrame =
  lf_beginning :: bool
  lf_ending :: bool
  lf_ack :: "u8 option"
  lf_sequence :: u8
  lf_length :: nat
  lf_payload :: bytes

definition octets_of :: "LinkFrame \<Rightarrow> bytes" where
  "octets_of f = wire_frame (lf_beginning f) (lf_ending f) (lf_ack f) (lf_sequence f) (lf_length f) (lf_payload f)"

section \<open>Reassembly, abstractly\<close>

text \<open>The part of a message received so far, with its announced length, and the messages completed.\<close>

type_synonym Reassembly = "(nat \<times> bytes) option \<times> bytes list"

definition absorb :: "nat \<Rightarrow> LinkFrame \<Rightarrow> Reassembly \<Rightarrow> Reassembly option" where
  "absorb cap f st =
     (if lf_payload f = [] \<and> \<not> lf_beginning f then Some st
      else
        (case (if lf_beginning f then (if fst st = None \<and> lf_length f \<le> cap then Some (lf_length f, []) else None) else fst st) of
           None \<Rightarrow> None
         | Some (l, acc) \<Rightarrow>
             if length acc + length (lf_payload f) > cap then None
             else if \<not> lf_ending f then Some (Some (l, acc @ lf_payload f), snd st)
             else if l = length acc + length (lf_payload f) then Some (None, snd st @ [acc @ lf_payload f])
             else None))"

fun absorb_all :: "nat \<Rightarrow> LinkFrame list \<Rightarrow> Reassembly \<Rightarrow> Reassembly option" where
  "absorb_all cap [] st = Some st"
| "absorb_all cap (f # fs) st = Option.bind (absorb cap f st) (absorb_all cap fs)"

lemma absorb_all_append: "absorb_all cap (fs @ fs') st = Option.bind (absorb_all cap fs st) (absorb_all cap fs')"
  by (induction fs arbitrary: st) (auto simp: Option.bind_assoc split: bind_splits)

text \<open>What an end has received of a message, and what it has sent of one.\<close>

definition rx_part :: "BtpSession \<Rightarrow> (nat \<times> bytes) option" where
  "rx_part s = map_option (\<lambda>l. (unat l, take (bt_rx_len s) (bt_rx s))) (bt_rx_expected s)"

definition tx_part :: "BtpSession \<Rightarrow> (nat \<times> bytes) option" where
  "tx_part s = (if bt_tx_active s \<and> 0 < bt_tx_sent s then Some (bt_tx_len s, take (bt_tx_sent s) (bt_tx s)) else None)"

definition rx_wf :: "BtpSession \<Rightarrow> bool" where
  "rx_wf s \<longleftrightarrow> bt_closed s = None \<and> length (bt_rx s) \<le> USIZE_MAX \<and> bt_rx_len s \<le> length (bt_rx s)"

lemma take_overwrite_end: "n \<le> length xs \<Longrightarrow> n + length ys \<le> length xs \<Longrightarrow> take (n + length ys) (overwrite xs n ys) = take n xs @ ys"
  by (simp add: overwrite_def)

text \<open>The payload half of \<^verbatim>\<open>receive_inner\<close> does what the abstract reassembly does.\<close>

lemma receive_data:
  assumes "absorb (length (bt_rx s)) f (rx_part s, got) = Some (part', got')" and "rx_wf s" and "lf_length f < 65536"
    and "\<not> (lf_payload f = [] \<and> \<not> lf_beginning f)"
    and "fr = decoded_frame (lf_beginning f) (lf_ending f) (lf_ack f) (lf_sequence f) (lf_length f) (lf_payload f)"
  shows "\<exists>r rx' len' ex'. bindE (receive_beginning fr) (\<lambda>_. receive_payload fr) s
      = (Inr r, s\<lparr>bt_rx := rx', bt_rx_len := len', bt_rx_expected := ex'\<rparr>)
    \<and> length rx' = length (bt_rx s) \<and> len' \<le> length rx' \<and> map_option (\<lambda>l. (unat l, take len' rx')) ex' = part'
    \<and> got' = got @ (if r = BtpMessage then [take len' rx'] else [])"
proof -
  let ?pl = "lf_payload f" and ?cap = "length (bt_rx s)"
  have fr: "contains (fr_flags fr) BTP_BEGINNING = lf_beginning f" "contains (fr_flags fr) BTP_ENDING = lf_ending f"
    "fr_payload fr = ?pl" "fr_message_length fr = (if lf_beginning f then Some (word_of_nat (lf_length f)) else None)"
    using assms(5) by (simp_all add: decoded_frame_def header_flags_bits)
  have ul: "unat (word_of_nat (lf_length f) :: u16) = lf_length f"
    using assms(3) by (simp add: unsigned_of_nat take_bit_nat_eq_self)
  have cap: "?cap \<le> USIZE_MAX" "bt_rx_len s \<le> ?cap" using assms(2) by (auto simp: rx_wf_def)
  obtain k ex acc where b: "receive_beginning fr s = (Inr (), s\<lparr>bt_rx_len := k, bt_rx_expected := Some ex\<rparr>)"
      and k: "k \<le> ?cap" "take k (bt_rx s) = acc"
      and a: "(if lf_beginning f then (if rx_part s = None \<and> lf_length f \<le> ?cap then Some (lf_length f, []) else None) else rx_part s)
        = Some (unat ex, acc)"
  proof (cases "lf_beginning f")
    case True
    then have c: "rx_part s = None" "lf_length f \<le> ?cap" using assms(1,4) by (auto simp: absorb_def split: if_splits)
    then have "receive_beginning fr s = (Inr (), s\<lparr>bt_rx_len := 0, bt_rx_expected := Some (word_of_nat (lf_length f))\<rparr>)"
      using True fr ul by (simp add: receive_beginning_def rx_part_def)
    then show ?thesis using that [where k = 0 and ex = "word_of_nat (lf_length f)" and acc = "[]"] True c ul by simp
  next
    case False
    then obtain L acc where c: "rx_part s = Some (L, acc)" using assms(1,4) by (auto simp: absorb_def split: if_splits option.splits)
    then obtain ex where ex: "bt_rx_expected s = Some ex" "unat ex = L" "take (bt_rx_len s) (bt_rx s) = acc" by (auto simp: rx_part_def)
    have "s\<lparr>bt_rx_len := bt_rx_len s, bt_rx_expected := Some ex\<rparr> = s" using ex(1) by simp
    then have "receive_beginning fr s = (Inr (), s\<lparr>bt_rx_len := bt_rx_len s, bt_rx_expected := Some ex\<rparr>)"
      using False fr ex(1) by (simp add: receive_beginning_def)
    then show ?thesis using that [where k = "bt_rx_len s" and ex = ex and acc = acc] False c ex cap by simp
  qed
  let ?s1 = "s\<lparr>bt_rx_len := k, bt_rx_expected := Some ex\<rparr>"
  have accl: "length acc = k" using k by auto
  have ab: "absorb ?cap f (rx_part s, got) = (if k + length ?pl > ?cap then None
      else if \<not> lf_ending f then Some (Some (unat ex, acc @ ?pl), got)
      else if unat ex = k + length ?pl then Some (None, got @ [acc @ ?pl]) else None)"
    using accl unfolding absorb_def fst_conv snd_conv a by (simp only: assms(4) if_False option.case prod.case)
  then have room: "k + length ?pl \<le> ?cap" using assms(1) by (auto split: if_splits)
  let ?rx = "overwrite (bt_rx s) k ?pl" and ?len = "k + length ?pl"
  have lr: "length ?rx = ?cap" "?len \<le> length ?rx" using room by (simp_all add: overwrite_def)
  have tk: "take ?len ?rx = acc @ ?pl" using take_overwrite_end [of k "bt_rx s" ?pl] room k by simp
  have u: "usize_checked_add k (length ?pl) = Some ?len" using room cap by (simp add: usize_checked_add_def)
  have sg: "slice_get (bt_rx s) k ?len \<noteq> None" using room by (simp add: slice_get_def)
  have bind: "bindE (receive_beginning fr) (\<lambda>_. receive_payload fr) s = receive_payload fr ?s1" using b by (simp add: bindE_def)
  show ?thesis
  proof (cases "lf_ending f")
    case False
    then have "receive_payload fr ?s1 = (Inr BtpPartial, s\<lparr>bt_rx := ?rx, bt_rx_len := ?len, bt_rx_expected := Some ex\<rparr>)"
      using u sg fr by (simp add: receive_payload_def)
    then show ?thesis using False ab assms(1) room tk lr unfolding bind
      by (intro exI [of _ BtpPartial] exI [of _ ?rx] exI [of _ ?len] exI [of _ "Some ex"]) auto
  next
    case True
    then have L: "unat ex = ?len" "part' = None" "got' = got @ [acc @ ?pl]" using ab assms(1) room by (auto split: if_splits)
    then have "receive_payload fr ?s1 = (Inr BtpMessage, s\<lparr>bt_rx := ?rx, bt_rx_len := ?len, bt_rx_expected := None\<rparr>)"
      using u sg fr True by (simp add: receive_payload_def Let_def)
    then show ?thesis using L tk lr unfolding bind
      by (intro exI [of _ BtpMessage] exI [of _ ?rx] exI [of _ ?len] exI [of _ None]) simp
  qed
qed

section \<open>Receiving one frame\<close>

text \<open>What a frame in sequence, within the window and with a sound acknowledgement does to the end that receives it.\<close>

lemma btp_receive_ok:
  assumes wf: "rx_wf s" and seq: "lf_sequence f = bt_rx_sequence s + 1"
    and win: "lf_sequence f - bt_rx_acked s \<le> bt_max_window s"
    and ack: "\<And>a. lf_ack f = Some a \<Longrightarrow> a \<noteq> bt_tx_acked s \<and> a - bt_tx_acked s \<le> in_flight s"
    and data: "absorb (length (bt_rx s)) f (rx_part s, got) = Some (part', got')"
    and len: "lf_length f < 65536" "length (octets_of f) \<le> USIZE_MAX"
  shows "\<exists>r s'. btp_receive (octets_of f) now s = (Inr r, s') \<and> rx_wf s' \<and> rx_part s' = part'
    \<and> got' = got @ (if r = BtpMessage then [btp_message s'] else [])
    \<and> bt_rx_sequence s' = lf_sequence f \<and> bt_rx_acked s' = bt_rx_acked s \<and> bt_pending_ack s' = Some (lf_sequence f)
    \<and> bt_send_ack_at s' \<noteq> None \<and> bt_tx_acked s' = (case lf_ack f of None \<Rightarrow> bt_tx_acked s | Some a \<Rightarrow> a)
    \<and> bt_tx_sequence s' = bt_tx_sequence s \<and> bt_max_window s' = bt_max_window s \<and> bt_segment_size s' = bt_segment_size s
    \<and> bt_tx s' = bt_tx s \<and> bt_tx_len s' = bt_tx_len s \<and> bt_tx_sent s' = bt_tx_sent s \<and> bt_tx_active s' = bt_tx_active s
    \<and> length (bt_rx s') = length (bt_rx s)"
proof -
  let ?fr = "decoded_frame (lf_beginning f) (lf_ending f) (lf_ack f) (lf_sequence f) (lf_length f) (lf_payload f)"
  have d: "frame_decode (octets_of f) = Inr ?fr" using len(2) unfolding octets_of_def by (rule frame_decodes)
  have fr: "fr_sequence ?fr = lf_sequence f" "fr_ack ?fr = lf_ack f" "fr_payload ?fr = lf_payload f"
    "contains (fr_flags ?fr) BTP_BEGINNING = lf_beginning f"
    by (simp_all add: decoded_frame_def header_flags_bits)
  have cl: "bt_closed s = None" using wf by (simp add: rx_wf_def)
  obtain due where q: "receive_sequence ?fr now s
      = (Inr (), s\<lparr>bt_rx_sequence := lf_sequence f, bt_pending_ack := Some (lf_sequence f), bt_send_ack_at := Some due\<rparr>)"
  proof (cases "bt_send_ack_at s")
    case None
    then show ?thesis using that [of "instant_add now SEND_ACK_TIMEOUT"] fr(1) seq win
      by (simp add: receive_sequence_def Let_def not_less)
  next
    case (Some t)
    then show ?thesis using that [of t] fr(1) seq win by (simp add: receive_sequence_def Let_def not_less)
  qed
  let ?s1 = "s\<lparr>bt_rx_sequence := lf_sequence f, bt_pending_ack := Some (lf_sequence f), bt_send_ack_at := Some due\<rparr>"
  obtain dl where k: "receive_ack ?fr now ?s1 = (Inr (), ?s1\<lparr>bt_tx_acked := (case lf_ack f of None \<Rightarrow> bt_tx_acked s | Some a \<Rightarrow> a),
      bt_ack_deadline := dl\<rparr>)"
  proof (cases "lf_ack f")
    case None
    then show ?thesis using that [of "bt_ack_deadline s"] fr(2) by (simp add: receive_ack_def)
  next
    case (Some a)
    then have a: "a - bt_tx_acked s \<noteq> 0" "\<not> in_flight s < a - bt_tx_acked s" using ack [OF Some] by auto
    have "in_flight ?s1 = in_flight s" by (simp add: in_flight_def)
    then show ?thesis using a Some fr(2) that by (simp add: receive_ack_def Let_def)
  qed
  let ?s2 = "?s1\<lparr>bt_tx_acked := (case lf_ack f of None \<Rightarrow> bt_tx_acked s | Some a \<Rightarrow> a), bt_ack_deadline := dl\<rparr>"
  show ?thesis
  proof (cases "lf_payload f = [] \<and> \<not> lf_beginning f")
    case True
    then have "btp_receive (octets_of f) now s = (Inr BtpAck, ?s2)"
      using cl d q k fr by (simp add: btp_receive_def btp_guard_def receive_inner_def bindE_def btp_fail_def)
    moreover have "part' = rx_part s" "got' = got" using data True by (auto simp: absorb_def)
    ultimately show ?thesis using wf by (intro exI [of _ BtpAck] exI [of _ ?s2]) (simp add: rx_wf_def rx_part_def)
  next
    case False
    let ?s3 = "?s2\<lparr>bt_last_data := now\<rparr>"
    have p3: "rx_part ?s3 = rx_part s" "rx_wf ?s3" using wf by (simp_all add: rx_part_def rx_wf_def)
    have "absorb (length (bt_rx ?s3)) f (rx_part ?s3, got) = Some (part', got')" using data p3(1) by simp
    from receive_data [OF this p3(2) len(1) False refl] obtain r rx' len' ex' where
      b: "bindE (receive_beginning ?fr) (\<lambda>_. receive_payload ?fr) ?s3 = (Inr r, ?s3\<lparr>bt_rx := rx', bt_rx_len := len', bt_rx_expected := ex'\<rparr>)"
        "length rx' = length (bt_rx s)" "len' \<le> length rx'" "map_option (\<lambda>l. (unat l, take len' rx')) ex' = part'"
        "got' = got @ (if r = BtpMessage then [take len' rx'] else [])" by auto
    let ?s4 = "?s3\<lparr>bt_rx := rx', bt_rx_len := len', bt_rx_expected := ex'\<rparr>"
    have "receive_inner (octets_of f) now s = (Inr r, ?s4)"
      using d q k fr b(1) by (simp add: receive_inner_def bindE_def False)
    then have "btp_receive (octets_of f) now s = (Inr r, ?s4)"
      using cl by (simp add: btp_receive_def btp_guard_def btp_fail_def)
    moreover have "btp_message ?s4 = take len' rx'" using b(3) by (simp add: btp_message_def slice_get_def)
    ultimately show ?thesis using b wf
      by (intro exI [of _ r] exI [of _ ?s4]) (simp add: rx_wf_def rx_part_def)
  qed
qed

section \<open>The window\<close>

text \<open>Consecutive sequence numbers, and acknowledgements that advance.\<close>

fun seq_chain :: "u8 \<Rightarrow> LinkFrame list \<Rightarrow> u8 \<Rightarrow> bool" where
  "seq_chain c [] e \<longleftrightarrow> c = e"
| "seq_chain c (f # fs) e \<longleftrightarrow> lf_sequence f = c \<and> seq_chain (c + 1) fs e"

fun ack_chain :: "u8 \<Rightarrow> u8 list \<Rightarrow> u8 \<Rightarrow> nat \<Rightarrow> bool" where
  "ack_chain c [] e d \<longleftrightarrow> c = e \<and> d = 0"
| "ack_chain c (a # as) e d \<longleftrightarrow> (\<exists>k d'. 1 \<le> k \<and> d = k + d' \<and> a = c + word_of_nat k \<and> ack_chain a as e d')"

definition acks :: "LinkFrame list \<Rightarrow> u8 list" where
  "acks fs = List.map_filter lf_ack fs"

lemma acks_simps [simp]:
  "acks [] = []" "acks (f # fs) = (case lf_ack f of None \<Rightarrow> acks fs | Some a \<Rightarrow> a # acks fs)"
  "acks (fs @ gs) = acks fs @ acks gs"
  by (simp_all add: acks_def map_filter_def split: option.split)

lemma seq_chain_snoc: "seq_chain c fs e \<Longrightarrow> lf_sequence f = e \<Longrightarrow> seq_chain c (fs @ [f]) (e + 1)"
  by (induction fs arbitrary: c) simp_all

lemma ack_chain_snoc:
  "ack_chain c as e d \<Longrightarrow> 1 \<le> k \<Longrightarrow> ack_chain c (as @ [e + word_of_nat k]) (e + word_of_nat k) (d + k)"
proof (induction as arbitrary: c d)
  case (Cons a as)
  then obtain j d' where j: "1 \<le> j" "d = j + d'" "a = c + word_of_nat j" "ack_chain a as e d'" by auto
  from Cons.IH [OF j(4) Cons.prems(2)] j show ?case
    unfolding append_Cons ack_chain.simps by (intro exI [of _ j] exI [of _ "d' + k"]) simp
qed (auto intro!: exI [of _ k])

definition unacked :: "BtpSession \<Rightarrow> nat" where
  "unacked y = unat (bt_rx_sequence y - bt_rx_acked y)"

text \<open>One direction: the frames \<open>q\<close> from \<open>x\<close> on their way to \<open>y\<close>, and those on their way back, \<open>p\<close>.  What \<open>x\<close> has outstanding
  is what is on the wire, what \<open>y\<close> holds and has not acknowledged, and what the acknowledgements under way cover.\<close>

definition win_inv :: "BtpSession \<Rightarrow> BtpSession \<Rightarrow> LinkFrame list \<Rightarrow> LinkFrame list \<Rightarrow> bool" where
  "win_inv x y q p \<longleftrightarrow> bt_max_window x = bt_max_window y \<and> seq_chain (bt_rx_sequence y + 1) q (bt_tx_sequence x)
     \<and> (\<exists>d. ack_chain (bt_tx_acked x) (acks p) (bt_rx_acked y) d
          \<and> d + unacked y + length q = unat (in_flight x))
     \<and> in_flight x \<le> bt_max_window x
     \<and> bt_pending_ack y = (if bt_rx_sequence y = bt_rx_acked y then None else Some (bt_rx_sequence y))"

lemma remote_window_pos: "can_send x \<Longrightarrow> in_flight x < bt_max_window x"
  by (auto simp: can_send_def remote_window_def word_less_nat_alt word_unat_eq_iff unat_saturating_sub split: if_splits)

lemma unat_plus_one: "(w :: u8) < m \<Longrightarrow> unat (w + 1) = unat w + 1"
  using unat_lt_len [of m] by (simp add: unat_word_ariths word_less_nat_alt)

lemma unat_of_small: "k < 256 \<Longrightarrow> unat (word_of_nat k :: u8) = k"
  by (simp add: unsigned_of_nat take_bit_nat_eq_self)

lemma unat_u8: "unat (w :: u8) < 256"
  using unat_lt_len [of w] by simp

lemma win_send_fwd:
  assumes "win_inv x y q p" and "can_send x" and "lf_sequence f = bt_tx_sequence x"
    and "bt_tx_sequence x' = bt_tx_sequence x + 1" "bt_tx_acked x' = bt_tx_acked x" "bt_max_window x' = bt_max_window x"
  shows "win_inv x' y (q @ [f]) p"
proof -
  have lt: "in_flight x < bt_max_window x" using assms(2) by (rule remote_window_pos)
  have "in_flight x' = in_flight x + 1" using assms(4,5) by (simp add: in_flight_def)
  then have u: "unat (in_flight x') = unat (in_flight x) + 1" using unat_plus_one [OF lt] by simp
  moreover have "in_flight x' \<le> bt_max_window x'" using u lt assms(6) by (simp add: word_le_nat_alt word_less_nat_alt)
  ultimately show ?thesis
    using assms seq_chain_snoc [of "bt_rx_sequence y + 1" q "bt_tx_sequence x" f] by (auto simp: win_inv_def)
qed

lemma win_send_back:
  assumes "win_inv y x p q" and "lf_ack f = bt_pending_ack x"
    and "bt_rx_acked x' = (case bt_pending_ack x of None \<Rightarrow> bt_rx_acked x | Some a \<Rightarrow> a)" "bt_rx_sequence x' = bt_rx_sequence x"
      "bt_pending_ack x' = None" "bt_max_window x' = bt_max_window x"
  shows "win_inv y x' p (q @ [f])"
proof (cases "bt_pending_ack x")
  case None
  then have "bt_rx_sequence x = bt_rx_acked x" using assms(1) by (auto simp: win_inv_def split: if_splits)
  then show ?thesis using assms None by (auto simp: win_inv_def unacked_def)
next
  case (Some a)
  then have a: "a = bt_rx_sequence x" "bt_rx_sequence x \<noteq> bt_rx_acked x" using assms(1) by (auto simp: win_inv_def split: if_splits)
  have k: "1 \<le> unacked x" using a(2) by (simp add: unacked_def Suc_le_eq unat_gt_0)
  have e: "a = bt_rx_acked x + word_of_nat (unacked x)" using a(1) by (simp add: unacked_def)
  obtain d where d: "ack_chain (bt_tx_acked y) (acks q) (bt_rx_acked x) d" "d + unacked x + length p = unat (in_flight y)"
    using assms(1) by (auto simp: win_inv_def)
  have c: "ack_chain (bt_tx_acked y) (acks (q @ [f])) a (d + unacked x)"
    using ack_chain_snoc [OF d(1) k] assms(2) Some e by simp
  have z: "unacked x' = 0" "bt_rx_acked x' = a" "bt_rx_sequence x' = a" using assms(3,4) Some a(1) by (simp_all add: unacked_def)
  have "ack_chain (bt_tx_acked y) (acks (q @ [f])) (bt_rx_acked x') (d + unacked x)
      \<and> (d + unacked x) + unacked x' + length p = unat (in_flight y)" using c d(2) z by simp
  then show ?thesis using assms(1,4-6) z a(1) unfolding win_inv_def by auto
qed

lemma win_recv_fwd:
  assumes "win_inv x y (f # q) p"
  shows "lf_sequence f = bt_rx_sequence y + 1" and "lf_sequence f - bt_rx_acked y \<le> bt_max_window y"
    and "bt_rx_sequence y' = lf_sequence f \<Longrightarrow> bt_rx_acked y' = bt_rx_acked y \<Longrightarrow> bt_pending_ack y' = Some (lf_sequence f) \<Longrightarrow>
      bt_max_window y' = bt_max_window y \<Longrightarrow> win_inv x y' q p"
proof -
  show s: "lf_sequence f = bt_rx_sequence y + 1" using assms by (simp add: win_inv_def)
  obtain d where d: "ack_chain (bt_tx_acked x) (acks p) (bt_rx_acked y) d" "d + unacked y + length (f # q) = unat (in_flight x)"
    using assms by (auto simp: win_inv_def)
  have w: "unat (in_flight x) \<le> unat (bt_max_window y)" using assms unfolding win_inv_def word_le_nat_alt by metis
  have "unacked y + 1 < 256" using d(2) unat_u8 [of "in_flight x"] unfolding length_Cons by linarith
  moreover have e: "lf_sequence f - bt_rx_acked y = word_of_nat (unacked y) + 1" using s by (simp add: unacked_def)
  ultimately have u: "unat (lf_sequence f - bt_rx_acked y) = unacked y + 1"
    using unat_of_small [of "unacked y + 1"] by (simp add: add.commute)
  show "lf_sequence f - bt_rx_acked y \<le> bt_max_window y" using u d(2) w by (simp add: word_le_nat_alt)
  assume y': "bt_rx_sequence y' = lf_sequence f" "bt_rx_acked y' = bt_rx_acked y" "bt_pending_ack y' = Some (lf_sequence f)"
    "bt_max_window y' = bt_max_window y"
  have uy: "unacked y' = unacked y + 1" using u y' by (simp add: unacked_def)
  have "lf_sequence f \<noteq> bt_rx_acked y" using u by auto
  then show "win_inv x y' q p" using assms y' s d uy unfolding win_inv_def by (auto intro!: exI [of _ d])
qed

lemma win_recv_back:
  assumes "win_inv x y q (f # p)"
  shows "lf_ack f = Some a \<Longrightarrow> a \<noteq> bt_tx_acked x \<and> a - bt_tx_acked x \<le> in_flight x"
    and "bt_tx_acked x' = (case lf_ack f of None \<Rightarrow> bt_tx_acked x | Some a \<Rightarrow> a) \<Longrightarrow> bt_tx_sequence x' = bt_tx_sequence x \<Longrightarrow>
      bt_max_window x' = bt_max_window x \<Longrightarrow> win_inv x' y q p"
proof -
  obtain d where d: "ack_chain (bt_tx_acked x) (acks (f # p)) (bt_rx_acked y) d" "d + unacked y + length q = unat (in_flight x)"
    using assms by (auto simp: win_inv_def)
  have k: "\<exists>k d'. 1 \<le> k \<and> d = k + d' \<and> a = bt_tx_acked x + word_of_nat k \<and> ack_chain a (acks p) (bt_rx_acked y) d'
      \<and> unat (word_of_nat k :: u8) = k" if "lf_ack f = Some a" for a
  proof -
    have "ack_chain (bt_tx_acked x) (a # acks p) (bt_rx_acked y) d" using d(1) that by simp
    then obtain k d' where k: "1 \<le> k" "d = k + d'" "a = bt_tx_acked x + word_of_nat k" "ack_chain a (acks p) (bt_rx_acked y) d'"
      by auto
    then have "k < 256" using d(2) unat_u8 [of "in_flight x"] by linarith
    then show ?thesis using k unat_of_small [of k] by blast
  qed
  show "lf_ack f = Some a \<Longrightarrow> a \<noteq> bt_tx_acked x \<and> a - bt_tx_acked x \<le> in_flight x"
    using k [of a] d(2) by (auto simp: word_le_nat_alt)
  assume x': "bt_tx_acked x' = (case lf_ack f of None \<Rightarrow> bt_tx_acked x | Some a \<Rightarrow> a)" "bt_tx_sequence x' = bt_tx_sequence x"
    "bt_max_window x' = bt_max_window x"
  show "win_inv x' y q p"
  proof (cases "lf_ack f")
    case None
    then show ?thesis using assms x' by (auto simp: win_inv_def in_flight_def)
  next
    case (Some a)
    then obtain k d' where k: "1 \<le> k" "d = k + d'" "a = bt_tx_acked x + word_of_nat k" "ack_chain a (acks p) (bt_rx_acked y) d'"
        "unat (word_of_nat k :: u8) = k" using k by blast
    have "in_flight x' = in_flight x - word_of_nat k" using x' Some k(3) by (simp add: in_flight_def)
    moreover have "word_of_nat k \<le> in_flight x" using k(2,5) d(2) by (simp add: word_le_nat_alt)
    ultimately have u: "unat (in_flight x') = unat (in_flight x) - k" using k(5) by (simp add: unat_sub)
    then have "in_flight x' \<le> bt_max_window x'" using assms x'(3) by (auto simp: win_inv_def word_le_nat_alt)
    moreover have "d' + unacked y + length q = unat (in_flight x')" using u d(2) k(2) by simp
    ultimately show ?thesis using assms x' Some k(4) unfolding win_inv_def by auto
  qed
qed

section \<open>The data\<close>

text \<open>What \<open>x\<close> was given to send is what \<open>y\<close> will have once it has received the frames \<open>q\<close>, and then what \<open>x\<close> still has to segment.\<close>

definition data_inv :: "BtpSession \<Rightarrow> BtpSession \<Rightarrow> LinkFrame list \<Rightarrow> bytes list \<Rightarrow> bytes list \<Rightarrow> bool" where
  "data_inv x y q sent got \<longleftrightarrow> tx_wf x \<and> rx_wf y \<and> bt_segment_size x \<le> USIZE_MAX
     \<and> (bt_tx_active x \<longrightarrow> bt_tx_len x \<le> length (bt_rx y))
     \<and> (\<exists>complete. absorb_all (length (bt_rx y)) q (rx_part y, got) = Some (tx_part x, complete)
          \<and> sent = complete @ (if bt_tx_active x then [take (bt_tx_len x) (bt_tx x)] else []))
     \<and> (\<forall>f \<in> set q. lf_length f < 65536 \<and> length (octets_of f) \<le> bt_segment_size x)"

lemma data_inv_frame:
  "bt_closed x' = bt_closed x \<Longrightarrow> bt_segment_size x' = bt_segment_size x \<Longrightarrow> bt_tx x' = bt_tx x \<Longrightarrow> bt_tx_len x' = bt_tx_len x \<Longrightarrow>
   bt_tx_sent x' = bt_tx_sent x \<Longrightarrow> bt_tx_active x' = bt_tx_active x \<Longrightarrow>
   bt_closed y' = bt_closed y \<Longrightarrow> bt_rx y' = bt_rx y \<Longrightarrow> bt_rx_len y' = bt_rx_len y \<Longrightarrow> bt_rx_expected y' = bt_rx_expected y \<Longrightarrow>
   data_inv x' y' q sent got = data_inv x y q sent got"
  by (simp add: data_inv_def tx_wf_def rx_wf_def tx_part_def rx_part_def)

lemma segment_split: "take (bt_tx_sent s) (bt_tx s) @ segment_of s = take (bt_tx_sent s + length (segment_of s)) (bt_tx s)"
proof -
  have "take (length (take n xs)) xs = take n xs" for n and xs :: bytes by (cases "n \<le> length xs") simp_all
  then have "take (length (segment_of s)) (drop (bt_tx_sent s) (bt_tx s)) = segment_of s" by (simp only: segment_of_def)
  then show ?thesis by (simp add: take_add)
qed

definition segment_frame :: "BtpSession \<Rightarrow> LinkFrame" where
  "segment_frame x = \<lparr>lf_beginning = (bt_tx_sent x = 0), lf_ending = (bt_tx_sent x + length (segment_of x) = bt_tx_len x),
     lf_ack = bt_pending_ack x, lf_sequence = bt_tx_sequence x, lf_length = bt_tx_len x, lf_payload = segment_of x\<rparr>"

definition ack_frame :: "BtpSession \<Rightarrow> LinkFrame" where
  "ack_frame x = \<lparr>lf_beginning = False, lf_ending = False, lf_ack = bt_pending_ack x, lf_sequence = bt_tx_sequence x,
     lf_length = 0, lf_payload = []\<rparr>"

lemma after_segment_fields [simp]:
  "bt_tx_sequence (after_segment now s) = bt_tx_sequence s + 1" "bt_tx_acked (after_segment now s) = bt_tx_acked s"
  "bt_max_window (after_segment now s) = bt_max_window s" "bt_segment_size (after_segment now s) = bt_segment_size s"
  "bt_rx_sequence (after_segment now s) = bt_rx_sequence s" "bt_pending_ack (after_segment now s) = None"
  "bt_rx_acked (after_segment now s) = (case bt_pending_ack s of None \<Rightarrow> bt_rx_acked s | Some a \<Rightarrow> a)"
  "bt_closed (after_segment now s) = bt_closed s" "bt_rx (after_segment now s) = bt_rx s"
  "bt_rx_len (after_segment now s) = bt_rx_len s" "bt_rx_expected (after_segment now s) = bt_rx_expected s"
  "bt_tx (after_segment now s) = bt_tx s"
  by (simp_all add: after_segment_def Let_def)

lemma absorb_segment:
  assumes wf: "tx_wf x" and act: "bt_tx_active x" and cap: "bt_tx_len x \<le> cap"
  shows "\<exists>complete'. absorb cap (segment_frame x) (tx_part x, complete) = Some (tx_part (after_segment now x), complete')
    \<and> complete @ [take (bt_tx_len x) (bt_tx x)]
      = complete' @ (if bt_tx_active (after_segment now x) then [take (bt_tx_len (after_segment now x)) (bt_tx x)] else [])"
proof -
  note sl = segment_length [OF wf act]
  let ?seg = "segment_of x" and ?to = "bt_tx_sent x + length (segment_of x)"
  have acc: "(if bt_tx_sent x = 0 then (if tx_part x = None \<and> bt_tx_len x \<le> cap then Some (bt_tx_len x, []) else None) else tx_part x)
      = Some (bt_tx_len x, take (bt_tx_sent x) (bt_tx x))"
    using act cap by (simp add: tx_part_def)
  have la: "length (take (bt_tx_sent x) (bt_tx x)) = bt_tx_sent x" using wf act by (simp add: tx_wf_def)
  have ab: "absorb cap (segment_frame x) (tx_part x, complete) =
      (if ?to \<noteq> bt_tx_len x then Some (Some (bt_tx_len x, take ?to (bt_tx x)), complete)
       else Some (None, complete @ [take ?to (bt_tx x)]))"
  proof -
    define seg where "seg = segment_of x"
    have "seg \<noteq> []" "bt_tx_sent x + length seg \<le> bt_tx_len x" using sl(2,3) by (simp_all add: seg_def)
    moreover define h where "h = take (bt_tx_sent x) (bt_tx x)"
    moreover have "length h = bt_tx_sent x" "take (bt_tx_sent x + length seg) (bt_tx x) = h @ seg"
      using la segment_split [of x] by (simp_all add: h_def seg_def)
    ultimately show ?thesis
      using cap unfolding absorb_def segment_frame_def fst_conv snd_conv LinkFrame.simps acc seg_def [symmetric] h_def [symmetric]
      by auto
  qed
  show ?thesis
  proof (cases "?to = bt_tx_len x")
    case True
    then have "tx_part (after_segment now x) = None" "\<not> bt_tx_active (after_segment now x)"
      by (simp_all add: after_segment_def tx_part_def Let_def)
    then show ?thesis using ab True by simp
  next
    case False
    then have "bt_tx_active (after_segment now x)" "bt_tx_len (after_segment now x) = bt_tx_len x"
        "tx_part (after_segment now x) = Some (bt_tx_len x, take ?to (bt_tx x))"
      using act sl(2) by (simp_all add: after_segment_def tx_part_def Let_def)
    then show ?thesis using ab False by simp
  qed
qed

lemma after_segment_wf: "tx_wf x \<Longrightarrow> bt_tx_active x \<Longrightarrow> tx_wf (after_segment now x)"
  using segment_length(3) [of x] by (auto simp: tx_wf_def after_segment_def Let_def)

lemma data_send_segment:
  assumes "data_inv x y q sent got" and "bt_tx_active x" and "length (octets_of (segment_frame x)) \<le> bt_segment_size x"
  shows "data_inv (after_segment now x) y (q @ [segment_frame x]) sent got"
proof -
  have wf: "tx_wf x" and cap: "bt_tx_len x \<le> length (bt_rx y)" using assms by (auto simp: data_inv_def)
  obtain complete where c: "absorb_all (length (bt_rx y)) q (rx_part y, got) = Some (tx_part x, complete)"
      "sent = complete @ [take (bt_tx_len x) (bt_tx x)]" using assms(1,2) by (auto simp: data_inv_def)
  obtain complete' where c': "absorb (length (bt_rx y)) (segment_frame x) (tx_part x, complete) = Some (tx_part (after_segment now x), complete')"
      "sent = complete' @ (if bt_tx_active (after_segment now x) then [take (bt_tx_len (after_segment now x)) (bt_tx x)] else [])"
    using absorb_segment [OF wf assms(2) cap, of complete now] c(2) by auto
  have "bt_tx_active (after_segment now x) \<longrightarrow> bt_tx_len (after_segment now x) \<le> length (bt_rx y)"
    using cap by (auto simp: after_segment_def Let_def)
  moreover have "lf_length (segment_frame x) < 65536" using wf assms(2) by (simp add: segment_frame_def tx_wf_def)
  ultimately show ?thesis
    using assms after_segment_wf [OF wf assms(2), of now] c c' unfolding data_inv_def by (auto simp: absorb_all_append)
qed

lemma data_send_ack:
  assumes "data_inv x y q sent got" and "length (octets_of (ack_frame x)) \<le> bt_segment_size x"
  shows "data_inv (sent_state now x) y (q @ [ack_frame x]) sent got"
proof -
  have "data_inv x y (q @ [ack_frame x]) sent got"
    using assms unfolding data_inv_def by (auto simp: absorb_all_append absorb_def ack_frame_def)
  then show ?thesis by (subst data_inv_frame [where x = x and y = y]) simp_all
qed

lemma btp_send_Inr:
  assumes "btp_send sdu x = (Inr (), x')"
  shows "\<not> bt_tx_active x" "sdu \<noteq> []" "length sdu \<le> length (bt_tx x)"
    "x' = x\<lparr>bt_tx := overwrite (bt_tx x) 0 sdu, bt_tx_len := length sdu, bt_tx_sent := 0, bt_tx_active := True\<rparr>"
  using assms by (auto simp: btp_send_def slice_get_def split: sum.splits if_splits)

lemma data_accept:
  assumes "data_inv x y q sent got" and "btp_send sdu x = (Inr (), x')" and "length sdu \<le> length (bt_rx y)" "length sdu < 65536"
  shows "data_inv x' y q (sent @ [sdu]) got"
proof -
  note s = btp_send_Inr [OF assms(2)]
  have "tx_part x = None" "tx_part x' = None" "bt_tx_active x'" "take (bt_tx_len x') (bt_tx x') = sdu"
    using s by (simp_all add: tx_part_def overwrite_def)
  moreover have "tx_wf x'" using assms(1,4) s by (auto simp: data_inv_def tx_wf_def overwrite_def)
  ultimately show ?thesis using assms s unfolding data_inv_def by auto
qed

lemma data_recv:
  assumes "data_inv x y (f # q) sent got"
  obtains part' got' where "absorb (length (bt_rx y)) f (rx_part y, got) = Some (part', got')" "lf_length f < 65536"
    "length (octets_of f) \<le> USIZE_MAX" "rx_wf y"
    "\<And>y'. rx_wf y' \<Longrightarrow> rx_part y' = part' \<Longrightarrow> length (bt_rx y') = length (bt_rx y) \<Longrightarrow> data_inv x y' q sent got'"
proof -
  obtain complete where c: "absorb_all (length (bt_rx y)) (f # q) (rx_part y, got) = Some (tx_part x, complete)"
      "sent = complete @ (if bt_tx_active x then [take (bt_tx_len x) (bt_tx x)] else [])" using assms by (auto simp: data_inv_def)
  then obtain st where st: "absorb (length (bt_rx y)) f (rx_part y, got) = Some st" "absorb_all (length (bt_rx y)) q st = Some (tx_part x, complete)"
    by (auto simp: bind_eq_Some_conv)
  obtain part' got' where p: "st = (part', got')" by (cases st)
  show ?thesis
  proof (rule that [of part' got'])
    show "absorb (length (bt_rx y)) f (rx_part y, got) = Some (part', got')" using st(1) p by simp
    show "lf_length f < 65536" "rx_wf y" "length (octets_of f) \<le> USIZE_MAX" using assms by (auto simp: data_inv_def)
    fix y'
    assume "rx_wf y'" "rx_part y' = part'" "length (bt_rx y') = length (bt_rx y)"
    then show "data_inv x y' q sent got'" using assms st(2) p c(2) unfolding data_inv_def by auto
  qed
qed

section \<open>Two ends and the two wires between them\<close>

text \<open>The model of a connection: the two ends, the frames on the wire in each direction, and what each end's user has handed over
  and been handed.\<close>

record Link =
  le_a :: BtpSession
  le_b :: BtpSession
  wire_ab :: "bytes list"
  wire_ba :: "bytes list"
  sent_a :: "bytes list"
  sent_b :: "bytes list"
  got_a :: "bytes list"
  got_b :: "bytes list"

definition swap_ends :: "Link \<Rightarrow> Link" where
  "swap_ends l = \<lparr>le_a = le_b l, le_b = le_a l, wire_ab = wire_ba l, wire_ba = wire_ab l, sent_a = sent_b l, sent_b = sent_a l,
     got_a = got_b l, got_b = got_a l\<rparr>"

text \<open>What an end can be asked to do: take a message to send, fill a buffer with its next frame, take the next frame off the wire,
  release the message it has delivered.\<close>

datatype LinkEvent = Offer bytes | Poll Instant bytes | Deliver Instant | Release

definition link_offer :: "bytes \<Rightarrow> Link \<Rightarrow> Link" where
  "link_offer sdu l =
     (let (r, x) = btp_send sdu (le_a l) in
      l\<lparr>le_a := x, sent_a := sent_a l @ (if r = Inr () then [sdu] else [])\<rparr>)"

definition link_poll :: "Instant \<Rightarrow> bytes \<Rightarrow> Link \<Rightarrow> Link" where
  "link_poll now out l =
     (let (r, x, out') = poll_send now (le_a l, out) in
      l\<lparr>le_a := x, wire_ab := wire_ab l @ (case r of Inr (Some n) \<Rightarrow> [take n out'] | _ \<Rightarrow> [])\<rparr>)"

definition link_deliver :: "Instant \<Rightarrow> Link \<Rightarrow> Link" where
  "link_deliver now l =
     (case wire_ba l of
        [] \<Rightarrow> l
      | buf # rest \<Rightarrow>
          let (r, x) = btp_receive buf now (le_a l) in
          l\<lparr>le_a := x, wire_ba := rest, got_a := got_a l @ (if r = Inr BtpMessage then [btp_message x] else [])\<rparr>)"

primrec end_acts :: "LinkEvent \<Rightarrow> Link \<Rightarrow> Link" where
  "end_acts (Offer sdu) l = link_offer sdu l"
| "end_acts (Poll now out) l = link_poll now out l"
| "end_acts (Deliver now) l = link_deliver now l"
| "end_acts Release l = l\<lparr>le_a := take_message (le_a l)\<rparr>"

text \<open>The demands on the users: a message fits the other end's buffer and the header's length field, a buffer for a frame holds a
  segment, and a message is released between messages only.\<close>

primrec event_ok :: "LinkEvent \<Rightarrow> Link \<Rightarrow> bool" where
  "event_ok (Offer sdu) l \<longleftrightarrow> length sdu \<le> length (bt_rx (le_b l)) \<and> length sdu < 65536"
| "event_ok (Poll now out) l \<longleftrightarrow> bt_segment_size (le_a l) \<le> length out \<and> length out \<le> USIZE_MAX"
| "event_ok (Deliver now) l \<longleftrightarrow> True"
| "event_ok Release l \<longleftrightarrow> bt_rx_expected (le_a l) = None"

inductive link_step :: "Link \<Rightarrow> Link \<Rightarrow> bool" where
  a_acts: "event_ok e l \<Longrightarrow> link_step l (end_acts e l)"
| b_acts: "event_ok e (swap_ends l) \<Longrightarrow> link_step l (swap_ends (end_acts e (swap_ends l)))"

definition link_start :: "nat \<Rightarrow> SessionParams \<Rightarrow> Instant \<Rightarrow> Instant \<Rightarrow> Link" where
  "link_start SDU params ta tb = \<lparr>le_a = btp_new SDU BtpClient params ta, le_b = btp_new SDU BtpServer params tb,
     wire_ab = [], wire_ba = [], sent_a = [], sent_b = [], got_a = [], got_b = []\<rparr>"

section \<open>The invariant of a connection\<close>

text \<open>Beside the two windows and the two streams: a connection whose windows are both full has an acknowledgement on a wire, and
  one with nothing on a wire has an end that owes an acknowledgement and will send it when its timer is due.\<close>

definition acks_moving :: "BtpSession \<Rightarrow> BtpSession \<Rightarrow> LinkFrame list \<Rightarrow> LinkFrame list \<Rightarrow> bool" where
  "acks_moving x y q p \<longleftrightarrow>
     (in_flight x = bt_max_window x \<and> in_flight y = bt_max_window y \<longrightarrow> acks q \<noteq> [] \<or> acks p \<noteq> [])
     \<and> (q \<noteq> [] \<or> p \<noteq> [] \<or> bt_pending_ack x \<noteq> None \<or> bt_pending_ack y \<noteq> None)
     \<and> (bt_pending_ack x \<noteq> None \<longrightarrow> bt_send_ack_at x \<noteq> None) \<and> (bt_pending_ack y \<noteq> None \<longrightarrow> bt_send_ack_at y \<noteq> None)"

definition queues_inv :: "SessionParams \<Rightarrow> Link \<Rightarrow> LinkFrame list \<Rightarrow> LinkFrame list \<Rightarrow> bool" where
  "queues_inv pr l q p \<longleftrightarrow> wire_ab l = map octets_of q \<and> wire_ba l = map octets_of p
     \<and> bt_max_window (le_a l) = sp_window pr \<and> 0 < sp_window pr
     \<and> bt_segment_size (le_a l) = sp_segment_size pr \<and> bt_segment_size (le_b l) = sp_segment_size pr
     \<and> win_inv (le_a l) (le_b l) q p \<and> win_inv (le_b l) (le_a l) p q
     \<and> data_inv (le_a l) (le_b l) q (sent_a l) (got_b l) \<and> data_inv (le_b l) (le_a l) p (sent_b l) (got_a l)
     \<and> acks_moving (le_a l) (le_b l) q p"

definition link_inv :: "SessionParams \<Rightarrow> Link \<Rightarrow> bool" where
  "link_inv pr l \<longleftrightarrow> (\<exists>q p. queues_inv pr l q p)"

lemma swap_fields [simp]:
  "le_a (swap_ends l) = le_b l" "le_b (swap_ends l) = le_a l" "wire_ab (swap_ends l) = wire_ba l" "wire_ba (swap_ends l) = wire_ab l"
  "sent_a (swap_ends l) = sent_b l" "sent_b (swap_ends l) = sent_a l" "got_a (swap_ends l) = got_b l" "got_b (swap_ends l) = got_a l"
  by (simp_all add: swap_ends_def)

lemma win_inv_window: "win_inv x y q p \<Longrightarrow> bt_max_window x = bt_max_window y"
  by (simp add: win_inv_def)

lemma link_inv_swap: "link_inv pr (swap_ends l) \<longleftrightarrow> link_inv pr l"
proof -
  have "queues_inv pr (swap_ends l) p q" if "queues_inv pr l q p" for l q p
    using that win_inv_window [of "le_a l" "le_b l" q p] by (auto simp: queues_inv_def acks_moving_def)
  moreover have "swap_ends (swap_ends l) = l" by (simp add: swap_ends_def)
  ultimately show ?thesis unfolding link_inv_def by metis
qed

lemma link_inv_start:
  assumes "5 < sp_segment_size params" "sp_segment_size params \<le> USIZE_MAX" "0 < sp_window params" "SDU \<le> USIZE_MAX"
  shows "link_inv params (link_start SDU params ta tb)"
proof -
  have w: "1 \<le> sp_window params" using assms(3) by (simp add: word_le_nat_alt word_less_nat_alt)
  have m: "(- 256 :: u8) = 0" "(- 255 :: u8) = 1" by (simp_all add: word_eq_iff_unsigned)
  have "queues_inv params (link_start SDU params ta tb) [] []"
    using assms w by (simp add: m queues_inv_def link_start_def win_inv_def data_inv_def acks_moving_def btp_new_def in_flight_def
        unacked_def tx_wf_def rx_wf_def tx_part_def rx_part_def)
  then show ?thesis unfolding link_inv_def by blast
qed

lemma last_slot_acks:
  assumes "can_send x" and "in_flight x + 1 = bt_max_window x"
  shows "bt_pending_ack x \<noteq> None"
proof -
  have lt: "in_flight x < bt_max_window x" using assms(1) by (rule remote_window_pos)
  then have "unat (bt_max_window x) = unat (in_flight x) + 1" using unat_plus_one [OF lt] assms(2) by simp
  then have "remote_window x = 1" by (simp add: remote_window_def word_unat_eq_iff unat_saturating_sub)
  then show ?thesis using assms(1) by (simp add: can_send_def)
qed

text \<open>A frame leaves: what is common to a segment and a bare acknowledgement.\<close>

lemma queues_send:
  assumes inv: "queues_inv pr l q p" and can: "can_send (le_a l)"
    and f: "lf_sequence f = bt_tx_sequence (le_a l)" "lf_ack f = bt_pending_ack (le_a l)"
    and x: "bt_tx_sequence x = bt_tx_sequence (le_a l) + 1" "bt_tx_acked x = bt_tx_acked (le_a l)"
      "bt_max_window x = bt_max_window (le_a l)" "bt_rx_sequence x = bt_rx_sequence (le_a l)" "bt_pending_ack x = None"
      "bt_rx_acked x = (case bt_pending_ack (le_a l) of None \<Rightarrow> bt_rx_acked (le_a l) | Some a \<Rightarrow> a)"
      "bt_closed x = bt_closed (le_a l)" "bt_rx x = bt_rx (le_a l)" "bt_rx_len x = bt_rx_len (le_a l)"
      "bt_rx_expected x = bt_rx_expected (le_a l)" "bt_segment_size x = bt_segment_size (le_a l)"
    and data: "data_inv x (le_b l) (q @ [f]) (sent_a l) (got_b l)"
  shows "queues_inv pr (l\<lparr>le_a := x, wire_ab := wire_ab l @ [octets_of f]\<rparr>) (q @ [f]) p"
proof -
  have w: "win_inv (le_a l) (le_b l) q p" "win_inv (le_b l) (le_a l) p q" and k: "acks_moving (le_a l) (le_b l) q p"
    and d: "data_inv (le_b l) (le_a l) p (sent_b l) (got_a l)"
    using inv by (auto simp: queues_inv_def)
  have w1: "win_inv x (le_b l) (q @ [f]) p" using win_send_fwd [OF w(1) can f(1) x(1-3)] .
  have w2: "win_inv (le_b l) x p (q @ [f])" using win_send_back [OF w(2) f(2) x(6,4,5,3)] .
  have "acks (q @ [f]) \<noteq> []" if "in_flight x = bt_max_window x"
  proof -
    have "in_flight (le_a l) + 1 = bt_max_window (le_a l)" using that x(1-3) by (simp add: in_flight_def)
    then have "lf_ack f \<noteq> None" using last_slot_acks [OF can] f(2) by simp
    then show ?thesis by auto
  qed
  then have "acks_moving x (le_b l) (q @ [f]) p" using k x(5) unfolding acks_moving_def by blast
  moreover have "data_inv (le_b l) x p (sent_b l) (got_a l)"
    using d by (subst data_inv_frame [where x = "le_b l" and y = "le_a l"]) (simp_all add: x)
  ultimately show ?thesis using inv w1 w2 data x(3,11) by (simp add: queues_inv_def)
qed

lemma link_poll_inv:
  assumes "queues_inv pr l q p" and ok: "event_ok (Poll now out) l"
  shows "link_inv pr (link_poll now out l)"
proof -
  have wf: "tx_wf (le_a l)" and da: "data_inv (le_a l) (le_b l) q (sent_a l) (got_b l)"
    using assms by (auto simp: queues_inv_def data_inv_def)
  have out: "length out \<le> USIZE_MAX" "bt_segment_size (le_a l) \<le> length out" using ok by simp_all
  show ?thesis
  proof (cases rule: poll_send_cases [OF wf out, of now, case_names silent segment ack])
    case silent
    then have "link_poll now out l = l" by (simp add: link_poll_def)
    then show ?thesis using assms(1) by (auto simp: link_inv_def)
  next
    case (segment n out')
    let ?f = "segment_frame (le_a l)"
    have o: "take n out' = octets_of ?f" using segment(4) by (simp add: octets_of_def segment_frame_def)
    then have "length (octets_of ?f) \<le> bt_segment_size (le_a l)" using segment(5) by (metis length_take min.cobounded2 order_trans)
    note d = data_send_segment [OF da segment(1) this, of now]
    have "queues_inv pr (l\<lparr>le_a := after_segment now (le_a l), wire_ab := wire_ab l @ [octets_of ?f]\<rparr>) (q @ [?f]) p"
      by (rule queues_send [OF assms(1) segment(2) _ _ _ _ _ _ _ _ _ _ _ _ _ d]) (simp_all add: segment_frame_def)
    then show ?thesis using segment(3) o by (auto simp: link_inv_def link_poll_def)
  next
    case (ack n out')
    let ?f = "ack_frame (le_a l)"
    have o: "take n out' = octets_of ?f" using ack(5) by (simp add: octets_of_def ack_frame_def)
    then have "length (octets_of ?f) \<le> bt_segment_size (le_a l)" using ack(6) by (metis length_take min.cobounded2 order_trans)
    note d = data_send_ack [OF da this, of now]
    have "queues_inv pr (l\<lparr>le_a := sent_state now (le_a l), wire_ab := wire_ab l @ [octets_of ?f]\<rparr>) (q @ [?f]) p"
      by (rule queues_send [OF assms(1) ack(2) _ _ _ _ _ _ _ _ _ _ _ _ _ d]) (simp_all add: ack_frame_def)
    then show ?thesis using ack(4) o by (auto simp: link_inv_def link_poll_def)
  qed
qed

lemma btp_send_Inl: "btp_send sdu x = (Inl e, x') \<Longrightarrow> x' = x"
  by (cases "bt_closed x") (auto simp: btp_send_def btp_guard_def split: if_splits)

lemma link_offer_inv:
  assumes "queues_inv pr l q p" and ok: "event_ok (Offer sdu) l"
  shows "link_inv pr (link_offer sdu l)"
proof (cases "fst (btp_send sdu (le_a l))")
  case (Inl e)
  then obtain x where x: "btp_send sdu (le_a l) = (Inl e, x)" by (cases "btp_send sdu (le_a l)") auto
  then have "link_offer sdu l = l" by (simp add: link_offer_def btp_send_Inl [OF x])
  then show ?thesis using assms(1) by (auto simp: link_inv_def)
next
  case (Inr u)
  then obtain x where x: "btp_send sdu (le_a l) = (Inr (), x)" by (cases "btp_send sdu (le_a l)") auto
  note s = btp_send_Inr [OF x]
  have "data_inv x (le_b l) q (sent_a l @ [sdu]) (got_b l)"
    using data_accept [OF _ x, of "le_b l" q "sent_a l" "got_b l"] assms by (simp add: queues_inv_def)
  moreover have "data_inv (le_b l) x p (sent_b l) (got_a l) = data_inv (le_b l) (le_a l) p (sent_b l) (got_a l)"
    by (rule data_inv_frame) (simp_all add: s(4))
  moreover have "win_inv x (le_b l) q p = win_inv (le_a l) (le_b l) q p" "win_inv (le_b l) x p q = win_inv (le_b l) (le_a l) p q"
    "acks_moving x (le_b l) q p = acks_moving (le_a l) (le_b l) q p" "bt_max_window x = bt_max_window (le_a l)" "bt_segment_size x = bt_segment_size (le_a l)"
    by (simp_all add: win_inv_def unacked_def in_flight_def acks_moving_def s(4))
  ultimately have "queues_inv pr (l\<lparr>le_a := x, sent_a := sent_a l @ [sdu]\<rparr>) q p" using assms(1) by (simp add: queues_inv_def)
  then show ?thesis using x by (auto simp: link_inv_def link_offer_def)
qed

lemma in_flight_acked:
  assumes "bt_tx_acked x' = a" "bt_tx_sequence x' = bt_tx_sequence x" and "a \<noteq> bt_tx_acked x" "a - bt_tx_acked x \<le> in_flight x"
  shows "in_flight x' < in_flight x"
proof -
  have "in_flight x' = in_flight x - (a - bt_tx_acked x)" using assms(1,2) by (simp add: in_flight_def)
  then have "unat (in_flight x') = unat (in_flight x) - unat (a - bt_tx_acked x)" using assms(4) by (simp add: unat_sub)
  moreover have "0 < unat (a - bt_tx_acked x)" using assms(3) by (simp add: unat_gt_0)
  moreover have "unat (a - bt_tx_acked x) \<le> unat (in_flight x)" using assms(4) by (simp add: word_le_nat_alt)
  ultimately show ?thesis by (simp add: word_less_nat_alt)
qed

lemma link_deliver_inv:
  assumes "queues_inv pr l q p"
  shows "link_inv pr (link_deliver now l)"
proof (cases p)
  case Nil
  then have "link_deliver now l = l" using assms by (simp add: link_deliver_def queues_inv_def)
  then show ?thesis using assms by (auto simp: link_inv_def)
next
  case (Cons f p')
  let ?x = "le_a l" and ?y = "le_b l"
  have w: "win_inv ?y ?x (f # p') q" "win_inv ?x ?y q (f # p')" and d: "data_inv ?y ?x (f # p') (sent_b l) (got_a l)"
    and k: "acks_moving ?x ?y q (f # p')" and wb: "wire_ba l = octets_of f # map octets_of p'"
    using assms Cons by (auto simp: queues_inv_def)
  obtain part got where r: "absorb (length (bt_rx ?x)) f (rx_part ?x, got_a l) = Some (part, got)" "lf_length f < 65536"
      "length (octets_of f) \<le> USIZE_MAX" "rx_wf ?x"
      and keep: "\<And>x'. rx_wf x' \<Longrightarrow> rx_part x' = part \<Longrightarrow> length (bt_rx x') = length (bt_rx ?x) \<Longrightarrow> data_inv ?y x' p' (sent_b l) got"
    using data_recv [OF d] by blast
  obtain res x' where x': "btp_receive (octets_of f) now ?x = (Inr res, x')" "rx_wf x'" "rx_part x' = part"
      "got = got_a l @ (if res = BtpMessage then [btp_message x'] else [])"
      "bt_rx_sequence x' = lf_sequence f" "bt_rx_acked x' = bt_rx_acked ?x" "bt_pending_ack x' = Some (lf_sequence f)"
      "bt_send_ack_at x' \<noteq> None" "bt_tx_acked x' = (case lf_ack f of None \<Rightarrow> bt_tx_acked ?x | Some a \<Rightarrow> a)"
      "bt_tx_sequence x' = bt_tx_sequence ?x" "bt_max_window x' = bt_max_window ?x" "bt_segment_size x' = bt_segment_size ?x"
      "bt_tx x' = bt_tx ?x" "bt_tx_len x' = bt_tx_len ?x" "bt_tx_sent x' = bt_tx_sent ?x" "bt_tx_active x' = bt_tx_active ?x"
      "length (bt_rx x') = length (bt_rx ?x)"
    using btp_receive_ok [OF r(4) win_recv_fwd(1,2) [OF w(1)] win_recv_back(1) [OF w(2)] r(1-3), of now] by blast
  have w1: "win_inv ?y x' p' q" using win_recv_fwd(3) [OF w(1) x'(5-7,11)] .
  have w2: "win_inv x' ?y q p'" using win_recv_back(2) [OF w(2) x'(9-11)] .
  have "bt_closed x' = bt_closed ?x" using x'(2) r(4) by (simp add: rx_wf_def)
  then have d1: "data_inv x' ?y q (sent_a l) (got_b l) = data_inv ?x ?y q (sent_a l) (got_b l)"
    by (intro data_inv_frame) (simp_all add: x')
  have "acks q \<noteq> [] \<or> acks p' \<noteq> []" if full: "in_flight x' = bt_max_window x'" "in_flight ?y = bt_max_window ?y"
  proof (cases "lf_ack f")
    case None
    then have "in_flight ?x = bt_max_window ?x" using full x'(9-11) by (simp add: in_flight_def)
    then show ?thesis using k full(2) None unfolding acks_moving_def by auto
  next
    case (Some a)
    then have "in_flight x' < in_flight ?x" using in_flight_acked [of x' a ?x] x'(9,10) win_recv_back(1) [OF w(2) Some] by simp
    moreover have "in_flight ?x \<le> bt_max_window ?x" using w(2) unfolding win_inv_def by blast
    ultimately show ?thesis using full(1) x'(11) by auto
  qed
  then have "acks_moving x' ?y q p'" using k x'(7,8) unfolding acks_moving_def by blast
  then have "queues_inv pr (l\<lparr>le_a := x', wire_ba := map octets_of p', got_a := got\<rparr>) q p'"
    using assms w1 w2 d1 keep [OF x'(2,3,17)] x'(11,12) by (simp add: queues_inv_def)
  moreover have "link_deliver now l = l\<lparr>le_a := x', wire_ba := map octets_of p', got_a := got\<rparr>"
    using x'(1,4) wb by (simp add: link_deliver_def)
  ultimately show ?thesis unfolding link_inv_def by metis
qed

lemma link_release_inv:
  assumes "queues_inv pr l q p" and ok: "event_ok Release l"
  shows "link_inv pr (l\<lparr>le_a := take_message (le_a l)\<rparr>)"
proof -
  let ?x = "take_message (le_a l)"
  have part: "rx_part ?x = rx_part (le_a l)" using ok by (simp add: rx_part_def take_message_def)
  have wf: "rx_wf ?x = (bt_closed (le_a l) = None \<and> length (bt_rx (le_a l)) \<le> USIZE_MAX)" by (simp add: rx_wf_def take_message_def)
  have "data_inv (le_b l) (le_a l) p (sent_b l) (got_a l)" using assms(1) by (simp add: queues_inv_def)
  then have "data_inv (le_b l) ?x p (sent_b l) (got_a l)"
    unfolding data_inv_def part wf by (auto simp: take_message_def rx_wf_def)
  moreover have "data_inv ?x (le_b l) q (sent_a l) (got_b l) = data_inv (le_a l) (le_b l) q (sent_a l) (got_b l)"
    by (rule data_inv_frame) (simp_all add: take_message_def)
  moreover have "win_inv ?x (le_b l) q p = win_inv (le_a l) (le_b l) q p" "win_inv (le_b l) ?x p q = win_inv (le_b l) (le_a l) p q"
    "acks_moving ?x (le_b l) q p = acks_moving (le_a l) (le_b l) q p"
    by (simp_all add: win_inv_def unacked_def in_flight_def acks_moving_def take_message_def)
  ultimately have "queues_inv pr (l\<lparr>le_a := ?x\<rparr>) q p" using assms(1) by (simp add: queues_inv_def take_message_def)
  then show ?thesis by (auto simp: link_inv_def)
qed

lemma end_acts_inv: "link_inv pr l \<Longrightarrow> event_ok e l \<Longrightarrow> link_inv pr (end_acts e l)"
  using link_poll_inv link_offer_inv link_deliver_inv link_release_inv by (cases e) (auto simp: link_inv_def [of pr l] simp del: event_ok.simps)

lemma link_step_inv: "link_step l l' \<Longrightarrow> link_inv pr l \<Longrightarrow> link_inv pr l'"
  by (induction rule: link_step.induct) (simp_all add: end_acts_inv link_inv_swap)

lemma link_reach_inv: "link_step\<^sup>*\<^sup>* l l' \<Longrightarrow> link_inv pr l \<Longrightarrow> link_inv pr l'"
  by (induction rule: rtranclp_induct) (auto intro: link_step_inv)

section \<open>What a connection promises\<close>

lemma absorb_prefix: "absorb cap f (part, got) = Some (part', got') \<Longrightarrow> prefix got got'"
  by (auto simp: absorb_def split: if_splits option.splits prod.splits)

lemma absorb_all_prefix: "absorb_all cap q (part, got) = Some (part', got') \<Longrightarrow> prefix got got'"
proof (induction q arbitrary: part got)
  case (Cons f q)
  then obtain part1 got1 where "absorb cap f (part, got) = Some (part1, got1)" "absorb_all cap q (part1, got1) = Some (part', got')"
    by (auto simp: bind_eq_Some_conv)
  then show ?case using absorb_prefix Cons.IH prefix_order.trans by blast
qed simp

lemma data_inv_delivers:
  assumes "data_inv x y q sent got"
  shows "prefix got sent" and "q = [] \<Longrightarrow> \<not> bt_tx_active x \<Longrightarrow> got = sent"
  using assms by (auto simp: data_inv_def intro: prefix_order.trans [OF absorb_all_prefix])

lemma win_inv_length: "win_inv x y q p \<Longrightarrow> length q \<le> unat (bt_max_window x)"
  by (auto simp: win_inv_def word_le_nat_alt)

lemma link_inv_delivers:
  assumes "link_inv pr l"
  shows "bt_closed (le_a l) = None \<and> prefix (got_b l) (sent_a l) \<and> (wire_ab l = [] \<and> \<not> bt_tx_active (le_a l) \<longrightarrow> got_b l = sent_a l)
    \<and> length (wire_ab l) \<le> unat (sp_window pr) \<and> (\<forall>f \<in> set (wire_ab l). length f \<le> sp_segment_size pr)"
proof -
  obtain q p where i: "queues_inv pr l q p" using assms by (auto simp: link_inv_def)
  then have w: "win_inv (le_a l) (le_b l) q p" "bt_max_window (le_a l) = sp_window pr" and q: "wire_ab l = map octets_of q"
      and d: "data_inv (le_a l) (le_b l) q (sent_a l) (got_b l)" and s: "bt_segment_size (le_a l) = sp_segment_size pr"
    by (auto simp: queues_inv_def)
  have "bt_closed (le_a l) = None" "\<forall>f \<in> set q. length (octets_of f) \<le> bt_segment_size (le_a l)"
    using d by (auto simp: data_inv_def tx_wf_def)
  then show ?thesis using data_inv_delivers [OF d] win_inv_length [OF w(1)] w(2) q s by auto
qed

lemma link_inv_negotiated:
  assumes "negotiate request own_mtu own_window = Inr r" and "SDU \<le> USIZE_MAX"
    and "link_step\<^sup>*\<^sup>* (link_start SDU (response_params r) ta tb) l"
  shows "link_inv (response_params r) l"
proof (rule link_reach_inv [OF assms(3)])
  show "link_inv (response_params r) (link_start SDU (response_params r) ta tb)"
    using response_segment_bounds [of r] negotiated(3) [OF assms(1)] assms(2)
    by (intro link_inv_start) (simp_all add: response_params_def USIZE_MAX_def)
qed

text \<open>An end that owes an acknowledgement and may send speaks up when its timer is due.\<close>

lemma owing_end_speaks:
  assumes "tx_wf x" "can_send x" "bt_pending_ack x \<noteq> None" "bt_send_ack_at x \<noteq> None"
  shows "\<exists>due wake. bt_send_ack_at x = Some due \<and> btp_wake_at x = Some wake \<and> wake \<le> due
    \<and> (\<forall>now out. due \<le> now \<and> bt_segment_size x \<le> length out \<and> length out \<le> USIZE_MAX \<longrightarrow>
        (\<exists>n st. poll_send now (x, out) = (Inr (Some n), st)))"
proof -
  obtain due where due: "bt_send_ack_at x = Some due" using assms(4) by blast
  then have "\<exists>wake. btp_wake_at x = Some wake \<and> wake \<le> due" by (auto simp: btp_wake_at_def split: option.split)
  moreover have "\<exists>n st. poll_send now (x, out) = (Inr (Some n), st)"
    if "due \<le> now" "bt_segment_size x \<le> length out" "length out \<le> USIZE_MAX" for now out
  proof -
    have "ack_due now x" using due that(1) by (simp add: ack_due_def)
    then show ?thesis using poll_send_cases [OF assms(1) that(3,2), of now] assms(2,3) by metis
  qed
  ultimately show ?thesis using due by blast
qed

lemma quiet_end_can_send:
  assumes "win_inv x y [] []" "win_inv y x [] []" "acks_moving x y [] []" "0 < bt_max_window x"
  shows "can_send x \<and> bt_pending_ack x \<noteq> None \<or> can_send y \<and> bt_pending_ack y \<noteq> None"
proof -
  have can: "can_send z" if "bt_pending_ack z \<noteq> None" "in_flight z \<noteq> bt_max_window z" "in_flight z \<le> bt_max_window z" for z
  proof -
    have "unat (in_flight z) < unat (bt_max_window z)" using that(2,3) by (simp add: word_le_nat_alt word_unat_eq_iff)
    then have "remote_window z \<noteq> 0" by (simp add: remote_window_def word_unat_eq_iff unat_saturating_sub)
    then show ?thesis using that(1) by (simp add: can_send_def)
  qed
  have le: "in_flight x \<le> bt_max_window x" "in_flight y \<le> bt_max_window y" and eq: "bt_max_window x = bt_max_window y"
    using assms(1,2) unfolding win_inv_def by blast+
  have z: "unat w = 0 \<Longrightarrow> w = 0" for w :: u8 by (simp add: word_unat_eq_iff)
  have none: "in_flight y = 0" if "bt_pending_ack x = None"
    using assms(2) that by (auto simp: win_inv_def unacked_def intro: z split: if_splits)
  have none': "in_flight x = 0" if "bt_pending_ack y = None"
    using assms(1) that by (auto simp: win_inv_def unacked_def intro: z split: if_splits)
  have k: "in_flight x \<noteq> bt_max_window x \<or> in_flight y \<noteq> bt_max_window y" "bt_pending_ack x \<noteq> None \<or> bt_pending_ack y \<noteq> None"
    using assms(3) unfolding acks_moving_def by auto
  show ?thesis using k can [of x] can [of y] le eq none none' assms(4) by (metis less_irrefl)
qed

text \<open>C14: Two ends set up from one successful handshake, one on each side of a link that keeps the order of frames, never
  close the connection on each other, whatever messages they are given (each within the other's buffer), however the sending, receiving and
  releasing interleave, and however often the eight-bit sequence numbers wrap: no frame is ever refused for its sequence number, its window, its
  acknowledgement or its reassembly.  What an end has been handed is at every moment a prefix of what the other was given, message by message,
  and all of it once the sender has nothing left to segment and its wire is empty.  No more frames are on a wire than the
  negotiated window, and none is longer than the negotiated segment.  (The acknowledgement timeout of \<open>poll_timeout\<close>, which closes a
  connection whose other end is silent, is not one of the steps.)\<close>

theorem btp_link_delivers:
  assumes "negotiate request own_mtu own_window = Inr r" and "SDU \<le> USIZE_MAX"
    and "link_step\<^sup>*\<^sup>* (link_start SDU (response_params r) ta tb) l"
  shows "bt_closed (le_a l) = None \<and> bt_closed (le_b l) = None
    \<and> prefix (got_b l) (sent_a l) \<and> (wire_ab l = [] \<and> \<not> bt_tx_active (le_a l) \<longrightarrow> got_b l = sent_a l)
    \<and> prefix (got_a l) (sent_b l) \<and> (wire_ba l = [] \<and> \<not> bt_tx_active (le_b l) \<longrightarrow> got_a l = sent_b l)
    \<and> length (wire_ab l) \<le> unat (hp_window r) \<and> length (wire_ba l) \<le> unat (hp_window r)
    \<and> (\<forall>f \<in> set (wire_ab l) \<union> set (wire_ba l). length f \<le> response_segment_size r)"
proof -
  have i: "link_inv (response_params r) l" using assms by (rule link_inv_negotiated)
  then have "link_inv (response_params r) (swap_ends l)" by (simp add: link_inv_swap)
  from link_inv_delivers [OF this] link_inv_delivers [OF i] show ?thesis by (auto simp: response_params_def)
qed

text \<open>C22: The same two ends are never stuck.  Whenever nothing is on either wire, one of them owes the other an acknowledgement and has room in
  its window for the frame that carries it: its send-acknowledgement timer runs, \<open>wake_at\<close> reports it or an
  earlier instant, and from that instant on \<open>poll_send\<close> produces a frame.  So the two windows can not both be full with every
  acknowledgement waiting for room, the deadlock that the rule of keeping the last slot for an acknowledgement is there to
  prevent.\<close>

theorem btp_link_never_stuck:
  assumes "negotiate request own_mtu own_window = Inr r" and "SDU \<le> USIZE_MAX"
    and "link_step\<^sup>*\<^sup>* (link_start SDU (response_params r) ta tb) l" and "wire_ab l = []" "wire_ba l = []"
  shows "\<exists>x due wake. (x = le_a l \<or> x = le_b l) \<and> bt_send_ack_at x = Some due \<and> btp_wake_at x = Some wake \<and> wake \<le> due
    \<and> (\<forall>now out. due \<le> now \<and> bt_segment_size x \<le> length out \<and> length out \<le> USIZE_MAX \<longrightarrow>
        (\<exists>n st. poll_send now (x, out) = (Inr (Some n), st)))"
proof -
  obtain q p where "queues_inv (response_params r) l q p" using link_inv_negotiated [OF assms(1-3)] by (auto simp: link_inv_def)
  then have i: "queues_inv (response_params r) l [] []" using assms(4,5) by (auto simp: queues_inv_def)
  then have wf: "tx_wf (le_a l)" "tx_wf (le_b l)" and k: "acks_moving (le_a l) (le_b l) [] []"
    by (simp_all add: queues_inv_def data_inv_def)
  have "can_send (le_a l) \<and> bt_pending_ack (le_a l) \<noteq> None \<or> can_send (le_b l) \<and> bt_pending_ack (le_b l) \<noteq> None"
    using i by (intro quiet_end_can_send) (simp_all add: queues_inv_def)
  then show ?thesis using owing_end_speaks [OF wf(1)] owing_end_speaks [OF wf(2)] k unfolding acks_moving_def by blast
qed

lemma demo_negotiated: "negotiate (handshake_request_new 23 6) 247 8 = Inr \<lparr>hp_version = 4, hp_att_mtu = 23, hp_window = 6\<rparr>"
  by (simp add: negotiate_def handshake_request_new_def best_version_def BTP_VERSION_def MIN_ATT_MTU_def)

lemma demo_length: "u16_bytes 3 = [3, 0]"
  by code_simp

definition demo_params :: SessionParams where "demo_params = \<lparr>sp_segment_size = 20, sp_window = 6\<rparr>"

lemma demo_params_of: "response_params \<lparr>hp_version = 4, hp_att_mtu = 23, hp_window = 6\<rparr> = demo_params"
  by (simp add: demo_params_def response_params_def response_segment_size_def MIN_ATT_MTU_def GATT_HEADER_def MAX_SEGMENT_def saturating_sub_def)

definition demo_client :: BtpSession where
  "demo_client = (btp_new 4 BtpClient demo_params 0)\<lparr>bt_tx := [1,2,3,0], bt_tx_len := 3, bt_tx_active := True\<rparr>"

lemma demo_offer: "btp_send [1,2,3] (btp_new 4 BtpClient demo_params 0) = (Inr (), demo_client)"
  by (simp add: demo_client_def btp_new_def btp_send_def btp_guard_def slice_get_def overwrite_def eval_nat_numeral)

lemma demo_poll: "\<exists>n out. poll_send 1 (demo_client, replicate 20 0) = (Inr (Some n), after_segment 1 demo_client, out)
   \<and> take n out = [13, 0, 0, 3, 0, 1, 2, 3]"
proof -
  have "tx_wf demo_client" "bt_tx_active demo_client" "can_send demo_client" "bt_segment_size demo_client = 20"
    by (simp_all add: tx_wf_def demo_client_def demo_params_def btp_new_def USIZE_MAX_def can_send_def remote_window_def in_flight_def saturating_sub_def)
  moreover have "wire_frame (bt_tx_sent demo_client = 0) (bt_tx_sent demo_client + length (segment_of demo_client) = bt_tx_len demo_client)
        (bt_pending_ack demo_client) (bt_tx_sequence demo_client) (bt_tx_len demo_client) (segment_of demo_client) = [13, 0, 0, 3, 0, 1, 2, 3]"
    by (simp add: demo_client_def demo_params_def btp_new_def segment_of_def room_of_def frame_header_len_def wire_frame_def header_flags_def btp_flag_defs demo_length)
  ultimately show ?thesis using poll_send_data [of demo_client "replicate 20 0" 1] by (auto simp: USIZE_MAX_def)
qed

lemma demo_receive:
  "\<exists>y. btp_receive [13, 0, 0, 3, 0, 1, 2, 3] 2 (btp_new 4 BtpServer demo_params 0) = (Inr BtpMessage, y) \<and> btp_message y = [1, 2, 3]"
proof -
  have four: "replicate 4 0 = [0, 0, 0, 0 :: u8]" by (simp add: eval_nat_numeral)
  have "wire_frame True True (Some 0) 0 3 [1, 2, 3] = [13, 0, 0, 3, 0, 1, 2, 3]"
    by (simp add: wire_frame_def header_flags_def btp_flag_defs demo_length)
  then have "frame_decode [13, 0, 0, 3, 0, 1, 2, 3] = Inr (decoded_frame True True (Some 0) 0 3 [1, 2, 3])"
    using frame_decodes [of True True "Some 0" 0 3 "[1, 2, 3]"] by (simp add: USIZE_MAX_def)
  then show ?thesis
    by (simp add: btp_receive_def btp_guard_def btp_new_def receive_inner_def bindE_def btp_fail_def demo_params_def decoded_frame_def
        receive_sequence_def receive_ack_def in_flight_def receive_beginning_def receive_payload_def usize_checked_add_def USIZE_MAX_def
        slice_get_def header_flags_def btp_flag_defs overwrite_def btp_message_def four)
qed

lemma demo_run:
  "\<exists>l. link_step\<^sup>*\<^sup>* (link_start 4 demo_params 0 0) l \<and> sent_a l = [[1, 2, 3]] \<and> got_b l = [[1, 2, 3]] \<and> wire_ab l = [] \<and> wire_ba l = []"
proof -
  let ?l0 = "link_start 4 demo_params 0 0"
  let ?l1 = "end_acts (Offer [1, 2, 3]) ?l0"
  let ?l2 = "end_acts (Poll 1 (replicate 20 0)) ?l1"
  let ?l3 = "swap_ends (end_acts (Deliver 2) (swap_ends ?l2))"
  have l1: "?l1 = ?l0\<lparr>le_a := demo_client, sent_a := [[1, 2, 3]]\<rparr>" using demo_offer by (simp add: link_offer_def link_start_def)
  have l2: "?l2 = ?l0\<lparr>le_a := after_segment 1 demo_client, sent_a := [[1, 2, 3]], wire_ab := [[13, 0, 0, 3, 0, 1, 2, 3]]\<rparr>"
    using demo_poll unfolding l1 by (auto simp: link_poll_def link_start_def)
  obtain y where y: "btp_receive [13, 0, 0, 3, 0, 1, 2, 3] 2 (btp_new 4 BtpServer demo_params 0) = (Inr BtpMessage, y)"
      "btp_message y = [1, 2, 3]" using demo_receive by blast
  have "event_ok (Offer [1, 2, 3]) ?l0" by (simp add: link_start_def btp_new_def)
  moreover have "event_ok (Poll 1 (replicate 20 0)) ?l1" unfolding l1 by (simp add: link_start_def btp_new_def demo_client_def demo_params_def USIZE_MAX_def)
  moreover have "event_ok (Deliver 2) (swap_ends ?l2)" by simp
  ultimately have s: "link_step ?l0 ?l1" "link_step ?l1 ?l2" "link_step ?l2 ?l3" by (blast intro: link_step.intros)+
  have "sent_a ?l3 = [[1, 2, 3]] \<and> got_b ?l3 = [[1, 2, 3]] \<and> wire_ab ?l3 = [] \<and> wire_ba ?l3 = []"
    unfolding l2 using y by (simp add: link_deliver_def link_start_def swap_ends_def)
  moreover have "link_step\<^sup>*\<^sup>* ?l0 ?l3" using s by (meson rtranclp.rtrancl_refl rtranclp.rtrancl_into_rtrancl)
  ultimately show ?thesis by blast
qed

theorem btp_link_delivers_witness:
  "\<exists>l. link_step\<^sup>*\<^sup>* (link_start 4 (response_params \<lparr>hp_version = 4, hp_att_mtu = 23, hp_window = 6\<rparr>) 0 0) l
    \<and> got_b l = [[1, 2, 3]] \<and> bt_closed (le_a l) = None \<and> bt_closed (le_b l) = None \<and> prefix (got_b l) (sent_a l)"
  using demo_run btp_link_delivers [OF demo_negotiated, of 4 0 0] by (auto simp: demo_params_of USIZE_MAX_def)

theorem btp_link_never_stuck_witness:
  "\<exists>l x due. link_step\<^sup>*\<^sup>* (link_start 4 (response_params \<lparr>hp_version = 4, hp_att_mtu = 23, hp_window = 6\<rparr>) 0 0) l
    \<and> got_b l = [[1, 2, 3]] \<and> wire_ab l = [] \<and> wire_ba l = [] \<and> (x = le_a l \<or> x = le_b l) \<and> bt_send_ack_at x = Some due"
proof -
  obtain l where l: "link_step\<^sup>*\<^sup>* (link_start 4 demo_params 0 0) l" "got_b l = [[1, 2, 3]]" "wire_ab l = []" "wire_ba l = []"
    using demo_run by blast
  show ?thesis using btp_link_never_stuck [OF demo_negotiated, of 4 0 0 l] l by (auto simp: demo_params_of USIZE_MAX_def)
qed

end
