(* ===== verification/Onboarding.thy ===== *)
theory Onboarding
  imports Tlv_Types Platform_Time
begin

text \<open>
  The onboarding payload (\<^verbatim>\<open>src/src/commissioning/payload.rs\<close>): the packed structure and its bit order, base 38, the QR code, the
  manual pairing code and its Verhoeff check digit.  A text is the list of its octets as characters; a \<^verbatim>\<open>heapless::String<N>\<close> is a
  text with the capacity \<open>N\<close>.
\<close>

section \<open>Slices and texts\<close>

text \<open>\<^verbatim>\<open>slice.get(i)\<close> and \<^verbatim>\<open>slice.chunks(n)\<close>.\<close>

definition list_get :: "'a list \<Rightarrow> nat \<Rightarrow> 'a option" where
  "list_get xs i = (if i < length xs then Some (xs ! i) else None)"

function chunks :: "nat \<Rightarrow> 'a list \<Rightarrow> 'a list list" where
  "chunks n xs = (if xs = [] \<or> n = 0 then [] else take n xs # chunks n (drop n xs))"
  by pat_completeness auto
termination by (relation "measure (length \<circ> snd)") auto

declare chunks.simps [simp del]

definition checked_mul :: "'a::len word \<Rightarrow> 'a word \<Rightarrow> 'a word option" where
  "checked_mul a b = (if unat a * unat b < 2 ^ LENGTH('a) then Some (a * b) else None)"

definition str_push :: "nat \<Rightarrow> char \<Rightarrow> (string, unit) mutator" where
  "str_push N c s = (if length s < N then (Inr (), s @ [c]) else (Inl NoSpace, s))"

definition push_str :: "nat \<Rightarrow> string \<Rightarrow> (string, unit) mutator" where
  "push_str N t s = (if length s + length t \<le> N then (Inr (), s @ t) else (Inl NoSpace, s))"

section \<open>The payload\<close>

definition ALPHABET :: string where
  "ALPHABET = ''0123456789ABCDEFGHIJKLMNOPQRSTUVWXYZ-.''"

definition QR_PREFIX :: string where "QR_PREFIX = ''MT:''"
definition PACKED_LEN :: nat where "PACKED_LEN = 11"
definition QR_LEN_NO_TLV :: nat where "QR_LEN_NO_TLV = 3 + 19"
definition MANUAL_CODE_MAX_DIGITS :: nat where "MANUAL_CODE_MAX_DIGITS = 21"

type_synonym Passcode = u32

definition Passcode_MIN :: u32 where "Passcode_MIN = 1"
definition Passcode_MAX :: u32 where "Passcode_MAX = 0x05F5E0FE"
definition Passcode_INVALID :: "u32 list" where
  "Passcode_INVALID = [0, 11111111, 22222222, 33333333, 44444444, 55555555, 66666666, 77777777,
     88888888, 99999999, 12345678, 87654321]"

definition passcode_new :: "u32 \<Rightarrow> Passcode result" where
  "passcode_new v =
     (if v < Passcode_MIN \<or> v > Passcode_MAX then Inl InvalidArgument
      else if v \<in> set Passcode_INVALID then Inl InvalidArgument
      else Inr v)"

datatype CustomFlow = Standard | UserIntent | Custom

fun custom_flow_value :: "CustomFlow \<Rightarrow> u64" where
  "custom_flow_value Standard = 0"
| "custom_flow_value UserIntent = 1"
| "custom_flow_value Custom = 2"

definition custom_flow_from_bits :: "u8 \<Rightarrow> CustomFlow result" where
  "custom_flow_from_bits b =
     (if b = 0 then Inr Standard else if b = 1 then Inr UserIntent else if b = 2 then Inr Custom else Inl MessageReserved)"

text \<open>\<^verbatim>\<open>DiscoveryCapabilities\<close> keeps every bit (\<^verbatim>\<open>from_bits_retain\<close>), so it is its octet.\<close>

record OnboardingPayload =
  op_vendor_id :: u16
  op_product_id :: u16
  op_custom_flow :: CustomFlow
  op_discovery :: u8
  op_discriminator :: u16
  op_passcode :: Passcode

definition DISCRIMINATOR_MASK :: u16 where "DISCRIMINATOR_MASK = 0x0FFF"

definition onboarding_new :: "u16 \<Rightarrow> u16 \<Rightarrow> u16 \<Rightarrow> Passcode \<Rightarrow> u8 \<Rightarrow> CustomFlow \<Rightarrow> OnboardingPayload result" where
  "onboarding_new vendor product discriminator passcode discovery flow =
     (if discriminator > DISCRIMINATOR_MASK then Inl InvalidArgument
      else Inr \<lparr>op_vendor_id = vendor, op_product_id = product, op_custom_flow = flow, op_discovery = discovery,
                op_discriminator = discriminator, op_passcode = passcode\<rparr>)"

definition short_discriminator :: "OnboardingPayload \<Rightarrow> u8" where
  "short_discriminator p = ucast (drop_bit 8 (op_discriminator p))"

section \<open>Bit packing\<close>

record BitWriter =
  bw_bytes :: bytes
  bw_bit :: nat

definition bit_writer_new :: BitWriter where
  "bit_writer_new = \<lparr>bw_bytes = replicate PACKED_LEN 0, bw_bit = 0\<rparr>"

definition bw_set :: "nat \<Rightarrow> bytes \<Rightarrow> bytes" where
  "bw_set index bs =
     (if index div 8 < length bs then bs[index div 8 := (bs ! (index div 8)) OR push_bit (index mod 8) 1] else bs)"

definition bw_push :: "u64 \<Rightarrow> nat \<Rightarrow> BitWriter \<Rightarrow> BitWriter" where
  "bw_push v width w =
     \<lparr>bw_bytes = fold (\<lambda>i bs. if drop_bit i v AND 1 = 1 then bw_set (bw_bit w + i) bs else bs) [0..<width] (bw_bytes w),
      bw_bit = bw_bit w + width\<rparr>"

record BitReader =
  br_bytes :: bytes
  br_bit :: nat

definition bit_reader_new :: "bytes \<Rightarrow> BitReader" where
  "bit_reader_new bs = \<lparr>br_bytes = bs, br_bit = 0\<rparr>"

fun br_loop :: "nat list \<Rightarrow> u64 \<Rightarrow> BitReader \<Rightarrow> u64 result" where
  "br_loop [] v r = Inr v"
| "br_loop (i # is) v r =
     (let index = br_bit r + i in
      case list_get (br_bytes r) (index div 8) of
        None \<Rightarrow> Inl MessageTruncated
      | Some b \<Rightarrow> br_loop is (if drop_bit (index mod 8) b AND 1 = 1 then v OR push_bit i 1 else v) r)"

definition br_take :: "nat \<Rightarrow> (BitReader, u64) mutator" where
  "br_take width r =
     (case br_loop [0..<width] 0 r of
        Inl e \<Rightarrow> (Inl e, r)
      | Inr v \<Rightarrow> (Inr v, r\<lparr>br_bit := br_bit r + width\<rparr>))"

definition pack :: "OnboardingPayload \<Rightarrow> bytes" where
  "pack p =
     bw_bytes
      (bw_push (ucast (op_passcode p)) 27
      (bw_push (ucast (op_discriminator p AND DISCRIMINATOR_MASK)) 12
      (bw_push (ucast (op_discovery p)) 8
      (bw_push (custom_flow_value (op_custom_flow p)) 2
      (bw_push (ucast (op_product_id p)) 16
      (bw_push (ucast (op_vendor_id p)) 16
      (bw_push 0 3 bit_writer_new)))))))"

definition unpack_fields :: "(BitReader, OnboardingPayload) mutator" where
  "unpack_fields =
     bindE (br_take 3) (\<lambda>version.
     bindE (ensureE UnsupportedVersion (version = 0)) (\<lambda>_.
     bindE (br_take 16) (\<lambda>vendor.
     bindE (br_take 16) (\<lambda>product.
     bindE (br_take 2) (\<lambda>flow.
     bindE (liftE (custom_flow_from_bits (ucast flow))) (\<lambda>flow.
     bindE (br_take 8) (\<lambda>discovery.
     bindE (br_take 12) (\<lambda>discriminator.
     bindE (br_take 27) (\<lambda>passcode.
     bindE (liftE (passcode_new (ucast passcode))) (\<lambda>passcode.
     retE \<lparr>op_vendor_id = ucast vendor, op_product_id = ucast product, op_custom_flow = flow,
           op_discovery = ucast discovery, op_discriminator = ucast discriminator, op_passcode = passcode\<rparr>))))))))))"

definition unpack :: "bytes \<Rightarrow> OnboardingPayload result" where
  "unpack bs =
     (case slice_get bs 0 PACKED_LEN of
        None \<Rightarrow> Inl MessageTruncated
      | Some packed \<Rightarrow> fst (unpack_fields (bit_reader_new packed)))"

section \<open>Base 38\<close>

fun base38_chunk :: "bytes \<Rightarrow> (u32 \<times> nat) result" where
  "base38_chunk [a, b, c] = Inr (ucast a OR push_bit 8 (ucast b) OR push_bit 16 (ucast c), 5)"
| "base38_chunk [a, b] = Inr (ucast a OR push_bit 8 (ucast b), 4)"
| "base38_chunk [a] = Inr (ucast a, 2)"
| "base38_chunk _ = Inl InvalidArgument"

fun base38_push :: "nat \<Rightarrow> nat \<Rightarrow> u32 \<Rightarrow> (string, unit) mutator" where
  "base38_push N 0 v = retE ()"
| "base38_push N (Suc width) v =
     (case list_get ALPHABET (unat (v mod 38)) of
        None \<Rightarrow> failE InvalidArgument
      | Some c \<Rightarrow> bindE (str_push N c) (\<lambda>_. base38_push N width (v div 38)))"

fun base38_encode_chunks :: "nat \<Rightarrow> bytes list \<Rightarrow> (string, unit) mutator" where
  "base38_encode_chunks N [] = retE ()"
| "base38_encode_chunks N (chunk # cs) =
     bindE (liftE (base38_chunk chunk)) (\<lambda>(v, width).
     bindE (base38_push N width v) (\<lambda>_. base38_encode_chunks N cs))"

definition base38_encode :: "nat \<Rightarrow> bytes \<Rightarrow> (string, unit) mutator" where
  "base38_encode N data = base38_encode_chunks N (chunks 3 data)"

definition base38_width :: "nat \<Rightarrow> nat result" where
  "base38_width n = (if n = 5 then Inr 3 else if n = 4 then Inr 2 else if n = 2 then Inr 1 else Inl InvalidArgument)"

fun base38_value :: "string \<Rightarrow> u32 \<Rightarrow> u32 result" where
  "base38_value [] v = Inr v"
| "base38_value (c # cs) v =
     (case position (\<lambda>a. a = c) ALPHABET of
        None \<Rightarrow> Inl InvalidArgument
      | Some digit \<Rightarrow>
          bindR (ok_or InvalidArgument (Option.bind (checked_mul v 38) (\<lambda>v. checked_add v (word_of_nat digit))))
            (base38_value cs))"

text \<open>The octets of a group go out one by one; the state is the buffer and how much of it is written.\<close>

fun base38_octets :: "nat list \<Rightarrow> u32 \<Rightarrow> (nat \<times> bytes, unit) mutator" where
  "base38_octets [] v st = (Inr (), st)"
| "base38_octets (i # is) v (written, out) =
     (if written < length out
      then base38_octets is v (written + 1, out[written := ucast (drop_bit (i * 8) v)])
      else (Inl BufferTooSmall, (written, out)))"

fun base38_decode_chunks :: "string list \<Rightarrow> (nat \<times> bytes, unit) mutator" where
  "base38_decode_chunks [] = retE ()"
| "base38_decode_chunks (chunk # cs) =
     bindE (liftE (base38_width (length chunk))) (\<lambda>width.
     bindE (liftE (base38_value (rev chunk) 0)) (\<lambda>v.
     let limit = (case checked_shl 1 (saturating_mul (word_of_nat width) 8) of None \<Rightarrow> - 1 | Some l \<Rightarrow> l) in
     bindE (ensureE InvalidArgument (\<not> (width < 4 \<and> v \<ge> limit))) (\<lambda>_.
     bindE (base38_octets [0..<width] v) (\<lambda>_. base38_decode_chunks cs))))"

definition base38_decode :: "string \<Rightarrow> (bytes, nat) mutator" where
  "base38_decode text out =
     (case base38_decode_chunks (chunks 5 text) (0, out) of
        (Inl e, (_, out)) \<Rightarrow> (Inl e, out)
      | (Inr _, (written, out)) \<Rightarrow> (Inr written, out))"

definition to_qr :: "OnboardingPayload \<Rightarrow> string result" where
  "to_qr p =
     (case bindE (push_str QR_LEN_NO_TLV QR_PREFIX) (\<lambda>_. base38_encode QR_LEN_NO_TLV (pack p)) [] of
        (Inl e, _) \<Rightarrow> Inl e
      | (Inr _, out) \<Rightarrow> Inr out)"

definition strip_prefix :: "string \<Rightarrow> string \<Rightarrow> string option" where
  "strip_prefix pre t = (if take (length pre) t = pre then Some (drop (length pre) t) else None)"

definition from_qr :: "string \<Rightarrow> OnboardingPayload result" where
  "from_qr text =
     (let body = (case strip_prefix QR_PREFIX text of None \<Rightarrow> text | Some t \<Rightarrow> t) in
      case base38_decode body (replicate PACKED_LEN 0) of
        (Inl e, _) \<Rightarrow> Inl e
      | (Inr n, packed) \<Rightarrow> if n < PACKED_LEN then Inl MessageTruncated else unpack packed)"

section \<open>The check digit\<close>

definition VERHOEFF_D :: "bytes list" where
  "VERHOEFF_D =
    [[0, 1, 2, 3, 4, 5, 6, 7, 8, 9],
     [1, 2, 3, 4, 0, 6, 7, 8, 9, 5],
     [2, 3, 4, 0, 1, 7, 8, 9, 5, 6],
     [3, 4, 0, 1, 2, 8, 9, 5, 6, 7],
     [4, 0, 1, 2, 3, 9, 5, 6, 7, 8],
     [5, 9, 8, 7, 6, 0, 4, 3, 2, 1],
     [6, 5, 9, 8, 7, 1, 0, 4, 3, 2],
     [7, 6, 5, 9, 8, 2, 1, 0, 4, 3],
     [8, 7, 6, 5, 9, 3, 2, 1, 0, 4],
     [9, 8, 7, 6, 5, 4, 3, 2, 1, 0]]"

definition VERHOEFF_P :: "bytes list" where
  "VERHOEFF_P =
    [[0, 1, 2, 3, 4, 5, 6, 7, 8, 9],
     [1, 5, 7, 6, 2, 8, 3, 0, 9, 4],
     [5, 8, 0, 3, 7, 9, 6, 1, 4, 2],
     [8, 9, 1, 6, 0, 4, 3, 5, 2, 7],
     [9, 4, 5, 3, 1, 2, 6, 8, 7, 0],
     [4, 2, 8, 6, 5, 7, 3, 9, 0, 1],
     [2, 7, 9, 3, 8, 0, 6, 4, 1, 5],
     [7, 0, 4, 6, 9, 1, 3, 2, 5, 8]]"

definition VERHOEFF_INV :: bytes where
  "VERHOEFF_INV = [0, 4, 3, 2, 1, 5, 6, 7, 8, 9]"

definition ascii_u8 :: "char \<Rightarrow> u8" where
  "ascii_u8 c = word_of_nat (of_char c)"

definition ascii_digit :: "char \<Rightarrow> u8 option" where
  "ascii_digit c = (if 48 \<le> ascii_u8 c \<and> ascii_u8 c - 48 < 10 then Some (ascii_u8 c - 48) else None)"

text \<open>The loops run over the digits from the last to the first; \<open>i\<close> is the index of \<^verbatim>\<open>enumerate\<close>.\<close>

fun verhoeff_check_loop :: "nat \<Rightarrow> string \<Rightarrow> u8 \<Rightarrow> u8 result" where
  "verhoeff_check_loop i [] c = Inr c"
| "verhoeff_check_loop i (ch # cs) c =
     (case ascii_digit ch of
        None \<Rightarrow> Inl InvalidArgument
      | Some digit \<Rightarrow>
          (case list_get VERHOEFF_P ((i + 1) mod 8) of
             None \<Rightarrow> Inl InvalidArgument
           | Some row \<Rightarrow>
               (case list_get row (unat digit) of
                  None \<Rightarrow> Inl InvalidArgument
                | Some permuted \<Rightarrow>
                    (case Option.bind (list_get VERHOEFF_D (unat c)) (\<lambda>r. list_get r (unat permuted)) of
                       None \<Rightarrow> Inl InvalidArgument
                     | Some nxt \<Rightarrow> verhoeff_check_loop (i + 1) cs nxt))))"

definition verhoeff_check_digit :: "string \<Rightarrow> u8 result" where
  "verhoeff_check_digit digits =
     bindR (verhoeff_check_loop 0 (rev digits) 0) (\<lambda>c. ok_or InvalidArgument (list_get VERHOEFF_INV (unat c)))"

fun verhoeff_valid_loop :: "nat \<Rightarrow> bytes \<Rightarrow> u8 \<Rightarrow> bool" where
  "verhoeff_valid_loop i [] c \<longleftrightarrow> c = 0"
| "verhoeff_valid_loop i (digit # ds) c \<longleftrightarrow>
     (if digit > 9 then False
      else case (list_get VERHOEFF_P (i mod 8), list_get VERHOEFF_D (unat c)) of
        (Some row, Some table) \<Rightarrow>
          (case list_get row (unat digit) of
             None \<Rightarrow> False
           | Some permuted \<Rightarrow>
               (case list_get table (unat permuted) of
                  None \<Rightarrow> False
                | Some nxt \<Rightarrow> verhoeff_valid_loop (i + 1) ds nxt))
      | _ \<Rightarrow> False)"

definition verhoeff_is_valid :: "bytes \<Rightarrow> bool" where
  "verhoeff_is_valid digits \<longleftrightarrow> verhoeff_valid_loop 0 (rev digits) 0"

section \<open>The manual pairing code\<close>

text \<open>\<^verbatim>\<open>push_digits\<close> fills a scratch buffer of ten digits from the right.\<close>

fun digits_loop :: "nat \<Rightarrow> u32 \<Rightarrow> string \<Rightarrow> string \<times> u32" where
  "digits_loop 0 v acc = (acc, v)"
| "digits_loop (Suc width) v acc =
     digits_loop width (v div 10) (char_of (unat (saturating_add 48 (ucast (v mod 10) :: u8))) # acc)"

definition push_digits :: "nat \<Rightarrow> u32 \<Rightarrow> nat \<Rightarrow> (string, unit) mutator" where
  "push_digits N v width =
     (if width > 10 then failE InvalidArgument
      else let (text, rest) = digits_loop width v [] in
        if rest \<noteq> 0 then failE InvalidArgument else push_str N text)"

definition bounded :: "u32 \<Rightarrow> u32 \<Rightarrow> u32 result" where
  "bounded v m = (if v > m then Inl InvalidArgument else Inr v)"

fun digits_fold :: "bytes \<Rightarrow> u32 \<Rightarrow> u32 result" where
  "digits_fold [] v = Inr v"
| "digits_fold (d # ds) v =
     bindR (ok_or InvalidArgument (Option.bind (checked_mul v 10) (\<lambda>v. checked_add v (ucast d)))) (digits_fold ds)"

definition digits_value :: "bytes \<Rightarrow> nat \<Rightarrow> nat \<Rightarrow> u32 result" where
  "digits_value digits start width =
     bindR (ok_or InvalidArgument (usize_checked_add start width)) (\<lambda>e.
     bindR (ok_or InvalidArgument (slice_get digits start e)) (\<lambda>slice. digits_fold slice 0))"

definition manual_first :: "bool \<Rightarrow> OnboardingPayload \<Rightarrow> u32" where
  "manual_first include_vid_pid p =
     push_bit 2 (of_bool include_vid_pid) OR drop_bit 10 (ucast (op_discriminator p AND DISCRIMINATOR_MASK))"

definition manual_group2 :: "OnboardingPayload \<Rightarrow> u32" where
  "manual_group2 p =
     push_bit 6 (ucast (op_discriminator p AND DISCRIMINATOR_MASK) AND 0x300) OR (op_passcode p AND 0x3FFF)"

definition to_manual_code :: "bool \<Rightarrow> OnboardingPayload \<Rightarrow> string result" where
  "to_manual_code include_vid_pid p =
     (if \<not> include_vid_pid \<and> op_custom_flow p \<noteq> Standard then Inl InvalidArgument
      else
        let N = MANUAL_CODE_MAX_DIGITS in
        case bindE (push_digits N (manual_first include_vid_pid p) 1) (\<lambda>_.
             bindE (push_digits N (manual_group2 p) 5) (\<lambda>_.
             bindE (push_digits N (drop_bit 14 (op_passcode p)) 4) (\<lambda>_.
             bindE (if include_vid_pid
                    then bindE (push_digits N (ucast (op_vendor_id p)) 5) (\<lambda>_. push_digits N (ucast (op_product_id p)) 5)
                    else retE ()) (\<lambda>_.
             bindE getE (\<lambda>out.
             bindE (liftE (verhoeff_check_digit out)) (\<lambda>check.
             push_digits N (ucast check) 1)))))) [] of
          (Inl e, _) \<Rightarrow> Inl e
        | (Inr _, out) \<Rightarrow> Inr out)"

fun manual_digits :: "string \<Rightarrow> (bytes, unit) mutator" where
  "manual_digits [] = retE ()"
| "manual_digits (c # cs) =
     (if c \<in> set ''0123456789'' then
        (\<lambda>digits. case vec_push MANUAL_CODE_MAX_DIGITS digits (ascii_u8 c - 48) of
           None \<Rightarrow> (Inl InvalidArgument, digits)
         | Some digits \<Rightarrow> manual_digits cs digits)
      else if c \<in> {CHR ''-'', CHR '' ''} then manual_digits cs
      else failE InvalidArgument)"

definition manual_payload :: "bytes \<Rightarrow> bool \<Rightarrow> OnboardingPayload result" where
  "manual_payload digits expect_vid_pid =
     (if \<not> verhoeff_is_valid digits then Inl IntegrityCheckFailed
      else
        let first = (ucast (case digits of [] \<Rightarrow> 0 | d # _ \<Rightarrow> d) :: u32);
            vid_pid_present = (first AND 4 \<noteq> 0) in
        if first > 7 then Inl UnsupportedVersion
        else if vid_pid_present \<noteq> expect_vid_pid then Inl InvalidArgument
        else
          bindR (bindR (digits_value digits 1 5) (\<lambda>v. bounded v 0xFFFF)) (\<lambda>group2.
          bindR (bindR (digits_value digits 6 4) (\<lambda>v. bounded v 0x1FFF)) (\<lambda>group3.
          let discriminator = (ucast (push_bit 10 (first AND 3) OR drop_bit 6 (group2 AND 0xC000)) :: u16) in
          bindR (passcode_new ((group2 AND 0x3FFF) OR push_bit 14 group3)) (\<lambda>passcode.
          bindR (if vid_pid_present then
                   bindR (bindR (digits_value digits 10 5) (\<lambda>v. bounded v 0xFFFF)) (\<lambda>vid.
                   bindR (bindR (digits_value digits 15 5) (\<lambda>v. bounded v 0xFFFF)) (\<lambda>pid.
                   Inr (ucast vid, ucast pid)))
                 else Inr (0, 0)) (\<lambda>(vid, pid).
          Inr \<lparr>op_vendor_id = vid, op_product_id = pid,
               op_custom_flow = (if vid_pid_present then UserIntent else Standard), op_discovery = 0,
               op_discriminator = discriminator, op_passcode = passcode\<rparr>)))))"

definition from_manual_code :: "string \<Rightarrow> OnboardingPayload result" where
  "from_manual_code text =
     (case manual_digits text [] of
        (Inl e, _) \<Rightarrow> Inl e
      | (Inr _, digits) \<Rightarrow>
          (if length digits = 11 then manual_payload digits False
           else if length digits = 21 then manual_payload digits True
           else Inl InvalidArgument))"

section \<open>Packed bits\<close>

definition stream :: "bytes \<Rightarrow> nat \<Rightarrow> bool" where
  "stream bs k = bit (bs ! (k div 8)) (k mod 8)"

lemma shifted_out: "(drop_bit i (v :: 'a::len word) AND 1 = 1) = bit v i"
  by (simp add: bit_iff_odd_drop_bit and_one_eq odd_iff_mod_2_eq_one)

lemma length_bw_set [simp]: "length (bw_set i bs) = length bs"
  by (simp add: bw_set_def)

lemma stream_bw_set:
  assumes "i < 8 * length bs" "k < 8 * length bs"
  shows "stream (bw_set i bs) k \<longleftrightarrow> stream bs k \<or> k = i"
proof -
  have i: "i div 8 < length bs" using assms(1) by (simp add: less_mult_imp_div_less mult.commute)
  have "k = i \<longleftrightarrow> k div 8 = i div 8 \<and> k mod 8 = i mod 8" by (metis div_mult_mod_eq)
  then show ?thesis
    using i by (auto simp: stream_def bw_set_def nth_list_update bit_or_iff bit_push_bit_iff bit_1_iff bit_exp_iff)
qed

lemma bw_push_loop:
  fixes v :: u64
  assumes "b + n \<le> 8 * length bs"
  defines "bs' \<equiv> fold (\<lambda>i bs. if drop_bit i v AND 1 = 1 then bw_set (b + i) bs else bs) [0..<n] bs"
  shows "length bs' = length bs \<and> (\<forall>k < 8 * length bs. stream bs' k \<longleftrightarrow> stream bs k \<or> b \<le> k \<and> k < b + n \<and> bit v (k - b))"
  using assms(1) unfolding bs'_def
proof (induction n)
  case (Suc n)
  let ?bs = "fold (\<lambda>i bs. if drop_bit i v AND 1 = 1 then bw_set (b + i) bs else bs) [0..<n] bs"
  have IH: "length ?bs = length bs" "\<And>k. k < 8 * length bs \<Longrightarrow> stream ?bs k \<longleftrightarrow> stream bs k \<or> b \<le> k \<and> k < b + n \<and> bit v (k - b)"
    using Suc by auto
  have "stream (bw_set (b + n) ?bs) k \<longleftrightarrow> stream ?bs k \<or> k = b + n" if "k < 8 * length bs" for k
    using stream_bw_set [of "b + n" ?bs k] that Suc.prems IH(1) by simp
  then show ?case using IH by (auto simp: shifted_out less_Suc_eq)
qed auto

text \<open>A writer that has written only behind its position, and a field that stands in the octets.\<close>

definition bw_fresh :: "BitWriter \<Rightarrow> bool" where
  "bw_fresh w \<longleftrightarrow> length (bw_bytes w) = PACKED_LEN \<and> (\<forall>k < 88. bw_bit w \<le> k \<longrightarrow> \<not> stream (bw_bytes w) k)"

definition field_at :: "bytes \<Rightarrow> nat \<Rightarrow> nat \<Rightarrow> u64 \<Rightarrow> bool" where
  "field_at bs b n v \<longleftrightarrow> (\<forall>i < n. stream bs (b + i) = bit v i)"

lemma bw_push_bit [simp]: "bw_bit (bw_push v n w) = bw_bit w + n"
  by (simp add: bw_push_def)

lemma bw_push_field:
  assumes "bw_fresh w" and "bw_bit w + n \<le> 88"
  shows "bw_fresh (bw_push v n w)" and "field_at (bw_bytes (bw_push v n w)) (bw_bit w) n v"
    and "field_at (bw_bytes w) b m u \<Longrightarrow> b + m \<le> bw_bit w \<Longrightarrow> field_at (bw_bytes (bw_push v n w)) b m u"
proof -
  have l: "8 * length (bw_bytes w) = 88" using assms(1) by (simp add: bw_fresh_def PACKED_LEN_def)
  note p = bw_push_loop [of "bw_bit w" n "bw_bytes w" v, unfolded l, OF assms(2)]
  have s: "stream (bw_bytes (bw_push v n w)) k \<longleftrightarrow> stream (bw_bytes w) k \<or> bw_bit w \<le> k \<and> k < bw_bit w + n \<and> bit v (k - bw_bit w)"
    if "k < 88" for k using p that by (simp add: bw_push_def)
  show "bw_fresh (bw_push v n w)" using assms p s by (auto simp: bw_fresh_def bw_push_def)
  show "field_at (bw_bytes (bw_push v n w)) (bw_bit w) n v" using assms s by (auto simp: field_at_def bw_fresh_def)
  show "field_at (bw_bytes w) b m u \<Longrightarrow> b + m \<le> bw_bit w \<Longrightarrow> field_at (bw_bytes (bw_push v n w)) b m u"
    using assms(2) s by (auto simp: field_at_def)
qed

lemma br_loop_bits:
  assumes "\<forall>i \<in> set ix. br_bit r + i < 8 * length (br_bytes r)"
  shows "\<exists>w. br_loop ix v r = Inr w \<and> (\<forall>j < 64. bit w j \<longleftrightarrow> bit v j \<or> j \<in> set ix \<and> stream (br_bytes r) (br_bit r + j))"
  using assms
proof (induction ix arbitrary: v)
  case (Cons i ix)
  let ?k = "br_bit r + i"
  have k: "?k div 8 < length (br_bytes r)" using Cons.prems by (simp add: less_mult_imp_div_less mult.commute)
  let ?v = "if stream (br_bytes r) ?k then v OR push_bit i 1 else v"
  have st: "br_loop (i # ix) v r = br_loop ix ?v r"
    using k by (simp add: list_get_def stream_def shifted_out)
  obtain w where w: "br_loop ix ?v r = Inr w"
      "\<And>j. j < 64 \<Longrightarrow> bit w j \<longleftrightarrow> bit ?v j \<or> j \<in> set ix \<and> stream (br_bytes r) (br_bit r + j)"
    using Cons.IH [of ?v] Cons.prems by auto
  have "bit ?v j \<longleftrightarrow> bit v j \<or> j = i \<and> stream (br_bytes r) ?k" if "j < 64" for j
    using that by (auto simp: bit_or_iff bit_push_bit_iff bit_1_iff bit_exp_iff)
  then show ?case using st w by auto
qed simp

lemma br_take_field:
  assumes "field_at bs b n v" and "b + n \<le> 8 * length bs" and "n \<le> 64"
  shows "br_take n \<lparr>br_bytes = bs, br_bit = b\<rparr> = (Inr (take_bit n v), \<lparr>br_bytes = bs, br_bit = b + n\<rparr>)"
proof -
  let ?r = "\<lparr>br_bytes = bs, br_bit = b\<rparr>"
  obtain w where w: "br_loop [0..<n] 0 ?r = Inr w" "\<And>j. j < 64 \<Longrightarrow> bit w j \<longleftrightarrow> j < n \<and> stream bs (b + j)"
    using br_loop_bits [of "[0..<n]" ?r 0] assms(2) by auto
  have "w = take_bit n v"
    using w(2) assms by (intro bit_word_eqI) (auto simp: bit_take_bit_iff field_at_def)
  then show ?thesis using w(1) by (simp add: br_take_def)
qed

definition payload_ok :: "OnboardingPayload \<Rightarrow> bool" where
  "payload_ok p \<longleftrightarrow> op_discriminator p \<le> DISCRIMINATOR_MASK \<and> passcode_new (op_passcode p) = Inr (op_passcode p)"

text \<open>The fields of the structure in the order they are pushed, with their widths.\<close>

definition push_fields :: "(u64 \<times> nat) list \<Rightarrow> BitWriter \<Rightarrow> BitWriter" where
  "push_fields fs w = fold (\<lambda>(v, n). bw_push v n) fs w"

lemma push_fields_keep:
  "bw_fresh w \<Longrightarrow> bw_bit w + sum_list (map snd fs) \<le> 88 \<Longrightarrow> field_at (bw_bytes w) b m u \<Longrightarrow> b + m \<le> bw_bit w \<Longrightarrow>
   bw_fresh (push_fields fs w) \<and> field_at (bw_bytes (push_fields fs w)) b m u"
proof (induction fs arbitrary: w)
  case (Cons f fs)
  obtain v n where f: "f = (v, n)" by (cases f)
  have w: "bw_bit w + n \<le> 88" using Cons.prems(2) f by simp
  show ?case
    using Cons.IH [OF bw_push_field(1) [OF Cons.prems(1) w, of v]] bw_push_field(3) [OF Cons.prems(1) w Cons.prems(3,4), of v] Cons.prems f
    by (simp add: push_fields_def)
qed (simp add: push_fields_def)

lemma push_fields_at:
  assumes "bw_fresh w" "bw_bit w + sum_list (map snd fs) + n + sum_list (map snd gs) \<le> 88"
  shows "field_at (bw_bytes (push_fields (fs @ (v, n) # gs) w)) (bw_bit w + sum_list (map snd fs)) n v"
  using assms
proof (induction fs arbitrary: w)
  case Nil
  then have w: "bw_bit w + n \<le> 88" by simp
  show ?case
    using push_fields_keep [OF bw_push_field(1) [OF Nil.prems(1) w] _ bw_push_field(2) [OF Nil.prems(1) w]] Nil.prems(2)
    by (simp add: push_fields_def)
next
  case (Cons f fs)
  obtain u m where f: "f = (u, m)" by (cases f)
  have w: "bw_bit w + m \<le> 88" using Cons.prems(2) f by simp
  show ?case using Cons.IH [OF bw_push_field(1) [OF Cons.prems(1) w, of u]] Cons.prems(2) f by (simp add: push_fields_def add.assoc)
qed

definition payload_fields :: "OnboardingPayload \<Rightarrow> (u64 \<times> nat) list" where
  "payload_fields p = [(0, 3), (ucast (op_vendor_id p), 16), (ucast (op_product_id p), 16),
     (custom_flow_value (op_custom_flow p), 2), (ucast (op_discovery p), 8),
     (ucast (op_discriminator p AND DISCRIMINATOR_MASK), 12), (ucast (op_passcode p), 27)]"

lemma pack_field_at:
  assumes "payload_fields p = fs @ (v, n) # gs" and "b = sum_list (map snd fs)"
  shows "field_at (pack p) b n v"
proof -
  have f: "bw_fresh bit_writer_new" by (simp add: bw_fresh_def bit_writer_new_def stream_def PACKED_LEN_def)
  have "sum_list (map snd (payload_fields p)) = 84" by (simp add: payload_fields_def)
  then have "sum_list (map snd fs) + n + sum_list (map snd gs) \<le> 88" using assms(1) by simp
  then have "field_at (bw_bytes (push_fields (fs @ (v, n) # gs) bit_writer_new)) (sum_list (map snd fs)) n v"
    using push_fields_at [OF f, of fs n gs v] by (simp add: bit_writer_new_def)
  moreover have "pack p = bw_bytes (push_fields (payload_fields p) bit_writer_new)"
    by (simp add: pack_def push_fields_def payload_fields_def)
  ultimately show ?thesis using assms by simp
qed

lemma pack_field_nth:
  assumes "i < length (payload_fields p)"
  shows "field_at (pack p) (sum_list (map snd (take i (payload_fields p)))) (snd (payload_fields p ! i)) (fst (payload_fields p ! i))"
  using id_take_nth_drop [OF assms]
  by (intro pack_field_at [where fs = "take i (payload_fields p)" and gs = "drop (Suc i) (payload_fields p)"]) simp_all

lemma pack_fields:
  "field_at (pack p) 0 3 0" "field_at (pack p) 3 16 (ucast (op_vendor_id p))"
  "field_at (pack p) 19 16 (ucast (op_product_id p))" "field_at (pack p) 35 2 (custom_flow_value (op_custom_flow p))"
  "field_at (pack p) 37 8 (ucast (op_discovery p))"
  "field_at (pack p) 45 12 (ucast (op_discriminator p AND DISCRIMINATOR_MASK))" "field_at (pack p) 57 27 (ucast (op_passcode p))"
  using pack_field_nth [of 0 p] pack_field_nth [of 1 p] pack_field_nth [of 2 p] pack_field_nth [of 3 p] pack_field_nth [of 4 p]
    pack_field_nth [of 5 p] pack_field_nth [of 6 p]
  by (simp_all add: payload_fields_def)

lemma packed_length: "length (pack p) = 11"
proof -
  have "length (bw_bytes (bw_push v n w)) = length (bw_bytes w)" for v n w
  proof -
    have "length (fold (\<lambda>i bs. if drop_bit i v AND 1 = 1 then bw_set (b + i) bs else bs) ix bs) = length bs" for ix b bs
      by (induction ix arbitrary: bs) auto
    then show ?thesis by (simp add: bw_push_def)
  qed
  then show ?thesis by (simp add: pack_def bit_writer_new_def PACKED_LEN_def)
qed

lemma custom_flow_bits: "custom_flow_from_bits (ucast (take_bit 2 (custom_flow_value f))) = Inr f"
  by (cases f) (simp_all add: custom_flow_from_bits_def)

lemma passcode_ok: "passcode_new v = Inr w \<Longrightarrow> w = v \<and> unat v < 2 ^ 27 \<and> passcode_new v = Inr v"
  by (auto simp: passcode_new_def Passcode_MAX_def word_le_nat_alt not_less split: if_splits)

lemma ucast_narrow:
  assumes "unat (x :: 'a::len word) < 2 ^ n"
  shows "take_bit n (ucast x :: u64) = ucast x"
proof -
  have "take_bit n x = x" using assms by (simp add: word_unat_eq_iff unsigned_take_bit_eq take_bit_nat_eq_self)
  then have "bit x k \<Longrightarrow> k < n" for k by (metis bit_take_bit_iff)
  then show ?thesis by (intro bit_word_eqI) (auto simp: bit_take_bit_iff bit_ucast_iff)
qed

lemma discriminator_ok: "d \<le> DISCRIMINATOR_MASK \<Longrightarrow> unat d < 2 ^ 12 \<and> d AND DISCRIMINATOR_MASK = d" for d :: u16
proof -
  assume "d \<le> DISCRIMINATOR_MASK"
  then have u: "unat d < 2 ^ 12" by (simp add: DISCRIMINATOR_MASK_def word_le_nat_alt)
  have "(DISCRIMINATOR_MASK :: u16) = mask 12" by (simp add: DISCRIMINATOR_MASK_def mask_eq_exp_minus_1)
  then have "d AND DISCRIMINATOR_MASK = take_bit 12 d" by (simp add: take_bit_eq_mask)
  also have "\<dots> = d" using u by (simp add: word_unat_eq_iff unsigned_take_bit_eq take_bit_nat_eq_self)
  finally show ?thesis using u by simp
qed

lemma ucast_back:
  "ucast (ucast (x :: u16) :: u64) = x" "ucast (ucast (y :: u8) :: u64) = y" "ucast (ucast (z :: u32) :: u64) = z"
  by (rule bit_word_eqI; simp add: bit_ucast_iff)+

lemma payload_unpacks:
  assumes "payload_ok p"
  shows "unpack (pack p) = Inr p"
proof -
  have pc: "passcode_new (op_passcode p) = Inr (op_passcode p)" "unat (op_passcode p) < 2 ^ 27"
    using assms passcode_ok [of "op_passcode p"] by (auto simp: payload_ok_def)
  have dc: "op_discriminator p AND DISCRIMINATOR_MASK = op_discriminator p" "unat (op_discriminator p) < 2 ^ 12"
    using assms discriminator_ok [of "op_discriminator p"] by (auto simp: payload_ok_def)
  have v: "unat (op_vendor_id p) < 2 ^ 16" "unat (op_product_id p) < 2 ^ 16" "unat (op_discovery p) < 2 ^ 8"
    using unat_lt_len [of "op_vendor_id p"] unat_lt_len [of "op_product_id p"] unat_lt_len [of "op_discovery p"] by simp_all
  note tk = pack_fields [of p, THEN br_take_field, unfolded packed_length dc(1)]
  note narrow = ucast_narrow [OF v(1)] ucast_narrow [OF v(2)] ucast_narrow [OF v(3)] ucast_narrow [OF dc(2)] ucast_narrow [OF pc(2)]
  have sl: "slice_get (pack p) 0 PACKED_LEN = Some (pack p)" by (simp add: slice_get_def PACKED_LEN_def packed_length)
  have "unpack_fields \<lparr>br_bytes = pack p, br_bit = 0\<rparr> = (Inr p, \<lparr>br_bytes = pack p, br_bit = 84\<rparr>)"
    unfolding unpack_fields_def bindE_def
    by (simp add: tk narrow custom_flow_bits pc(1) ucast_back)
  then show ?thesis by (simp add: unpack_def sl bit_reader_new_def)
qed

section \<open>Base 38, abstractly\<close>

fun base38_text :: "nat \<Rightarrow> nat \<Rightarrow> string" where
  "base38_text 0 v = []"
| "base38_text (Suc width) v = ALPHABET ! (v mod 38) # base38_text width (v div 38)"

fun chunk_chars :: "nat \<Rightarrow> nat" where
  "chunk_chars n = (if n = 3 then 5 else if n = 2 then 4 else if n = 1 then 2 else 0)"

declare chunk_chars.simps [simp del]

definition chunk_text :: "bytes \<Rightarrow> string" where
  "chunk_text c = base38_text (chunk_chars (length c)) (from_le c)"

definition base38 :: "bytes \<Rightarrow> string" where
  "base38 data = concat (map chunk_text (chunks 3 data))"

lemma length_base38_text [simp]: "length (base38_text w v) = w"
  by (induction w arbitrary: v) auto

lemma length_ALPHABET: "length ALPHABET = 38" by (simp add: ALPHABET_def)

lemma distinct_ALPHABET: "distinct ALPHABET" by (simp add: ALPHABET_def)

lemma set_base38_text: "set (base38_text w v) \<subseteq> set ALPHABET"
  by (induction w arbitrary: v) (auto simp: length_ALPHABET intro!: nth_mem)

lemma chunk_shape:
  assumes "c \<noteq> []" and "length c \<le> 3"
  obtains a where "c = [a]" | a b where "c = [a, b]" | a b d where "c = [a, b, d]"
proof -
  obtain x xs where "c = x # xs" using assms by (cases c) auto
  then show ?thesis using assms(2) that by (cases xs rule: list.exhaust; cases "tl xs") auto
qed

lemma octet_bits: "bit (ucast (a :: u8) :: u32) n \<Longrightarrow> n < 8"
  by (auto simp: bit_ucast_iff dest: bit_imp_le_length)

lemma base38_chunk_value:
  assumes "c \<noteq> []" and "length c \<le> 3"
  shows "base38_chunk c = Inr (word_of_nat (from_le c), chunk_chars (length c))"
proof -
  note bits = bit_ucast_iff bit_word_of_nat_iff bit_from_le_Cons bit_or_iff bit_push_bit_iff
  have "(ucast a :: u32) = word_of_nat (from_le [a])" for a :: u8
    by (rule bit_word_eqI) (auto simp del: from_le.simps(2) simp: bits dest: bit_imp_le_length)
  moreover have "(ucast a OR push_bit 8 (ucast b) :: u32) = word_of_nat (from_le [a, b])" for a b :: u8
    by (rule bit_word_eqI) (auto simp del: from_le.simps(2) simp: bits dest: bit_imp_le_length)
  moreover have "(ucast a OR push_bit 8 (ucast b) OR push_bit 16 (ucast d) :: u32) = word_of_nat (from_le [a, b, d])" for a b d :: u8
    by (rule bit_word_eqI) (auto simp del: from_le.simps(2) simp: bits dest: bit_imp_le_length)
  ultimately show ?thesis
    by (cases rule: chunk_shape [OF assms]) (simp_all del: from_le.simps(2) add: chunk_chars.simps)
qed

lemma base38_push_text:
  "length s + w \<le> N \<Longrightarrow> base38_push N w v s = (Inr (), s @ base38_text w (unat v))"
proof (induction w arbitrary: v s)
  case (Suc w)
  have "unat (v mod 38) = unat v mod 38" "unat (v div 38) = unat v div 38" by (simp_all add: unat_mod_word unat_div_word)
  then show ?case using Suc by (simp add: list_get_def length_ALPHABET str_push_def bindE_def)
qed simp

lemma chunks_Cons: "xs \<noteq> [] \<Longrightarrow> 0 < n \<Longrightarrow> chunks n xs = take n xs # chunks n (drop n xs)"
  by (subst chunks.simps) simp

lemma chunks_Nil [simp]: "chunks n [] = []"
  by (subst chunks.simps) simp

lemma chunks_member: "c \<in> set (chunks n xs) \<Longrightarrow> c \<noteq> [] \<and> length c \<le> n"
proof (induction n xs rule: chunks.induct)
  case (1 n xs)
  then show ?case by (cases "xs = [] \<or> n = 0") (auto simp: chunks.simps [of n xs])
qed

lemma from_le_u32:
  assumes "length c \<le> 3"
  shows "unat (word_of_nat (from_le c) :: u32) = from_le c"
proof -
  have "from_le c < 256 ^ length c" by (rule from_le_bound)
  also have "\<dots> \<le> 256 ^ 3" using assms by (rule power_increasing) simp
  finally show ?thesis by (intro unat_of_nat_small) simp
qed

lemma base38_encode_chunks_text:
  assumes "\<And>c. c \<in> set cs \<Longrightarrow> c \<noteq> [] \<and> length c \<le> 3" and "length s + length (concat (map chunk_text cs)) \<le> N"
  shows "base38_encode_chunks N cs s = (Inr (), s @ concat (map chunk_text cs))"
  using assms
proof (induction cs arbitrary: s)
  case (Cons c cs)
  then have "base38_chunk c = Inr (word_of_nat (from_le c), chunk_chars (length c))" by (intro base38_chunk_value) auto
  moreover have "base38_push N (chunk_chars (length c)) (word_of_nat (from_le c)) s = (Inr (), s @ chunk_text c)"
    using Cons.prems base38_push_text [of s "chunk_chars (length c)" N "word_of_nat (from_le c)"] from_le_u32 [of c]
    by (simp add: chunk_text_def)
  ultimately show ?case using Cons by (simp add: bindE_def chunk_text_def)
qed simp

lemma base38_encodes: "length s + length (base38 data) \<le> N \<Longrightarrow> base38_encode N data s = (Inr (), s @ base38 data)"
  unfolding base38_encode_def base38_def
  by (rule base38_encode_chunks_text) (auto dest: chunks_member)

section \<open>Reading base 38 back\<close>

lemma position_ALPHABET: "i < 38 \<Longrightarrow> position (\<lambda>a. a = ALPHABET ! i) ALPHABET = Some i"
proof -
  assume i: "i < 38"
  then obtain j where j: "position (\<lambda>a. a = ALPHABET ! i) ALPHABET = Some j"
    using position_None [of "\<lambda>a. a = ALPHABET ! i" ALPHABET] nth_mem [of i ALPHABET] length_ALPHABET by (cases "position (\<lambda>a. a = ALPHABET ! i) ALPHABET") auto
  then show ?thesis
    using position_Some [OF j] i distinct_ALPHABET length_ALPHABET by (auto simp: nth_eq_iff_index_eq)
qed

lemma base38_value_append: "base38_value (xs @ ys) v = bindR (base38_value xs v) (base38_value ys)"
proof (induction xs arbitrary: v)
  case (Cons x xs)
  show ?case
    by (cases "position (\<lambda>a. a = x) ALPHABET"; cases "Option.bind (checked_mul v 38) (\<lambda>v. checked_add v (word_of_nat (the (position (\<lambda>a. a = x) ALPHABET))))")
      (simp_all add: Cons)
qed simp

lemma base38_value_text: "w \<le> 5 \<Longrightarrow> v < 38 ^ w \<Longrightarrow> base38_value (rev (base38_text w v)) 0 = Inr (word_of_nat v)"
proof (induction w arbitrary: v)
  case (Suc w)
  have "v div 38 < 38 ^ w" using Suc.prems(2) by (simp add: less_mult_imp_div_less mult.commute)
  then have IH: "base38_value (rev (base38_text w (v div 38))) 0 = Inr (word_of_nat (v div 38))" using Suc by simp
  have "v < 38 ^ 5" using Suc.prems power_increasing [of "Suc w" 5 "38::nat"] by simp
  then have v: "v < 2 ^ 32" by simp
  have d: "unat (word_of_nat (v div 38) :: u32) = v div 38" using v by (intro unat_of_nat_small) (simp add: div_le_dividend le_less_trans)
  have le: "v div 38 * 38 + v mod 38 = v" by simp
  then have m: "checked_mul (word_of_nat (v div 38) :: u32) 38 = Some (word_of_nat (v div 38 * 38))"
    using d v by (simp add: checked_mul_def)
  have "unat (word_of_nat (v div 38 * 38) :: u32) = v div 38 * 38" using le_less_trans [OF div_times_less_eq_dividend v] by (intro unat_of_nat_small) simp
  moreover have "unat (word_of_nat (v mod 38) :: u32) = v mod 38" by (intro unat_of_nat_small) (simp add: less_le_trans)
  moreover have "word_of_nat (v div 38 * 38) + word_of_nat (v mod 38) = (word_of_nat v :: u32)"
    unfolding of_nat_add [symmetric] le ..
  ultimately have "checked_add (word_of_nat (v div 38 * 38)) (word_of_nat (v mod 38)) = Some (word_of_nat v :: u32)"
    using v le by (simp only: checked_add_def) simp
  then show ?case using IH m position_ALPHABET [of "v mod 38"] by (simp add: base38_value_append)
qed simp

lemma base38_octets_write:
  "written + m \<le> length out \<Longrightarrow>
   base38_octets [i..<i + m] v (written, out) = (Inr (), (written + m, overwrite out written (to_le m (unat v div 256 ^ i))))"
proof (induction m arbitrary: i written out)
  case (Suc m)
  let ?b = "ucast (drop_bit (i * 8) v) :: u8"
  have b: "?b = word_of_nat (unat v div 256 ^ i)"
  proof -
    have "(2 :: nat) ^ (i * 8) = 256 ^ i" using power_mult [of "2 :: nat" 8 i] by (simp add: mult.commute)
    moreover have "unat ?b = take_bit 8 (drop_bit (i * 8) (unat v))" by (simp add: unsigned_ucast_eq unat_drop_bit_eq)
    ultimately have "unat ?b = unat v div 256 ^ i mod 256" by (simp add: drop_bit_eq_div take_bit_eq_mod)
    then show ?thesis by (simp add: word_unat_eq_iff unat_word_of_nat_u8)
  qed
  have "[i..<i + Suc m] = i # [Suc i..<Suc i + m]" by (simp add: upt_conv_Cons)
  then have "base38_octets [i..<i + Suc m] v (written, out) = base38_octets [Suc i..<Suc i + m] v (Suc written, out[written := ?b])"
    using Suc.prems by simp
  also have "\<dots> = (Inr (), (written + Suc m, overwrite (out[written := ?b]) (Suc written) (to_le m (unat v div 256 ^ Suc i))))"
    using Suc.IH [of "Suc written" "out[written := ?b]" "Suc i"] Suc.prems by simp
  also have "overwrite (out[written := ?b]) (Suc written) (to_le m (unat v div 256 ^ Suc i)) = overwrite out written (to_le (Suc m) (unat v div 256 ^ i))"
    using Suc.prems b div_mult2_eq [of "unat v" "256 ^ i" 256] by (simp add: overwrite_def take_Suc_conv_app_nth mult.commute)
  finally show ?case by simp
qed (simp add: overwrite_def)

text \<open>One group of characters gives back the octets it was made from.\<close>

lemma chunk_value_text:
  assumes "c \<noteq> []" and "length c \<le> 3"
  shows "base38_width (length (chunk_text c)) = Inr (length c)" "base38_value (rev (chunk_text c)) 0 = Inr (word_of_nat (from_le c))"
    "length (chunk_text c) = 5 \<or> length c < 3" "length (chunk_text c) \<le> 5" "chunk_text c \<noteq> []"
proof -
  have l: "length c = 1 \<or> length c = 2 \<or> length c = 3" using assms by (cases rule: chunk_shape [OF assms]) auto
  then have v: "from_le c < 38 ^ chunk_chars (length c)" "chunk_chars (length c) \<le> 5"
    using from_le_bound [of c] by (auto simp: chunk_chars.simps)
  show "base38_value (rev (chunk_text c)) 0 = Inr (word_of_nat (from_le c))"
    unfolding chunk_text_def using v by (intro base38_value_text)
  show "base38_width (length (chunk_text c)) = Inr (length c)" "length (chunk_text c) = 5 \<or> length c < 3" "length (chunk_text c) \<le> 5"
    using l by (auto simp: chunk_text_def chunk_chars.simps base38_width_def)
  have "length (chunk_text c) \<noteq> 0" using l by (auto simp: chunk_text_def chunk_chars.simps)
  then show "chunk_text c \<noteq> []" by auto
qed

lemma base38_decode_chunk:
  assumes "c \<noteq> []" and "length c \<le> 3" and "written + length c \<le> length out"
  shows "base38_decode_chunks (chunk_text c # cs) (written, out)
    = base38_decode_chunks cs (written + length c, overwrite out written c)"
proof -
  note v = chunk_value_text [OF assms(1,2)]
  have lim: "from_le c < 256 ^ length c" by (rule from_le_bound)
  let ?limit = "case checked_shl (1 :: u32) (saturating_mul (word_of_nat (length c)) 8) of None \<Rightarrow> - 1 | Some l \<Rightarrow> l"
  have "length c \<in> {1, 2, 3}" using assms(1,2) by (cases rule: chunk_shape [OF assms(1,2)]) auto
  then have "unat ?limit = 256 ^ length c" by (auto simp: checked_shl_def saturating_mul_def)
  then have "\<not> ?limit \<le> word_of_nat (from_le c)" using lim from_le_u32 [OF assms(2)] by (simp add: word_le_nat_alt)
  moreover have "base38_octets [0..<length c] (word_of_nat (from_le c)) (written, out)
      = (Inr (), (written + length c, overwrite out written c))"
    using base38_octets_write [OF assms(3), of 0 "word_of_nat (from_le c)"] from_le_u32 [OF assms(2)] to_le_from_le [of c] by simp
  ultimately show ?thesis using v(1,2) by (simp add: bindE_def Let_def)
qed

lemma chunks_append:
  assumes "length xs = n" "0 < n"
  shows "chunks n (xs @ ys) = xs # chunks n ys"
  using assms chunks_Cons [of "xs @ ys" n] by auto

lemma chunks_short: "xs \<noteq> [] \<Longrightarrow> length xs \<le> n \<Longrightarrow> chunks n xs = [xs]"
  using chunks_Cons [of xs n] by (cases "n = 0") auto

text \<open>The characters of a text group the way its octets did.\<close>

lemma chunks_base38: "chunks 5 (base38 data) = map chunk_text (chunks 3 data)"
proof (induction "length data" arbitrary: data rule: less_induct)
  case less
  show ?case
  proof (cases "data = []")
    case False
    then have c: "chunks 3 data = take 3 data # chunks 3 (drop 3 data)" by (rule chunks_Cons) simp
    have ne: "take 3 data \<noteq> []" "length (take 3 data) \<le> 3" using False by auto
    note t = chunk_value_text [OF ne]
    show ?thesis
    proof (cases "length data < 3")
      case True
      then show ?thesis using c chunks_short [OF t(5,4)] by (simp add: base38_def)
    next
      case full: False
      then have "length (chunk_text (take 3 data)) = 5" using t(3) by auto
      moreover have "base38 data = chunk_text (take 3 data) @ base38 (drop 3 data)" using c by (simp add: base38_def)
      moreover have "length (drop 3 data) < length data" using False by simp
      ultimately show ?thesis using chunks_append [of "chunk_text (take 3 data)" 5] less [of "drop 3 data"] c by simp
    qed
  qed (simp add: base38_def)
qed

lemma overwrite_chain: "a + length xs + length ys \<le> length out \<Longrightarrow>
    overwrite (overwrite out a xs) (a + length xs) ys = overwrite out a (xs @ ys)"
  by (simp add: overwrite_def ac_simps)

lemma base38_decode_chunks_text:
  "\<forall>c \<in> set cs. c \<noteq> [] \<and> length c \<le> 3 \<Longrightarrow> written + length (concat cs) \<le> length out \<Longrightarrow>
   base38_decode_chunks (map chunk_text cs) (written, out) = (Inr (), (written + length (concat cs), overwrite out written (concat cs)))"
proof (induction cs arbitrary: written out)
  case (Cons c cs)
  then show ?case
    using base38_decode_chunk [of c written out "map chunk_text cs"] overwrite_chain [of written c "concat cs" out]
    by (simp add: add.assoc)
qed (simp add: overwrite_def)

lemma concat_chunks: "0 < n \<Longrightarrow> concat (chunks n xs) = xs"
proof (induction "length xs" arbitrary: xs rule: less_induct)
  case less
  then show ?case using chunks_Cons [of xs n] by (cases "xs = []") simp_all
qed

lemma base38_decodes:
  assumes "length data \<le> length out"
  shows "base38_decode (base38 data) out = (Inr (length data), overwrite out 0 data)"
proof -
  have "\<forall>c \<in> set (chunks 3 data). c \<noteq> [] \<and> length c \<le> 3" using chunks_member by blast
  from base38_decode_chunks_text [OF this, of 0 out] assms concat_chunks [of 3 data] show ?thesis
    by (simp add: base38_decode_def chunks_base38)
qed

lemma set_base38: "set (base38 data) \<subseteq> set ALPHABET"
  using set_base38_text by (fastforce simp: base38_def chunk_text_def)

lemma length_base38_packed:
  assumes "length data = 11"
  shows "length (base38 data) = 19"
proof -
  have "chunks 3 xs = take 3 xs # chunks 3 (drop 3 xs)" if "0 < length xs" for xs :: bytes
    using that by (intro chunks_Cons) auto
  from this [of data] this [of "drop 3 data"] this [of "drop 6 data"] this [of "drop 9 data"]
  show ?thesis using assms by (simp add: base38_def chunk_text_def chunk_chars.simps)
qed

end
