(* ===== verification/Onboarding_Code.thy ===== *)
theory Onboarding_Code
  imports Onboarding
begin

text \<open>
  What the label of a device promises (\<^verbatim>\<open>src/src/commissioning/payload.rs\<close>), over the definitions of \<^verbatim>\<open>Onboarding\<close>: the check digit as
  a product in the dihedral group of ten elements, the digits of a manual code, and the theorems on both forms of the code.
\<close>

section \<open>The check digit, abstractly\<close>

text \<open>The tables over natural numbers, and the state of both loops after the digits \<open>ds\<close>, read from the right.\<close>

definition vd_table :: "nat list list" where
  "vd_table = map (map unat) VERHOEFF_D"

definition vp_table :: "nat list list" where
  "vp_table = map (map unat) VERHOEFF_P"

definition vd :: "nat \<Rightarrow> nat \<Rightarrow> nat" where "vd a b = vd_table ! a ! b"
definition vp :: "nat \<Rightarrow> nat \<Rightarrow> nat" where "vp i d = vp_table ! (i mod 8) ! d"

fun vstate :: "nat \<Rightarrow> nat list \<Rightarrow> nat \<Rightarrow> nat" where
  "vstate i [] c = c"
| "vstate i (d # ds) c = vstate (i + 1) ds (vd c (vp i d))"

lemma vd_table_eq: "vd_table =
    [[0, 1, 2, 3, 4, 5, 6, 7, 8, 9], [1, 2, 3, 4, 0, 6, 7, 8, 9, 5], [2, 3, 4, 0, 1, 7, 8, 9, 5, 6],
     [3, 4, 0, 1, 2, 8, 9, 5, 6, 7], [4, 0, 1, 2, 3, 9, 5, 6, 7, 8], [5, 9, 8, 7, 6, 0, 4, 3, 2, 1],
     [6, 5, 9, 8, 7, 1, 0, 4, 3, 2], [7, 6, 5, 9, 8, 2, 1, 0, 4, 3], [8, 7, 6, 5, 9, 3, 2, 1, 0, 4],
     [9, 8, 7, 6, 5, 4, 3, 2, 1, 0]]"
  by (simp add: vd_table_def VERHOEFF_D_def)

lemma vp_table_eq: "vp_table =
    [[0, 1, 2, 3, 4, 5, 6, 7, 8, 9], [1, 5, 7, 6, 2, 8, 3, 0, 9, 4], [5, 8, 0, 3, 7, 9, 6, 1, 4, 2],
     [8, 9, 1, 6, 0, 4, 3, 5, 2, 7], [9, 4, 5, 3, 1, 2, 6, 8, 7, 0], [4, 2, 8, 6, 5, 7, 3, 9, 0, 1],
     [2, 7, 9, 3, 8, 0, 6, 4, 1, 5], [7, 0, 4, 6, 9, 1, 3, 2, 5, 8]]"
  by (simp add: vp_table_def VERHOEFF_P_def)

declare vd_table_def [code del] vp_table_def [code del]
declare vd_table_eq [code] vp_table_eq [code]

lemma vd_facts: "list_all (\<lambda>a. vd 0 a = a \<and> vd a 0 = a \<and> list_all (\<lambda>b. vd a b < 10
    \<and> list_all (\<lambda>c. vd (vd a b) c = vd a (vd b c) \<and> (vd a b = vd a c \<longrightarrow> b = c) \<and> (vd b a = vd c a \<longrightarrow> b = c)) [0..<10]) [0..<10]) [0..<10]"
  by code_simp

lemma vp_facts: "list_all (\<lambda>i. list_all (\<lambda>x. vp i x < 10 \<and> list_all (\<lambda>y. (vp i x = vp i y \<longrightarrow> x = y)
    \<and> (vd (vp i x) (vp (i + 1) y) = vd (vp i y) (vp (i + 1) x) \<longrightarrow> x = y)) [0..<10]) [0..<10]) [0..<8]"
  by code_simp

lemma vp_mod: "vp i d = vp (i mod 8) d" "vp (i + 1) d = vp (i mod 8 + 1) d"
  by (simp_all add: vp_def mod_Suc_eq)

lemma vd_closed: "a < 10 \<Longrightarrow> b < 10 \<Longrightarrow> vd a b < 10"
  and vd_assoc: "a < 10 \<Longrightarrow> b < 10 \<Longrightarrow> c < 10 \<Longrightarrow> vd (vd a b) c = vd a (vd b c)"
  and vd_unit: "a < 10 \<Longrightarrow> vd 0 a = a" "a < 10 \<Longrightarrow> vd a 0 = a"
  and vd_left_cancel: "a < 10 \<Longrightarrow> b < 10 \<Longrightarrow> c < 10 \<Longrightarrow> vd a b = vd a c \<Longrightarrow> b = c"
  and vd_right_cancel: "a < 10 \<Longrightarrow> b < 10 \<Longrightarrow> c < 10 \<Longrightarrow> vd b a = vd c a \<Longrightarrow> b = c"
proof -
  have r: "x < 10 \<Longrightarrow> x \<in> set [0..<10]" for x :: nat by simp
  note f = vd_facts [unfolded list_all_iff, rule_format, OF r]
  show "a < 10 \<Longrightarrow> b < 10 \<Longrightarrow> vd a b < 10" using f [THEN conjunct2, THEN conjunct2, rule_format, OF _ r] by blast
  show "a < 10 \<Longrightarrow> vd 0 a = a" "a < 10 \<Longrightarrow> vd a 0 = a" using f by blast+
  note g = f [THEN conjunct2, THEN conjunct2, rule_format, OF _ r, THEN conjunct2, rule_format, OF _ _ r]
  show "a < 10 \<Longrightarrow> b < 10 \<Longrightarrow> c < 10 \<Longrightarrow> vd (vd a b) c = vd a (vd b c)" using g by blast
  show "a < 10 \<Longrightarrow> b < 10 \<Longrightarrow> c < 10 \<Longrightarrow> vd a b = vd a c \<Longrightarrow> b = c" using g by blast
  show "a < 10 \<Longrightarrow> b < 10 \<Longrightarrow> c < 10 \<Longrightarrow> vd b a = vd c a \<Longrightarrow> b = c" using g by blast
qed

lemma vp_closed: "x < 10 \<Longrightarrow> vp i x < 10"
  and vp_inj: "x < 10 \<Longrightarrow> y < 10 \<Longrightarrow> vp i x = vp i y \<Longrightarrow> x = y"
  and vp_twist: "x < 10 \<Longrightarrow> y < 10 \<Longrightarrow> vd (vp i x) (vp (i + 1) y) = vd (vp i y) (vp (i + 1) x) \<Longrightarrow> x = y"
proof -
  have i: "i mod 8 \<in> set [0..<8]" by simp
  note f = vp_facts [unfolded list_all_iff, rule_format, OF i]
  show "x < 10 \<Longrightarrow> vp i x < 10" "x < 10 \<Longrightarrow> y < 10 \<Longrightarrow> vp i x = vp i y \<Longrightarrow> x = y"
    using f by (simp_all add: vp_mod(1) [of i])
  show "x < 10 \<Longrightarrow> y < 10 \<Longrightarrow> vd (vp i x) (vp (i + 1) y) = vd (vp i y) (vp (i + 1) x) \<Longrightarrow> x = y"
    using f unfolding vp_mod(1) [of i] vp_mod(2) [of i] by simp
qed

lemma vstate_append: "vstate i (ds @ es) c = vstate (i + length ds) es (vstate i ds c)"
  by (induction ds arbitrary: i c) auto

lemma vstate_closed: "\<forall>d \<in> set ds. d < 10 \<Longrightarrow> c < 10 \<Longrightarrow> vstate i ds c < 10"
  by (induction ds arbitrary: i c) (auto simp: vd_closed vp_closed)

lemma vstate_factor: "\<forall>d \<in> set ds. d < 10 \<Longrightarrow> c < 10 \<Longrightarrow> vstate i ds c = vd c (vstate i ds 0)"
proof (induction ds arbitrary: i c)
  case (Cons d ds)
  have IH: "vstate (i + 1) ds b = vd b (vstate (i + 1) ds 0)" if "b < 10" for b
    by (rule Cons.IH [OF _ that]) (use Cons.prems(1) in auto)
  have p: "vp i d < 10" using Cons.prems(1) by (intro vp_closed) simp
  have q: "vstate (i + 1) ds 0 < 10" using Cons.prems(1) by (intro vstate_closed) simp_all
  have "vstate i (d # ds) c = vd (vd c (vp i d)) (vstate (i + 1) ds 0)"
    unfolding vstate.simps by (rule IH [OF vd_closed [OF Cons.prems(2) p]])
  also have "\<dots> = vd c (vd (vp i d) (vstate (i + 1) ds 0))" by (rule vd_assoc [OF Cons.prems(2) p q])
  also have "vd (vp i d) (vstate (i + 1) ds 0) = vstate i (d # ds) 0"
    unfolding vstate.simps vd_unit(1) [OF p] by (rule IH [OF p, symmetric])
  finally show ?case .
qed (simp add: vd_unit)

text \<open>The two mistakes the check digit is there for.\<close>

lemma vstate_single:
  assumes "\<forall>d \<in> set (ds @ es). d < 10" "x < 10" "y < 10" and "vstate i (ds @ x # es) 0 = vstate i (ds @ y # es) 0"
  shows "x = y"
proof -
  let ?k = "i + length ds" and ?s = "vstate i ds 0" and ?e = "vstate (i + length ds + 1) es 0"
  have s: "?s < 10" "?e < 10" using assms(1) by (auto intro!: vstate_closed)
  have f: "vstate i (ds @ z # es) 0 = vd (vd ?s (vp ?k z)) ?e" if "z < 10" for z
    unfolding vstate_append vstate.simps by (rule vstate_factor) (use assms(1) s(1) that in \<open>auto intro: vd_closed vp_closed\<close>)
  then have "vd (vd ?s (vp ?k x)) ?e = vd (vd ?s (vp ?k y)) ?e" using assms(2-4) by metis
  then have "vd ?s (vp ?k x) = vd ?s (vp ?k y)"
    by (rule vd_right_cancel [rotated 3]) (use assms(2,3) s in \<open>auto intro: vd_closed vp_closed\<close>)
  then show ?thesis using assms(2,3) s vd_left_cancel vp_closed vp_inj by metis
qed

lemma vstate_swap:
  assumes "\<forall>d \<in> set (ds @ es). d < 10" "x < 10" "y < 10" and "vstate i (ds @ x # y # es) 0 = vstate i (ds @ y # x # es) 0"
  shows "x = y"
proof -
  let ?k = "i + length ds" and ?s = "vstate i ds 0" and ?e = "vstate (i + length ds + 2) es 0"
  let ?p = "\<lambda>u v. vd (vp ?k u) (vp (?k + 1) v)"
  have s: "?s < 10" "?e < 10" using assms(1) by (auto intro!: vstate_closed)
  have f: "vstate i (ds @ u # v # es) 0 = vd (vd ?s (?p u v)) ?e" if "u < 10" "v < 10" for u v
  proof -
    have p: "vp ?k u < 10" "vp (?k + 1) v < 10" using that by (auto intro: vp_closed)
    have i: "?k + 1 + 1 = ?k + 2" by simp
    have "vstate (?k + 2) es (vd (vd ?s (vp ?k u)) (vp (?k + 1) v)) = vd (vd (vd ?s (vp ?k u)) (vp (?k + 1) v)) ?e"
      by (rule vstate_factor) (use assms(1) s(1) p in \<open>auto intro: vd_closed\<close>)
    then show ?thesis unfolding vstate_append vstate.simps i vd_assoc [OF s(1) p] .
  qed
  have p: "?p x y < 10" "?p y x < 10" using assms(2,3) by (auto intro!: vd_closed vp_closed)
  have "vd (vd ?s (?p x y)) ?e = vd (vd ?s (?p y x)) ?e" using f [OF assms(2,3)] f [OF assms(3,2)] assms(4) by metis
  then have "vd ?s (?p x y) = vd ?s (?p y x)"
    by (rule vd_right_cancel [rotated 3]) (use p s in \<open>auto intro: vd_closed\<close>)
  then have "?p x y = ?p y x" by (rule vd_left_cancel [rotated 3]) (use p s in auto)
  then show ?thesis using assms(2,3) by (intro vp_twist [of x y ?k])
qed

section \<open>The loops compute the abstract state\<close>

lemma table_row:
  assumes "i < length T" "j < length (T ! i)"
  shows "list_get T i = Some (T ! i)" "list_get (T ! i) j = Some (T ! i ! j)" "unat (T ! i ! j) = map (map unat) T ! i ! j"
  using assms by (simp_all add: list_get_def)

lemma table_lengths:
  "length VERHOEFF_D = 10" "length VERHOEFF_P = 8" "length VERHOEFF_INV = 10"
  "i < 10 \<Longrightarrow> length (VERHOEFF_D ! i) = 10" "j < 8 \<Longrightarrow> length (VERHOEFF_P ! j) = 10"
proof -
  show "length VERHOEFF_D = 10" "length VERHOEFF_P = 8" "length VERHOEFF_INV = 10"
    by (simp_all add: VERHOEFF_D_def VERHOEFF_P_def VERHOEFF_INV_def)
  have "\<forall>r \<in> set VERHOEFF_D. length r = 10" "\<forall>r \<in> set VERHOEFF_P. length r = 10" "length VERHOEFF_D = 10" "length VERHOEFF_P = 8"
    by (simp_all add: VERHOEFF_D_def VERHOEFF_P_def)
  then show "i < 10 \<Longrightarrow> length (VERHOEFF_D ! i) = 10" "j < 8 \<Longrightarrow> length (VERHOEFF_P ! j) = 10" using nth_mem by metis+
qed

lemma vp_lookup:
  assumes "d < 10"
  shows "list_get VERHOEFF_P (i mod 8) = Some (VERHOEFF_P ! (i mod 8))"
    "\<exists>w. list_get (VERHOEFF_P ! (i mod 8)) d = Some w \<and> unat w = vp i d"
  using table_row [of "i mod 8" VERHOEFF_P d] table_lengths assms by (simp_all add: vp_def vp_table_def)

lemma vd_lookup:
  assumes "c < 10" "d < 10"
  shows "list_get VERHOEFF_D c = Some (VERHOEFF_D ! c)" "\<exists>w. list_get (VERHOEFF_D ! c) d = Some w \<and> unat w = vd c d"
  using table_row [of c VERHOEFF_D d] table_lengths assms by (simp_all add: vd_def vd_table_def)

lemma verhoeff_valid_state:
  "\<forall>d \<in> set ds. d < 10 \<Longrightarrow> unat c < 10 \<Longrightarrow> verhoeff_valid_loop i (map word_of_nat ds) c \<longleftrightarrow> vstate i ds (unat c) = 0"
proof (induction ds arbitrary: i c)
  case (Cons d ds)
  have d: "d < 10" "unat (word_of_nat d :: u8) = d" using Cons.prems(1) by (simp_all add: unat_word_of_nat_u8)
  then have n: "\<not> (word_of_nat d :: u8) > 9" by (simp add: word_less_nat_alt)
  obtain w where w: "list_get (VERHOEFF_P ! (i mod 8)) d = Some w" "unat w = vp i d" using vp_lookup(2) [OF d(1), of i] by blast
  obtain u where u: "list_get (VERHOEFF_D ! unat c) (vp i d) = Some u" "unat u = vd (unat c) (vp i d)"
    using vd_lookup(2) [OF Cons.prems(2) vp_closed [OF d(1)], of i] by blast
  have "verhoeff_valid_loop i (map word_of_nat (d # ds)) c = verhoeff_valid_loop (i + 1) (map word_of_nat ds) u"
    using n d vp_lookup(1) [OF d(1), of i] vd_lookup(1) [OF Cons.prems(2) d(1)] w u by simp
  moreover have "unat u < 10" using u(2) vd_closed vp_closed Cons.prems d(1) by simp
  ultimately show ?case using Cons.IH [of u "i + 1"] Cons.prems u(2) by simp
qed (simp add: word_unat_eq_iff)

lemma verhoeff_valid_iff:
  "\<forall>d \<in> set ds. d < 10 \<Longrightarrow> verhoeff_is_valid (map word_of_nat ds) \<longleftrightarrow> vstate 0 (rev ds) 0 = 0"
  using verhoeff_valid_state [of "rev ds" 0 0] by (simp add: verhoeff_is_valid_def rev_map)

definition digit_char :: "nat \<Rightarrow> char" where
  "digit_char d = char_of (48 + d)"

lemma digit_char_ascii: "d < 10 \<Longrightarrow> ascii_u8 (digit_char d) = 48 + word_of_nat d"
  by (simp add: ascii_u8_def digit_char_def)

lemma digit_char_digit:
  assumes "d < 10"
  shows "ascii_digit (digit_char d) = Some (word_of_nat d)" "ascii_u8 (digit_char d) - 48 = word_of_nat d"
proof -
  have "unat (48 + word_of_nat d :: u8) = 48 + d" "unat (word_of_nat d :: u8) = d"
    using assms by (simp_all add: unat_word_ariths unat_word_of_nat_u8)
  then show "ascii_digit (digit_char d) = Some (word_of_nat d)" "ascii_u8 (digit_char d) - 48 = word_of_nat d"
    using assms by (simp_all add: ascii_digit_def digit_char_ascii word_le_nat_alt word_less_nat_alt)
qed

lemma verhoeff_check_state:
  "\<forall>d \<in> set ds. d < 10 \<Longrightarrow> unat c < 10 \<Longrightarrow>
   \<exists>w. verhoeff_check_loop i (map digit_char ds) c = Inr w \<and> unat w = vstate (i + 1) ds (unat c)"
proof (induction ds arbitrary: i c)
  case (Cons d ds)
  have d: "d < 10" "unat (word_of_nat d :: u8) = d" using Cons.prems(1) by (simp_all add: unat_word_of_nat_u8)
  obtain w where w: "list_get (VERHOEFF_P ! ((i + 1) mod 8)) d = Some w" "unat w = vp (i + 1) d" using vp_lookup(2) [OF d(1)] by blast
  obtain u where u: "list_get (VERHOEFF_D ! unat c) (vp (i + 1) d) = Some u" "unat u = vd (unat c) (vp (i + 1) d)"
    using vd_lookup(2) [OF Cons.prems(2) vp_closed [OF d(1)]] by blast
  have "verhoeff_check_loop i (map digit_char (d # ds)) c = verhoeff_check_loop (i + 1) (map digit_char ds) u"
    using d digit_char_digit(1) [OF d(1)] vp_lookup(1) [OF d(1), of "i + 1"] vd_lookup(1) [OF Cons.prems(2) d(1)] w u by simp
  moreover have "unat u < 10" using u(2) vd_closed vp_closed Cons.prems d(1) by simp
  ultimately show ?case using Cons.IH [of u "i + 1"] Cons.prems u(2) by simp
qed simp

lemma vd_inverse: "c < 10 \<Longrightarrow> unat (VERHOEFF_INV ! c) < 10 \<and> vd (vp 0 (unat (VERHOEFF_INV ! c))) c = 0"
proof -
  have "list_all (\<lambda>c. unat (VERHOEFF_INV ! c) < 10 \<and> vd (vp 0 (unat (VERHOEFF_INV ! c))) c = 0) [0..<10]" by code_simp
  then show "c < 10 \<Longrightarrow> ?thesis" by (simp add: list_all_iff)
qed

lemma verhoeff_check_digit_valid:
  assumes "\<forall>d \<in> set ds. d < 10"
  obtains k where "verhoeff_check_digit (map digit_char ds) = Inr (word_of_nat k)" "k < 10" "vstate 0 (rev (ds @ [k])) 0 = 0"
proof -
  obtain w where w: "verhoeff_check_loop 0 (map digit_char (rev ds)) 0 = Inr w" "unat w = vstate 1 (rev ds) 0"
    using verhoeff_check_state [of "rev ds" 0 0] assms by auto
  have c: "unat w < 10" using w(2) assms vstate_closed [of "rev ds" 0 1] by simp
  let ?k = "unat (VERHOEFF_INV ! unat w)"
  have k: "?k < 10" "vd (vp 0 ?k) (unat w) = 0" using vd_inverse [OF c] by auto
  have "verhoeff_check_digit (map digit_char ds) = Inr (word_of_nat ?k)"
    using w(1) c table_lengths(3) by (simp add: verhoeff_check_digit_def rev_map list_get_def)
  moreover have "vstate 0 (rev (ds @ [?k])) 0 = vd (vp 0 ?k) (unat w)"
    using vstate_factor [of "rev ds" "vp 0 ?k" 1] assms k(1) w(2) by (simp add: vd_unit vp_closed)
  ultimately show ?thesis using k that by metis
qed

section \<open>Decimal groups\<close>

fun dec :: "nat \<Rightarrow> nat \<Rightarrow> nat list" where
  "dec 0 n = []"
| "dec (Suc w) n = dec w (n div 10) @ [n mod 10]"

lemma length_dec [simp]: "length (dec w n) = w"
  by (induction w arbitrary: n) auto

lemma dec_digits: "\<forall>d \<in> set (dec w n). d < 10"
  by (induction w arbitrary: n) auto

lemma digits_loop_dec:
  "fst (digits_loop w v acc) = map digit_char (dec w (unat v)) @ acc \<and> unat (snd (digits_loop w v acc)) = unat v div 10 ^ w"
proof (induction w arbitrary: v acc)
  case (Suc w)
  have "unat (ucast (v mod 10) :: u8) = unat v mod 10"
    by (simp add: unsigned_ucast_eq unat_mod_word take_bit_nat_eq_self)
  then have "unat (saturating_add 48 (ucast (v mod 10)) :: u8) = 48 + unat v mod 10"
    by (simp add: unat_saturating_add min_def)
  then show ?case using Suc [of "v div 10"] div_mult2_eq [of "unat v" 10 "10 ^ w"] by (simp add: digit_char_def unat_div_word)
qed simp

lemma push_digits_dec:
  assumes "unat v < 10 ^ w" "w \<le> 10" "length s + w \<le> N"
  shows "push_digits N v w s = (Inr (), s @ map digit_char (dec w (unat v)))"
proof -
  obtain t r where t: "digits_loop w v [] = (t, r)" by (cases "digits_loop w v []")
  then have "t = map digit_char (dec w (unat v))" "unat r = 0" using digits_loop_dec [of w v "[]"] assms(1) by auto
  then show ?thesis using t assms(2,3) by (simp add: push_digits_def push_str_def unsigned_0 word_unat_eq_iff)
qed

lemma digits_fold_append: "digits_fold (xs @ ys) v = bindR (digits_fold xs v) (digits_fold ys)"
proof (induction xs arbitrary: v)
  case (Cons x xs)
  show ?case by (cases "Option.bind (checked_mul v 10) (\<lambda>v. checked_add v (ucast x))") (simp_all add: Cons)
qed simp

lemma digits_fold_dec: "w \<le> 9 \<Longrightarrow> n < 10 ^ w \<Longrightarrow> digits_fold (map word_of_nat (dec w n)) 0 = Inr (word_of_nat n)"
proof (induction w arbitrary: n)
  case (Suc w)
  have "n div 10 < 10 ^ w" using Suc.prems(2) by (simp add: less_mult_imp_div_less mult.commute)
  then have IH: "digits_fold (map word_of_nat (dec w (n div 10))) 0 = Inr (word_of_nat (n div 10))" using Suc by simp
  have "n < 10 ^ 9" using Suc.prems power_increasing [of "Suc w" 9 "10::nat"] by simp
  then have n: "n < 2 ^ 32" by simp
  have d: "unat (word_of_nat (n div 10) :: u32) = n div 10" using n by (intro unat_of_nat_small) (simp add: div_le_dividend le_less_trans)
  have le: "n div 10 * 10 + n mod 10 = n" by simp
  then have m: "checked_mul (word_of_nat (n div 10) :: u32) 10 = Some (word_of_nat (n div 10 * 10))"
    using d n by (simp add: checked_mul_def)
  have "unat (word_of_nat (n div 10 * 10) :: u32) = n div 10 * 10"
    using le_less_trans [OF div_times_less_eq_dividend n] by (intro unat_of_nat_small) simp
  moreover have u: "(ucast (word_of_nat (n mod 10) :: u8) :: u32) = word_of_nat (n mod 10)"
    by (simp add: word_unat_eq_iff unsigned_ucast_eq unat_word_of_nat_u8 unsigned_of_nat take_bit_nat_eq_self)
  moreover have "unat (word_of_nat (n mod 10) :: u32) = n mod 10" by (intro unat_of_nat_small) (simp add: less_le_trans)
  moreover have "word_of_nat (n div 10 * 10) + word_of_nat (n mod 10) = (word_of_nat n :: u32)"
    unfolding of_nat_add [symmetric] le ..
  ultimately have "checked_add (word_of_nat (n div 10 * 10)) (ucast (word_of_nat (n mod 10) :: u8)) = Some (word_of_nat n :: u32)"
    using n le by (simp only: checked_add_def) simp
  then show ?case using IH m by (simp add: digits_fold_append)
qed simp

lemma digits_value_dec:
  assumes "ds = map word_of_nat (pre @ dec w n @ post)" "start = length pre" "length ds \<le> 100" "w \<le> 9" "n < 10 ^ w"
  shows "digits_value ds start w = Inr (word_of_nat n)"
proof -
  have "usize_checked_add start w = Some (start + w)" using assms(1-3) by (simp add: usize_checked_add_def USIZE_MAX_def)
  moreover have "slice_get ds start (start + w) = Some (map word_of_nat (dec w n))" using assms(1,2) by (simp add: slice_get_def)
  ultimately show ?thesis using digits_fold_dec [OF assms(4,5)] by (simp add: digits_value_def)
qed

section \<open>Typing the code in\<close>

text \<open>What is left of a typed text when the dashes and spaces are taken out.\<close>

definition typed :: "string \<Rightarrow> string" where
  "typed = filter (\<lambda>c. c \<notin> {CHR ''-'', CHR '' ''})"

lemma digit_char_in: "d < 10 \<Longrightarrow> digit_char d \<in> set ''0123456789'' \<and> digit_char d \<notin> {CHR ''-'', CHR '' ''}"
proof -
  have "list_all (\<lambda>d. digit_char d \<in> set ''0123456789'' \<and> digit_char d \<notin> {CHR ''-'', CHR '' ''}) [0..<10]" by code_simp
  then show "d < 10 \<Longrightarrow> ?thesis" by (simp add: list_all_iff)
qed

lemma manual_digits_typed:
  assumes "typed t = map digit_char ds" "\<forall>d \<in> set ds. d < 10" "length acc + length ds \<le> MANUAL_CODE_MAX_DIGITS"
  shows "manual_digits t acc = (Inr (), acc @ map word_of_nat ds)"
  using assms
proof (induction t arbitrary: ds acc)
  case (Cons c t)
  show ?case
  proof (cases "c \<in> {CHR ''-'', CHR '' ''}")
    case True
    then have "c \<notin> set ''0123456789''" "typed t = map digit_char ds" using Cons.prems(1) by (auto simp: typed_def)
    then show ?thesis using Cons True by simp
  next
    case False
    then obtain d es where ds: "ds = d # es" "c = digit_char d" "typed t = map digit_char es"
      using Cons.prems(1) by (cases ds) (auto simp: typed_def)
    then have d: "d < 10" using Cons.prems(2) by simp
    have "manual_digits (c # t) acc = manual_digits t (acc @ [word_of_nat d])"
      using digit_char_in [OF d] digit_char_digit(2) [OF d] ds Cons.prems(3) by (simp add: vec_push_def )
    then show ?thesis using Cons.IH [OF ds(3)] Cons.prems ds(1) by simp
  qed
qed (simp add: typed_def)

section \<open>The groups of a manual code\<close>

lemma masks:
  "(0x300 :: u32) = push_bit 8 (mask 2)" "(0x3FFF :: u32) = mask 14" "(0xC000 :: u32) = push_bit 14 (mask 2)" "(3 :: u32) = mask 2"
  "(0xF00 :: u16) = push_bit 8 (mask 4)" "(0x0FFF :: u16) = mask 12"
  by (simp_all add: mask_eq_exp_minus_1)

lemma unat_bits_bound: "(\<And>n. bit (w :: 'a::len word) n \<Longrightarrow> n < k) \<Longrightarrow> unat w < 2 ^ k"
proof -
  assume "\<And>n. bit w n \<Longrightarrow> n < k"
  then have "take_bit k w = w" by (intro bit_word_eqI) (auto simp: bit_take_bit_iff)
  then have "take_bit k (unat w) = unat w" by (metis unsigned_take_bit_eq)
  then show ?thesis by (metis take_bit_nat_less_exp)
qed

lemmas word_bits = bit_and_iff bit_or_iff bit_push_bit_iff bit_drop_bit_eq bit_ucast_iff bit_mask_iff

lemma first_bits: "bit (manual_first b p) n \<longleftrightarrow> n = 2 \<and> b \<or> n < 2 \<and> bit (op_discriminator p) (n + 10)"
  by (auto simp: manual_first_def DISCRIMINATOR_MASK_def masks word_bits bit_of_bool_iff add.commute dest: bit_imp_le_length)

lemma group2_bits: "bit (manual_group2 p) n \<longleftrightarrow> (n = 14 \<or> n = 15) \<and> bit (op_discriminator p) (n - 6) \<or> n < 14 \<and> bit (op_passcode p) n"
  by (auto simp: manual_group2_def DISCRIMINATOR_MASK_def masks word_bits dest: bit_imp_le_length)

lemma manual_first_bound: "unat (manual_first b p) < 8"
proof -
  have "unat (manual_first b p) < 2 ^ 3" by (rule unat_bits_bound) (auto simp: first_bits)
  then show ?thesis by simp
qed

lemma manual_group2_bound: "unat (manual_group2 p) < 2 ^ 16"
  by (rule unat_bits_bound) (auto simp: group2_bits)

lemma manual_flag: "manual_first b p AND 4 \<noteq> 0 \<longleftrightarrow> b"
  using and_exp_eq_0_iff_not_bit [of "manual_first b p" 2] by (simp add: first_bits)

lemma manual_discriminator:
  "ucast (push_bit 10 (manual_first b p AND 3) OR drop_bit 6 (manual_group2 p AND 0xC000)) = op_discriminator p AND 0xF00"
  by (rule bit_word_eqI) (auto simp: masks word_bits first_bits group2_bits)

lemma manual_passcode: "(manual_group2 p AND 0x3FFF) OR push_bit 14 (drop_bit 14 (op_passcode p)) = op_passcode p"
proof (rule bit_word_eqI)
  fix n
  show "bit ((manual_group2 p AND 0x3FFF) OR push_bit 14 (drop_bit 14 (op_passcode p))) n = bit (op_passcode p) n" if "n < LENGTH(32)"
    using that by (cases "n < 14") (simp_all add: masks word_bits group2_bits)
qed

text \<open>The digits of a code, without and with the check digit.\<close>

definition code_digits :: "bool \<Rightarrow> OnboardingPayload \<Rightarrow> nat list" where
  "code_digits b p = dec 1 (unat (manual_first b p)) @ dec 5 (unat (manual_group2 p)) @ dec 4 (unat (drop_bit 14 (op_passcode p)))
     @ (if b then dec 5 (unat (op_vendor_id p)) @ dec 5 (unat (op_product_id p)) else [])"

lemma code_digits_small: "\<forall>d \<in> set (code_digits b p). d < 10"
  using dec_digits by (cases b) (auto simp: code_digits_def simp del: dec.simps)

lemma length_code_digits: "length (code_digits b p) = (if b then 20 else 10)"
  by (simp add: code_digits_def)

lemma unat_ucast_u16: "unat (ucast (x :: u16) :: u32) = unat x" and unat_ucast_u8: "unat (ucast (y :: u8) :: u32) = unat y"
  using unat_lt_len [of x] unat_lt_len [of y] by (simp_all add: unsigned_ucast_eq take_bit_nat_eq_self)

lemma u16_decimal: "unat (x :: u16) < 10 ^ 5"
  using unat_lt_len [of x] by simp

lemma group3_bound: "unat (v :: u32) < 2 ^ 27 \<Longrightarrow> unat (drop_bit 14 v) < 8192"
  by (simp add: unat_drop_bit_eq drop_bit_eq_div [of 14 "unat v"])

lemma manual_code_text:
  assumes "b \<or> op_custom_flow p = Standard" and "unat (op_passcode p) < 2 ^ 27"
  obtains k where "to_manual_code b p = Inr (map digit_char (code_digits b p @ [k]))" "k < 10"
    "verhoeff_is_valid (map word_of_nat (code_digits b p @ [k]))"
proof -
  obtain k where k: "verhoeff_check_digit (map digit_char (code_digits b p)) = Inr (word_of_nat k)" "k < 10"
      "vstate 0 (rev (code_digits b p @ [k])) 0 = 0"
    using verhoeff_check_digit_valid [OF code_digits_small] by metis
  have valid: "verhoeff_is_valid (map word_of_nat (code_digits b p @ [k]))"
    using verhoeff_valid_iff [of "code_digits b p @ [k]"] code_digits_small k(2,3) by simp
  have u: "unat (ucast (word_of_nat k :: u8) :: u32) = k" using k(2) by (simp add: unat_ucast_u8 unat_word_of_nat_u8)
  have dk: "dec 1 k = [k]" using k(2) by simp
  let ?N = "MANUAL_CODE_MAX_DIGITS"
  have N: "?N = 21" by (simp add: MANUAL_CODE_MAX_DIGITS_def)
  have p1: "push_digits ?N (manual_first c p) 1 [] = (Inr (), map digit_char (dec 1 (unat (manual_first c p))))" for c
    using push_digits_dec [of "manual_first c p" 1 "[]" ?N] manual_first_bound [of c p] N by simp
  have p2: "length s + 5 \<le> 21 \<Longrightarrow> push_digits ?N (manual_group2 p) 5 s = (Inr (), s @ map digit_char (dec 5 (unat (manual_group2 p))))" for s
    using push_digits_dec [of "manual_group2 p" 5 s ?N] manual_group2_bound [of p] N by simp
  have p3: "length s + 4 \<le> 21 \<Longrightarrow> push_digits ?N (drop_bit 14 (op_passcode p)) 4 s
      = (Inr (), s @ map digit_char (dec 4 (unat (drop_bit 14 (op_passcode p)))))" for s
    using push_digits_dec [of "drop_bit 14 (op_passcode p)" 4 s ?N] group3_bound [OF assms(2)] N by simp
  have p4: "length s + 5 \<le> 21 \<Longrightarrow> push_digits ?N (ucast x) 5 s = (Inr (), s @ map digit_char (dec 5 (unat x)))" for s and x :: u16
    using push_digits_dec [of "ucast x" 5 s ?N] u16_decimal [of x] N by (simp add: unat_ucast_u16)
  have p5: "length s + 1 \<le> 21 \<Longrightarrow> push_digits ?N (ucast (word_of_nat k :: u8)) 1 s = (Inr (), s @ [digit_char k])" for s
    using push_digits_dec [of "ucast (word_of_nat k :: u8)" 1 s ?N] k(2) N dk by (simp add: u)
  have "to_manual_code b p = Inr (map digit_char (code_digits b p @ [k]))"
  proof (cases b)
    case True
    then show ?thesis
      using k(1) unfolding to_manual_code_def Let_def code_digits_def
      by (simp add: bindE_def p1 p2 p3 p4 p5 del: dec.simps One_nat_def)
  next
    case False
    then show ?thesis
      using k(1) assms(1) unfolding to_manual_code_def Let_def code_digits_def
      by (simp add: bindE_def p1 p2 p3 p5 del: dec.simps One_nat_def)
  qed
  then show ?thesis using k(2) valid that by blast
qed

text \<open>What a manual code says of a payload.\<close>

definition manual_view :: "bool \<Rightarrow> OnboardingPayload \<Rightarrow> OnboardingPayload" where
  "manual_view b p = \<lparr>op_vendor_id = (if b then op_vendor_id p else 0), op_product_id = (if b then op_product_id p else 0),
     op_custom_flow = (if b then UserIntent else Standard), op_discovery = 0,
     op_discriminator = op_discriminator p AND 0xF00, op_passcode = op_passcode p\<rparr>"

lemma manual_payload_digits:
  assumes "passcode_new (op_passcode p) = Inr (op_passcode p)" and "verhoeff_is_valid (map word_of_nat (code_digits b p @ [k]))"
  shows "manual_payload (map word_of_nat (code_digits b p @ [k])) b = Inr (manual_view b p)"
proof -
  let ?f = "manual_first b p" and ?g = "manual_group2 p" and ?h = "drop_bit 14 (op_passcode p)"
  define ds :: bytes where "ds = map word_of_nat (code_digits b p @ [k])"
  have pc: "unat (op_passcode p) < 2 ^ 27" using assms(1) passcode_ok by blast
  have f: "unat ?f < 8" by (rule manual_first_bound)
  have l: "length ds \<le> 100" by (simp add: ds_def length_code_digits)
  have first: "(case ds of [] \<Rightarrow> 0 | d # _ \<Rightarrow> d) = word_of_nat (unat ?f)"
    using f by (simp add: ds_def code_digits_def)
  have "unat (ucast (word_of_nat n :: u8) :: u32) = n" if "n < 8" for n using that by (simp add: unat_ucast_u8 unat_word_of_nat_u8)
  from this [OF f] have cf: "ucast (word_of_nat (unat ?f) :: u8) = ?f" by (simp only: word_unat_eq_iff)
  have f7: "\<not> ?f > 7" using f by (simp add: word_less_nat_alt)
  have v2: "digits_value ds 1 5 = Inr ?g"
    using digits_value_dec [of ds "dec 1 (unat ?f)" 5 "unat ?g" "drop 6 (code_digits b p @ [k])" 1] l manual_group2_bound [of p]
    by (simp add: ds_def code_digits_def del: dec.simps)
  have v3: "digits_value ds 6 4 = Inr ?h"
    using digits_value_dec [of ds "dec 1 (unat ?f) @ dec 5 (unat ?g)" 4 "unat ?h" "drop 10 (code_digits b p @ [k])" 6] l group3_bound [OF pc]
    by (simp add: ds_def code_digits_def del: dec.simps)
  have b2: "bounded ?g 0xFFFF = Inr ?g" "bounded ?h 0x1FFF = Inr ?h"
    using manual_group2_bound [of p] group3_bound [OF pc] by (simp_all add: bounded_def word_less_nat_alt)
  have bu: "bounded (ucast x) 0xFFFF = Inr (ucast x)" for x :: u16
    using unat_lt_len [of x] by (simp add: bounded_def word_less_nat_alt unat_ucast_u16)
  have v4: "digits_value ds 10 5 = Inr (ucast (op_vendor_id p))" if b
    using digits_value_dec [of ds "dec 1 (unat ?f) @ dec 5 (unat ?g) @ dec 4 (unat ?h)" 5 "unat (op_vendor_id p)"
        "dec 5 (unat (op_product_id p)) @ [k]" 10] l that u16_decimal [of "op_vendor_id p"]
    by (simp add: ds_def code_digits_def del: dec.simps)
  have v5: "digits_value ds 15 5 = Inr (ucast (op_product_id p))" if b
    using digits_value_dec [of ds "dec 1 (unat ?f) @ dec 5 (unat ?g) @ dec 4 (unat ?h) @ dec 5 (unat (op_vendor_id p))" 5
        "unat (op_product_id p)" "[k]" 15] l that u16_decimal [of "op_product_id p"]
    by (simp add: ds_def code_digits_def del: dec.simps)
  have again: "ucast (ucast x :: u32) = x" for x :: u16 by (rule bit_word_eqI) (simp add: bit_ucast_iff)
  have valid: "verhoeff_is_valid ds" using assms(2) by (simp add: ds_def)
  have "manual_payload ds b = Inr (manual_view b p)"
    unfolding manual_payload_def Let_def first cf manual_flag v2 v3 bindR_simps b2 manual_passcode manual_discriminator assms(1)
    using valid f7 v4 v5 by (cases b) (simp_all add: bu again manual_view_def)
  then show ?thesis unfolding ds_def .
qed

lemma manual_digits_accept:
  "manual_digits t acc = (Inr (), out) \<Longrightarrow> \<exists>ds. typed t = map digit_char ds \<and> (\<forall>d \<in> set ds. d < 10) \<and> out = acc @ map word_of_nat ds"
proof (induction t arbitrary: acc)
  case (Cons c t)
  consider "c \<in> set ''0123456789''" | "c \<notin> set ''0123456789''" "c \<in> {CHR ''-'', CHR '' ''}"
    using Cons.prems by (auto split: if_splits)
  then show ?case
  proof cases
    case 1
    have "list_all (\<lambda>c. \<exists>d \<in> set [0..<10]. c = digit_char d) ''0123456789''" by code_simp
    from this [unfolded list_all_iff, rule_format, OF 1] obtain d where d: "d < 10" "c = digit_char d" by auto
    have "manual_digits t (acc @ [word_of_nat d]) = (Inr (), out)"
      using Cons.prems 1 digit_char_digit(2) [OF d(1)] d(2) by (auto split: option.splits if_splits)
    from Cons.IH [OF this] obtain ds where ds: "typed t = map digit_char ds" "\<forall>d \<in> set ds. d < 10" "out = acc @ word_of_nat d # map word_of_nat ds"
      by auto
    then show ?thesis using d digit_char_in [OF d(1)] by (intro exI [of _ "d # ds"]) (simp add: typed_def)
  next
    case 2
    then have "manual_digits t acc = (Inr (), out)" using Cons.prems by auto
    from Cons.IH [OF this] show ?thesis using 2 by (auto simp: typed_def)
  qed
qed (simp add: typed_def)

text \<open>What a refused or accepted text of the right length shows of its check digit.\<close>

lemma manual_accepts:
  assumes "from_manual_code t = Inr p"
  obtains ds b where "typed t = map digit_char ds" "\<forall>d \<in> set ds. d < 10" "length ds = (if b then 21 else 11)"
    "verhoeff_is_valid (map word_of_nat ds)" "manual_payload (map word_of_nat ds) b = Inr p"
proof -
  obtain digits where dg: "manual_digits t [] = (Inr (), digits)"
    using assms by (auto simp: from_manual_code_def split: prod.splits sum.splits)
  obtain ds where ds: "typed t = map digit_char ds" "\<forall>d \<in> set ds. d < 10" "digits = map word_of_nat ds"
    using manual_digits_accept [OF dg] by auto
  obtain b where b: "length ds = (if b then 21 else 11)" "manual_payload (map word_of_nat ds) b = Inr p"
    using assms dg ds(3) by (force simp: from_manual_code_def split: if_splits)
  then have "verhoeff_is_valid (map word_of_nat ds)" by (auto simp: manual_payload_def split: if_splits)
  then show ?thesis using that ds(1,2) b by blast
qed

lemma manual_refuses:
  assumes "typed t = map digit_char ds" "\<forall>d \<in> set ds. d < 10" "length ds = (if b then 21 else 11)"
    "\<not> verhoeff_is_valid (map word_of_nat ds)"
  shows "from_manual_code t = Inl IntegrityCheckFailed"
  using manual_digits_typed [OF assms(1,2), of "[]"] assms(3,4)
  by (cases b) (simp_all add: from_manual_code_def manual_payload_def MANUAL_CODE_MAX_DIGITS_def)

section \<open>What a label promises\<close>

lemma to_qr_text: "to_qr p = Inr (QR_PREFIX @ base38 (pack p))"
proof -
  have "length (base38 (pack p)) = 19" by (rule length_base38_packed [OF packed_length])
  then show ?thesis
    using base38_encodes [of QR_PREFIX "pack p" QR_LEN_NO_TLV]
    by (simp add: to_qr_def push_str_def QR_PREFIX_def QR_LEN_NO_TLV_def bindE_def)
qed

lemma from_qr_body:
  assumes "payload_ok p"
  shows "base38_decode (base38 (pack p)) (replicate PACKED_LEN 0) = (Inr PACKED_LEN, pack p)" "unpack (pack p) = Inr p"
  using base38_decodes [of "pack p" "replicate PACKED_LEN 0"] payload_unpacks [OF assms] packed_length [of p]
  by (simp_all add: PACKED_LEN_def overwrite_def)

lemma base38_no_prefix: "strip_prefix QR_PREFIX (base38 data) = None"
proof -
  have "CHR '':'' \<notin> set (base38 data)" using set_base38 [of data] by (auto simp: ALPHABET_def)
  moreover have "CHR '':'' \<in> set (take 3 t)" if "take 3 t = QR_PREFIX" for t using that by (simp add: QR_PREFIX_def)
  ultimately have "take 3 (base38 data) \<noteq> QR_PREFIX" by (meson in_set_takeD)
  moreover have "length QR_PREFIX = 3" by (simp add: QR_PREFIX_def)
  ultimately show ?thesis by (simp add: strip_prefix_def)
qed

text \<open>C33: Every legal payload has a QR code, of 22 characters, and scanning it gives the same payload back, with the prefix or
  without it; two payloads with one code are the same payload.\<close>

theorem qr_code_roundtrip:
  assumes "payload_ok p"
  shows "\<exists>code. to_qr p = Inr code \<and> length code = QR_LEN_NO_TLV \<and> from_qr code = Inr p \<and> from_qr (drop 3 code) = Inr p
    \<and> (\<forall>q. payload_ok q \<and> to_qr q = Inr code \<longrightarrow> q = p)"
proof -
  have scan: "from_qr (QR_PREFIX @ base38 (pack q)) = Inr q" if "payload_ok q" for q
    using from_qr_body [OF that] by (simp add: from_qr_def strip_prefix_def Let_def)
  have bare: "from_qr (base38 (pack p)) = Inr p" using from_qr_body [OF assms] by (simp add: from_qr_def base38_no_prefix Let_def)
  have "length (base38 (pack p)) = 19" by (rule length_base38_packed [OF packed_length])
  then show ?thesis
    using to_qr_text scan bare assms
    by (intro exI [of _ "QR_PREFIX @ base38 (pack p)"]) (auto simp: QR_PREFIX_def QR_LEN_NO_TLV_def, metis sum.inject(2))
qed

definition sample_payload :: OnboardingPayload where
  "sample_payload = \<lparr>op_vendor_id = 0xFFF1, op_product_id = 0x8000, op_custom_flow = Standard, op_discovery = 2,
     op_discriminator = 3840, op_passcode = 20202021\<rparr>"

lemma sample_payload_ok: "payload_ok sample_payload"
  by (simp add: sample_payload_def payload_ok_def DISCRIMINATOR_MASK_def passcode_new_def Passcode_MIN_def Passcode_MAX_def Passcode_INVALID_def)

theorem qr_code_roundtrip_witness:
  "\<exists>code. to_qr sample_payload = Inr code \<and> from_qr code = Inr sample_payload \<and> length code = 22"
  using qr_code_roundtrip [OF sample_payload_ok] by (auto simp: QR_LEN_NO_TLV_def)

lemma manual_code_reads:
  assumes "payload_ok p" and "b \<or> op_custom_flow p = Standard"
  obtains code where "to_manual_code b p = Inr code" "length code = (if b then 21 else 11)"
    "\<And>t. typed t = code \<Longrightarrow> from_manual_code t = Inr (manual_view b p)"
proof -
  have pc: "passcode_new (op_passcode p) = Inr (op_passcode p)" "unat (op_passcode p) < 2 ^ 27"
    using assms(1) passcode_ok [of "op_passcode p"] by (auto simp: payload_ok_def)
  obtain k where k: "to_manual_code b p = Inr (map digit_char (code_digits b p @ [k]))" "k < 10"
      "verhoeff_is_valid (map word_of_nat (code_digits b p @ [k]))"
    using manual_code_text [OF assms(2) pc(2)] by blast
  let ?ds = "code_digits b p @ [k]"
  have ds: "\<forall>d \<in> set ?ds. d < 10" "length ?ds = (if b then 21 else 11)" using code_digits_small k(2) by (simp_all add: length_code_digits)
  have "from_manual_code t = Inr (manual_view b p)" if "typed t = map digit_char ?ds" for t
    using manual_digits_typed [OF that ds(1), of "[]"] manual_payload_digits [OF pc(1) k(3)] ds(2)
    by (cases b) (simp_all add: from_manual_code_def MANUAL_CODE_MAX_DIGITS_def)
  then show ?thesis using that [OF k(1)] ds(2) by simp
qed

text \<open>A manual code exists exactly when the flow allows the form asked for, has 11 digits or 21, and typed in, with dashes and spaces
  anywhere, gives back the passcode, the top four bits of the discriminator and, in the long form, vendor and product.\<close>

theorem manual_code_roundtrip:
  assumes "payload_ok p"
  shows "if b \<or> op_custom_flow p = Standard
    then \<exists>code. to_manual_code b p = Inr code \<and> length code = (if b then 21 else 11)
      \<and> (\<forall>t. typed t = code \<longrightarrow> from_manual_code t = Inr (manual_view b p))
    else to_manual_code b p = Inl InvalidArgument"
proof (cases "b \<or> op_custom_flow p = Standard")
  case True
  then show ?thesis using manual_code_reads [OF assms True] by metis
next
  case False
  then show ?thesis by (simp add: to_manual_code_def)
qed

lemma sample_manual_code: "to_manual_code False sample_payload = Inr ''34970112332''"
  by code_simp

lemma sample_accepted: "from_manual_code ''34970112332'' = Inr (manual_view False sample_payload)"
proof (rule manual_code_reads [OF sample_payload_ok, of False])
  show "False \<or> op_custom_flow sample_payload = Standard" by (simp add: sample_payload_def)
  fix code
  assume c: "to_manual_code False sample_payload = Inr code"
    "\<And>t. typed t = code \<Longrightarrow> from_manual_code t = Inr (manual_view False sample_payload)"
  show "from_manual_code ''34970112332'' = Inr (manual_view False sample_payload)"
    by (rule c(2)) (use c(1) sample_manual_code in \<open>auto simp: typed_def\<close>)
qed

theorem manual_code_roundtrip_witness:
  "from_manual_code ''3497-011-2332'' = Inr (manual_view False sample_payload)"
proof -
  have "op_custom_flow sample_payload = Standard" by (simp add: sample_payload_def)
  moreover have "typed ''3497-011-2332'' = ''34970112332''" by (simp add: typed_def)
  ultimately show ?thesis using manual_code_roundtrip [OF sample_payload_ok, of False] sample_manual_code by auto
qed

lemma digit_chars: "c \<in> set ''0123456789'' \<Longrightarrow> \<exists>d < 10. c = digit_char d"
proof -
  assume c: "c \<in> set ''0123456789''"
  have "list_all (\<lambda>c. \<exists>d \<in> set [0..<10]. c = digit_char d) ''0123456789''" by code_simp
  from this [unfolded list_all_iff, rule_format, OF c] show ?thesis by auto
qed

lemma changed_code_refused:
  assumes "from_manual_code t = Inr p" and "typed t = map digit_char ds" "\<forall>d \<in> set ds. d < 10"
    and "typed u = map digit_char es" "\<forall>d \<in> set es. d < 10" "length es = length ds" and "vstate 0 (rev es) 0 \<noteq> vstate 0 (rev ds) 0"
  shows "from_manual_code u = Inl IntegrityCheckFailed"
proof -
  obtain ds' b where a: "typed t = map digit_char ds'" "\<forall>d \<in> set ds'. d < 10" "length ds' = (if b then 21 else 11)"
      "verhoeff_is_valid (map word_of_nat ds')" using manual_accepts [OF assms(1)] by metis
  have "manual_digits t [] = (Inr (), map word_of_nat ds)" "manual_digits t [] = (Inr (), map word_of_nat ds')"
    using manual_digits_typed [OF assms(2,3), of "[]"] manual_digits_typed [OF a(1,2), of "[]"] a(1,3) assms(2)
    by (auto simp: MANUAL_CODE_MAX_DIGITS_def dest!: map_eq_imp_length_eq split: if_splits)
  then have "verhoeff_is_valid (map word_of_nat ds)" using a(4) by simp
  then have "\<not> verhoeff_is_valid (map word_of_nat es)" using assms(3,5,7) by (simp add: verhoeff_valid_iff)
  moreover have "length es = (if b then 21 else 11)" using assms(2,6) a(1,3) map_eq_imp_length_eq by metis
  ultimately show ?thesis using assms(4,5) by (intro manual_refuses)
qed

text \<open>C32: The check digit does what it is there for: of a code that is accepted, neither one digit mistyped as another nor two
  neighbouring digits swapped is ever accepted for a different device; both are refused for their check digit.\<close>

theorem mistyped_code_refused:
  assumes "from_manual_code t = Inr p" and "typed t = xs @ c # ys" and "d \<in> set ''0123456789''" "d \<noteq> c"
    and "typed u = xs @ d # ys \<or> (\<exists>zs. ys = d # zs \<and> typed u = xs @ d # c # zs)"
  shows "from_manual_code u = Inl IntegrityCheckFailed"
proof -
  obtain ds where ds: "typed t = map digit_char ds" "\<forall>d \<in> set ds. d < 10" using manual_accepts [OF assms(1)] by metis
  then obtain d1 x d2 where x: "ds = d1 @ x # d2" "xs = map digit_char d1" "c = digit_char x" "ys = map digit_char d2"
    using assms(2) by (auto simp: append_eq_map_conv Cons_eq_map_conv)
  obtain y where y: "y < 10" "d = digit_char y" using digit_chars [OF assms(3)] by blast
  have small: "\<forall>d \<in> set (rev d2 @ rev d1). d < 10" "x < 10" using ds(2) x(1) by auto
  from assms(5) show ?thesis
  proof
    assume u: "typed u = xs @ d # ys"
    have "vstate 0 (rev (d1 @ y # d2)) 0 \<noteq> vstate 0 (rev ds) 0"
      using vstate_single [OF small y(1), of 0] assms(4) x y(2) by auto
    then show ?thesis using u x y small(1)
      by (intro changed_code_refused [OF assms(1) ds, of u "d1 @ y # d2"]) auto
  next
    assume "\<exists>zs. ys = d # zs \<and> typed u = xs @ d # c # zs"
    then obtain zs where u: "ys = d # zs" "typed u = xs @ d # c # zs" by blast
    obtain y' d3 where y': "d2 = y' # d3" "d = digit_char y'" "zs = map digit_char d3" using u(1) x(4) by auto
    have s: "\<forall>d \<in> set (rev d3 @ rev d1). d < 10" "y' < 10" using small(1) y'(1) by auto
    have "vstate 0 (rev (d1 @ y' # x # d3)) 0 \<noteq> vstate 0 (rev ds) 0"
      using vstate_swap [OF s(1) small(2) s(2), of 0] assms(4) x y' by auto
    then show ?thesis using u x y' s small(2)
      by (intro changed_code_refused [OF assms(1) ds, of u "d1 @ y' # x # d3"]) auto
  qed
qed

theorem mistyped_code_refused_witness:
  "from_manual_code ''34970112323'' = Inl IntegrityCheckFailed"
proof (rule mistyped_code_refused [OF sample_accepted])
  show "typed ''34970112332'' = ''349701123'' @ CHR ''3'' # ''2''" "CHR ''2'' \<in> set ''0123456789''" "CHR ''2'' \<noteq> CHR ''3''"
    by (simp_all add: typed_def)
  show "typed ''34970112323'' = ''349701123'' @ CHR ''2'' # ''2''
      \<or> (\<exists>zs. ''2'' = CHR ''2'' # zs \<and> typed ''34970112323'' = ''349701123'' @ CHR ''2'' # CHR ''3'' # zs)"
    by (simp add: typed_def)
qed

section \<open>Only legal payloads are read\<close>

lemma br_take_bound:
  assumes "br_take n r = (Inr v, r')" and "n \<le> 64"
  shows "unat v < 2 ^ n"
proof -
  have bit_loop: "br_loop ix u r = Inr w \<Longrightarrow> bit w j \<Longrightarrow> bit u j \<or> j \<in> set ix" for ix u w j
  proof (induction ix arbitrary: u)
    case (Cons i ix)
    then show ?case by (fastforce simp: Let_def bit_or_iff bit_push_bit_iff bit_1_iff bit_exp_iff split: option.splits if_splits)
  qed simp
  have "br_loop [0..<n] 0 r = Inr v" using assms(1) by (auto simp: br_take_def split: sum.splits)
  then show ?thesis using bit_loop by (intro unat_bits_bound) force
qed

lemma unpack_ok:
  assumes "unpack bs = Inr p"
  shows "payload_ok p"
proof -
  obtain d r r' where d: "br_take 12 r = (Inr d, r')" "op_discriminator p = ucast d" "\<exists>v. passcode_new v = Inr (op_passcode p)"
    using assms by (auto simp: unpack_def unpack_fields_def bindE_def split: option.splits prod.splits sum.splits if_splits) blast
  have "unat (ucast d :: u16) < 2 ^ 12" using br_take_bound [OF d(1)] by (simp add: unsigned_ucast_eq take_bit_nat_eq_self)
  then show ?thesis using d(2,3) passcode_ok by (auto simp: payload_ok_def DISCRIMINATOR_MASK_def word_le_nat_alt)
qed

lemma manual_payload_ok:
  assumes "manual_payload ds b = Inr p"
  shows "payload_ok p"
proof -
  obtain first g :: u32 and v where d: "op_discriminator p = ucast (push_bit 10 (first AND 3) OR drop_bit 6 (g AND 0xC000))"
      "passcode_new v = Inr (op_passcode p)"
    using assms by (auto simp: manual_payload_def Let_def bindR_ok_iff split: if_splits)
  have "unat (op_discriminator p) < 2 ^ 12"
    unfolding d(1) by (rule unat_bits_bound) (auto simp: masks word_bits)
  then show ?thesis using d(2) passcode_ok by (auto simp: payload_ok_def DISCRIMINATOR_MASK_def word_le_nat_alt)
qed

text \<open>No text, scanned or typed, yields a payload with a forbidden passcode or a discriminator of more than twelve bits.\<close>

theorem parsed_payload_is_legal:
  assumes "from_qr t = Inr p \<or> from_manual_code t = Inr p"
  shows "payload_ok p"
  using assms
proof
  assume "from_qr t = Inr p"
  then show ?thesis using unpack_ok by (auto simp: from_qr_def Let_def split: prod.splits sum.splits if_splits)
next
  assume "from_manual_code t = Inr p"
  from manual_accepts [OF this] show ?thesis using manual_payload_ok by metis
qed

theorem parsed_payload_is_legal_witness: "payload_ok (manual_view False sample_payload)"
  by (rule parsed_payload_is_legal [OF disjI2 [OF sample_accepted]])

end
