(* ===== verification/Im_Subscription.thy ===== *)
theory Im_Subscription
  imports Dm_Node Keyed_Table Platform_Time Im_Status
begin

text \<open>
  Subscriptions and the reporting engine (\<^verbatim>\<open>src/src/im/subscription.rs\<close>, and \<^verbatim>\<open>rebind\<close> of
  \<^verbatim>\<open>src/src/im/persist.rs\<close>): the negotiation of the intervals, the bounded set of changed paths, when a report is due and what it
  draws from, and the table of subscriptions with its share per fabric.  The node's numbers are a record of parameters.
\<close>

section \<open>Negotiation\<close>

definition MAX_INTERVAL_PUBLISHER_LIMIT_S :: u16 where "MAX_INTERVAL_PUBLISHER_LIMIT_S = 3600"

record SubscriptionPolicy =
  max_interval_limit_s :: u16
  preferred_max_interval_s :: "u16 option"

definition policy_default :: SubscriptionPolicy where
  "policy_default = \<lparr>max_interval_limit_s = MAX_INTERVAL_PUBLISHER_LIMIT_S, preferred_max_interval_s = None\<rparr>"

text \<open>\<^verbatim>\<open>Ord::clamp\<close>.\<close>

definition clamp :: "'a::linorder \<Rightarrow> 'a \<Rightarrow> 'a \<Rightarrow> 'a" where
  "clamp v lo hi = (if v < lo then lo else if v > hi then hi else v)"

definition max_interval :: "SubscriptionPolicy \<Rightarrow> u16 \<Rightarrow> u16 \<Rightarrow> u16" where
  "max_interval p floor_s ceiling_s =
     (let upper = max (max_interval_limit_s p) ceiling_s;
          wanted = (case preferred_max_interval_s p of None \<Rightarrow> ceiling_s | Some w \<Rightarrow> w) in
      clamp wanted (min floor_s upper) upper)"

section \<open>Changed paths\<close>

record DirtySet =
  ds_paths :: "AttributePath list"
  ds_overflowed :: bool

definition dirty_new :: DirtySet where "dirty_new = \<lparr>ds_paths = [], ds_overflowed = False\<rparr>"

definition DIRTY_PATHS :: nat where "DIRTY_PATHS = 8"

definition dirty_insert :: "AttributePath \<Rightarrow> DirtySet \<Rightarrow> DirtySet" where
  "dirty_insert p d =
     (if ds_overflowed d \<or> p \<in> set (ds_paths d) then d
      else case vec_push DIRTY_PATHS (ds_paths d) p of
        None \<Rightarrow> \<lparr>ds_paths = [], ds_overflowed = True\<rparr>
      | Some ps \<Rightarrow> d\<lparr>ds_paths := ps\<rparr>)"

definition is_dirty :: "DirtySet \<Rightarrow> bool" where
  "is_dirty d \<longleftrightarrow> ds_overflowed d \<or> ds_paths d \<noteq> []"

definition must_reprime :: "DirtySet \<Rightarrow> bool" where "must_reprime d = ds_overflowed d"

definition dirty_clear :: "DirtySet \<Rightarrow> DirtySet" where
  "dirty_clear d = d\<lparr>ds_paths := [], ds_overflowed := False\<rparr>"

definition dirty_reprime :: "DirtySet \<Rightarrow> DirtySet" where
  "dirty_reprime d = d\<lparr>ds_paths := [], ds_overflowed := True\<rparr>"

section \<open>One subscription\<close>

record ReadCursor =
  rc_path :: nat
  rc_expansion :: ExpandCursor
  rc_list :: "u32 option"
  rc_event_path :: nat
  rc_event_from :: u64
  rc_done :: bool

definition read_cursor_START :: ReadCursor where
  "read_cursor_START = \<lparr>rc_path = 0, rc_expansion = cursor_START, rc_list = None, rc_event_path = 0, rc_event_from = 0, rc_done = False\<rparr>"

record Subscription =
  sub_id :: u32
  sub_session :: "SessionId option"
  sub_fabric_index :: "FabricIndex option"
  sub_peer_node_id :: "NodeId option"
  sub_fabric_filtered :: bool
  sub_min_interval_s :: u16
  sub_max_interval_s :: u16
  sub_paths :: "AttributePath list"
  sub_last_report :: Instant
  sub_event_paths :: "EventPath list"
  sub_dirty :: DirtySet
  sub_next_event_number :: u64
  sub_urgent :: bool
  sub_reported_through :: u64
  sub_cursor :: ReadCursor

datatype ReportReason = DataReport | KeepAlive

definition sub_reprime :: "Subscription \<Rightarrow> Subscription" where
  "sub_reprime s = s\<lparr>sub_dirty := dirty_reprime (sub_dirty s), sub_cursor := read_cursor_START\<rparr>"

definition report_source :: "Subscription \<Rightarrow> AttributePath list \<times> EventPath list \<times> u64 \<times> ReadCursor" where
  "report_source s =
     (if must_reprime (sub_dirty s) then sub_paths s else ds_paths (sub_dirty s),
      sub_event_paths s, sub_next_event_number s, sub_cursor s)"

text \<open>Where \<^verbatim>\<open>Server::report_chunk\<close> takes a report up: a series that is done starts over.\<close>

definition report_cursor :: "ReadCursor \<Rightarrow> ReadCursor" where
  "report_cursor cursor = (if rc_done cursor then read_cursor_START else cursor)"

text \<open>The loop of \<^verbatim>\<open>Server::serve_chunk_with_events\<close> over the paths skips those behind the cursor.\<close>

definition paths_ahead :: "ReadCursor \<Rightarrow> AttributePath list \<Rightarrow> AttributePath list" where
  "paths_ahead cursor paths = map snd (filter (\<lambda>(index, path). \<not> index < rc_path cursor) (enumerate 0 paths))"

definition report_paths_left :: "Subscription \<Rightarrow> AttributePath list" where
  "report_paths_left s = (case report_source s of (paths, events, from, cursor) \<Rightarrow> paths_ahead (report_cursor cursor) paths)"

definition earliest_report :: "Subscription \<Rightarrow> Instant" where
  "earliest_report s = instant_add (sub_last_report s) (from_secs (ucast (sub_min_interval_s s)))"

definition latest_report :: "Subscription \<Rightarrow> Instant" where
  "latest_report s = instant_add (sub_last_report s) (from_secs (ucast (sub_max_interval_s s)))"

definition has_pending :: "Subscription \<Rightarrow> bool" where
  "has_pending s \<longleftrightarrow> is_dirty (sub_dirty s) \<or> sub_urgent s"

definition sub_due :: "Instant \<Rightarrow> Subscription \<Rightarrow> ReportReason option" where
  "sub_due now s =
     (if now \<ge> latest_report s then Some (if has_pending s then DataReport else KeepAlive)
      else if has_pending s \<and> now \<ge> earliest_report s then Some DataReport
      else None)"

definition sub_next_deadline :: "Subscription \<Rightarrow> Instant" where
  "sub_next_deadline s = (if has_pending s then min (earliest_report s) (latest_report s) else latest_report s)"

definition reported :: "Instant \<Rightarrow> Subscription \<Rightarrow> Subscription" where
  "reported now s =
     s\<lparr>sub_last_report := now, sub_dirty := dirty_clear (sub_dirty s), sub_cursor := read_cursor_START, sub_urgent := False,
       sub_next_event_number := max (sub_next_event_number s) (sub_reported_through s), sub_reported_through := 0\<rparr>"

definition note_reported_through :: "u64 \<Rightarrow> Subscription \<Rightarrow> Subscription" where
  "note_reported_through through s = s\<lparr>sub_reported_through := max (sub_reported_through s) through\<rparr>"

text \<open>\<^verbatim>\<open>is_none_or(|wanted| wanted == have)\<close>.\<close>

definition wants :: "'a option \<Rightarrow> 'a \<Rightarrow> bool" where
  "wants wanted have = (case wanted of None \<Rightarrow> True | Some w \<Rightarrow> w = have)"

definition event_covered :: "EndpointId \<Rightarrow> ClusterId \<Rightarrow> EventId \<Rightarrow> EventPath \<Rightarrow> bool" where
  "event_covered e c v p \<longleftrightarrow> wants (evp_endpoint p) e \<and> wants (evp_cluster p) c \<and> wants (evp_event p) v"

fun urgency_loop :: "EndpointId \<Rightarrow> ClusterId \<Rightarrow> EventId \<Rightarrow> EventPath list \<Rightarrow> bool option \<Rightarrow> bool option" where
  "urgency_loop e c v [] urgent = urgent"
| "urgency_loop e c v (p # ps) urgent =
     urgency_loop e c v ps
       (if event_covered e c v p
        then Some ((case urgent of None \<Rightarrow> False | Some u \<Rightarrow> u) \<or> (case evp_is_urgent p of None \<Rightarrow> False | Some u \<Rightarrow> u))
        else urgent)"

definition event_urgency :: "EndpointId \<Rightarrow> ClusterId \<Rightarrow> EventId \<Rightarrow> Subscription \<Rightarrow> bool option" where
  "event_urgency e c v s = urgency_loop e c v (sub_event_paths s) None"

definition sub_note_event :: "EndpointId \<Rightarrow> ClusterId \<Rightarrow> EventId \<Rightarrow> Subscription \<Rightarrow> bool \<times> Subscription" where
  "sub_note_event e c v s =
     (case event_urgency e c v s of Some True \<Rightarrow> (True, s\<lparr>sub_urgent := True\<rparr>) | _ \<Rightarrow> (False, s))"

definition matches_part :: "'a option \<Rightarrow> 'a option \<Rightarrow> bool" where
  "matches_part wanted have = (case wanted of None \<Rightarrow> True | Some w \<Rightarrow> have = Some w)"

definition path_covers :: "AttributePath \<Rightarrow> AttributePath \<Rightarrow> bool" where
  "path_covers subscribed concrete \<longleftrightarrow>
     matches_part (ap_endpoint subscribed) (ap_endpoint concrete)
     \<and> matches_part (ap_cluster subscribed) (ap_cluster concrete)
     \<and> matches_part (ap_attribute subscribed) (ap_attribute concrete)"

definition sub_covers :: "AttributePath \<Rightarrow> Subscription \<Rightarrow> bool" where
  "sub_covers p s \<longleftrightarrow> (\<exists>q \<in> set (sub_paths s). path_covers q p)"

definition sub_note_change :: "AttributePath \<Rightarrow> Subscription \<Rightarrow> bool \<times> Subscription" where
  "sub_note_change p s =
     (if \<not> sub_covers p s then (False, s) else (True, s\<lparr>sub_dirty := dirty_insert p (sub_dirty s)\<rparr>))"

definition intersect_cluster :: "AttributePath \<Rightarrow> EndpointId \<Rightarrow> ClusterId \<Rightarrow> AttributePath option" where
  "intersect_cluster subscribed e c =
     (if (case ap_endpoint subscribed of None \<Rightarrow> False | Some w \<Rightarrow> w \<noteq> e) then None
      else if (case ap_cluster subscribed of None \<Rightarrow> False | Some w \<Rightarrow> w \<noteq> c) then None
      else Some (subscribed\<lparr>ap_endpoint := Some e, ap_cluster := Some c\<rparr>))"

section \<open>The table\<close>

text \<open>\<^verbatim>\<open>C::FABRICS\<close>, \<^verbatim>\<open>C::SUBSCRIPTIONS_PER_FABRIC\<close>, and the const generics \<^verbatim>\<open>N\<close> and \<^verbatim>\<open>P\<close>.\<close>

record SubLimits =
  sl_fabrics :: nat
  sl_per_fabric :: nat
  sl_table :: nat
  sl_paths :: nat

record SubscriptionTable =
  tb_subscriptions :: "Subscription list"
  tb_last_id :: u32

datatype SubscribeError = NoPaths | TooManyPaths | Full | FabricQuota

fun subscribe_error_status :: "SubscribeError \<Rightarrow> Status" where
  "subscribe_error_status NoPaths = Status_InvalidAction"
| "subscribe_error_status TooManyPaths = Status_PathsExhausted"
| "subscribe_error_status Full = Status_ResourceExhausted"
| "subscribe_error_status FabricQuota = Status_ResourceExhausted"

fun subscribe_error_code :: "SubscribeError \<Rightarrow> ErrorCode" where
  "subscribe_error_code NoPaths = InvalidArgument"
| "subscribe_error_code TooManyPaths = NoSpace"
| "subscribe_error_code Full = NoSpace"
| "subscribe_error_code FabricQuota = NoSpace"

definition table_new :: SubscriptionTable where
  "table_new = \<lparr>tb_subscriptions = [], tb_last_id = 0\<rparr>"

definition table_find :: "u32 \<Rightarrow> SubscriptionTable \<Rightarrow> Subscription option" where
  "table_find i t = List.find (\<lambda>s. sub_id s = i) (tb_subscriptions t)"

text \<open>\<^verbatim>\<open>Vec::remove\<close> keeps the order of the rest.\<close>

definition table_remove :: "u32 \<Rightarrow> SubscriptionTable \<Rightarrow> bool \<times> SubscriptionTable" where
  "table_remove i t =
     (case position (\<lambda>s. sub_id s = i) (tb_subscriptions t) of
        Some k \<Rightarrow> (True, t\<lparr>tb_subscriptions := take k (tb_subscriptions t) @ drop (k + 1) (tb_subscriptions t)\<rparr>)
      | None \<Rightarrow> (False, t))"

definition remove_for_session :: "SessionId option \<Rightarrow> SubscriptionTable \<Rightarrow> nat \<times> SubscriptionTable" where
  "remove_for_session session t =
     (let kept = filter (\<lambda>s. sub_session s \<noteq> session) (tb_subscriptions t) in
      (length (tb_subscriptions t) - length kept, t\<lparr>tb_subscriptions := kept\<rparr>))"

definition remove_for_fabric :: "FabricIndex \<Rightarrow> SubscriptionTable \<Rightarrow> nat \<times> SubscriptionTable" where
  "remove_for_fabric fabric t =
     (let kept = filter (\<lambda>s. sub_fabric_index s \<noteq> Some fabric) (tb_subscriptions t) in
      (length (tb_subscriptions t) - length kept, t\<lparr>tb_subscriptions := kept\<rparr>))"

text \<open>A method of every subscription in turn, counting those that answer true.\<close>

definition for_each :: "(Subscription \<Rightarrow> bool \<times> Subscription) \<Rightarrow> SubscriptionTable \<Rightarrow> nat \<times> SubscriptionTable" where
  "for_each f t =
     (length (filter (fst \<circ> f) (tb_subscriptions t)), t\<lparr>tb_subscriptions := map (snd \<circ> f) (tb_subscriptions t)\<rparr>)"

definition note_event :: "EndpointId \<Rightarrow> ClusterId \<Rightarrow> EventId \<Rightarrow> SubscriptionTable \<Rightarrow> nat \<times> SubscriptionTable" where
  "note_event e c v = for_each (sub_note_event e c v)"

definition note_change :: "AttributePath \<Rightarrow> SubscriptionTable \<Rightarrow> nat \<times> SubscriptionTable" where
  "note_change p = for_each (sub_note_change p)"

text \<open>The overlaps of \<^verbatim>\<open>note_cluster_change\<close> are collected in a vector of the capacity \<^verbatim>\<open>P\<close>, which is the capacity of the subscribed
  paths they come from, so no push fails.\<close>

definition sub_note_cluster :: "EndpointId \<Rightarrow> ClusterId \<Rightarrow> Subscription \<Rightarrow> bool \<times> Subscription" where
  "sub_note_cluster e c s =
     (let overlaps = List.map_filter (\<lambda>q. intersect_cluster q e c) (sub_paths s) in
      (overlaps \<noteq> [], s\<lparr>sub_dirty := fold dirty_insert overlaps (sub_dirty s)\<rparr>))"

definition note_cluster_change :: "EndpointId \<Rightarrow> ClusterId \<Rightarrow> SubscriptionTable \<Rightarrow> nat \<times> SubscriptionTable" where
  "note_cluster_change e c = for_each (sub_note_cluster e c)"

definition reprime_all :: "SubscriptionTable \<Rightarrow> SubscriptionTable" where
  "reprime_all t = t\<lparr>tb_subscriptions := map (\<lambda>s. s\<lparr>sub_dirty := dirty_reprime (sub_dirty s)\<rparr>) (tb_subscriptions t)\<rparr>"

fun least_of :: "'a::linorder list \<Rightarrow> 'a option" where
  "least_of [] = None"
| "least_of (x # xs) = Some (case least_of xs of None \<Rightarrow> x | Some y \<Rightarrow> min x y)"

definition table_next_deadline :: "SubscriptionTable \<Rightarrow> Instant option" where
  "table_next_deadline t = least_of (map sub_next_deadline (filter (\<lambda>s. sub_session s \<noteq> None) (tb_subscriptions t)))"

definition table_due :: "Instant \<Rightarrow> SubscriptionTable \<Rightarrow> (Subscription \<times> ReportReason) list" where
  "table_due now t =
     List.map_filter (\<lambda>s. map_option (Pair s) (sub_due now s)) (filter (\<lambda>s. sub_session s \<noteq> None) (tb_subscriptions t))"

definition sub_len_of_fabric :: "FabricIndex option \<Rightarrow> SubscriptionTable \<Rightarrow> nat" where
  "sub_len_of_fabric fabric t = length (filter (\<lambda>s. sub_fabric_index s = fabric) (tb_subscriptions t))"

definition admit :: "SubLimits \<Rightarrow> FabricIndex option \<Rightarrow> SubscriptionTable \<Rightarrow> SubscribeError + unit" where
  "admit L fabric t =
     (if fabric \<noteq> None then (if sub_len_of_fabric fabric t \<ge> sl_per_fabric L then Inl FabricQuota else Inr ())
      else
        let promised = sl_fabrics L * sl_per_fabric L;
            claimed = length (filter (\<lambda>s. sub_fabric_index s \<noteq> None) (tb_subscriptions t));
            still_owed = promised - claimed;
            free = sl_table L - length (tb_subscriptions t) in
        if free > still_owed then Inr () else Inl Full)"

text \<open>\<^verbatim>\<open>for _ in 0..=u32::from(u16::MAX)\<close>.\<close>

fun sub_id_loop :: "nat \<Rightarrow> (u32 \<Rightarrow> bool) \<Rightarrow> u32 \<Rightarrow> u32" where
  "sub_id_loop 0 free i = i"
| "sub_id_loop (Suc n) free i = (if free (i + 1) then i + 1 else sub_id_loop n free (i + 1))"

definition sub_allocate_id :: "SubscriptionTable \<Rightarrow> u32 \<times> SubscriptionTable" where
  "sub_allocate_id t =
     (let i = sub_id_loop 65536 (\<lambda>i. i \<noteq> 0 \<and> table_find i t = None) (tb_last_id t) in (i, t\<lparr>tb_last_id := i\<rparr>))"

record NewSubscription =
  nw_session :: "SessionId option"
  nw_fabric_index :: "FabricIndex option"
  nw_peer_node_id :: "NodeId option"
  nw_fabric_filtered :: bool
  nw_keep_subscriptions :: bool
  nw_min_interval_s :: u16
  nw_max_interval_s :: u16
  nw_paths :: "AttributePath list"
  nw_event_paths :: "EventPath list"
  nw_min_event_number :: u64

definition subscription_of :: "NewSubscription \<Rightarrow> u32 \<Rightarrow> Instant \<Rightarrow> Subscription" where
  "subscription_of r i now =
     \<lparr>sub_id = i, sub_session = nw_session r, sub_fabric_index = nw_fabric_index r, sub_peer_node_id = nw_peer_node_id r,
      sub_fabric_filtered = nw_fabric_filtered r, sub_min_interval_s = nw_min_interval_s r,
      sub_max_interval_s = nw_max_interval_s r, sub_paths = nw_paths r, sub_last_report = now,
      sub_event_paths = nw_event_paths r, sub_dirty = dirty_new, sub_next_event_number = nw_min_event_number r,
      sub_urgent = False, sub_reported_through = 0, sub_cursor = read_cursor_START\<rparr>"

definition subscribe ::
  "SubLimits \<Rightarrow> NewSubscription \<Rightarrow> Instant \<Rightarrow> SubscriptionTable \<Rightarrow> (SubscribeError + u32) \<times> SubscriptionTable" where
  "subscribe L r now t =
     (let t = (if nw_keep_subscriptions r then t else snd (remove_for_session (nw_session r) t)) in
      if nw_paths r = [] \<and> nw_event_paths r = [] then (Inl NoPaths, t)
      else if length (nw_paths r) > sl_paths L \<or> length (nw_event_paths r) > sl_paths L then (Inl TooManyPaths, t)
      else if length (tb_subscriptions t) \<ge> sl_table L then (Inl Full, t)
      else case admit L (nw_fabric_index r) t of
        Inl e \<Rightarrow> (Inl e, t)
      | Inr _ \<Rightarrow>
          let (i, t) = sub_allocate_id t in
          case vec_push (sl_table L) (tb_subscriptions t) (subscription_of r i now) of
            None \<Rightarrow> (Inl Full, t)
          | Some ss \<Rightarrow> (Inr i, t\<lparr>tb_subscriptions := ss\<rparr>))"

definition reserve_id :: "u32 \<Rightarrow> SubscriptionTable \<Rightarrow> SubscriptionTable" where
  "reserve_id i t = (if i > tb_last_id t then t\<lparr>tb_last_id := i\<rparr> else t)"

record Durable =
  du_id :: u32
  du_fabric_index :: FabricIndex
  du_peer_node_id :: NodeId
  du_fabric_filtered :: bool
  du_min_interval_s :: u16
  du_max_interval_s :: u16
  du_next_event_number :: u64
  du_paths :: "AttributePath list"
  du_event_paths :: "EventPath list"

definition restored_of :: "Durable \<Rightarrow> Instant \<Rightarrow> Subscription" where
  "restored_of d now =
     sub_reprime \<lparr>sub_id = du_id d, sub_session = None, sub_fabric_index = Some (du_fabric_index d),
       sub_peer_node_id = Some (du_peer_node_id d), sub_fabric_filtered = du_fabric_filtered d,
       sub_min_interval_s = du_min_interval_s d, sub_max_interval_s = du_max_interval_s d, sub_paths = du_paths d,
       sub_last_report = now, sub_event_paths = du_event_paths d, sub_dirty = dirty_new,
       sub_next_event_number = du_next_event_number d, sub_urgent = False, sub_reported_through = 0,
       sub_cursor = read_cursor_START\<rparr>"

definition insert_restored :: "SubLimits \<Rightarrow> Durable \<Rightarrow> Instant \<Rightarrow> (SubscriptionTable, unit) mutator" where
  "insert_restored L d now t =
     (if table_find (du_id d) t \<noteq> None then (Inl AlreadyExists, t)
      else case vec_push (sl_table L) (tb_subscriptions t) (restored_of d now) of
        None \<Rightarrow> (Inl NoSpace, t)
      | Some ss \<Rightarrow> (Inr (), t\<lparr>tb_subscriptions := ss\<rparr>))"

definition sub_rebind :: "FabricIndex \<Rightarrow> NodeId \<Rightarrow> SessionId \<Rightarrow> Instant \<Rightarrow> Subscription \<Rightarrow> bool \<times> Subscription" where
  "sub_rebind fabric peer session now s =
     (if sub_session s \<noteq> None \<or> sub_fabric_index s \<noteq> Some fabric \<or> sub_peer_node_id s \<noteq> Some peer then (False, s)
      else (True, s\<lparr>sub_session := Some session, sub_last_report := now\<rparr>))"

definition rebind :: "FabricIndex \<Rightarrow> NodeId \<Rightarrow> SessionId \<Rightarrow> Instant \<Rightarrow> SubscriptionTable \<Rightarrow> nat \<times> SubscriptionTable" where
  "rebind fabric peer session now = for_each (sub_rebind fabric peer session now)"

section \<open>When a report is due\<close>

lemma sub_due_iff: "sub_due now s \<noteq> None \<longleftrightarrow> sub_next_deadline s \<le> now"
  by (auto simp: sub_due_def sub_next_deadline_def min_def)

lemma least_of_None: "least_of xs = None \<longleftrightarrow> xs = []"
  by (cases xs) auto

lemma least_of_le: "(\<exists>d. least_of xs = Some d \<and> d \<le> b) \<longleftrightarrow> (\<exists>x \<in> set xs. x \<le> b)"
proof (induction xs)
  case (Cons x xs)
  then show ?case by (cases "least_of xs") (auto simp: least_of_None min_le_iff_disj)
qed simp

lemma map_filter_mem: "y \<in> set (List.map_filter f xs) \<longleftrightarrow> (\<exists>x \<in> set xs. f x = Some y)"
  by (induction xs) (auto simp: map_filter_simps split: option.split)

lemma set_table_due: "(s, r) \<in> set (table_due now t) \<longleftrightarrow> s \<in> set (tb_subscriptions t) \<and> sub_session s \<noteq> None \<and> sub_due now s = Some r"
  by (auto simp: table_due_def map_filter_mem)

text \<open>A node may sleep until the deadline the table reports, and not a moment longer: some report is due at an instant
  exactly when the deadline has come.  A report is due only on a live session and never before the minimum interval unless
  the maximum has passed; at the maximum interval it is due whatever happened; and it is an empty one only when nothing is
  pending.\<close>

theorem report_schedule:
  "(table_due now t \<noteq> [] \<longleftrightarrow> (\<exists>d. table_next_deadline t = Some d \<and> d \<le> now))
    \<and> ((s, r) \<in> set (table_due now t) \<longleftrightarrow> s \<in> set (tb_subscriptions t) \<and> sub_session s \<noteq> None
      \<and> (latest_report s \<le> now \<or> earliest_report s \<le> now \<and> has_pending s) \<and> (r = KeepAlive \<longleftrightarrow> \<not> has_pending s))"
proof
  have "table_due now t \<noteq> [] \<longleftrightarrow> (\<exists>s \<in> set (tb_subscriptions t). sub_session s \<noteq> None \<and> sub_due now s \<noteq> None)"
    using set_table_due [of _ _ now t] by (metis list.set_intros(1) list.exhaust not_Some_eq empty_iff list.set(1) surj_pair)
  then show "table_due now t \<noteq> [] \<longleftrightarrow> (\<exists>d. table_next_deadline t = Some d \<and> d \<le> now)"
    unfolding sub_due_iff table_next_deadline_def least_of_le by auto
  show "(s, r) \<in> set (table_due now t) \<longleftrightarrow> s \<in> set (tb_subscriptions t) \<and> sub_session s \<noteq> None
      \<and> (latest_report s \<le> now \<or> earliest_report s \<le> now \<and> has_pending s) \<and> (r = KeepAlive \<longleftrightarrow> \<not> has_pending s)"
    unfolding set_table_due by (cases r) (auto simp: sub_due_def)
qed

lemma clamp_bounds: "lo \<le> hi \<Longrightarrow> lo \<le> clamp v lo hi \<and> clamp v lo hi \<le> hi"
  and clamp_inside: "lo \<le> v \<Longrightarrow> v \<le> hi \<Longrightarrow> clamp v lo hi = v"
  by (auto simp: clamp_def)

text \<open>The maximum interval a publisher answers with is never above the larger of its own limit and the ceiling asked for, never
  below the floor asked for when that is possible at all, and the ceiling itself for a publisher with no preference.\<close>

theorem negotiated_interval:
  "max_interval p floor_s ceiling_s \<le> max (max_interval_limit_s p) ceiling_s
    \<and> (floor_s \<le> max_interval p floor_s ceiling_s \<longleftrightarrow> floor_s \<le> max (max_interval_limit_s p) ceiling_s)
    \<and> (floor_s \<le> ceiling_s \<and> preferred_max_interval_s p = None \<longrightarrow> max_interval p floor_s ceiling_s = ceiling_s)"
proof -
  define upper where "upper = max (max_interval_limit_s p) ceiling_s"
  define wanted where "wanted = (case preferred_max_interval_s p of None \<Rightarrow> ceiling_s | Some w \<Rightarrow> w)"
  have r: "max_interval p floor_s ceiling_s = clamp wanted (min floor_s upper) upper"
    by (simp add: max_interval_def upper_def wanted_def Let_def)
  have b: "min floor_s upper \<le> clamp wanted (min floor_s upper) upper" "clamp wanted (min floor_s upper) upper \<le> upper"
    using clamp_bounds [of "min floor_s upper" upper wanted] by simp_all
  have "ceiling_s \<le> upper" by (simp add: upper_def)
  then have "clamp wanted (min floor_s upper) upper = ceiling_s" if "floor_s \<le> ceiling_s" "preferred_max_interval_s p = None"
    using that clamp_inside [of "min floor_s upper" ceiling_s upper] by (simp add: wanted_def min.coboundedI1)
  moreover have "floor_s \<le> clamp wanted (min floor_s upper) upper \<longleftrightarrow> floor_s \<le> upper"
    using b by (metis min.absorb1 order.trans)
  ultimately show ?thesis using b(2) unfolding r upper_def [symmetric] by blast
qed

section \<open>Changes wait to be reported\<close>

text \<open>What can happen to a subscription between two of its reports; \<open>SReprimeAll\<close> is the table's \<^verbatim>\<open>reprime_all\<close>.\<close>

datatype SubEvent = SChange AttributePath | SCluster EndpointId ClusterId | SEvent EndpointId ClusterId EventId | SReprime | SReprimeAll
  | SRebind FabricIndex NodeId SessionId Instant | SThrough u64

primrec sub_step :: "SubEvent \<Rightarrow> Subscription \<Rightarrow> Subscription" where
  "sub_step (SChange p) s = snd (sub_note_change p s)"
| "sub_step (SCluster e c) s = snd (sub_note_cluster e c s)"
| "sub_step (SEvent e c v) s = snd (sub_note_event e c v s)"
| "sub_step SReprime s = sub_reprime s"
| "sub_step SReprimeAll s = s\<lparr>sub_dirty := dirty_reprime (sub_dirty s)\<rparr>"
| "sub_step (SRebind f n i now) s = snd (sub_rebind f n i now s)"
| "sub_step (SThrough k) s = note_reported_through k s"

definition dirty_ok :: "Subscription \<Rightarrow> bool" where
  "dirty_ok s \<longleftrightarrow> distinct (ds_paths (sub_dirty s)) \<and> length (ds_paths (sub_dirty s)) \<le> DIRTY_PATHS
     \<and> (\<forall>p \<in> set (ds_paths (sub_dirty s)). sub_covers p s) \<and> (ds_overflowed (sub_dirty s) \<longrightarrow> ds_paths (sub_dirty s) = [])"

text \<open>A set of changed paths that will bring \<open>p\<close> into the next report: it lists it, or it asks for everything.\<close>

definition owes :: "AttributePath \<Rightarrow> DirtySet \<Rightarrow> bool" where
  "owes p d \<longleftrightarrow> must_reprime d \<or> p \<in> set (ds_paths d)"

lemma owes_insert: "owes p (dirty_insert p d)" "owes q d \<Longrightarrow> owes q (dirty_insert p d)"
  by (auto simp: owes_def must_reprime_def dirty_insert_def vec_push_def)

lemma owes_fold: "owes q d \<Longrightarrow> owes q (fold dirty_insert ps d)"
  by (induction ps arbitrary: d) (simp_all add: owes_insert)

lemma owes_all: "p \<in> set ps \<Longrightarrow> owes p (fold dirty_insert ps d)"
  by (induction ps arbitrary: d) (auto simp: owes_insert(1) intro: owes_fold)

lemma owes_reprime: "owes p (dirty_reprime d)"
  by (simp add: owes_def must_reprime_def dirty_reprime_def)

lemma sub_note_event_fields [simp]: "sub_dirty (snd (sub_note_event e c v s)) = sub_dirty s" "sub_paths (snd (sub_note_event e c v s)) = sub_paths s"
  by (auto simp: sub_note_event_def split: option.split bool.split)

lemma sub_step_paths [simp]: "sub_paths (sub_step e s) = sub_paths s"
  by (cases e) (simp_all add: sub_note_change_def sub_note_cluster_def sub_reprime_def sub_rebind_def note_reported_through_def Let_def)

lemma sub_step_owes: "owes p (sub_dirty s) \<Longrightarrow> owes p (sub_dirty (sub_step e s))"
  by (cases e) (simp_all add: sub_note_change_def sub_note_cluster_def sub_reprime_def sub_rebind_def note_reported_through_def Let_def
      owes_insert owes_fold owes_reprime)

lemma sub_run_owes: "owes p (sub_dirty s) \<Longrightarrow> owes p (sub_dirty (fold sub_step es s)) \<and> sub_paths (fold sub_step es s) = sub_paths s"
  by (induction es arbitrary: s) (simp_all add: sub_step_owes)

lemma dirty_insert_ok: "dirty_ok s \<Longrightarrow> sub_covers p s \<Longrightarrow> dirty_ok (s\<lparr>sub_dirty := dirty_insert p (sub_dirty s)\<rparr>)"
  by (auto simp: dirty_ok_def dirty_insert_def vec_push_def sub_covers_def)

lemma dirty_fold_ok:
  "dirty_ok s \<Longrightarrow> \<forall>p \<in> set ps. sub_covers p s \<Longrightarrow> dirty_ok (s\<lparr>sub_dirty := fold dirty_insert ps (sub_dirty s)\<rparr>)"
proof (induction ps arbitrary: s)
  case (Cons p ps)
  have "dirty_ok (s\<lparr>sub_dirty := dirty_insert p (sub_dirty s)\<rparr>)" using Cons.prems by (intro dirty_insert_ok) simp_all
  from Cons.IH [OF this] show ?case using Cons.prems by (simp add: sub_covers_def)
qed simp

lemma intersect_covered: "intersect_cluster q e c = Some p \<Longrightarrow> path_covers q p"
  by (auto simp: intersect_cluster_def path_covers_def matches_part_def split: option.splits if_splits)

lemma sub_step_ok: "dirty_ok s \<Longrightarrow> dirty_ok (sub_step e s)"
proof (cases e)
  case (SCluster x c)
  assume "dirty_ok s"
  moreover have "\<forall>p \<in> set (List.map_filter (\<lambda>q. intersect_cluster q x c) (sub_paths s)). sub_covers p s"
    using intersect_covered by (force simp: map_filter_mem sub_covers_def)
  ultimately show ?thesis using dirty_fold_ok SCluster by (simp add: sub_note_cluster_def Let_def)
next
  case (SChange p)
  then show "dirty_ok s \<Longrightarrow> dirty_ok (sub_step e s)" using dirty_insert_ok by (simp add: sub_note_change_def)
qed (auto simp: sub_note_event_def sub_reprime_def dirty_reprime_def sub_rebind_def
      note_reported_through_def dirty_ok_def sub_covers_def split: option.split bool.split)

lemma sub_run_ok: "dirty_ok s \<Longrightarrow> dirty_ok (fold sub_step es s)"
  by (induction es arbitrary: s) (simp_all add: sub_step_ok)

lemma paths_ahead_drop: "paths_ahead c ps = drop (rc_path c) ps"
proof -
  have "map snd (filter (\<lambda>(index, path). \<not> index < k) (enumerate n ps)) = drop (k - n) ps" for k n
    by (induction ps arbitrary: n) (auto simp: drop_Cons' not_less)
  from this [of "rc_path c" 0] show ?thesis by (simp add: paths_ahead_def)
qed

lemma sub_step_cursor: "sub_cursor s = read_cursor_START \<Longrightarrow> sub_cursor (sub_step e s) = read_cursor_START"
  by (cases e) (auto simp: sub_note_change_def sub_note_cluster_def sub_note_event_def sub_reprime_def sub_rebind_def
      note_reported_through_def Let_def split: option.split bool.split)

lemma sub_run_cursor: "sub_cursor s = read_cursor_START \<Longrightarrow> sub_cursor (fold sub_step es s) = read_cursor_START"
  by (induction es arbitrary: s) (simp_all add: sub_step_cursor)

lemma path_covers_refl: "path_covers p p"
  by (auto simp: path_covers_def matches_part_def split: option.split)

text \<open>C10: No change is lost between reports.  When a change of a subscribed path is noted while no report is under way (the cursor
  stands at the start), whatever else is noted before the next report goes out, and however many paths change, that report
  is due from the minimum interval on; it starts at the start of its list, and what it has to serve holds the path itself, or is
  everything that is subscribed, so that some path it serves covers the change; and every path it serves is one the subscriber
  asked for.\<close>

theorem change_waits_for_report:
  assumes "dirty_ok s" and "sub_covers p s" and "sub_cursor s = read_cursor_START"
    and s'_def: "s' = fold sub_step es (snd (sub_note_change p s))"
  shows "(p \<in> set (report_paths_left s') \<or> report_paths_left s' = sub_paths s)
    \<and> (\<exists>q \<in> set (report_paths_left s'). path_covers q p)
    \<and> (\<forall>now. earliest_report s' \<le> now \<longrightarrow> sub_due now s' = Some DataReport)
    \<and> (\<forall>q \<in> set (report_paths_left s'). sub_covers q s)"
proof -
  let ?s = "snd (sub_note_change p s)"
  have n: "owes p (sub_dirty ?s)" "sub_paths ?s = sub_paths s" "dirty_ok ?s" "sub_cursor ?s = read_cursor_START"
    using assms(1-3) dirty_insert_ok by (simp_all add: sub_note_change_def owes_insert)
  have r: "owes p (sub_dirty s')" "sub_paths s' = sub_paths s" "dirty_ok s'" "sub_cursor s' = read_cursor_START"
    using sub_run_owes [OF n(1), of es] n(2) sub_run_ok [OF n(3)] sub_run_cursor [OF n(4)] by (simp_all add: s'_def)
  have c: "sub_covers q s' = sub_covers q s" for q using r(2) by (simp add: sub_covers_def)
  have l: "report_paths_left s' = fst (report_source s')"
    using r(4) by (simp add: report_paths_left_def report_source_def paths_ahead_drop report_cursor_def read_cursor_START_def)
  have "has_pending s'" using r(1) by (auto simp: has_pending_def is_dirty_def owes_def must_reprime_def)
  then have d: "earliest_report s' \<le> now \<Longrightarrow> sub_due now s' = Some DataReport" for now by (simp add: sub_due_def)
  have m: "p \<in> set (report_paths_left s') \<or> report_paths_left s' = sub_paths s"
    using r(1,2) unfolding l by (auto simp: report_source_def owes_def)
  then have "\<exists>q \<in> set (report_paths_left s'). path_covers q p"
    using assms(2) path_covers_refl by (auto simp: sub_covers_def)
  moreover have "\<forall>q \<in> set (report_paths_left s'). sub_covers q s"
    using r(2,3) c path_covers_refl unfolding l by (auto simp: report_source_def dirty_ok_def sub_covers_def)
  ultimately show ?thesis using d m by blast
qed

text \<open>While a report goes out in several messages the same does not hold.  A change of a path that the report has already served is
  noted without effect, since the path is listed; the rest of the report does not serve it again; and when the report is
  done \<^verbatim>\<open>reported\<close> clears the list, so that nothing is pending and the subscriber hears no more of it than a keep-alive.\<close>

theorem change_behind_cursor_is_lost:
  assumes "dirty_ok s" and "\<not> rc_done (sub_cursor s)"
    and "p \<in> set (take (rc_path (sub_cursor s)) (ds_paths (sub_dirty s)))"
  shows "sub_note_change p s = (True, s) \<and> p \<notin> set (report_paths_left s) \<and> \<not> has_pending (reported now s)
    \<and> sub_due later (reported now s) = (if latest_report (reported now s) \<le> later then Some KeepAlive else None)"
proof -
  have p: "p \<in> set (ds_paths (sub_dirty s))" using assms(3) by (rule in_set_takeD)
  then have ov: "\<not> ds_overflowed (sub_dirty s)" and c: "sub_covers p s" using assms(1) by (auto simp: dirty_ok_def)
  have "distinct (take (rc_path (sub_cursor s)) (ds_paths (sub_dirty s)) @ drop (rc_path (sub_cursor s)) (ds_paths (sub_dirty s)))"
    using assms(1) by (simp add: dirty_ok_def)
  then have "p \<notin> set (drop (rc_path (sub_cursor s)) (ds_paths (sub_dirty s)))" using assms(3) unfolding distinct_append by blast
  then have "p \<notin> set (report_paths_left s)"
    using ov assms(2) by (simp add: report_paths_left_def report_source_def must_reprime_def report_cursor_def paths_ahead_drop)
  moreover have "\<not> has_pending (reported now s)"
    by (simp add: has_pending_def reported_def is_dirty_def dirty_clear_def)
  ultimately show ?thesis using p c by (simp add: sub_note_change_def dirty_insert_def sub_due_def)
qed

text \<open>\<^verbatim>\<open>SubscriptionTable::reprime_all\<close> leaves the cursor of a report in progress where it was, although the list it
  indexes is exchanged; \<^verbatim>\<open>Subscription::reprime\<close> resets it.\<close>

lemma reprime_all_keeps_cursor:
  "tb_subscriptions t = [s] \<Longrightarrow> tb_subscriptions (reprime_all t) = [s'] \<Longrightarrow>
     snd (snd (snd (report_source s'))) = sub_cursor s \<and> fst (report_source s') = sub_paths s \<and> sub_cursor (sub_reprime s) = read_cursor_START"
  by (auto simp: reprime_all_def report_source_def must_reprime_def dirty_reprime_def sub_reprime_def)

section \<open>Witnesses\<close>

definition onoff_path :: AttributePath where
  "onoff_path = \<lparr>ap_enable_tag_compression = False, ap_node = None, ap_endpoint = Some 1, ap_cluster = Some 6, ap_attribute = Some 0,
     ap_list_index = None, ap_wildcard_path_flags = None, ap_wildcard_filter_configuration_version = None\<rparr>"

definition onoff_request :: NewSubscription where
  "onoff_request = \<lparr>nw_session = Some 7, nw_fabric_index = Some 1, nw_peer_node_id = Some 112233, nw_fabric_filtered = False,
     nw_keep_subscriptions = False, nw_min_interval_s = 1, nw_max_interval_s = 60, nw_paths = [onoff_path], nw_event_paths = [],
     nw_min_event_number = 0\<rparr>"

theorem negotiated_interval_witness: "max_interval policy_default 10 60 = 60"
  using negotiated_interval [of policy_default 10 60] by (simp add: policy_default_def)

theorem change_waits_for_report_witness:
  "\<exists>s'. s' = sub_step SReprimeAll (snd (sub_note_change onoff_path (subscription_of onoff_request 1 (from_millis 0))))
    \<and> (\<exists>q \<in> set (report_paths_left s'). path_covers q onoff_path)
    \<and> (\<forall>now. earliest_report s' \<le> now \<longrightarrow> sub_due now s' = Some DataReport)"
proof -
  let ?s = "subscription_of onoff_request 1 (from_millis 0)"
  have "dirty_ok ?s" by (simp add: dirty_ok_def subscription_of_def dirty_new_def)
  moreover have "sub_covers onoff_path ?s"
    by (simp add: sub_covers_def subscription_of_def onoff_request_def path_covers_def matches_part_def onoff_path_def)
  moreover have "sub_cursor ?s = read_cursor_START" by (simp add: subscription_of_def)
  ultimately show ?thesis using change_waits_for_report [of ?s onoff_path _ "[SReprimeAll]", OF _ _ _ refl] by simp
qed

theorem change_behind_cursor_is_lost_witness:
  "let s = (subscription_of onoff_request 1 0)\<lparr>sub_dirty := \<lparr>ds_paths = [onoff_path], ds_overflowed = False\<rparr>,
      sub_cursor := read_cursor_START\<lparr>rc_path := 1\<rparr>\<rparr> in
    sub_note_change onoff_path s = (True, s) \<and> \<not> has_pending (reported 5 s)"
proof -
  let ?s = "(subscription_of onoff_request 1 0)\<lparr>sub_dirty := \<lparr>ds_paths = [onoff_path], ds_overflowed = False\<rparr>,
      sub_cursor := read_cursor_START\<lparr>rc_path := 1\<rparr>\<rparr>"
  have "dirty_ok ?s"
    by (simp add: dirty_ok_def DIRTY_PATHS_def sub_covers_def subscription_of_def onoff_request_def path_covers_def
        matches_part_def onoff_path_def)
  from change_behind_cursor_is_lost [OF this, of onoff_path 5] show ?thesis by (simp add: read_cursor_START_def)
qed

end
