(* ===== verification/Im_Subscription_Table.thy ===== *)
theory Im_Subscription_Table
  imports Im_Subscription "HOL-Library.Sublist"
begin

text \<open>
  The table of subscriptions over time: the table as an instance of the bounded keyed table and of the fabric-scoped one, the freshness of
  identifiers, the share of a fabric as an invariant of everything a node does with its table, and that a fabric below its
  share is always granted a subscription.
\<close>

section \<open>The table as a keyed and a scoped table\<close>

definition tb_inv :: "SubLimits \<Rightarrow> SubscriptionTable \<Rightarrow> bool" where
  "tb_inv L t \<longleftrightarrow> distinct (map sub_id (tb_subscriptions t)) \<and> length (tb_subscriptions t) \<le> sl_table L"

definition table_delete :: "u32 \<Rightarrow> SubscriptionTable \<Rightarrow> SubscriptionTable" where
  "table_delete i t = snd (table_remove i t)"

definition table_insert :: "SubLimits \<Rightarrow> Subscription \<Rightarrow> SubscriptionTable \<Rightarrow> SubscriptionTable option" where
  "table_insert L s t = map_option (\<lambda>ss. t\<lparr>tb_subscriptions := ss\<rparr>) (vec_push (sl_table L) (tb_subscriptions t) s)"

lemma remove_at:
  assumes "distinct (map k xs)" and "i < length xs"
  shows "set (take i xs @ drop (Suc i) xs) = {x \<in> set xs. k x \<noteq> k (xs ! i)}" "distinct (map k (take i xs @ drop (Suc i) xs))"
proof -
  have xs: "xs = take i xs @ xs ! i # drop (Suc i) xs" using assms(2) by (rule id_take_nth_drop)
  obtain a b where ab: "take i xs = a" "drop (Suc i) xs = b" by simp
  then have "distinct (map k (a @ xs ! i # b))" using assms(1) xs by metis
  moreover have "set xs = set a \<union> {xs ! i} \<union> set b" using xs ab by (metis Un_insert_right list.simps(15) set_append sup_bot_right Un_assoc insert_is_Un)
  ultimately show "set (take i xs @ drop (Suc i) xs) = {x \<in> set xs. k x \<noteq> k (xs ! i)}" "distinct (map k (take i xs @ drop (Suc i) xs))"
    unfolding ab by (auto simp: image_iff)
qed

lemma table_delete_entries:
  assumes "distinct (map sub_id (tb_subscriptions t))"
  shows "set (tb_subscriptions (table_delete i t)) = {s \<in> set (tb_subscriptions t). sub_id s \<noteq> i}"
    "distinct (map sub_id (tb_subscriptions (table_delete i t)))" "length (tb_subscriptions (table_delete i t)) \<le> length (tb_subscriptions t)"
proof -
  have "set (tb_subscriptions (table_delete i t)) = {s \<in> set (tb_subscriptions t). sub_id s \<noteq> i}
      \<and> distinct (map sub_id (tb_subscriptions (table_delete i t)))"
  proof (cases "position (\<lambda>s. sub_id s = i) (tb_subscriptions t)")
    case None
    then have "table_delete i t = t" by (simp add: table_delete_def table_remove_def)
    then show ?thesis using assms None by (auto simp: position_None)
  next
    case (Some k)
    then show ?thesis
      using remove_at [OF assms, of k] position_Some [OF Some] by (simp add: table_delete_def table_remove_def)
  qed
  then show "set (tb_subscriptions (table_delete i t)) = {s \<in> set (tb_subscriptions t). sub_id s \<noteq> i}"
    "distinct (map sub_id (tb_subscriptions (table_delete i t)))" by blast+
  show "length (tb_subscriptions (table_delete i t)) \<le> length (tb_subscriptions t)"
    by (auto simp: table_delete_def table_remove_def split: option.split)
qed

interpretation sbt: bounded_table "tb_inv L" tb_subscriptions sub_id table_find table_delete "sl_table L" "table_insert L" for L
proof unfold_locales
  fix t k
  assume t: "tb_inv L t"
  show "distinct (map sub_id (tb_subscriptions t))" "length (tb_subscriptions t) \<le> sl_table L" using t by (simp_all add: tb_inv_def)
  show "table_find k t = List.find (\<lambda>e. sub_id e = k) (tb_subscriptions t)" by (simp add: table_find_def)
  show "tb_inv L (table_delete k t)" "set (tb_subscriptions (table_delete k t)) = {e \<in> set (tb_subscriptions t). sub_id e \<noteq> k}"
    using t table_delete_entries [of t k] by (auto simp: tb_inv_def)
next
  fix t and e :: Subscription
  assume t: "tb_inv L t" "table_find (sub_id e) t = None"
  then show "table_insert L e t = None \<longleftrightarrow> length (tb_subscriptions t) = sl_table L"
    by (auto simp: table_insert_def tb_inv_def)
  fix t'
  assume "table_insert L e t = Some t'"
  moreover have "sub_id e \<notin> sub_id ` set (tb_subscriptions t)" using t(2) by (auto simp: table_find_def find_None)
  ultimately show "tb_inv L t' \<and> tb_subscriptions t' = tb_subscriptions t @ [e]"
    using t(1) by (auto simp: table_insert_def tb_inv_def)
qed

definition drop_fabric :: "FabricIndex option \<Rightarrow> SubscriptionTable \<Rightarrow> SubscriptionTable" where
  "drop_fabric f t = t\<lparr>tb_subscriptions := filter (\<lambda>s. sub_fabric_index s \<noteq> f) (tb_subscriptions t)\<rparr>"

interpretation sbf: fabric_scoped "\<lambda>t. set (tb_subscriptions t)" sub_fabric_index drop_fabric
  by unfold_locales (auto simp: drop_fabric_def)

interpretation sbs: fabric_scoped "\<lambda>t. set (tb_subscriptions t)" sub_session "\<lambda>s t. snd (remove_for_session s t)"
  by unfold_locales (auto simp: remove_for_session_def Let_def)

section \<open>Identifiers\<close>

lemma sub_id_loop_free:
  assumes "\<exists>j < n. free (i + 1 + word_of_nat j)"
  shows "free (sub_id_loop n free i)"
  using assms
proof (induction n arbitrary: i)
  case (Suc n)
  show ?case
  proof (cases "free (i + 1)")
    case False
    obtain j where j: "j < Suc n" "free (i + 1 + word_of_nat j)" using Suc.prems by blast
    then obtain k where k: "j = Suc k" using False by (cases j) auto
    then have "free (i + 1 + 1 + word_of_nat k)" using j(2) by (simp add: add.assoc)
    then show ?thesis using Suc.IH [of "i + 1"] False j(1) k by auto
  qed simp
qed simp

lemma sub_allocate_fresh:
  assumes "length (tb_subscriptions t) < 65535"
  shows "sub_allocate_id t = (i, t') \<Longrightarrow> i \<noteq> 0 \<and> table_find i t = None \<and> t' = t\<lparr>tb_last_id := i\<rparr>"
proof -
  let ?free = "\<lambda>i. i \<noteq> 0 \<and> table_find i t = None"
  let ?cand = "(\<lambda>j. tb_last_id t + 1 + word_of_nat j) ` {..<65536 :: nat}"
  have inj: "inj_on (\<lambda>j. tb_last_id t + 1 + word_of_nat j :: u32) {..<65536 :: nat}"
  proof (rule inj_onI)
    fix x y :: nat
    assume xy: "x \<in> {..<65536}" "y \<in> {..<65536}" "tb_last_id t + 1 + word_of_nat x = tb_last_id t + 1 + word_of_nat y"
    then have "unat (word_of_nat x :: u32) = unat (word_of_nat y :: u32)" by simp
    then show "x = y" using xy(1,2) by (simp add: unsigned_of_nat take_bit_nat_eq_self)
  qed
  have "\<exists>j < 65536. ?free (tb_last_id t + 1 + word_of_nat j)"
  proof (rule ccontr)
    assume "\<not> ?thesis"
    then have "?cand \<subseteq> insert 0 (sub_id ` set (tb_subscriptions t))" by (auto simp: table_find_def find_None image_iff) metis
    then have "card ?cand \<le> card (insert 0 (sub_id ` set (tb_subscriptions t)))" by (intro card_mono) auto
    also have "\<dots> \<le> Suc (card (sub_id ` set (tb_subscriptions t)))" by (rule card_insert_le_m1) auto
    also have "\<dots> \<le> Suc (length (tb_subscriptions t))" using card_image_le card_length by (metis Suc_le_mono List.finite_set le_trans)
    finally show False using inj assms by (simp add: card_image)
  qed
  then have "?free (sub_id_loop 65536 ?free (tb_last_id t))" by (rule sub_id_loop_free)
  then show "sub_allocate_id t = (i, t') \<Longrightarrow> ?thesis" by (auto simp: sub_allocate_id_def Let_def)
qed

section \<open>The share of a fabric\<close>

text \<open>What matters to admission: the fabrics the subscriptions belong to.\<close>

definition fabs :: "SubscriptionTable \<Rightarrow> FabricIndex option list" where
  "fabs t = map sub_fabric_index (tb_subscriptions t)"

definition claimed :: "FabricIndex option list \<Rightarrow> nat" where
  "claimed gs = length (filter (\<lambda>g. g \<noteq> None) gs)"

definition share_of :: "FabricIndex \<Rightarrow> FabricIndex option list \<Rightarrow> nat" where
  "share_of f gs = length (filter (\<lambda>g. g = Some f) gs)"

definition owed_shares :: "SubLimits \<Rightarrow> nat" where
  "owed_shares L = sl_fabrics L * sl_per_fabric L"

definition share_inv :: "SubLimits \<Rightarrow> FabricIndex set \<Rightarrow> FabricIndex option list \<Rightarrow> bool" where
  "share_inv L F gs \<longleftrightarrow> finite F \<and> card F \<le> sl_fabrics L \<and> (\<forall>f. Some f \<in> set gs \<longrightarrow> f \<in> F)
     \<and> (\<forall>f. share_of f gs \<le> sl_per_fabric L) \<and> length gs + (owed_shares L - claimed gs) \<le> sl_table L"

lemma sub_len_of_fabric_share: "sub_len_of_fabric (Some f) t = share_of f (fabs t)"
  by (simp add: sub_len_of_fabric_def share_of_def fabs_def filter_map o_def)

lemma claimed_table: "length (filter (\<lambda>s. sub_fabric_index s \<noteq> None) (tb_subscriptions t)) = claimed (fabs t)"
  by (simp add: claimed_def fabs_def filter_map o_def)

lemma claimed_sum: "finite F \<Longrightarrow> \<forall>f. Some f \<in> set gs \<longrightarrow> f \<in> F \<Longrightarrow> claimed gs = (\<Sum>f \<in> F. share_of f gs)"
proof (induction gs)
  case (Cons g gs)
  then have IH: "claimed gs = (\<Sum>f \<in> F. share_of f gs)" by simp
  show ?case
  proof (cases g)
    case None
    then show ?thesis using IH by (simp add: claimed_def share_of_def)
  next
    case (Some x)
    then have "x \<in> F" using Cons.prems by simp
    have "(\<Sum>f \<in> F. share_of f (g # gs)) = (\<Sum>f \<in> F. share_of f gs + (if f = x then 1 else 0))"
      by (rule sum.cong) (auto simp: share_of_def Some)
    also have "\<dots> = claimed gs + 1" using IH \<open>x \<in> F\<close> Cons.prems(1) by (simp add: sum.distrib)
    finally show ?thesis by (simp add: claimed_def Some)
  qed
qed (simp add: claimed_def share_of_def)

text \<open>A fabric below its share leaves a promise open, and a promise open is a slot free.\<close>

lemma share_open:
  assumes "share_inv L F gs" and "f \<in> F" and "share_of f gs < sl_per_fabric L"
  shows "claimed gs < owed_shares L" "length gs < sl_table L"
proof -
  have i: "finite F" "card F \<le> sl_fabrics L" "\<forall>f. share_of f gs \<le> sl_per_fabric L" "length gs + (owed_shares L - claimed gs) \<le> sl_table L"
    and c: "claimed gs = (\<Sum>f \<in> F. share_of f gs)" using assms(1) claimed_sum by (auto simp: share_inv_def)
  note c
  also have "(\<Sum>f \<in> F. share_of f gs) < (\<Sum>f \<in> F. sl_per_fabric L)"
    using i(1,3) assms(2,3) by (intro sum_strict_mono_ex1) auto
  also have "\<dots> \<le> owed_shares L" using i(2) by (simp add: owed_shares_def)
  finally show "claimed gs < owed_shares L" .
  then show "length gs < sl_table L" using i(4) by linarith
qed

lemma share_inv_snoc:
  assumes "share_inv L F gs" and "case g of None \<Rightarrow> sl_table L - length gs > owed_shares L - claimed gs
    | Some f \<Rightarrow> f \<in> F \<and> share_of f gs < sl_per_fabric L"
  shows "share_inv L F (gs @ [g])"
proof (cases g)
  case None
  then show ?thesis using assms by (auto simp: share_inv_def share_of_def claimed_def)
next
  case (Some f)
  then have f: "f \<in> F" "share_of f gs < sl_per_fabric L" using assms(2) by simp_all
  note s = share_open [OF assms(1) f]
  have "share_of x (gs @ [g]) = share_of x gs + (if x = f then 1 else 0)" for x by (simp add: share_of_def Some)
  moreover have "claimed (gs @ [g]) = claimed gs + 1" by (simp add: claimed_def Some)
  ultimately show ?thesis using assms(1) f s Some by (auto simp: share_inv_def)
qed

lemma subseq_counts:
  "subseq gs' gs \<Longrightarrow> length gs' + claimed gs \<le> length gs + claimed gs' \<and> share_of f gs' \<le> share_of f gs \<and> claimed gs' \<le> claimed gs"
  by (induction rule: list_emb.induct) (auto simp: claimed_def share_of_def)

lemma share_inv_subseq:
  assumes "share_inv L F gs" and "subseq gs' gs"
  shows "share_inv L F gs'"
proof -
  have "length gs' + (owed_shares L - claimed gs') \<le> length gs + (owed_shares L - claimed gs)"
  proof -
    have "length gs' + claimed gs \<le> length gs + claimed gs'" "claimed gs' \<le> claimed gs" using subseq_counts [OF assms(2)] by auto
    then show ?thesis by arith
  qed
  moreover have "set gs' \<subseteq> set gs" using assms(2) by (auto elim: list_emb_set)
  ultimately show ?thesis using assms(1) subseq_counts [OF assms(2)] unfolding share_inv_def by (meson le_trans subsetD)
qed

section \<open>A node over time\<close>

text \<open>The fabrics a node is on and its subscription table.  A subscription comes over a session of one of the node's fabrics, or of none;
  a stored one is restored for a fabric the node is on and within its share; a fabric that leaves takes its subscriptions with it.\<close>

inductive node_reach :: "SubLimits \<Rightarrow> FabricIndex set \<Rightarrow> SubscriptionTable \<Rightarrow> bool" for L where
  start: "node_reach L {} table_new"
| fabric_added: "node_reach L F t \<Longrightarrow> f \<notin> F \<Longrightarrow> card F < sl_fabrics L \<Longrightarrow> node_reach L (insert f F) t"
| fabric_removed: "node_reach L F t \<Longrightarrow> node_reach L (F - {f}) (snd (remove_for_fabric f t))"
| subscribed: "node_reach L F t \<Longrightarrow> nw_fabric_index r = None \<or> nw_fabric_index r = Some f \<and> f \<in> F \<Longrightarrow> node_reach L F (snd (subscribe L r now t))"
| unsubscribed: "node_reach L F t \<Longrightarrow> node_reach L F (snd (table_remove i t))"
| session_gone: "node_reach L F t \<Longrightarrow> node_reach L F (snd (remove_for_session s t))"
| changed: "node_reach L F t \<Longrightarrow> node_reach L F (snd (note_change p t))"
| cluster_changed: "node_reach L F t \<Longrightarrow> node_reach L F (snd (note_cluster_change e c t))"
| event_queued: "node_reach L F t \<Longrightarrow> node_reach L F (snd (note_event e c v t))"
| reprimed: "node_reach L F t \<Longrightarrow> node_reach L F (reprime_all t)"
| report_sent: "node_reach L F t \<Longrightarrow> node_reach L F (t\<lparr>tb_subscriptions := update_first (\<lambda>s. sub_id s = i) (reported now) (tb_subscriptions t)\<rparr>)"
| id_reserved: "node_reach L F t \<Longrightarrow> node_reach L F (reserve_id i t)"
| restored: "node_reach L F t \<Longrightarrow> du_fabric_index d \<in> F \<Longrightarrow> sub_len_of_fabric (Some (du_fabric_index d)) t < sl_per_fabric L \<Longrightarrow>
    node_reach L F (snd (insert_restored L d now t))"
| rebound: "node_reach L F t \<Longrightarrow> node_reach L F (snd (rebind f n s now t))"

definition node_inv :: "SubLimits \<Rightarrow> FabricIndex set \<Rightarrow> SubscriptionTable \<Rightarrow> bool" where
  "node_inv L F t \<longleftrightarrow> tb_inv L t \<and> share_inv L F (fabs t)"

text \<open>Methods that change neither the identifiers nor the fabrics.\<close>

lemma node_inv_cong:
  "map sub_id (tb_subscriptions t') = map sub_id (tb_subscriptions t) \<Longrightarrow> fabs t' = fabs t \<Longrightarrow> node_inv L F t' = node_inv L F t"
  by (simp add: node_inv_def tb_inv_def) (metis length_map)

lemma for_each_cong:
  assumes "\<And>s. sub_id (snd (f s)) = sub_id s \<and> sub_fabric_index (snd (f s)) = sub_fabric_index s"
  shows "node_inv L F (snd (for_each f t)) = node_inv L F t"
  using assms by (intro node_inv_cong) (simp_all add: for_each_def fabs_def)

lemma node_inv_notes:
  "node_inv L F (snd (note_change p t)) = node_inv L F t" "node_inv L F (snd (note_cluster_change e c t)) = node_inv L F t"
  "node_inv L F (snd (note_event e c v t)) = node_inv L F t" "node_inv L F (snd (rebind f n i now t)) = node_inv L F t"
  "node_inv L F (reprime_all t) = node_inv L F t" "node_inv L F (reserve_id k t) = node_inv L F t"
  "node_inv L F (t\<lparr>tb_subscriptions := update_first (\<lambda>s. sub_id s = k) (reported now) (tb_subscriptions t)\<rparr>) = node_inv L F t"
proof -
  show "node_inv L F (snd (note_change p t)) = node_inv L F t" "node_inv L F (snd (note_cluster_change e c t)) = node_inv L F t"
    "node_inv L F (snd (note_event e c v t)) = node_inv L F t" "node_inv L F (snd (rebind f n i now t)) = node_inv L F t"
    unfolding note_change_def note_cluster_change_def note_event_def rebind_def
    by (rule for_each_cong; simp add: sub_note_change_def sub_note_cluster_def sub_note_event_def sub_rebind_def Let_def
        split: option.split bool.split)+
  show "node_inv L F (reprime_all t) = node_inv L F t" "node_inv L F (reserve_id k t) = node_inv L F t"
    by (rule node_inv_cong; simp add: reprime_all_def reserve_id_def fabs_def)+
  have "map h (update_first (\<lambda>s. sub_id s = k) (reported now) ss) = map h ss" if "\<And>s. h (reported now s) = h s" for h :: "Subscription \<Rightarrow> 'a" and ss
    using that by (rule map_key_update_first)
  then show "node_inv L F (t\<lparr>tb_subscriptions := update_first (\<lambda>s. sub_id s = k) (reported now) (tb_subscriptions t)\<rparr>) = node_inv L F t"
    by (intro node_inv_cong) (simp_all add: fabs_def reported_def map_key_update_first)
qed

lemma node_inv_subseq:
  assumes "node_inv L F t" and "subseq (tb_subscriptions t') (tb_subscriptions t)"
  shows "node_inv L F t'"
proof -
  have "subseq (fabs t') (fabs t)" "subseq (map sub_id (tb_subscriptions t')) (map sub_id (tb_subscriptions t))"
    using assms(2) by (simp_all add: fabs_def subseq_map)
  moreover have "distinct xs" if "subseq xs ys" "distinct ys" for xs ys :: "u32 list"
    using that by (induction rule: list_emb.induct) (auto elim: list_emb_set)
  moreover have "length (tb_subscriptions t') \<le> length (tb_subscriptions t)" using assms(2) by (rule list_emb_length)
  ultimately show ?thesis using assms(1) share_inv_subseq unfolding node_inv_def tb_inv_def by (metis le_trans)
qed

lemma remove_subseqs:
  "subseq (tb_subscriptions (snd (remove_for_session s t))) (tb_subscriptions t)"
  "subseq (tb_subscriptions (snd (remove_for_fabric f t))) (tb_subscriptions t)"
  "subseq (tb_subscriptions (snd (table_remove i t))) (tb_subscriptions t)"
proof -
  show "subseq (tb_subscriptions (snd (remove_for_session s t))) (tb_subscriptions t)"
    "subseq (tb_subscriptions (snd (remove_for_fabric f t))) (tb_subscriptions t)"
    by (simp_all add: remove_for_session_def remove_for_fabric_def Let_def)
  have "subseq (take k xs @ drop (Suc k) xs) (take k xs @ drop k xs)" for k and xs :: "Subscription list"
    by (intro list_emb_append_mono) (auto simp: suffix_drop intro!: suffix_imp_subseq, metis drop_Suc suffix_tl tl_drop)
  then show "subseq (tb_subscriptions (snd (table_remove i t))) (tb_subscriptions t)"
    by (auto simp: table_remove_def split: option.split)
qed

section \<open>Admission\<close>

definition table_before :: "NewSubscription \<Rightarrow> SubscriptionTable \<Rightarrow> SubscriptionTable" where
  "table_before r t = (if nw_keep_subscriptions r then t else snd (remove_for_session (nw_session r) t))"

lemma table_before_subseq: "subseq (tb_subscriptions (table_before r t)) (tb_subscriptions t)"
  by (simp add: table_before_def remove_subseqs)

lemma subscribe_ok:
  assumes "nw_paths r \<noteq> [] \<or> nw_event_paths r \<noteq> []" and "length (nw_paths r) \<le> sl_paths L" and "length (nw_event_paths r) \<le> sl_paths L"
    and "length (tb_subscriptions (table_before r t)) < sl_table L" and "admit L (nw_fabric_index r) (table_before r t) = Inr ()"
    and "sub_allocate_id (table_before r t) = (i, t1)" and "tb_subscriptions t1 = tb_subscriptions (table_before r t)"
  shows "subscribe L r now t = (Inr i, t1\<lparr>tb_subscriptions := tb_subscriptions (table_before r t) @ [subscription_of r i now]\<rparr>)"
  using assms unfolding subscribe_def table_before_def [symmetric] Let_def by (auto simp: vec_push_def)

lemma subscribe_entries:
  "tb_subscriptions (snd (subscribe L r now t)) = tb_subscriptions (table_before r t)
    \<or> admit L (nw_fabric_index r) (table_before r t) = Inr () \<and> length (tb_subscriptions (table_before r t)) < sl_table L
      \<and> tb_subscriptions (snd (subscribe L r now t)) =
          tb_subscriptions (table_before r t) @ [subscription_of r (fst (sub_allocate_id (table_before r t))) now]"
  unfolding subscribe_def table_before_def [symmetric] Let_def
  by (auto simp: vec_push_def sub_allocate_id_def Let_def split: sum.split)

lemma admit_share: "admit L g t = Inr () \<Longrightarrow> case g of None \<Rightarrow> sl_table L - length (fabs t) > owed_shares L - claimed (fabs t)
    | Some f \<Rightarrow> share_of f (fabs t) < sl_per_fabric L"
  using claimed_table [of t]
  by (cases g) (simp_all add: admit_def sub_len_of_fabric_share owed_shares_def fabs_def Let_def split: if_splits)

lemma node_inv_snoc:
  assumes "node_inv L F t" and "sub_id s \<notin> sub_id ` set (tb_subscriptions t)" and "length (tb_subscriptions t) < sl_table L"
    and "tb_subscriptions t' = tb_subscriptions t @ [s]"
    and "case sub_fabric_index s of None \<Rightarrow> sl_table L - length (fabs t) > owed_shares L - claimed (fabs t)
      | Some f \<Rightarrow> f \<in> F \<and> share_of f (fabs t) < sl_per_fabric L"
  shows "node_inv L F t'"
  using assms share_inv_snoc [OF _ assms(5)] by (auto simp: node_inv_def tb_inv_def fabs_def)

lemma node_inv_subscribe:
  assumes t: "node_inv L F t" and small: "sl_table L < 65535" and r: "nw_fabric_index r = None \<or> nw_fabric_index r = Some f \<and> f \<in> F"
  shows "node_inv L F (snd (subscribe L r now t))"
proof -
  let ?t = "table_before r t"
  have t0: "node_inv L F ?t" using t table_before_subseq by (rule node_inv_subseq)
  then have "length (tb_subscriptions ?t) < 65535" using small by (simp add: node_inv_def tb_inv_def)
  from sub_allocate_fresh [OF this, of "fst (sub_allocate_id ?t)" "snd (sub_allocate_id ?t)"]
  have fresh: "fst (sub_allocate_id ?t) \<notin> sub_id ` set (tb_subscriptions ?t)" by (auto simp: table_find_def find_None)
  show ?thesis
  proof (rule disjE [OF subscribe_entries [of L r now t]])
    assume "tb_subscriptions (snd (subscribe L r now t)) = tb_subscriptions ?t"
    then show ?thesis using node_inv_subseq [OF t0] by simp
  next
    assume a: "admit L (nw_fabric_index r) ?t = Inr () \<and> length (tb_subscriptions ?t) < sl_table L
      \<and> tb_subscriptions (snd (subscribe L r now t)) = tb_subscriptions ?t @ [subscription_of r (fst (sub_allocate_id ?t)) now]"
    have s: "sub_fabric_index (subscription_of r i now) = nw_fabric_index r" "sub_id (subscription_of r i now) = i" for i
      by (simp_all add: subscription_of_def)
    show ?thesis
      using a fresh admit_share [of L "nw_fabric_index r" ?t] r
      by (intro node_inv_snoc [OF t0]) (auto simp: s split: option.splits)
  qed
qed

lemma node_inv_restored:
  assumes "node_inv L F t" and "du_fabric_index d \<in> F" and "sub_len_of_fabric (Some (du_fabric_index d)) t < sl_per_fabric L"
  shows "node_inv L F (snd (insert_restored L d now t))"
proof -
  have s: "sub_fabric_index (restored_of d now) = Some (du_fabric_index d)" "sub_id (restored_of d now) = du_id d"
    by (simp_all add: restored_of_def sub_reprime_def)
  show ?thesis
  proof (cases "table_find (du_id d) t = None \<and> length (tb_subscriptions t) < sl_table L")
    case True
    then have "tb_subscriptions (snd (insert_restored L d now t)) = tb_subscriptions t @ [restored_of d now]"
      by (simp add: insert_restored_def vec_push_def)
    moreover have "du_id d \<notin> sub_id ` set (tb_subscriptions t)" using True by (auto simp: table_find_def find_None)
    ultimately show ?thesis
      using True assms by (intro node_inv_snoc [OF assms(1)]) (auto simp: s sub_len_of_fabric_share)
  next
    case False
    then have "snd (insert_restored L d now t) = t" by (auto simp: insert_restored_def vec_push_def)
    then show ?thesis using assms(1) by simp
  qed
qed

lemma node_inv_fabric_removed:
  assumes "node_inv L F t"
  shows "node_inv L (F - {f}) (snd (remove_for_fabric f t))"
proof -
  have i: "node_inv L F (snd (remove_for_fabric f t))" using assms remove_subseqs(2) by (rule node_inv_subseq)
  have "Some f \<notin> set (fabs (snd (remove_for_fabric f t)))" by (auto simp: fabs_def remove_for_fabric_def Let_def)
  then show ?thesis using i card_mono [of F "F - {f}"] by (auto simp: node_inv_def share_inv_def)
qed

lemma node_reach_inv:
  assumes "owed_shares L \<le> sl_table L" and "sl_table L < 65535"
  shows "node_reach L F t \<Longrightarrow> node_inv L F t"
proof (induction rule: node_reach.induct)
  case start
  then show ?case using assms(1) by (simp add: node_inv_def tb_inv_def share_inv_def table_new_def fabs_def share_of_def claimed_def)
next
  case (fabric_added F t f)
  then show ?case by (auto simp: node_inv_def share_inv_def)
next
  case (subscribed F t r f now)
  show ?case using subscribed.IH assms(2) subscribed.hyps(2) by (rule node_inv_subscribe)
next
  case (restored F t d now)
  then show ?case by (intro node_inv_restored)
next
  case (unsubscribed F t i)
  then show ?case using node_inv_subseq remove_subseqs by blast
next
  case (session_gone F t s)
  then show ?case using node_inv_subseq remove_subseqs by blast
qed (simp_all only: node_inv_fabric_removed node_inv_notes)

text \<open>C9: A fabric gets its share.  On a node whose table holds the share of every fabric it may be on, whatever subscriptions, sessions, fabrics
  and restarts it has seen, and whatever controllers without a fabric have taken, a fabric below its share is granted its next
  subscription: it is stored under an identifier that is not zero and not in use, with nothing to report yet, and every subscription the
  request does not replace stays as it was.\<close>

theorem fabric_gets_its_share:
  assumes "node_reach L F t" and "owed_shares L \<le> sl_table L" and "sl_table L < 65535"
    and "nw_fabric_index r = Some f" and "f \<in> F" and "sub_len_of_fabric (Some f) t < sl_per_fabric L"
    and "nw_paths r \<noteq> []" and "length (nw_paths r) \<le> sl_paths L" and "length (nw_event_paths r) \<le> sl_paths L"
  shows "\<exists>i t'. subscribe L r now t = (Inr i, t') \<and> i \<noteq> 0 \<and> table_find i (table_before r t) = None
    \<and> table_find i t' = Some (subscription_of r i now) \<and> (\<forall>j. j \<noteq> i \<longrightarrow> table_find j t' = table_find j (table_before r t))"
proof -
  let ?t = "table_before r t"
  have t: "node_inv L F t" using assms(2,3,1) by (rule node_reach_inv)
  then have t0: "node_inv L F ?t" using table_before_subseq by (rule node_inv_subseq)
  have "subseq (fabs ?t) (fabs t)" using table_before_subseq by (simp add: fabs_def subseq_map)
  then have "share_of f (fabs ?t) \<le> share_of f (fabs t)" using subseq_counts by blast
  then have s: "share_of f (fabs ?t) < sl_per_fabric L" using assms(6) by (simp add: sub_len_of_fabric_share)
  have free: "length (tb_subscriptions ?t) < sl_table L"
    using share_open(2) [OF _ assms(5) s] t0 by (simp add: node_inv_def fabs_def)
  then have small: "length (tb_subscriptions ?t) < 65535" using assms(3) by simp
  obtain i t1 where i: "sub_allocate_id ?t = (i, t1)" by fastforce
  note a = sub_allocate_fresh [OF small i]
  have ok: "subscribe L r now t = (Inr i, t1\<lparr>tb_subscriptions := tb_subscriptions ?t @ [subscription_of r i now]\<rparr>)"
    using assms(4,7-9) free s a i by (intro subscribe_ok) (simp_all add: admit_def sub_len_of_fabric_share)
  have id: "sub_id (subscription_of r i now) = i" by (simp add: subscription_of_def)
  show ?thesis
    unfolding ok using a id by (auto simp: table_find_def find_append split: option.split)
qed

definition small_node :: SubLimits where
  "small_node = \<lparr>sl_fabrics = 2, sl_per_fabric = 3, sl_table = 8, sl_paths = 4\<rparr>"

theorem fabric_gets_its_share_witness: "\<exists>i t'. subscribe small_node onoff_request (from_millis 0) table_new = (Inr i, t') \<and> i \<noteq> 0"
proof -
  have n: "node_reach small_node {1} table_new"
    using node_reach.fabric_added [OF node_reach.start, of 1 small_node] by (simp add: small_node_def)
  show ?thesis
    using fabric_gets_its_share [OF n, of onoff_request 1 "from_millis 0"]
    by (simp add: small_node_def owed_shares_def onoff_request_def sub_len_of_fabric_def table_new_def) blast
qed

end
