(* ===== verification/Bdx_Message.thy ===== *)
theory Bdx_Message
  imports Sc_Status
begin

text \<open>
  The messages of the Bulk Data Exchange (\<^verbatim>\<open>src/src/bdx/mod.rs\<close>, \<^verbatim>\<open>src/src/bdx/message.rs\<close>): status codes and the report that ends a
  transfer, opcodes, the two control octets, and the codecs of the ten messages over the module's own little-endian reader and
  writer.  The writer is interpreted as a \<open>byte_sink\<close>.
\<close>

section \<open>Status codes\<close>

datatype StatusCode =
    LengthTooLarge | LengthTooShort | LengthMismatch | LengthRequired | BadMessageContents | BadBlockCounter
  | UnexpectedMessage | ResponderBusy | TransferFailedUnknownError | TransferMethodNotSupported | FileDesignatorUnknown
  | StartOffsetNotSupported | VersionNotSupported | UnknownStatus

text \<open>\<^verbatim>\<open>Rejected<T>\<close>, and the \<^verbatim>\<open>?\<close> operator on it.\<close>

type_synonym 'a Rejected = "StatusCode + 'a"

definition bindJ :: "'a Rejected \<Rightarrow> ('a \<Rightarrow> 'b Rejected) \<Rightarrow> 'b Rejected" where
  "bindJ r f = (case r of Inl e \<Rightarrow> Inl e | Inr a \<Rightarrow> f a)"

lemma bindJ_simps [simp]: "bindJ (Inl e) f = Inl e" "bindJ (Inr a) f = f a"
  by (simp_all add: bindJ_def)

primrec status_code_value :: "StatusCode \<Rightarrow> u16" where
  "status_code_value LengthTooLarge = 0x12"
| "status_code_value LengthTooShort = 0x13"
| "status_code_value LengthMismatch = 0x14"
| "status_code_value LengthRequired = 0x15"
| "status_code_value BadMessageContents = 0x16"
| "status_code_value BadBlockCounter = 0x17"
| "status_code_value UnexpectedMessage = 0x18"
| "status_code_value ResponderBusy = 0x19"
| "status_code_value TransferFailedUnknownError = 0x1F"
| "status_code_value TransferMethodNotSupported = 0x50"
| "status_code_value FileDesignatorUnknown = 0x51"
| "status_code_value StartOffsetNotSupported = 0x52"
| "status_code_value VersionNotSupported = 0x53"
| "status_code_value UnknownStatus = 0x5F"

definition status_code_from_u16 :: "u16 \<Rightarrow> StatusCode" where
  "status_code_from_u16 v =
     (if v = 0x12 then LengthTooLarge else if v = 0x13 then LengthTooShort else if v = 0x14 then LengthMismatch
      else if v = 0x15 then LengthRequired else if v = 0x16 then BadMessageContents else if v = 0x17 then BadBlockCounter
      else if v = 0x18 then UnexpectedMessage else if v = 0x19 then ResponderBusy
      else if v = 0x1F then TransferFailedUnknownError else if v = 0x50 then TransferMethodNotSupported
      else if v = 0x51 then FileDesignatorUnknown else if v = 0x52 then StartOffsetNotSupported
      else if v = 0x53 then VersionNotSupported else UnknownStatus)"

definition PROTOCOL_BDX :: ProtocolId where "PROTOCOL_BDX = protocol_common 2"

definition bdx_report :: "StatusCode \<Rightarrow> bytes \<Rightarrow> bytes result \<times> bytes" where
  "bdx_report status buf =
     (case report_encode \<lparr>sr_general = GcFailure, sr_protocol = PROTOCOL_BDX, sr_protocol_code = status_code_value status, sr_data = []\<rparr> buf of
        (Inl e, buf) \<Rightarrow> (Inl e, buf)
      | (Inr written, buf) \<Rightarrow> (ok_or BufferTooSmall (slice_get buf 0 written), buf))"

definition read_report :: "bytes \<Rightarrow> StatusCode option result" where
  "read_report payload =
     bindR (report_decode payload) (\<lambda>r.
       if sr_general r = GcSuccess \<or> sr_protocol r \<noteq> PROTOCOL_BDX then Inr None
       else Inr (Some (status_code_from_u16 (sr_protocol_code r))))"

section \<open>Opcodes\<close>

definition VERSION :: u8 where "VERSION = 0"

datatype MessageType =
    SendInit | SendAccept | ReceiveInit | ReceiveAccept | BlockQuery | Block | BlockEof | BlockAck | BlockAckEof
  | BlockQueryWithSkip

definition message_type_from_u8 :: "u8 \<Rightarrow> MessageType Rejected" where
  "message_type_from_u8 v =
     (if v = 0x01 then Inr SendInit else if v = 0x02 then Inr SendAccept else if v = 0x04 then Inr ReceiveInit
      else if v = 0x05 then Inr ReceiveAccept else if v = 0x10 then Inr BlockQuery else if v = 0x11 then Inr Block
      else if v = 0x12 then Inr BlockEof else if v = 0x13 then Inr BlockAck else if v = 0x14 then Inr BlockAckEof
      else if v = 0x15 then Inr BlockQueryWithSkip else Inl UnexpectedMessage)"

primrec message_type_value :: "MessageType \<Rightarrow> u8" where
  "message_type_value SendInit = 0x01"
| "message_type_value SendAccept = 0x02"
| "message_type_value ReceiveInit = 0x04"
| "message_type_value ReceiveAccept = 0x05"
| "message_type_value BlockQuery = 0x10"
| "message_type_value Block = 0x11"
| "message_type_value BlockEof = 0x12"
| "message_type_value BlockAck = 0x13"
| "message_type_value BlockAckEof = 0x14"
| "message_type_value BlockQueryWithSkip = 0x15"

section \<open>The control octets\<close>

record TransferControl =
  tc_version :: u8
  tc_sender_drive :: bool
  tc_receiver_drive :: bool
  tc_asynchronous :: bool

definition tc_proposal :: TransferControl where
  "tc_proposal = \<lparr>tc_version = VERSION, tc_sender_drive = True, tc_receiver_drive = True, tc_asynchronous = False\<rparr>"

definition tc_from_u8 :: "u8 \<Rightarrow> TransferControl" where
  "tc_from_u8 v = \<lparr>tc_version = v AND 0x0F, tc_sender_drive = (v AND 0x10 \<noteq> 0), tc_receiver_drive = (v AND 0x20 \<noteq> 0),
     tc_asynchronous = (v AND 0x40 \<noteq> 0)\<rparr>"

definition tc_to_u8 :: "TransferControl \<Rightarrow> u8" where
  "tc_to_u8 c =
     (let out = tc_version c AND 0x0F;
          out = (if tc_sender_drive c then out OR 0x10 else out);
          out = (if tc_receiver_drive c then out OR 0x20 else out) in
      if tc_asynchronous c then out OR 0x40 else out)"

definition is_decided :: "TransferControl \<Rightarrow> bool" where
  "is_decided c \<longleftrightarrow> tc_sender_drive c \<noteq> tc_receiver_drive c"

record RangeControl =
  rg_definite_length :: bool
  rg_start_offset :: bool
  rg_wide_range :: bool

definition range_from_u8 :: "u8 \<Rightarrow> RangeControl" where
  "range_from_u8 v = \<lparr>rg_definite_length = (v AND 0x01 \<noteq> 0), rg_start_offset = (v AND 0x02 \<noteq> 0), rg_wide_range = (v AND 0x10 \<noteq> 0)\<rparr>"

definition range_to_u8 :: "RangeControl \<Rightarrow> u8" where
  "range_to_u8 r =
     (let out = (if rg_definite_length r then 0 OR 0x01 else 0);
          out = (if rg_start_offset r then out OR 0x02 else out) in
      if rg_wide_range r then out OR 0x10 else out)"

definition range_width :: "RangeControl \<Rightarrow> nat" where
  "range_width r = (if rg_wide_range r then 8 else 4)"

definition needs_wide :: "u64 \<Rightarrow> bool" where
  "needs_wide v \<longleftrightarrow> v > 0xFFFFFFFF"

section \<open>Reading and writing scalars\<close>

text \<open>A reader is what is left of the payload; a method that fails ends the decoding, so that the reader it leaves is never looked at.\<close>

type_synonym 'a reader = "bytes \<Rightarrow> ('a \<times> bytes) Rejected"

definition bindP :: "'a reader \<Rightarrow> ('a \<Rightarrow> 'b reader) \<Rightarrow> 'b reader" where
  "bindP p f bs = (case p bs of Inl e \<Rightarrow> Inl e | Inr (a, r) \<Rightarrow> f a r)"

definition retP :: "'a \<Rightarrow> 'a reader" where "retP a bs = Inr (a, bs)"

definition bdr_bytes :: "nat \<Rightarrow> bytes reader" where
  "bdr_bytes len rest = (if len \<le> length rest then Inr (take len rest, drop len rest) else Inl BadMessageContents)"

definition bdr_u8 :: "u8 reader" where
  "bdr_u8 = bindP (bdr_bytes 1) (\<lambda>b r. case b of [] \<Rightarrow> Inl BadMessageContents | x # _ \<Rightarrow> Inr (x, r))"

definition bdr_u16 :: "u16 reader" where
  "bdr_u16 = bindP (bdr_bytes 2) (\<lambda>b r. if length b = 2 then Inr (u16_from b, r) else Inl BadMessageContents)"

definition bdr_u32 :: "u32 reader" where
  "bdr_u32 = bindP (bdr_bytes 4) (\<lambda>b r. if length b = 4 then Inr (u32_from b, r) else Inl BadMessageContents)"

text \<open>An array of eight zeros whose first \<^verbatim>\<open>width\<close> octets are replaced.\<close>

definition bdr_uint :: "nat \<Rightarrow> u64 reader" where
  "bdr_uint width = bindP (bdr_bytes width) (\<lambda>b r.
     if width > 8 then Inl BadMessageContents else Inr (u64_from (overwrite (replicate 8 0) 0 b), r))"

definition bdr_rest :: "bytes reader" where "bdr_rest rest = Inr (rest, rest)"

definition bdr_end :: "unit reader" where
  "bdr_end rest = (if rest = [] then Inr ((), rest) else Inl BadMessageContents)"

record Writer =
  bdw_buf :: bytes
  bdw_at :: nat

definition bdw_new :: "bytes \<Rightarrow> Writer" where "bdw_new buf = \<lparr>bdw_buf = buf, bdw_at = 0\<rparr>"

definition bdw_bytes :: "bytes \<Rightarrow> (Writer, unit) mutator" where
  "bdw_bytes bs w =
     (case usize_checked_add (bdw_at w) (length bs) of
        None \<Rightarrow> (Inl BufferTooSmall, w)
      | Some e \<Rightarrow>
          if slice_get (bdw_buf w) (bdw_at w) e = None then (Inl BufferTooSmall, w)
          else (Inr (), w\<lparr>bdw_buf := overwrite (bdw_buf w) (bdw_at w) bs, bdw_at := e\<rparr>))"

definition bdw_u8 :: "u8 \<Rightarrow> (Writer, unit) mutator" where "bdw_u8 v = bdw_bytes [v]"

definition bdw_u16 :: "u16 \<Rightarrow> (Writer, unit) mutator" where "bdw_u16 v = bdw_bytes (u16_bytes v)"

definition bdw_u32 :: "u32 \<Rightarrow> (Writer, unit) mutator" where "bdw_u32 v = bdw_bytes (u32_bytes v)"

definition bdw_uint :: "u64 \<Rightarrow> nat \<Rightarrow> (Writer, unit) mutator" where
  "bdw_uint v width =
     (case slice_get (u64_bytes v) 0 width of None \<Rightarrow> failE InvalidArgument | Some slot \<Rightarrow> bdw_bytes slot)"

text \<open>\<^verbatim>\<open>let mut w = Writer::new(buf); ..; Ok(w.written())\<close>: the count, and the buffer as it is left.\<close>

definition write_into :: "(Writer, unit) mutator \<Rightarrow> (bytes, nat) mutator" where
  "write_into m buf = (case m (bdw_new buf) of (Inl e, w) \<Rightarrow> (Inl e, bdw_buf w) | (Inr _, w) \<Rightarrow> (Inr (bdw_at w), bdw_buf w))"

section \<open>The messages\<close>

record Init =
  in_control :: TransferControl
  in_max_block_size :: u16
  in_start_offset :: "u64 option"
  in_definite_length :: "u64 option"
  in_file_designator :: bytes
  in_metadata :: bytes

definition init_new :: "bytes \<Rightarrow> u16 \<Rightarrow> Init" where
  "init_new designator bsize = \<lparr>in_control = tc_proposal, in_max_block_size = bsize, in_start_offset = None, in_definite_length = None,
     in_file_designator = designator, in_metadata = []\<rparr>"

definition or_zero :: "u64 option \<Rightarrow> u64" where "or_zero v = (case v of None \<Rightarrow> 0 | Some x \<Rightarrow> x)"

definition init_range :: "Init \<Rightarrow> RangeControl" where
  "init_range m = \<lparr>rg_definite_length = (case in_definite_length m of None \<Rightarrow> False | Some len \<Rightarrow> len \<noteq> 0),
     rg_start_offset = (in_start_offset m \<noteq> None),
     rg_wide_range = (needs_wide (or_zero (in_start_offset m)) \<or> needs_wide (or_zero (in_definite_length m)))\<rparr>"

definition init_encode :: "Init \<Rightarrow> (bytes, nat) mutator" where
  "init_encode m = write_into (let range = init_range m in
     bindE (bdw_u8 (tc_to_u8 (in_control m))) (\<lambda>_.
     bindE (bdw_u8 (range_to_u8 range)) (\<lambda>_.
     bindE (bdw_u16 (in_max_block_size m)) (\<lambda>_.
     bindE (if rg_start_offset range then bdw_uint (or_zero (in_start_offset m)) (range_width range) else retE ()) (\<lambda>_.
     bindE (if rg_definite_length range then bdw_uint (or_zero (in_definite_length m)) (range_width range) else retE ()) (\<lambda>_.
     bindE (if length (in_file_designator m) < 2 ^ 16 then retE (word_of_nat (length (in_file_designator m))) else failE NoSpace) (\<lambda>n.
     bindE (bdw_u16 n) (\<lambda>_.
     bindE (bdw_bytes (in_file_designator m)) (\<lambda>_.
     bdw_bytes (in_metadata m))))))))))"

text \<open>\<^verbatim>\<open>Some(..).filter(|len| *len != 0)\<close>.\<close>

definition nonzero :: "u64 \<Rightarrow> u64 option" where "nonzero v = (if v \<noteq> 0 then Some v else None)"

definition init_decode :: "bytes \<Rightarrow> Init Rejected" where
  "init_decode payload = bindJ (
     bindP bdr_u8 (\<lambda>control.
     bindP bdr_u8 (\<lambda>rc.
     let range = range_from_u8 rc in
     bindP bdr_u16 (\<lambda>bsize.
     bindP (if rg_start_offset range then bindP (bdr_uint (range_width range)) (\<lambda>v. retP (Some v)) else retP None) (\<lambda>offset.
     bindP (if rg_definite_length range then bindP (bdr_uint (range_width range)) (\<lambda>v. retP (nonzero v)) else retP None) (\<lambda>len.
     bindP bdr_u16 (\<lambda>n.
     bindP (bdr_bytes (unat n)) (\<lambda>designator.
     bindP bdr_rest (\<lambda>metadata.
     retP \<lparr>in_control = tc_from_u8 control, in_max_block_size = bsize, in_start_offset = offset, in_definite_length = len,
       in_file_designator = designator, in_metadata = metadata\<rparr>)))))))) payload) (\<lambda>(m, _). Inr m)"

record SendAccept =
  sa_control :: TransferControl
  sa_max_block_size :: u16
  sa_metadata :: bytes

definition send_accept_encode :: "SendAccept \<Rightarrow> (bytes, nat) mutator" where
  "send_accept_encode m = write_into (
     bindE (bdw_u8 (tc_to_u8 (sa_control m))) (\<lambda>_.
     bindE (bdw_u16 (sa_max_block_size m)) (\<lambda>_.
     bdw_bytes (sa_metadata m))))"

definition send_accept_decode :: "bytes \<Rightarrow> SendAccept Rejected" where
  "send_accept_decode payload = bindJ (
     bindP bdr_u8 (\<lambda>control. bindP bdr_u16 (\<lambda>bsize. bindP bdr_rest (\<lambda>metadata.
     retP \<lparr>sa_control = tc_from_u8 control, sa_max_block_size = bsize, sa_metadata = metadata\<rparr>))) payload) (\<lambda>(m, _). Inr m)"

record ReceiveAccept =
  ra_control :: TransferControl
  ra_max_block_size :: u16
  ra_length :: "u64 option"
  ra_metadata :: bytes

definition receive_accept_range :: "ReceiveAccept \<Rightarrow> RangeControl" where
  "receive_accept_range m = \<lparr>rg_definite_length = (case ra_length m of None \<Rightarrow> False | Some len \<Rightarrow> len \<noteq> 0),
     rg_start_offset = False, rg_wide_range = needs_wide (or_zero (ra_length m))\<rparr>"

definition receive_accept_encode :: "ReceiveAccept \<Rightarrow> (bytes, nat) mutator" where
  "receive_accept_encode m = write_into (let range = receive_accept_range m in
     bindE (bdw_u8 (tc_to_u8 (ra_control m))) (\<lambda>_.
     bindE (bdw_u8 (range_to_u8 range)) (\<lambda>_.
     bindE (bdw_u16 (ra_max_block_size m)) (\<lambda>_.
     bindE (if rg_definite_length range then bdw_uint (or_zero (ra_length m)) (range_width range) else retE ()) (\<lambda>_.
     bdw_bytes (ra_metadata m))))))"

definition receive_accept_decode :: "bytes \<Rightarrow> ReceiveAccept Rejected" where
  "receive_accept_decode payload = bindJ (
     bindP bdr_u8 (\<lambda>control.
     bindP bdr_u8 (\<lambda>rc.
     let range = range_from_u8 rc in
     bindP bdr_u16 (\<lambda>bsize.
     bindP (if rg_definite_length range then bindP (bdr_uint (range_width range)) (\<lambda>v. retP (nonzero v)) else retP None) (\<lambda>len.
     bindP bdr_rest (\<lambda>metadata.
     retP \<lparr>ra_control = tc_from_u8 control, ra_max_block_size = bsize, ra_length = len, ra_metadata = metadata\<rparr>))))) payload)
     (\<lambda>(m, _). Inr m)"

record Block =
  bk_counter :: u32
  bk_data :: bytes

definition block_encode :: "Block \<Rightarrow> (bytes, nat) mutator" where
  "block_encode m = write_into (bindE (bdw_u32 (bk_counter m)) (\<lambda>_. bdw_bytes (bk_data m)))"

definition block_decode :: "bytes \<Rightarrow> Block Rejected" where
  "block_decode payload = bindJ (
     bindP bdr_u32 (\<lambda>counter. bindP bdr_rest (\<lambda>data. retP \<lparr>bk_counter = counter, bk_data = data\<rparr>)) payload) (\<lambda>(m, _). Inr m)"

text \<open>The struct \<^verbatim>\<open>Counter\<close> has one field, its value stands for it.\<close>

definition counter_encode :: "u32 \<Rightarrow> (bytes, nat) mutator" where
  "counter_encode counter = write_into (bdw_u32 counter)"

definition counter_decode :: "bytes \<Rightarrow> u32 Rejected" where
  "counter_decode payload = bindJ (bindP bdr_u32 (\<lambda>counter. bindP bdr_end (\<lambda>_. retP counter)) payload) (\<lambda>(m, _). Inr m)"

record BlockQueryWithSkip =
  qs_counter :: u32
  qs_bytes_to_skip :: u64

definition skip_encode :: "BlockQueryWithSkip \<Rightarrow> (bytes, nat) mutator" where
  "skip_encode m = write_into (bindE (bdw_u32 (qs_counter m)) (\<lambda>_. bdw_uint (qs_bytes_to_skip m) 8))"

definition skip_decode :: "bytes \<Rightarrow> BlockQueryWithSkip Rejected" where
  "skip_decode payload = bindJ (
     bindP bdr_u32 (\<lambda>counter. bindP (bdr_uint 8) (\<lambda>skip. bindP bdr_end (\<lambda>_.
     retP \<lparr>qs_counter = counter, qs_bytes_to_skip = skip\<rparr>))) payload) (\<lambda>(m, _). Inr m)"

section \<open>What is written\<close>

interpretation bds: byte_sink "\<lambda>w. length (bdw_buf w) - bdw_at w"
    "\<lambda>bs w. w\<lparr>bdw_buf := overwrite (bdw_buf w) (bdw_at w) bs, bdw_at := bdw_at w + length bs\<rparr>"
    "\<lambda>w. bdw_at w \<le> length (bdw_buf w) \<and> length (bdw_buf w) \<le> USIZE_MAX"
  by unfold_locales (auto simp: overwrite_overwrite add.assoc)

lemma bdw_bytes_writes: "bds.writes (bdw_bytes bs) bs"
  unfolding bds.writes_def by (auto simp: bdw_bytes_def usize_checked_add_def slice_get_def)

lemma bdw_writes:
  "bds.writes (bdw_u8 v) [v]" "bds.writes (bdw_u16 a) (u16_bytes a)" "bds.writes (bdw_u32 b) (u32_bytes b)"
  "n \<le> 8 \<Longrightarrow> bds.writes (bdw_uint d n) (take n (u64_bytes d))"
  by (simp_all add: bdw_u8_def bdw_u16_def bdw_u32_def bdw_uint_def slice_get_def bdw_bytes_writes)

lemma write_into_writes:
  assumes "bds.writes m bs" and "length buf \<le> USIZE_MAX"
  shows "length bs \<le> length buf \<Longrightarrow> write_into m buf = (Inr (length bs), bs @ drop (length bs) buf)"
    and "length buf < length bs \<Longrightarrow> fst (write_into m buf) = Inl BufferTooSmall"
  using assms(1) [unfolded bds.writes_def, rule_format, of "bdw_new buf"] assms(2)
  by (auto simp: write_into_def bdw_new_def overwrite_def case_prod_beta split: sum.split)

section \<open>What is read\<close>

lemma bindP_ok [simp]: "p bs = Inr (a, r) \<Longrightarrow> bindP p f bs = f a r"
  by (simp add: bindP_def)

lemma retP_apply [simp]: "retP a bs = Inr (a, bs)"
  by (simp add: retP_def)

lemma bdr_bytes_ok [simp]: "length xs = n \<Longrightarrow> bdr_bytes n (xs @ r) = Inr (xs, r)"
  by (simp add: bdr_bytes_def)

lemma bdr_ok [simp]:
  "bdr_u8 (v # r) = Inr (v, r)" "bdr_u16 (u16_bytes a @ r) = Inr (a, r)" "bdr_u32 (u32_bytes b @ r) = Inr (b, r)"
  "bdr_u32 (u32_bytes b) = Inr (b, [])"
proof -
  have "bdr_bytes 1 ([v] @ r) = Inr ([v], r)" by (rule bdr_bytes_ok) simp
  then show "bdr_u8 (v # r) = Inr (v, r)" by (simp add: bdr_u8_def)
  show 1: "bdr_u16 (u16_bytes a @ r) = Inr (a, r)" "bdr_u32 (u32_bytes b @ r) = Inr (b, r)" for r by (simp_all add: bdr_u16_def bdr_u32_def)
  show "bdr_u32 (u32_bytes b) = Inr (b, [])" using 1(2) [of "[]"] by simp
qed

lemma from_le_zeros: "from_le (replicate n 0) = 0"
  by (induction n) auto

lemma bdr_uint_ok [simp]:
  assumes "n = 8 \<or> n = 4 \<and> \<not> needs_wide v"
  shows "bdr_uint n (take n (u64_bytes v) @ r) = Inr (v, r)"
proof -
  have l: "length (take n (u64_bytes v)) = n" using assms by auto
  have "unat v < 256 ^ n"
    using assms unat_lt_len [of v] by (auto simp: needs_wide_def word_less_nat_alt)
  then have "from_le (overwrite (replicate 8 0) 0 (take n (u64_bytes v))) = unat v"
    using assms by (auto simp: overwrite_def u64_bytes_def take_to_le from_le_append from_le_zeros from_le_to_le_id)
  then have "u64_from (overwrite (replicate 8 0) 0 (take n (u64_bytes v))) = v" by (simp add: u64_from_def)
  then show ?thesis using assms by (auto simp: bdr_uint_def l)
qed

lemma bdr_end_ok [simp]: "bdr_end [] = Inr ((), [])" "bdr_rest r = Inr (r, r)"
  by (simp_all add: bdr_end_def bdr_rest_def)

lemma and_flag: "(x :: u8) AND 0x10 \<noteq> 0 \<longleftrightarrow> bit x 4" "x AND 0x20 \<noteq> 0 \<longleftrightarrow> bit x 5" "x AND 0x40 \<noteq> 0 \<longleftrightarrow> bit x 6"
  using and_exp_eq_0_iff_not_bit [of x 4] and_exp_eq_0_iff_not_bit [of x 5] and_exp_eq_0_iff_not_bit [of x 6] by simp_all

lemma control_bits: "bit (0x0F :: u8) n \<longleftrightarrow> n < 4" "bit (0x10 :: u8) n \<longleftrightarrow> n = 4" "bit (0x20 :: u8) n \<longleftrightarrow> n = 5"
  "bit (0x40 :: u8) n \<longleftrightarrow> n = 6"
proof -
  have "(0x0F :: u8) = mask 4" "(0x10 :: u8) = 2 ^ 4" "(0x20 :: u8) = 2 ^ 5" "(0x40 :: u8) = 2 ^ 6" by (simp_all add: mask_eq_exp_minus_1)
  then show "bit (0x0F :: u8) n \<longleftrightarrow> n < 4" "bit (0x10 :: u8) n \<longleftrightarrow> n = 4" "bit (0x20 :: u8) n \<longleftrightarrow> n = 5"
    "bit (0x40 :: u8) n \<longleftrightarrow> n = 6" by (simp_all only: bit_mask_iff bit_exp_iff) auto
qed

lemma tc_octet [simp]: "tc_from_u8 (tc_to_u8 c) = c\<lparr>tc_version := tc_version c AND 0x0F\<rparr>"
proof -
  have "tc_to_u8 c AND 0x0F = tc_version c AND 0x0F"
    by (rule bit_word_eqI) (auto simp only: tc_to_u8_def Let_def bit_or_iff bit_and_iff control_bits split: if_splits)
  moreover have "bit (tc_to_u8 c) 4 = tc_sender_drive c" "bit (tc_to_u8 c) 5 = tc_receiver_drive c" "bit (tc_to_u8 c) 6 = tc_asynchronous c"
    by (simp_all only: tc_to_u8_def Let_def bit_or_iff bit_and_iff control_bits if_distrib [where f = "\<lambda>w. bit w _"]) simp_all
  ultimately show ?thesis by (simp add: tc_from_u8_def and_flag)
qed

lemma range_octet [simp]: "range_from_u8 (range_to_u8 r) = r"
  by (cases r) (simp add: range_from_u8_def range_to_u8_def Let_def)

section \<open>The octets of a message\<close>

definition init_bytes :: "Init \<Rightarrow> bytes" where
  "init_bytes m = [tc_to_u8 (in_control m)] @ [range_to_u8 (init_range m)] @ u16_bytes (in_max_block_size m)
     @ (if rg_start_offset (init_range m) then take (range_width (init_range m)) (u64_bytes (or_zero (in_start_offset m))) else [])
     @ (if rg_definite_length (init_range m) then take (range_width (init_range m)) (u64_bytes (or_zero (in_definite_length m))) else [])
     @ u16_bytes (word_of_nat (length (in_file_designator m))) @ in_file_designator m @ in_metadata m"

definition send_accept_bytes :: "SendAccept \<Rightarrow> bytes" where
  "send_accept_bytes m = [tc_to_u8 (sa_control m)] @ u16_bytes (sa_max_block_size m) @ sa_metadata m"

definition receive_accept_bytes :: "ReceiveAccept \<Rightarrow> bytes" where
  "receive_accept_bytes m = [tc_to_u8 (ra_control m)] @ [range_to_u8 (receive_accept_range m)] @ u16_bytes (ra_max_block_size m)
     @ (if rg_definite_length (receive_accept_range m) then take (range_width (receive_accept_range m)) (u64_bytes (or_zero (ra_length m))) else [])
     @ ra_metadata m"

definition block_bytes :: "Block \<Rightarrow> bytes" where "block_bytes m = u32_bytes (bk_counter m) @ bk_data m"

definition skip_bytes :: "BlockQueryWithSkip \<Rightarrow> bytes" where
  "skip_bytes m = u32_bytes (qs_counter m) @ take 8 (u64_bytes (qs_bytes_to_skip m))"

lemma range_width_le: "range_width r \<le> 8"
  by (simp add: range_width_def)

lemma writes_cond: "bds.writes m bs \<Longrightarrow> bds.writes (if c then m else retE ()) (if c then bs else [])"
  by (simp add: bds.writes_ret)

lemma message_writes:
  "length (in_file_designator m) < 2 ^ 16 \<Longrightarrow> \<exists>w. init_encode m = write_into w \<and> bds.writes w (init_bytes m)"
  "\<exists>w. send_accept_encode a = write_into w \<and> bds.writes w (send_accept_bytes a)"
  "\<exists>w. receive_accept_encode b = write_into w \<and> bds.writes w (receive_accept_bytes b)"
  "\<exists>w. block_encode k = write_into w \<and> bds.writes w (block_bytes k)"
  "\<exists>w. counter_encode n = write_into w \<and> bds.writes w (u32_bytes n)"
  "\<exists>w. skip_encode q = write_into w \<and> bds.writes w (skip_bytes q)"
proof -
  assume "length (in_file_designator m) < 2 ^ 16"
  then have d: "bindE (if length (in_file_designator m) < 2 ^ 16 then retE (word_of_nat (length (in_file_designator m))) else failE NoSpace) f
      = f (word_of_nat (length (in_file_designator m)))" for f :: "u16 \<Rightarrow> (Writer, unit) mutator" by (intro ext) simp
  show "\<exists>w. init_encode m = write_into w \<and> bds.writes w (init_bytes m)"
    unfolding init_encode_def init_bytes_def Let_def d
    by (intro exI conjI, rule refl) (intro bds.writes_seq writes_cond bdw_writes bdw_bytes_writes range_width_le)
next
  show "\<exists>w. send_accept_encode a = write_into w \<and> bds.writes w (send_accept_bytes a)"
    unfolding send_accept_encode_def send_accept_bytes_def
    by (intro exI conjI, rule refl) (intro bds.writes_seq bdw_writes bdw_bytes_writes)
  show "\<exists>w. receive_accept_encode b = write_into w \<and> bds.writes w (receive_accept_bytes b)"
    unfolding receive_accept_encode_def receive_accept_bytes_def Let_def
    by (intro exI conjI, rule refl) (intro bds.writes_seq writes_cond bdw_writes bdw_bytes_writes range_width_le)
  show "\<exists>w. block_encode k = write_into w \<and> bds.writes w (block_bytes k)"
    unfolding block_encode_def block_bytes_def by (intro exI conjI, rule refl) (intro bds.writes_seq bdw_writes bdw_bytes_writes)
  show "\<exists>w. counter_encode n = write_into w \<and> bds.writes w (u32_bytes n)"
    unfolding counter_encode_def by (intro exI conjI, rule refl) (rule bdw_writes)
  show "\<exists>w. skip_encode q = write_into w \<and> bds.writes w (skip_bytes q)"
    unfolding skip_encode_def skip_bytes_def by (intro exI conjI, rule refl) (intro bds.writes_seq bdw_writes order_refl)
qed

text \<open>What the wire can say: a version of four bits, and a length of zero only as no length.\<close>

definition control_on_wire :: "TransferControl \<Rightarrow> TransferControl" where
  "control_on_wire c = c\<lparr>tc_version := tc_version c AND 0x0F\<rparr>"

definition length_on_wire :: "u64 option \<Rightarrow> u64 option" where
  "length_on_wire v = (case v of None \<Rightarrow> None | Some len \<Rightarrow> nonzero len)"

definition init_on_wire :: "Init \<Rightarrow> Init" where
  "init_on_wire m = m\<lparr>in_control := control_on_wire (in_control m), in_definite_length := length_on_wire (in_definite_length m)\<rparr>"

lemma send_accept_decodes: "send_accept_decode (send_accept_bytes a) = Inr (a\<lparr>sa_control := control_on_wire (sa_control a)\<rparr>)"
  by (simp add: send_accept_decode_def send_accept_bytes_def control_on_wire_def)

lemma block_decodes: "block_decode (block_bytes k) = Inr k"
  by (cases k) (simp add: block_decode_def block_bytes_def)

lemma counter_decodes: "counter_decode (u32_bytes n) = Inr n"
  by (simp add: counter_decode_def)

lemma skip_decodes: "skip_decode (skip_bytes q) = Inr q"
  using bdr_uint_ok [of 8 "qs_bytes_to_skip q" "[]"] by (cases q) (simp add: skip_decode_def skip_bytes_def)

lemma wide_range:
  "range_width r = 8 \<or> range_width r = 4 \<and> \<not> rg_wide_range r"
  by (simp add: range_width_def)

lemma receive_accept_decodes:
  "receive_accept_decode (receive_accept_bytes b) = Inr (b\<lparr>ra_control := control_on_wire (ra_control b), ra_length := length_on_wire (ra_length b)\<rparr>)"
proof -
  let ?r = "receive_accept_range b"
  have "range_width ?r = 8 \<or> range_width ?r = 4 \<and> \<not> needs_wide (or_zero (ra_length b))"
    using wide_range [of ?r] by (auto simp: receive_accept_range_def)
  note u = bdr_uint_ok [OF this]
  have "length_on_wire (ra_length b) = (if rg_definite_length ?r then nonzero (or_zero (ra_length b)) else None)"
    by (auto simp: length_on_wire_def receive_accept_range_def or_zero_def nonzero_def split: option.splits)
  then show ?thesis
    by (cases "rg_definite_length ?r") (simp_all add: receive_accept_decode_def receive_accept_bytes_def Let_def u control_on_wire_def)
qed

lemma init_decodes:
  assumes "length (in_file_designator m) < 2 ^ 16"
  shows "init_decode (init_bytes m) = Inr (init_on_wire m)"
proof -
  let ?r = "init_range m"
  have "range_width ?r = 8 \<or> range_width ?r = 4 \<and> \<not> needs_wide (or_zero (in_start_offset m))"
    "range_width ?r = 8 \<or> range_width ?r = 4 \<and> \<not> needs_wide (or_zero (in_definite_length m))"
    using wide_range [of ?r] by (auto simp: init_range_def)
  note u = this [THEN bdr_uint_ok]
  have n: "unat (word_of_nat (length (in_file_designator m)) :: u16) = length (in_file_designator m)"
    using assms by (intro unat_of_nat_small) simp
  have l: "length_on_wire (in_definite_length m) = (if rg_definite_length ?r then nonzero (or_zero (in_definite_length m)) else None)"
    by (auto simp: length_on_wire_def init_range_def or_zero_def nonzero_def split: option.splits)
  have o: "in_start_offset m = (if rg_start_offset ?r then Some (or_zero (in_start_offset m)) else None)"
    by (auto simp: init_range_def or_zero_def)
  show ?thesis
    by (cases "rg_definite_length ?r"; cases "rg_start_offset ?r")
      (use o in \<open>simp_all add: init_decode_def init_bytes_def Let_def u n l init_on_wire_def control_on_wire_def\<close>)
qed

text \<open>An encoder that fills exactly \<open>n\<close> octets of a buffer that has them, is refused one that has not, and whose
  octets the decoder reads as \<open>m'\<close>.\<close>

definition carries :: "(bytes, nat) mutator \<Rightarrow> nat \<Rightarrow> (bytes \<Rightarrow> 'a Rejected) \<Rightarrow> 'a \<Rightarrow> bool" where
  "carries enc n dec m' \<longleftrightarrow> (\<forall>buf. length buf \<le> USIZE_MAX \<longrightarrow>
     (if n \<le> length buf
      then fst (enc buf) = Inr n \<and> dec (take n (snd (enc buf))) = Inr m' \<and> drop n (snd (enc buf)) = drop n buf
      else fst (enc buf) = Inl BufferTooSmall))"

lemma carriesI: "\<exists>w. enc = write_into w \<and> bds.writes w bs \<Longrightarrow> dec bs = Inr m' \<Longrightarrow> n = length bs \<Longrightarrow> carries enc n dec m'"
  by (auto simp: carries_def write_into_writes not_le)

text \<open>Every message of a bulk transfer reads back as what was written, a version cut to its four bits and a length of zero as no length, for
  any offset and length, narrow or wide: the encoder fills exactly the octets the decoder needs, leaves the rest of the buffer, and
  is refused with BufferTooSmall when they do not fit.\<close>

theorem bdx_message_roundtrip:
  "(length (in_file_designator m) < 2 ^ 16 \<longrightarrow> carries (init_encode m) (length (init_bytes m)) init_decode (init_on_wire m))
    \<and> carries (send_accept_encode a) (3 + length (sa_metadata a)) send_accept_decode (a\<lparr>sa_control := control_on_wire (sa_control a)\<rparr>)
    \<and> carries (receive_accept_encode b) (length (receive_accept_bytes b)) receive_accept_decode
        (b\<lparr>ra_control := control_on_wire (ra_control b), ra_length := length_on_wire (ra_length b)\<rparr>)
    \<and> carries (block_encode k) (4 + length (bk_data k)) block_decode k
    \<and> carries (counter_encode n) 4 counter_decode n \<and> carries (skip_encode q) 12 skip_decode q"
  by (intro conjI impI)
    (auto intro!: carriesI message_writes init_decodes send_accept_decodes receive_accept_decodes block_decodes counter_decodes skip_decodes
      simp: send_accept_bytes_def block_bytes_def skip_bytes_def)

section \<open>A small download\<close>

definition demo_init :: Init where
  "demo_init = (init_new [0x66, 0x77] 256)\<lparr>in_definite_length := Some 2\<rparr>"

theorem bdx_message_roundtrip_witness:
  "carries (init_encode demo_init) (length (init_bytes demo_init)) init_decode (init_on_wire demo_init)"
  using bdx_message_roundtrip [of demo_init] by (simp add: demo_init_def init_new_def)

end
