(* ===== verification/Bdx_Transfer.thy ===== *)
theory Bdx_Transfer
  imports Bdx_Message
begin

text \<open>
  Negotiating a bulk transfer and keeping it honest (\<^verbatim>\<open>src/src/bdx/transfer.rs\<close>): what a responder agrees to, what an initiator accepts, and the
  sender's and the receiver's half of a transfer.
\<close>

section \<open>Negotiation\<close>

definition FIRST_COUNTER :: u32 where "FIRST_COUNTER = 0"
definition DEFAULT_MAX_BLOCK_SIZE :: u16 where "DEFAULT_MAX_BLOCK_SIZE = 1024"

datatype Direction = Upload | Download

fun direction_init :: "Direction \<Rightarrow> MessageType" where
  "direction_init Upload = SendInit"
| "direction_init Download = ReceiveInit"

fun direction_accept :: "Direction \<Rightarrow> MessageType" where
  "direction_accept Upload = MessageType.SendAccept"
| "direction_accept Download = MessageType.ReceiveAccept"

record Limits =
  lm_max_block_size :: u16
  lm_max_length :: "u64 option"
  lm_min_length :: "u64 option"
  lm_require_definite_length :: bool
  lm_allow_start_offset :: bool
  lm_available :: "u64 option"
  lm_busy :: bool

definition limits_default :: Limits where
  "limits_default = \<lparr>lm_max_block_size = DEFAULT_MAX_BLOCK_SIZE, lm_max_length = None, lm_min_length = None,
     lm_require_definite_length = False, lm_allow_start_offset = True, lm_available = None, lm_busy = False\<rparr>"

record Parameters =
  pm_control :: TransferControl
  pm_max_block_size :: u16
  pm_start_offset :: u64
  pm_length :: "u64 option"

definition sender_drives :: "Parameters \<Rightarrow> bool" where "sender_drives p = tc_sender_drive (pm_control p)"
definition receiver_drives :: "Parameters \<Rightarrow> bool" where "receiver_drives p = tc_receiver_drive (pm_control p)"

definition params_send_accept :: "bytes \<Rightarrow> Parameters \<Rightarrow> SendAccept" where
  "params_send_accept metadata p = \<lparr>sa_control = pm_control p, sa_max_block_size = pm_max_block_size p, sa_metadata = metadata\<rparr>"

definition params_receive_accept :: "bytes \<Rightarrow> Parameters \<Rightarrow> ReceiveAccept" where
  "params_receive_accept metadata p =
     \<lparr>ra_control = pm_control p, ra_max_block_size = pm_max_block_size p, ra_length = pm_length p, ra_metadata = metadata\<rparr>"

definition check_accepted :: "TransferControl \<Rightarrow> TransferControl \<Rightarrow> TransferControl Rejected" where
  "check_accepted proposed accepted =
     (if tc_version accepted > tc_version proposed then Inl VersionNotSupported
      else if tc_asynchronous accepted \<or> \<not> is_decided accepted then Inl TransferMethodNotSupported
      else if \<not> (tc_sender_drive accepted \<and> tc_sender_drive proposed \<or> tc_receiver_drive accepted \<and> tc_receiver_drive proposed)
      then Inl TransferMethodNotSupported
      else Inr accepted)"

definition check_block_size :: "u16 \<Rightarrow> u16 \<Rightarrow> u16 Rejected" where
  "check_block_size proposed accepted = (if accepted = 0 \<or> accepted > proposed then Inl BadMessageContents else Inr accepted)"

definition from_send_accept :: "Init \<Rightarrow> SendAccept \<Rightarrow> Parameters Rejected" where
  "from_send_accept proposed accept =
     bindJ (check_accepted (in_control proposed) (sa_control accept)) (\<lambda>control.
     bindJ (check_block_size (in_max_block_size proposed) (sa_max_block_size accept)) (\<lambda>block.
     Inr \<lparr>pm_control = control, pm_max_block_size = block, pm_start_offset = or_zero (in_start_offset proposed),
          pm_length = in_definite_length proposed\<rparr>))"

definition from_receive_accept :: "Init \<Rightarrow> ReceiveAccept \<Rightarrow> Parameters Rejected" where
  "from_receive_accept proposed accept =
     bindJ (check_accepted (in_control proposed) (ra_control accept)) (\<lambda>control.
     if (case (in_definite_length proposed, ra_length accept) of (Some asked, Some offered) \<Rightarrow> offered > asked | _ \<Rightarrow> False)
     then Inl LengthTooLarge
     else bindJ (check_block_size (in_max_block_size proposed) (ra_max_block_size accept)) (\<lambda>block.
     Inr \<lparr>pm_control = control, pm_max_block_size = block, pm_start_offset = or_zero (in_start_offset proposed),
          pm_length = ra_length accept\<rparr>))"

definition negotiate_offset :: "Init \<Rightarrow> Limits \<Rightarrow> u64 Rejected" where
  "negotiate_offset i l =
     (case in_start_offset i of
        Some offset \<Rightarrow> if \<not> lm_allow_start_offset l then Inl StartOffsetNotSupported else Inr offset
      | None \<Rightarrow> Inr 0)"

definition negotiate_check_length :: "Init \<Rightarrow> Limits \<Rightarrow> unit Rejected" where
  "negotiate_check_length i l =
     (case in_definite_length i of
        Some len \<Rightarrow>
          if (case lm_max_length l of None \<Rightarrow> False | Some m \<Rightarrow> len > m) then Inl LengthTooLarge
          else if (case lm_min_length l of None \<Rightarrow> False | Some m \<Rightarrow> len < m) then Inl LengthTooShort
          else Inr ()
      | None \<Rightarrow> if lm_require_definite_length l then Inl LengthRequired else Inr ())"

fun negotiate_length :: "Direction \<Rightarrow> u64 option \<Rightarrow> u64 option \<Rightarrow> u64 option" where
  "negotiate_length Upload asked have = asked"
| "negotiate_length Download (Some asked) (Some have) = Some (min asked have)"
| "negotiate_length Download (Some asked) None = Some asked"
| "negotiate_length Download None have = have"

definition bdx_negotiate :: "Direction \<Rightarrow> Init \<Rightarrow> Limits \<Rightarrow> Parameters Rejected" where
  "bdx_negotiate direction i l =
     (if lm_busy l then Inl ResponderBusy
      else if in_max_block_size i = 0 then Inl BadMessageContents
      else if \<not> tc_sender_drive (in_control i) \<and> \<not> tc_receiver_drive (in_control i) then Inl TransferMethodNotSupported
      else
        bindJ (negotiate_offset i l) (\<lambda>start_offset.
        bindJ (negotiate_check_length i l) (\<lambda>_.
        Inr \<lparr>pm_control = \<lparr>tc_version = VERSION, tc_sender_drive = tc_sender_drive (in_control i),
               tc_receiver_drive = (tc_receiver_drive (in_control i) \<and> \<not> tc_sender_drive (in_control i)), tc_asynchronous = False\<rparr>,
             pm_max_block_size = min (in_max_block_size i) (lm_max_block_size l), pm_start_offset = start_offset,
             pm_length = negotiate_length direction (in_definite_length i) (lm_available l)\<rparr>)))"

section \<open>The sender\<close>

type_synonym ('s, 'a) judged = "'s \<Rightarrow> 'a Rejected \<times> 's"

record Sender =
  sn_params :: Parameters
  sn_cursor :: u64
  sn_sent :: u64
  sn_counter :: "u32 option"
  sn_queried :: bool
  sn_finished :: bool
  sn_complete :: bool

definition sender_new :: "Parameters \<Rightarrow> Sender" where
  "sender_new p = \<lparr>sn_params = p, sn_cursor = pm_start_offset p, sn_sent = 0, sn_counter = None, sn_queried = False,
     sn_finished = False, sn_complete = False\<rparr>"

definition bdx_next_counter :: "u32 option \<Rightarrow> u32" where
  "bdx_next_counter c = (case c of Some l \<Rightarrow> l + 1 | None \<Rightarrow> FIRST_COUNTER)"

definition may_send :: "Sender \<Rightarrow> bool" where
  "may_send s = (if sn_finished s \<or> sn_complete s then False else sender_drives (sn_params s) \<or> sn_queried s)"

definition sn_room :: "Sender \<Rightarrow> nat" where
  "sn_room s =
     (let block = unat (pm_max_block_size (sn_params s)) in
      case pm_length (sn_params s) of
        Some l \<Rightarrow> min (unat (saturating_sub l (sn_sent s))) block
      | None \<Rightarrow> block)"

definition on_query_with_skip :: "u32 \<Rightarrow> u64 \<Rightarrow> (Sender, u64) judged" where
  "on_query_with_skip counter skip s =
     (if sn_finished s \<or> sn_complete s then (Inl UnexpectedMessage, s)
      else if \<not> receiver_drives (sn_params s) then (Inl UnexpectedMessage, s)
      else if sn_queried s then (Inl UnexpectedMessage, s)
      else if counter \<noteq> bdx_next_counter (sn_counter s) then (Inl BadBlockCounter, s)
      else
        let s = s\<lparr>sn_queried := True, sn_cursor := saturating_add (sn_cursor s) skip\<rparr> in
        (Inr (sn_cursor s), s))"

definition on_query :: "u32 \<Rightarrow> (Sender, unit) judged" where
  "on_query counter s = (case on_query_with_skip counter 0 s of (Inl e, s) \<Rightarrow> (Inl e, s) | (Inr _, s) \<Rightarrow> (Inr (), s))"

text \<open>\<^verbatim>\<open>u64::try_from(len).unwrap_or(u64::MAX)\<close>.\<close>

definition len64 :: "nat \<Rightarrow> u64" where
  "len64 n = (if n < 2 ^ 64 then word_of_nat n else - 1)"

text \<open>The check on a block's length that both ends make: the octets so far with it.\<close>

definition block_total :: "Parameters \<Rightarrow> u64 \<Rightarrow> nat \<Rightarrow> bool \<Rightarrow> u64 Rejected" where
  "block_total p so_far len eof =
     (case checked_add so_far (len64 len) of
        None \<Rightarrow> Inl LengthTooLarge
      | Some t \<Rightarrow>
          (case pm_length p of
             Some l \<Rightarrow> if t > l \<or> eof \<and> t \<noteq> l then Inl LengthMismatch else Inr t
           | None \<Rightarrow> Inr t))"

definition sn_block :: "nat \<Rightarrow> bool \<Rightarrow> (Sender, u32) judged" where
  "sn_block len eof s =
     (if \<not> may_send s then (Inl UnexpectedMessage, s)
      else if len > unat (pm_max_block_size (sn_params s)) \<or> len = 0 \<and> \<not> eof then (Inl BadMessageContents, s)
      else case block_total (sn_params s) (sn_sent s) len eof of
        Inl e \<Rightarrow> (Inl e, s)
      | Inr t \<Rightarrow>
          let counter = bdx_next_counter (sn_counter s) in
          (Inr counter, s\<lparr>sn_counter := Some counter, sn_sent := t, sn_cursor := saturating_add (sn_cursor s) (len64 len),
             sn_queried := False, sn_finished := eof\<rparr>))"

definition on_ack :: "u32 \<Rightarrow> bool \<Rightarrow> (Sender, unit) judged" where
  "on_ack counter eof s =
     (case sn_counter s of
        None \<Rightarrow> (Inl UnexpectedMessage, s)
      | Some l \<Rightarrow>
          if sn_complete s then (Inl UnexpectedMessage, s)
          else if eof \<noteq> sn_finished s then (Inl UnexpectedMessage, s)
          else if counter \<noteq> l then (Inl BadBlockCounter, s)
          else (Inr (), s\<lparr>sn_complete := eof\<rparr>))"

section \<open>The receiver\<close>

record Receiver =
  rv_params :: Parameters
  rv_received :: u64
  rv_counter :: "u32 option"
  rv_query :: u32
  rv_pending :: bool
  rv_finished :: bool
  rv_complete :: bool

definition receiver_new :: "Parameters \<Rightarrow> Receiver" where
  "receiver_new p = \<lparr>rv_params = p, rv_received = 0, rv_counter = None, rv_query = FIRST_COUNTER, rv_pending = False,
     rv_finished = False, rv_complete = False\<rparr>"

definition rv_awaiting :: "Receiver \<Rightarrow> bool" where
  "rv_awaiting r = (case rv_counter r of Some l \<Rightarrow> rv_query r \<noteq> l + 1 | None \<Rightarrow> rv_query r \<noteq> FIRST_COUNTER)"

definition rv_ask :: "(Receiver, u32) judged" where
  "rv_ask r =
     (if \<not> receiver_drives (rv_params r) \<or> rv_finished r \<or> rv_complete r then (Inl UnexpectedMessage, r)
      else if rv_awaiting r then (Inl UnexpectedMessage, r)
      else (Inr (rv_query r), r\<lparr>rv_pending := False, rv_query := rv_query r + 1\<rparr>))"

definition on_block :: "u32 \<Rightarrow> nat \<Rightarrow> bool \<Rightarrow> (Receiver, unit) judged" where
  "on_block counter len eof r =
     (if rv_finished r \<or> rv_complete r then (Inl UnexpectedMessage, r)
      else if receiver_drives (rv_params r) \<and> \<not> rv_awaiting r then (Inl UnexpectedMessage, r)
      else if counter \<noteq> bdx_next_counter (rv_counter r) then (Inl BadBlockCounter, r)
      else if len > unat (pm_max_block_size (rv_params r)) \<or> len = 0 \<and> \<not> eof then (Inl BadMessageContents, r)
      else case block_total (rv_params r) (rv_received r) len eof of
        Inl e \<Rightarrow> (Inl e, r)
      | Inr t \<Rightarrow> (Inr (), r\<lparr>rv_received := t, rv_counter := Some counter, rv_pending := True, rv_finished := eof\<rparr>))"

definition rv_ack :: "(Receiver, MessageType \<times> u32) judged" where
  "rv_ack r =
     (case rv_counter r of
        None \<Rightarrow> (Inl UnexpectedMessage, r)
      | Some counter \<Rightarrow>
          if \<not> rv_pending r then (Inl UnexpectedMessage, r)
          else (Inr (if rv_finished r then BlockAckEof else BlockAck, counter), r\<lparr>rv_pending := False, rv_complete := rv_finished r\<rparr>))"

section \<open>Agreement\<close>

text \<open>Both ends work with the same parameters; a sender that knows its file to be empty is the one case the wire does not tell.\<close>

definition params_agree :: "Parameters \<Rightarrow> Parameters \<Rightarrow> bool" where
  "params_agree ps pr \<longleftrightarrow> pm_control pr = pm_control ps \<and> pm_max_block_size pr = pm_max_block_size ps
     \<and> pm_start_offset pr = pm_start_offset ps \<and> (pm_length pr = pm_length ps \<or> pm_length ps = Some 0 \<and> pm_length pr = None)
     \<and> pm_max_block_size ps \<noteq> 0 \<and> is_decided (pm_control ps)"

lemma block_total_agree:
  "params_agree ps pr \<Longrightarrow> block_total ps n len eof = Inr t \<Longrightarrow> block_total pr n len eof = Inr t"
  by (auto simp: params_agree_def block_total_def split: option.splits if_splits)

lemma block_total_exact:
  assumes "block_total p n len eof = Inr t" and "len < 2 ^ 64"
  shows "unat t = unat n + len"
  using assms by (auto simp: block_total_def len64_def checked_add_def unat_of_nat_small unat_word_ariths split: option.splits if_splits)

lemma on_wire_control [simp]: "tc_version c = 0 \<Longrightarrow> control_on_wire c = c"
  by (cases c) (simp add: control_on_wire_def)

lemma accepted_control:
  assumes "bdx_negotiate d (init_on_wire m) l = Inr p"
  shows "check_accepted (in_control m) (pm_control p) = Inr (pm_control p)" "tc_version (pm_control p) = 0"
    "pm_max_block_size p = min (in_max_block_size m) (lm_max_block_size l)" "in_max_block_size m \<noteq> 0" "is_decided (pm_control p)"
    "pm_start_offset p = or_zero (in_start_offset m)"
    "pm_length p = negotiate_length d (length_on_wire (in_definite_length m)) (lm_available l)"
proof -
  have "\<exists>so u. negotiate_offset (init_on_wire m) l = Inr so \<and> negotiate_check_length (init_on_wire m) l = Inr u \<and> pm_start_offset p = so"
    using assms by (cases "negotiate_offset (init_on_wire m) l"; cases "negotiate_check_length (init_on_wire m) l")
      (auto simp: bdx_negotiate_def split: if_splits)
  then show "pm_start_offset p = or_zero (in_start_offset m)"
    by (auto simp: negotiate_offset_def init_on_wire_def or_zero_def split: option.splits if_splits)
  show "check_accepted (in_control m) (pm_control p) = Inr (pm_control p)" "tc_version (pm_control p) = 0"
    "pm_max_block_size p = min (in_max_block_size m) (lm_max_block_size l)" "in_max_block_size m \<noteq> 0" "is_decided (pm_control p)"
    "pm_length p = negotiate_length d (length_on_wire (in_definite_length m)) (lm_available l)"
    using assms by (cases "negotiate_offset (init_on_wire m) l"; cases "negotiate_check_length (init_on_wire m) l";
        auto simp: bdx_negotiate_def init_on_wire_def control_on_wire_def check_accepted_def is_decided_def VERSION_def split: if_splits)+
qed

text \<open>What the initiator makes of the answer, as it reads it from the wire.\<close>

fun initiator_reads :: "Direction \<Rightarrow> Init \<Rightarrow> bytes \<Rightarrow> Parameters \<Rightarrow> Parameters Rejected" where
  "initiator_reads Upload m meta p = bindJ (send_accept_decode (send_accept_bytes (params_send_accept meta p))) (from_send_accept m)"
| "initiator_reads Download m meta p = bindJ (receive_accept_decode (receive_accept_bytes (params_receive_accept meta p))) (from_receive_accept m)"

lemma initiator_reads_upload:
  assumes "bdx_negotiate Upload (init_on_wire m) l = Inr p"
  shows "initiator_reads Upload m meta p =
    (if lm_max_block_size l = 0 then Inl BadMessageContents else Inr (p\<lparr>pm_length := in_definite_length m\<rparr>))"
proof -
  note c = accepted_control [OF assms]
  have "check_block_size (in_max_block_size m) (pm_max_block_size p)
      = (if lm_max_block_size l = 0 then Inl BadMessageContents else Inr (pm_max_block_size p))"
    using c(3,4) by (auto simp: check_block_size_def min_def)
  then show ?thesis using c by (simp add: send_accept_decodes params_send_accept_def from_send_accept_def)
qed

lemma initiator_reads_download:
  assumes "bdx_negotiate Download (init_on_wire m) l = Inr p"
  shows "initiator_reads Download m meta p =
    (if in_definite_length m = Some 0 \<and> length_on_wire (lm_available l) \<noteq> None then Inl LengthTooLarge
     else if lm_max_block_size l = 0 then Inl BadMessageContents
     else Inr (p\<lparr>pm_length := length_on_wire (pm_length p)\<rparr>))"
proof -
  note c = accepted_control [OF assms]
  have b: "check_block_size (in_max_block_size m) (pm_max_block_size p)
      = (if lm_max_block_size l = 0 then Inl BadMessageContents else Inr (pm_max_block_size p))"
    using c(3,4) by (auto simp: check_block_size_def min_def)
  have "(case (in_definite_length m, length_on_wire (pm_length p)) of (Some asked, Some offered) \<Rightarrow> offered > asked | _ \<Rightarrow> False)
      \<longleftrightarrow> in_definite_length m = Some 0 \<and> length_on_wire (lm_available l) \<noteq> None"
    using c(7) by (cases "in_definite_length m"; cases "lm_available l")
      (auto simp: length_on_wire_def nonzero_def min_def word_gt_0 split: if_splits option.splits)
  then show ?thesis using b c(1,2,6) by (simp add: receive_accept_decodes params_receive_accept_def from_receive_accept_def)
qed

text \<open>C34: What negotiation ends in, for every Init a responder accepts.  When nothing is declared to be of length zero (the
  initiator's definite length and, for a download, the size the responder knows) and the responder's block size is not zero,
  the initiator accepts the answer it reads from the wire and both ends hold exactly the same parameters: one end drives, the
  block size is within what both named, the offset is the one proposed.  A zero is where they part: a responder whose block
  size is zero is refused with BadMessageContents; an Init with the definite length zero, which the responder reads as
  indefinite, leaves an uploading initiator bound to a length of zero, and makes a downloading one refuse the answer with
  LengthTooLarge when the responder knows a size; and an empty file is announced as one of unknown length.\<close>

theorem negotiation_agrees:
  assumes "bdx_negotiate d (init_on_wire m) l = Inr p"
  shows "(lm_max_block_size l \<noteq> 0 \<and> in_definite_length m \<noteq> Some 0 \<and> (d = Download \<longrightarrow> lm_available l \<noteq> Some 0) \<longrightarrow>
        initiator_reads d m meta p = Inr p)
    \<and> tc_sender_drive (pm_control p) \<noteq> tc_receiver_drive (pm_control p)
    \<and> pm_max_block_size p \<le> in_max_block_size m \<and> pm_max_block_size p \<le> lm_max_block_size l
    \<and> pm_start_offset p = or_zero (in_start_offset m)
    \<and> initiator_reads d m meta p =
        (if d = Download \<and> in_definite_length m = Some 0 \<and> length_on_wire (lm_available l) \<noteq> None then Inl LengthTooLarge
         else if lm_max_block_size l = 0 then Inl BadMessageContents
         else Inr (p\<lparr>pm_length := (case d of Upload \<Rightarrow> in_definite_length m | Download \<Rightarrow> length_on_wire (pm_length p))\<rparr>))"
proof -
  note c = accepted_control [OF assms]
  have r: "initiator_reads d m meta p =
        (if d = Download \<and> in_definite_length m = Some 0 \<and> length_on_wire (lm_available l) \<noteq> None then Inl LengthTooLarge
         else if lm_max_block_size l = 0 then Inl BadMessageContents
         else Inr (p\<lparr>pm_length := (case d of Upload \<Rightarrow> in_definite_length m | Download \<Rightarrow> length_on_wire (pm_length p))\<rparr>))"
    using initiator_reads_upload initiator_reads_download assms by (cases d) simp_all
  have "(case d of Upload \<Rightarrow> in_definite_length m | Download \<Rightarrow> length_on_wire (pm_length p)) = pm_length p"
    if "in_definite_length m \<noteq> Some 0" "d = Download \<longrightarrow> lm_available l \<noteq> Some 0"
    using that c(7) by (cases d; cases "in_definite_length m"; cases "lm_available l") (auto simp: length_on_wire_def nonzero_def min_def)
  then show ?thesis using r c by (auto simp: is_decided_def)
qed

text \<open>C35: A sender with a definite length cannot answer a skip past the end of the file: the empty BlockEOF that its documentation names as the answer is
  refused with LengthMismatch, as long as it has not sent the whole length.\<close>

theorem skip_past_end_refused:
  assumes "on_query_with_skip counter skip s = (Inr cursor, s')" and "pm_length (sn_params s) = Some l" and "sn_sent s \<noteq> l"
  shows "sn_block 0 True s' = (Inl LengthMismatch, s')"
proof -
  have s: "\<not> sn_finished s" "\<not> sn_complete s" "s' = s\<lparr>sn_queried := True, sn_cursor := saturating_add (sn_cursor s) skip\<rparr>"
    using assms(1) by (auto simp: on_query_with_skip_def Let_def split: if_splits)
  then have "may_send s'" by (simp add: may_send_def)
  moreover have "block_total (sn_params s') (sn_sent s') 0 True = Inl LengthMismatch"
    using assms(2,3) s(3) unat_lt_len [of "sn_sent s"] by (simp add: block_total_def checked_add_def len64_def)
  ultimately show ?thesis by (simp add: sn_block_def)
qed

definition bdx_demo_params :: Parameters where
  "bdx_demo_params = \<lparr>pm_control = \<lparr>tc_version = 0, tc_sender_drive = True, tc_receiver_drive = False, tc_asynchronous = False\<rparr>,
     pm_max_block_size = 256, pm_start_offset = 0, pm_length = Some 2\<rparr>"

definition bdx_demo_pull :: Parameters where
  "bdx_demo_pull = bdx_demo_params\<lparr>pm_control := \<lparr>tc_version = 0, tc_sender_drive = False, tc_receiver_drive = True, tc_asynchronous = False\<rparr>\<rparr>"

theorem negotiation_agrees_witness:
  "initiator_reads Download demo_init [] bdx_demo_params = Inr bdx_demo_params"
proof -
  have "bdx_negotiate Download (init_on_wire demo_init) (limits_default\<lparr>lm_available := Some 2\<rparr>) = Inr bdx_demo_params"
    by (simp add: bdx_negotiate_def init_on_wire_def demo_init_def init_new_def limits_default_def bdx_demo_params_def negotiate_offset_def
        negotiate_check_length_def length_on_wire_def nonzero_def control_on_wire_def tc_proposal_def VERSION_def DEFAULT_MAX_BLOCK_SIZE_def)
  from negotiation_agrees [OF this, of "[]"] show ?thesis
    by (simp add: limits_default_def DEFAULT_MAX_BLOCK_SIZE_def demo_init_def)
qed

theorem skip_past_end_refused_witness:
  "sn_block 0 True ((sender_new bdx_demo_pull)\<lparr>sn_queried := True, sn_cursor := 5\<rparr>)
    = (Inl LengthMismatch, (sender_new bdx_demo_pull)\<lparr>sn_queried := True, sn_cursor := 5\<rparr>)"
proof -
  have "on_query_with_skip 0 5 (sender_new bdx_demo_pull) = (Inr 5, (sender_new bdx_demo_pull)\<lparr>sn_queried := True, sn_cursor := 5\<rparr>)"
    by (simp add: on_query_with_skip_def sender_new_def bdx_demo_pull_def bdx_demo_params_def receiver_drives_def bdx_next_counter_def
        FIRST_COUNTER_def Let_def saturating_add_def)
  from skip_past_end_refused [OF this, of 2] show ?thesis by (simp add: sender_new_def bdx_demo_pull_def bdx_demo_params_def)
qed

end
