(* ===== verification/Bdx_Link.thy ===== *)
theory Bdx_Link
  imports Bdx_Transfer
begin

text \<open>
  A whole bulk transfer: a sender and a receiver that agreed on their parameters, over two wires that keep the order and lose nothing, with the messages
  as octets.  By rule induction over all interleavings, every reachable state is in one of five phases; from
  them follow that nothing is refused, that the file arrives, and that the transfer ends.
\<close>

section \<open>Two ends over a reliable link\<close>

text \<open>What either application does with the messages it is handed: decode, and judge.\<close>

definition sender_takes :: "u8 \<times> bytes \<Rightarrow> (Sender, unit) judged" where
  "sender_takes msg s =
     (case message_type_from_u8 (fst msg) of
        Inl e \<Rightarrow> (Inl e, s)
      | Inr BlockQuery \<Rightarrow> (case counter_decode (snd msg) of Inl e \<Rightarrow> (Inl e, s) | Inr c \<Rightarrow> on_query c s)
      | Inr BlockQueryWithSkip \<Rightarrow>
          (case skip_decode (snd msg) of
             Inl e \<Rightarrow> (Inl e, s)
           | Inr q \<Rightarrow> (case on_query_with_skip (qs_counter q) (qs_bytes_to_skip q) s of (Inl e, s) \<Rightarrow> (Inl e, s) | (Inr _, s) \<Rightarrow> (Inr (), s)))
      | Inr BlockAck \<Rightarrow> (case counter_decode (snd msg) of Inl e \<Rightarrow> (Inl e, s) | Inr c \<Rightarrow> on_ack c False s)
      | Inr BlockAckEof \<Rightarrow> (case counter_decode (snd msg) of Inl e \<Rightarrow> (Inl e, s) | Inr c \<Rightarrow> on_ack c True s)
      | Inr _ \<Rightarrow> (Inl UnexpectedMessage, s))"

definition receiver_takes :: "u8 \<times> bytes \<Rightarrow> Receiver \<Rightarrow> bytes Rejected \<times> Receiver" where
  "receiver_takes msg r =
     (case message_type_from_u8 (fst msg) of
        Inl e \<Rightarrow> (Inl e, r)
      | Inr t \<Rightarrow>
          if t \<noteq> MessageType.Block \<and> t \<noteq> BlockEof then (Inl UnexpectedMessage, r)
          else (case block_decode (snd msg) of
             Inl e \<Rightarrow> (Inl e, r)
           | Inr k \<Rightarrow>
               (case on_block (bk_counter k) (length (bk_data k)) (t = BlockEof) r of
                  (Inl e, r) \<Rightarrow> (Inl e, r)
                | (Inr _, r) \<Rightarrow> (Inr (bk_data k), r))))"

definition payload_in :: "bytes \<Rightarrow> (bytes, nat) mutator \<Rightarrow> bytes" where
  "payload_in buf enc = (case enc buf of (Inr n, out) \<Rightarrow> take n out | (Inl _, _) \<Rightarrow> [])"

record Transfer =
  xf_sender :: Sender
  xf_receiver :: Receiver
  xf_down :: "(u8 \<times> bytes) list"
  xf_up :: "(u8 \<times> bytes) list"
  xf_unacked :: bool
  xf_read :: bytes
  xf_stored :: bytes
  xf_skipped :: nat
  xf_failed :: "StatusCode option"

definition transfer_start :: "Parameters \<Rightarrow> Parameters \<Rightarrow> Transfer" where
  "transfer_start ps pr = \<lparr>xf_sender = sender_new ps, xf_receiver = receiver_new pr, xf_down = [], xf_up = [], xf_unacked = False,
     xf_read = [], xf_stored = [], xf_skipped = 0, xf_failed = None\<rparr>"

text \<open>One step of the two applications and the two wires, over a file and with a scratch buffer.  A sender that drives waits for the
  acknowledgement of a block before the next; a receiver that drives may acknowledge or let its next query do so, and may skip.\<close>

inductive transfer_step :: "bytes \<Rightarrow> bytes \<Rightarrow> Transfer \<Rightarrow> Transfer \<Rightarrow> bool" for content buf where
  ask: "xf_failed x = None \<Longrightarrow> rv_ask (xf_receiver x) = (Inr c, r') \<Longrightarrow>
    msg = (if k = 0 then (message_type_value BlockQuery, payload_in buf (counter_encode c))
           else (message_type_value BlockQueryWithSkip, payload_in buf (skip_encode \<lparr>qs_counter = c, qs_bytes_to_skip = k\<rparr>))) \<Longrightarrow>
    transfer_step content buf x (x\<lparr>xf_receiver := r', xf_up := xf_up x @ [msg], xf_skipped := xf_skipped x + unat k\<rparr>)"
| acknowledge: "xf_failed x = None \<Longrightarrow> rv_ack (xf_receiver x) = (Inr (t, c), r') \<Longrightarrow>
    transfer_step content buf x (x\<lparr>xf_receiver := r', xf_up := xf_up x @ [(message_type_value t, payload_in buf (counter_encode c))]\<rparr>)"
| send: "xf_failed x = None \<Longrightarrow> sender_drives (sn_params (xf_sender x)) \<longrightarrow> \<not> xf_unacked x \<Longrightarrow>
    data = take n (drop (unat (sn_cursor (xf_sender x))) content) \<Longrightarrow>
    sn_block (length data) eof (xf_sender x) = (Inr c, s') \<Longrightarrow>
    msg = (message_type_value (if eof then BlockEof else MessageType.Block), payload_in buf (block_encode \<lparr>bk_counter = c, bk_data = data\<rparr>)) \<Longrightarrow>
    transfer_step content buf x (x\<lparr>xf_sender := s', xf_down := xf_down x @ [msg], xf_read := xf_read x @ data, xf_unacked := True\<rparr>)"
| block_arrives: "xf_failed x = None \<Longrightarrow> xf_down x = msg # rest \<Longrightarrow> receiver_takes msg (xf_receiver x) = (Inr data, r') \<Longrightarrow>
    transfer_step content buf x (x\<lparr>xf_receiver := r', xf_down := rest, xf_stored := xf_stored x @ data\<rparr>)"
| block_refused: "xf_failed x = None \<Longrightarrow> xf_down x = msg # rest \<Longrightarrow> receiver_takes msg (xf_receiver x) = (Inl e, r') \<Longrightarrow>
    transfer_step content buf x (x\<lparr>xf_receiver := r', xf_down := rest, xf_failed := Some e\<rparr>)"
| answer_arrives: "xf_failed x = None \<Longrightarrow> xf_up x = msg # rest \<Longrightarrow> sender_takes msg (xf_sender x) = (Inr (), s') \<Longrightarrow>
    transfer_step content buf x (x\<lparr>xf_sender := s', xf_up := rest, xf_unacked := False\<rparr>)"
| answer_refused: "xf_failed x = None \<Longrightarrow> xf_up x = msg # rest \<Longrightarrow> sender_takes msg (xf_sender x) = (Inl e, s') \<Longrightarrow>
    transfer_step content buf x (x\<lparr>xf_sender := s', xf_up := rest, xf_failed := Some e\<rparr>)"

inductive transfer_reach :: "bytes \<Rightarrow> bytes \<Rightarrow> Parameters \<Rightarrow> Parameters \<Rightarrow> Transfer \<Rightarrow> bool" for content buf ps pr where
  start: "transfer_reach content buf ps pr (transfer_start ps pr)"
| step: "transfer_reach content buf ps pr x \<Longrightarrow> transfer_step content buf x x' \<Longrightarrow> transfer_reach content buf ps pr x'"

section \<open>What is on the wires\<close>

definition block_msg :: "bool \<Rightarrow> u32 \<Rightarrow> bytes \<Rightarrow> u8 \<times> bytes" where
  "block_msg eof c data = (message_type_value (if eof then BlockEof else MessageType.Block), block_bytes \<lparr>bk_counter = c, bk_data = data\<rparr>)"

definition ack_msg :: "bool \<Rightarrow> u32 \<Rightarrow> u8 \<times> bytes" where
  "ack_msg eof c = (message_type_value (if eof then BlockAckEof else BlockAck), u32_bytes c)"

definition query_msg :: "u32 \<Rightarrow> u64 \<Rightarrow> u8 \<times> bytes" where
  "query_msg c k = (if k = 0 then (message_type_value BlockQuery, u32_bytes c)
     else (message_type_value BlockQueryWithSkip, skip_bytes \<lparr>qs_counter = c, qs_bytes_to_skip = k\<rparr>))"

lemma message_type_roundtrip [simp]: "message_type_from_u8 (message_type_value t) = Inr t"
  by (cases t) (simp_all add: message_type_from_u8_def)

declare message_type_value.simps [simp del]

lemma sender_takes_msg [simp]:
  "sender_takes (ack_msg eof c) s = on_ack c eof s"
  "sender_takes (query_msg c k) s = (case on_query_with_skip c k s of (Inl e, s) \<Rightarrow> (Inl e, s) | (Inr _, s) \<Rightarrow> (Inr (), s))"
  by (simp_all add: sender_takes_def ack_msg_def query_msg_def counter_decodes skip_decodes on_query_def)

lemma receiver_takes_msg [simp]:
  "receiver_takes (block_msg eof c data) r =
    (case on_block c (length data) eof r of (Inl e, r) \<Rightarrow> (Inl e, r) | (Inr _, r) \<Rightarrow> (Inr data, r))"
  by (cases eof) (auto simp: receiver_takes_def block_msg_def block_decodes split: prod.split sum.split)

lemma payload_bytes:
  assumes "\<exists>w. enc = write_into w \<and> bds.writes w bs" and "length bs \<le> length buf" and "length buf \<le> USIZE_MAX"
  shows "payload_in buf enc = bs"
  using assms by (auto simp: payload_in_def write_into_writes)

definition buffer_ok :: "bytes \<Rightarrow> bool" where
  "buffer_ok buf \<longleftrightarrow> 4 + 65535 \<le> length buf \<and> length buf \<le> USIZE_MAX"

lemma wire_messages:
  assumes "buffer_ok buf"
  shows "(message_type_value (if eof then BlockAckEof else BlockAck), payload_in buf (counter_encode c)) = ack_msg eof c"
    "(if k = 0 then (message_type_value BlockQuery, payload_in buf (counter_encode c))
      else (message_type_value BlockQueryWithSkip, payload_in buf (skip_encode \<lparr>qs_counter = c, qs_bytes_to_skip = k\<rparr>))) = query_msg c k"
    "length data \<le> unat (n :: u16) \<Longrightarrow> (message_type_value (if eof then BlockEof else MessageType.Block),
      payload_in buf (block_encode \<lparr>bk_counter = c, bk_data = data\<rparr>)) = block_msg eof c data"
proof -
  have l: "4 + 65535 \<le> length buf" "length buf \<le> USIZE_MAX" using assms by (simp_all add: buffer_ok_def)
  have 1: "payload_in buf (counter_encode c) = u32_bytes c"
    by (rule payload_bytes) (use message_writes l in auto)
  have 2: "payload_in buf (skip_encode q) = skip_bytes q" for q
    by (rule payload_bytes) (use message_writes l in \<open>auto simp: skip_bytes_def\<close>)
  show "(message_type_value (if eof then BlockAckEof else BlockAck), payload_in buf (counter_encode c)) = ack_msg eof c"
    "(if k = 0 then (message_type_value BlockQuery, payload_in buf (counter_encode c))
      else (message_type_value BlockQueryWithSkip, payload_in buf (skip_encode \<lparr>qs_counter = c, qs_bytes_to_skip = k\<rparr>))) = query_msg c k"
    by (simp_all add: ack_msg_def query_msg_def 1 2)
  assume "length data \<le> unat n"
  then have "length data \<le> 65535" using unat_lt_len [of n] by simp
  then have "payload_in buf (block_encode \<lparr>bk_counter = c, bk_data = data\<rparr>) = block_bytes \<lparr>bk_counter = c, bk_data = data\<rparr>"
    by (intro payload_bytes message_writes) (use l in \<open>auto simp: block_bytes_def\<close>)
  then show "(message_type_value (if eof then BlockEof else MessageType.Block),
      payload_in buf (block_encode \<lparr>bk_counter = c, bk_data = data\<rparr>)) = block_msg eof c data" by (simp add: block_msg_def)
qed

section \<open>The phases of a transfer\<close>

text \<open>A block is on its way.\<close>

definition flying :: "Transfer \<Rightarrow> bool" where
  "flying x \<longleftrightarrow> (let s = xf_sender x; r = xf_receiver x in \<exists>data c.
     xf_down x = [block_msg (sn_finished s) c data] \<and> xf_up x = [] \<and> sn_counter s = Some c \<and> c = bdx_next_counter (rv_counter r)
     \<and> block_total (sn_params s) (rv_received r) (length data) (sn_finished s) = Inr (sn_sent s)
     \<and> length data \<le> unat (pm_max_block_size (sn_params s)) \<and> (data = [] \<longrightarrow> sn_finished s)
     \<and> \<not> rv_finished r \<and> \<not> rv_complete r \<and> \<not> sn_complete s \<and> \<not> rv_pending r \<and> \<not> sn_queried s
     \<and> (receiver_drives (sn_params s) \<longrightarrow> rv_query r = c + 1) \<and> (sender_drives (sn_params s) \<longrightarrow> xf_unacked x)
     \<and> xf_read x = xf_stored x @ data)"

text \<open>None is, and the two ends have the same blocks behind them.\<close>

definition settled :: "Transfer \<Rightarrow> bool" where
  "settled x \<longleftrightarrow> (let s = xf_sender x; r = xf_receiver x in
     xf_down x = [] \<and> sn_counter s = rv_counter r \<and> sn_sent s = rv_received r \<and> sn_finished s = rv_finished r \<and> xf_read x = xf_stored x)"

text \<open>The receiver has taken a block and not answered it.\<close>

definition taken :: "Transfer \<Rightarrow> bool" where
  "taken x \<longleftrightarrow> (let s = xf_sender x; r = xf_receiver x in
     settled x \<and> xf_up x = [] \<and> rv_pending r \<and> rv_counter r \<noteq> None \<and> \<not> sn_complete s \<and> \<not> rv_complete r \<and> \<not> sn_queried s
     \<and> (receiver_drives (sn_params s) \<longrightarrow> rv_query r = bdx_next_counter (rv_counter r)) \<and> (sender_drives (sn_params s) \<longrightarrow> xf_unacked x))"

text \<open>Its acknowledgement is on its way.\<close>

definition acked :: "Transfer \<Rightarrow> bool" where
  "acked x \<longleftrightarrow> (let s = xf_sender x; r = xf_receiver x in \<exists>c.
     settled x \<and> rv_counter r = Some c \<and> xf_up x = [ack_msg (rv_finished r) c] \<and> \<not> rv_pending r \<and> \<not> sn_complete s
     \<and> rv_complete r = rv_finished r \<and> \<not> sn_queried s
     \<and> (receiver_drives (sn_params s) \<longrightarrow> rv_query r = bdx_next_counter (rv_counter r)) \<and> (sender_drives (sn_params s) \<longrightarrow> xf_unacked x))"

text \<open>A query is, perhaps behind an acknowledgement.\<close>

definition asked :: "Transfer \<Rightarrow> bool" where
  "asked x \<longleftrightarrow> (let s = xf_sender x; r = xf_receiver x in \<exists>k acks.
     settled x \<and> receiver_drives (sn_params s) \<and> xf_up x = acks @ [query_msg (bdx_next_counter (rv_counter r)) k] \<and> unat k \<le> xf_skipped x
     \<and> (acks = [] \<or> (\<exists>c. rv_counter r = Some c \<and> acks = [ack_msg False c])) \<and> \<not> rv_pending r \<and> \<not> rv_finished r \<and> \<not> rv_complete r \<and> \<not> sn_complete s
     \<and> \<not> sn_queried s \<and> rv_query r = bdx_next_counter (rv_counter r) + 1)"

text \<open>Nothing is, and it is for an application to go on, or the transfer is over.\<close>

definition idle :: "Transfer \<Rightarrow> bool" where
  "idle x \<longleftrightarrow> (let s = xf_sender x; r = xf_receiver x in
     settled x \<and> xf_up x = [] \<and> \<not> rv_pending r \<and> rv_complete r = rv_finished r \<and> sn_complete s = rv_finished r
     \<and> (receiver_drives (sn_params s) \<longrightarrow>
          rv_query r = (if sn_queried s then bdx_next_counter (rv_counter r) + 1 else bdx_next_counter (rv_counter r)) \<and> (sn_queried s \<longrightarrow> \<not> rv_finished r))
     \<and> (sender_drives (sn_params s) \<longrightarrow> \<not> xf_unacked x \<and> \<not> sn_queried s))"

lemmas phase_defs = flying_def settled_def taken_def acked_def asked_def idle_def Let_def

definition known :: "Parameters \<Rightarrow> Parameters \<Rightarrow> Transfer \<Rightarrow> bool" where
  "known ps pr x \<longleftrightarrow> sn_params (xf_sender x) = ps \<and> rv_params (xf_receiver x) = pr \<and> xf_failed x = None"

lemma awaiting_iff [simp]: "rv_query r = bdx_next_counter (rv_counter r) + 1 \<Longrightarrow> rv_awaiting r"
  "rv_query r = bdx_next_counter (rv_counter r) \<Longrightarrow> \<not> rv_awaiting r"
  by (auto simp: rv_awaiting_def bdx_next_counter_def split: option.splits)

lemma agree_drive: "params_agree ps pr \<Longrightarrow> receiver_drives pr = receiver_drives ps \<and> (sender_drives ps \<longleftrightarrow> \<not> receiver_drives ps)"
  by (auto simp: params_agree_def receiver_drives_def sender_drives_def is_decided_def)

lemma flying_step:
  assumes "params_agree ps pr" and "transfer_step content buf x x'" and "known ps pr x" and "flying x"
  shows "known ps pr x' \<and> taken x'"
proof -
  let ?s = "xf_sender x" and ?r = "xf_receiver x"
  have k: "sn_params ?s = ps" "rv_params ?r = pr" "xf_failed x = None" using assms(3) by (simp_all add: known_def)
  note d = agree_drive [OF assms(1)]
  obtain data c where f: "xf_down x = [block_msg (sn_finished ?s) c data]" "xf_up x = []" "sn_counter ?s = Some c"
    "c = bdx_next_counter (rv_counter ?r)" "block_total ps (rv_received ?r) (length data) (sn_finished ?s) = Inr (sn_sent ?s)"
    "length data \<le> unat (pm_max_block_size ps)" "data = [] \<longrightarrow> sn_finished ?s" "\<not> rv_finished ?r" "\<not> rv_complete ?r" "\<not> sn_complete ?s"
    "\<not> rv_pending ?r" "\<not> sn_queried ?s" "receiver_drives ps \<longrightarrow> rv_query ?r = c + 1" "sender_drives ps \<longrightarrow> xf_unacked x"
    "xf_read x = xf_stored x @ data"
    using assms(4) k by (auto simp: flying_def Let_def)
  have t: "block_total pr (rv_received ?r) (length data) (sn_finished ?s) = Inr (sn_sent ?s)" using assms(1) f(5) by (rule block_total_agree)
  have m: "pm_max_block_size pr = pm_max_block_size ps" using assms(1) by (simp add: params_agree_def)
  have w: "receiver_drives ps \<longrightarrow> rv_awaiting ?r" using f(4,13) by simp
  have o: "on_block c (length data) (sn_finished ?s) ?r = (Inr (), ?r\<lparr>rv_received := sn_sent ?s, rv_counter := Some c,
      rv_pending := True, rv_finished := sn_finished ?s\<rparr>)"
    using f t m k w d unfolding on_block_def by simp
  then have tk: "receiver_takes (block_msg (sn_finished ?s) c data) ?r = (Inr data, ?r\<lparr>rv_received := sn_sent ?s, rv_counter := Some c,
      rv_pending := True, rv_finished := sn_finished ?s\<rparr>)" by simp
  from assms(2) show ?thesis
  proof cases
    case (block_arrives msg rest data' r')
    then have "data' = data" "r' = ?r\<lparr>rv_received := sn_sent ?s, rv_counter := Some c, rv_pending := True, rv_finished := sn_finished ?s\<rparr>" "rest = []"
      using f(1) tk by auto
    then show ?thesis using block_arrives(1) f k by (simp add: known_def taken_def settled_def Let_def bdx_next_counter_def)
  next
    case (block_refused msg rest e r')
    then show ?thesis using f(1) tk by auto
  qed (use f(1,2,8-14) k w d in \<open>auto simp: rv_ask_def rv_ack_def sn_block_def may_send_def split: if_splits option.splits\<close>)
qed

lemma taken_step:
  assumes "buffer_ok buf" and "params_agree ps pr" and "transfer_step content buf x x'" and "known ps pr x" and "taken x"
  shows "known ps pr x' \<and> (acked x' \<or> asked x')"
proof -
  let ?s = "xf_sender x" and ?r = "xf_receiver x"
  have k: "sn_params ?s = ps" "rv_params ?r = pr" "xf_failed x = None" using assms(4) by (simp_all add: known_def)
  note d = agree_drive [OF assms(2)]
  from assms(3) show ?thesis
  proof cases
    case (ask c r' msg n)
    then have m: "msg = query_msg c n" using wire_messages(2) [OF assms(1)] by simp
    show ?thesis using ask(1,3) assms(5) k d unfolding m
      by (auto simp: taken_def asked_def settled_def known_def Let_def rv_ask_def split: if_splits intro: exI [of _ n])
  next
    case (acknowledge t c r')
    then have "t = (if rv_finished ?r then BlockAckEof else BlockAck)" by (auto simp: rv_ack_def split: option.splits if_splits)
    then have "(message_type_value t, payload_in buf (counter_encode c)) = ack_msg (rv_finished ?r) c" using wire_messages(1) [OF assms(1)] by simp
    then show ?thesis using acknowledge assms(5) k d
      by (auto simp: taken_def acked_def settled_def known_def Let_def rv_ack_def bdx_next_counter_def split: if_splits option.splits)
  qed (use assms(5) k d in \<open>auto simp: taken_def settled_def Let_def sn_block_def may_send_def split: if_splits\<close>)
qed

lemma acked_step:
  assumes "buffer_ok buf" and "params_agree ps pr" and "transfer_step content buf x x'" and "known ps pr x" and "acked x"
  shows "known ps pr x' \<and> (idle x' \<or> asked x')"
proof -
  let ?s = "xf_sender x" and ?r = "xf_receiver x"
  have k: "sn_params ?s = ps" "rv_params ?r = pr" "xf_failed x = None" using assms(4) by (simp_all add: known_def)
  note d = agree_drive [OF assms(2)]
  obtain c where c: "rv_counter ?r = Some c" "xf_up x = [ack_msg (rv_finished ?r) c]" "sn_counter ?s = Some c" "sn_finished ?s = rv_finished ?r"
    "\<not> sn_complete ?s" using assms(5) by (auto simp: acked_def settled_def Let_def)
  then have o: "sender_takes (ack_msg (rv_finished ?r) c) ?s = (Inr (), ?s\<lparr>sn_complete := rv_finished ?r\<rparr>)" by (simp add: on_ack_def)
  from assms(3) show ?thesis
  proof cases
    case (ask c' r' msg n)
    then have m: "msg = query_msg c' n" using wire_messages(2) [OF assms(1)] by simp
    have "asked x'" using ask(1,3) assms(5) k d c unfolding m asked_def Let_def
      by (intro exI [of _ n] exI [of _ "xf_up x"])
        (auto simp: acked_def settled_def Let_def rv_ask_def split: if_splits)
    then show ?thesis using ask(1,3) k by (auto simp: known_def rv_ask_def split: if_splits)
  next
    case (answer_arrives msg rest s')
    then have "s' = ?s\<lparr>sn_complete := rv_finished ?r\<rparr>" "rest = []" using c(2) o by auto
    then show ?thesis using answer_arrives(1) assms(5) k d c
      by (auto simp: acked_def idle_def settled_def known_def Let_def bdx_next_counter_def)
  qed (use assms(5) k d c o in \<open>auto simp: acked_def settled_def Let_def sn_block_def may_send_def rv_ack_def split: if_splits\<close>)
qed

lemma asked_step:
  assumes "params_agree ps pr" and "transfer_step content buf x x'" and "known ps pr x" and "asked x"
  shows "known ps pr x' \<and> (idle x' \<or> asked x')"
proof -
  let ?s = "xf_sender x" and ?r = "xf_receiver x"
  have k: "sn_params ?s = ps" "rv_params ?r = pr" "xf_failed x = None" using assms(3) by (simp_all add: known_def)
  note d = agree_drive [OF assms(1)]
  obtain n acks where a: "xf_up x = acks @ [query_msg (bdx_next_counter (rv_counter ?r)) n]" "unat n \<le> xf_skipped x"
    "acks = [] \<or> (\<exists>c. rv_counter ?r = Some c \<and> acks = [ack_msg False c])" "receiver_drives ps" "settled x"
    "\<not> rv_pending ?r" "\<not> rv_finished ?r" "\<not> rv_complete ?r" "\<not> sn_complete ?s" "\<not> sn_queried ?s"
    "rv_query ?r = bdx_next_counter (rv_counter ?r) + 1"
    using assms(4) k by (auto simp: asked_def Let_def)
  have s: "xf_down x = []" "sn_counter ?s = rv_counter ?r" "sn_finished ?s = rv_finished ?r" using a(5) by (simp_all add: settled_def Let_def)
  from assms(2) show ?thesis
  proof cases
    case (answer_arrives msg rest s')
    show ?thesis
    proof (cases "acks = []")
      case True
      have "sender_takes (query_msg (bdx_next_counter (rv_counter ?r)) n) ?s
          = (Inr (), ?s\<lparr>sn_queried := True, sn_cursor := saturating_add (sn_cursor ?s) n\<rparr>)"
        using a s k by (simp add: on_query_with_skip_def Let_def)
      then have "s' = ?s\<lparr>sn_queried := True, sn_cursor := saturating_add (sn_cursor ?s) n\<rparr>" "rest = []"
        using answer_arrives a(1) True by auto
      then have "known ps pr x' \<and> idle x'" using answer_arrives(1) a k d by (simp add: known_def idle_def settled_def Let_def)
      then show ?thesis by blast
    next
      case False
      then obtain c where c: "rv_counter ?r = Some c" "acks = [ack_msg False c]" using a(3) by blast
      then have "sender_takes (ack_msg False c) ?s = (Inr (), ?s\<lparr>sn_complete := False\<rparr>)" using s a by (simp add: on_ack_def)
      then have s': "s' = ?s\<lparr>sn_complete := False\<rparr>" "rest = [query_msg (bdx_next_counter (rv_counter ?r)) n]"
        using answer_arrives a(1) c(2) by auto
      have "asked x'" unfolding asked_def Let_def
        by (intro exI [of _ n] exI [of _ "[]"]) (use answer_arrives(1) s' a k in \<open>simp add: settled_def Let_def\<close>)
      then show ?thesis using answer_arrives(1) s' k by (simp add: known_def)
    qed
  next
    case (answer_refused msg rest e s')
    have "sender_takes msg ?s = (Inl e, s') \<Longrightarrow> False"
    proof (cases "acks = []")
      case True
      then show "sender_takes msg ?s = (Inl e, s') \<Longrightarrow> False" using answer_refused(3) a s k by (auto simp: on_query_with_skip_def Let_def)
    next
      case False
      then obtain c where c: "rv_counter ?r = Some c" "acks = [ack_msg False c]" using a(3) by blast
      then show "sender_takes msg ?s = (Inl e, s') \<Longrightarrow> False" using answer_refused(3) a s by (auto simp: on_ack_def)
    qed
    then show ?thesis using answer_refused(4) by blast
  qed (use a(1,4,6-11) s k d in \<open>auto simp: rv_ask_def rv_ack_def sn_block_def may_send_def split: if_splits option.splits\<close>)
qed

lemma sn_block_ok:
  assumes "sn_block len eof s = (Inr c, s')"
  shows "\<exists>t. may_send s \<and> len \<le> unat (pm_max_block_size (sn_params s)) \<and> (len = 0 \<longrightarrow> eof) \<and> block_total (sn_params s) (sn_sent s) len eof = Inr t
    \<and> c = bdx_next_counter (sn_counter s) \<and> s' = s\<lparr>sn_counter := Some c, sn_sent := t, sn_cursor := saturating_add (sn_cursor s) (len64 len),
             sn_queried := False, sn_finished := eof\<rparr>"
  using assms by (auto simp: sn_block_def Let_def not_less split: if_splits sum.splits)

lemma idle_step:
  assumes "buffer_ok buf" and "params_agree ps pr" and "transfer_step content buf x x'" and "known ps pr x" and "idle x"
  shows "known ps pr x' \<and> (flying x' \<or> asked x')"
proof -
  let ?s = "xf_sender x" and ?r = "xf_receiver x"
  have k: "sn_params ?s = ps" "rv_params ?r = pr" "xf_failed x = None" using assms(4) by (simp_all add: known_def)
  note d = agree_drive [OF assms(2)]
  from assms(3) show ?thesis
  proof cases
    case (ask c' r' msg n)
    then have m: "msg = query_msg c' n" using wire_messages(2) [OF assms(1)] by simp
    have q: "receiver_drives ps" "\<not> sn_queried ?s" "\<not> rv_finished ?r" using ask(3) assms(5) k d
      by (auto simp: idle_def settled_def Let_def rv_ask_def split: if_splits)
    have "asked x'" using ask(1,3) assms(5) k d q unfolding m asked_def Let_def
      by (intro exI [of _ n] exI [of _ "[]"])
        (auto simp: idle_def settled_def Let_def rv_ask_def split: if_splits)
    then show ?thesis using ask(1,3) k by (auto simp: known_def rv_ask_def split: if_splits)
  next
    case (send data n eof c s' msg)
    obtain t where t: "may_send ?s" "length data \<le> unat (pm_max_block_size ps)" "length data = 0 \<longrightarrow> eof"
      "block_total ps (sn_sent ?s) (length data) eof = Inr t" "c = bdx_next_counter (sn_counter ?s)"
      "s' = ?s\<lparr>sn_counter := Some c, sn_sent := t, sn_cursor := saturating_add (sn_cursor ?s) (len64 (length data)),
             sn_queried := False, sn_finished := eof\<rparr>"
      using sn_block_ok [OF send(5)] k by auto
    have m: "msg = block_msg eof c data" using wire_messages(3) [OF assms(1) t(2)] send(6) by simp
    have i: "xf_down x = []" "xf_up x = []" "sn_counter ?s = rv_counter ?r" "sn_sent ?s = rv_received ?r" "sn_finished ?s = rv_finished ?r"
      "xf_read x = xf_stored x" "\<not> rv_pending ?r" "rv_complete ?r = rv_finished ?r" "sn_complete ?s = rv_finished ?r"
      using assms(5) by (simp_all add: idle_def settled_def Let_def)
    have f: "\<not> rv_finished ?r" "sender_drives ps \<or> sn_queried ?s" using t(1) i k by (simp_all add: may_send_def split: if_splits)
    have q: "receiver_drives ps \<longrightarrow> rv_query ?r = bdx_next_counter (rv_counter ?r) + 1"
      using assms(5) f(2) d k by (auto simp: idle_def Let_def)
    have "flying x'" unfolding flying_def Let_def
      by (rule exI [of _ data], rule exI [of _ c]) (use send(1) m t i f q k d in \<open>simp add: block_msg_def\<close>)
    then show ?thesis using send(1) t k by (simp add: known_def)
  qed (use assms(5) k d in \<open>auto simp: idle_def settled_def Let_def rv_ack_def split: if_splits option.splits\<close>)
qed

definition transfer_phase :: "Transfer \<Rightarrow> bool" where
  "transfer_phase x \<longleftrightarrow> flying x \<or> taken x \<or> acked x \<or> asked x \<or> idle x"

lemma start_phase: "params_agree ps pr \<Longrightarrow> known ps pr (transfer_start ps pr) \<and> idle (transfer_start ps pr)"
  by (simp add: known_def idle_def settled_def Let_def transfer_start_def sender_new_def receiver_new_def bdx_next_counter_def)

lemma reach_phase:
  assumes "buffer_ok buf" and "params_agree ps pr"
  shows "transfer_reach content buf ps pr x \<Longrightarrow> known ps pr x \<and> transfer_phase x"
proof (induction rule: transfer_reach.induct)
  case start
  then show ?case using start_phase [OF assms(2)] by (simp add: transfer_phase_def)
next
  case (step x x')
  then have k: "known ps pr x" and p: "transfer_phase x" by simp_all
  show ?case
    using p flying_step [OF assms(2) step.hyps(2) k] taken_step [OF assms step.hyps(2) k] acked_step [OF assms step.hyps(2) k]
      asked_step [OF assms(2) step.hyps(2) k] idle_step [OF assms step.hyps(2) k]
    unfolding transfer_phase_def by blast
qed

section \<open>What is delivered\<close>

definition transfer_data_inv :: "bytes \<Rightarrow> Parameters \<Rightarrow> Transfer \<Rightarrow> bool" where
  "transfer_data_inv content ps x \<longleftrightarrow> (let s = xf_sender x in
     unat (sn_sent s) = length (xf_read x)
     \<and> (\<forall>l. pm_length ps = Some l \<longrightarrow> sn_sent s \<le> l \<and> (sn_finished s \<longrightarrow> sn_sent s = l))
     \<and> (xf_skipped x = 0 \<longrightarrow> unat (sn_cursor s) = unat (pm_start_offset ps) + length (xf_read x)
         \<and> (\<exists>more. drop (unat (pm_start_offset ps)) content = xf_read x @ more)))"

lemma cursor_moves:
  assumes "data = take n (drop (unat (c :: u64)) content)" and "length content \<le> USIZE_MAX"
  shows "unat (saturating_add c (len64 (length data))) = unat c + length data"
proof -
  have "data = [] \<or> unat c + length data \<le> length content" using assms(1) by auto
  then have "unat c + length data < 2 ^ 64 \<and> length data < 2 ^ 64" using assms(2) unat_lt_len [of c] by (auto simp: USIZE_MAX_def)
  then show ?thesis by (simp add: unat_saturating_add len64_def unat_of_nat_small)
qed

lemma block_total_length:
  "block_total p n len eof = Inr t \<Longrightarrow> pm_length p = Some l \<Longrightarrow> t \<le> l \<and> (eof \<longrightarrow> t = l)"
  by (auto simp: block_total_def split: option.splits if_splits)

lemma saturating_add_0 [simp]: "saturating_add a 0 = a"
  by (simp add: saturating_add_def unat_lt_len)

lemma sender_takes_fields:
  assumes "sender_takes msg s = (Inr (), s')"
  shows "sn_sent s' = sn_sent s" "sn_finished s' = sn_finished s" "\<exists>k. sn_cursor s' = saturating_add (sn_cursor s) k"
proof -
  have q: "on_query_with_skip c k s = (Inr v, s') \<Longrightarrow>
      sn_sent s' = sn_sent s \<and> sn_finished s' = sn_finished s \<and> (\<exists>k. sn_cursor s' = saturating_add (sn_cursor s) k)" for c k v
    by (auto simp: on_query_with_skip_def Let_def split: if_splits)
  have a: "on_ack c e s = (Inr (), s') \<Longrightarrow>
      sn_sent s' = sn_sent s \<and> sn_finished s' = sn_finished s \<and> (\<exists>k. sn_cursor s' = saturating_add (sn_cursor s) k)" for c e
    by (auto simp: on_ack_def intro: exI [of _ 0] split: option.splits if_splits)
  have "sn_sent s' = sn_sent s \<and> sn_finished s' = sn_finished s \<and> (\<exists>k. sn_cursor s' = saturating_add (sn_cursor s) k)"
    using assms q a unfolding sender_takes_def on_query_def
    by (auto split: sum.splits prod.splits MessageType.splits)
  then show "sn_sent s' = sn_sent s" "sn_finished s' = sn_finished s" "\<exists>k. sn_cursor s' = saturating_add (sn_cursor s) k" by simp_all
qed

lemma unskipped_cursor:
  assumes "transfer_phase x" and "xf_up x = msg # rest" and "sender_takes msg (xf_sender x) = (Inr (), s')" and "xf_skipped x = 0"
  shows "sn_cursor s' = sn_cursor (xf_sender x)"
proof -
  have "(\<exists>e c. msg = ack_msg e c) \<or> (\<exists>c. msg = query_msg c 0)"
    using assms(1,2,4) by (auto simp: transfer_phase_def phase_defs Cons_eq_append_conv unat_eq_zero)
  then show ?thesis
    using assms(3) by (auto simp: on_ack_def on_query_with_skip_def Let_def split: option.splits if_splits)
qed

lemma transfer_data_inv_step:
  assumes "length content \<le> USIZE_MAX" and "known ps pr x" and "transfer_phase x" and "transfer_data_inv content ps x" and "transfer_step content buf x x'"
  shows "transfer_data_inv content ps x'"
  using assms(5)
proof cases
  case (send data n eof c s' msg)
  let ?s = "xf_sender x"
  obtain t where t: "length data \<le> unat (pm_max_block_size ps)" "block_total ps (sn_sent ?s) (length data) eof = Inr t"
      "s' = ?s\<lparr>sn_counter := Some c, sn_sent := t, sn_cursor := saturating_add (sn_cursor ?s) (len64 (length data)),
             sn_queried := False, sn_finished := eof\<rparr>"
    using sn_block_ok [OF send(5)] assms(2) by (auto simp: known_def)
  have "length data < 2 ^ 64" using t(1) unat_lt_len [of "pm_max_block_size ps"] by simp
  note e = block_total_exact [OF t(2) this]
  note c = cursor_moves [OF send(4) assms(1)]
  have "\<exists>more. drop (unat (pm_start_offset ps)) content = (xf_read x @ data) @ more" if z: "xf_skipped x = 0"
  proof -
    let ?o = "unat (pm_start_offset ps)"
    obtain more where r: "unat (sn_cursor ?s) = ?o + length (xf_read x)" "drop ?o content = xf_read x @ more"
      using assms(4) z by (auto simp: transfer_data_inv_def Let_def)
    then have "drop (unat (sn_cursor ?s)) content = more" by (metis add.commute append_eq_conv_conj drop_drop)
    then have "data = take n more" using send(4) by simp
    then show ?thesis using r(2) by (metis append.assoc append_take_drop_id)
  qed
  then show ?thesis using send(1) assms(4) e c t block_total_length [OF t(2)] by (auto simp: transfer_data_inv_def Let_def)
next
  case (answer_arrives msg rest s')
  note f = sender_takes_fields [OF answer_arrives(4)] and u = unskipped_cursor [OF assms(3) answer_arrives(3,4)]
  then show ?thesis using answer_arrives(1) assms(4) by (auto simp: transfer_data_inv_def Let_def)
next
  case (answer_refused msg rest e s')
  have "sn_sent s' = sn_sent (xf_sender x) \<and> sn_finished s' = sn_finished (xf_sender x) \<and> sn_cursor s' = sn_cursor (xf_sender x)"
    using answer_refused(4) unfolding sender_takes_def on_query_def on_query_with_skip_def on_ack_def
    by (auto simp: Let_def split: sum.splits prod.splits MessageType.splits option.splits if_splits)
  then show ?thesis using answer_refused(1) assms(4) by (simp add: transfer_data_inv_def Let_def)
qed (use assms(4) in \<open>auto simp: transfer_data_inv_def Let_def\<close>)

lemma reach_inv:
  assumes "buffer_ok buf" and "params_agree ps pr" and "length content \<le> USIZE_MAX"
  shows "transfer_reach content buf ps pr x \<Longrightarrow> known ps pr x \<and> transfer_phase x \<and> transfer_data_inv content ps x"
proof (induction rule: transfer_reach.induct)
  case start
  have "transfer_data_inv content ps (transfer_start ps pr)" by (simp add: transfer_data_inv_def transfer_start_def sender_new_def)
  then show ?case using start_phase [OF assms(2)] by (simp add: transfer_phase_def)
next
  case (step x x')
  then have "transfer_data_inv content ps x'" using transfer_data_inv_step assms(3) by blast
  then show ?case using reach_phase [OF assms(1,2) transfer_reach.step [OF step.hyps]] by simp
qed

lemma phase_data:
  assumes "known ps pr x" and "transfer_phase x" and "transfer_data_inv content ps x"
  shows "(xf_down x = [] \<longrightarrow> xf_stored x = xf_read x) \<and> (\<exists>rest. xf_read x = xf_stored x @ rest) \<and> unat (rv_received (xf_receiver x)) = length (xf_stored x)
    \<and> (rv_complete (xf_receiver x) \<longrightarrow> xf_down x = [] \<and> sn_finished (xf_sender x)) \<and> (sn_complete (xf_sender x) \<longrightarrow> rv_complete (xf_receiver x))"
proof (cases "flying x")
  case True
  then obtain data where d: "xf_read x = xf_stored x @ data" "length data \<le> unat (pm_max_block_size ps)" "xf_down x \<noteq> []"
    "block_total ps (rv_received (xf_receiver x)) (length data) (sn_finished (xf_sender x)) = Inr (sn_sent (xf_sender x))"
    "\<not> rv_complete (xf_receiver x)" "\<not> sn_complete (xf_sender x)"
    using assms(1) by (auto simp: flying_def Let_def known_def)
  have "length data < 2 ^ 64" using d(2) unat_lt_len [of "pm_max_block_size ps"] by simp
  then show ?thesis using block_total_exact [OF d(4)] d assms(3) by (auto simp: transfer_data_inv_def Let_def)
next
  case False
  then have "settled x" "rv_complete (xf_receiver x) \<longrightarrow> rv_finished (xf_receiver x)" "sn_complete (xf_sender x) \<longrightarrow> rv_complete (xf_receiver x)"
    using assms(2) by (auto simp: transfer_phase_def taken_def acked_def asked_def idle_def Let_def)
  then show ?thesis using assms(3) by (auto simp: settled_def transfer_data_inv_def Let_def)
qed

text \<open>C15: A bulk transfer delivers the file.  Between two ends with agreed parameters, over wires that keep the order, whichever end
  drives, whatever block sizes, queries, skips and acknowledgements the applications choose and however the messages interleave, neither
  end ever refuses a message of the other; what has been stored is what has been read, less what is on the wire, and
  is counted exactly; without skips it is the file from the agreed offset on; and an end that sees the transfer complete holds all that was
  read, of a definite length exactly that many octets.\<close>

theorem bdx_transfer_delivers:
  assumes "transfer_reach content buf ps pr x" and "buffer_ok buf" and "params_agree ps pr" and "length content \<le> USIZE_MAX"
  shows "xf_failed x = None \<and> (\<exists>rest. xf_read x = xf_stored x @ rest) \<and> unat (rv_received (xf_receiver x)) = length (xf_stored x)
    \<and> (xf_skipped x = 0 \<longrightarrow> (\<exists>more. drop (unat (pm_start_offset ps)) content = xf_stored x @ more))
    \<and> (sn_complete (xf_sender x) \<longrightarrow> rv_complete (xf_receiver x))
    \<and> (rv_complete (xf_receiver x) \<longrightarrow> xf_stored x = xf_read x \<and> (\<forall>l. pm_length ps = Some l \<longrightarrow> length (xf_stored x) = unat l))"
proof -
  have i: "known ps pr x" "transfer_phase x" "transfer_data_inv content ps x" using reach_inv [OF assms(2-4,1)] by simp_all
  note p = phase_data [OF i]
  then obtain rest where r: "xf_read x = xf_stored x @ rest" by blast
  have "\<exists>more. drop (unat (pm_start_offset ps)) content = xf_stored x @ more" if "xf_skipped x = 0"
    using r i(3) that by (auto simp: transfer_data_inv_def Let_def)
  moreover have "length (xf_stored x) = unat l" if "rv_complete (xf_receiver x)" "pm_length ps = Some l" for l
  proof -
    have "xf_stored x = xf_read x" "sn_finished (xf_sender x)" using p that(1) by blast+
    moreover have "unat (sn_sent (xf_sender x)) = length (xf_read x)" "sn_finished (xf_sender x) \<Longrightarrow> sn_sent (xf_sender x) = l"
      using i(3) that(2) unfolding transfer_data_inv_def Let_def by blast+
    ultimately show ?thesis by simp
  qed
  moreover have "xf_failed x = None" using i(1) by (simp add: known_def)
  ultimately show ?thesis using p by blast
qed

section \<open>Progress\<close>

definition transfer_left :: "bytes \<Rightarrow> Transfer \<Rightarrow> nat" where
  "transfer_left content x = (let s = xf_sender x; r = xf_receiver x in
     6 * ((length content - unat (sn_cursor s)) + (if sn_finished s then 0 else 1)) + 5 * length (xf_down x) + length (xf_up x)
     + (if rv_pending r then 2 else 0) + (if receiver_drives (rv_params r) \<and> \<not> rv_awaiting r \<and> \<not> rv_finished r then 2 else 0))"

lemma send_decreases:
  assumes "length content \<le> USIZE_MAX" and d: "data = take n (drop (unat (sn_cursor s)) content)" and "sn_block (length data) eof s = (Inr c, s')"
  shows "(length content - unat (sn_cursor s')) + (if sn_finished s' then 0 else 1) < (length content - unat (sn_cursor s)) + (if sn_finished s then 0 else 1 :: nat)"
proof -
  note c = cursor_moves [OF d assms(1)]
  have s: "\<not> sn_finished s" "data = [] \<longrightarrow> eof" "sn_finished s' = eof" "sn_cursor s' = saturating_add (sn_cursor s) (len64 (length data))"
    using sn_block_ok [OF assms(3)] by (auto simp: may_send_def split: if_splits)
  obtain k where k: "length data = k" "data = [] \<longleftrightarrow> k = 0" by simp
  have "k = 0 \<or> unat (sn_cursor s) + k \<le> length content" using d k by auto
  then show ?thesis using s c unfolding k by (cases eof; cases "k = 0"; simp)
qed

lemma transfer_step_decreases:
  assumes "length content \<le> USIZE_MAX" and "transfer_step content buf x x'" and "xf_failed x' = None"
  shows "transfer_left content x' < transfer_left content x"
  using assms(2)
proof cases
  case (ask c r' msg k)
  have "rv_awaiting r'" "\<not> rv_awaiting (xf_receiver x)" "\<not> rv_finished (xf_receiver x)" "receiver_drives (rv_params (xf_receiver x))"
    "\<not> rv_pending r'" "rv_params r' = rv_params (xf_receiver x)"
    using ask(3) by (auto simp: rv_ask_def rv_awaiting_def split: if_splits option.splits)
  then show ?thesis using ask(1) by (simp add: transfer_left_def Let_def)
next
  case (acknowledge t c r')
  have "rv_pending (xf_receiver x)" "\<not> rv_pending r'" "rv_params r' = rv_params (xf_receiver x)" "rv_finished r' = rv_finished (xf_receiver x)"
    "rv_awaiting r' = rv_awaiting (xf_receiver x)"
    using acknowledge(3) by (auto simp: rv_ack_def rv_awaiting_def split: if_splits option.splits)
  then show ?thesis using acknowledge(1) by (simp add: transfer_left_def Let_def)
next
  case (send data n eof c s' msg)
  note d = send_decreases [OF assms(1) send(4,5)]
  show ?thesis using send(1) d by (simp add: transfer_left_def Let_def)
next
  case (block_arrives msg rest data r')
  show ?thesis using block_arrives(1,3) by (auto simp: transfer_left_def Let_def)
next
  case (answer_arrives msg rest s')
  obtain k where "sn_cursor s' = saturating_add (sn_cursor (xf_sender x)) k" using sender_takes_fields(3) [OF answer_arrives(4)] by blast
  then have "unat (sn_cursor (xf_sender x)) \<le> unat (sn_cursor s')" using unat_lt_len [of "sn_cursor (xf_sender x)"] by (simp add: unat_saturating_add)
  then show ?thesis using answer_arrives(1,3) sender_takes_fields(2) [OF answer_arrives(4)] by (simp add: transfer_left_def Let_def)
qed (use assms(3) in auto)

lemma wire_moves:
  assumes "xf_failed x = None" and "xf_down x \<noteq> [] \<or> xf_up x \<noteq> []"
  shows "\<exists>x'. transfer_step content buf x x' \<and> xf_skipped x' = xf_skipped x"
proof (cases "xf_down x")
  case (Cons msg rest)
  then show ?thesis
  proof (cases "receiver_takes msg (xf_receiver x)")
    case (Pair res r')
    then show ?thesis using block_arrives [OF assms(1) Cons, of _ r'] block_refused [OF assms(1) Cons, of _ r'] by (cases res) fastforce+
  qed
next
  case Nil
  then obtain msg rest where u: "xf_up x = msg # rest" using assms(2) by (cases "xf_up x") auto
  show ?thesis
  proof (cases "sender_takes msg (xf_sender x)")
    case (Pair res s')
    then show ?thesis using answer_arrives [OF assms(1) u, of s'] answer_refused [OF assms(1) u, of _ s'] by (cases res) fastforce+
  qed
qed

text \<open>The block an application can always send: as much as fits of what is left.\<close>

lemma sender_can_send:
  assumes "length content \<le> USIZE_MAX" and "may_send s" and p: "pm_max_block_size (sn_params s) \<noteq> 0"
    and "unat (sn_cursor s) = unat (pm_start_offset (sn_params s)) + unat (sn_sent s)"
    and len: "\<And>l. pm_length (sn_params s) = Some l \<Longrightarrow> sn_sent s \<le> l \<and> unat (pm_start_offset (sn_params s)) + unat l \<le> length content"
  shows "\<exists>n eof c s'. sn_block (length (take n (drop (unat (sn_cursor s)) content))) eof s = (Inr c, s')"
proof -
  let ?left = "case pm_length (sn_params s) of Some l \<Rightarrow> unat l - unat (sn_sent s) | None \<Rightarrow> length content - unat (sn_cursor s)"
  let ?n = "min ?left (unat (pm_max_block_size (sn_params s)))"
  have l: "length (take ?n (drop (unat (sn_cursor s)) content)) = ?n"
    using assms(4) len by (auto simp: min_def word_le_nat_alt split: option.split)
  have m: "unat (pm_max_block_size (sn_params s)) > 0" using p by (simp add: unat_gt_0)
  have s64: "unat (sn_sent s) + ?n < 2 ^ 64"
  proof (cases "pm_length (sn_params s)")
    case None
    then show ?thesis using assms(1,4) unat_lt_len [of "sn_sent s"] by (auto simp: min_def USIZE_MAX_def)
  next
    case (Some l)
    then show ?thesis using len [OF Some] unat_lt_len [of l] by (auto simp: min_def word_le_nat_alt)
  qed
  then have c: "checked_add (sn_sent s) (len64 ?n) = Some (sn_sent s + word_of_nat ?n)" "unat (sn_sent s + word_of_nat ?n) = unat (sn_sent s) + ?n"
    by (simp_all add: checked_add_def len64_def unat_of_nat_small unat_word_ariths)
  have "block_total (sn_params s) (sn_sent s) ?n (?n = ?left) = Inr (sn_sent s + word_of_nat ?n)"
  proof (cases "pm_length (sn_params s)")
    case None
    then show ?thesis using c(1) by (simp add: block_total_def)
  next
    case (Some l)
    then have "unat (sn_sent s) \<le> unat l" using len by (simp add: word_le_nat_alt)
    then have "\<not> sn_sent s + word_of_nat ?n > l \<and> (?n = ?left \<longrightarrow> sn_sent s + word_of_nat ?n = l)"
      using c(2) Some by (auto simp: word_less_nat_alt word_unat_eq_iff)
    then show ?thesis using c(1) Some by (auto simp: block_total_def)
  qed
  then have "sn_block ?n (?n = ?left) s \<noteq> (Inl e, s')" for e s' using assms(2) m by (auto simp: sn_block_def Let_def min_def split: if_splits)
  then have "\<exists>c s'. sn_block ?n (?n = ?left) s = (Inr c, s')" by (metis old.prod.exhaust sum.exhaust)
  then show ?thesis using l by metis
qed

lemma idle_moves:
  assumes "buffer_ok buf" and "params_agree ps pr" and "length content \<le> USIZE_MAX" and k: "known ps pr x" and i: "idle x" and d: "transfer_data_inv content ps x"
    and "xf_skipped x = 0" and len: "\<And>l. pm_length ps = Some l \<Longrightarrow> unat (pm_start_offset ps) + unat l \<le> length content"
    and f: "\<not> rv_finished (xf_receiver x)"
  shows "\<exists>x'. transfer_step content buf x x' \<and> xf_skipped x' = 0"
proof -
  let ?s = "xf_sender x" and ?r = "xf_receiver x"
  note a = agree_drive [OF assms(2)]
  have x: "xf_failed x = None" "sn_params ?s = ps" "rv_params ?r = pr" using k by (simp_all add: known_def)
  have q: "sn_finished ?s = rv_finished ?r" "rv_complete ?r = rv_finished ?r" "sn_complete ?s = rv_finished ?r"
    "receiver_drives ps \<longrightarrow> rv_query ?r = (if sn_queried ?s then bdx_next_counter (rv_counter ?r) + 1 else bdx_next_counter (rv_counter ?r))"
    "sender_drives ps \<longrightarrow> \<not> xf_unacked x"
    using i x by (auto simp: idle_def settled_def Let_def)
  show ?thesis
  proof (cases "receiver_drives ps \<and> \<not> sn_queried ?s")
    case True
    then have "rv_ask ?r = (Inr (rv_query ?r), ?r\<lparr>rv_pending := False, rv_query := rv_query ?r + 1\<rparr>)" using q f a x by (simp add: rv_ask_def)
    from transfer_step.ask [OF x(1) this refl, of content buf 0] show ?thesis using assms(7) by force
  next
    case False
    then have m: "may_send ?s" using q f a x by (auto simp: may_send_def)
    have "\<exists>n eof c s'. sn_block (length (take n (drop (unat (sn_cursor ?s)) content))) eof ?s = (Inr c, s')"
      using d assms(7) x len assms(2) by (intro sender_can_send [OF assms(3) m]) (auto simp: transfer_data_inv_def Let_def params_agree_def)
    then obtain n eof c s' where b: "sn_block (length (take n (drop (unat (sn_cursor ?s)) content))) eof ?s = (Inr c, s')" by blast
    from transfer_step.send [OF x(1) _ refl b refl, of buf] show ?thesis using q(5) x assms(7) by fastforce
  qed
qed

lemma transfer_progress:
  assumes "transfer_reach content buf ps pr x" and "buffer_ok buf" and "params_agree ps pr" and "length content \<le> USIZE_MAX" and "xf_skipped x = 0"
    and "\<And>l. pm_length ps = Some l \<Longrightarrow> unat (pm_start_offset ps) + unat l \<le> length content"
  shows "(sn_complete (xf_sender x) \<and> rv_complete (xf_receiver x) \<or> (\<exists>x'. transfer_step content buf x x' \<and> xf_skipped x' = 0))
    \<and> (\<forall>x'. transfer_step content buf x x' \<longrightarrow> transfer_left content x' < transfer_left content x)"
proof
  have i: "known ps pr x" "transfer_phase x" "transfer_data_inv content ps x" using reach_inv [OF assms(2-4,1)] by simp_all
  have x: "xf_failed x = None" using i(1) by (simp add: known_def)
  consider (wire) "xf_down x \<noteq> [] \<or> xf_up x \<noteq> []" | (taken) "taken x" | (idle) "idle x"
    using i(2) by (auto simp: transfer_phase_def flying_def acked_def asked_def Let_def)
  then show "sn_complete (xf_sender x) \<and> rv_complete (xf_receiver x) \<or> (\<exists>x'. transfer_step content buf x x' \<and> xf_skipped x' = 0)"
  proof cases
    case wire
    then show ?thesis using wire_moves [OF x] assms(5) by metis
  next
    case taken
    then obtain c where "rv_counter (xf_receiver x) = Some c" "rv_pending (xf_receiver x)" by (auto simp: taken_def Let_def)
    then have "\<exists>t r'. rv_ack (xf_receiver x) = (Inr (t, c), r')" by (simp add: rv_ack_def)
    then obtain t r' where "rv_ack (xf_receiver x) = (Inr (t, c), r')" by blast
    from transfer_step.acknowledge [OF x this] show ?thesis using assms(5) by force
  next
    case idle
    then show ?thesis using idle_moves [OF assms(2-4) i(1) idle i(3) assms(5,6)] by (cases "rv_finished (xf_receiver x)") (auto simp: idle_def Let_def)
  qed
  show "\<forall>x'. transfer_step content buf x x' \<longrightarrow> transfer_left content x' < transfer_left content x"
  proof (intro allI impI)
    fix x'
    assume st: "transfer_step content buf x x'"
    then have "known ps pr x'" using reach_phase [OF assms(2,3) transfer_reach.step [OF assms(1) st]] by simp
    then show "transfer_left content x' < transfer_left content x" using transfer_step_decreases [OF assms(4) st] by (simp add: known_def)
  qed
qed

lemma transfer_run_completes:
  assumes "buffer_ok buf" and "params_agree ps pr" and "length content \<le> USIZE_MAX"
    and "\<And>l. pm_length ps = Some l \<Longrightarrow> unat (pm_start_offset ps) + unat l \<le> length content"
  shows "transfer_reach content buf ps pr x \<Longrightarrow> xf_skipped x = 0 \<Longrightarrow>
    \<exists>x'. (transfer_step content buf)\<^sup>*\<^sup>* x x' \<and> transfer_reach content buf ps pr x' \<and> xf_skipped x' = 0
      \<and> sn_complete (xf_sender x') \<and> rv_complete (xf_receiver x')"
proof (induction "transfer_left content x" arbitrary: x rule: less_induct)
  case less
  note p = transfer_progress [OF less.prems(1) assms(1-3) less.prems(2) assms(4)]
  show ?case
  proof (cases "sn_complete (xf_sender x) \<and> rv_complete (xf_receiver x)")
    case True
    then show ?thesis using less.prems by blast
  next
    case False
    then obtain x1 where st: "transfer_step content buf x x1" "xf_skipped x1 = 0" "transfer_left content x1 < transfer_left content x" using p by blast
    from less.hyps [OF st(3) transfer_reach.step [OF less.prems(1) st(1)] st(2)] show ?thesis
      using st(1) by (meson converse_rtranclp_into_rtranclp)
  qed
qed

text \<open>C16: A bulk transfer completes.  As long as no end has skipped and the file holds what the sender committed to, a transfer that is not
  complete at both ends can go on, whatever has happened so far, and every step it takes brings it nearer to its end; so that it ends, complete
  at both ends.\<close>

theorem bdx_transfer_completes:
  assumes "transfer_reach content buf ps pr x" and "buffer_ok buf" and "params_agree ps pr" and "length content \<le> USIZE_MAX" and "xf_skipped x = 0"
    and "\<And>l. pm_length ps = Some l \<Longrightarrow> unat (pm_start_offset ps) + unat l \<le> length content"
  shows "(sn_complete (xf_sender x) \<and> rv_complete (xf_receiver x) \<or> (\<exists>x'. transfer_step content buf x x' \<and> xf_skipped x' = 0))
    \<and> (\<forall>x'. transfer_step content buf x x' \<longrightarrow> transfer_left content x' < transfer_left content x)
    \<and> (\<exists>x'. (transfer_step content buf)\<^sup>*\<^sup>* x x' \<and> xf_skipped x' = 0 \<and> sn_complete (xf_sender x') \<and> rv_complete (xf_receiver x'))"
  using transfer_progress [OF assms] transfer_run_completes [OF assms(2-4,6,1,5)] by blast

lemma demo_ready:
  "buffer_ok (replicate 65539 0)" "params_agree bdx_demo_params bdx_demo_params" "length ([1, 2] :: bytes) \<le> USIZE_MAX"
  by (simp_all add: buffer_ok_def USIZE_MAX_def params_agree_def bdx_demo_params_def is_decided_def)

lemma bdx_demo_length: "pm_length bdx_demo_params = Some l \<Longrightarrow> unat (pm_start_offset bdx_demo_params) + unat l \<le> length ([1, 2] :: bytes)"
  by (auto simp: bdx_demo_params_def)

theorem bdx_transfer_delivers_witness:
  "\<exists>x. transfer_reach [1, 2] (replicate 65539 0) bdx_demo_params bdx_demo_params x \<and> rv_complete (xf_receiver x) \<and> xf_stored x = [1, 2]"
proof -
  obtain x where x: "transfer_reach [1, 2] (replicate 65539 0) bdx_demo_params bdx_demo_params x" "xf_skipped x = 0" "rv_complete (xf_receiver x)"
    using transfer_run_completes [OF demo_ready bdx_demo_length transfer_reach.start] by (auto simp: transfer_start_def)
  note d = bdx_transfer_delivers [OF x(1) demo_ready]
  have p: "pm_length bdx_demo_params = Some 2" "unat (pm_start_offset bdx_demo_params) = 0" by (simp_all add: bdx_demo_params_def)
  obtain more where m: "drop (unat (pm_start_offset bdx_demo_params)) [1, 2] = xf_stored x @ more" using d x(2) by blast
  have "length (xf_stored x) = unat (2 :: u64)" using d x(3) p(1) by blast
  then have "xf_stored x = take 2 [1, 2]" using m p(2) by simp
  then show ?thesis using x by auto
qed

theorem bdx_transfer_completes_witness:
  "\<exists>x'. (transfer_step [1, 2] (replicate 65539 0))\<^sup>*\<^sup>* (transfer_start bdx_demo_params bdx_demo_params) x'
    \<and> sn_complete (xf_sender x') \<and> rv_complete (xf_receiver x')"
proof -
  have "xf_skipped (transfer_start bdx_demo_params bdx_demo_params) = 0" by (simp add: transfer_start_def)
  from bdx_transfer_completes [OF transfer_reach.start demo_ready this bdx_demo_length] show ?thesis by blast
qed

end
