(* ===== verification/Dm_Events.thy ===== *)
theory Dm_Events
  imports Im_Subscription
begin

text \<open>
  The event store (\<^verbatim>\<open>src/src/dm/events.rs\<close>): event numbers that survive restarts by reserving blocks of them, one ring of records per priority, and
  what a reader is given.  The store refines an abstract log, the list of everything recorded.
\<close>

section \<open>Event numbers\<close>

definition NUMBER_RESERVATION :: u64 where "NUMBER_RESERVATION = 1000"

record EventNumbers =
  en_next :: u64
  en_reserved_through :: u64

definition numbers_restore :: "u64 \<Rightarrow> EventNumbers" where
  "numbers_restore persisted = \<lparr>en_next = persisted, en_reserved_through = persisted\<rparr>"

definition reservation :: "EventNumbers \<Rightarrow> u64 option" where
  "reservation n = (if en_next n \<ge> en_reserved_through n then Some (saturating_add (en_next n) NUMBER_RESERVATION) else None)"

definition numbers_reserved :: "u64 \<Rightarrow> EventNumbers \<Rightarrow> EventNumbers" where
  "numbers_reserved value n = (if value > en_reserved_through n then n\<lparr>en_reserved_through := value\<rparr> else n)"

definition numbers_next :: "EventNumbers \<Rightarrow> u64 option \<times> EventNumbers" where
  "numbers_next n =
     (if en_next n \<ge> en_reserved_through n then (None, n)
      else (Some (en_next n), n\<lparr>en_next := saturating_add (en_next n) 1\<rparr>))"

definition numbers_peek :: "EventNumbers \<Rightarrow> u64" where "numbers_peek n = en_next n"

section \<open>Records\<close>

datatype Timestamp = Epoch u64 | System u64

datatype EventTimestamp = AbsEpoch u64 | AbsSystem u64 | DeltaEpoch u64 | DeltaSystem u64

fun timestamp_millis :: "Timestamp \<Rightarrow> u64" where
  "timestamp_millis (Epoch v) = v"
| "timestamp_millis (System v) = v"

fun timestamp_absolute :: "Timestamp \<Rightarrow> EventTimestamp" where
  "timestamp_absolute (Epoch v) = AbsEpoch v"
| "timestamp_absolute (System v) = AbsSystem v"

text \<open>\<^verbatim>\<open>u64::checked_sub\<close>.\<close>

definition checked_sub64 :: "u64 \<Rightarrow> u64 \<Rightarrow> u64 option" where
  "checked_sub64 a b = (if b \<le> a then Some (a - b) else None)"

fun delta_from :: "Timestamp \<Rightarrow> Timestamp \<Rightarrow> EventTimestamp option" where
  "delta_from (Epoch now) (Epoch before) = map_option DeltaEpoch (checked_sub64 now before)"
| "delta_from (System now) (System before) = map_option DeltaSystem (checked_sub64 now before)"
| "delta_from _ _ = None"

definition EVENT_DATA_MAX :: nat where "EVENT_DATA_MAX = 128"

record EventRecord =
  er_number :: u64
  er_endpoint :: EndpointId
  er_cluster :: ClusterId
  er_event :: EventId
  er_priority :: EventPriority
  er_timestamp :: Timestamp
  er_fabric_index :: "FabricIndex option"
  er_data :: bytes

definition record_path :: "EventRecord \<Rightarrow> EventPath" where
  "record_path r = \<lparr>evp_node = None, evp_endpoint = Some (er_endpoint r), evp_cluster = Some (er_cluster r),
     evp_event = Some (er_event r), evp_is_urgent = None\<rparr>"

definition record_matches :: "EventPath \<Rightarrow> EventRecord \<Rightarrow> bool" where
  "record_matches p r \<longleftrightarrow> wants (evp_endpoint p) (er_endpoint r) \<and> wants (evp_cluster p) (er_cluster r) \<and> wants (evp_event p) (er_event r)"

definition visible_to :: "FabricIndex option \<Rightarrow> EventRecord \<Rightarrow> bool" where
  "visible_to accessing r = (case er_fabric_index r of None \<Rightarrow> True | Some f \<Rightarrow> accessing = Some f)"

section \<open>The ring of one priority\<close>

record PriorityBuffer =
  pb_records :: "EventRecord list"
  pb_dropped :: u64

definition buffer_new :: PriorityBuffer where "buffer_new = \<lparr>pb_records = [], pb_dropped = 0\<rparr>"

text \<open>The last push cannot fail; what the source would do if it did is drop the record.\<close>

definition buffer_push :: "nat \<Rightarrow> EventRecord \<Rightarrow> PriorityBuffer \<Rightarrow> PriorityBuffer" where
  "buffer_push n r b =
     (if length (pb_records b) \<ge> n then
        if pb_records b = [] then b\<lparr>pb_dropped := saturating_add (pb_dropped b) 1\<rparr>
        else
          let rs = tl (pb_records b) in
          b\<lparr>pb_records := (case vec_push n rs r of None \<Rightarrow> rs | Some rs \<Rightarrow> rs), pb_dropped := saturating_add (pb_dropped b) 1\<rparr>
      else b\<lparr>pb_records := (case vec_push n (pb_records b) r of None \<Rightarrow> pb_records b | Some rs \<Rightarrow> rs)\<rparr>)"

definition buffer_prune_below :: "u64 \<Rightarrow> PriorityBuffer \<Rightarrow> PriorityBuffer" where
  "buffer_prune_below k b = b\<lparr>pb_records := filter (\<lambda>r. er_number r \<ge> k) (pb_records b)\<rparr>"

section \<open>The store\<close>

text \<open>The const generics \<^verbatim>\<open>C\<close>, \<^verbatim>\<open>I\<close> and \<^verbatim>\<open>D\<close>.\<close>

type_synonym EventSizes = "EventPriority \<Rightarrow> nat"

record EventStore =
  es_critical :: PriorityBuffer
  es_info :: PriorityBuffer
  es_debug :: PriorityBuffer
  es_numbers :: EventNumbers

datatype RecordError = NeedsReservation u64 | DataTooLong

definition store_new :: "EventNumbers \<Rightarrow> EventStore" where
  "store_new n = \<lparr>es_critical = buffer_new, es_info = buffer_new, es_debug = buffer_new, es_numbers = n\<rparr>"

definition store_reserved :: "u64 \<Rightarrow> EventStore \<Rightarrow> EventStore" where
  "store_reserved value s = s\<lparr>es_numbers := numbers_reserved value (es_numbers s)\<rparr>"

record NewEvent =
  ne_endpoint :: EndpointId
  ne_cluster :: ClusterId
  ne_event :: EventId
  ne_priority :: EventPriority
  ne_timestamp :: Timestamp
  ne_fabric_index :: "FabricIndex option"
  ne_data :: bytes

definition record_of :: "NewEvent \<Rightarrow> u64 \<Rightarrow> EventRecord" where
  "record_of e number = \<lparr>er_number = number, er_endpoint = ne_endpoint e, er_cluster = ne_cluster e, er_event = ne_event e,
     er_priority = ne_priority e, er_timestamp = ne_timestamp e, er_fabric_index = ne_fabric_index e, er_data = ne_data e\<rparr>"

definition store_record :: "EventSizes \<Rightarrow> NewEvent \<Rightarrow> EventStore \<Rightarrow> (RecordError + u64) \<times> EventStore" where
  "store_record size_of e s =
     (if length (ne_data e) > EVENT_DATA_MAX then (Inl DataTooLong, s)
      else case numbers_next (es_numbers s) of
        (None, n) \<Rightarrow>
          (Inl (NeedsReservation (case reservation n of Some owed \<Rightarrow> owed | None \<Rightarrow> saturating_add (numbers_peek n) NUMBER_RESERVATION)),
           s\<lparr>es_numbers := n\<rparr>)
      | (Some number, n) \<Rightarrow>
          let r = record_of e number; s = s\<lparr>es_numbers := n\<rparr> in
          (Inr number,
           case ne_priority e of
             Critical \<Rightarrow> s\<lparr>es_critical := buffer_push (size_of Critical) r (es_critical s)\<rparr>
           | Info \<Rightarrow> s\<lparr>es_info := buffer_push (size_of Info) r (es_info s)\<rparr>
           | Debug \<Rightarrow> s\<lparr>es_debug := buffer_push (size_of Debug) r (es_debug s)\<rparr>))"

fun store_buffer :: "EventPriority \<Rightarrow> EventStore \<Rightarrow> PriorityBuffer" where
  "store_buffer Critical s = es_critical s"
| "store_buffer Info s = es_info s"
| "store_buffer Debug s = es_debug s"

definition chained :: "EventStore \<Rightarrow> EventRecord list" where
  "chained s = pb_records (es_critical s) @ pb_records (es_info s) @ pb_records (es_debug s)"

text \<open>The loop of \<^verbatim>\<open>matching\<close>: it breaks when the vector of 64 is full.\<close>

definition MATCHING_MAX :: nat where "MATCHING_MAX = 64"

fun collect_matching :: "(EventRecord \<Rightarrow> bool) \<Rightarrow> EventRecord list \<Rightarrow> EventRecord list \<Rightarrow> EventRecord list" where
  "collect_matching p [] acc = acc"
| "collect_matching p (r # rs) acc =
     (if p r then (case vec_push MATCHING_MAX acc r of None \<Rightarrow> acc | Some acc \<Rightarrow> collect_matching p rs acc)
      else collect_matching p rs acc)"

text \<open>The numbers are distinct, so an unstable sort by number gives what a stable one gives.\<close>

definition store_matching :: "EventPath \<Rightarrow> FabricIndex option \<Rightarrow> u64 \<Rightarrow> EventStore \<Rightarrow> EventRecord list" where
  "store_matching path accessing min_number s =
     sort_key er_number (collect_matching (\<lambda>r. er_number r \<ge> min_number \<and> record_matches path r \<and> visible_to accessing r) (chained s) [])"

definition store_len :: "EventStore \<Rightarrow> nat" where
  "store_len s = length (pb_records (es_critical s)) + length (pb_records (es_info s)) + length (pb_records (es_debug s))"

definition store_prune_below :: "u64 \<Rightarrow> EventStore \<Rightarrow> EventStore" where
  "store_prune_below k s = s\<lparr>es_critical := buffer_prune_below k (es_critical s), es_info := buffer_prune_below k (es_info s),
     es_debug := buffer_prune_below k (es_debug s)\<rparr>"

text \<open>\<^verbatim>\<open>each_matching\<close> hands the records to a callback with a state of its own, until it says stop.\<close>

fun feed :: "(EventRecord \<Rightarrow> 'c \<Rightarrow> bool \<times> 'c) \<Rightarrow> EventRecord list \<Rightarrow> 'c \<Rightarrow> 'c" where
  "feed each [] c = c"
| "feed each (r # rs) c = (case each r c of (go_on, c) \<Rightarrow> if go_on then feed each rs c else c)"

definition each_matching :: "EventPath \<Rightarrow> FabricIndex option \<Rightarrow> u64 \<Rightarrow> (EventRecord \<Rightarrow> 'c \<Rightarrow> bool \<times> 'c) \<Rightarrow> EventStore \<Rightarrow> 'c \<Rightarrow> 'c" where
  "each_matching path accessing min_number each s = feed each (store_matching path accessing min_number s)"

fun greatest_of :: "'a::linorder list \<Rightarrow> 'a option" where
  "greatest_of [] = None"
| "greatest_of (x # xs) = Some (case greatest_of xs of None \<Rightarrow> x | Some y \<Rightarrow> max x y)"

definition highest_number :: "EventStore \<Rightarrow> u64 option" where
  "highest_number s = greatest_of (map er_number (chained s))"

section \<open>The numbers over a node's life\<close>

text \<open>What is durably stored, the counter in memory, and every number handed out so far.  A restart may come at any moment, also
  between the write of a reservation and its confirmation.\<close>

inductive numbers_life :: "u64 \<Rightarrow> EventNumbers \<Rightarrow> u64 list \<Rightarrow> bool" where
  first_boot: "numbers_life v (numbers_restore v) []"
| persisted: "numbers_life st n ks \<Longrightarrow> reservation n = Some owed \<Longrightarrow> numbers_life owed n ks"
| confirmed: "numbers_life st n ks \<Longrightarrow> v \<le> st \<Longrightarrow> numbers_life st (numbers_reserved v n) ks"
| handed_out: "numbers_life st n ks \<Longrightarrow> numbers_next n = (Some k, n') \<Longrightarrow> numbers_life st n' (ks @ [k])"
| restarted: "numbers_life st n ks \<Longrightarrow> numbers_life st (numbers_restore st) ks"

lemma saturating_add_mono: "a \<le> saturating_add a b" for a b :: "'a::len word"
proof -
  have "unat a \<le> 2 ^ LENGTH('a) - 1" using unat_lt_len [of a] by linarith
  then show ?thesis by (simp add: word_le_nat_alt unat_saturating_add)
qed

lemma numbers_next_Some:
  assumes "numbers_next n = (Some k, n')"
  shows "k = en_next n" "n' = n\<lparr>en_next := saturating_add (en_next n) 1\<rparr>" "en_next n < en_reserved_through n"
    "k < saturating_add k 1" "saturating_add k 1 \<le> en_reserved_through n"
proof -
  show k: "k = en_next n" "n' = n\<lparr>en_next := saturating_add (en_next n) 1\<rparr>" "en_next n < en_reserved_through n"
    using assms by (auto simp: numbers_next_def not_le split: if_splits)
  have "unat k < unat (en_reserved_through n)" using k by (simp add: word_less_nat_alt)
  moreover have "unat (en_reserved_through n) < 2 ^ 64" using unat_lt_len [of "en_reserved_through n"] by simp
  ultimately have "unat (saturating_add k 1) = unat k + 1" by (simp add: unat_saturating_add)
  then show "k < saturating_add k 1" "saturating_add k 1 \<le> en_reserved_through n"
    using \<open>unat k < unat (en_reserved_through n)\<close> by (simp_all add: word_less_nat_alt word_le_nat_alt)
qed

lemma numbers_life_inv:
  "numbers_life st n ks \<Longrightarrow> sorted_wrt (<) ks \<and> (\<forall>k \<in> set ks. k < en_next n) \<and> en_next n \<le> en_reserved_through n \<and> en_reserved_through n \<le> st"
proof (induction rule: numbers_life.induct)
  case (first_boot v)
  then show ?case by (simp add: numbers_restore_def)
next
  case (persisted st n ks owed)
  then have "en_reserved_through n \<le> en_next n" "owed = saturating_add (en_next n) NUMBER_RESERVATION" by (auto simp: reservation_def split: if_splits)
  then show ?case using persisted.IH saturating_add_mono order.trans by blast
next
  case (confirmed st n ks v)
  then show ?case by (auto simp: numbers_reserved_def)
next
  case (handed_out st n ks k n')
  note k = numbers_next_Some [OF handed_out.hyps(2)]
  have "k' < saturating_add k 1" if "k' \<in> set ks" for k' using handed_out.IH that k(1,4) order.strict_trans by blast
  then show ?case using handed_out.IH k by (auto simp: sorted_wrt_append)
next
  case (restarted st n ks)
  then have "\<forall>k \<in> set ks. k < st" using order.strict_trans2 order.trans by blast
  then show ?case using restarted.IH by (simp add: numbers_restore_def)
qed

text \<open>C19: Event numbers only ever go up.  Whatever the sequence of events, reservations and restarts, a restart between the write of a reservation and its
  confirmation included, the numbers handed out over the life of a node are strictly increasing; and a counter that owes a reservation hands out
  its next number once the reservation is stored and confirmed, as long as there is one.\<close>

theorem event_numbers_increase:
  assumes "numbers_life st n ks"
  shows "sorted_wrt (<) ks \<and> (\<forall>k \<in> set ks. k < en_next n)
    \<and> (\<forall>owed. reservation n = Some owed \<and> en_next n < - 1 \<longrightarrow>
        fst (numbers_next (numbers_reserved owed n)) = Some (en_next n) \<and> (\<forall>k \<in> set ks. k < en_next (numbers_restore owed)))"
proof -
  note i = numbers_life_inv [OF assms]
  have "fst (numbers_next (numbers_reserved owed n)) = Some (en_next n) \<and> (\<forall>k \<in> set ks. k < en_next (numbers_restore owed))"
    if r: "reservation n = Some owed" "en_next n < - 1" for owed
  proof -
    have o: "en_reserved_through n \<le> en_next n" "owed = saturating_add (en_next n) NUMBER_RESERVATION" using r(1) by (auto simp: reservation_def split: if_splits)
    have "unat (en_next n) < unat owed"
      using r(2) unfolding o(2) by (simp add: word_less_nat_alt unat_saturating_add unat_max_word NUMBER_RESERVATION_def)
    then have lt: "en_next n < owed" by (simp add: word_less_nat_alt)
    then have "fst (numbers_next (numbers_reserved owed n)) = Some (en_next n)" using o(1) i by (auto simp: numbers_next_def numbers_reserved_def)
    moreover have "\<forall>k \<in> set ks. k < en_next (numbers_restore owed)" using i lt order.strict_trans by (fastforce simp: numbers_restore_def)
    ultimately show ?thesis by blast
  qed
  then show ?thesis using i by blast
qed

section \<open>The log\<close>

text \<open>The abstract log: every record, in order, less what was pruned.\<close>

inductive log_reach :: "EventSizes \<Rightarrow> EventStore \<Rightarrow> EventRecord list \<Rightarrow> bool" for sizes where
  log_start: "log_reach sizes (store_new n) []"
| log_recorded: "log_reach sizes s h \<Longrightarrow> store_record sizes e s = (Inr k, s') \<Longrightarrow> log_reach sizes s' (h @ [record_of e k])"
| log_refused: "log_reach sizes s h \<Longrightarrow> store_record sizes e s = (Inl err, s') \<Longrightarrow> log_reach sizes s' h"
| log_reserved: "log_reach sizes s h \<Longrightarrow> log_reach sizes (store_reserved v s) h"
| log_pruned: "log_reach sizes s h \<Longrightarrow> log_reach sizes (store_prune_below k s) (filter (\<lambda>r. er_number r \<ge> k) h)"

definition last_n :: "nat \<Rightarrow> 'a list \<Rightarrow> 'a list" where "last_n n xs = drop (length xs - n) xs"

definition of_priority :: "EventPriority \<Rightarrow> EventRecord list \<Rightarrow> EventRecord list" where
  "of_priority p h = filter (\<lambda>r. er_priority r = p) h"

lemma last_n_snoc: "0 < n \<Longrightarrow> last_n n (xs @ [x]) = (if length xs < n then xs @ [x] else tl (last_n n xs) @ [x])"
  by (auto simp: last_n_def tl_drop drop_Suc [symmetric] Suc_diff_le)

lemma last_n_short [simp]: "length xs \<le> n \<Longrightarrow> last_n n xs = xs"
  by (simp add: last_n_def)

lemma length_last_n: "length (last_n n xs) = min n (length xs)"
  by (simp add: last_n_def)

lemma filter_last_n:
  assumes "sorted_wrt (\<lambda>a b. f a < (f b :: 'b::linorder)) xs"
  shows "filter (\<lambda>x. k \<le> f x) (last_n n xs) = last_n n (filter (\<lambda>x. k \<le> f x) xs)"
  using assms
proof (induction xs rule: rev_induct)
  case (snoc x xs)
  then have IH: "filter (\<lambda>x. k \<le> f x) (last_n n xs) = last_n n (filter (\<lambda>x. k \<le> f x) xs)" and lt: "\<And>y. y \<in> set xs \<Longrightarrow> f y < f x"
    by (auto simp: sorted_wrt_append)
  show ?case
  proof (cases "n = 0 \<or> f x < k")
    case True
    have "y \<in> set (last_n n (xs @ [x])) \<Longrightarrow> y \<in> set (xs @ [x])" for y unfolding last_n_def by (rule in_set_dropD)
    then have "filter (\<lambda>x. k \<le> f x) (last_n n (xs @ [x])) = []" "f x < k \<Longrightarrow> filter (\<lambda>x. k \<le> f x) (xs @ [x]) = []"
      using True lt by (fastforce simp: filter_empty_conv not_le last_n_def)+
    then show ?thesis using True by (auto simp: last_n_def)
  next
    case False
    then have n: "0 < n" "k \<le> f x" by auto
    show ?thesis
    proof (cases "length xs < n")
      case True
      then have "length (filter (\<lambda>x. k \<le> f x) xs) < n" using length_filter_le le_less_trans by blast
      then show ?thesis using True n by (simp add: last_n_snoc)
    next
      case False
      show ?thesis
      proof (cases "\<forall>y \<in> set (last_n n xs). k \<le> f y")
        case True
        then have "filter (\<lambda>x. k \<le> f x) (last_n n xs) = last_n n xs" by (simp add: filter_id_conv)
        moreover from this have "length (filter (\<lambda>x. k \<le> f x) xs) \<ge> n" using IH False length_last_n [of n xs] length_last_n [of n "filter (\<lambda>x. k \<le> f x) xs"] by simp
        moreover have "\<forall>y \<in> set (tl (last_n n xs)). k \<le> f y" using True by (cases "last_n n xs") auto
        ultimately show ?thesis using IH False n by (simp add: last_n_snoc filter_id_conv)
      next
        case some: False
        have s: "sorted_wrt (\<lambda>a b. f a < f b) (last_n n xs)" using snoc.prems by (simp add: last_n_def sorted_wrt_append sorted_wrt_drop)
        obtain z zs where z: "last_n n xs = z # zs" using False n(1) length_last_n [of n xs] by (cases "last_n n xs") auto
        have "\<not> k \<le> f z" using some s unfolding z by (fastforce simp: not_le)
        then have t: "filter (\<lambda>x. k \<le> f x) (tl (last_n n xs)) = filter (\<lambda>x. k \<le> f x) (last_n n xs)" by (simp add: z)
        have "length (filter (\<lambda>x. k \<le> f x) (last_n n xs)) < n"
          using some length_filter_less [of _ "last_n n xs" "\<lambda>x. k \<le> f x"] length_last_n [of n xs] by fastforce
        then have "length (filter (\<lambda>x. k \<le> f x) xs) < n" using IH length_last_n [of n "filter (\<lambda>x. k \<le> f x) xs"] by simp
        then show ?thesis using IH False n t by (simp add: last_n_snoc)
      qed
    qed
  qed
qed (simp add: last_n_def)

lemma buffer_push_last_n:
  assumes "pb_records b = last_n n xs"
  shows "pb_records (buffer_push n r b) = last_n n (xs @ [r])"
proof (cases "n = 0")
  case True
  then show ?thesis using assms by (simp add: buffer_push_def last_n_def)
next
  case False
  then have l: "length (pb_records b) = min n (length xs)" using assms by (simp add: length_last_n)
  show ?thesis
  proof (cases "length xs < n")
    case True
    then show ?thesis using assms l False by (simp add: buffer_push_def last_n_snoc vec_push_def)
  next
    case full: False
    then have "length (pb_records b) = n" "pb_records b \<noteq> []" using l False by auto
    then show ?thesis using assms full False by (simp add: buffer_push_def last_n_snoc vec_push_def Let_def)
  qed
qed

definition log_inv :: "EventSizes \<Rightarrow> EventStore \<Rightarrow> EventRecord list \<Rightarrow> bool" where
  "log_inv sizes s h \<longleftrightarrow> sorted_wrt (\<lambda>a b. er_number a < er_number b) h \<and> (\<forall>r \<in> set h. er_number r < en_next (es_numbers s))
     \<and> (\<forall>p. pb_records (store_buffer p s) = last_n (sizes p) (of_priority p h))"

lemma store_record_ok:
  assumes "store_record sizes e s = (Inr k, s')"
  shows "numbers_next (es_numbers s) = (Some k, es_numbers s')"
    "store_buffer p s' = (if p = ne_priority e then buffer_push (sizes p) (record_of e k) (store_buffer p s) else store_buffer p s)"
proof -
  obtain n where n: "numbers_next (es_numbers s) = (Some k, n)"
    using assms by (auto simp: store_record_def Let_def split: if_splits prod.splits option.splits)
  then show "numbers_next (es_numbers s) = (Some k, es_numbers s')"
    "store_buffer p s' = (if p = ne_priority e then buffer_push (sizes p) (record_of e k) (store_buffer p s) else store_buffer p s)"
    using assms by (cases "ne_priority e"; cases p; auto simp: store_record_def Let_def split: if_splits)+
qed

lemma store_record_refused:
  assumes "store_record sizes e s = (Inl err, s')"
  shows "store_buffer p s' = store_buffer p s" "en_next (es_numbers s') = en_next (es_numbers s)"
  using assms by (cases p; auto simp: store_record_def numbers_next_def Let_def split: if_splits)+

lemma store_prune_buffer: "store_buffer p (store_prune_below k s) = buffer_prune_below k (store_buffer p s)"
  by (cases p) (simp_all add: store_prune_below_def)

lemma of_priority_sorted: "sorted_wrt R h \<Longrightarrow> sorted_wrt R (of_priority p h)"
  by (simp add: of_priority_def sorted_wrt_filter)

lemma log_reach_inv: "log_reach sizes s h \<Longrightarrow> log_inv sizes s h"
proof (induction rule: log_reach.induct)
  case (log_start n)
  have "pb_records (store_buffer p (store_new n)) = []" for p by (cases p) (simp_all add: store_new_def buffer_new_def)
  then show ?case by (simp add: log_inv_def of_priority_def)
next
  case (log_recorded s h e k s')
  note ok = store_record_ok [OF log_recorded.hyps(2)] and k = numbers_next_Some [OF store_record_ok(1) [OF log_recorded.hyps(2)]]
  have r: "er_number (record_of e k) = k" "er_priority (record_of e k) = ne_priority e" by (simp_all add: record_of_def)
  have n: "en_next (es_numbers s') = saturating_add k 1" using k(1,2) by simp
  have "pb_records (store_buffer p s') = last_n (sizes p) (of_priority p (h @ [record_of e k]))" for p
    using log_recorded.IH buffer_push_last_n [of "store_buffer p s" "sizes p"] by (auto simp: ok(2) log_inv_def of_priority_def r)
  moreover have "er_number r' < en_next (es_numbers s')" if "r' \<in> set h" for r'
  proof -
    have "er_number r' < k" using log_recorded.IH that k(1) by (simp add: log_inv_def)
    then show ?thesis using k(4) unfolding n by (rule order.strict_trans)
  qed
  moreover have "er_number (record_of e k) < en_next (es_numbers s')" using k(4) unfolding n r .
  moreover have "sorted_wrt (\<lambda>a b. er_number a < er_number b) (h @ [record_of e k])"
    using log_recorded.IH unfolding log_inv_def k(1) [symmetric] by (simp add: sorted_wrt_append r)
  ultimately show ?case by (auto simp: log_inv_def)
next
  case (log_refused s h e err s')
  then show ?case using store_record_refused [OF log_refused.hyps(2)] by (simp add: log_inv_def)
next
  case (log_reserved s h v)
  moreover have "store_buffer p (store_reserved v s) = store_buffer p s" for p by (cases p) (simp_all add: store_reserved_def)
  moreover have "en_next (es_numbers (store_reserved v s)) = en_next (es_numbers s)" by (simp add: store_reserved_def numbers_reserved_def)
  ultimately show ?case by (simp add: log_inv_def)
next
  case (log_pruned s h k)
  have "pb_records (store_buffer p (store_prune_below k s)) = last_n (sizes p) (of_priority p (filter (\<lambda>r. k \<le> er_number r) h))" for p
  proof -
    have "pb_records (store_buffer p (store_prune_below k s)) = filter (\<lambda>r. k \<le> er_number r) (last_n (sizes p) (of_priority p h))"
      using log_pruned.IH by (simp add: store_prune_buffer buffer_prune_below_def log_inv_def)
    also have "\<dots> = last_n (sizes p) (filter (\<lambda>r. k \<le> er_number r) (of_priority p h))"
      using log_pruned.IH by (intro filter_last_n of_priority_sorted) (simp add: log_inv_def)
    also have "filter (\<lambda>r. k \<le> er_number r) (of_priority p h) = of_priority p (filter (\<lambda>r. k \<le> er_number r) h)"
      by (simp add: of_priority_def filter_filter conj_commute)
    finally show ?thesis .
  qed
  moreover have "es_numbers (store_prune_below k s) = es_numbers s" by (simp add: store_prune_below_def)
  ultimately show ?case using log_pruned.IH by (simp add: log_inv_def sorted_wrt_filter)
qed

text \<open>What a log of the given sizes still holds: a record is there unless that many newer ones of its own priority are.\<close>

definition held :: "EventSizes \<Rightarrow> EventRecord list \<Rightarrow> EventRecord list" where
  "held sizes h = filter (\<lambda>r. r \<in> set (last_n (sizes (er_priority r)) (of_priority (er_priority r) h))) h"

lemma collect_matching_take:
  "length acc \<le> MATCHING_MAX \<Longrightarrow> collect_matching P rs acc = acc @ take (MATCHING_MAX - length acc) (filter P rs)"
proof (induction rs arbitrary: acc)
  case (Cons r rs)
  show ?case
  proof (cases "P r \<and> length acc < MATCHING_MAX")
    case True
    then have "collect_matching P (r # rs) acc = (acc @ [r]) @ take (MATCHING_MAX - length (acc @ [r])) (filter P rs)"
      using Cons.IH [of "acc @ [r]"] by (simp add: vec_push_def)
    moreover have "MATCHING_MAX - length acc = Suc (MATCHING_MAX - length (acc @ [r]))" using True by (simp add: Suc_diff_Suc)
    ultimately show ?thesis using True by simp
  next
    case False
    then show ?thesis using Cons by (auto simp: vec_push_def)
  qed
qed simp

lemma held_chained:
  assumes "log_inv sizes s h"
  shows "mset (chained s) = mset (held sizes h)" "sorted_wrt (\<lambda>a b. er_number a < er_number b) (held sizes h)"
proof -
  have so: "sorted_wrt (\<lambda>a b. er_number a < er_number b) h" and b: "\<And>p. pb_records (store_buffer p s) = last_n (sizes p) (of_priority p h)"
    using assms by (simp_all add: log_inv_def)
  have "distinct xs" if "sorted_wrt (\<lambda>a b. er_number a < er_number b) xs" for xs
    using that by (induction xs) auto
  then have d: "distinct h" using so by blast
  have dp: "distinct (last_n n (of_priority p h))" "set (last_n n (of_priority p h)) \<subseteq> {r \<in> set h. er_priority r = p}" for n p
    using d set_drop_subset [of _ "of_priority p h"] by (auto simp: last_n_def of_priority_def)
  have c: "chained s = last_n (sizes Critical) (of_priority Critical h) @ last_n (sizes Info) (of_priority Info h) @ last_n (sizes Debug) (of_priority Debug h)"
    using b [of Critical] b [of Info] b [of Debug] by (simp add: chained_def)
  have dj: "p \<noteq> q \<Longrightarrow> set (last_n a (of_priority p h)) \<inter> set (last_n b (of_priority q h)) = {}" for a b p q
    using dp(2) [of a p] dp(2) [of b q] by blast
  have "distinct (chained s)" unfolding c distinct_append set_append Int_Un_distrib using dp(1) dj by simp
  moreover have "set (chained s) = set (held sizes h)"
  proof -
    have "r \<in> set (chained s) \<longleftrightarrow> r \<in> set h \<and> r \<in> set (last_n (sizes (er_priority r)) (of_priority (er_priority r) h))" for r
      unfolding c using dp(2) [of "sizes Critical" Critical] dp(2) [of "sizes Info" Info] dp(2) [of "sizes Debug" Debug]
      by (cases "er_priority r") (auto dest: subsetD)
    then show ?thesis by (auto simp: held_def)
  qed
  moreover have "distinct (held sizes h)" using d by (simp add: held_def)
  ultimately show "mset (chained s) = mset (held sizes h)" by (simp add: set_eq_iff_mset_eq_distinct)
  show "sorted_wrt (\<lambda>a b. er_number a < er_number b) (held sizes h)" using so by (simp add: held_def sorted_wrt_filter)
qed

text \<open>C17: The event store keeps the promise of its priorities and reads as the log it is.  After any events, reservations and prunings, each priority holds exactly
  the newest records of its own, as many as its ring has room for and however many of the others there were; and a reader gets, when at
  most 64 qualify, exactly the held records from its number on that its path names and its fabric may see, in the order they
  happened, each once.\<close>

theorem event_store_is_the_log:
  assumes "log_reach sizes s h"
  shows "pb_records (store_buffer p s) = last_n (sizes p) (of_priority p h)
    \<and> (length (filter (\<lambda>r. er_number r \<ge> k \<and> record_matches path r \<and> visible_to f r) (held sizes h)) \<le> MATCHING_MAX \<longrightarrow>
        store_matching path f k s = filter (\<lambda>r. er_number r \<ge> k \<and> record_matches path r \<and> visible_to f r) (held sizes h))
    \<and> sorted_wrt (\<lambda>a b. er_number a < er_number b) (held sizes h)"
proof -
  let ?P = "\<lambda>r. er_number r \<ge> k \<and> record_matches path r \<and> visible_to f r"
  note i = log_reach_inv [OF assms] and c = held_chained [OF log_reach_inv [OF assms]]
  have "store_matching path f k s = filter ?P (held sizes h)" if l: "length (filter ?P (held sizes h)) \<le> MATCHING_MAX"
  proof -
    have m: "mset (filter ?P (chained s)) = mset (filter ?P (held sizes h))" using c(1) by (simp only: mset_filter)
    then have "length (filter ?P (chained s)) \<le> MATCHING_MAX" using l mset_eq_length [OF m] by linarith
    then have e: "store_matching path f k s = sort_key er_number (filter ?P (chained s))"
      by (simp add: store_matching_def collect_matching_take)
    have so: "sorted_wrt (\<lambda>a b. er_number a < er_number b) (filter ?P (held sizes h))" using c(2) by (rule sorted_wrt_filter)
    have inj: "inj_on er_number (set xs) \<and> sorted (map er_number xs)" if "sorted_wrt (\<lambda>a b. er_number a < er_number b) xs" for xs
      using that by (induction xs) (auto simp: less_imp_le dest: order.strict_implies_not_eq)
    have "set (filter ?P (chained s)) = set (filter ?P (held sizes h))" using m by (rule mset_eq_setD)
    then have "inj_on er_number (set (filter ?P (chained s)))" using inj [OF so] by presburger
    from sort_key_inj_key_eq [OF m this] show ?thesis unfolding e using inj [OF so] by blast
  qed
  then show ?thesis using i c(2) by (auto simp: log_inv_def)
qed

text \<open>With 64 critical records that qualify, no record of another priority is reported, although the report carries numbers above theirs: a reader
  that goes on behind the last number it was given never sees them.\<close>

lemma matching_drops_lower_priorities:
  assumes "length (filter (\<lambda>r. er_number r \<ge> k \<and> record_matches path r \<and> visible_to f r) (pb_records (es_critical s))) \<ge> MATCHING_MAX"
  shows "set (store_matching path f k s) \<subseteq> set (pb_records (es_critical s))"
proof -
  have "store_matching path f k s = sort_key er_number (take MATCHING_MAX (filter (\<lambda>r. er_number r \<ge> k \<and> record_matches path r \<and> visible_to f r)
      (pb_records (es_critical s))))"
    using assms by (simp add: store_matching_def collect_matching_take chained_def)
  then show ?thesis by (auto dest: in_set_takeD)
qed

section \<open>Witnesses\<close>

theorem event_numbers_increase_witness: "sorted_wrt (<) [5 :: u64, 1005]"
proof -
  have 1: "numbers_life 5 (numbers_restore 5) []" by (rule numbers_life.first_boot)
  have r: "reservation (numbers_restore 5) = Some 1005" by (simp add: reservation_def numbers_restore_def NUMBER_RESERVATION_def saturating_add_def)
  have "numbers_life 1005 \<lparr>en_next = 5, en_reserved_through = 1005\<rparr> []"
    using numbers_life.confirmed [OF numbers_life.persisted [OF 1 r], of 1005] by (simp add: numbers_reserved_def numbers_restore_def)
  then have "numbers_life 1005 \<lparr>en_next = 6, en_reserved_through = 1005\<rparr> ([] @ [5])"
    by (rule numbers_life.handed_out) (simp add: numbers_next_def saturating_add_def)
  then have 2: "numbers_life 1005 (numbers_restore 1005) [5]" using numbers_life.restarted by fastforce
  have r: "reservation (numbers_restore 1005) = Some 2005" by (simp add: reservation_def numbers_restore_def NUMBER_RESERVATION_def saturating_add_def)
  have "numbers_life 2005 \<lparr>en_next = 1005, en_reserved_through = 2005\<rparr> [5]"
    using numbers_life.confirmed [OF numbers_life.persisted [OF 2 r], of 2005] by (simp add: numbers_reserved_def numbers_restore_def)
  then have "numbers_life 2005 \<lparr>en_next = 1006, en_reserved_through = 2005\<rparr> ([5] @ [1005])"
    by (rule numbers_life.handed_out) (simp add: numbers_next_def saturating_add_def)
  from event_numbers_increase [OF this] show ?thesis by simp
qed

definition demo_event :: NewEvent where
  "demo_event = \<lparr>ne_endpoint = 0, ne_cluster = 0x28, ne_event = 0, ne_priority = Critical, ne_timestamp = System 1, ne_fabric_index = None, ne_data = [0x15, 0x18]\<rparr>"

definition any_event :: EventPath where
  "any_event = \<lparr>evp_node = None, evp_endpoint = None, evp_cluster = None, evp_event = None, evp_is_urgent = None\<rparr>"

theorem event_store_is_the_log_witness:
  "\<exists>s. store_matching any_event (Some 1) 0 s = [record_of demo_event 5] \<and> log_reach (\<lambda>_. 2) s [record_of demo_event 5]"
proof -
  let ?s = "store_reserved 10 (store_new (numbers_restore 5))"
  have "log_reach (\<lambda>_. 2) ?s []" by (intro log_reach.log_reserved log_reach.log_start)
  moreover have "\<exists>s'. store_record (\<lambda>_. 2) demo_event ?s = (Inr 5, s')"
    by (simp add: store_record_def demo_event_def EVENT_DATA_MAX_def store_reserved_def store_new_def numbers_restore_def numbers_reserved_def
        numbers_next_def Let_def)
  ultimately obtain s' where r: "log_reach (\<lambda>_. 2) s' ([] @ [record_of demo_event 5])" using log_reach.log_recorded by blast
  have h: "held (\<lambda>_. 2) [record_of demo_event 5] = [record_of demo_event 5]" by (simp add: held_def of_priority_def)
  have m: "record_matches any_event (record_of demo_event 5)" "visible_to (Some 1) (record_of demo_event 5)"
    by (simp_all add: record_matches_def wants_def any_event_def visible_to_def record_of_def demo_event_def)
  from event_store_is_the_log [OF r, where k = 0 and path = any_event and f = "Some 1"] show ?thesis using r by (auto simp: h m MATCHING_MAX_def)
qed

end
