(* ===== verification/Dm_Version.thy ===== *)
theory Dm_Version
  imports Im_Subscription
begin

text \<open>
  Cluster data versions (\<^verbatim>\<open>src/src/dm/version.rs\<close>): the table of versions, the list of changed clusters, and, with the subscription table, the way from a
  change to the report of it.
\<close>

section \<open>Cluster data versions\<close>

record VersionEntry =
  ve_endpoint :: EndpointId
  ve_cluster :: ClusterId
  ve_version :: u32

record DataVersions =
  dv_entries :: "VersionEntry list"
  dv_seed :: u32
  dv_changed :: "(EndpointId \<times> ClusterId) list"

definition versions_new :: "u32 \<Rightarrow> DataVersions" where
  "versions_new seed = \<lparr>dv_entries = [], dv_seed = seed, dv_changed = []\<rparr>"

definition drain_changes :: "DataVersions \<Rightarrow> (EndpointId \<times> ClusterId) list \<times> DataVersions" where
  "drain_changes d = (dv_changed d, d\<lparr>dv_changed := []\<rparr>)"

definition next_seed :: "DataVersions \<Rightarrow> u32 \<times> DataVersions" where
  "next_seed d = (let seed = dv_seed d + 0x9E3779B9 in (seed, d\<lparr>dv_seed := seed\<rparr>))"

definition entry_at :: "EndpointId \<Rightarrow> ClusterId \<Rightarrow> VersionEntry \<Rightarrow> bool" where
  "entry_at e c v \<longleftrightarrow> ve_endpoint v = e \<and> ve_cluster v = c"

text \<open>The capacity \<^verbatim>\<open>N\<close> is the first argument.\<close>

definition data_version :: "nat \<Rightarrow> EndpointId \<Rightarrow> ClusterId \<Rightarrow> DataVersions \<Rightarrow> u32 \<times> DataVersions" where
  "data_version n e c d =
     (case List.find (entry_at e c) (dv_entries d) of
        Some v \<Rightarrow> (ve_version v, d)
      | None \<Rightarrow>
          let (v, d) = next_seed d in
          (v, case vec_push n (dv_entries d) \<lparr>ve_endpoint = e, ve_cluster = c, ve_version = v\<rparr> of None \<Rightarrow> d | Some es \<Rightarrow> d\<lparr>dv_entries := es\<rparr>))"

definition touch :: "nat \<Rightarrow> EndpointId \<Rightarrow> ClusterId \<Rightarrow> DataVersions \<Rightarrow> DataVersions" where
  "touch n e c d =
     (let d = (if (e, c) \<in> set (dv_changed d) then d
               else case vec_push n (dv_changed d) (e, c) of None \<Rightarrow> d | Some cs \<Rightarrow> d\<lparr>dv_changed := cs\<rparr>) in
      d\<lparr>dv_entries := update_first (entry_at e c) (\<lambda>v. v\<lparr>ve_version := ve_version v + 1\<rparr>) (dv_entries d)\<rparr>)"

text \<open>What can happen to the table.\<close>

datatype VersionOp = OpRead EndpointId ClusterId | OpTouch EndpointId ClusterId | OpDrain

primrec version_op :: "nat \<Rightarrow> VersionOp \<Rightarrow> DataVersions \<Rightarrow> DataVersions" where
  "version_op n (OpRead e c) d = snd (data_version n e c d)"
| "version_op n (OpTouch e c) d = touch n e c d"
| "version_op n OpDrain d = snd (drain_changes d)"

definition stored_version :: "EndpointId \<Rightarrow> ClusterId \<Rightarrow> DataVersions \<Rightarrow> u32 option" where
  "stored_version e c d = map_option ve_version (List.find (entry_at e c) (dv_entries d))"

lemma touch_stored:
  "stored_version e c (touch n e' c' d) = (if e' = e \<and> c' = c then map_option (\<lambda>v. v + 1) (stored_version e c d) else stored_version e c d)"
proof -
  have entries: "dv_entries (touch n e' c' d) = update_first (entry_at e' c') (\<lambda>v. v\<lparr>ve_version := ve_version v + 1\<rparr>) (dv_entries d)"
    by (simp add: touch_def Let_def split: option.split)
  show ?thesis
  proof (cases "e' = e \<and> c' = c")
    case True
    have "List.find (entry_at e c) (update_first (entry_at e c) f xs) = map_option f (List.find (entry_at e c) xs)"
      if "\<And>v. entry_at e c (f v) = entry_at e c v" for f xs using that by (induction xs) auto
    from this [of "\<lambda>v. v\<lparr>ve_version := ve_version v + 1\<rparr>"] show ?thesis
      using True unfolding stored_version_def entries by (simp add: entry_at_def option.map_comp o_def)
  next
    case False
    have "List.find (entry_at e c) (update_first (entry_at e' c') f xs) = List.find (entry_at e c) xs"
      if "\<And>v. entry_at e c (f v) = entry_at e c v" for f xs
      using that False by (induction xs) (auto simp: entry_at_def)
    from this [of "\<lambda>v. v\<lparr>ve_version := ve_version v + 1\<rparr>"] show ?thesis
      using False unfolding stored_version_def entries by (auto simp: entry_at_def)
  qed
qed

lemma read_stored: "stored_version e c d = Some v \<Longrightarrow> stored_version e c (snd (data_version n e' c' d)) = Some v"
  by (auto simp: stored_version_def data_version_def next_seed_def Let_def find_append vec_push_def split: option.splits)

lemma version_ops_stored:
  "stored_version e c d = Some v \<Longrightarrow>
   stored_version e c (fold (version_op n) ops d) = Some (v + word_of_nat (length (filter (\<lambda>x. x = OpTouch e c) ops)))"
proof (induction ops arbitrary: d v)
  case (Cons x ops)
  have "stored_version e c (version_op n x d) = Some (if x = OpTouch e c then v + 1 else v)"
    using Cons.prems read_stored [OF Cons.prems] by (cases x) (auto simp: touch_stored, auto simp: drain_changes_def stored_version_def)
  from Cons.IH [OF this] show ?case by (simp add: add.assoc)
qed simp

text \<open>C36: A data version counts the changes of its cluster, nothing else.  Once a cluster's version has been read and the table had room for it, after
  any reads, changes and drains of any clusters, a read gives that version plus the number of changes of this cluster in between, modulo \<open>2 ^ 32\<close>: a client whose
  version still matches has missed no change short of \<open>2 ^ 32\<close> of them, and an unchanged cluster keeps its version.\<close>

theorem data_version_counts_changes:
  assumes "data_version n e c d = (v, d')" and "List.find (entry_at e c) (dv_entries d) \<noteq> None \<or> length (dv_entries d) < n"
  shows "fst (data_version n e c (fold (version_op n) ops d')) = v + word_of_nat (length (filter (\<lambda>x. x = OpTouch e c) ops))"
proof -
  have "stored_version e c d' = Some v"
    using assms by (auto simp: stored_version_def data_version_def next_seed_def Let_def find_append vec_push_def entry_at_def split: option.splits)
  from version_ops_stored [OF this, of n ops] show ?thesis by (auto simp: stored_version_def data_version_def split: option.splits)
qed

section \<open>From a change to a report\<close>

definition note_drained :: "(EndpointId \<times> ClusterId) list \<Rightarrow> SubscriptionTable \<Rightarrow> SubscriptionTable" where
  "note_drained cs t = fold (\<lambda>(e, c) t. snd (note_cluster_change e c t)) cs t"

lemma touch_changed: "dv_changed (touch n e c d) = (if (e, c) \<in> set (dv_changed d) \<or> n \<le> length (dv_changed d) then dv_changed d else dv_changed d @ [(e, c)])"
  by (auto simp: touch_def Let_def vec_push_def)

definition not_drain :: "VersionOp \<Rightarrow> bool" where "not_drain x \<longleftrightarrow> x \<noteq> OpDrain"

definition touched_in :: "VersionOp list \<Rightarrow> (EndpointId \<times> ClusterId) set" where
  "touched_in ops = {(e, c). OpTouch e c \<in> set ops}"

lemma read_changed [simp]: "dv_changed (snd (data_version n e c d)) = dv_changed d"
  by (auto simp: data_version_def next_seed_def Let_def split: option.splits)

lemma ops_changed:
  assumes "OpDrain \<notin> set ops" and "distinct (dv_changed d)" and "card (set (dv_changed d) \<union> touched_in ops) \<le> n"
  shows "set (dv_changed (fold (version_op n) ops d)) = set (dv_changed d) \<union> touched_in ops \<and> distinct (dv_changed (fold (version_op n) ops d))"
  using assms
proof (induction ops arbitrary: d)
  case (Cons x ops)
  let ?d = "version_op n x d"
  have fin: "finite (touched_in xs)" for xs
  proof -
    have "touched_in xs \<subseteq> (\<lambda>y. case y of OpTouch e c \<Rightarrow> (e, c) | _ \<Rightarrow> undefined) ` set xs" by (force simp: touched_in_def)
    then show ?thesis by (rule finite_subset) simp
  qed
  have step: "set (dv_changed ?d) \<union> touched_in ops = set (dv_changed d) \<union> touched_in (x # ops) \<and> distinct (dv_changed ?d)"
  proof (cases x)
    case (OpRead e c)
    then show ?thesis using Cons.prems by (simp add: touched_in_def)
  next
    case (OpTouch e c)
    have "length (dv_changed d) < n" if "(e, c) \<notin> set (dv_changed d)"
    proof -
      have "Suc (card (set (dv_changed d))) = card (insert (e, c) (set (dv_changed d)))" using that by simp
      also have "\<dots> \<le> card (set (dv_changed d) \<union> touched_in (x # ops))"
        by (rule card_mono) (auto simp: fin OpTouch touched_in_def [of "OpTouch e c # ops"])
      finally show ?thesis using Cons.prems(2,3) by (simp add: distinct_card)
    qed
    then show ?thesis using OpTouch Cons.prems(2) by (auto simp: touch_changed touched_in_def)
  next
    case OpDrain
    then show ?thesis using Cons.prems(1) by simp
  qed
  then show ?case using Cons.IH [of ?d] Cons.prems by simp
qed (simp add: touched_in_def)


lemma note_drained_subs:
  "tb_subscriptions (note_drained cs t) = map (\<lambda>s. fold sub_step (map (\<lambda>(e, c). SCluster e c) cs) s) (tb_subscriptions t)"
  by (induction cs arbitrary: t) (auto simp: note_drained_def note_cluster_change_def for_each_def)

text \<open>C18: A change of a cluster reaches everyone who subscribed to it.  Whatever clusters change and are read between two drains, as long as no more of them change than the
  table can name: once the drained changes are handed to the subscription table, every subscription with a path into a changed cluster owes a report
  that carries that path or everything, due from its minimum interval on, and nothing is left for the next drain.\<close>

theorem changed_cluster_reaches_subscribers:
  assumes "OpDrain \<notin> set ops" and "dv_changed d = []" and "card (touched_in ops) \<le> n" and "OpTouch e c \<in> set ops"
    and "i < length (tb_subscriptions t)" and "q \<in> set (sub_paths (tb_subscriptions t ! i))" and "intersect_cluster q e c = Some p"
    and dr: "drain_changes (fold (version_op n) ops d) = (cs, d')"
  shows "owes p (sub_dirty (tb_subscriptions (note_drained cs t) ! i)) \<and> dv_changed d' = [] \<and> distinct cs
    \<and> (\<forall>now \<ge> earliest_report (tb_subscriptions (note_drained cs t) ! i). sub_due now (tb_subscriptions (note_drained cs t) ! i) = Some DataReport)"
proof -
  let ?s = "tb_subscriptions t ! i" and ?es = "map (\<lambda>(e, c). SCluster e c) cs"
  have "set cs = touched_in ops" "distinct cs" "dv_changed d' = []"
    using ops_changed [OF assms(1), of d n] assms(2,3) dr by (auto simp: drain_changes_def)
  then have "(e, c) \<in> set cs" using assms(4) by (simp add: touched_in_def)
  then obtain as bs where es: "?es = as @ SCluster e c # bs" by (metis (mono_tags, lifting) case_prod_conv in_set_conv_decomp list.set_map image_eqI)
  let ?s1 = "fold sub_step as ?s"
  have paths: "sub_paths (fold sub_step xs x) = sub_paths x" for xs x by (induction xs arbitrary: x) simp_all
  have "p \<in> set (List.map_filter (\<lambda>q. intersect_cluster q e c) (sub_paths ?s1))" using assms(6,7) by (auto simp: map_filter_mem paths)
  then have "owes p (sub_dirty (sub_step (SCluster e c) ?s1))" by (simp add: sub_note_cluster_def Let_def owes_all)
  then have o: "owes p (sub_dirty (fold sub_step ?es ?s))" unfolding es using sub_run_owes by simp
  then have "has_pending (fold sub_step ?es ?s)" by (auto simp: has_pending_def is_dirty_def owes_def must_reprime_def)
  then have "\<forall>now \<ge> earliest_report (fold sub_step ?es ?s). sub_due now (fold sub_step ?es ?s) = Some DataReport" by (simp add: sub_due_def)
  then show ?thesis using o \<open>distinct cs\<close> \<open>dv_changed d' = []\<close> assms(5) by (simp add: note_drained_subs)
qed

section \<open>Witnesses\<close>

theorem data_version_counts_changes_witness:
  "fst (data_version 4 1 6 (fold (version_op 4) [OpTouch 1 6, OpRead 0 40, OpTouch 1 8, OpDrain, OpTouch 1 6] (snd (data_version 4 1 6 (versions_new 7)))))
    = fst (data_version 4 1 6 (versions_new 7)) + 2"
  using data_version_counts_changes [of 4 1 6 "versions_new 7" "fst (data_version 4 1 6 (versions_new 7))" "snd (data_version 4 1 6 (versions_new 7))"
      "[OpTouch 1 6, OpRead 0 40, OpTouch 1 8, OpDrain, OpTouch 1 6]"]
  by (simp add: versions_new_def)

theorem changed_cluster_reaches_subscribers_witness:
  "owes onoff_path (sub_dirty (tb_subscriptions (note_drained [(1, 6)] \<lparr>tb_subscriptions = [subscription_of onoff_request 1 0], tb_last_id = 1\<rparr>) ! 0))"
proof -
  have "touched_in [OpTouch 1 6] = {(1, 6)}" by (auto simp: touched_in_def)
  then have c: "card (touched_in [OpTouch 1 6]) \<le> 4" by simp
  have p: "onoff_path \<in> set (sub_paths (subscription_of onoff_request 1 0))" by (simp add: subscription_of_def onoff_request_def)
  have o: "intersect_cluster onoff_path 1 6 = Some onoff_path" by (simp add: intersect_cluster_def onoff_path_def)
  have d: "drain_changes (fold (version_op 4) [OpTouch 1 6] (versions_new 7)) = ([(1, 6)], (touch 4 1 6 (versions_new 7))\<lparr>dv_changed := []\<rparr>)"
    by (simp add: drain_changes_def touch_changed) (simp add: versions_new_def)
  show ?thesis
    using changed_cluster_reaches_subscribers [OF _ _ c _ _ _ o d, where i = 0
        and t = "\<lparr>tb_subscriptions = [subscription_of onoff_request 1 0], tb_last_id = 1\<rparr>"] p
    by (simp add: versions_new_def)
qed

end
