(* ===== verification/Transport_Tcp.thy ===== *)
theory Transport_Tcp
  imports Sc_Status
begin

text \<open>
  Matter over TCP (\<^verbatim>\<open>src/src/transport/tcp.rs\<close>): the framer that makes messages of a stream of octets again, the
  prefix a sender puts before each and the report sent before a connection is closed.  \<open>N\<close>, the framer's const
  parameter, is the largest message it accepts.  \<open>frames\<close> is the reference: what a stream says, read as a whole.
  \<open>drive\<close> is the reader that offers what a read gave, polls after every push and offers the rest; the loop of the
  module's documentation polls until nothing is left, which drops the message handed out and changes
  nothing else (\<open>poll_again\<close>).
\<close>

section \<open>The framer\<close>

definition LENGTH_PREFIX :: nat where "LENGTH_PREFIX = 4"

datatype Framed = Message bytes | Incomplete nat

record Framer =
  fm_body :: bytes
  fm_prefix :: bytes
  fm_expecting :: "nat option"
  fm_failed :: bool
  fm_taken :: bool

definition framer_new :: Framer where
  "framer_new = \<lparr>fm_body = [], fm_prefix = [], fm_expecting = None, fm_failed = False, fm_taken = False\<rparr>"

definition fm_buffered :: "Framer \<Rightarrow> nat" where
  "fm_buffered f = (if fm_taken f then 0 else length (fm_body f) + length (fm_prefix f))"

definition fm_guard :: "Framer \<Rightarrow> unit result" where
  "fm_guard f = (if fm_failed f then Inl MessageTooLarge else Inr ())"

definition fm_drain :: "Framer \<Rightarrow> Framer" where
  "fm_drain f = (if \<not> fm_taken f then f else f\<lparr>fm_taken := False, fm_body := [], fm_expecting := None\<rparr>)"

text \<open>\<^verbatim>\<open>heapless::Vec::extend_from_slice\<close>.\<close>

definition vec_extend :: "nat \<Rightarrow> 'a list \<Rightarrow> 'a list \<Rightarrow> 'a list option" where
  "vec_extend cap xs ys = (if length xs + length ys \<le> cap then Some (xs @ ys) else None)"

definition take_body :: "nat \<Rightarrow> bytes \<Rightarrow> nat \<Rightarrow> (Framer, nat) mutator" where
  "take_body N bs len f =
     (let n = min (len - length (fm_body f)) (length bs) in
      case slice_get bs 0 n of
        None \<Rightarrow> (Inr 0, f)
      | Some chunk \<Rightarrow>
          (case vec_extend N (fm_body f) chunk of
             None \<Rightarrow> (Inl BufferTooSmall, f)
           | Some body \<Rightarrow> (Inr n, f\<lparr>fm_body := body\<rparr>)))"

definition take_prefix :: "nat \<Rightarrow> bytes \<Rightarrow> (Framer, nat) mutator" where
  "take_prefix N bs f =
     (let n = min (LENGTH_PREFIX - length (fm_prefix f)) (length bs) in
      case slice_get bs 0 n of
        None \<Rightarrow> (Inr 0, f)
      | Some chunk \<Rightarrow>
          (case vec_extend LENGTH_PREFIX (fm_prefix f) chunk of
             None \<Rightarrow> (Inl BufferTooSmall, f)
           | Some prefix \<Rightarrow>
               let f = f\<lparr>fm_prefix := prefix\<rparr> in
               if length prefix < LENGTH_PREFIX then (Inr n, f)
               else if length prefix \<noteq> LENGTH_PREFIX then (Inl BufferTooSmall, f)
               else
                 let f = f\<lparr>fm_prefix := []\<rparr>; len = unat (u32_from prefix) in
                 if len = 0 \<or> len > N then (Inl MessageTooLarge, f\<lparr>fm_failed := True\<rparr>)
                 else (Inr n, f\<lparr>fm_expecting := Some len\<rparr>)))"

function push_loop :: "nat \<Rightarrow> bytes \<Rightarrow> nat \<Rightarrow> (Framer, nat) mutator" where
  "push_loop N rest consumed f =
     (if rest = [] then (Inr consumed, f)
      else case (case fm_expecting f of None \<Rightarrow> take_prefix N rest f | Some len \<Rightarrow> take_body N rest len f) of
        (Inl e, f) \<Rightarrow> (Inl e, f)
      | (Inr took, f) \<Rightarrow> if took = 0 then (Inr consumed, f) else push_loop N (drop took rest) (consumed + took) f)"
  by auto
termination by (relation "measure (\<lambda>(N, rest, consumed, f). length rest)") auto

declare push_loop.simps [simp del]

definition fm_push :: "nat \<Rightarrow> bytes \<Rightarrow> (Framer, nat) mutator" where
  "fm_push N bs f = (case fm_guard f of Inl e \<Rightarrow> (Inl e, f) | Inr _ \<Rightarrow> push_loop N bs 0 (fm_drain f))"

definition fm_poll :: "(Framer, Framed) mutator" where
  "fm_poll f =
     (case fm_guard f of
        Inl e \<Rightarrow> (Inl e, f)
      | Inr _ \<Rightarrow>
          let f = fm_drain f in
          (case fm_expecting f of
             None \<Rightarrow> (Inr (Incomplete (LENGTH_PREFIX - length (fm_prefix f))), f)
           | Some len \<Rightarrow>
               if length (fm_body f) < len then (Inr (Incomplete (len - length (fm_body f))), f)
               else (Inr (Message (fm_body f)), f\<lparr>fm_taken := True\<rparr>)))"

definition tcp_frame :: "bytes \<Rightarrow> bytes \<Rightarrow> bytes result \<times> bytes" where
  "tcp_frame message buf =
     (case usize_checked_add LENGTH_PREFIX (length message) of
        None \<Rightarrow> (Inl MessageTooLarge, buf)
      | Some t \<Rightarrow>
          if t > length buf then (Inl BufferTooSmall, buf)
          else if length message \<ge> 2 ^ 32 then (Inl MessageTooLarge, buf)
          else
            let buf = overwrite buf 0 (u32_bytes (word_of_nat (length message)));
                buf = overwrite buf LENGTH_PREFIX message in
            (ok_or BufferTooSmall (slice_get buf 0 t), buf))"

definition too_large :: "bytes \<Rightarrow> bytes result \<times> bytes" where
  "too_large buf =
     (case report_encode \<lparr>sr_general = GcMessageTooLarge, sr_protocol = SECURE_CHANNEL, sr_protocol_code = 0, sr_data = []\<rparr> buf of
        (Inl e, buf) \<Rightarrow> (Inl e, buf)
      | (Inr written, buf) \<Rightarrow> (ok_or BufferTooSmall (slice_get buf 0 written), buf))"

section \<open>What a stream says\<close>

text \<open>The reference: the messages of a stream of octets, what is left of it, and whether it lost its framing.\<close>

function frames :: "nat \<Rightarrow> bytes \<Rightarrow> bytes list \<times> bytes \<times> bool" where
  "frames N bs =
     (if length bs < 4 then ([], bs, False)
      else let len = from_le (take 4 bs) in
        if len = 0 \<or> len > N then ([], bs, True)
        else if length bs < 4 + len then ([], bs, False)
        else let (ms, rest, bad) = frames N (drop (4 + len) bs) in (take len (drop 4 bs) # ms, rest, bad))"
  by auto
termination by (relation "measure (\<lambda>(N, bs). length bs)") auto

declare frames.simps [simp del]

definition fm_ok :: "nat \<Rightarrow> Framer \<Rightarrow> bool" where
  "fm_ok N f \<longleftrightarrow> \<not> fm_failed f
     \<and> (case fm_expecting f of
          None \<Rightarrow> fm_body f = [] \<and> length (fm_prefix f) < 4 \<and> \<not> fm_taken f
        | Some len \<Rightarrow> fm_prefix f = [] \<and> 0 < len \<and> len \<le> N \<and> len < 2 ^ 32 \<and> length (fm_body f) \<le> len
            \<and> (fm_taken f \<longrightarrow> length (fm_body f) = len))"

text \<open>What the framer has of the stream and has not handed out.\<close>

definition fm_held :: "Framer \<Rightarrow> bytes" where
  "fm_held f = (if fm_taken f then []
     else case fm_expecting f of None \<Rightarrow> fm_prefix f | Some len \<Rightarrow> to_le 4 len @ fm_body f)"

lemma drain_ok: "fm_ok N f \<Longrightarrow> fm_ok N (fm_drain f) \<and> \<not> fm_taken (fm_drain f) \<and> fm_held (fm_drain f) = fm_held f"
  by (auto simp: fm_ok_def fm_drain_def fm_held_def split: option.splits)

lemma body_step:
  assumes "fm_ok N f" and "\<not> fm_taken f" and "fm_expecting f = Some len"
  shows "take_body N bs len f = (Inr (min (len - length (fm_body f)) (length bs)), f\<lparr>fm_body := fm_body f @ take (len - length (fm_body f)) bs\<rparr>)"
proof -
  have b: "length (fm_body f) \<le> len" "len \<le> N" using assms by (auto simp: fm_ok_def)
  have "take (min (len - length (fm_body f)) (length bs)) bs = take (len - length (fm_body f)) bs" by (simp add: min_def)
  moreover have "length (fm_body f) + min (len - length (fm_body f)) (length bs) \<le> N" using b by simp
  ultimately show ?thesis by (simp add: take_body_def slice_get_def vec_extend_def Let_def min.commute)
qed

text \<open>The framer in the middle of a message, or behind it.\<close>

definition collecting :: "nat \<Rightarrow> bytes \<Rightarrow> Framer" where
  "collecting len body = \<lparr>fm_body = body, fm_prefix = [], fm_expecting = Some len, fm_failed = False, fm_taken = False\<rparr>"

lemma push_body:
  assumes "0 < len" and "len \<le> N" and "len < 2 ^ 32" and "length body \<le> len"
  shows "push_loop N rest consumed (collecting len body)
    = (Inr (consumed + min (len - length body) (length rest)), collecting len (body @ take (len - length body) rest))"
proof (cases "rest = [] \<or> length body = len")
  case True
  have "take_body N rest len (collecting len body) = (Inr (min (len - length body) (length rest)), collecting len (body @ take (len - length body) rest))"
    using body_step [of N "collecting len body"] assms by (simp add: fm_ok_def collecting_def)
  then show ?thesis using True by (auto simp: push_loop.simps [of N rest] collecting_def)
next
  case False
  let ?n = "min (len - length body) (length rest)" and ?b = "body @ take (len - length body) rest"
  obtain k where k: "?n = Suc k" using False assms(4) by (metis diff_is_0_eq gr0_conv_Suc length_0_conv le_antisym min_def neq0_conv)
  have ok: "fm_ok N (collecting len b)" if "length b \<le> len" for b using assms that by (simp add: fm_ok_def collecting_def)
  have "take_body N rest len (collecting len body) = (Inr ?n, collecting len ?b)"
    using body_step [OF ok [OF assms(4)], of len] by (simp add: collecting_def)
  then have "push_loop N rest consumed (collecting len body) = push_loop N (drop ?n rest) (consumed + ?n) (collecting len ?b)"
    using False k by (subst push_loop.simps) (simp add: collecting_def)
  also have "\<dots> = (Inr (consumed + ?n), collecting len ?b)"
  proof (cases "drop ?n rest = []")
    case False
    then have l: "length ?b = len" using assms(4) by (auto simp: min_def split: if_splits)
    then have "take_body N (drop ?n rest) len (collecting len ?b) = (Inr 0, collecting len ?b)"
      using body_step [OF ok, of ?b len "drop ?n rest"] by (simp add: collecting_def)
    then show ?thesis using False by (subst push_loop.simps) (simp add: collecting_def)
  qed (simp add: push_loop.simps)
  finally show ?thesis .
qed

definition prefixing :: "bytes \<Rightarrow> Framer" where
  "prefixing p = \<lparr>fm_body = [], fm_prefix = p, fm_expecting = None, fm_failed = False, fm_taken = False\<rparr>"

lemma from_le_4: "length p = 4 \<Longrightarrow> unat (u32_from p) = from_le p \<and> from_le p < 2 ^ 32"
  using from_le_bound [of p] by (simp add: u32_from_def unat_of_nat_small)

lemma push_prefix:
  assumes "length p < 4" and bs: "bs = p @ rest"
  shows "push_loop N rest consumed (prefixing p) =
    (if length bs < 4 then (Inr (consumed + length rest), prefixing bs)
     else let len = from_le (take 4 bs) in
       if len = 0 \<or> len > N then (Inl MessageTooLarge, (prefixing [])\<lparr>fm_failed := True\<rparr>)
       else push_loop N (drop (4 - length p) rest) (consumed + (4 - length p)) (collecting len []))"
proof (cases "rest = []")
  case True
  then show ?thesis using assms by (simp add: push_loop.simps)
next
  case ne: False
  let ?n = "min (4 - length p) (length rest)"
  have n: "?n \<noteq> 0" using ne assms(1) by auto
  show ?thesis
  proof (cases "length bs < 4")
    case True
    then have "take_prefix N rest (prefixing p) = (Inr (length rest), prefixing bs)"
      using bs by (simp add: take_prefix_def prefixing_def LENGTH_PREFIX_def slice_get_def vec_extend_def Let_def)
    then show ?thesis using True ne by (subst push_loop.simps) (simp add: prefixing_def push_loop.simps [of N "[]"])
  next
    case False
    then have l: "?n = 4 - length p" "p @ take (4 - length p) rest = take 4 bs" "length (take 4 bs) = 4"
      using bs assms(1) by auto
    note f = from_le_4 [OF l(3)]
    have c: "slice_get rest 0 ?n = Some (take (4 - length p) rest)" using l(1) by (simp add: slice_get_def)
    have e: "vec_extend LENGTH_PREFIX p (take (4 - length p) rest) = Some (take 4 bs)"
      using l assms(1) bs False unfolding vec_extend_def LENGTH_PREFIX_def by auto
    have "take_prefix N rest (prefixing p) = (if from_le (take 4 bs) = 0 \<or> from_le (take 4 bs) > N then (Inl MessageTooLarge, (prefixing [])\<lparr>fm_failed := True\<rparr>)
        else (Inr (4 - length p), collecting (from_le (take 4 bs)) []))"
      using l(1,3) f c e by (simp add: take_prefix_def prefixing_def collecting_def LENGTH_PREFIX_def Let_def)
    then show ?thesis using False ne assms(1) by (subst push_loop.simps) (simp add: prefixing_def Let_def)
  qed
qed

section \<open>A connection\<close>

text \<open>The reader's loop: offer what was read, draw out a message, offer the rest.\<close>

fun drive :: "nat \<Rightarrow> nat \<Rightarrow> bytes \<Rightarrow> Framer \<Rightarrow> (bytes list \<times> ErrorCode option \<times> Framer) option" where
  "drive 0 N rest f = None"
| "drive (Suc n) N rest f =
     (if rest = [] then Some ([], None, f)
      else case fm_push N rest f of
        (Inl e, f) \<Rightarrow> Some ([], Some e, f)
      | (Inr k, f) \<Rightarrow>
          (case fm_poll f of
             (Inl e, f) \<Rightarrow> Some ([], Some e, f)
           | (Inr (Message m), f) \<Rightarrow> map_option (\<lambda>(ms, r). (m # ms, r)) (drive n N (drop k rest) f)
           | (Inr (Incomplete _), f) \<Rightarrow> drive n N (drop k rest) f))"

fun drive_all :: "nat \<Rightarrow> nat \<Rightarrow> bytes list \<Rightarrow> Framer \<Rightarrow> (bytes list \<times> ErrorCode option \<times> Framer) option" where
  "drive_all n N [] f = Some ([], None, f)"
| "drive_all n N (c # cs) f =
     (case drive n N c f of
        None \<Rightarrow> None
      | Some (ms, Some e, f) \<Rightarrow> Some (ms, Some e, f)
      | Some (ms, None, f) \<Rightarrow> map_option (\<lambda>(ms', r). (ms @ ms', r)) (drive_all n N cs f))"

text \<open>Between two reads: a message handed out, or one not yet complete.\<close>

definition fm_idle :: "nat \<Rightarrow> Framer \<Rightarrow> bool" where
  "fm_idle N f \<longleftrightarrow> fm_ok N f \<and> (\<not> fm_taken f \<longrightarrow> (\<forall>len. fm_expecting f = Some len \<longrightarrow> length (fm_body f) < len))"

lemma held_collecting [simp]: "fm_held (collecting len body) = to_le 4 len @ body" "fm_held (prefixing p) = p"
  by (simp_all add: fm_held_def collecting_def prefixing_def)

lemma idle_cases:
  assumes "fm_idle N f"
  obtains (prefix) p where "fm_drain f = prefixing p" "length p < 4" "fm_held f = p"
  | (body) len b where "fm_drain f = collecting len b" "0 < len" "len \<le> N" "len < 2 ^ 32" "length b < len" "fm_held f = to_le 4 len @ b"
proof (cases "fm_taken f")
  case True
  then have "fm_drain f = prefixing []" "fm_held f = []" using assms
    by (cases f; auto simp: fm_idle_def fm_ok_def fm_drain_def prefixing_def fm_held_def split: option.splits)+
  then show ?thesis using prefix by force
next
  case False
  show ?thesis
  proof (cases "fm_expecting f")
    case None
    then have "fm_drain f = prefixing (fm_prefix f)" "length (fm_prefix f) < 4" "fm_held f = fm_prefix f" using assms False
      by (cases f; simp add: fm_idle_def fm_ok_def fm_drain_def prefixing_def fm_held_def)+
    then show ?thesis by (rule prefix)
  next
    case (Some len)
    then have "fm_drain f = collecting len (fm_body f)" "0 < len" "len \<le> N" "len < 2 ^ 32" "length (fm_body f) < len"
      "fm_held f = to_le 4 len @ fm_body f" using assms False
      by (cases f; simp add: fm_idle_def fm_ok_def fm_drain_def collecting_def fm_held_def)+
    then show ?thesis by (rule body)
  qed
qed

lemma poll_collecting:
  assumes "0 < len" and "len \<le> N" and "len < 2 ^ 32" and "length b \<le> len"
  shows "length b < len \<Longrightarrow> fm_poll (collecting len b) = (Inr (Incomplete (len - length b)), collecting len b) \<and> fm_idle N (collecting len b)"
    and "length b = len \<Longrightarrow> fm_poll (collecting len b) = (Inr (Message b), (collecting len b)\<lparr>fm_taken := True\<rparr>)
      \<and> fm_idle N ((collecting len b)\<lparr>fm_taken := True\<rparr>) \<and> fm_held ((collecting len b)\<lparr>fm_taken := True\<rparr>) = []"
  using assms by (auto simp: fm_poll_def fm_guard_def fm_drain_def collecting_def fm_idle_def fm_ok_def fm_held_def)

lemma poll_prefixing:
  "length p < 4 \<Longrightarrow> fm_poll (prefixing p) = (Inr (Incomplete (4 - length p)), prefixing p) \<and> fm_idle N (prefixing p)"
  by (simp add: fm_poll_def fm_guard_def fm_drain_def prefixing_def fm_idle_def fm_ok_def LENGTH_PREFIX_def)

text \<open>One round of the loop, against what the octets say.\<close>

inductive round_result :: "nat \<Rightarrow> bytes \<Rightarrow> bytes \<Rightarrow> Framer \<Rightarrow> bool" for N bs rest f where
  more: "fm_push N rest f = (Inr (length rest), f1) \<Longrightarrow> fm_poll f1 = (Inr (Incomplete j), f1) \<Longrightarrow> fm_idle N f1 \<Longrightarrow> fm_held f1 = bs \<Longrightarrow>
    length bs < 4 \<or> (let len = from_le (take 4 bs) in 0 < len \<and> len \<le> N \<and> length bs < 4 + len) \<Longrightarrow> round_result N bs rest f"
| bad: "fm_push N rest f = (Inl MessageTooLarge, f1) \<Longrightarrow> fm_failed f1 \<Longrightarrow> 4 \<le> length bs \<Longrightarrow>
    from_le (take 4 bs) = 0 \<or> from_le (take 4 bs) > N \<Longrightarrow> round_result N bs rest f"
| whole: "fm_push N rest f = (Inr k, f1) \<Longrightarrow> fm_poll f1 = (Inr (Message (take len (drop 4 bs))), f2) \<Longrightarrow> fm_idle N f2 \<Longrightarrow> fm_held f2 = [] \<Longrightarrow>
    0 < k \<Longrightarrow> drop k rest = drop (4 + len) bs \<Longrightarrow> len = from_le (take 4 bs) \<Longrightarrow> 0 < len \<Longrightarrow> len \<le> N \<Longrightarrow> 4 + len \<le> length bs \<Longrightarrow>
    round_result N bs rest f"

lemma body_round:
  assumes push: "fm_push N rest f = push_loop N rest' consumed (collecting len b)" and len: "0 < len" "len \<le> N" "len < 2 ^ 32" "length b < len"
    and bs: "bs = to_le 4 len @ b @ rest'" and rest: "length rest = consumed + length rest'" "drop consumed rest = rest'" "0 < consumed \<or> rest' \<noteq> []"
  shows "round_result N bs rest f"
proof -
  have t: "take 4 bs = to_le 4 len" "drop 4 bs = b @ rest'" "from_le (take 4 bs) = len"
    using bs len(3) by (simp_all add: from_le_to_le_id)
  note p = push_body [OF len(1-3), of b rest' consumed]
  have pb: "fm_push N rest f = (Inr (consumed + min (len - length b) (length rest')), collecting len (b @ take (len - length b) rest'))"
    using push p len(4) by simp
  show ?thesis
  proof (cases "length b + length rest' < len")
    case True
    then have "fm_push N rest f = (Inr (length rest), collecting len (b @ rest'))" using pb rest(1) by simp
    moreover note poll_collecting(1) [OF len(1-3), of "b @ rest'"]
    ultimately show ?thesis using True bs t len by (intro round_result.more) (auto simp: Let_def)
  next
    case False
    let ?m = "b @ take (len - length b) rest'"
    have l: "length ?m = len" "?m = take len (b @ rest')" "min (len - length b) (length rest') = len - length b" using False len(4) by auto
    have "drop (consumed + (len - length b)) rest = drop (len - length b) rest'" using rest(2) by (metis add.commute drop_drop)
    also have "\<dots> = drop (4 + len) bs" using bs len(4) by simp
    finally have d: "drop (consumed + (len - length b)) rest = drop (4 + len) bs" .
    have pl: "fm_push N rest f = (Inr (consumed + (len - length b)), collecting len ?m)" using pb l(3) by simp
    have po: "fm_poll (collecting len ?m) = (Inr (Message (take len (drop 4 bs))), (collecting len ?m)\<lparr>fm_taken := True\<rparr>)"
      "fm_idle N ((collecting len ?m)\<lparr>fm_taken := True\<rparr>)" "fm_held ((collecting len ?m)\<lparr>fm_taken := True\<rparr>) = []"
      using poll_collecting(2) [OF len(1-3), of ?m] l t(2) by auto
    show ?thesis
      by (rule round_result.whole [OF pl po _ d]) (use len t bs False in auto)
  qed
qed

lemma round_done:
  assumes "fm_idle N f" and "rest \<noteq> []" and bs: "bs = fm_held f @ rest"
  shows "round_result N bs rest f"
proof -
  have g: "fm_push N rest f = push_loop N rest 0 (fm_drain f)" using assms(1) by (simp add: fm_push_def fm_guard_def fm_idle_def fm_ok_def)
  from assms(1) show ?thesis
  proof (cases rule: idle_cases)
    case (prefix p)
    note pp = push_prefix [OF prefix(2), of bs rest N 0]
    consider (short) "length bs < 4" | (bad) "4 \<le> length bs" "from_le (take 4 bs) = 0 \<or> from_le (take 4 bs) > N"
      | (len) "4 \<le> length bs" "0 < from_le (take 4 bs)" "from_le (take 4 bs) \<le> N" by linarith
    then show ?thesis
    proof cases
      case short
      then have "fm_push N rest f = (Inr (length rest), prefixing bs)" using g pp prefix bs by simp
      then show ?thesis using short poll_prefixing [OF short] by (intro round_result.more) auto
    next
      case bad
      then have "fm_push N rest f = (Inl MessageTooLarge, (prefixing [])\<lparr>fm_failed := True\<rparr>)" using g pp prefix bs by (simp add: Let_def)
      then show ?thesis using bad by (intro round_result.bad) auto
    next
      case len
      let ?len = "from_le (take 4 bs)" and ?n = "4 - length p"
      have l: "?len < 2 ^ 32" using from_le_4 [of "take 4 bs"] len(1) by simp
      have q: "fm_push N rest f = push_loop N (drop ?n rest) ?n (collecting ?len [])" using g pp prefix bs len by (simp add: Let_def)
      have r: "?n \<le> length rest" using len(1) bs prefix by simp
      have l4: "length (take 4 bs) = 4" using len(1) by simp
      have "take 4 bs = to_le 4 ?len" using to_le_from_le [of "take 4 bs"] unfolding l4 by (rule sym)
      moreover have "drop 4 bs = drop ?n rest" using bs prefix by simp
      ultimately have b: "bs = to_le 4 ?len @ [] @ drop ?n rest" by (metis append_Nil append_take_drop_id)
      show ?thesis by (rule body_round [OF q len(2,3) l _ b]) (use r len prefix in auto)
    qed
  next
    case (body len b)
    then have "fm_push N rest f = push_loop N rest 0 (collecting len b)" using g by simp
    then show ?thesis by (rule body_round [OF _ body(2-5)]) (use body bs assms(2) in auto)
  qed
qed

lemma frames_cases:
  "length bs < 4 \<or> (let len = from_le (take 4 bs) in 0 < len \<and> len \<le> N \<and> length bs < 4 + len) \<Longrightarrow> frames N bs = ([], bs, False)"
  "4 \<le> length bs \<Longrightarrow> from_le (take 4 bs) = 0 \<or> from_le (take 4 bs) > N \<Longrightarrow> frames N bs = ([], bs, True)"
  "len = from_le (take 4 bs) \<Longrightarrow> 0 < len \<Longrightarrow> len \<le> N \<Longrightarrow> 4 + len \<le> length bs \<Longrightarrow>
    frames N bs = (let (ms, rest, bad) = frames N (drop (4 + len) bs) in (take len (drop 4 bs) # ms, rest, bad))"
  by (subst frames.simps; auto simp: Let_def)+

lemma frames_append:
  "frames N bs = (ms, left, bad) \<Longrightarrow>
    frames N (bs @ c) = (if bad then (ms, left @ c, True) else let (ms', l, b) = frames N (left @ c) in (ms @ ms', l, b))"
proof (induction N bs arbitrary: ms left bad rule: frames.induct)
  case (1 N bs)
  consider (more) "length bs < 4 \<or> (let len = from_le (take 4 bs) in 0 < len \<and> len \<le> N \<and> length bs < 4 + len)"
    | (bad) "4 \<le> length bs" "from_le (take 4 bs) = 0 \<or> from_le (take 4 bs) > N"
    | (whole) "0 < from_le (take 4 bs)" "from_le (take 4 bs) \<le> N" "4 + from_le (take 4 bs) \<le> length bs"
    unfolding Let_def by linarith
  then show ?case
  proof cases
    case more
    then show ?thesis using 1(2) frames_cases(1) [OF more] by (simp add: case_prod_beta)
  next
    case bad
    then have "frames N (bs @ c) = ([], bs @ c, True)" by (intro frames_cases) simp_all
    then show ?thesis using 1(2) frames_cases(2) [OF bad] by simp
  next
    case whole
    let ?len = "from_le (take 4 bs)"
    obtain ms' l' b' where r: "frames N (drop (4 + ?len) bs) = (ms', l', b')" by (metis prod_cases3)
    have m: "ms = take ?len (drop 4 bs) # ms'" "left = l'" "bad = b'" using 1(2) frames_cases(3) [OF refl whole] r by simp_all
    have IH: "frames N (drop (4 + ?len) bs @ c) = (if b' then (ms', l' @ c, True) else let (x, l, b) = frames N (l' @ c) in (ms' @ x, l, b))"
      using whole by (intro 1(1) [OF _ refl _ _ r]) auto
    have "frames N (bs @ c) = (let (ms, rest, bad) = frames N (drop (4 + ?len) bs @ c) in (take ?len (drop 4 bs) # ms, rest, bad))"
      using frames_cases(3) [of ?len "bs @ c" N] whole by simp
    then show ?thesis using IH m by (simp add: Let_def case_prod_beta)
  qed
qed

lemma drive_frames:
  assumes "fm_idle N f" and "length rest < n" and "frames N (fm_held f @ rest) = (ms, left, bad)" and "frames N (fm_held f) = ([], fm_held f, False)"
  shows "\<exists>f'. drive n N rest f = Some (ms, if bad then Some MessageTooLarge else None, f')
    \<and> (if bad then fm_failed f' else fm_idle N f' \<and> fm_held f' = left \<and> frames N left = ([], left, False))"
  using assms
proof (induction n arbitrary: rest f ms)
  case (Suc n)
  show ?case
  proof (cases "rest = []")
    case True
    then show ?thesis using Suc.prems by simp
  next
    case False
    let ?bs = "fm_held f @ rest"
    from round_done [OF Suc.prems(1) False refl] show ?thesis
    proof cases
      case (more f1 j)
      have "frames N ?bs = ([], ?bs, False)" using more(5) by (rule frames_cases)
      moreover have "drive n N [] f1 = Some ([], None, f1)" using Suc.prems(2) False by (cases n) auto
      ultimately show ?thesis using False more Suc.prems(3) by simp
    next
      case (bad f1)
      then show ?thesis using False Suc.prems(3) frames_cases(2) [OF bad(3,4)] by simp
    next
      case (whole k f1 len f2)
      obtain ms' l' b' where r: "frames N (drop (4 + len) ?bs) = (ms', l', b')" by (metis prod_cases3)
      have m: "ms = take len (drop 4 ?bs) # ms'" "left = l'" "bad = b'" using Suc.prems(3) frames_cases(3) [OF whole(7-10)] r by simp_all
      have e: "frames N [] = ([], [], False)" by (simp add: frames.simps)
      have "length (drop k rest) < n" using Suc.prems(2) whole(5) False by (cases rest) auto
      from Suc.IH [OF whole(3) this, of ms'] have "\<exists>f'. drive n N (drop k rest) f2 = Some (ms', if bad then Some MessageTooLarge else None, f')
        \<and> (if bad then fm_failed f' else fm_idle N f' \<and> fm_held f' = left \<and> frames N left = ([], left, False))"
        using whole(4,6) r m e by simp
      then show ?thesis using False whole(1,2) m(1) by auto
    qed
  qed
qed simp

lemma drive_all_frames:
  assumes "fm_idle N f" and "\<forall>c \<in> set cs. length c < n" and "frames N (fm_held f @ concat cs) = (ms, left, bad)"
    and "frames N (fm_held f) = ([], fm_held f, False)"
  shows "\<exists>f'. drive_all n N cs f = Some (ms, if bad then Some MessageTooLarge else None, f')
    \<and> (if bad then fm_failed f' else fm_idle N f' \<and> fm_held f' = left)"
  using assms
proof (induction cs arbitrary: f ms)
  case (Cons c cs)
  obtain ms1 l1 b1 where r: "frames N (fm_held f @ c) = (ms1, l1, b1)" by (metis prod_cases3)
  from drive_frames [OF Cons.prems(1) _ r Cons.prems(4), of n] Cons.prems(2)
  obtain f1 where d: "drive n N c f = Some (ms1, if b1 then Some MessageTooLarge else None, f1)"
    "if b1 then fm_failed f1 else fm_idle N f1 \<and> fm_held f1 = l1 \<and> frames N l1 = ([], l1, False)" by auto
  note a = frames_append [OF r, of "concat cs"]
  show ?case
  proof (cases b1)
    case True
    then show ?thesis using d a Cons.prems(3) by simp
  next
    case False
    obtain ms2 where m: "frames N (fm_held f1 @ concat cs) = (ms2, left, bad)" "ms = ms1 @ ms2"
      using a Cons.prems(3) False d(2) by (auto simp: case_prod_beta Let_def prod_eq_iff)
    have "\<exists>f'. drive_all n N cs f1 = Some (ms2, if bad then Some MessageTooLarge else None, f')
      \<and> (if bad then fm_failed f' else fm_idle N f' \<and> fm_held f' = left)"
      using d(2) False Cons.prems(2) m(1) by (intro Cons.IH) auto
    then show ?thesis using d(1) False m(2) by auto
  qed
qed simp

definition frame_octets :: "bytes \<Rightarrow> bytes" where "frame_octets m = to_le 4 (length m) @ m"

lemma tcp_frame_octets:
  assumes "length m < 2 ^ 32" and "4 + length m \<le> length buf" and "length buf \<le> USIZE_MAX"
  shows "tcp_frame m buf = (Inr (frame_octets m), frame_octets m @ drop (4 + length m) buf)"
proof -
  have "u32_bytes (word_of_nat (length m)) = to_le 4 (length m)" using assms(1) by (simp add: u32_bytes_def unat_of_nat_small)
  moreover have "overwrite (overwrite buf 0 (to_le 4 (length m))) 4 m = frame_octets m @ drop (4 + length m) buf"
    using overwrite_overwrite [of 0 "to_le 4 (length m)" m buf] assms(2) by (simp add: overwrite_def frame_octets_def)
  moreover have "usize_checked_add 4 (length m) = Some (4 + length m)" using assms by (simp add: usize_checked_add_def)
  ultimately show ?thesis using assms
    by (simp add: tcp_frame_def LENGTH_PREFIX_def Let_def slice_get_def frame_octets_def)
qed

lemma frames_octets:
  assumes "\<forall>m \<in> set ms. m \<noteq> [] \<and> length m \<le> N" and "N < 2 ^ 32"
  shows "frames N (concat (map frame_octets ms)) = (ms, [], False)"
  using assms(1)
proof (induction ms)
  case (Cons m ms)
  define S where "S = concat (map frame_octets ms)"
  let ?bs = "to_le 4 (length m) @ m @ S"
  have l: "from_le (take 4 ?bs) = length m" using Cons.prems assms(2) by (simp add: from_le_to_le_id)
  have "frames N ?bs = (let (x, r, b) = frames N (drop (4 + length m) ?bs) in (take (length m) (drop 4 ?bs) # x, r, b))"
    using l Cons.prems by (intro frames_cases(3)) auto
  moreover have "frames N S = (ms, [], False)" using Cons by (simp add: S_def)
  ultimately have "frames N ?bs = (m # ms, [], False)" by simp
  then show ?case by (simp add: S_def frame_octets_def [of m])
qed (simp add: frames.simps)

lemma framer_new_idle: "fm_idle N framer_new" "fm_held framer_new = []" "frames N [] = ([], [], False)"
  by (simp_all add: fm_idle_def fm_ok_def framer_new_def fm_held_def frames.simps)

lemma poll_again: "fm_ok N f \<Longrightarrow> fm_taken f \<Longrightarrow> fm_poll f = (Inr (Incomplete 4), fm_drain f) \<and> fm_held (fm_drain f) = fm_held f"
  by (auto simp: fm_ok_def fm_poll_def fm_guard_def fm_drain_def fm_held_def LENGTH_PREFIX_def Let_def split: option.splits)

lemma failed_latched: "fm_failed f \<Longrightarrow> fm_push N bs f = (Inl MessageTooLarge, f) \<and> fm_poll f = (Inl MessageTooLarge, f)"
  by (simp add: fm_push_def fm_poll_def fm_guard_def)

text \<open>C37: A stream is what it says, however it is cut.  For any octets read in any pieces, the framer hands out exactly the messages the stream holds by its length prefixes, in order,
  with the rest kept for the next read; and on a length of zero or beyond the node's limit it fails with MessageTooLarge after the messages
  before it and refuses every later call, so that no octet behind a lost boundary is taken for a message.\<close>

theorem tcp_stream_reassembled:
  assumes "frames N (concat cs) = (ms, left, bad)" and "\<forall>c \<in> set cs. length c < n"
  shows "\<exists>f'. drive_all n N cs framer_new = Some (ms, if bad then Some MessageTooLarge else None, f')
    \<and> (bad \<longrightarrow> (\<forall>bs. fm_push N bs f' = (Inl MessageTooLarge, f') \<and> fm_poll f' = (Inl MessageTooLarge, f')))
    \<and> (\<not> bad \<longrightarrow> fm_held f' = left)"
proof -
  have "frames N (fm_held framer_new @ concat cs) = (ms, left, bad)" using assms(1) framer_new_idle(2) by simp
  from drive_all_frames [OF framer_new_idle(1) assms(2) this] framer_new_idle(2,3) show ?thesis
    using failed_latched by (auto split: if_splits)
qed

text \<open>Messages framed onto a stream arrive.  Whatever messages within the receiver's limit a sender frames, and however the stream is cut into reads, the receiver
  hands out exactly these, in order, keeps nothing and has not failed.\<close>

theorem tcp_messages_arrive:
  assumes "\<forall>m \<in> set ms. m \<noteq> [] \<and> length m \<le> N" and "N < 2 ^ 32" and "\<forall>m \<in> set ms. 4 + length m \<le> length buf" and "length buf \<le> USIZE_MAX"
    and "concat cs = concat (map (\<lambda>m. case fst (tcp_frame m buf) of Inl _ \<Rightarrow> [] | Inr octets \<Rightarrow> octets) ms)" and "\<forall>c \<in> set cs. length c < n"
  shows "\<exists>f'. drive_all n N cs framer_new = Some (ms, None, f') \<and> fm_held f' = []"
proof -
  have "(case fst (tcp_frame m buf) of Inl _ \<Rightarrow> [] | Inr octets \<Rightarrow> octets) = frame_octets m" if "m \<in> set ms" for m
    using assms(1-4) that by (subst tcp_frame_octets) auto
  then have "map (\<lambda>m. case fst (tcp_frame m buf) of Inl _ \<Rightarrow> [] | Inr octets \<Rightarrow> octets) ms = map frame_octets ms" by simp
  then have c: "concat cs = concat (map frame_octets ms)" using assms(5) by metis
  have "frames N (fm_held framer_new @ concat cs) = (ms, [], False)"
    using c frames_octets [OF assms(1,2)] framer_new_idle(2) by simp
  from drive_all_frames [OF framer_new_idle(1) assms(6) this] framer_new_idle(2,3) show ?thesis by auto
qed

theorem tcp_stream_reassembled_witness:
  "\<exists>f'. drive_all 9 16 [[2, 0, 0], [0, 7], [8, 0, 0, 0, 0]] framer_new = Some ([[7, 8]], Some MessageTooLarge, f')"
proof -
  have "frames 16 (concat [[2, 0, 0], [0, 7], [8, 0, 0, 0, 0]]) = ([[7, 8]], [0, 0, 0, 0], True)"
    using frames_cases(3) [of 2 "[2, 0, 0, 0, 7, 8, 0, 0, 0, 0]" 16] frames_cases(2) [of "[0, 0, 0, 0]" 16] by simp
  note r = tcp_stream_reassembled [OF this, of 9, unfolded if_True]
  have "\<forall>c \<in> set [[2, 0, 0], [0, 7], [8, 0, 0, 0, 0 :: u8]]. length c < 9" by simp
  from r [OF this] show ?thesis by blast
qed

theorem tcp_messages_arrive_witness:
  "\<exists>f'. drive_all 9 16 [take 3 (frame_octets [7]), drop 3 (frame_octets [7])] framer_new = Some ([[7]], None, f') \<and> fm_held f' = []"
proof -
  have f: "tcp_frame [7] (replicate 8 0) = (Inr (frame_octets [7]), frame_octets [7] @ drop 5 (replicate 8 0))"
    using tcp_frame_octets [of "[7]" "replicate 8 0"] by (simp add: USIZE_MAX_def)
  have "length (frame_octets [7]) = 5" by (simp add: frame_octets_def)
  then show ?thesis
    using tcp_messages_arrive [of "[[7]]" 16 "replicate 8 0" "[take 3 (frame_octets [7]), drop 3 (frame_octets [7])]" 9] f
    by (simp add: USIZE_MAX_def)
qed

end
