(* ===== verification/Im_Atomic.thy ===== *)
theory Im_Atomic
  imports Keyed_Table Im_Status Dm_Access Platform_Time
begin

text \<open>
  The claims of atomic writes (\<^verbatim>\<open>src/src/im/atomic.rs\<close>): a client claims a set of attributes of a cluster instance, writes
  to them pend, and it commits or rolls back.  \<open>N\<close> and \<open>A\<close> are the const parameters, the number of claims and
  of attributes in one.  Shown: under every history of operations a claimed attribute is one client's.
\<close>

datatype RequestType = BeginWrite | CommitWrite | RollbackWrite

definition request_type_from :: "u8 \<Rightarrow> RequestType option" where
  "request_type_from v = (if v = 0 then Some BeginWrite else if v = 1 then Some CommitWrite
     else if v = 2 then Some RollbackWrite else None)"

record AtomicWriter =
  aw_node :: NodeId
  aw_fabric :: FabricIndex

text \<open>\<^verbatim>\<open>Writer::from_context\<close> reads two fields of the interaction's context and nothing else.\<close>

definition writer_from_context :: "NodeId option \<Rightarrow> FabricIndex option \<Rightarrow> AtomicWriter option" where
  "writer_from_context peer_node_id fabric_index =
     (case peer_node_id of
        None \<Rightarrow> None
      | Some node \<Rightarrow>
          if node_id_kind node \<noteq> KindOperational then None
          else case fabric_index of
            None \<Rightarrow> None
          | Some fabric \<Rightarrow> if fabric = 0 then None else Some \<lparr>aw_node = node, aw_fabric = fabric\<rparr>)"

record Claim =
  cl_endpoint :: EndpointId
  cl_cluster :: ClusterId
  cl_writer :: AtomicWriter
  cl_attributes :: "AttributeId list"
  cl_deadline :: Instant

record ClaimRef =
  cr_endpoint :: EndpointId
  cr_cluster :: ClusterId
  cr_attributes :: "AttributeId list"

definition claim_as_ref :: "Claim \<Rightarrow> ClaimRef" where
  "claim_as_ref c = \<lparr>cr_endpoint = cl_endpoint c, cr_cluster = cl_cluster c, cr_attributes = cl_attributes c\<rparr>"

definition claim_covers :: "ClaimRef \<Rightarrow> EndpointId \<Rightarrow> ClusterId \<Rightarrow> AttributeId \<Rightarrow> bool" where
  "claim_covers r ep cl a \<longleftrightarrow> cr_endpoint r = ep \<and> cr_cluster r = cl \<and> a \<in> set (cr_attributes r)"

type_synonym AtomicWrites = "Claim list"

definition claim_key :: "Claim \<Rightarrow> EndpointId \<times> ClusterId \<times> AtomicWriter" where
  "claim_key c = (cl_endpoint c, cl_cluster c, cl_writer c)"

definition claim_find :: "EndpointId \<times> ClusterId \<times> AtomicWriter \<Rightarrow> AtomicWrites \<Rightarrow> Claim option" where
  "claim_find k t = List.find (\<lambda>c. claim_key c = k) t"

definition claim_holder :: "EndpointId \<Rightarrow> ClusterId \<Rightarrow> AttributeId \<Rightarrow> AtomicWrites \<Rightarrow> AtomicWriter option" where
  "claim_holder ep cl a t =
     map_option cl_writer (List.find (\<lambda>c. cl_endpoint c = ep \<and> cl_cluster c = cl \<and> a \<in> set (cl_attributes c)) t)"

fun has_duplicate :: "'a list \<Rightarrow> bool" where
  "has_duplicate [] = False"
| "has_duplicate (x # rest) = (x \<in> set rest \<or> has_duplicate rest)"

fun held_push :: "nat \<Rightarrow> 'a list \<Rightarrow> 'a list \<Rightarrow> Status + 'a list" where
  "held_push A held [] = Inr held"
| "held_push A held (x # xs) =
     (case vec_push A held x of None \<Rightarrow> Inl Status_ResourceExhausted | Some held \<Rightarrow> held_push A held xs)"

definition claim_begin ::
    "nat \<Rightarrow> nat \<Rightarrow> EndpointId \<Rightarrow> ClusterId \<Rightarrow> AtomicWriter \<Rightarrow> AttributeId list \<Rightarrow> Duration \<Rightarrow> Instant
      \<Rightarrow> AtomicWrites \<Rightarrow> (Status + unit) \<times> AtomicWrites" where
  "claim_begin N A ep cl w attributes timeout now t =
     (if attributes = [] then (Inl Status_InvalidCommand, t)
      else if has_duplicate attributes then (Inl Status_InvalidCommand, t)
      else if claim_find (ep, cl, w) t \<noteq> None then (Inl Status_InvalidInState, t)
      else if list_ex (\<lambda>a. claim_holder ep cl a t \<noteq> None) attributes then (Inl Status_Busy, t)
      else case held_push A [] attributes of
        Inl e \<Rightarrow> (Inl e, t)
      | Inr held \<Rightarrow>
          (case vec_push N t \<lparr>cl_endpoint = ep, cl_cluster = cl, cl_writer = w, cl_attributes = held,
                             cl_deadline = instant_add now timeout\<rparr> of
             None \<Rightarrow> (Inl Status_ResourceExhausted, t)
           | Some t \<Rightarrow> (Inr (), t)))"

definition same_set :: "'a list \<Rightarrow> 'a list \<Rightarrow> bool" where
  "same_set held asked \<longleftrightarrow> length held = length asked \<and> list_all (\<lambda>x. x \<in> set asked) held"

definition claim_finish ::
    "EndpointId \<Rightarrow> ClusterId \<Rightarrow> AtomicWriter \<Rightarrow> AttributeId list \<Rightarrow> AtomicWrites \<Rightarrow> (Status + unit) \<times> AtomicWrites" where
  "claim_finish ep cl w attributes t =
     (case position (\<lambda>c. cl_endpoint c = ep \<and> cl_cluster c = cl \<and> cl_writer c = w) t of
        None \<Rightarrow> (Inl Status_InvalidInState, t)
      | Some i \<Rightarrow>
          if \<not> same_set (cl_attributes (t ! i)) attributes then (Inl Status_InvalidInState, t)
          else (Inr (), swap_remove i t))"

definition check_write :: "EndpointId \<Rightarrow> ClusterId \<Rightarrow> AtomicWriter option \<Rightarrow> AttributeId \<Rightarrow> AtomicWrites \<Rightarrow> Status + unit" where
  "check_write ep cl writer a t =
     (case writer of
        None \<Rightarrow> Inl Status_InvalidInState
      | Some w \<Rightarrow>
          (case claim_find (ep, cl, w) t of
             Some c \<Rightarrow> if a \<in> set (cl_attributes c) then Inr () else Inl Status_InvalidInState
           | None \<Rightarrow> Inl Status_InvalidInState))"

definition claims_reap :: "Instant \<Rightarrow> AtomicWrites \<Rightarrow> nat \<times> AtomicWrites" where
  "claims_reap now t = (let t' = filter (\<lambda>c. cl_deadline c > now) t in (length t - length t', t'))"

definition claims_remove_fabric :: "FabricIndex \<Rightarrow> AtomicWrites \<Rightarrow> nat \<times> AtomicWrites" where
  "claims_remove_fabric f t = (let t' = filter (\<lambda>c. aw_fabric (cl_writer c) \<noteq> f) t in (length t - length t', t'))"

definition claims_next_deadline :: "AtomicWrites \<Rightarrow> Instant option" where
  "claims_next_deadline t = min_by_key (\<lambda>d. d) (map cl_deadline t)"

section \<open>The invariant\<close>

definition claims_apart :: "Claim \<Rightarrow> Claim \<Rightarrow> bool" where
  "claims_apart c d \<longleftrightarrow> (cl_endpoint c = cl_endpoint d \<and> cl_cluster c = cl_cluster d
     \<longrightarrow> set (cl_attributes c) \<inter> set (cl_attributes d) = {})"

definition claims_inv :: "nat \<Rightarrow> nat \<Rightarrow> AtomicWrites \<Rightarrow> bool" where
  "claims_inv N A t \<longleftrightarrow> length t \<le> N \<and> distinct (map claim_key t)
     \<and> (\<forall>c \<in> set t. cl_attributes c \<noteq> [] \<and> distinct (cl_attributes c) \<and> length (cl_attributes c) \<le> A)
     \<and> (\<forall>c \<in> set t. \<forall>d \<in> set t. claim_key c \<noteq> claim_key d \<longrightarrow> claims_apart c d)"

lemma has_duplicate_iff [simp]: "has_duplicate xs \<longleftrightarrow> \<not> distinct xs"
  by (induction xs) auto

lemma held_push_all: "held_push A held xs = (if length held + length xs \<le> A \<or> xs = [] then Inr (held @ xs) else Inl Status_ResourceExhausted)"
  by (induction xs arbitrary: held) (auto simp: vec_push_def)

lemma same_set_mset: "distinct held \<Longrightarrow> same_set held asked \<longleftrightarrow> mset asked = mset held"
proof
  assume d: "distinct held" and s: "same_set held asked"
  have sub: "set held \<subseteq> set asked" and l: "length held = length asked" using s by (auto simp: same_set_def list_all_iff)
  have "card (set held) = length asked" using d l by (simp add: distinct_card)
  then have "length asked \<le> card (set asked)" using sub card_mono [of "set asked" "set held"] by simp
  then have "card (set asked) = length asked" using card_length [of asked] by simp
  moreover have "set held = set asked" using sub \<open>card (set held) = length asked\<close> calculation by (simp add: card_subset_eq)
  ultimately show "mset asked = mset held" using d by (metis card_distinct set_eq_iff_mset_eq_distinct)
next
  assume "mset asked = mset held"
  then show "same_set held asked" unfolding same_set_def list_all_iff by (metis mset_eq_length mset_eq_setD)
qed

lemma inv_subset:
  assumes "claims_inv N A t" and "set t' \<subseteq> set t" and "length t' \<le> length t" and "distinct (map claim_key t')"
  shows "claims_inv N A t'"
  using assms unfolding claims_inv_def by (meson le_trans subsetD)

lemma inv_filter: "claims_inv N A t \<Longrightarrow> claims_inv N A (filter p t)"
  by (rule inv_subset) (auto simp: claims_inv_def distinct_map_filter)

lemma position_key: "(\<lambda>c. cl_endpoint c = ep \<and> cl_cluster c = cl \<and> cl_writer c = w) = (\<lambda>c. claim_key c = (ep, cl, w))"
  by (simp add: claim_key_def)

lemma finish_cases:
  obtains (kept) e where "claim_finish ep cl w as t = (Inl e, t)"
    "\<And>c. claims_inv N A t \<Longrightarrow> c \<in> set t \<Longrightarrow> claim_key c = (ep, cl, w) \<Longrightarrow> mset as \<noteq> mset (cl_attributes c)" "e = Status_InvalidInState"
  | (released) i where "claim_finish ep cl w as t = (Inr (), swap_remove i t)" "i < length t" "claim_key (t ! i) = (ep, cl, w)"
    "same_set (cl_attributes (t ! i)) as"
proof (cases "position (\<lambda>c. claim_key c = (ep, cl, w)) t")
  case None
  then show ?thesis by (intro kept) (simp_all add: claim_finish_def position_key, simp add: position_None)
next
  case (Some i)
  note p = position_Some [OF Some]
  show ?thesis
  proof (cases "same_set (cl_attributes (t ! i)) as")
    case False
    have "mset as \<noteq> mset (cl_attributes c)" if "claims_inv N A t" "c \<in> set t" "claim_key c = (ep, cl, w)" for c
    proof -
      have "c = t ! i" using that p by (auto simp: claims_inv_def distinct_map inj_on_def)
      then show ?thesis using False that same_set_mset [of "cl_attributes c" as] by (auto simp: claims_inv_def)
    qed
    then show ?thesis using Some False by (intro kept) (simp_all add: claim_finish_def position_key)
  qed (use Some p in \<open>auto simp: claim_finish_def position_key intro!: released\<close>)
qed

lemma finish_inv:
  assumes "claims_inv N A t" shows "claims_inv N A (snd (claim_finish ep cl w as t))"
proof (cases rule: finish_cases [of ep cl w as t N A])
  case (released i)
  have "claims_inv N A (swap_remove i t)"
    by (rule inv_subset [OF assms]) (use assms released set_swap_remove_subset in \<open>simp_all add: claims_inv_def distinct_swap_remove\<close>)
  then show ?thesis using released(1) by simp
qed (use assms in simp)

lemma finish_set:
  assumes "claims_inv N A t"
  shows "set (snd (claim_finish ep cl w as t)) = {c \<in> set t. claim_key c = (ep, cl, w) \<longrightarrow> mset as \<noteq> mset (cl_attributes c)}"
proof (cases rule: finish_cases [of ep cl w as t N A])
  case kept
  then show ?thesis using assms by auto
next
  case (released i)
  have d: "distinct (map claim_key t)" using assms by (simp add: claims_inv_def)
  have m: "mset as = mset (cl_attributes (t ! i))"
    using released assms same_set_mset [of "cl_attributes (t ! i)" as] by (auto simp: claims_inv_def)
  have "c = t ! i" if "c \<in> set t" "claim_key c = (ep, cl, w)" for c
    using that d released by (auto simp: distinct_map inj_on_def)
  then show ?thesis using released m set_swap_remove [OF d released(2)] by auto
qed

lemma begin_cases:
  obtains (kept) e where "claim_begin N A ep cl w as timeout now t = (Inl e, t)"
  | (claimed) c where "claim_begin N A ep cl w as timeout now t = (Inr (), t @ [c])" "claim_key c = (ep, cl, w)" "cl_attributes c = as"
    "as \<noteq> []" "distinct as" "length as \<le> A" "length t < N" "claim_find (ep, cl, w) t = None" "\<forall>a \<in> set as. claim_holder ep cl a t = None"
    "cl_deadline c = instant_add now timeout"
proof (cases "\<exists>e. claim_begin N A ep cl w as timeout now t = (Inl e, t)")
  case True
  then show ?thesis using kept by blast
next
  case False
  let ?c = "\<lparr>cl_endpoint = ep, cl_cluster = cl, cl_writer = w, cl_attributes = as, cl_deadline = instant_add now timeout\<rparr>"
  show ?thesis by (rule claimed [of ?c]; insert False)
    (auto simp: claim_begin_def claim_key_def held_push_all vec_push_def list_ex_iff split: if_splits)
qed

lemma holder_None: "claim_holder ep cl a t = None \<longleftrightarrow> (\<forall>c \<in> set t. cl_endpoint c = ep \<and> cl_cluster c = cl \<longrightarrow> a \<notin> set (cl_attributes c))"
  by (auto simp: claim_holder_def find_None)

lemma begin_inv: "claims_inv N A t \<Longrightarrow> claims_inv N A (snd (claim_begin N A ep cl w as timeout now t))"
proof (cases rule: begin_cases [of N A ep cl w as timeout now t])
  case (claimed c)
  assume i: "claims_inv N A t"
  have "claims_apart c d \<and> claims_apart d c" if "d \<in> set t" for d
    using claimed(2,3,9) that by (auto simp: claims_apart_def claim_key_def holder_None)
  moreover have "claim_key c \<notin> claim_key ` set t" using claimed(2,8) by (auto simp: claim_find_def find_None)
  ultimately show ?thesis using i claimed by (auto simp: claims_inv_def)
qed simp

section \<open>The table as a table\<close>

text \<open>Ending the claim a client holds, whatever it covers.\<close>

definition claim_delete :: "EndpointId \<times> ClusterId \<times> AtomicWriter \<Rightarrow> AtomicWrites \<Rightarrow> AtomicWrites" where
  "claim_delete k t = (case claim_find k t of
     None \<Rightarrow> t | Some c \<Rightarrow> snd (claim_finish (fst k) (fst (snd k)) (snd (snd k)) (cl_attributes c) t))"

lemma claim_delete_set:
  assumes "claims_inv N A t" shows "set (claim_delete k t) = {c \<in> set t. claim_key c \<noteq> k}"
proof (cases "claim_find k t")
  case None
  then have "\<forall>c \<in> set t. claim_key c \<noteq> k" by (simp add: claim_find_def find_None)
  then show ?thesis using None by (auto simp: claim_delete_def)
next
  case (Some c)
  have c: "c \<in> set t" "claim_key c = k" using find_SomeD Some unfolding claim_find_def by fastforce+
  have "d = c" if "d \<in> set t" "claim_key d = k" for d
    using that c assms by (auto simp: claims_inv_def distinct_map inj_on_def)
  then show ?thesis using Some finish_set [OF assms] by (auto simp: claim_delete_def)
qed

interpretation awt: keyed_table "claims_inv N A" "\<lambda>t. t" claim_key claim_find claim_delete for N A
proof unfold_locales
  fix t :: AtomicWrites and k
  assume i: "claims_inv N A t"
  show "claims_inv N A (claim_delete k t)" using i finish_inv [OF i] by (simp add: claim_delete_def split: option.split)
  show "set (claim_delete k t) = {e \<in> set t. claim_key e \<noteq> k}" using i by (rule claim_delete_set)
qed (simp_all add: claims_inv_def claim_find_def)

interpretation awf: fabric_scoped set "\<lambda>c. aw_fabric (cl_writer c)" "\<lambda>f t. snd (claims_remove_fabric f t)"
  by unfold_locales (auto simp: claims_remove_fabric_def Let_def)

section \<open>Every history\<close>

datatype AtomicOp =
    AtBegin EndpointId ClusterId AtomicWriter "AttributeId list" Duration Instant
  | AtFinish EndpointId ClusterId AtomicWriter "AttributeId list"
  | AtReap Instant
  | AtRemoveFabric FabricIndex

primrec atomic_step :: "nat \<Rightarrow> nat \<Rightarrow> AtomicOp \<Rightarrow> AtomicWrites \<Rightarrow> AtomicWrites" where
  "atomic_step N A (AtBegin ep cl w as timeout now) t = snd (claim_begin N A ep cl w as timeout now t)"
| "atomic_step N A (AtFinish ep cl w as) t = snd (claim_finish ep cl w as t)"
| "atomic_step N A (AtReap now) t = snd (claims_reap now t)"
| "atomic_step N A (AtRemoveFabric f) t = snd (claims_remove_fabric f t)"

lemma atomic_step_inv: "claims_inv N A t \<Longrightarrow> claims_inv N A (atomic_step N A op t)"
  by (cases op) (simp_all add: begin_inv finish_inv claims_reap_def claims_remove_fabric_def Let_def inv_filter)

lemma atomic_fold_inv: "claims_inv N A t \<Longrightarrow> claims_inv N A (fold (atomic_step N A) ops t)"
  by (induction ops arbitrary: t) (simp_all add: atomic_step_inv)

lemma claims_inv_Nil: "claims_inv N A []"
  by (simp add: claims_inv_def)

text \<open>What ends a claim.\<close>

primrec releases :: "AtomicOp \<Rightarrow> Claim \<Rightarrow> bool" where
  "releases (AtBegin ep cl w as timeout now) c = False"
| "releases (AtFinish ep cl w as) c = (claim_key c = (ep, cl, w) \<and> mset as = mset (cl_attributes c))"
| "releases (AtReap now) c = (cl_deadline c \<le> now)"
| "releases (AtRemoveFabric f) c = (aw_fabric (cl_writer c) = f)"

lemma begin_keeps: "c \<in> set t \<Longrightarrow> c \<in> set (snd (claim_begin N A ep cl w as timeout now t))"
  by (cases rule: begin_cases [of N A ep cl w as timeout now t]) auto

lemma step_keeps:
  assumes "claims_inv N A t" and "c \<in> set t"
  shows "c \<in> set (atomic_step N A op t) \<longleftrightarrow> \<not> releases op c"
  using assms by (cases op) (auto simp: begin_keeps finish_set claims_reap_def claims_remove_fabric_def Let_def)

lemma fold_keeps:
  assumes "claims_inv N A t" and "c \<in> set t" and "\<forall>op \<in> set ops. \<not> releases op c"
  shows "c \<in> set (fold (atomic_step N A) ops t)"
  using assms by (induction ops arbitrary: t) (simp_all add: step_keeps atomic_step_inv)

lemma check_write_iff:
  assumes "claims_inv N A t"
  shows "check_write ep cl (Some w) a t = Inr () \<longleftrightarrow> (\<exists>c \<in> set t. claim_key c = (ep, cl, w) \<and> a \<in> set (cl_attributes c))"
proof (cases "claim_find (ep, cl, w) t")
  case None
  then have "\<forall>c \<in> set t. claim_key c \<noteq> (ep, cl, w)" using awt.lookup_None [OF assms] by blast
  then show ?thesis using None by (auto simp: check_write_def)
next
  case (Some c)
  have "d \<in> set t \<and> claim_key d = (ep, cl, w) \<longleftrightarrow> d = c" for d
    using awt.lookup_Some [OF assms, of "(ep, cl, w)" d] Some by auto
  then have "(\<exists>d \<in> set t. claim_key d = (ep, cl, w) \<and> a \<in> set (cl_attributes d)) \<longleftrightarrow> a \<in> set (cl_attributes c)" by metis
  then show ?thesis using Some by (simp add: check_write_def)
qed

lemma claim_is_exclusive:
  assumes "claims_inv N A t" and "c \<in> set t" and "claim_key c = (ep, cl, w)" and "a \<in> set (cl_attributes c)"
  shows "check_write ep cl w' a t = Inr () \<longleftrightarrow> w' = Some w" and "claim_holder ep cl a t = Some w"
proof -
  have u: "d = c" if "d \<in> set t" "cl_endpoint d = ep" "cl_cluster d = cl" "a \<in> set (cl_attributes d)" for d
  proof (rule ccontr)
    assume "d \<noteq> c"
    then have "claim_key d \<noteq> claim_key c" using assms(1,2) that(1) by (auto simp: claims_inv_def distinct_map inj_on_def)
    then have "claims_apart d c" using assms(1,2) that(1) by (simp add: claims_inv_def)
    then show False using assms(3,4) that(2-4) by (auto simp: claims_apart_def claim_key_def)
  qed
  show "check_write ep cl w' a t = Inr () \<longleftrightarrow> w' = Some w"
  proof (cases w')
    case (Some v)
    have "check_write ep cl (Some v) a t = Inr () \<longleftrightarrow> v = w"
    proof
      assume "check_write ep cl (Some v) a t = Inr ()"
      then obtain d where d: "d \<in> set t" "claim_key d = (ep, cl, v)" "a \<in> set (cl_attributes d)"
        unfolding check_write_iff [OF assms(1)] by blast
      then have "d = c" by (intro u) (simp_all add: claim_key_def)
      then show "v = w" using d(2) assms(3) by simp
    next
      assume "v = w"
      then show "check_write ep cl (Some v) a t = Inr ()" unfolding check_write_iff [OF assms(1)] using assms(2-4) by blast
    qed
    then show ?thesis using Some by simp
  qed (simp add: check_write_def)
  have "claim_holder ep cl a t \<noteq> None" using assms(2-4) by (auto simp: holder_None claim_key_def)
  then obtain d where "List.find (\<lambda>c. cl_endpoint c = ep \<and> cl_cluster c = cl \<and> a \<in> set (cl_attributes c)) t = Some d" "claim_holder ep cl a t = Some (cl_writer d)"
    by (auto simp: claim_holder_def)
  note d = this
  have "d = c" using find_SomeD [OF d(1)] by (intro u) simp_all
  then show "claim_holder ep cl a t = Some w" using d(2) assms(3) by (simp add: claim_key_def)
qed

lemma step_releases:
  assumes "claims_inv N A t" and "c \<in> set t" and "claim_key c = (ep, cl, v)" and "releases op c"
  shows "check_write ep cl (Some v) a (atomic_step N A op t) \<noteq> Inr ()"
proof
  assume "check_write ep cl (Some v) a (atomic_step N A op t) = Inr ()"
  then obtain d where d: "d \<in> set (atomic_step N A op t)" "claim_key d = (ep, cl, v)"
    unfolding check_write_iff [OF atomic_step_inv [OF assms(1)]] by blast
  have "d \<in> set t" using d(1) assms(1,4)
    by (cases op) (auto simp: finish_set claims_reap_def claims_remove_fabric_def Let_def)
  then have "d = c" using assms(1-3) d(2) by (auto simp: claims_inv_def distinct_map inj_on_def)
  then show False using d(1) step_keeps [OF assms(1,2)] assms(4) by simp
qed

lemma begin_refused:
  assumes "claims_inv N A t" and "c \<in> set t" and "claim_key c = (ep, cl, w)" and "a \<in> set (cl_attributes c)" and "a \<in> set as"
  shows "\<exists>e. claim_begin N A ep cl v as timeout now t = (Inl e, t)"
proof (cases rule: begin_cases [of N A ep cl v as timeout now t])
  case claimed
  then show ?thesis using claim_is_exclusive(2) [OF assms(1-4)] assms(5) by auto
qed auto

text \<open>C38: An attribute under a claim is one client's, until the claim ends.  On any table a node's history can make, a client that may write an atomic
  attribute holds a claim that covers it, and as long as nothing releases that claim - its own CommitWrite or RollbackWrite naming the
  same attributes in any order, its deadline, or the removal of its fabric - it may go on writing the attribute, no other client may, and no
  BeginWrite that names the attribute succeeds.  The operation that releases the claim ends the right to write.\<close>

theorem atomic_claim_is_exclusive:
  assumes "check_write ep cl w a (fold (atomic_step N A) ops []) = Inr ()"
  shows "\<exists>c v. c \<in> set (fold (atomic_step N A) ops []) \<and> w = Some v \<and> claim_key c = (ep, cl, v) \<and> a \<in> set (cl_attributes c)
    \<and> (\<forall>more. (\<forall>op \<in> set more. \<not> releases op c) \<longrightarrow>
          (\<forall>w'. check_write ep cl w' a (fold (atomic_step N A) (ops @ more) []) = Inr () \<longleftrightarrow> w' = w)
        \<and> (\<forall>u as timeout now. a \<in> set as \<longrightarrow>
              (\<exists>e. fst (claim_begin N A ep cl u as timeout now (fold (atomic_step N A) (ops @ more) [])) = Inl e))
        \<and> (\<forall>op. releases op c \<longrightarrow> check_write ep cl w a (fold (atomic_step N A) (ops @ more @ [op]) []) \<noteq> Inr ()))"
proof -
  let ?t = "fold (atomic_step N A) ops []"
  have i: "claims_inv N A ?t" by (simp add: atomic_fold_inv claims_inv_Nil)
  obtain v where v: "w = Some v" using assms by (cases w) (auto simp: check_write_def)
  obtain c where c: "c \<in> set ?t" "claim_key c = (ep, cl, v)" "a \<in> set (cl_attributes c)"
    using assms v check_write_iff [OF i] by auto
  have "(\<forall>w'. check_write ep cl w' a (fold (atomic_step N A) (ops @ more) []) = Inr () \<longleftrightarrow> w' = w)
      \<and> (\<forall>u as timeout now. a \<in> set as \<longrightarrow>
            (\<exists>e. fst (claim_begin N A ep cl u as timeout now (fold (atomic_step N A) (ops @ more) [])) = Inl e))
      \<and> (\<forall>op. releases op c \<longrightarrow> check_write ep cl w a (fold (atomic_step N A) (ops @ more @ [op]) []) \<noteq> Inr ())"
    if more: "\<forall>op \<in> set more. \<not> releases op c" for more
  proof -
    let ?s = "fold (atomic_step N A) more ?t"
    have s: "claims_inv N A ?s" "c \<in> set ?s" using i c more by (simp_all add: atomic_fold_inv fold_keeps)
    have "check_write ep cl w a (atomic_step N A op ?s) \<noteq> Inr ()" if "releases op c" for op
      using step_releases [OF s c(2) that] v by simp
    moreover have "\<exists>e. fst (claim_begin N A ep cl u as timeout now ?s) = Inl e" if "a \<in> set as" for u as timeout now
      using begin_refused [OF s c(2,3) that, of u timeout now] by auto
    ultimately show ?thesis using claim_is_exclusive(1) [OF s c(2,3)] v by simp
  qed
  then show ?thesis using c v by blast
qed

theorem atomic_claim_is_exclusive_witness:
  "\<exists>e. fst (claim_begin 4 4 1 0x201 \<lparr>aw_node = 0x2222, aw_fabric = 1\<rparr> [0x12] 1000 7
      (fold (atomic_step 4 4) [AtBegin 1 0x201 \<lparr>aw_node = 0x1111, aw_fabric = 1\<rparr> [0x11, 0x12] 1000 5, AtReap 900] [])) = Inl e"
proof -
  let ?alice = "\<lparr>aw_node = 0x1111, aw_fabric = 1\<rparr> :: AtomicWriter" and ?t = "instant_add 5 1000"
  let ?c = "\<lparr>cl_endpoint = 1, cl_cluster = 0x201, cl_writer = ?alice, cl_attributes = [0x11, 0x12], cl_deadline = ?t\<rparr>"
  have t: "fold (atomic_step 4 4) [AtBegin 1 0x201 ?alice [0x11, 0x12] 1000 5] [] = [?c]"
    by (simp add: claim_begin_def claim_find_def claim_holder_def vec_push_def)
  have "check_write 1 0x201 (Some ?alice) 0x12 (fold (atomic_step 4 4) [AtBegin 1 0x201 ?alice [0x11, 0x12] 1000 5] []) = Inr ()"
    unfolding t by (simp add: check_write_def claim_find_def claim_key_def)
  from atomic_claim_is_exclusive [OF this] show ?thesis
  proof (elim exE conjE, goal_cases)
    case (1 c v)
    have "c = ?c" using 1(1) unfolding t by simp
    then have "\<forall>op \<in> set [AtReap 900]. \<not> releases op c" by (simp add: instant_add_def saturating_add_def)
    note x = 1(5) [THEN spec [where x = "[AtReap 900]"], THEN mp, OF this, THEN conjunct2, THEN conjunct1]
    show ?case using x [THEN spec [where x = "\<lparr>aw_node = 0x2222, aw_fabric = 1\<rparr>"], THEN spec [where x = "[0x12]"],
          THEN spec [where x = 1000], THEN spec [where x = 7]] by simp
  qed
qed

end
