(* ===== verification/Pase_Admission.thy ===== *)
theory Pase_Admission
  imports Platform_Time
begin

text \<open>
  Which PASE request a commissionee may answer (\<^verbatim>\<open>src/src/commissioning/admission.rs\<close>): one handshake at a time, sixty
  seconds for it, and twenty failures.  Shown: how many guesses at the passcode any history of the gate answers.
\<close>

definition PASE_ESTABLISHMENT_TIMEOUT :: Duration where "PASE_ESTABLISHMENT_TIMEOUT = from_secs 60"
definition MAX_FAILED_ATTEMPTS :: u8 where "MAX_FAILED_ATTEMPTS = 20"

datatype Admit = Admitted | AdmitBusy | NotCommissionable | AttemptsExhausted

definition is_admitted :: "Admit \<Rightarrow> bool" where
  "is_admitted a \<longleftrightarrow> a = Admitted"

record Failure =
  fl_attempts :: u8
  fl_exit_commissioning_mode :: bool

datatype GateChannel = GateIdle | GateEstablishing Instant | GateEstablished

record PaseAdmission =
  pg_channel :: GateChannel
  pg_failures :: u8

definition gate_new :: PaseAdmission where
  "gate_new = \<lparr>pg_channel = GateIdle, pg_failures = 0\<rparr>"

definition gate_is_exhausted :: "PaseAdmission \<Rightarrow> bool" where
  "gate_is_exhausted g \<longleftrightarrow> pg_failures g \<ge> MAX_FAILED_ATTEMPTS"

definition gate_is_established :: "PaseAdmission \<Rightarrow> bool" where
  "gate_is_established g \<longleftrightarrow> pg_channel g = GateEstablished"

fun channel_establishing :: "GateChannel \<Rightarrow> bool" where
  "channel_establishing (GateEstablishing _) = True"
| "channel_establishing _ = False"

definition gate_is_establishing :: "PaseAdmission \<Rightarrow> bool" where
  "gate_is_establishing g = channel_establishing (pg_channel g)"

definition gate_expire :: "Instant \<Rightarrow> PaseAdmission \<Rightarrow> bool \<times> PaseAdmission" where
  "gate_expire now g =
     (case pg_channel g of
        GateEstablishing deadline \<Rightarrow>
          if now > deadline then (True, g\<lparr>pg_channel := GateIdle, pg_failures := saturating_add (pg_failures g) 1\<rparr>)
          else (False, g)
      | _ \<Rightarrow> (False, g))"

definition gate_admit :: "bool \<Rightarrow> Instant \<Rightarrow> PaseAdmission \<Rightarrow> Admit \<times> PaseAdmission" where
  "gate_admit commissionable now g =
     (let g = snd (gate_expire now g) in
      if pg_failures g \<ge> MAX_FAILED_ATTEMPTS then (AttemptsExhausted, g)
      else if \<not> commissionable then (NotCommissionable, g)
      else case pg_channel g of
        GateIdle \<Rightarrow> (Admitted, g\<lparr>pg_channel := GateEstablishing (instant_add now PASE_ESTABLISHMENT_TIMEOUT)\<rparr>)
      | _ \<Rightarrow> (AdmitBusy, g))"

definition gate_established :: "PaseAdmission \<Rightarrow> PaseAdmission" where
  "gate_established g = g\<lparr>pg_channel := GateEstablished, pg_failures := 0\<rparr>"

definition gate_failure :: "PaseAdmission \<Rightarrow> Failure" where
  "gate_failure g = \<lparr>fl_attempts = pg_failures g, fl_exit_commissioning_mode = pg_failures g \<ge> MAX_FAILED_ATTEMPTS\<rparr>"

definition gate_failed :: "PaseAdmission \<Rightarrow> Failure \<times> PaseAdmission" where
  "gate_failed g =
     (let g = g\<lparr>pg_channel := GateIdle, pg_failures := saturating_add (pg_failures g) 1\<rparr> in (gate_failure g, g))"

definition gate_closed :: "PaseAdmission \<Rightarrow> PaseAdmission" where
  "gate_closed g = g\<lparr>pg_channel := GateIdle\<rparr>"

definition gate_reset :: "PaseAdmission \<Rightarrow> PaseAdmission" where
  "gate_reset g = g\<lparr>pg_channel := GateIdle, pg_failures := 0\<rparr>"

definition gate_poll :: "Instant \<Rightarrow> PaseAdmission \<Rightarrow> Failure option \<times> PaseAdmission" where
  "gate_poll now g =
     (case gate_expire now g of
        (True, g) \<Rightarrow> (Some (gate_failure g), g)
      | (False, g) \<Rightarrow> (None, g))"

definition gate_deadline :: "PaseAdmission \<Rightarrow> Instant option" where
  "gate_deadline g = (case pg_channel g of GateEstablishing deadline \<Rightarrow> Some deadline | _ \<Rightarrow> None)"

section \<open>Histories\<close>

datatype GateOp = OpAdmit bool Instant | OpEstablished | OpFailed | OpClosed | OpReset | OpPoll Instant

primrec gate_step :: "GateOp \<Rightarrow> PaseAdmission \<Rightarrow> PaseAdmission" where
  "gate_step (OpAdmit c now) g = snd (gate_admit c now g)"
| "gate_step OpEstablished g = gate_established g"
| "gate_step OpFailed g = snd (gate_failed g)"
| "gate_step OpClosed g = gate_closed g"
| "gate_step OpReset g = gate_reset g"
| "gate_step (OpPoll now) g = snd (gate_poll now g)"

text \<open>The handshakes a history admitted, and the passcodes it found right or entered anew.\<close>

primrec admissions :: "GateOp list \<Rightarrow> PaseAdmission \<Rightarrow> nat" where
  "admissions [] g = 0"
| "admissions (op # ops) g =
     (case op of OpAdmit c now \<Rightarrow> if is_admitted (fst (gate_admit c now g)) then 1 else 0 | _ \<Rightarrow> 0) + admissions ops (gate_step op g)"

definition clearances :: "GateOp list \<Rightarrow> nat" where
  "clearances ops = length (filter (\<lambda>op. op = OpEstablished \<or> op = OpReset) ops)"

text \<open>\<^verbatim>\<open>closed\<close> is for a session that was established.\<close>

primrec closes_established :: "GateOp list \<Rightarrow> PaseAdmission \<Rightarrow> bool" where
  "closes_established [] g = True"
| "closes_established (op # ops) g = ((op = OpClosed \<longrightarrow> gate_is_established g) \<and> closes_established ops (gate_step op g))"

definition gate_spent :: "PaseAdmission \<Rightarrow> nat" where
  "gate_spent g = min 20 (unat (pg_failures g) + (if gate_is_establishing g then 1 else 0))"

definition gate_inv :: "PaseAdmission \<Rightarrow> bool" where
  "gate_inv g \<longleftrightarrow> (gate_is_establishing g \<longrightarrow> unat (pg_failures g) < 20)"

lemma max_attempts: "MAX_FAILED_ATTEMPTS \<le> f \<longleftrightarrow> 20 \<le> unat f"
  by (simp add: MAX_FAILED_ATTEMPTS_def word_le_nat_alt)

lemmas gate_simps = gate_is_establishing_def gate_is_established_def gate_expire_def gate_admit_def gate_established_def
  gate_failed_def gate_closed_def gate_reset_def gate_poll_def is_admitted_def Let_def max_attempts int_simps

lemma step_inv: "gate_inv g \<Longrightarrow> gate_inv (gate_step op g)"
  by (cases op; cases "pg_channel g") (auto simp: gate_inv_def gate_simps)

lemma step_spent:
  assumes "gate_inv g" and "op = OpClosed \<Longrightarrow> gate_is_established g"
  shows "(case op of OpAdmit c now \<Rightarrow> if is_admitted (fst (gate_admit c now g)) then 1 else 0 | _ \<Rightarrow> 0) + gate_spent g
    \<le> gate_spent (gate_step op g) + 20 * clearances [op]"
  using assms by (cases op; cases "pg_channel g") (auto simp: gate_inv_def gate_spent_def clearances_def gate_simps)

lemma admissions_spent:
  "gate_inv g \<Longrightarrow> closes_established ops g \<Longrightarrow> admissions ops g + gate_spent g \<le> gate_spent (fold gate_step ops g) + 20 * clearances ops"
proof (induction ops arbitrary: g)
  case (Cons op ops)
  have "admissions ops (gate_step op g) + gate_spent (gate_step op g) \<le> gate_spent (fold gate_step ops (gate_step op g)) + 20 * clearances ops"
    using Cons by (intro Cons.IH) (simp_all add: step_inv)
  moreover have "clearances (op # ops) = clearances [op] + clearances ops" by (simp add: clearances_def)
  ultimately show ?case using step_spent [OF Cons.prems(1), of op] Cons.prems(2) by simp
qed (simp add: clearances_def)

text \<open>C39: Passcode guesses are rationed.  Over any history of requests at any times, outcomes, timeouts and closings of established sessions, the node
  answers at most twenty PASE requests, and twenty more for every handshake that proved the passcode and every
  commissioning mode entered anew; in particular without either no more than twenty guesses are ever answered.\<close>

theorem pase_guesses_rationed:
  assumes "closes_established ops gate_new"
  shows "admissions ops gate_new \<le> 20 * (clearances ops + 1)"
proof -
  have "gate_inv gate_new" by (simp add: gate_new_def gate_simps gate_inv_def)
  from admissions_spent [OF this assms] show ?thesis by (simp add: gate_spent_def)
qed

theorem pase_guesses_rationed_witness:
  "admissions [OpAdmit True 5, OpEstablished, OpClosed, OpAdmit True 9] gate_new \<le> 20 * 2"
  using pase_guesses_rationed [of "[OpAdmit True 5, OpEstablished, OpClosed, OpAdmit True 9]"]
  by (simp add: clearances_def gate_simps gate_new_def)

text \<open>One handshake at a time, and not for longer than its sixty seconds: what a request meets while a handshake is in flight.\<close>

lemma admit_while_establishing:
  assumes "pg_channel g = GateEstablishing d" and "gate_inv g"
  shows "now \<le> d \<Longrightarrow> gate_admit True now g = (AdmitBusy, g)"
    and "now > d \<Longrightarrow> unat (pg_failures g) < 19 \<Longrightarrow> fst (gate_admit True now g) = Admitted"
    and "now > d \<Longrightarrow> unat (pg_failures g) = 19 \<Longrightarrow> fst (gate_admit c now g) = AttemptsExhausted"
  using assms by (auto simp: gate_simps gate_inv_def)

lemma admit_while_established: "gate_inv g \<Longrightarrow> pg_channel g = GateEstablished \<Longrightarrow> fst (gate_admit c now g) \<noteq> Admitted \<and> snd (gate_admit c now g) = g"
  by (auto simp: gate_simps)

text \<open>\<^verbatim>\<open>deadline\<close> is documented as the moment \<^verbatim>\<open>poll\<close> next has something to do; at that very moment it has nothing to do yet.\<close>

lemma poll_at_deadline: "gate_deadline g = Some d \<Longrightarrow> gate_poll d g = (None, g) \<and> (now > d \<longrightarrow> fst (gate_poll now g) \<noteq> None)"
  by (auto simp: gate_deadline_def gate_simps split: GateChannel.splits)

end
