(* ===== verification/Spake2p.thy ===== *)
theory Spake2p
  imports Session
begin

text \<open>
  SPAKE2+ (\<^verbatim>\<open>src/src/crypto/spake2p.rs\<close>) and the wrappers of the digests it uses (\<^verbatim>\<open>src/src/crypto/rustcrypto.rs\<close>): the prover that knows
  the passcode and the verifier that stores \<open>(w0, L)\<close>.  The curve and the digests are the crates' and are an argument of every
  definition.  Shown: both sides compute the same confirmations and the same secret, or fail alike.
\<close>

section \<open>What the crates provide\<close>

text \<open>
  P-256 and the digests are the crates' (\<^verbatim>\<open>p256\<close>, \<^verbatim>\<open>sha2\<close>, \<^verbatim>\<open>hmac\<close>, \<^verbatim>\<open>hkdf\<close>, \<^verbatim>\<open>pbkdf2\<close>).  \<open>sec1_decode\<close> is
  \<^verbatim>\<open>PublicKey::from_sec1_bytes\<close>, which refuses what is not on the curve and the identity; \<open>sec1_encode\<close> is \<^verbatim>\<open>from_affine\<close>
  followed by the uncompressed encoding, which the identity has not; \<open>s_reduce\<close> is \<^verbatim>\<open>Reduce<U256>\<close> of a big-endian
  number and \<open>s_from_repr\<close> takes canonical encodings alone.
\<close>

record ('s, 'p) Suite =
  p_generator :: 'p
  p_add :: "'p \<Rightarrow> 'p \<Rightarrow> 'p"
  p_sub :: "'p \<Rightarrow> 'p \<Rightarrow> 'p"
  p_mul :: "'p \<Rightarrow> 's \<Rightarrow> 'p"
  s_zero :: 's
  s_add :: "'s \<Rightarrow> 's \<Rightarrow> 's"
  s_mul :: "'s \<Rightarrow> 's \<Rightarrow> 's"
  s_from_u64 :: "u64 \<Rightarrow> 's"
  s_to_bytes :: "'s \<Rightarrow> bytes"
  s_reduce :: "bytes \<Rightarrow> 's"
  s_from_repr :: "bytes \<Rightarrow> 's option"
  sec1_decode :: "bytes \<Rightarrow> 'p option"
  sec1_encode :: "'p \<Rightarrow> bytes option"
  su_sha256 :: "bytes \<Rightarrow> bytes"
  su_hmac :: "bytes \<Rightarrow> bytes \<Rightarrow> bytes option"
  su_hkdf :: Hkdf
  su_pbkdf2 :: "bytes \<Rightarrow> bytes \<Rightarrow> u32 \<Rightarrow> nat \<Rightarrow> bytes option"

definition HASH_LEN_BYTES :: nat where "HASH_LEN_BYTES = 32"
definition GROUP_SIZE_BYTES :: nat where "GROUP_SIZE_BYTES = 32"
definition PUBLIC_KEY_SIZE_BYTES :: nat where "PUBLIC_KEY_SIZE_BYTES = 2 * GROUP_SIZE_BYTES + 1"
definition W_SIZE_BYTES :: nat where "W_SIZE_BYTES = GROUP_SIZE_BYTES + 8"
definition PBKDF_ITERATIONS_MIN :: u32 where "PBKDF_ITERATIONS_MIN = 1000"
definition PBKDF_ITERATIONS_MAX :: u32 where "PBKDF_ITERATIONS_MAX = 100000"
definition PBKDF_SALT_MIN_BYTES :: nat where "PBKDF_SALT_MIN_BYTES = 16"
definition PBKDF_SALT_MAX_BYTES :: nat where "PBKDF_SALT_MAX_BYTES = 32"

definition crypto_hmac :: "('s, 'p) Suite \<Rightarrow> bytes \<Rightarrow> bytes \<Rightarrow> bytes result" where
  "crypto_hmac S key message = ok_or IntegrityCheckFailed (su_hmac S key message)"

definition crypto_kdf :: "('s, 'p) Suite \<Rightarrow> bytes \<Rightarrow> bytes \<Rightarrow> bytes \<Rightarrow> nat \<Rightarrow> bytes result" where
  "crypto_kdf S input_key salt info n = ok_or IntegrityCheckFailed (su_hkdf S input_key salt info n)"

definition crypto_pbkdf :: "('s, 'p) Suite \<Rightarrow> bytes \<Rightarrow> bytes \<Rightarrow> u32 \<Rightarrow> nat \<Rightarrow> bytes result" where
  "crypto_pbkdf S password salt iterations n =
     (if \<not> (PBKDF_ITERATIONS_MIN \<le> iterations \<and> iterations \<le> PBKDF_ITERATIONS_MAX) then Inl InvalidArgument
      else if \<not> (PBKDF_SALT_MIN_BYTES \<le> length salt \<and> length salt \<le> PBKDF_SALT_MAX_BYTES) then Inl InvalidArgument
      else ok_or IntegrityCheckFailed (su_pbkdf2 S password salt iterations n))"

definition ct_eq :: "bytes \<Rightarrow> bytes \<Rightarrow> bool" where
  "ct_eq a b = (if length a \<noteq> length b then False else a = b)"

section \<open>SPAKE2+\<close>

definition M_COMPRESSED :: bytes where
  "M_COMPRESSED =
     [0x02, 0x88, 0x6e, 0x2f, 0x97, 0xac, 0xe4, 0x6e, 0x55, 0xba, 0x9d, 0xd7, 0x24, 0x25, 0x79, 0xf2,
      0x99, 0x3b, 0x64, 0xe1, 0x6e, 0xf3, 0xdc, 0xab, 0x95, 0xaf, 0xd4, 0x97, 0x33, 0x3d, 0x8f, 0xa1,
      0x2f]"

definition N_COMPRESSED :: bytes where
  "N_COMPRESSED =
     [0x03, 0xd8, 0xbb, 0xd6, 0xc6, 0x39, 0xc6, 0x29, 0x37, 0xb0, 0x4d, 0x99, 0x7f, 0x38, 0xc3, 0x77,
      0x07, 0x19, 0xc6, 0x29, 0xd7, 0x01, 0x4d, 0x49, 0xa2, 0x4b, 0x4f, 0x98, 0xba, 0xa1, 0x29, 0x2b,
      0x49]"

definition CONTEXT_PREFIX :: bytes where
  "CONTEXT_PREFIX =
     [0x43, 0x48, 0x49, 0x50, 0x20, 0x50, 0x41, 0x4B, 0x45, 0x20, 0x56, 0x31, 0x20,
      0x43, 0x6F, 0x6D, 0x6D, 0x69, 0x73, 0x73, 0x69, 0x6F, 0x6E, 0x69, 0x6E, 0x67]"

definition CONFIRMATION_KEYS_INFO :: bytes where
  "CONFIRMATION_KEYS_INFO =
     [0x43, 0x6F, 0x6E, 0x66, 0x69, 0x72, 0x6D, 0x61, 0x74, 0x69, 0x6F, 0x6E, 0x4B, 0x65, 0x79, 0x73]"

definition decode_point :: "('s, 'p) Suite \<Rightarrow> bytes \<Rightarrow> 'p result" where
  "decode_point S bs = ok_or InvalidArgument (sec1_decode S bs)"

definition encode_point :: "('s, 'p) Suite \<Rightarrow> 'p \<Rightarrow> bytes result" where
  "encode_point S p =
     (case sec1_encode S p of
        None \<Rightarrow> Inl InvalidArgument
      | Some bs \<Rightarrow> if length bs = PUBLIC_KEY_SIZE_BYTES then Inr bs else Inl Platform)"

definition m_point :: "('s, 'p) Suite \<Rightarrow> 'p result" where "m_point S = decode_point S M_COMPRESSED"
definition n_point :: "('s, 'p) Suite \<Rightarrow> 'p result" where "n_point S = decode_point S N_COMPRESSED"

primrec reduce_loop :: "('s, 'p) Suite \<Rightarrow> 's \<Rightarrow> bytes \<Rightarrow> 's" where
  "reduce_loop S acc [] = acc"
| "reduce_loop S acc (b # bs) = reduce_loop S (s_add S (s_mul S acc (s_from_u64 S 256)) (s_from_u64 S (ucast b))) bs"

definition reduce_wide :: "('s, 'p) Suite \<Rightarrow> bytes \<Rightarrow> 's result" where
  "reduce_wide S bs = Inr (reduce_loop S (s_zero S) bs)"

definition w0_w1 :: "('s, 'p) Suite \<Rightarrow> u32 \<Rightarrow> bytes \<Rightarrow> u32 \<Rightarrow> ('s \<times> 's) result" where
  "w0_w1 S passcode salt iterations =
     bindR (crypto_pbkdf S (u32_bytes passcode) salt iterations (2 * W_SIZE_BYTES)) (\<lambda>ws.
     case (slice_get ws 0 W_SIZE_BYTES, slice_from ws W_SIZE_BYTES) of
       (Some w0s, Some w1s) \<Rightarrow> bindR (reduce_wide S w0s) (\<lambda>w0. bindR (reduce_wide S w1s) (\<lambda>w1. Inr (w0, w1)))
     | _ \<Rightarrow> Inl Platform)"

record Spake2pVerifierData =
  vd_w0 :: bytes
  vd_l :: bytes

definition vd_from_passcode :: "('s, 'p) Suite \<Rightarrow> u32 \<Rightarrow> bytes \<Rightarrow> u32 \<Rightarrow> Spake2pVerifierData result" where
  "vd_from_passcode S passcode salt iterations =
     bindR (w0_w1 S passcode salt iterations) (\<lambda>(w0, w1).
     bindR (encode_point S (p_mul S (p_generator S) w1)) (\<lambda>l.
     Inr \<lparr>vd_w0 = s_to_bytes S w0, vd_l = l\<rparr>))"

definition vd_to_bytes :: "Spake2pVerifierData \<Rightarrow> bytes" where
  "vd_to_bytes d = vd_w0 d @ vd_l d"

definition canonical_scalar :: "('s, 'p) Suite \<Rightarrow> bytes \<Rightarrow> 's result" where
  "canonical_scalar S bs = ok_or InvalidArgument (s_from_repr S bs)"

definition scalar_from_bytes :: "('s, 'p) Suite \<Rightarrow> bytes \<Rightarrow> 's result" where
  "scalar_from_bytes S bs = Inr (s_reduce S bs)"

definition scalar_from_random :: "('s, 'p) Suite \<Rightarrow> bytes \<Rightarrow> 's result" where
  "scalar_from_random S random = (let s = s_reduce S random in if s = s_zero S then Inl InvalidArgument else Inr s)"

definition vd_from_bytes :: "('s, 'p) Suite \<Rightarrow> bytes \<Rightarrow> Spake2pVerifierData result" where
  "vd_from_bytes S bs =
     (case (slice_get bs 0 GROUP_SIZE_BYTES, slice_get bs GROUP_SIZE_BYTES (GROUP_SIZE_BYTES + PUBLIC_KEY_SIZE_BYTES)) of
        (Some w0, Some l) \<Rightarrow>
          bindR (canonical_scalar S w0) (\<lambda>_. bindR (decode_point S l) (\<lambda>_. Inr \<lparr>vd_w0 = w0, vd_l = l\<rparr>))
      | _ \<Rightarrow> Inl InvalidArgument)"

definition tt_append :: "bytes \<Rightarrow> bytes \<Rightarrow> bytes" where
  "tt_append tt value = tt @ u64_bytes (word_of_nat (length value)) @ value"

record SpakeOutcome =
  oc_ca :: bytes
  oc_cb :: bytes
  oc_shared :: bytes

definition spake_finish ::
    "('s, 'p) Suite \<Rightarrow> bytes \<Rightarrow> bytes \<Rightarrow> bytes \<Rightarrow> bytes \<Rightarrow> bytes \<Rightarrow> 'p \<Rightarrow> 'p \<Rightarrow> 's \<Rightarrow> SpakeOutcome result" where
  "spake_finish S context prover_identity verifier_identity pa pb z v w0 =
     (let tt = tt_append (tt_append (tt_append [] context) prover_identity) verifier_identity in
      bindR (bindR (m_point S) (encode_point S)) (\<lambda>m.
      bindR (bindR (n_point S) (encode_point S)) (\<lambda>n.
      let tt = tt_append (tt_append (tt_append (tt_append tt m) n) pa) pb in
      bindR (encode_point S z) (\<lambda>zb.
      bindR (encode_point S v) (\<lambda>vb.
      let digest = su_sha256 S (tt_append (tt_append (tt_append tt zb) vb) (s_to_bytes S w0)) in
      case (slice_get digest 0 SYMMETRIC_KEY_LENGTH_BYTES, slice_from digest SYMMETRIC_KEY_LENGTH_BYTES) of
        (Some ka, Some ke) \<Rightarrow>
          bindR (crypto_kdf S ka [] CONFIRMATION_KEYS_INFO (2 * SYMMETRIC_KEY_LENGTH_BYTES)) (\<lambda>kc.
          case (slice_get kc 0 SYMMETRIC_KEY_LENGTH_BYTES, slice_from kc SYMMETRIC_KEY_LENGTH_BYTES) of
            (Some kca, Some kcb) \<Rightarrow>
              bindR (crypto_hmac S kca pb) (\<lambda>ca.
              bindR (crypto_hmac S kcb pa) (\<lambda>cb.
              Inr \<lparr>oc_ca = ca, oc_cb = cb, oc_shared = ke\<rparr>))
          | _ \<Rightarrow> Inl Platform)
      | _ \<Rightarrow> Inl Platform)))))"

definition spake_context :: "('s, 'p) Suite \<Rightarrow> bytes \<Rightarrow> bytes \<Rightarrow> bytes" where
  "spake_context S request response = su_sha256 S (CONTEXT_PREFIX @ request @ response)"

record 's Spake2pProver =
  pv_w0 :: 's
  pv_w1 :: 's
  pv_x :: 's
  pv_pa :: bytes

definition prover_from_scalars :: "('s, 'p) Suite \<Rightarrow> 's \<Rightarrow> 's \<Rightarrow> 's \<Rightarrow> 's Spake2pProver result" where
  "prover_from_scalars S w0 w1 x =
     bindR (m_point S) (\<lambda>m.
     bindR (encode_point S (p_add S (p_mul S (p_generator S) x) (p_mul S m w0))) (\<lambda>pa.
     Inr \<lparr>pv_w0 = w0, pv_w1 = w1, pv_x = x, pv_pa = pa\<rparr>))"

definition prover_new :: "('s, 'p) Suite \<Rightarrow> u32 \<Rightarrow> bytes \<Rightarrow> u32 \<Rightarrow> bytes \<Rightarrow> 's Spake2pProver result" where
  "prover_new S passcode salt iterations random =
     bindR (w0_w1 S passcode salt iterations) (\<lambda>(w0, w1).
     bindR (scalar_from_random S random) (\<lambda>x.
     prover_from_scalars S w0 w1 x))"

definition prover_from_parts :: "('s, 'p) Suite \<Rightarrow> bytes \<Rightarrow> bytes \<Rightarrow> bytes \<Rightarrow> 's Spake2pProver result" where
  "prover_from_parts S w0 w1 x =
     bindR (scalar_from_bytes S w0) (\<lambda>w0.
     bindR (scalar_from_bytes S w1) (\<lambda>w1.
     bindR (scalar_from_random S x) (\<lambda>x.
     prover_from_scalars S w0 w1 x)))"

definition prover_finish_with_identities ::
    "('s, 'p) Suite \<Rightarrow> 's Spake2pProver \<Rightarrow> bytes \<Rightarrow> bytes \<Rightarrow> bytes \<Rightarrow> bytes \<Rightarrow> (bytes \<times> bytes \<times> bytes) result" where
  "prover_finish_with_identities S self pb context prover_identity verifier_identity =
     bindR (decode_point S pb) (\<lambda>pb_point.
     bindR (n_point S) (\<lambda>n.
     let y_minus = p_sub S pb_point (p_mul S n (pv_w0 self));
         z = p_mul S y_minus (pv_x self);
         v = p_mul S y_minus (pv_w1 self) in
     bindR (spake_finish S context prover_identity verifier_identity (pv_pa self) pb z v (pv_w0 self)) (\<lambda>out.
     Inr (oc_ca out, oc_cb out, oc_shared out))))"

definition prover_finish :: "('s, 'p) Suite \<Rightarrow> 's Spake2pProver \<Rightarrow> bytes \<Rightarrow> bytes \<Rightarrow> (bytes \<times> bytes \<times> bytes) result" where
  "prover_finish S self pb context = prover_finish_with_identities S self pb context [] []"

record ('s, 'p) Spake2pVerifier =
  vf_w0 :: 's
  vf_l :: 'p
  vf_y :: 's
  vf_pb :: bytes

definition verifier_new :: "('s, 'p) Suite \<Rightarrow> Spake2pVerifierData \<Rightarrow> bytes \<Rightarrow> ('s, 'p) Spake2pVerifier result" where
  "verifier_new S d random =
     bindR (scalar_from_bytes S (vd_w0 d)) (\<lambda>w0.
     bindR (decode_point S (vd_l d)) (\<lambda>l.
     bindR (scalar_from_random S random) (\<lambda>y.
     bindR (n_point S) (\<lambda>n.
     bindR (encode_point S (p_add S (p_mul S (p_generator S) y) (p_mul S n w0))) (\<lambda>pb.
     Inr \<lparr>vf_w0 = w0, vf_l = l, vf_y = y, vf_pb = pb\<rparr>)))))"

definition verifier_from_parts :: "('s, 'p) Suite \<Rightarrow> bytes \<Rightarrow> bytes \<Rightarrow> bytes \<Rightarrow> ('s, 'p) Spake2pVerifier result" where
  "verifier_from_parts S w0 l y = verifier_new S \<lparr>vd_w0 = w0, vd_l = l\<rparr> y"

definition verifier_finish_with_identities ::
    "('s, 'p) Suite \<Rightarrow> ('s, 'p) Spake2pVerifier \<Rightarrow> bytes \<Rightarrow> bytes \<Rightarrow> bytes \<Rightarrow> bytes \<Rightarrow> (bytes \<times> bytes \<times> bytes) result" where
  "verifier_finish_with_identities S self pa context prover_identity verifier_identity =
     bindR (decode_point S pa) (\<lambda>pa_point.
     bindR (m_point S) (\<lambda>m.
     let z = p_mul S (p_sub S pa_point (p_mul S m (vf_w0 self))) (vf_y self);
         v = p_mul S (vf_l self) (vf_y self) in
     bindR (spake_finish S context prover_identity verifier_identity pa (vf_pb self) z v (vf_w0 self)) (\<lambda>out.
     Inr (oc_ca out, oc_cb out, oc_shared out))))"

definition verifier_finish :: "('s, 'p) Suite \<Rightarrow> ('s, 'p) Spake2pVerifier \<Rightarrow> bytes \<Rightarrow> bytes \<Rightarrow> (bytes \<times> bytes \<times> bytes) result" where
  "verifier_finish S self pa context = verifier_finish_with_identities S self pa context [] []"

section \<open>Agreement\<close>

text \<open>What is relied on of the crates: the points are an abelian group on which scalars act and commute, an encoding decodes to the point it encodes,
  a scalar's octets reduce to the scalar, and the digests have the lengths they are said to have.\<close>

definition group_ok :: "('s, 'p) Suite \<Rightarrow> bool" where
  "group_ok S \<longleftrightarrow>
     (\<forall>a b. p_sub S (p_add S a b) b = a)
   \<and> (\<forall>a s t. p_mul S (p_mul S a s) t = p_mul S (p_mul S a t) s)
   \<and> (\<forall>p bs. sec1_encode S p = Some bs \<longrightarrow> sec1_decode S bs = Some p \<and> length bs = 65)
   \<and> (\<forall>s. length (s_to_bytes S s) = 32 \<and> s_reduce S (s_to_bytes S s) = s)"

definition digests_ok :: "('s, 'p) Suite \<Rightarrow> bool" where
  "digests_ok S \<longleftrightarrow>
     (\<forall>bs. length (su_sha256 S bs) = 32) \<and> (\<forall>k m. \<exists>c. su_hmac S k m = Some c \<and> length c = 32) \<and> hkdf_ok (su_hkdf S)"

lemma encode_point_ok:
  assumes "group_ok S" and "encode_point S p = Inr bs"
  shows "decode_point S bs = Inr p" and "length bs = 65"
  using assms by (auto simp: group_ok_def encode_point_def decode_point_def split: option.splits if_splits)

lemma prover_scalars:
  assumes "prover_from_scalars S w0 w1 x = Inr pr"
  shows "\<exists>m. m_point S = Inr m \<and> pv_w0 pr = w0 \<and> pv_w1 pr = w1 \<and> pv_x pr = x
    \<and> encode_point S (p_add S (p_mul S (p_generator S) x) (p_mul S m w0)) = Inr (pv_pa pr)"
  using assms by (auto simp: prover_from_scalars_def bindR_ok_iff)

lemma verifier_parts:
  assumes "verifier_new S d random = Inr v"
  shows "\<exists>n. n_point S = Inr n \<and> vf_w0 v = s_reduce S (vd_w0 d) \<and> decode_point S (vd_l d) = Inr (vf_l v)
    \<and> encode_point S (p_add S (p_mul S (p_generator S) (vf_y v)) (p_mul S n (vf_w0 v))) = Inr (vf_pb v)"
  using assms by (auto simp: verifier_new_def bindR_ok_iff scalar_from_bytes_def)

text \<open>C40: A prover with the passcode and a verifier with the data derived from it agree.  With the same passcode, salt and iteration count, whatever the two ephemeral scalars,
  the transcript context and the identities, both sides come to the same result from each other's share: the same two
  confirmations and the same secret, or the same error.\<close>

theorem spake_agrees:
  assumes "group_ok S" and "vd_from_passcode S passcode salt iterations = Inr d"
    and "prover_new S passcode salt iterations x = Inr pr" and "verifier_new S d y = Inr v"
  shows "prover_finish_with_identities S pr (vf_pb v) context pid vid = verifier_finish_with_identities S v (pv_pa pr) context pid vid"
proof -
  obtain w0 w1 where w: "w0_w1 S passcode salt iterations = Inr (w0, w1)"
    "vd_w0 d = s_to_bytes S w0" "encode_point S (p_mul S (p_generator S) w1) = Inr (vd_l d)"
    using assms(2) by (auto simp: vd_from_passcode_def bindR_ok_iff)
  obtain xs where "prover_from_scalars S w0 w1 xs = Inr pr" using assms(3) w(1) by (auto simp: prover_new_def bindR_ok_iff)
  then obtain m where p: "m_point S = Inr m" "pv_w0 pr = w0" "pv_w1 pr = w1"
    "encode_point S (p_add S (p_mul S (p_generator S) (pv_x pr)) (p_mul S m w0)) = Inr (pv_pa pr)"
    using prover_scalars [of S w0 w1 xs pr] by auto
  have r: "s_reduce S (s_to_bytes S w0) = w0" and add: "\<And>a b. p_sub S (p_add S a b) b = a"
    and mul: "\<And>a s t. p_mul S (p_mul S a s) t = p_mul S (p_mul S a t) s" using assms(1) unfolding group_ok_def by blast+
  obtain n where v: "n_point S = Inr n" "vf_w0 v = w0" "decode_point S (vd_l d) = Inr (vf_l v)"
    "encode_point S (p_add S (p_mul S (p_generator S) (vf_y v)) (p_mul S n w0)) = Inr (vf_pb v)"
    using verifier_parts [OF assms(4)] w(2) r by auto
  have l: "vf_l v = p_mul S (p_generator S) w1" using encode_point_ok(1) [OF assms(1) w(3)] v(3) by simp
  note pb = encode_point_ok(1) [OF assms(1) v(4)] and pa = encode_point_ok(1) [OF assms(1) p(4)]
  have z: "p_mul S (p_mul S (p_generator S) (vf_y v)) (pv_x pr) = p_mul S (p_mul S (p_generator S) (pv_x pr)) (vf_y v)"
    and z': "p_mul S (p_mul S (p_generator S) (vf_y v)) w1 = p_mul S (p_mul S (p_generator S) w1) (vf_y v)" by (rule mul)+
  show ?thesis unfolding prover_finish_with_identities_def verifier_finish_with_identities_def
    by (simp only: pa pb p v l add z z' bindR_simps Let_def)
qed

text \<open>A group in which the hypotheses hold: the octets under addition, with multiplication as the action.\<close>

definition demo_suite :: "(u8, u8) Suite" where
  "demo_suite = \<lparr>p_generator = 1, p_add = (+), p_sub = (-), p_mul = (*), s_zero = 0, s_add = (+), s_mul = (*), s_from_u64 = ucast,
     s_to_bytes = (\<lambda>s. replicate 31 0 @ [s]), s_reduce = (\<lambda>bs. if bs = [] then 0 else last bs),
     s_from_repr = (\<lambda>bs. if bs = [] then None else Some (last bs)),
     sec1_decode = (\<lambda>bs. if bs = [] \<or> last bs = 0 then None else Some (last bs)),
     sec1_encode = (\<lambda>p. if p = 0 then None else Some (replicate 64 0 @ [p])),
     su_sha256 = (\<lambda>bs. replicate 31 0 @ [sum_list bs]), su_hmac = (\<lambda>k m. Some (replicate 31 0 @ [sum_list (k @ m)])),
     su_hkdf = (\<lambda>ikm salt info n. if n \<le> 255 * 32 then Some (replicate n (sum_list ikm)) else None),
     su_pbkdf2 = (\<lambda>password salt iterations n. Some (replicate n 1))\<rparr>"

lemma demo_group_ok: "group_ok demo_suite"
  by (simp add: group_ok_def demo_suite_def mult.assoc mult.commute mult.left_commute)

lemma demo_reduce: "reduce_loop demo_suite acc (replicate n 1) = (if n = 0 then acc else 1)"
proof (induction n arbitrary: acc)
  case (Suc n)
  have "(256 :: u8) = 0" by (rule unsigned_word_eqI) simp
  then have "acc * (256 :: u8) = 0" by (simp only: mult_zero_right)
  then show ?case using Suc by (simp add: demo_suite_def)
qed simp

lemma demo_w0_w1: "w0_w1 demo_suite passcode (replicate 16 7) 1000 = Inr (1, 1)"
proof -
  have "crypto_pbkdf demo_suite (u32_bytes passcode) (replicate 16 7) 1000 80 = Inr (replicate 80 1)"
    by (simp add: crypto_pbkdf_def demo_suite_def PBKDF_ITERATIONS_MIN_def PBKDF_ITERATIONS_MAX_def PBKDF_SALT_MIN_BYTES_def PBKDF_SALT_MAX_BYTES_def)
  then show ?thesis
    by (simp add: w0_w1_def W_SIZE_BYTES_def GROUP_SIZE_BYTES_def slice_get_def slice_from_def reduce_wide_def demo_reduce)
qed

lemma demo_points: "m_point demo_suite = Inr 0x2f" "n_point demo_suite = Inr 0x49"
  by (simp_all add: m_point_def n_point_def decode_point_def demo_suite_def M_COMPRESSED_def N_COMPRESSED_def)

lemma demo_encode: "encode_point demo_suite p = (if p = 0 then Inl InvalidArgument else Inr (replicate 64 0 @ [p]))"
  by (simp add: encode_point_def demo_suite_def PUBLIC_KEY_SIZE_BYTES_def GROUP_SIZE_BYTES_def)

theorem spake_agrees_witness:
  "prover_finish_with_identities demo_suite \<lparr>pv_w0 = 1, pv_w1 = 1, pv_x = 5, pv_pa = replicate 64 0 @ [0x34]\<rparr> (replicate 64 0 @ [0x50]) [9] [] []
   = verifier_finish_with_identities demo_suite \<lparr>vf_w0 = 1, vf_l = 1, vf_y = 7, vf_pb = replicate 64 0 @ [0x50]\<rparr> (replicate 64 0 @ [0x34]) [9] [] []"
proof -
  let ?x = "replicate 31 0 @ [5] :: bytes" and ?y = "replicate 31 0 @ [7] :: bytes" and ?d = "\<lparr>vd_w0 = replicate 31 0 @ [1], vd_l = replicate 64 0 @ [1]\<rparr>"
  have d: "vd_from_passcode demo_suite 20202021 (replicate 16 7) 1000 = Inr ?d"
    using demo_encode [of 1] by (simp add: vd_from_passcode_def demo_w0_w1) (simp add: demo_suite_def)
  have x: "scalar_from_random demo_suite ?x = Inr 5" and y: "scalar_from_random demo_suite ?y = Inr 7"
    by (simp_all add: scalar_from_random_def demo_suite_def)
  have p: "prover_new demo_suite 20202021 (replicate 16 7) 1000 ?x = Inr \<lparr>pv_w0 = 1, pv_w1 = 1, pv_x = 5, pv_pa = replicate 64 0 @ [0x34]\<rparr>"
    using demo_encode [of "0x34"] by (simp add: prover_new_def demo_w0_w1 x prover_from_scalars_def demo_points) (simp add: demo_suite_def)
  have v: "verifier_new demo_suite ?d ?y = Inr \<lparr>vf_w0 = 1, vf_l = 1, vf_y = 7, vf_pb = replicate 64 0 @ [0x50]\<rparr>"
    using demo_encode [of "0x50"] by (simp add: verifier_new_def y demo_points) (simp add: demo_suite_def scalar_from_bytes_def decode_point_def)
  show ?thesis by (rule spake_agrees [OF demo_group_ok d p v, simplified Spake2pProver.select_convs Spake2pVerifier.select_convs])
qed

lemma bindR_okE:
  assumes "bindR r f = Inr b" obtains a where "r = Inr a" and "f a = Inr b"
  using assms by (auto simp: bindR_ok_iff)

lemma spake_finish_lengths:
  assumes "digests_ok S" and "spake_finish S context pid vid pa pb z v w0 = Inr out"
  shows "length (oc_ca out) = 32" and "length (oc_cb out) = 32" and "length (oc_shared out) = 16"
proof -
  have h: "length c = 32" if "crypto_hmac S k m = Inr c" for k m c
    using assms(1) that unfolding digests_ok_def crypto_hmac_def by (metis ok_or_simps(2) sum.inject(2))
  have d: "length (su_sha256 S bs) = 32" for bs using assms(1) by (simp add: digests_ok_def)
  have s: "slice_from (su_sha256 S tt) 16 = Some ke \<Longrightarrow> length ke = 16" for tt ke using d [of tt] by (auto simp: slice_from_def)
  have "\<exists>kca kcb. crypto_hmac S kca pb = Inr (oc_ca out) \<and> crypto_hmac S kcb pa = Inr (oc_cb out) \<and> length (oc_shared out) = 16"
    using assms(2) unfolding spake_finish_def Let_def SYMMETRIC_KEY_LENGTH_BYTES_def
    apply (elim bindR_okE)
    apply (simp split: option.splits)
    apply (elim bindR_okE)
    apply (simp split: option.splits)
    apply (elim bindR_okE)
    apply (drule s)
    by auto
  then show "length (oc_ca out) = 32" "length (oc_cb out) = 32" "length (oc_shared out) = 16" using h by auto
qed

end
