(* ===== verification/Spec2Isabelle.thy ===== *)
theory Spec2Isabelle
  imports Prelude Bytes Msg_Counter Msg_Ids Msg_Header Tlv_Types Tlv_Reader Tlv_Writer Tlv_Raw
    Platform_Time Mrp Keyed_Table Exchange_Table Msg_Security Session Dm_Access Im_Path Dm_Node Acl
    Sc_Status Messaging Messaging_State Im_Status Im_Timed Fail_Safe Btp Btp_Link
    Onboarding Onboarding_Code Im_Subscription Im_Subscription_Table
    Bdx_Message Bdx_Transfer Bdx_Link Dm_Events Dm_Version Transport_Tcp
    Im_Atomic Pase_Admission Spake2p
begin

text \<open>
  Verification of matter-kit, a Rust implementation of the Matter smart-home protocol
  (\<^verbatim>\<open>src/src\<close>).  The development models the protocol core that every node runs, from the octets on
  the wire to the decision whether a requester may touch an attribute, and proves it correct.

  \<^bold>\<open>How the parts fit.\<close>  A datagram reaches \<^verbatim>\<open>Messaging::receive\<close>.  It peeks at the header, finds the
  session, opens the message under the session's keys, asks the session's replay window for a
  verdict, decodes the protocol header, routes the message to an exchange and feeds that
  exchange's reliability machine.  Sending goes the other way: an exchange's acknowledgement is
  piggybacked, a counter is taken, headers and payload are framed and sealed, and a reliable
  message is scheduled for retransmission.  \<^verbatim>\<open>poll\<close> drives the timers.  What is handed up is TLV; the
  Interaction Model names attributes by paths, which are expanded over the node's data model and
  judged by the access control list under the identity of the session they came in on.

  \<^bold>\<open>Theories and sources.\<close>
  \<^item> \<open>Prelude\<close>: machine integers, \<^verbatim>\<open>ErrorCode\<close> (\<^verbatim>\<open>error.rs\<close>), the result-and-state monad of \<^verbatim>\<open>&mut self\<close>
    methods, \<^verbatim>\<open>heapless::Vec\<close>, and the rules for methods that keep a predicate (\<open>keeps\<close>).
  \<^item> \<open>Keyed_Table\<close>: the interfaces \<open>keyed_table\<close>, \<open>bounded_table\<close> and \<open>fabric_scoped\<close>, whose lemmas every
    table of the crate inherits by interpretation, and the search for an unused identifier.
  \<^item> \<open>Bytes\<close> (\<^verbatim>\<open>bytes.rs\<close>): the byte cursor; the interface \<open>wire_codec\<close> of an encoder and its decoder.
  \<^item> \<open>Msg_Ids\<close>, \<open>Msg_Header\<close>, \<open>Msg_Counter\<close>, \<open>Msg_Security\<close> (\<^verbatim>\<open>msg/\<close>, \<^verbatim>\<open>crypto/\<close>): identifiers, both headers,
    replay windows and counters, and the protection of a message.
  \<^item> \<open>Tlv_Types\<close>, \<open>Tlv_Reader\<close>, \<open>Tlv_Writer\<close>, \<open>Tlv_Raw\<close> (\<^verbatim>\<open>tlv/\<close>, \<^verbatim>\<open>put_block\<close> of \<^verbatim>\<open>im/server.rs\<close>): the encoding, the pull reader, the push writer,
    and documents made of any of its calls, raw copies and blocks taken back included.
  \<^item> \<open>Platform_Time\<close>, \<open>Mrp\<close>, \<open>Exchange_Table\<close> (\<^verbatim>\<open>platform/time.rs\<close>, \<^verbatim>\<open>exchange/\<close>): saturating clocks, the
    reliability machine of one exchange, and the table of exchanges.
  \<^item> \<open>Session\<close> (\<^verbatim>\<open>session.rs\<close>): secure sessions, their keys, the session table.
  \<^item> \<open>Sc_Status\<close> (\<^verbatim>\<open>sc/status.rs\<close>): status reports.
  \<^item> \<open>Messaging\<close>, \<open>Messaging_State\<close> (\<^verbatim>\<open>messaging.rs\<close>): the message layer, and its behaviour over time.
  \<^item> \<open>Dm_Access\<close>, \<open>Im_Path\<close>, \<open>Dm_Node\<close> (\<^verbatim>\<open>dm/\<close>, \<^verbatim>\<open>im/path.rs\<close>): privileges, paths, the node's tables, resolution
    and the resumable wildcard expansion.
  \<^item> \<open>Acl\<close> (\<^verbatim>\<open>acl.rs\<close>): the access control list and its decision.
  \<^item> \<open>Im_Status\<close>, \<open>Im_Timed\<close> (\<^verbatim>\<open>im/status.rs\<close>, \<^verbatim>\<open>im/timed.rs\<close>): status codes, and the windows of timed requests.
  \<^item> \<open>Fail_Safe\<close> (\<^verbatim>\<open>commissioning/failsafe.rs\<close>, \<^verbatim>\<open>commissioning/window.rs\<close>): the fail-safe timer and its context, and the
    commissioning window.
  \<^item> \<open>Btp\<close>, \<open>Btp_Link\<close> (\<^verbatim>\<open>transport/btp.rs\<close>): one end of the Bluetooth transport, and two ends over a link.
  \<^item> \<open>Onboarding\<close>, \<open>Onboarding_Code\<close> (\<^verbatim>\<open>commissioning/payload.rs\<close>): the QR code and the manual pairing code.
  \<^item> \<open>Im_Subscription\<close>, \<open>Im_Subscription_Table\<close> (\<^verbatim>\<open>im/subscription.rs\<close>, \<^verbatim>\<open>im/persist.rs\<close>): subscriptions, what and when they report,
    and the table of them with its share per fabric.
  \<^item> \<open>Bdx_Message\<close>, \<open>Bdx_Transfer\<close>, \<open>Bdx_Link\<close> (\<^verbatim>\<open>bdx/\<close>): the messages of the bulk data exchange, the negotiation and the two halves of a
    transfer, and a transfer between two ends over a link.
  \<^item> \<open>Dm_Events\<close>, \<open>Dm_Version\<close> (\<^verbatim>\<open>dm/events.rs\<close>, \<^verbatim>\<open>dm/version.rs\<close>): the event log, and the data versions of clusters with the list of what
    changed.
  \<^item> \<open>Transport_Tcp\<close> (\<^verbatim>\<open>transport/tcp.rs\<close>): messages framed onto a stream, and made of it again.
  \<^item> \<open>Im_Atomic\<close> (\<^verbatim>\<open>im/atomic.rs\<close>): the claims of atomic writes.
  \<^item> \<open>Pase_Admission\<close> (\<^verbatim>\<open>commissioning/admission.rs\<close>): which PASE requests a node answers.
  \<^item> \<open>Spake2p\<close> (\<^verbatim>\<open>crypto/spake2p.rs\<close>): the password-authenticated key exchange under PASE.

  \<^bold>\<open>Modelling conventions.\<close>  A struct is a record, an enum a datatype, a \<^verbatim>\<open>uN\<close> a word of \<open>N\<close> bits with the
  source's wrapping, checked or saturating operation; \<^verbatim>\<open>usize\<close> is a natural number and the additions
  the source checks are checked against \<open>2 ^ 64 - 1\<close>.  A fallible method returns \<open>ErrorCode + 'a\<close>
  together with the receiver it leaves behind, so that what moved before an error is visible.
  Caller buffers are arguments and results.  Const generics (\<^verbatim>\<open>S\<close>, \<^verbatim>\<open>X\<close>, \<^verbatim>\<open>N\<close>) and the associated constants
  of \<^verbatim>\<open>Config\<close> are parameters.  The block cipher, CCM, HKDF, the curve and the digests are third-party: they are record
  parameters, and what the code relies on (lengths, decryption inverts encryption) is a named
  predicate (\<open>cipher_ok\<close>, \<open>hkdf_ok\<close>, \<open>group_ok\<close>) shown satisfiable by a concrete instance.

  \<^bold>\<open>What is shown.\<close>  Round trips: headers, frames, protected messages, TLV documents and fragments,
  status reports.  Refinements: the 32-bit replay windows give the verdict of the complete
  history; \<^verbatim>\<open>validate\<close> accepts exactly the grammar of documents; the path iterator yields exactly the
  matching attributes and may be stopped and resumed anywhere; the decision of the access control
  list is the existence of an applicable entry.  Invariants, by induction over reachable states:
  the session, exchange and access control tables and both tables of the message layer.  Safety:
  no counter is handed up twice, fabrics are isolated, a removed fabric is locked out: its sessions and
  their exchanges are gone, its identities are denied, and no other fabric notices.  Termination and liveness: the timer
  loops end, a message that is never acknowledged is given up, a node may sleep until \<^verbatim>\<open>wake_at\<close>.
  Two ends of the Bluetooth transport deliver every message whole and in order under any
  interleaving and are never stuck; a fail-safe context is never dropped in silence nor held beyond its limit; one
  timed request pays for one request; labels read back as what was printed and mistyped codes are refused; no change noted
  between reports is lost to a subscriber, and a fabric below its share always gets its subscription, whatever the node has been through;
  a bulk transfer delivers the file under any interleaving, and ends; event numbers increase across restarts, and the
  event store reads as the log it is; a data version counts the changes of its cluster, and every change reaches its subscribers;
  a stream cut anywhere yields its messages, and none behind a lost boundary; a claimed attribute is one client's;
  guesses at the passcode are rationed, and the two sides of SPAKE2+ agree.
  End to end, \<open>message_delivered_once\<close> composes the layers.  Four theorems show defects
  (\<open>due_acknowledgement_is_lost\<close>, \<open>retag_keeps_wide_zeros\<close>, \<open>skip_past_end_refused\<close>, \<open>change_behind_cursor_is_lost\<close>), and
  \<open>writer_program_read_back\<close> names the one document the writer finishes and the reader refuses.

  \<^bold>\<open>Bounds and fuel.\<close>  No definition of the program runs on fuel that can run out: the identifier
  search makes the 65536 attempts the source's loop makes, the other loops recurse on lists, on a
  strictly shrinking input or on the measure their \<^theory_text>\<open>termination\<close> proof names.

  \<^bold>\<open>Not modelled.\<close>  Generated clusters and device types (tables without logic), the server clusters and the
  Interaction Model server built on them, PASE, CASE and certificates (cryptographic exchanges over
  third-party primitives), discovery, commissioning user flows, platform glue, examples and tools.
  The table of components in the manifest says for each part why.
\<close>

definition demo_operational :: SecureSession where
  "demo_operational = (session_new 5 5 CaseSession SessionResponder demo_keys 7 0)\<lparr>ss_fabric_index := 1, ss_peer_node_id := 5\<rparr>"

definition demo_joined :: Messaging where
  "demo_joined = fst (snd (install_session demo_cipher 4 4 demo_operational 0 0 [] (messaging_new 1 1 0, [])))"

lemma demo_joined_find: "st_find 5 (mg_sessions demo_joined) = Some demo_operational"
  by (simp add: demo_joined_def install_session_def messaging_new_def st_new_def st_insert_def on_state_def on_sessions_def
      vec_push_def st_find_def demo_operational_def session_new_def bindE_def Let_def)

lemma demo_joined_admin:
  "acl_allows demo_acl_config [] (subject_from_session demo_operational None) 0 31 Manage
     [(entry_case 1 Administer)\<lparr>en_subjects := [5]\<rparr>] = AccessGranted"
proof -
  have "\<forall>e \<in> set [(entry_case 1 Administer)\<lparr>en_subjects := [5]\<rparr>]. entry_is_well_formed e"
    by (simp add: entry_is_well_formed_def entry_case_def subject_is_valid_def node_id_kind_def OPERATIONAL_MIN_def OPERATIONAL_MAX_def
        word_le_nat_alt)
  from granted_iff [OF this, of Manage] show ?thesis
    by (simp add: acl_allows_def demo_operational_def session_new_def subject_from_session_def Let_def commissioning_session_def
        subject_case_def entry_applies_def entry_case_def entry_subject_matches_def subject_matches_def entry_target_matches_def grants_iff
        less_eq_Privilege_def)
qed

text \<open>C13: Removing a fabric, at the message layer and in the access control list, locks it out and nobody else.  Of a session of
  the fabric nothing is left: a unicast message that names it
  (by an identifier other than that of unsecured messages) is refused as having no session and moves no state, nothing can be sent on
  an exchange of it, and the identity a CASE session proved is denied every privilege.  A session of any other fabric is found
  as it was, its exchanges too, and it is allowed exactly what it was allowed before.\<close>

theorem removed_fabric_is_locked_out:
  assumes "mg_reachable C S X m" and "st_find i (mg_sessions m) = Some x"
    and m': "m' = snd (mg_remove_fabric f m)" and l': "l' = acl_remove_fabric f l"
  shows "if ss_fabric_index x = f
    then st_find i (mg_sessions m') = None
      \<and> (i \<noteq> SessionId_UNSECURED \<and> preview buf = Inr head \<and> pv_session_id head = i \<and> pv_session_type head \<noteq> GroupSession \<longrightarrow>
          receive C X buf origin now m' = (Inl NoSession, m'))
      \<and> (xk_session k = i \<longrightarrow>
          send C k opcode reliable payload now randomness scratch (m', out) = (Inl NoExchange, (m', out)))
      \<and> (ss_kind x = CaseSession \<longrightarrow> acl_allows A n (subject_from_session x pending) ep cl required l' = AccessDenied)
    else st_find i (mg_sessions m') = Some x
      \<and> (xk_session k = i \<longrightarrow> et_find k (mg_exchanges m') = et_find k (mg_exchanges m))
      \<and> acl_allows A n (subject_from_session x pending) ep cl required l'
          = acl_allows A n (subject_from_session x pending) ep cl required l"
proof (cases "ss_fabric_index x = f")
  case True
  note r = mg_remove_fabric_find [OF mg_reachable_inv [OF assms(1)] assms(2), where f = f, folded m']
  have s: "st_find i (mg_sessions m') = None" using r(1) True by simp
  have "receive C X buf origin now m' = (Inl NoSession, m')"
    if "i \<noteq> SessionId_UNSECURED" "preview buf = Inr head" "pv_session_id head = i" "pv_session_type head \<noteq> GroupSession"
    using that s by (simp add: receive_def open_message_def)
  moreover have "send C k opcode reliable payload now randomness scratch (m', out) = (Inl NoExchange, (m', out))" if "xk_session k = i"
    using r(2) [OF that] True by (simp add: send_def)
  moreover have "acl_allows A n (subject_from_session x pending) ep cl required l' = AccessDenied" if "ss_kind x = CaseSession"
    using granted_removed [OF _ case_not_commissioning [OF that]] True by (simp add: l' acl_allows_def subject_fabric granted_has_def)
  ultimately show ?thesis using True s by simp
next
  case False
  note r = mg_remove_fabric_find [OF mg_reachable_inv [OF assms(1)] assms(2), where f = f, folded m']
  show ?thesis using False r granted_other_fabric by (simp add: l' acl_allows_def subject_fabric)
qed

theorem removed_fabric_is_locked_out_witness:
  "acl_allows demo_acl_config [] (subject_from_session demo_operational None) 0 31 Manage
      [(entry_case 1 Administer)\<lparr>en_subjects := [5]\<rparr>] = AccessGranted
   \<and> acl_allows demo_acl_config [] (subject_from_session demo_operational None) 0 31 Manage
      (acl_remove_fabric 1 [(entry_case 1 Administer)\<lparr>en_subjects := [5]\<rparr>]) = AccessDenied
   \<and> st_find 5 (mg_sessions (snd (mg_remove_fabric 1 demo_joined))) = None
   \<and> st_find 5 (mg_sessions (snd (mg_remove_fabric 2 demo_joined))) = Some demo_operational"
proof -
  have r: "mg_reachable demo_cipher 4 4 demo_joined"
    unfolding demo_joined_def by (intro mg_reachable.install_session mg_reachable.new)
  have "ss_fabric_index demo_operational = 1" "ss_kind demo_operational = CaseSession"
    by (simp_all add: demo_operational_def session_new_def)
  then show ?thesis
    using demo_joined_admin removed_fabric_is_locked_out [OF r demo_joined_find refl refl, where f = 1]
      removed_fabric_is_locked_out [OF r demo_joined_find refl refl, where f = 2] by simp
qed

end
